(* ===== verification/Yonix_Prelude.thy ===== *)
theory Yonix_Prelude
  imports Main "HOL-Library.Word"
begin

unbundle bit_operations_syntax

text \<open>
  What the component theories share: the machine types of the kernel, the result type of a
  kernel routine (it returns, goes to sleep, panics or makes an undefined access), the
  combinators the translated routines are written with, the two proof notions used for them
  (weakest preconditions and preserved state predicates), and the little-endian access to
  byte memory and to byte blocks.
\<close>

section \<open>Machine types\<close>

type_synonym byte = "8 word"
type_synonym u16 = "16 word"
type_synonym u32 = "32 word"
type_synonym addr = "32 word"
type_synonym memory = "addr \<Rightarrow> byte"

text \<open>
  A sleep channel is the address of a kernel object (\<^verbatim>\<open>void *p_chan\<close>). The objects the
  kernel sleeps on are distinct, so the channel is a datatype with one constructor per kind
  of object; \<open>NoChan\<close> is the null pointer.
\<close>

datatype chan =
    NoChan
  | ChProc nat
  | ChTicks
  | ChBufLock nat
  | ChInodeLock nat
  | ChLog
  | ChPipeRead addr
  | ChPipeWrite addr
  | ChSem addr
  | ChInput
  | ChBuf nat

section \<open>Kernel routines\<close>

text \<open>
  \<open>Done a s\<close>: the routine returned \<open>a\<close>. \<open>Slept c s\<close>: it called \<^verbatim>\<open>sleep(c)\<close>; \<open>s\<close> is the
  state at that moment, with the routine's own part of the work done so far. \<open>Panicked\<close>:
  \<^verbatim>\<open>panic\<close>, which never returns. \<open>Fault\<close>: an access C leaves undefined (a null pointer, an
  index outside an array, memory that was freed).
\<close>

datatype ('s, 'a) outcome =
    Done 'a 's
  | Slept chan 's
  | Panicked string
  | Fault

type_synonym ('s, 'a) kop = "'s \<Rightarrow> ('s, 'a) outcome"

definition kret :: "'a \<Rightarrow> ('s, 'a) kop" where
  "kret a = (\<lambda>s. Done a s)"

definition kbind :: "('s, 'a) kop \<Rightarrow> ('a \<Rightarrow> ('s, 'b) kop) \<Rightarrow> ('s, 'b) kop" where
  "kbind m f = (\<lambda>s. case m s of
      Done a t \<Rightarrow> f a t
    | Slept c t \<Rightarrow> Slept c t
    | Panicked p \<Rightarrow> Panicked p
    | Fault \<Rightarrow> Fault)"

definition kseq :: "('s, 'a) kop \<Rightarrow> ('s, 'b) kop \<Rightarrow> ('s, 'b) kop" where
  "kseq m n = kbind m (\<lambda>_. n)"

definition kget :: "('s \<Rightarrow> 'a) \<Rightarrow> ('s, 'a) kop" where
  "kget f = (\<lambda>s. Done (f s) s)"

definition kmod :: "('s \<Rightarrow> 's) \<Rightarrow> ('s, unit) kop" where
  "kmod f = (\<lambda>s. Done () (f s))"

definition kpanic :: "string \<Rightarrow> ('s, 'a) kop" where
  "kpanic msg = (\<lambda>s. Panicked msg)"

definition kfault :: "('s, 'a) kop" where
  "kfault = (\<lambda>s. Fault)"

definition ksleep :: "chan \<Rightarrow> ('s, 'a) kop" where
  "ksleep c = (\<lambda>s. Slept c s)"

definition kwhen :: "bool \<Rightarrow> ('s, unit) kop \<Rightarrow> ('s, unit) kop" where
  "kwhen b m = (if b then m else kret ())"

text \<open>A loop over a list of values (the indices of an array), with no early exit.\<close>

primrec kfor :: "'x list \<Rightarrow> ('x \<Rightarrow> ('s, unit) kop) \<Rightarrow> ('s, unit) kop" where
  "kfor [] f = kret ()"
| "kfor (x # xs) f = kseq (f x) (kfor xs f)"

named_theorems kop_simps "one-step evaluation of the combinators on a state"

lemma kret_eval [kop_simps]: "kret a s = Done a s"
  by (simp add: kret_def)

lemma kbind_eval [kop_simps]:
  "kbind m f s = (case m s of
      Done a t \<Rightarrow> f a t
    | Slept c t \<Rightarrow> Slept c t
    | Panicked p \<Rightarrow> Panicked p
    | Fault \<Rightarrow> Fault)"
  by (simp add: kbind_def)

lemma kseq_eval [kop_simps]:
  "kseq m n s = (case m s of
      Done a t \<Rightarrow> n t
    | Slept c t \<Rightarrow> Slept c t
    | Panicked p \<Rightarrow> Panicked p
    | Fault \<Rightarrow> Fault)"
  by (simp add: kseq_def kbind_def)

lemma kget_eval [kop_simps]: "kget f s = Done (f s) s"
  by (simp add: kget_def)

lemma kmod_eval [kop_simps]: "kmod f s = Done () (f s)"
  by (simp add: kmod_def)

lemma kpanic_eval [kop_simps]: "kpanic msg s = Panicked msg"
  by (simp add: kpanic_def)

lemma kfault_eval [kop_simps]: "kfault s = Fault"
  by (simp add: kfault_def)

lemma ksleep_eval [kop_simps]: "ksleep c s = Slept c s"
  by (simp add: ksleep_def)

lemma kwhen_eval [kop_simps]: "kwhen b m s = (if b then m s else Done () s)"
  by (simp add: kwhen_def kret_def)

lemma kfor_append: "kfor (xs @ ys) f s = kseq (kfor xs f) (kfor ys f) s"
  by (induction xs arbitrary: s) (simp_all add: kop_simps split: outcome.split)

lemma kseq_assoc: "kseq (kseq a b) c = kseq a (kseq b c)"
  by (rule ext) (simp add: kop_simps split: outcome.split)

lemma kfor_id: "(\<And>x. x \<in> set xs \<Longrightarrow> f x s = Done () s) \<Longrightarrow> kfor xs f s = Done () s"
  by (induction xs) (simp_all add: kop_simps)

subsection \<open>Weakest preconditions\<close>

text \<open>
  \<open>wp tot m Q s\<close>: run from \<open>s\<close>, a return of \<open>m\<close> satisfies \<open>Q\<close>; with \<open>tot = True\<close> the
  routine also does return (no sleep, no panic, no fault).
\<close>

definition wp :: "bool \<Rightarrow> ('s, 'a) kop \<Rightarrow> ('a \<Rightarrow> 's \<Rightarrow> bool) \<Rightarrow> 's \<Rightarrow> bool" where
  "wp tot m Q s = (case m s of Done a t \<Rightarrow> Q a t | _ \<Rightarrow> \<not> tot)"

named_theorems wp_simps "weakest preconditions of the combinators and of specified routines"

lemma wp_kret [wp_simps]: "wp tot (kret a) Q s = Q a s"
  by (simp add: wp_def kop_simps)

lemma wp_kbind [wp_simps]: "wp tot (kbind m f) Q s = wp tot m (\<lambda>a. wp tot (f a) Q) s"
  by (simp add: wp_def kop_simps split: outcome.split)

lemma wp_kseq [wp_simps]: "wp tot (kseq m n) Q s = wp tot m (\<lambda>_. wp tot n Q) s"
  by (simp add: kseq_def wp_simps)

lemma wp_kget [wp_simps]: "wp tot (kget f) Q s = Q (f s) s"
  by (simp add: wp_def kop_simps)

lemma wp_kmod [wp_simps]: "wp tot (kmod f) Q s = Q () (f s)"
  by (simp add: wp_def kop_simps)

lemma wp_kpanic [wp_simps]: "wp tot (kpanic msg) Q s \<longleftrightarrow> \<not> tot"
  by (simp add: wp_def kop_simps)

lemma wp_kfault [wp_simps]: "wp tot kfault Q s \<longleftrightarrow> \<not> tot"
  by (simp add: wp_def kop_simps)

lemma wp_ksleep [wp_simps]: "wp tot (ksleep c) Q s \<longleftrightarrow> \<not> tot"
  by (simp add: wp_def kop_simps)

lemma wp_kwhen [wp_simps]: "wp tot (kwhen b m) Q s = (if b then wp tot m Q s else Q () s)"
  by (simp add: wp_def kop_simps)

lemma wp_if [wp_simps]:
  "wp tot (if b then m else n) Q s = (if b then wp tot m Q s else wp tot n Q s)"
  by simp

lemma wp_mono: "wp tot m P s \<Longrightarrow> (\<And>a t. P a t \<Longrightarrow> Q a t) \<Longrightarrow> wp tot m Q s"
  by (auto simp: wp_def split: outcome.splits)

lemma wp_Done: "m s = Done a t \<Longrightarrow> wp tot m Q s = Q a t"
  by (simp add: wp_def)

lemma wp_total_iff: "wp True m Q s \<longleftrightarrow> (\<exists>a t. m s = Done a t \<and> Q a t)"
  by (auto simp: wp_def split: outcome.splits)

subsection \<open>Preserved predicates\<close>

text \<open>
  \<open>preserves I m\<close>: started in a state satisfying \<open>I\<close>, the state satisfies \<open>I\<close> again whenever
  \<open>m\<close> returns and whenever it goes to sleep, that is whenever other code can see it.
\<close>

definition preserves :: "('s \<Rightarrow> bool) \<Rightarrow> ('s, 'a) kop \<Rightarrow> bool" where
  "preserves I m \<longleftrightarrow> (\<forall>s. I s \<longrightarrow>
     (\<forall>a t. m s = Done a t \<longrightarrow> I t) \<and> (\<forall>c t. m s = Slept c t \<longrightarrow> I t))"

lemma preservesI:
  assumes "\<And>s a t. I s \<Longrightarrow> m s = Done a t \<Longrightarrow> I t"
    and "\<And>s c t. I s \<Longrightarrow> m s = Slept c t \<Longrightarrow> I t"
  shows "preserves I m"
  unfolding preserves_def using assms by blast

lemma preserves_Done: "preserves I m \<Longrightarrow> I s \<Longrightarrow> m s = Done a t \<Longrightarrow> I t"
  unfolding preserves_def by blast

lemma preserves_Slept: "preserves I m \<Longrightarrow> I s \<Longrightarrow> m s = Slept c t \<Longrightarrow> I t"
  unfolding preserves_def by blast

text \<open>\<open>keeps f m\<close>: the routine does not change the component \<open>f\<close> of the state.\<close>

definition keeps :: "('s \<Rightarrow> 'v) \<Rightarrow> ('s, 'a) kop \<Rightarrow> bool" where
  "keeps f m \<longleftrightarrow> (\<forall>v. preserves (\<lambda>s. f s = v) m)"

named_theorems pres_intros "closure of preservation under the combinators"

lemma preserves_kret [pres_intros]: "preserves I (kret a)"
  by (simp add: preserves_def kop_simps)

lemma preserves_kbind [pres_intros]:
  assumes m: "preserves I m" and f: "\<And>a. preserves I (f a)"
  shows "preserves I (kbind m f)"
proof (rule preservesI)
  fix s a t
  assume s: "I s" and run: "kbind m f s = Done a t"
  then obtain b u where "m s = Done b u" and "f b u = Done a t"
    by (cases "m s") (simp_all add: kop_simps)
  with s show "I t" using preserves_Done [OF m] preserves_Done [OF f] by blast
next
  fix s c t
  assume s: "I s" and run: "kbind m f s = Slept c t"
  show "I t"
  proof (cases "m s")
    case (Done b u)
    with run have "f b u = Slept c t" by (simp add: kop_simps)
    with Done s show ?thesis using preserves_Done [OF m] preserves_Slept [OF f] by blast
  next
    case (Slept d u)
    with run s show ?thesis using preserves_Slept [OF m s] by (simp add: kop_simps)
  qed (use run in \<open>simp_all add: kop_simps\<close>)
qed

lemma preserves_kseq [pres_intros]:
  "preserves I m \<Longrightarrow> preserves I n \<Longrightarrow> preserves I (kseq m n)"
  by (simp add: kseq_def preserves_kbind)

lemma preserves_kget [pres_intros]: "preserves I (kget f)"
  by (simp add: preserves_def kop_simps)

lemma preserves_kmod: "(\<And>s. I s \<Longrightarrow> I (f s)) \<Longrightarrow> preserves I (kmod f)"
  by (simp add: preserves_def kop_simps)

lemma preserves_kpanic [pres_intros]: "preserves I (kpanic msg)"
  by (simp add: preserves_def kop_simps)

lemma preserves_kfault [pres_intros]: "preserves I kfault"
  by (simp add: preserves_def kop_simps)

lemma preserves_ksleep [pres_intros]: "preserves I (ksleep c)"
  by (simp add: preserves_def kop_simps)

lemma preserves_kwhen [pres_intros]:
  "(b \<Longrightarrow> preserves I m) \<Longrightarrow> preserves I (kwhen b m)"
  by (simp add: kwhen_def preserves_kret)

lemma preserves_if [pres_intros]:
  "(b \<Longrightarrow> preserves I m) \<Longrightarrow> (\<not> b \<Longrightarrow> preserves I n) \<Longrightarrow> preserves I (if b then m else n)"
  by simp

lemma preserves_kfor [pres_intros]:
  "(\<And>x. x \<in> set xs \<Longrightarrow> preserves I (f x)) \<Longrightarrow> preserves I (kfor xs f)"
  by (induction xs) (simp_all add: preserves_kret preserves_kseq)

lemma preserves_option [pres_intros]:
  "(x = None \<Longrightarrow> preserves I m) \<Longrightarrow> (\<And>y. x = Some y \<Longrightarrow> preserves I (f y)) \<Longrightarrow>
   preserves I (case x of None \<Rightarrow> m | Some y \<Rightarrow> f y)"
  by (cases x) simp_all

lemma preserves_prod [pres_intros]:
  "(\<And>a b. preserves I (f a b)) \<Longrightarrow> preserves I (case p of (a, b) \<Rightarrow> f a b)"
  by (cases p) simp

lemma preserves_conj:
  "preserves I m \<Longrightarrow> preserves J m \<Longrightarrow> preserves (\<lambda>s. I s \<and> J s) m"
  unfolding preserves_def by blast

lemma keepsI: "(\<And>v. preserves (\<lambda>s. f s = v) m) \<Longrightarrow> keeps f m"
  by (simp add: keeps_def)

lemma keepsD: "keeps f m \<Longrightarrow> m s = Done a t \<Longrightarrow> f t = f s"
  unfolding keeps_def preserves_def by blast

lemma keeps_SleptD: "keeps f m \<Longrightarrow> m s = Slept c t \<Longrightarrow> f t = f s"
  unfolding keeps_def preserves_def by blast

lemma keeps_preserves: "keeps f m \<Longrightarrow> preserves (\<lambda>s. P (f s)) m"
  unfolding preserves_def using keepsD keeps_SleptD by metis

lemma keeps_comp: "keeps f m \<Longrightarrow> keeps (\<lambda>s. g (f s)) m"
  by (rule keepsI) (rule keeps_preserves)

lemma keeps_wp:
  "keeps f m \<Longrightarrow> wp tot m Q s \<Longrightarrow> wp tot m (\<lambda>a t. Q a t \<and> f t = f s) s"
  by (auto simp: wp_def dest: keepsD split: outcome.splits)

text \<open>Closure of \<open>keeps\<close> under the combinators.\<close>

named_theorems frames "state components an operation does not touch"

lemma keeps_dep: "keeps f m \<Longrightarrow> (\<And>s t. f s = f t \<Longrightarrow> g s = g t) \<Longrightarrow> keeps g m"
  unfolding keeps_def preserves_def by metis

lemma keeps_kret [frames]: "keeps f (kret a)"
  by (intro keepsI pres_intros)

lemma keeps_kget [frames]: "keeps f (kget g)"
  by (intro keepsI pres_intros)

lemma keeps_kpanic [frames]: "keeps f (kpanic g)"
  by (intro keepsI pres_intros)

lemma keeps_kfault [frames]: "keeps f kfault"
  by (intro keepsI pres_intros)

lemma keeps_ksleep [frames]: "keeps f (ksleep c)"
  by (intro keepsI pres_intros)

lemma keeps_kbind [frames]: "keeps f m \<Longrightarrow> (\<And>a. keeps f (g a)) \<Longrightarrow> keeps f (kbind m g)"
  unfolding keeps_def by (intro allI preserves_kbind) blast+

lemma keeps_kseq [frames]: "keeps f m \<Longrightarrow> keeps f n \<Longrightarrow> keeps f (kseq m n)"
  unfolding keeps_def by (intro allI preserves_kseq) blast+

lemma keeps_kwhen [frames]: "(b \<Longrightarrow> keeps f m) \<Longrightarrow> keeps f (kwhen b m)"
  unfolding keeps_def by (intro allI preserves_kwhen) blast

lemma keeps_if [frames]: "(b \<Longrightarrow> keeps f m) \<Longrightarrow> (\<not> b \<Longrightarrow> keeps f n) \<Longrightarrow> keeps f (if b then m else n)"
  by simp

lemma keeps_kfor [frames]: "(\<And>x. x \<in> set xs \<Longrightarrow> keeps f (g x)) \<Longrightarrow> keeps f (kfor xs g)"
  unfolding keeps_def by (intro allI preserves_kfor) blast

lemma keeps_option [frames]:
  "(x = None \<Longrightarrow> keeps g m) \<Longrightarrow> (\<And>y. x = Some y \<Longrightarrow> keeps g (f y)) \<Longrightarrow>
   keeps g (case x of None \<Rightarrow> m | Some y \<Rightarrow> f y)"
  by (cases x) simp_all

lemma keeps_prod [frames]:
  "(\<And>a b. keeps g (f a b)) \<Longrightarrow> keeps g (case p of (a, b) \<Rightarrow> f a b)"
  by (cases p) simp

lemma keeps_kmod: "(\<And>s. f (g s) = f s) \<Longrightarrow> keeps f (kmod g)"
  by (simp add: keeps_def preserves_def kop_simps)

lemma keeps_Done:
  "(\<And>s a t. m s = Done a t \<Longrightarrow> f t = f s) \<Longrightarrow> (\<And>s c t. m s = Slept c t \<Longrightarrow> f t = f s) \<Longrightarrow>
   keeps f m"
  by (simp add: keeps_def preserves_def)

subsection \<open>Routines that never sleep\<close>

definition awake :: "('s, 'a) kop \<Rightarrow> bool" where
  "awake m \<longleftrightarrow> (\<forall>s c t. m s \<noteq> Slept c t)"

named_theorems awakes "routines that never sleep"

lemma awakeD: "awake m \<Longrightarrow> m s \<noteq> Slept c t"
  by (simp add: awake_def)

lemma awake_basic [awakes]:
  "awake (kret a)" "awake (kget f)" "awake (kmod g)" "awake (kpanic msg)" "awake kfault"
  by (simp_all add: awake_def kop_simps)

lemma awake_kbind [awakes]: "awake m \<Longrightarrow> (\<And>a. awake (f a)) \<Longrightarrow> awake (kbind m f)"
  by (auto simp: awake_def kop_simps split: outcome.split)

lemma awake_kseq [awakes]: "awake m \<Longrightarrow> awake n \<Longrightarrow> awake (kseq m n)"
  by (simp add: kseq_def awake_kbind)

lemma awake_kwhen [awakes]: "(b \<Longrightarrow> awake m) \<Longrightarrow> awake (kwhen b m)"
  by (simp add: kwhen_def awake_basic)

lemma awake_if [awakes]: "(b \<Longrightarrow> awake m) \<Longrightarrow> (\<not> b \<Longrightarrow> awake n) \<Longrightarrow> awake (if b then m else n)"
  by simp

lemma awake_kfor [awakes]: "(\<And>x. x \<in> set xs \<Longrightarrow> awake (f x)) \<Longrightarrow> awake (kfor xs f)"
  by (induction xs) (simp_all add: awakes)

lemma awake_option [awakes]:
  "(x = None \<Longrightarrow> awake m) \<Longrightarrow> (\<And>y. x = Some y \<Longrightarrow> awake (f y)) \<Longrightarrow>
   awake (case x of None \<Rightarrow> m | Some y \<Rightarrow> f y)"
  by (cases x) simp_all

lemma awake_prod [awakes]: "(\<And>a b. awake (f a b)) \<Longrightarrow> awake (case p of (a, b) \<Rightarrow> f a b)"
  by (cases p) simp

subsection \<open>Loops that search\<close>

text \<open>The first index in \<open>[i, i + n)\<close> that satisfies a predicate.\<close>

primrec find_from :: "(nat \<Rightarrow> bool) \<Rightarrow> nat \<Rightarrow> nat \<Rightarrow> nat option" where
  "find_from p i 0 = None"
| "find_from p i (Suc n) = (if p i then Some i else find_from p (Suc i) n)"

lemma find_from_None: "find_from p i n = None \<longleftrightarrow> (\<forall>k. i \<le> k \<and> k < i + n \<longrightarrow> \<not> p k)"
proof (induction n arbitrary: i)
  case 0
  then show ?case by auto
next
  case (Suc n)
  have split: "\<And>k. i \<le> k \<longleftrightarrow> k = i \<or> Suc i \<le> k" by auto
  have "(\<forall>k. i \<le> k \<and> k < i + Suc n \<longrightarrow> \<not> p k) \<longleftrightarrow>
        \<not> p i \<and> (\<forall>k. Suc i \<le> k \<and> k < Suc i + n \<longrightarrow> \<not> p k)"
    unfolding split by auto
  with Suc.IH show ?case by simp
qed

lemma find_from_SomeD:
  "find_from p i n = Some j \<Longrightarrow> i \<le> j \<and> j < i + n \<and> p j \<and> (\<forall>k. i \<le> k \<and> k < j \<longrightarrow> \<not> p k)"
proof (induction n arbitrary: i)
  case 0
  then show ?case by simp
next
  case (Suc n)
  show ?case
  proof (cases "p i")
    case True
    with Suc.prems show ?thesis by auto
  next
    case False
    with Suc.prems have "find_from p (Suc i) n = Some j" by simp
    from Suc.IH [OF this] have "Suc i \<le> j" "j < Suc i + n" "p j"
      and "\<forall>k. Suc i \<le> k \<and> k < j \<longrightarrow> \<not> p k" by auto
    with False show ?thesis by (metis Suc_leD Suc_leI add_Suc_shift le_neq_implies_less)
  qed
qed

lemma find_from_ex:
  "i \<le> j \<Longrightarrow> j < i + n \<Longrightarrow> p j \<Longrightarrow> \<exists>k. find_from p i n = Some k \<and> k \<le> j"
  by (metis find_from_None find_from_SomeD not_le_imp_less option.exhaust)

section \<open>Little-endian words\<close>

text \<open>The four bytes of a 32-bit word, lowest first, and the word they make.\<close>

definition byte_of :: "nat \<Rightarrow> u32 \<Rightarrow> byte" where
  "byte_of i w = ucast (drop_bit (8 * i) w)"

definition word_of_bytes :: "byte \<Rightarrow> byte \<Rightarrow> byte \<Rightarrow> byte \<Rightarrow> u32" where
  "word_of_bytes b0 b1 b2 b3 =
     ucast b0 OR push_bit 8 (ucast b1) OR push_bit 16 (ucast b2) OR push_bit 24 (ucast b3)"

lemma word_of_bytes_of:
  "word_of_bytes (byte_of 0 w) (byte_of 1 w) (byte_of 2 w) (byte_of 3 w) = w"
proof (rule bit_word_eqI)
  fix n
  assume "n < LENGTH(32)"
  then have "n < 8 \<or> (8 \<le> n \<and> n < 16) \<or> (16 \<le> n \<and> n < 24) \<or> (24 \<le> n \<and> n < 32)"
    by simp linarith
  then show "bit (word_of_bytes (byte_of 0 w) (byte_of 1 w) (byte_of 2 w) (byte_of 3 w)) n = bit w n"
    by (elim disjE) (auto simp: word_of_bytes_def byte_of_def bit_simps)
qed

lemma word_of_bytes_of' [simp]:
  "word_of_bytes (byte_of 0 w) (byte_of (Suc 0) w) (byte_of 2 w) (byte_of 3 w) = w"
  using word_of_bytes_of [of w] by simp

definition ld32 :: "memory \<Rightarrow> addr \<Rightarrow> u32" where
  "ld32 m a = word_of_bytes (m a) (m (a + 1)) (m (a + 2)) (m (a + 3))"

definition st32 :: "memory \<Rightarrow> addr \<Rightarrow> u32 \<Rightarrow> memory" where
  "st32 m a v = m(a := byte_of 0 v, a + 1 := byte_of 1 v, a + 2 := byte_of 2 v, a + 3 := byte_of 3 v)"

lemma ld32_st32_same [simp]: "ld32 (st32 m a v) a = v"
  by (simp add: ld32_def st32_def)

lemma unat_of_nat_small: "n < 2 ^ 32 \<Longrightarrow> unat (of_nat n :: u32) = n"
  by (simp add: unat_of_nat)

lemma unat_add_small: "unat a + unat b < 2 ^ 32 \<Longrightarrow> unat (a + b :: u32) = unat a + unat b"
  by (simp add: unat_word_ariths)

text \<open>A 32-bit access at an address divisible by four touches no other such address.\<close>

definition aligned4 :: "addr \<Rightarrow> bool" where
  "aligned4 a \<longleftrightarrow> unat a mod 4 = 0"

lemma aligned4_unat_add:
  assumes "aligned4 a" and "i < 4"
  shows "unat (a + of_nat i) = unat a + i"
proof -
  have "unat a < 4294967296" using unsigned_less [of a, where ?'a = nat] by simp
  with assms have "unat a + i < 2 ^ LENGTH(32)" by (auto simp: aligned4_def)
  then show ?thesis by (simp add: unat_word_ariths unat_of_nat)
qed

lemma aligned4_add_eq:
  assumes "aligned4 a" "aligned4 b" "i < 4" "j < 4" "a + of_nat i = b + of_nat j"
  shows "a = b"
proof -
  have "unat a + i = unat b + j"
    using assms aligned4_unat_add by metis
  moreover have "unat a mod 4 = 0" "unat b mod 4 = 0"
    using assms by (simp_all add: aligned4_def)
  ultimately have "unat a = unat b" using assms(3,4) by presburger
  then show ?thesis by (rule unsigned_word_eqI)
qed

lemma st32_other:
  assumes "\<And>i. i < 4 \<Longrightarrow> x \<noteq> a + of_nat i"
  shows "st32 m a v x = m x"
  using assms [of 0] assms [of 1] assms [of 2] assms [of 3] by (simp add: st32_def)

lemma ld32_st32_other:
  assumes "aligned4 a" "aligned4 b" "a \<noteq> b"
  shows "ld32 (st32 m a v) b = ld32 m b"
proof -
  have same: "st32 m a v (b + of_nat j) = m (b + of_nat j)" if "j < 4" for j
    by (rule st32_other) (use assms aligned4_add_eq [OF assms(2,1) that] in auto)
  show ?thesis
    using same [of 0] same [of 1] same [of 2] same [of 3] by (simp add: ld32_def)
qed

lemma ld32_st32 [simp]:
  "aligned4 a \<Longrightarrow> aligned4 b \<Longrightarrow> ld32 (st32 m a v) b = (if a = b then v else ld32 m b)"
  by (simp add: ld32_st32_other)

text \<open>Runs of bytes: reading \<open>n\<close> bytes from an address, and storing a list of bytes there.\<close>

definition mem_read :: "memory \<Rightarrow> addr \<Rightarrow> nat \<Rightarrow> byte list" where
  "mem_read m a n = map (\<lambda>i. m (a + of_nat i)) [0..<n]"

definition mem_write :: "memory \<Rightarrow> addr \<Rightarrow> byte list \<Rightarrow> memory" where
  "mem_write m a bs = (\<lambda>x. let d = unat (x - a) in if d < length bs then bs ! d else m x)"

lemma length_mem_read [simp]: "length (mem_read m a n) = n"
  by (simp add: mem_read_def)

lemma mem_read_write_same:
  assumes "length bs \<le> 2 ^ 32"
  shows "mem_read (mem_write m a bs) a (length bs) = bs"
proof (rule nth_equalityI)
  show "length (mem_read (mem_write m a bs) a (length bs)) = length bs" by simp
next
  fix i assume "i < length (mem_read (mem_write m a bs) a (length bs))"
  then have i: "i < length bs" by simp
  with assms have "unat (of_nat i :: u32) = i" by (simp add: unat_of_nat)
  with i show "mem_read (mem_write m a bs) a (length bs) ! i = bs ! i"
    by (simp add: mem_read_def mem_write_def)
qed

text \<open>A store of bytes as a store of its first byte and then of the others.\<close>

lemma mem_write_Nil [simp]: "mem_write m a [] = m"
  by (simp add: mem_write_def)

lemma unat_diff_Suc: "x \<noteq> a \<Longrightarrow> unat (x - a :: u32) = Suc (unat (x - (a + 1)))"
proof -
  assume "x \<noteq> a"
  then have "x - a \<noteq> 0" by simp
  then have "unat (x - a - 1) = unat (x - a) - 1" and "0 < unat (x - a)"
    by (simp_all add: unat_minus_one unat_gt_0)
  moreover have "x - a - 1 = x - (a + 1)" by simp
  ultimately show ?thesis by simp
qed

lemma mem_write_Cons:
  assumes "length bs < 2 ^ 32"
  shows "mem_write m a (b # bs) = mem_write (m(a := b)) (a + 1) bs"
proof
  fix x
  show "mem_write m a (b # bs) x = mem_write (m(a := b)) (a + 1) bs x"
  proof (cases "x = a")
    case True
    have "a - (a + 1) = (- 1 :: u32)" by simp
    then have "unat (a - (a + 1)) = 4294967295" by (simp add: unsigned_minus_1_eq_mask mask_eq_exp_minus_1)
    with True assms show ?thesis by (simp add: mem_write_def)
  next
    case False
    then show ?thesis by (simp add: mem_write_def unat_diff_Suc)
  qed
qed

lemma mem_write_append:
  "length (as @ bs) \<le> 2 ^ 32 \<Longrightarrow>
   mem_write m a (as @ bs) = mem_write (mem_write m a as) (a + of_nat (length as)) bs"
  by (induction as arbitrary: m a) (simp_all add: mem_write_Cons algebra_simps)

lemma mem_write_snoc:
  assumes "length bs < 2 ^ 32"
  shows "mem_write m a (bs @ [b]) = (mem_write m a bs)(a + of_nat (length bs) := b)"
  using assms by (simp add: mem_write_append mem_write_Cons)

lemma mem_write_other:
  "unat (x - a) \<ge> length bs \<Longrightarrow> mem_write m a bs x = m x"
  by (simp add: mem_write_def)

lemma mem_read_0 [simp]: "mem_read m a 0 = []"
  by (simp add: mem_read_def)

lemma mem_read_Suc: "mem_read m a (Suc n) = m a # mem_read m (a + 1) n"
  unfolding mem_read_def upt_conv_Cons [OF zero_less_Suc] map_Suc_upt [symmetric]
  by (simp add: algebra_simps)

lemma mem_read_snoc: "mem_read m a (Suc n) = mem_read m a n @ [m (a + of_nat n)]"
  by (simp add: mem_read_def)

lemma mem_read_cong:
  "(\<And>i. i < n \<Longrightarrow> m (a + of_nat i) = m' (a + of_nat i)) \<Longrightarrow> mem_read m a n = mem_read m' a n"
  by (simp add: mem_read_def)

lemma st32_mem_write: "st32 m a w = mem_write m a [byte_of 0 w, byte_of 1 w, byte_of 2 w, byte_of 3 w]"
  by (simp add: st32_def mem_write_Cons add.assoc)

end
