(* ===== verification/Tail_Queue.thy ===== *)
theory Tail_Queue
  imports Yonix_Prelude
begin

text \<open>
  The intrusive tail queue of \<^verbatim>\<open>queue_netbsd.h\<close>, which holds the free process slots, the
  ready queues and the list of resident user pages. First the macros on a heap of
  \<^verbatim>\<open>next\<close>/\<^verbatim>\<open>prev\<close> links, with \<^verbatim>\<open>prev\<close> and \<^verbatim>\<open>last\<close> pointing at a pointer as in the header;
  then the abstraction to the list of entries and one lemma per macro; then the queue
  contract as a locale, interpreted both by the linked structure and by the list queues
  the scheduler and the pager are modelled with.
\<close>

section \<open>The linked structure\<close>

text \<open>
  A \<^verbatim>\<open>struct type **\<close> points either at the head's \<^verbatim>\<open>first\<close> field or at the \<^verbatim>\<open>next\<close> field of
  an entry. Entries are named by their address, \<open>0\<close> is \<^verbatim>\<open>NULL\<close>.
\<close>

datatype qloc = HeadFirst | NextOf addr

record qheap =
  q_first :: addr
  q_last :: qloc
  q_next :: "addr \<Rightarrow> addr"
  q_prev :: "addr \<Rightarrow> qloc"

text \<open>Reading and writing through a pointer to a pointer.\<close>

primrec q_load :: "qloc \<Rightarrow> qheap \<Rightarrow> addr" where
  "q_load HeadFirst h = q_first h"
| "q_load (NextOf e) h = q_next h e"

primrec q_store :: "qloc \<Rightarrow> addr \<Rightarrow> qheap \<Rightarrow> qheap" where
  "q_store HeadFirst v h = h\<lparr>q_first := v\<rparr>"
| "q_store (NextOf e) v h = h\<lparr>q_next := (q_next h)(e := v)\<rparr>"

abbreviation set_next :: "addr \<Rightarrow> addr \<Rightarrow> qheap \<Rightarrow> qheap" where
  "set_next e v h \<equiv> h\<lparr>q_next := (q_next h)(e := v)\<rparr>"

abbreviation set_prev :: "addr \<Rightarrow> qloc \<Rightarrow> qheap \<Rightarrow> qheap" where
  "set_prev e v h \<equiv> h\<lparr>q_prev := (q_prev h)(e := v)\<rparr>"

definition Q_INIT :: "qheap \<Rightarrow> qheap" where
  "Q_INIT h = h\<lparr>q_first := 0, q_last := HeadFirst\<rparr>"

definition Q_INSERT_HEAD :: "addr \<Rightarrow> qheap \<Rightarrow> qheap" where
  "Q_INSERT_HEAD elm h =
     (let h = set_next elm (q_first h) h;
          h = (if q_next h elm \<noteq> 0 then set_prev (q_first h) (NextOf elm) h
               else h\<lparr>q_last := NextOf elm\<rparr>);
          h = h\<lparr>q_first := elm\<rparr>
      in set_prev elm HeadFirst h)"

definition Q_INSERT_TAIL :: "addr \<Rightarrow> qheap \<Rightarrow> qheap" where
  "Q_INSERT_TAIL elm h =
     (let h = set_next elm 0 h;
          h = set_prev elm (q_last h) h;
          h = q_store (q_last h) elm h
      in h\<lparr>q_last := NextOf elm\<rparr>)"

definition Q_INSERT_AFTER :: "addr \<Rightarrow> addr \<Rightarrow> qheap \<Rightarrow> qheap" where
  "Q_INSERT_AFTER listelm elm h =
     (let h = set_next elm (q_next h listelm) h;
          h = (if q_next h elm \<noteq> 0 then set_prev (q_next h elm) (NextOf elm) h
               else h\<lparr>q_last := NextOf elm\<rparr>);
          h = set_next listelm elm h
      in set_prev elm (NextOf listelm) h)"

definition Q_INSERT_BEFORE :: "addr \<Rightarrow> addr \<Rightarrow> qheap \<Rightarrow> qheap" where
  "Q_INSERT_BEFORE listelm elm h =
     (let h = set_prev elm (q_prev h listelm) h;
          h = set_next elm listelm h;
          h = q_store (q_prev h listelm) elm h
      in set_prev listelm (NextOf elm) h)"

definition Q_REMOVE :: "addr \<Rightarrow> qheap \<Rightarrow> qheap" where
  "Q_REMOVE elm h =
     (let h = (if q_next h elm \<noteq> 0 then set_prev (q_next h elm) (q_prev h elm) h
               else h\<lparr>q_last := q_prev h elm\<rparr>)
      in q_store (q_prev h elm) (q_next h elm) h)"

definition Q_EMPTY :: "qheap \<Rightarrow> bool" where
  "Q_EMPTY h \<longleftrightarrow> q_first h = 0"

definition Q_FIRST :: "qheap \<Rightarrow> addr" where
  "Q_FIRST h = q_first h"

definition Q_NEXT :: "addr \<Rightarrow> qheap \<Rightarrow> addr" where
  "Q_NEXT elm h = q_next h elm"

text \<open>
  \<^verbatim>\<open>Q_LAST\<close> and \<^verbatim>\<open>Q_PREV\<close> cast a pointer to a \<^verbatim>\<open>next\<close> field into a pointer to a head: the field
  after \<^verbatim>\<open>next\<close> is \<^verbatim>\<open>prev\<close>, which sits where a head has \<^verbatim>\<open>last\<close>.
\<close>

primrec q_cast_last :: "qloc \<Rightarrow> qheap \<Rightarrow> qloc" where
  "q_cast_last HeadFirst h = q_last h"
| "q_cast_last (NextOf e) h = q_prev h e"

definition Q_LAST :: "qheap \<Rightarrow> addr" where
  "Q_LAST h = q_load (q_cast_last (q_last h) h) h"

definition Q_PREV :: "addr \<Rightarrow> qheap \<Rightarrow> addr" where
  "Q_PREV elm h = q_load (q_cast_last (q_prev h elm) h) h"

text \<open>
  The entries \<^verbatim>\<open>Q_FOREACH\<close> visits from \<open>e\<close> on. The loop ends at \<^verbatim>\<open>NULL\<close> only; the fuel bounds
  the number of entries, and running out of it is \<open>None\<close>.
\<close>

primrec Q_FOREACH_from :: "nat \<Rightarrow> addr \<Rightarrow> qheap \<Rightarrow> addr list option" where
  "Q_FOREACH_from 0 e h = (if e = 0 then Some [] else None)"
| "Q_FOREACH_from (Suc n) e h =
     (if e = 0 then Some [] else map_option ((#) e) (Q_FOREACH_from n (q_next h e) h))"

definition Q_FOREACH :: "nat \<Rightarrow> qheap \<Rightarrow> addr list option" where
  "Q_FOREACH n h = Q_FOREACH_from n (q_first h) h"

section \<open>Abstraction to a list\<close>

text \<open>
  \<open>q_chain h l xs\<close>: read through the pointer \<open>l\<close>, the links run through \<open>xs\<close>, each entry's
  \<^verbatim>\<open>prev\<close> is the pointer it was reached by, and the chain ends at the head's \<^verbatim>\<open>last\<close>.
\<close>

fun q_chain :: "qheap \<Rightarrow> qloc \<Rightarrow> addr list \<Rightarrow> bool" where
  "q_chain h l [] \<longleftrightarrow> q_load l h = 0 \<and> q_last h = l"
| "q_chain h l (x # xs) \<longleftrightarrow>
     q_load l h = x \<and> x \<noteq> 0 \<and> q_prev h x = l \<and> q_chain h (NextOf x) xs"

definition q_rep :: "qheap \<Rightarrow> addr list \<Rightarrow> bool" where
  "q_rep h xs \<longleftrightarrow> q_chain h HeadFirst xs \<and> distinct xs"

definition q_end :: "qloc \<Rightarrow> addr list \<Rightarrow> qloc" where
  "q_end l xs = (if xs = [] then l else NextOf (last xs))"

lemma q_end_simps [simp]: "q_end l [] = l" "q_end l (x # xs) = q_end (NextOf x) xs"
  "q_end l (xs @ [x]) = NextOf x"
  by (simp_all add: q_end_def)

text \<open>The same chain without its end: it stops at a given pointer.\<close>

fun q_path :: "qheap \<Rightarrow> qloc \<Rightarrow> addr list \<Rightarrow> bool" where
  "q_path h l [] \<longleftrightarrow> True"
| "q_path h l (x # xs) \<longleftrightarrow> q_load l h = x \<and> x \<noteq> 0 \<and> q_prev h x = l \<and> q_path h (NextOf x) xs"

lemma q_chain_iff:
  "q_chain h l xs \<longleftrightarrow> q_path h l xs \<and> q_load (q_end l xs) h = 0 \<and> q_last h = q_end l xs"
  by (induction xs arbitrary: l) auto

lemma q_path_append:
  "q_path h l (xs @ ys) \<longleftrightarrow> q_path h l xs \<and> q_path h (q_end l xs) ys"
  by (induction xs arbitrary: l) auto

lemma q_end_append: "q_end l (xs @ ys) = q_end (q_end l xs) ys"
  by (simp add: q_end_def)

lemma q_path_nonzero: "q_path h l xs \<Longrightarrow> x \<in> set xs \<Longrightarrow> x \<noteq> 0"
  by (induction xs arbitrary: l) auto

text \<open>Two heaps that agree on the pointers of a path have the same path.\<close>

lemma q_path_cong:
  assumes "q_path h l xs" and "q_load l h' = q_load l h \<or> xs = []"
    and "\<And>x. x \<in> set (butlast xs) \<Longrightarrow> q_next h' x = q_next h x"
    and "\<And>x. x \<in> set xs \<Longrightarrow> q_prev h' x = q_prev h x"
  shows "q_path h' l xs"
  using assms
proof (induction xs arbitrary: l)
  case Nil
  then show ?case by simp
next
  case (Cons x xs)
  have "q_next h' y = q_next h y" if "y \<in> set (butlast xs)" for y
    using that Cons.prems(3) [of y] by (cases xs) auto
  moreover have "q_next h' x = q_next h x \<or> xs = []"
    using Cons.prems(3) [of x] by (cases xs) auto
  ultimately have "q_path h' (NextOf x) xs"
    using Cons.prems by (intro Cons.IH) auto
  with Cons.prems show ?case by simp
qed

lemma q_end_set: "xs \<noteq> [] \<Longrightarrow> \<exists>y \<in> set xs. q_end l xs = NextOf y"
  by (auto simp: q_end_def)

lemma q_end_notin: "e \<notin> set xs \<Longrightarrow> l \<noteq> NextOf e \<Longrightarrow> q_end l xs \<noteq> NextOf e"
  by (auto simp: q_end_def dest: last_in_set)

lemma distinct_last_butlast: "distinct xs \<Longrightarrow> xs \<noteq> [] \<Longrightarrow> last xs \<notin> set (butlast xs)"
  by (metis append_butlast_last_id distinct_butlast not_distinct_conv_prefix)

subsection \<open>One lemma per macro\<close>

lemma Q_INIT_rep: "q_rep (Q_INIT h) []"
  by (simp add: q_rep_def Q_INIT_def)

lemma Q_EMPTY_rep: "q_rep h xs \<Longrightarrow> Q_EMPTY h \<longleftrightarrow> xs = []"
  by (cases xs) (auto simp: q_rep_def Q_EMPTY_def)

lemma Q_FIRST_rep: "q_rep h (x # xs) \<Longrightarrow> Q_FIRST h = x"
  by (simp add: q_rep_def Q_FIRST_def)

lemma Q_INSERT_TAIL_rep:
  assumes "q_rep h xs" and "e \<notin> set xs" and "e \<noteq> 0"
  shows "q_rep (Q_INSERT_TAIL e h) (xs @ [e])"
proof -
  have path: "q_path h HeadFirst xs" and last: "q_last h = q_end HeadFirst xs" and dist: "distinct xs"
    using assms(1) by (auto simp: q_rep_def q_chain_iff)
  have "q_path (Q_INSERT_TAIL e h) HeadFirst xs"
  proof (rule q_path_cong [OF path])
    show "q_load HeadFirst (Q_INSERT_TAIL e h) = q_load HeadFirst h \<or> xs = []"
      by (auto simp: Q_INSERT_TAIL_def Let_def last q_end_def)
    show "q_next (Q_INSERT_TAIL e h) x = q_next h x" if "x \<in> set (butlast xs)" for x
      using that assms(2) dist
      by (cases "xs = []")
        (auto simp: Q_INSERT_TAIL_def Let_def last q_end_def distinct_last_butlast dest: in_set_butlastD)
    show "q_prev (Q_INSERT_TAIL e h) x = q_prev h x" if "x \<in> set xs" for x
      using that assms(2)
      by (cases "q_end HeadFirst xs") (auto simp: Q_INSERT_TAIL_def Let_def last)
  qed
  moreover have "q_end HeadFirst xs \<noteq> NextOf e"
    using assms(2) by (simp add: q_end_notin)
  ultimately show ?thesis
    using assms(2,3) dist
    by (cases "q_end HeadFirst xs")
      (auto simp: q_rep_def q_chain_iff q_path_append Q_INSERT_TAIL_def Let_def last)
qed

lemma Q_INSERT_HEAD_rep:
  assumes "q_rep h xs" and "e \<notin> set xs" and "e \<noteq> 0"
  shows "q_rep (Q_INSERT_HEAD e h) (e # xs)"
proof (cases xs)
  case Nil
  with assms show ?thesis by (auto simp: q_rep_def Q_INSERT_HEAD_def Let_def)
next
  case (Cons x ys)
  let ?h = "Q_INSERT_HEAD e h"
  have first: "q_first h = x" and x: "x \<noteq> 0" and path: "q_path h (NextOf x) ys"
    and fin: "q_load (q_end (NextOf x) ys) h = 0" "q_last h = q_end (NextOf x) ys"
    and dist: "distinct ys" "x \<notin> set ys"
    using assms(1) Cons by (auto simp: q_rep_def q_chain_iff)
  have e: "e \<noteq> x" "e \<notin> set ys" using assms(2) Cons by auto
  have "q_path ?h (NextOf x) ys"
  proof (rule q_path_cong [OF path])
    show "q_load (NextOf x) ?h = q_load (NextOf x) h \<or> ys = []"
      using x e by (simp add: Q_INSERT_HEAD_def Let_def first)
    show "q_next ?h y = q_next h y" if "y \<in> set (butlast ys)" for y
      using that e x by (auto simp: Q_INSERT_HEAD_def Let_def first dest: in_set_butlastD)
    show "q_prev ?h y = q_prev h y" if "y \<in> set ys" for y
      using that e x dist by (auto simp: Q_INSERT_HEAD_def Let_def first)
  qed
  moreover have "q_load (q_end (NextOf x) ys) ?h = 0" "q_last ?h = q_end (NextOf x) ys"
    using fin x e q_end_notin [of e ys "NextOf x"] q_end_set [of ys "NextOf x"]
    by (cases "q_end (NextOf x) ys"; auto simp: Q_INSERT_HEAD_def Let_def first)+
  ultimately show ?thesis
    using x e assms(3) dist Cons
    by (auto simp: q_rep_def q_chain_iff Q_INSERT_HEAD_def Let_def first)
qed

text \<open>
  Removing an entry from the middle, at the front or at the end. The two halves of the chain
  are kept, and the pointer that led to the entry now leads to its successor.
\<close>

lemma Q_REMOVE_rep:
  assumes "q_rep h (as @ e # bs)"
  shows "q_rep (Q_REMOVE e h) (as @ bs)"
proof -
  let ?l = "q_end HeadFirst as" and ?h = "Q_REMOVE e h"
  have pa: "q_path h HeadFirst as" and prev: "q_prev h e = ?l" and load: "q_load ?l h = e"
    and pb: "q_path h (NextOf e) bs" and fin: "q_load (q_end (NextOf e) bs) h = 0"
      "q_last h = q_end (NextOf e) bs" and dist: "distinct (as @ e # bs)"
    using assms by (auto simp: q_rep_def q_chain_iff q_path_append q_end_append)
  have l: "?l \<noteq> NextOf e" "\<And>b. b \<in> set bs \<Longrightarrow> ?l \<noteq> NextOf b"
    using dist q_end_notin [of _ as HeadFirst] by auto
  have next_e: "q_next h e = (case bs of [] \<Rightarrow> 0 | b # _ \<Rightarrow> b)"
    using pb fin by (cases bs) auto
  have "q_path ?h HeadFirst as"
  proof (rule q_path_cong [OF pa])
    show "q_load HeadFirst ?h = q_load HeadFirst h \<or> as = []"
      by (auto simp: Q_REMOVE_def Let_def prev q_end_def)
    show "q_next ?h x = q_next h x" if "x \<in> set (butlast as)" for x
      using that dist by (auto simp: Q_REMOVE_def Let_def prev q_end_def distinct_last_butlast)
    show "q_prev ?h x = q_prev h x" if "x \<in> set as" for x
      using that dist next_e
      by (cases ?l) (auto simp: Q_REMOVE_def Let_def prev split: list.splits)
  qed
  moreover have "q_path ?h ?l bs \<and> q_load (q_end ?l bs) ?h = 0 \<and> q_last ?h = q_end ?l bs"
  proof (cases bs)
    case Nil
    with next_e prev show ?thesis by (cases ?l) (auto simp: Q_REMOVE_def Let_def)
  next
    case (Cons b cs)
    then have b: "b \<noteq> 0" "q_next h e = b" and pc: "q_path h (NextOf b) cs"
      and dc: "b \<notin> set cs" "distinct cs" "e \<notin> set cs" "e \<noteq> b"
      using pb dist by auto
    have lc: "?l \<noteq> NextOf b" "\<And>c. c \<in> set cs \<Longrightarrow> ?l \<noteq> NextOf c"
      using l(2) Cons by auto
    have "q_path ?h (NextOf b) cs"
    proof (rule q_path_cong [OF pc])
      show "q_load (NextOf b) ?h = q_load (NextOf b) h \<or> cs = []"
        using lc b by (cases ?l) (auto simp: Q_REMOVE_def Let_def prev)
      show "q_next ?h x = q_next h x" if "x \<in> set (butlast cs)" for x
        using that lc b by (cases ?l) (auto simp: Q_REMOVE_def Let_def prev dest: in_set_butlastD)
      show "q_prev ?h x = q_prev h x" if "x \<in> set cs" for x
        using that dc b by (cases ?l) (auto simp: Q_REMOVE_def Let_def prev)
    qed
    moreover have "q_end (NextOf b) cs \<noteq> ?l"
      using lc q_end_set [of cs "NextOf b"] by (cases "cs = []") auto
    then have "q_load (q_end (NextOf b) cs) ?h = 0"
      using fin(1) Cons b
      by (cases ?l; cases "q_end (NextOf b) cs") (auto simp: Q_REMOVE_def Let_def prev)
    ultimately show ?thesis
      using Cons b fin(2) lc
      by (cases ?l) (auto simp: Q_REMOVE_def Let_def prev)
  qed
  ultimately show ?thesis
    using dist by (auto simp: q_rep_def q_chain_iff q_path_append q_end_append)
qed

lemma Q_INSERT_AFTER_rep:
  assumes "q_rep h (as @ x # bs)" and "e \<notin> set (as @ x # bs)" and "e \<noteq> 0"
  shows "q_rep (Q_INSERT_AFTER x e h) (as @ x # e # bs)"
proof -
  let ?l = "q_end HeadFirst as" and ?h = "Q_INSERT_AFTER x e h"
  have pa: "q_path h HeadFirst as" and prev: "q_prev h x = ?l" and load: "q_load ?l h = x" "x \<noteq> 0"
    and pb: "q_path h (NextOf x) bs" and fin: "q_load (q_end (NextOf x) bs) h = 0"
      "q_last h = q_end (NextOf x) bs" and dist: "distinct (as @ x # bs)"
    using assms(1) by (auto simp: q_rep_def q_chain_iff q_path_append q_end_append)
  have next_x: "q_next h x = (case bs of [] \<Rightarrow> 0 | b # _ \<Rightarrow> b)"
    using pb fin by (cases bs) auto
  have next': "q_next ?h y = (if y = x then e else if y = e then q_next h x else q_next h y)" for y
    using assms(2) by (simp add: Q_INSERT_AFTER_def Let_def)
  have first': "q_first ?h = q_first h"
    by (simp add: Q_INSERT_AFTER_def Let_def)
  have prev': "q_prev ?h y = (if y = e then NextOf x
      else if bs \<noteq> [] \<and> y = hd bs then NextOf e else q_prev h y)" for y
    using next_x pb assms(2) by (cases bs) (auto simp: Q_INSERT_AFTER_def Let_def)
  have last': "q_last ?h = (if bs = [] then NextOf e else q_last h)"
    using next_x pb assms(2) by (cases bs) (auto simp: Q_INSERT_AFTER_def Let_def)
  have "q_path ?h HeadFirst (as @ [x])"
  proof (rule q_path_cong)
    show "q_path h HeadFirst (as @ [x])"
      using pa prev load by (simp add: q_path_append)
  qed (use dist assms(2) in \<open>auto simp: next' first' prev' dest: hd_in_set\<close>)
  moreover have "q_path ?h (NextOf e) bs \<and> q_load (q_end (NextOf e) bs) ?h = 0
      \<and> q_last ?h = q_end (NextOf e) bs"
  proof (cases bs)
    case Nil
    with next_x assms(2) show ?thesis by (simp add: next' last')
  next
    case (Cons b cs)
    have "q_path ?h (NextOf b) cs"
      by (rule q_path_cong [of h])
        (use pb dist assms(2) Cons in \<open>auto simp: next' prev' dest: in_set_butlastD\<close>)
    moreover have "q_load (q_end (NextOf b) cs) ?h = 0"
      using fin(1) Cons dist assms(2) q_end_notin [of x cs "NextOf b"] q_end_notin [of e cs "NextOf b"]
      by (cases "q_end (NextOf b) cs") (auto simp: next' first')
    ultimately show ?thesis
      using Cons pb next_x fin(2) assms(2) by (auto simp: next' prev' last')
  qed
  ultimately show ?thesis
    using dist assms(2,3)
    by (auto simp: q_rep_def q_chain_iff q_path_append q_end_append next' prev')
qed

lemma Q_INSERT_BEFORE_rep:
  assumes "q_rep h (as @ x # bs)" and "e \<notin> set (as @ x # bs)" and "e \<noteq> 0"
  shows "q_rep (Q_INSERT_BEFORE x e h) (as @ e # x # bs)"
proof -
  let ?l = "q_end HeadFirst as" and ?h = "Q_INSERT_BEFORE x e h"
  have pa: "q_path h HeadFirst as" and prev: "q_prev h x = ?l" and load: "q_load ?l h = x" "x \<noteq> 0"
    and pb: "q_path h (NextOf x) bs" and fin: "q_load (q_end (NextOf x) bs) h = 0"
      "q_last h = q_end (NextOf x) bs" and dist: "distinct (as @ x # bs)"
    using assms(1) by (auto simp: q_rep_def q_chain_iff q_path_append q_end_append)
  have l: "?l \<noteq> NextOf e" "?l \<noteq> NextOf x" "\<And>b. b \<in> set bs \<Longrightarrow> ?l \<noteq> NextOf b"
    using dist assms(2) q_end_notin [of _ as HeadFirst] by auto
  have next': "q_next ?h y = (if y = e then x else if ?l = NextOf y then e else q_next h y)" for y
    using l assms(2) by (cases ?l) (auto simp: Q_INSERT_BEFORE_def Let_def prev)
  have first': "q_first ?h = (if ?l = HeadFirst then e else q_first h)"
    using assms(2) by (cases ?l) (auto simp: Q_INSERT_BEFORE_def Let_def prev)
  have prev': "q_prev ?h y = (if y = x then NextOf e else if y = e then ?l else q_prev h y)" for y
    using assms(2) by (cases ?l) (auto simp: Q_INSERT_BEFORE_def Let_def prev)
  have last': "q_last ?h = q_last h"
    using assms(2) by (cases ?l) (auto simp: Q_INSERT_BEFORE_def Let_def prev)
  have load_l: "q_load ?l ?h = e"
    using l by (cases ?l) (auto simp: next' first')
  have "q_path ?h HeadFirst as"
  proof (rule q_path_cong [OF pa])
    show "q_load HeadFirst ?h = q_load HeadFirst h \<or> as = []"
      by (auto simp: first' q_end_def)
    show "q_next ?h y = q_next h y" if "y \<in> set (butlast as)" for y
      using that dist assms(2)
      by (auto simp: next' q_end_def distinct_last_butlast split: if_splits dest: in_set_butlastD)
  qed (use dist assms(2) in \<open>auto simp: prev'\<close>)
  moreover have "q_path ?h (NextOf x) bs"
  proof (rule q_path_cong [OF pb])
    show "q_load (NextOf x) ?h = q_load (NextOf x) h \<or> bs = []"
      using l assms(2) by (auto simp: next')
    show "q_next ?h y = q_next h y" if "y \<in> set (butlast bs)" for y
      using that l(3) [of y] assms(2) by (auto simp: next' dest: in_set_butlastD)
  qed (use dist assms(2) in \<open>auto simp: prev'\<close>)
  moreover have "q_load (q_end (NextOf x) bs) ?h = 0"
  proof (cases "bs = []")
    case True
    with fin(1) l assms(2) show ?thesis by (auto simp: next')
  next
    case False
    then obtain y where "y \<in> set bs" "q_end (NextOf x) bs = NextOf y"
      using q_end_set by blast
    with fin(1) l(3) assms(2) show ?thesis by (auto simp: next')
  qed
  ultimately show ?thesis
    using dist assms(2,3) load fin(2) load_l
    by (auto simp: q_rep_def q_chain_iff q_path_append q_end_append next' prev' last')
qed

lemma Q_FOREACH_from_path:
  "q_path h l xs \<Longrightarrow> q_load (q_end l xs) h = 0 \<Longrightarrow> length xs \<le> n \<Longrightarrow>
   Q_FOREACH_from n (q_load l h) h = Some xs"
proof (induction xs arbitrary: l n)
  case Nil
  then show ?case by (cases n) auto
next
  case (Cons x xs)
  then obtain m where n: "n = Suc m" by (cases n) auto
  with Cons.prems have "Q_FOREACH_from m (q_load (NextOf x) h) h = Some xs"
    by (intro Cons.IH) auto
  with Cons.prems n show ?case by simp
qed

lemma Q_FOREACH_rep: "q_rep h xs \<Longrightarrow> length xs \<le> n \<Longrightarrow> Q_FOREACH n h = Some xs"
  using Q_FOREACH_from_path [of h HeadFirst xs n]
  by (simp add: q_rep_def q_chain_iff Q_FOREACH_def)

lemma Q_NEXT_rep: "q_rep h (as @ e # bs) \<Longrightarrow> Q_NEXT e h = (case bs of [] \<Rightarrow> 0 | b # _ \<Rightarrow> b)"
  by (cases bs) (auto simp: q_rep_def q_chain_iff q_path_append q_end_append Q_NEXT_def)

lemma Q_LAST_rep: "q_rep h (xs @ [x]) \<Longrightarrow> Q_LAST h = x"
  by (auto simp: q_rep_def q_chain_iff q_path_append Q_LAST_def)

lemma Q_PREV_rep: "q_rep h (as @ a # e # bs) \<Longrightarrow> Q_PREV e h = a"
  by (auto simp: q_rep_def q_chain_iff q_path_append Q_PREV_def)

section \<open>The queue contract\<close>

text \<open>
  What the clients of a queue rely on: a relation between a queue and the list of its
  entries, the effect of each operation on that list, and which entries may be inserted.
\<close>

locale fifo_queue =
  fixes qrep :: "'q \<Rightarrow> 'e list \<Rightarrow> bool"
    and okent :: "'e \<Rightarrow> bool"
    and qinit :: "'q \<Rightarrow> 'q"
    and qtail :: "'e \<Rightarrow> 'q \<Rightarrow> 'q"
    and qrem :: "'e \<Rightarrow> 'q \<Rightarrow> 'q"
    and qempty :: "'q \<Rightarrow> bool"
    and qfirst :: "'q \<Rightarrow> 'e"
  assumes init: "qrep (qinit q) []"
    and rep_distinct: "qrep q xs \<Longrightarrow> distinct xs"
    and tail: "qrep q xs \<Longrightarrow> e \<notin> set xs \<Longrightarrow> okent e \<Longrightarrow> qrep (qtail e q) (xs @ [e])"
    and rem: "qrep q (as @ e # bs) \<Longrightarrow> qrep (qrem e q) (as @ bs)"
    and empty: "qrep q xs \<Longrightarrow> qempty q \<longleftrightarrow> xs = []"
    and first: "qrep q (x # xs) \<Longrightarrow> qfirst q = x"
begin

text \<open>Appending a list of new entries one after the other.\<close>

lemma tail_all:
  "qrep q xs \<Longrightarrow> distinct (xs @ es) \<Longrightarrow> list_all okent es \<Longrightarrow> qrep (fold qtail es q) (xs @ es)"
proof (induction es arbitrary: q xs)
  case Nil
  then show ?case by simp
next
  case (Cons e es)
  then have "qrep (qtail e q) (xs @ [e])" by (intro tail) auto
  from Cons.IH [OF this] Cons.prems show ?case by simp
qed

text \<open>Taking the first entry off the queue: what the schedulers and \<^verbatim>\<open>procalloc\<close> do.\<close>

lemma dequeue:
  assumes "qrep q xs" and "\<not> qempty q"
  shows "\<exists>ys. xs = qfirst q # ys \<and> qrep (qrem (qfirst q) q) ys"
proof -
  obtain y ys where xs: "xs = y # ys" using assms empty by (cases xs) auto
  with assms(1) have "qfirst q = y" by (simp add: first)
  with assms(1) xs show ?thesis using rem [of q "[]" y ys] by simp
qed

text \<open>First in, first out: \<open>n\<close> removals of the first entry leave what was appended later.\<close>

lemma dequeue_n:
  "qrep q xs \<Longrightarrow> n \<le> length xs \<Longrightarrow>
   qrep (((\<lambda>q. qrem (qfirst q) q) ^^ n) q) (drop n xs)"
proof (induction n arbitrary: q xs)
  case 0
  then show ?case by simp
next
  case (Suc n)
  then obtain y ys where xs: "xs = y # ys" by (cases xs) auto
  with Suc.prems have "\<not> qempty q" by (simp add: empty)
  with dequeue [OF Suc.prems(1)] xs have "qrep (qrem (qfirst q) q) ys" by auto
  with Suc.IH [of "qrem (qfirst q) q" ys] Suc.prems xs show ?case
    by (simp add: funpow_Suc_right del: funpow.simps)
qed

end

text \<open>The linked structure provides the contract.\<close>

interpretation linked: fifo_queue q_rep "\<lambda>e. e \<noteq> 0" Q_INIT Q_INSERT_TAIL Q_REMOVE Q_EMPTY Q_FIRST
  by unfold_locales
    (simp_all add: Q_INIT_rep Q_INSERT_TAIL_rep Q_REMOVE_rep Q_EMPTY_rep Q_FIRST_rep,
     simp add: q_rep_def)

text \<open>
  The list queues of the kernel state: a queue is the list of its entries in queue order.
  They are the same queue operations with the links abstracted away.
\<close>

definition lq_insert_tail :: "'e \<Rightarrow> 'e list \<Rightarrow> 'e list" where
  "lq_insert_tail e q = q @ [e]"

definition lq_remove :: "'e \<Rightarrow> 'e list \<Rightarrow> 'e list" where
  "lq_remove e q = remove1 e q"

interpretation listq: fifo_queue "\<lambda>q xs. q = xs \<and> distinct xs" "\<lambda>_. True" "\<lambda>_. []" lq_insert_tail
  lq_remove "\<lambda>q. q = []" hd
  by unfold_locales (auto simp: lq_insert_tail_def lq_remove_def remove1_append)

text \<open>
  Simulation: on a linked queue that represents \<open>xs\<close>, each operation commutes with its list
  counterpart.
\<close>

lemma linked_simulates_list:
  assumes "q_rep h xs"
  shows "e \<notin> set xs \<Longrightarrow> e \<noteq> 0 \<Longrightarrow> q_rep (Q_INSERT_TAIL e h) (lq_insert_tail e xs)"
    and "e \<in> set xs \<Longrightarrow> q_rep (Q_REMOVE e h) (lq_remove e xs)"
proof -
  show "q_rep (Q_INSERT_TAIL e h) (lq_insert_tail e xs)" if "e \<notin> set xs" "e \<noteq> 0"
    using linked.tail [OF assms that] by (simp add: lq_insert_tail_def)
  show "q_rep (Q_REMOVE e h) (lq_remove e xs)" if e: "e \<in> set xs"
  proof -
    obtain as bs where xs: "xs = as @ e # bs" "e \<notin> set as"
      using split_list_first [OF e] by blast
    with assms linked.rem [of h as e bs] show ?thesis
      by (simp add: lq_remove_def remove1_append)
  qed
qed

section \<open>Every sequence of operations\<close>

text \<open>
  The linked structures that the macros build, with the list each of them stands for. An entry that is put in is
  no null pointer and not in the queue yet; a place is named by an entry of the queue. In between the links
  of entries outside the queue may change in any way.
\<close>

inductive queue_run :: "qheap \<Rightarrow> addr list \<Rightarrow> bool" where
  init: "queue_run (Q_INIT h) []"
| head: "queue_run h xs \<Longrightarrow> e \<notin> set xs \<Longrightarrow> e \<noteq> 0 \<Longrightarrow> queue_run (Q_INSERT_HEAD e h) (e # xs)"
| tail: "queue_run h xs \<Longrightarrow> e \<notin> set xs \<Longrightarrow> e \<noteq> 0 \<Longrightarrow> queue_run (Q_INSERT_TAIL e h) (xs @ [e])"
| after: "queue_run h (as @ x # bs) \<Longrightarrow> e \<notin> set (as @ x # bs) \<Longrightarrow> e \<noteq> 0 \<Longrightarrow> queue_run (Q_INSERT_AFTER x e h) (as @ x # e # bs)"
| before: "queue_run h (as @ x # bs) \<Longrightarrow> e \<notin> set (as @ x # bs) \<Longrightarrow> e \<noteq> 0 \<Longrightarrow> queue_run (Q_INSERT_BEFORE x e h) (as @ e # x # bs)"
| remove: "queue_run h (as @ x # bs) \<Longrightarrow> queue_run (Q_REMOVE x h) (as @ bs)"
| elsewhere: "queue_run h xs \<Longrightarrow> e \<notin> set xs \<Longrightarrow> queue_run (h\<lparr>q_next := (q_next h)(e := v), q_prev := (q_prev h)(e := l)\<rparr>) xs"

lemma q_rep_elsewhere:
  assumes "q_rep h xs" "e \<notin> set xs"
  shows "q_rep (h\<lparr>q_next := (q_next h)(e := v), q_prev := (q_prev h)(e := l)\<rparr>) xs"
proof -
  let ?h = "h\<lparr>q_next := (q_next h)(e := v), q_prev := (q_prev h)(e := l)\<rparr>"
  have l: "q_load k ?h = q_load k h" if "k \<noteq> NextOf e" for k using that by (cases k) simp_all
  have "q_end HeadFirst xs \<noteq> NextOf e" using assms(2) by (auto simp: q_end_def)
  moreover have "q_path ?h HeadFirst xs"
  proof (rule q_path_cong [of h])
    show "q_path h HeadFirst xs" using assms(1) by (simp add: q_rep_def q_chain_iff)
  qed (use assms(2) in \<open>auto dest: in_set_butlastD\<close>)
  ultimately show ?thesis using assms(1) l by (simp add: q_rep_def q_chain_iff)
qed

lemma queue_run_rep: "queue_run h xs \<Longrightarrow> q_rep h xs"
  by (induction rule: queue_run.induct)
    (simp_all add: Q_INIT_rep Q_INSERT_HEAD_rep Q_INSERT_TAIL_rep Q_INSERT_AFTER_rep Q_INSERT_BEFORE_rep Q_REMOVE_rep q_rep_elsewhere)

text \<open>
  C17 (tail queues): after any sequence of the macros that insert and remove entries the linked structure is
  the list those operations make: a traversal ends and visits exactly the entries in order, and the macros
  for the first, the last, the next and the previous entry give those of the list.
\<close>

theorem queue_refines_list:
  assumes "queue_run h xs"
  shows "Q_FOREACH (length xs) h = Some xs \<and> (Q_EMPTY h \<longleftrightarrow> xs = []) \<and>
    (xs \<noteq> [] \<longrightarrow> Q_FIRST h = hd xs \<and> Q_LAST h = last xs) \<and>
    (\<forall>i < length xs. Q_NEXT (xs ! i) h = (if Suc i < length xs then xs ! Suc i else 0) \<and>
       (0 < i \<longrightarrow> Q_PREV (xs ! i) h = xs ! (i - 1)))"
proof -
  have r: "q_rep h xs" using queue_run_rep [OF assms] .
  have "Q_NEXT (xs ! i) h = (if Suc i < length xs then xs ! Suc i else 0)" if "i < length xs" for i
    using Q_NEXT_rep [of h "take i xs" "xs ! i" "drop (Suc i) xs"] r that
    by (auto simp: id_take_nth_drop [symmetric] hd_drop_conv_nth split: list.splits dest: arg_cong [where f = hd])
  moreover have "Q_PREV (xs ! i) h = xs ! (i - 1)" if "i < length xs" "0 < i" for i
  proof -
    have "xs = take (i - 1) xs @ xs ! (i - 1) # xs ! i # drop (Suc i) xs"
      using that id_take_nth_drop [of "i - 1" xs] Cons_nth_drop_Suc [of i xs] by simp
    then show ?thesis using Q_PREV_rep [of h "take (i - 1) xs" "xs ! (i - 1)" "xs ! i" "drop (Suc i) xs"] r by simp
  qed
  moreover have "Q_LAST h = last xs" "Q_FIRST h = hd xs" if "xs \<noteq> []"
    using that r Q_LAST_rep [of h "butlast xs" "last xs"] Q_FIRST_rep [of h "hd xs" "tl xs"] by simp_all
  ultimately show ?thesis using Q_FOREACH_rep [OF r] Q_EMPTY_rep [OF r] by simp
qed

theorem queue_refines_list_witness:
  "\<exists>h. queue_run h [7, 9] \<and> Q_FOREACH 2 h = Some [7, 9] \<and> Q_LAST h = 9 \<and> Q_PREV 9 h = 7"
proof -
  fix h
  define h1 where "h1 = Q_INSERT_TAIL 9 (Q_INIT h)"
  define h2 where "h2 = Q_INSERT_BEFORE 9 7 (Q_INSERT_HEAD 8 h1)"
  have "queue_run h1 [9]" unfolding h1_def using queue_run.tail [OF queue_run.init, of 9 h] by simp
  then have "queue_run (Q_INSERT_HEAD 8 h1) ([8] @ 9 # [])" using queue_run.head [of h1 "[9]" 8] by simp
  then have "queue_run h2 ([] @ 8 # [7, 9])" unfolding h2_def using queue_run.before [of _ "[8]" 9 "[]" 7] by simp
  then have "queue_run (Q_REMOVE 8 h2) [7, 9]" using queue_run.remove [of h2 "[]" 8 "[7, 9]"] by simp
  then show ?thesis using queue_refines_list [of "Q_REMOVE 8 h2" "[7, 9]"]
    by (intro exI [of _ "Q_REMOVE 8 h2"]) (simp add: numeral_2_eq_2 All_less_Suc)
qed

end
