(* ===== verification/Kmem.thy ===== *)
theory Kmem
  imports Tail_Queue
begin

unbundle bit_operations_syntax

text \<open>
  Physical memory: the page allocator and the 32-byte slab allocator of \<^verbatim>\<open>kalloc.c\<close>, and the
  part of \<^verbatim>\<open>vm.c\<close> they depend on, because an empty free list makes \<^verbatim>\<open>kalloc\<close> page a resident
  user page out (\<^verbatim>\<open>page_out\<close>): the swap map, the queue of resident pages, the choice of the
  victim and the transfer to the swap disk. Kernel memory is byte addressed; the free lists
  are threaded through the free pages and slabs themselves, as in the code.
\<close>

section \<open>Memory layout (\<^verbatim>\<open>mmu.h\<close>, \<^verbatim>\<open>memlayout.h\<close>, \<^verbatim>\<open>param_yonix.h\<close>)\<close>

definition PGSIZE :: u32 where "PGSIZE = 4096"
definition KERNBASE :: addr where "KERNBASE = 0x80000000"
definition PHYSTOP :: u32 where "PHYSTOP = 0x2000000"
definition SLABSIZE :: u32 where "SLABSIZE = 32"

text \<open>\<^verbatim>\<open>SLOTSIZE\<close> is \<^verbatim>\<open>SWAPSIZE/PGSIZE\<close>, 128 MB of 4 KB slots.\<close>

definition SLOTSIZE :: nat where "SLOTSIZE = 32768"

definition V2P :: "addr \<Rightarrow> u32" where "V2P a = a - KERNBASE"
definition P2V :: "u32 \<Rightarrow> addr" where "P2V a = a + KERNBASE"

definition PGROUNDUP :: "u32 \<Rightarrow> u32" where
  "PGROUNDUP sz = (sz + PGSIZE - 1) AND NOT (PGSIZE - 1)"
definition PGROUNDDOWN :: "u32 \<Rightarrow> u32" where
  "PGROUNDDOWN a = a AND NOT (PGSIZE - 1)"

definition PTE_P :: u32 where "PTE_P = 1"
definition PTE_W :: u32 where "PTE_W = 2"
definition PTE_U :: u32 where "PTE_U = 4"
definition PTE_A :: u32 where "PTE_A = 0x20"
definition PTE_ADDR :: "u32 \<Rightarrow> u32" where "PTE_ADDR pte = pte AND NOT 0xFFF"
definition PTE_FLAGS :: "u32 \<Rightarrow> u32" where "PTE_FLAGS pte = pte AND 0xFFF"

lemmas layout_defs = PGSIZE_def KERNBASE_def PHYSTOP_def SLABSIZE_def V2P_def P2V_def

section \<open>State\<close>

text \<open>
  An entry of the queue of resident pages: \<^verbatim>\<open>struct page_entry\<close>, with the address of the slab
  it lives in instead of its links.
\<close>

record page_entry =
  pe_slab :: addr
  ptr_pte :: addr
  pn_pid :: u32
  pe_ref :: u32

text \<open>
  \<open>kend\<close> is the linker symbol \<^verbatim>\<open>end\<close>, the first address after the kernel image, and \<open>kdata\<close>
  the symbol \<^verbatim>\<open>data\<close>, where its writable part begins. The swap disk holds sectors of 512 bytes;
  \<open>swap_sr n\<close> is the status byte the swap drive shows when the \<open>n\<close>-th wait for it ends, and
  \<open>swap_waits\<close> counts the waits so far.
\<close>

record kmem_state =
  mem :: memory
  kend :: addr
  kdata :: addr
  kmem_nfree :: u32
  kmem_free :: addr
  slab_nfree :: u32
  slab_free :: addr
  pgqueue :: "page_entry list"
  swap_map :: "nat \<Rightarrow> u32"
  swap_disk :: "nat \<Rightarrow> byte list"
  swap_sr :: "nat \<Rightarrow> byte"
  swap_waits :: nat

abbreviation set_mem :: "memory \<Rightarrow> 'a kmem_state_scheme \<Rightarrow> 'a kmem_state_scheme" where
  "set_mem m s \<equiv> s\<lparr>mem := m\<rparr>"

section \<open>Swap slots (\<^verbatim>\<open>vm.c\<close>)\<close>

definition SWAPM2SECNO :: "nat \<Rightarrow> u32" where
  "SWAPM2SECNO i = push_bit 3 (of_nat i)"

definition SECNO2SWAPM :: "u32 \<Rightarrow> nat" where
  "SECNO2SWAPM n = unat (drop_bit 3 n)"

definition alloc_slot :: "u32 \<Rightarrow> ('a kmem_state_scheme, u32) kop" where
  "alloc_slot ident = (\<lambda>s.
     case find_from (\<lambda>i. swap_map s i = 0) 0 SLOTSIZE of
       None \<Rightarrow> Panicked ''alloc_swap: no free slot in swap space''
     | Some i \<Rightarrow> Done (SWAPM2SECNO i) (s\<lparr>swap_map := (swap_map s)(i := ident)\<rparr>))"

definition find_slot :: "u32 \<Rightarrow> ('a kmem_state_scheme, u32) kop" where
  "find_slot ident = (\<lambda>s.
     case find_from (\<lambda>i. swap_map s i = ident) 0 SLOTSIZE of
       None \<Rightarrow> Panicked ''find_slot: slot not found''
     | Some i \<Rightarrow> Done (SWAPM2SECNO i) s)"

definition free_slot :: "u32 \<Rightarrow> ('a kmem_state_scheme, unit) kop" where
  "free_slot slotn = (\<lambda>s.
     let i = SECNO2SWAPM slotn in
     if SLOTSIZE \<le> i then Panicked ''free_slot: free a non-exist slot''
     else Done () (s\<lparr>swap_map := (swap_map s)(i := 0)\<rparr>))"

definition free_page_slot :: "u32 \<Rightarrow> ('a kmem_state_scheme, unit) kop" where
  "free_page_slot ident = kmod (\<lambda>s.
     case find_from (\<lambda>i. swap_map s i = ident) 0 SLOTSIZE of
       None \<Rightarrow> s
     | Some i \<Rightarrow> s\<lparr>swap_map := (swap_map s)(i := 0)\<rparr>)"

section \<open>The swap disk (\<^verbatim>\<open>ide.c\<close>)\<close>

text \<open>
  The driver programs a 28-bit sector number and moves eight sectors of 512 bytes. Before each
  of them it waits for the drive (\<open>swap_wait\<close> is \<^verbatim>\<open>idewait\<close> on the swap drive): a wait ends with a
  status byte in which the busy bit is clear, and with the check for errors on it answers -1 when
  the fault bit or the error bit is set. The transfer then stops there, with the sectors before it moved.
\<close>

definition lba28 :: "u32 \<Rightarrow> nat" where
  "lba28 secno = unat (secno AND 0x0FFFFFFF)"

definition ATA_SR_DF :: byte where
  "ATA_SR_DF = 0x20"

definition ATA_SR_ERR :: byte where
  "ATA_SR_ERR = 0x01"

definition swap_wait :: "bool \<Rightarrow> ('a kmem_state_scheme, int) kop" where
  "swap_wait check_error =
     kbind (kget (\<lambda>s. swap_sr s (swap_waits s))) (\<lambda>r.
     kseq (kmod (\<lambda>s. s\<lparr>swap_waits := swap_waits s + 1\<rparr>))
          (kret (if check_error \<and> r AND (ATA_SR_DF OR ATA_SR_ERR) \<noteq> 0 then -1 else 0)))"

primrec read_swap_loop :: "nat \<Rightarrow> nat \<Rightarrow> addr \<Rightarrow> ('a kmem_state_scheme, int) kop" where
  "read_swap_loop 0 sec dst = kret 0"
| "read_swap_loop (Suc nsecs) sec dst =
     kbind (swap_wait True) (\<lambda>ret.
       if ret \<noteq> 0 then kret ret
       else kseq (kmod (\<lambda>s. set_mem (mem_write (mem s) dst (swap_disk s sec)) s))
                 (read_swap_loop nsecs (sec + 1) (dst + 512)))"

definition read_swap :: "u32 \<Rightarrow> addr \<Rightarrow> ('a kmem_state_scheme, int) kop" where
  "read_swap secno dst = kseq (swap_wait False) (read_swap_loop 8 (lba28 secno) dst)"

primrec write_swap_loop :: "nat \<Rightarrow> nat \<Rightarrow> addr \<Rightarrow> ('a kmem_state_scheme, int) kop" where
  "write_swap_loop 0 sec src = kret 0"
| "write_swap_loop (Suc nsecs) sec src =
     kbind (swap_wait True) (\<lambda>ret.
       if ret \<noteq> 0 then kret ret
       else kseq (kmod (\<lambda>s. s\<lparr>swap_disk := (swap_disk s)(sec := mem_read (mem s) src 512)\<rparr>))
                 (write_swap_loop nsecs (sec + 1) (src + 512)))"

definition write_swap :: "u32 \<Rightarrow> addr \<Rightarrow> ('a kmem_state_scheme, int) kop" where
  "write_swap secno src = kseq (swap_wait False) (write_swap_loop 8 (lba28 secno) src)"

section \<open>The queue of resident pages (\<^verbatim>\<open>vm.c\<close>)\<close>

text \<open>
  \<^verbatim>\<open>free_page\<close> removes the first entry with the given identifier. It does not give the entry's
  slab back.
\<close>

definition free_page :: "u32 \<Rightarrow> bool \<Rightarrow> ('a kmem_state_scheme, unit) kop" where
  "free_page ident flag_slot =
     kbind (kget (\<lambda>s. find (\<lambda>e. pn_pid e = ident) (pgqueue s))) (\<lambda>r. case r of
       None \<Rightarrow> kret ()
     | Some e \<Rightarrow>
         kseq (kwhen flag_slot (free_page_slot (pn_pid e)))
              (kmod (\<lambda>s. s\<lparr>pgqueue := lq_remove e (pgqueue s)\<rparr>)))"

text \<open>
  The second-chance scan: an entry whose reference bit is set loses it and is passed over;
  the first entry without it is the victim.
\<close>

fun second_chance :: "page_entry list \<Rightarrow> page_entry list \<times> page_entry option" where
  "second_chance [] = ([], None)"
| "second_chance (e # es) =
     (if pe_ref e = PTE_A
      then (case second_chance es of (es', r) \<Rightarrow> (e\<lparr>pe_ref := 0\<rparr> # es', r))
      else (e # es, Some e))"

definition sel_page :: "('a kmem_state_scheme, page_entry option) kop" where
  "sel_page = (\<lambda>s.
     case second_chance (pgqueue s) of
       (q, Some e) \<Rightarrow> Done (Some e) (s\<lparr>pgqueue := q\<rparr>)
     | (q, None) \<Rightarrow> Done (case q of [] \<Rightarrow> None | e # _ \<Rightarrow> Some e) (s\<lparr>pgqueue := q\<rparr>))"

section \<open>The page allocator (\<^verbatim>\<open>kalloc.c\<close>)\<close>

text \<open>
  A free page holds a \<^verbatim>\<open>struct fpage\<close>: its size in the first word, the next free page in the
  second.
\<close>

definition page_valid :: "addr \<Rightarrow> addr \<Rightarrow> bool" where
  "page_valid e v \<longleftrightarrow> unat v mod 4096 = 0 \<and> e \<le> v \<and> V2P v < PHYSTOP"

definition kfree :: "addr \<Rightarrow> ('a kmem_state_scheme, unit) kop" where
  "kfree v = (\<lambda>s.
     if \<not> page_valid (kend s) v then Panicked ''kfree''
     else Done () (s\<lparr>mem := st32 (st32 (mem s) v PGSIZE) (v + 4) (kmem_free s),
                     kmem_free := v, kmem_nfree := kmem_nfree s + 1\<rparr>))"

text \<open>Moving a resident page to the swap disk (\<^verbatim>\<open>vm.c\<close>). The result of the write is not looked at.\<close>

definition page_out :: "('a kmem_state_scheme, unit) kop" where
  "page_out =
     kbind (kget pgqueue) (\<lambda>q.
       if q = [] then kpanic ''page_out: no page to page out''
       else
         kbind sel_page (\<lambda>r. case r of
           None \<Rightarrow> kfault
         | Some e \<Rightarrow>
             kbind (kget (\<lambda>s. ld32 (mem s) (ptr_pte e))) (\<lambda>pte.
             kseq (kmod (\<lambda>s. set_mem (st32 (mem s) (ptr_pte e) (pte XOR PTE_P)) s))
            (kbind (alloc_slot (pn_pid e)) (\<lambda>slotn.
             kbind (write_swap slotn (P2V (PTE_ADDR pte))) (\<lambda>_.
             kseq (kfree (P2V (PTE_ADDR pte)))
                  (free_page (pn_pid e) False)))))))"

definition kalloc :: "('a kmem_state_scheme, addr) kop" where
  "kalloc =
     kbind (kget kmem_nfree) (\<lambda>n.
     kseq (kwhen (n = 0) page_out)
    (kbind (kget kmem_free) (\<lambda>f.
     kseq (kwhen (f \<noteq> 0) (kmod (\<lambda>s. s\<lparr>kmem_free := ld32 (mem s) (f + 4)\<rparr>)))
    (kseq (kmod (\<lambda>s. s\<lparr>kmem_nfree := kmem_nfree s - 1\<rparr>))
          (kret f)))))"

text \<open>
  \<^verbatim>\<open>freerange\<close> frees every page from the first page boundary after \<open>vstart\<close> while the address
  is below \<open>vend\<close>. The fuel is the number of pages of the address space.
\<close>

primrec freerange_loop :: "nat \<Rightarrow> addr \<Rightarrow> addr \<Rightarrow> ('a kmem_state_scheme, unit) kop" where
  "freerange_loop 0 p vend = (if p < vend then kfault else kret ())"
| "freerange_loop (Suc n) p vend =
     (if p < vend then kseq (kfree p) (freerange_loop n (p + PGSIZE) vend) else kret ())"

definition freerange :: "addr \<Rightarrow> addr \<Rightarrow> ('a kmem_state_scheme, unit) kop" where
  "freerange vstart vend = freerange_loop (2 ^ 20) (PGROUNDUP vstart) vend"

section \<open>The slab allocator (\<^verbatim>\<open>kalloc.c\<close>)\<close>

definition free_slab :: "addr \<Rightarrow> ('a kmem_state_scheme, unit) kop" where
  "free_slab v = kmod (\<lambda>s.
     s\<lparr>mem := st32 (st32 (mem s) v SLABSIZE) (v + 4) (slab_free s),
       slab_free := v, slab_nfree := slab_nfree s + 1\<rparr>)"

text \<open>The loop of \<^verbatim>\<open>slabinit\<close>; a page holds at most 128 slabs, which bounds the fuel.\<close>

primrec slabinit_loop :: "nat \<Rightarrow> addr \<Rightarrow> addr \<Rightarrow> ('a kmem_state_scheme, unit) kop" where
  "slabinit_loop 0 p start = (if p + SLABSIZE < start + PGSIZE then kfault else kret ())"
| "slabinit_loop (Suc n) p start =
     (if p + SLABSIZE < start + PGSIZE
      then kseq (free_slab p) (slabinit_loop n (p + SLABSIZE) start)
      else kret ())"

definition slabinit :: "('a kmem_state_scheme, unit) kop" where
  "slabinit = kbind kalloc (\<lambda>p. slabinit_loop 128 p p)"

definition alloc_slab :: "('a kmem_state_scheme, addr) kop" where
  "alloc_slab =
     kbind (kget slab_nfree) (\<lambda>n.
     kseq (kwhen (n = 0) slabinit)
    (kbind (kget slab_free) (\<lambda>f.
     kseq (kwhen (f \<noteq> 0) (kmod (\<lambda>s. s\<lparr>slab_free := ld32 (mem s) (f + 4)\<rparr>)))
    (kseq (kmod (\<lambda>s. s\<lparr>slab_nfree := slab_nfree s - 1\<rparr>))
          (kret f)))))"

definition kinit1 :: "addr \<Rightarrow> addr \<Rightarrow> ('a kmem_state_scheme, unit) kop" where
  "kinit1 vstart vend = freerange vstart vend"

definition kinit2 :: "addr \<Rightarrow> addr \<Rightarrow> ('a kmem_state_scheme, unit) kop" where
  "kinit2 vstart vend = kseq (freerange vstart vend) slabinit"

text \<open>Adding a page to the queue of resident pages (\<^verbatim>\<open>vm.c\<close>).\<close>

definition add_page :: "addr \<Rightarrow> addr \<Rightarrow> u32 \<Rightarrow> ('a kmem_state_scheme, unit) kop" where
  "add_page p va pid =
     kbind alloc_slab (\<lambda>e. if e = 0 then kfault else kmod (\<lambda>s.
       s\<lparr>pgqueue := lq_insert_tail
           \<lparr>pe_slab = e, ptr_pte = p, pn_pid = va OR pid, pe_ref = ld32 (mem s) p AND PTE_A\<rparr>
           (pgqueue s)\<rparr>))"

definition swapinit :: "('a kmem_state_scheme, unit) kop" where
  "swapinit = kmod (\<lambda>s. s\<lparr>pgqueue := []\<rparr>)"

section \<open>Free lists in memory\<close>

text \<open>\<open>flist m a xs\<close>: the list linked through the second word of each block, from \<open>a\<close> on.\<close>

fun flist :: "memory \<Rightarrow> addr \<Rightarrow> addr list \<Rightarrow> bool" where
  "flist m a [] \<longleftrightarrow> a = 0"
| "flist m a (x # xs) \<longleftrightarrow> a = x \<and> x \<noteq> 0 \<and> flist m (ld32 m (x + 4)) xs"

lemma flist_cong:
  "(\<And>x. x \<in> set xs \<Longrightarrow> ld32 m' (x + 4) = ld32 m (x + 4)) \<Longrightarrow> flist m' a xs = flist m a xs"
  by (induction xs arbitrary: a) auto

lemma flist_0: "flist m 0 xs \<longleftrightarrow> xs = []"
  by (cases xs) auto

lemma flist_nonzero: "flist m a xs \<Longrightarrow> a \<noteq> 0 \<Longrightarrow> \<exists>ys. xs = a # ys \<and> flist m (ld32 m (a + 4)) ys"
  by (cases xs) auto

definition block_aligned :: "addr \<Rightarrow> bool" where
  "block_aligned a \<longleftrightarrow> unat a mod 32 = 0"

lemma block_divides_page: "(32 :: nat) dvd 4096"
  by simp

lemma page_block_aligned: "unat a mod 4096 = 0 \<Longrightarrow> block_aligned a"
  unfolding block_aligned_def using mod_mod_cancel [OF block_divides_page, of "unat a"] by simp

lemma block_aligned_words:
  assumes "block_aligned a"
  shows "aligned4 a" "aligned4 (a + 4)" "unat (a + 4) = unat a + 4"
proof -
  have lt: "unat a < 4294967296" using unsigned_less [of a, where ?'a = nat] by simp
  obtain k where k: "unat a = 32 * k"
    using assms by (auto simp: block_aligned_def)
  show "aligned4 a" unfolding aligned4_def k by presburger
  have "k < 134217728" using lt k by simp
  then have "unat a + 4 < 4294967296" using k by linarith
  then show e: "unat (a + 4) = unat a + 4" by (simp add: unat_word_ariths)
  show "aligned4 (a + 4)" unfolding aligned4_def e k by presburger
qed

lemma block_words_disjoint:
  assumes "block_aligned a" "block_aligned b" "a \<noteq> b"
  shows "a \<noteq> b + 4" "a + 4 \<noteq> b + 4"
proof -
  have "unat a mod 32 = 0" "unat b mod 32 = 0" using assms by (simp_all add: block_aligned_def)
  then have "unat a \<noteq> unat b + 4" by presburger
  then show "a \<noteq> b + 4" using block_aligned_words(3) [OF assms(2)] by auto
  show "a + 4 \<noteq> b + 4" using assms by simp
qed

text \<open>Pushing a block that is not in the list: the two words written disturb no other link.\<close>

lemma flist_push:
  assumes "flist m a xs" "block_aligned v" "v \<noteq> 0" "v \<notin> set xs" "\<forall>x \<in> set xs. block_aligned x"
  shows "flist (st32 (st32 m v w) (v + 4) a) v (v # xs)"
proof -
  have "ld32 (st32 (st32 m v w) (v + 4) a) (x + 4) = ld32 m (x + 4)" if "x \<in> set xs" for x
  proof -
    have x: "block_aligned x" "v \<noteq> x" using that assms by auto
    show ?thesis
      using block_aligned_words [OF x(1)] block_aligned_words [OF assms(2)]
        block_words_disjoint [OF assms(2) x] by simp
  qed
  then have "flist (st32 (st32 m v w) (v + 4) a) a xs = flist m a xs"
    by (rule flist_cong)
  then show ?thesis
    using assms block_aligned_words [OF assms(2)] by simp
qed

section \<open>The page allocator keeps its free list\<close>

text \<open>
  \<open>kmem_rep s xs\<close>: the free list of \<open>s\<close> is \<open>xs\<close>, its pages are distinct and are pages the
  allocator may hand out, and \<^verbatim>\<open>nfreeblock\<close> is their number.
\<close>

definition kmem_rep :: "'a kmem_state_scheme \<Rightarrow> addr list \<Rightarrow> bool" where
  "kmem_rep s xs \<longleftrightarrow> flist (mem s) (kmem_free s) xs \<and> distinct xs \<and>
     (\<forall>x \<in> set xs. page_valid (kend s) x) \<and> kmem_nfree s = of_nat (length xs)"

definition kmem_ok :: "'a kmem_state_scheme \<Rightarrow> bool" where
  "kmem_ok s \<longleftrightarrow> 0 < kend s \<and> (\<exists>xs. kmem_rep s xs)"

lemma page_valid_aligned: "page_valid e v \<Longrightarrow> block_aligned v"
  by (simp add: page_valid_def page_block_aligned)

lemma page_valid_nonzero: "page_valid e v \<Longrightarrow> 0 < e \<Longrightarrow> v \<noteq> 0"
  by (auto simp: page_valid_def)

lemma distinct_pages_bound:
  fixes xs :: "addr list"
  assumes "distinct xs" "\<forall>x \<in> set xs. unat x mod 4096 = 0"
  shows "length xs \<le> 2 ^ 20"
proof -
  have lt: "unat x < 4294967296" for x :: u32
    using unsigned_less [of x, where ?'a = nat] by simp
  have "inj_on (\<lambda>x. unat x div 4096) (set xs)"
  proof (rule inj_onI)
    fix x y assume "x \<in> set xs" "y \<in> set xs" "unat x div 4096 = unat y div 4096"
    with assms(2) have "unat x = unat y" by (metis add.right_neutral mult_div_mod_eq)
    then show "x = y" by (rule unsigned_word_eqI)
  qed
  then have "card (set xs) = card ((\<lambda>x. unat x div 4096) ` set xs)"
    by (simp add: card_image)
  also have "\<dots> \<le> card {..<2 ^ 20 :: nat}"
  proof (rule card_mono)
    show "(\<lambda>x. unat x div 4096) ` set xs \<subseteq> {..<2 ^ 20}"
    proof
      fix y assume "y \<in> (\<lambda>x. unat x div 4096) ` set xs"
      then obtain x :: u32 where "y = unat x div 4096" by blast
      with lt [of x] less_mult_imp_div_less [of "unat x" "2 ^ 20" 4096] show "y \<in> {..<2 ^ 20}"
        by simp
    qed
  qed simp
  finally show ?thesis using assms(1) by (simp add: distinct_card)
qed

lemma kmem_rep_length: "kmem_rep s xs \<Longrightarrow> length xs \<le> 2 ^ 20"
  by (rule distinct_pages_bound) (auto simp: kmem_rep_def page_valid_def)

lemma kmem_rep_nfree_0: "kmem_rep s xs \<Longrightarrow> kmem_nfree s = 0 \<longleftrightarrow> xs = []"
proof -
  assume rep: "kmem_rep s xs"
  then have "length xs < 2 ^ 32" using kmem_rep_length [OF rep] by simp
  then have "unat (of_nat (length xs) :: u32) = length xs" by (simp add: unat_of_nat)
  then have "(of_nat (length xs) :: u32) = 0 \<longleftrightarrow> length xs = 0"
    by (simp add: word_unat_eq_iff)
  with rep show ?thesis by (simp add: kmem_rep_def)
qed

lemma kfree_rep:
  assumes "kmem_rep s xs" "0 < kend s" "page_valid (kend s) v" "v \<notin> set xs"
  shows "\<exists>s'. kfree v s = Done () s' \<and> kmem_rep s' (v # xs) \<and> kend s' = kend s"
proof -
  have "flist (st32 (st32 (mem s) v PGSIZE) (v + 4) (kmem_free s)) v (v # xs)"
    using assms by (intro flist_push)
      (auto simp: kmem_rep_def page_valid_aligned page_valid_nonzero)
  with assms show ?thesis by (auto simp: kfree_def kmem_rep_def)
qed

text \<open>With pages in the list, \<^verbatim>\<open>kalloc\<close> takes the first one.\<close>

lemma kalloc_rep:
  assumes "kmem_rep s (x # xs)"
  shows "\<exists>s'. kalloc s = Done x s' \<and> kmem_rep s' xs \<and> mem s' = mem s \<and> kend s' = kend s"
proof -
  have "kmem_nfree s \<noteq> 0" using kmem_rep_nfree_0 [OF assms] by simp
  with assms show ?thesis by (auto simp: kalloc_def kop_simps kmem_rep_def)
qed

text \<open>
  \<^verbatim>\<open>page_out\<close> on an empty free list: if it returns, it has freed exactly one valid page.
\<close>

lemma free_page_keeps [simp]:
  "free_page i fl s = Done () t \<Longrightarrow>
     kmem_free t = kmem_free s \<and> kmem_nfree t = kmem_nfree s \<and> mem t = mem s \<and> kend t = kend s"
  by (auto simp: free_page_def kop_simps free_page_slot_def split: option.splits if_splits)

lemma kfree_first_page:
  assumes "kfree v s = Done () t" "kmem_free s = 0" "kmem_nfree s = 0" "0 < kend s"
  shows "kmem_rep t [v]" "kend t = kend s"
proof -
  have v: "page_valid (kend s) v" using assms(1) by (auto simp: kfree_def split: if_splits)
  have "kmem_rep s []" using assms by (simp add: kmem_rep_def)
  from kfree_rep [OF this assms(4) v] assms(1) show "kmem_rep t [v]" "kend t = kend s" by auto
qed

lemma sel_page_keeps:
  "sel_page s = Done r t \<Longrightarrow> kmem_free t = kmem_free s \<and> kmem_nfree t = kmem_nfree s \<and>
     kend t = kend s \<and> mem t = mem s \<and> swap_map t = swap_map s \<and> swap_disk t = swap_disk s"
  by (auto simp: sel_page_def split: prod.splits option.splits)

lemma write_swap_loop_keeps:
  assumes "write_swap_loop n sec src s = Done r t"
  shows "kmem_free t = kmem_free s \<and> kmem_nfree t = kmem_nfree s \<and> kend t = kend s \<and> mem t = mem s"
  using assms by (induction n arbitrary: sec src s) (auto simp: kop_simps swap_wait_def split: if_splits)

lemma write_swap_keeps:
  assumes "write_swap n src s = Done r t"
  shows "kmem_free t = kmem_free s \<and> kmem_nfree t = kmem_nfree s \<and> kend t = kend s \<and> mem t = mem s"
  using assms by (auto simp: write_swap_def kop_simps swap_wait_def dest: write_swap_loop_keeps)

lemma page_out_frees_one:
  assumes run: "page_out s = Done () t" and "kmem_rep s []" "0 < kend s"
  shows "\<exists>v. kmem_rep t [v] \<and> kend t = kend s"
proof -
  have s0: "kmem_free s = 0" "kmem_nfree s = 0" using assms(2) by (auto simp: kmem_rep_def)
  from run obtain e s1 where sel: "sel_page s = Done (Some e) s1"
    by (auto simp: page_out_def kop_simps split: if_splits outcome.splits option.splits)
  let ?pte = "ld32 (mem s1) (ptr_pte e)"
  from run sel obtain s2 s3 where
    kf: "kfree (P2V (PTE_ADDR ?pte)) s2 = Done () s3"
    and fp: "free_page (pn_pid e) False s3 = Done () t"
    and s2: "kmem_free s2 = kmem_free s1" "kmem_nfree s2 = kmem_nfree s1" "kend s2 = kend s1"
    by (auto simp: page_out_def kop_simps alloc_slot_def
        split: if_splits outcome.splits option.splits dest!: write_swap_keeps)
  have s1: "kmem_free s1 = 0" "kmem_nfree s1 = 0" "kend s1 = kend s"
    using sel_page_keeps [OF sel] s0 by auto
  have "kmem_rep s3 [P2V (PTE_ADDR ?pte)]" "kend s3 = kend s"
    using kfree_first_page [OF kf] s1 s2 assms(3) by auto
  moreover have "kmem_free t = kmem_free s3" "kmem_nfree t = kmem_nfree s3" "mem t = mem s3" "kend t = kend s3"
    using free_page_keeps [OF fp] by auto
  ultimately show ?thesis unfolding kmem_rep_def by auto
qed

text \<open>
  In a state with a well-formed free list \<^verbatim>\<open>kalloc\<close> never returns \<^verbatim>\<open>NULL\<close>: with an empty list it
  first pages something out, and that either frees a page or panics.
\<close>

lemma kalloc_not_null:
  assumes "kmem_ok s" and run: "kalloc s = Done v t"
  shows "v \<noteq> 0 \<and> page_valid (kend s) v \<and> kmem_ok t \<and> kend t = kend s"
proof -
  obtain xs where rep: "kmem_rep s xs" and e: "0 < kend s"
    using assms(1) by (auto simp: kmem_ok_def)
  show ?thesis
  proof (cases xs)
    case (Cons x ys)
    with rep kalloc_rep [of s x ys] run have "x = v" "kmem_rep t ys" "kend t = kend s" by auto
    with rep e Cons show ?thesis
      by (auto simp: kmem_ok_def kmem_rep_def page_valid_nonzero)
  next
    case Nil
    with rep have n: "kmem_nfree s = 0" by (simp add: kmem_rep_def)
    with run obtain u where po: "page_out s = Done () u"
      by (auto simp: kalloc_def kop_simps split: outcome.splits)
    from page_out_frees_one [OF po] rep Nil e obtain w
      where w: "kmem_rep u [w]" "kend u = kend s" by auto
    then have f: "kmem_free u = w" "w \<noteq> 0" "kmem_nfree u = 1" "ld32 (mem u) (w + 4) = 0"
      by (auto simp: kmem_rep_def)
    with run po n have t: "v = w" "t = u\<lparr>kmem_free := 0, kmem_nfree := 0\<rparr>"
      by (simp_all add: kalloc_def kop_simps)
    have "kmem_rep t []" by (simp add: t kmem_rep_def)
    with w e t have "kmem_ok t" by (auto simp: kmem_ok_def)
    moreover have "page_valid (kend s) w" using w by (simp add: kmem_rep_def)
    ultimately show ?thesis using t f w by simp
  qed
qed

section \<open>Freeing a range\<close>

lemma freerange_loop_rep:
  assumes "kmem_rep s xs" "0 < kend s"
    and "\<And>i. i < k \<Longrightarrow> page_valid (kend s) (p + of_nat (4096 * i)) \<and> p + of_nat (4096 * i) \<notin> set xs \<and>
           p + of_nat (4096 * i) < vend"
    and "\<not> p + of_nat (4096 * k) < vend" and "k \<le> n" and "4096 * k < 2 ^ 32"
  shows "\<exists>s'. freerange_loop n p vend s = Done () s' \<and> kend s' = kend s \<and>
           kmem_rep s' (rev (map (\<lambda>i. p + of_nat (4096 * i)) [0..<k]) @ xs)"
  using assms
proof (induction n arbitrary: k p s xs)
  case 0
  then show ?case by (simp add: kop_simps)
next
  case (Suc n)
  show ?case
  proof (cases k)
    case 0
    with Suc.prems show ?thesis by (simp add: kop_simps)
  next
    case (Suc j)
    have p: "page_valid (kend s) p" "p \<notin> set xs" "p < vend"
      using Suc.prems(3) [of 0] Suc by auto
    obtain s1 where s1: "kfree p s = Done () s1" "kmem_rep s1 (p # xs)" "kend s1 = kend s"
      using kfree_rep [OF Suc.prems(1,2) p(1,2)] by blast
    have shift: "p + PGSIZE + of_nat (4096 * i) = p + of_nat (4096 * Suc i)" for i
      by (simp add: PGSIZE_def algebra_simps)
    have diff: "p + of_nat (4096 * i) \<noteq> p" if "0 < i" "i \<le> j" for i
    proof -
      have "4096 * i < 2 ^ 32" using that Suc Suc.prems(6) by linarith
      then have "unat (of_nat (4096 * i) :: u32) = 4096 * i" by (rule unat_of_nat_small)
      with that show ?thesis by (metis add_cancel_right_right mult_is_0 neq0_conv unat_0
            zero_neq_numeral)
    qed
    have "\<exists>s'. freerange_loop n (p + PGSIZE) vend s1 = Done () s' \<and> kend s' = kend s1 \<and>
        kmem_rep s' (rev (map (\<lambda>i. p + PGSIZE + of_nat (4096 * i)) [0..<j]) @ p # xs)"
    proof (rule Suc.IH [OF s1(2)])
      show "0 < kend s1" using s1 Suc.prems by simp
      show "page_valid (kend s1) (p + PGSIZE + of_nat (4096 * i)) \<and>
          p + PGSIZE + of_nat (4096 * i) \<notin> set (p # xs) \<and> p + PGSIZE + of_nat (4096 * i) < vend"
        if "i < j" for i
        using Suc.prems(3) [of "Suc i"] diff [of "Suc i"] that Suc s1(3) unfolding shift by auto
      show "\<not> p + PGSIZE + of_nat (4096 * j) < vend"
        using Suc.prems(4) Suc unfolding shift by simp
      show "j \<le> n" "4096 * j < 2 ^ 32" using Suc.prems Suc by simp_all
    qed
    then obtain s' where s': "freerange_loop n (p + PGSIZE) vend s1 = Done () s'" "kend s' = kend s1"
      "kmem_rep s' (rev (map (\<lambda>i. p + PGSIZE + of_nat (4096 * i)) [0..<j]) @ p # xs)"
      by blast
    have "map (\<lambda>i. p + of_nat (4096 * i)) [0..<k] = p # map (\<lambda>i. p + PGSIZE + of_nat (4096 * i)) [0..<j]"
      unfolding Suc shift by (simp add: map_upt_Suc del: upt_Suc)
    with s' s1 p(3) show ?thesis by (simp add: kop_simps)
  qed
qed

section \<open>Slabs\<close>

definition slab_rep :: "'a kmem_state_scheme \<Rightarrow> addr list \<Rightarrow> bool" where
  "slab_rep s xs \<longleftrightarrow> flist (mem s) (slab_free s) xs \<and> distinct xs \<and>
     (\<forall>x \<in> set xs. block_aligned x \<and> x \<noteq> 0) \<and> slab_nfree s = of_nat (length xs)"

lemma free_slab_rep:
  assumes "slab_rep s xs" "block_aligned v" "v \<noteq> 0" "v \<notin> set xs"
  shows "\<exists>s'. free_slab v s = Done () s' \<and> slab_rep s' (v # xs)"
proof -
  have "flist (st32 (st32 (mem s) v SLABSIZE) (v + 4) (slab_free s)) v (v # xs)"
    using assms by (intro flist_push) (auto simp: slab_rep_def)
  with assms show ?thesis by (auto simp: free_slab_def kop_simps slab_rep_def)
qed

text \<open>The \<open>j\<close>-th slab of a page.\<close>

definition slab_at :: "addr \<Rightarrow> nat \<Rightarrow> addr" where
  "slab_at p j = p + of_nat (32 * j)"

lemma slab_at_unat:
  assumes "unat p + 4096 < 2 ^ 32" "j \<le> 128"
  shows "unat (slab_at p j) = unat p + 32 * j"
proof -
  have "unat (of_nat (32 * j) :: u32) = 32 * j"
    using assms(2) by (intro unat_of_nat_small) simp
  then show ?thesis
    unfolding slab_at_def using assms by (subst unat_add_small) simp_all
qed

lemma slab_at_aligned:
  assumes "unat p + 4096 < 2 ^ 32" "unat p mod 4096 = 0" "j \<le> 128"
  shows "block_aligned (slab_at p j)"
proof -
  have "unat p mod 32 = 0"
    using page_block_aligned [OF assms(2)] by (simp add: block_aligned_def)
  then show ?thesis
    unfolding block_aligned_def slab_at_unat [OF assms(1,3)] by presburger
qed

lemma slabinit_loop_rep:
  assumes "slab_rep s xs" "unat p + 4096 < 2 ^ 32" "unat p mod 4096 = 0" "p \<noteq> 0"
    and "j \<le> 127" "127 - j \<le> n"
    and "\<And>i. j \<le> i \<Longrightarrow> i < 127 \<Longrightarrow> slab_at p i \<notin> set xs"
  shows "\<exists>s'. slabinit_loop n (slab_at p j) p s = Done () s' \<and>
           slab_rep s' (rev (map (slab_at p) [j..<127]) @ xs)"
  using assms(1,5,6,7)
proof (induction n arbitrary: j s xs)
  case 0
  then have "j = 127" by simp
  moreover have "\<not> slab_at p 127 + SLABSIZE < p + PGSIZE"
    by (simp add: slab_at_def layout_defs add.commute)
  ultimately show ?case using 0 by (simp add: kop_simps)
next
  case (Suc n)
  have next': "slab_at p j + SLABSIZE = slab_at p (Suc j)"
    by (simp add: slab_at_def SLABSIZE_def)
  have top: "p + PGSIZE = slab_at p 128"
    by (simp add: slab_at_def PGSIZE_def)
  have guard: "slab_at p j + SLABSIZE < p + PGSIZE \<longleftrightarrow> j < 127"
    unfolding next' top word_less_nat_alt
    using slab_at_unat [OF assms(2), of "Suc j"] slab_at_unat [OF assms(2), of 128] Suc.prems(2)
    by simp
  show ?case
  proof (cases "j < 127")
    case False
    with Suc.prems show ?thesis using guard by (simp add: kop_simps)
  next
    case True
    have nz: "slab_at p i \<noteq> 0" if "i \<le> 127" for i
    proof -
      have "unat p \<noteq> 0" using assms(4) by (simp add: unat_eq_zero)
      then have "unat (slab_at p i) \<noteq> 0" using slab_at_unat [OF assms(2), of i] that by simp
      then show ?thesis by auto
    qed
    have v: "block_aligned (slab_at p j)" "slab_at p j \<noteq> 0" "slab_at p j \<notin> set xs"
      using slab_at_aligned [OF assms(2,3)] Suc.prems(4) True nz by auto
    obtain s1 where s1: "free_slab (slab_at p j) s = Done () s1" "slab_rep s1 (slab_at p j # xs)"
      using free_slab_rep [OF Suc.prems(1) v] by blast
    have fresh: "slab_at p i \<notin> set (slab_at p j # xs)" if "Suc j \<le> i" "i < 127" for i
    proof -
      have "unat (slab_at p i) \<noteq> unat (slab_at p j)"
        using slab_at_unat [OF assms(2)] that by simp
      then show ?thesis using Suc.prems(4) [of i] that by auto
    qed
    obtain s' where s': "slabinit_loop n (slab_at p (Suc j)) p s1 = Done () s'"
      "slab_rep s' (rev (map (slab_at p) [Suc j..<127]) @ slab_at p j # xs)"
      using Suc.IH [OF s1(2), of "Suc j"] fresh True Suc.prems(3) by fastforce
    have "map (slab_at p) [j..<127] = slab_at p j # map (slab_at p) [Suc j..<127]"
      using True by (simp add: upt_conv_Cons)
    with s1 s' True guard next' show ?thesis by (simp add: kop_simps)
  qed
qed

text \<open>
  Every slab of a fresh page lies inside the page; the loop's strict comparison stops one
  slab short, so a page of 128 possible slabs gives 127.
\<close>

lemma slabinit_loop_fresh_page:
  assumes "slab_rep s xs" "page_valid e p" "0 < e"
    and "\<And>x. x \<in> set xs \<Longrightarrow> x < p \<or> p + 4096 \<le> x"
  shows "\<exists>s'. slabinit_loop 128 p p s = Done () s' \<and>
           slab_rep s' (rev (map (slab_at p) [0..<127]) @ xs)"
proof -
  have p: "unat p mod 4096 = 0" "p \<noteq> 0" and pv: "V2P p < PHYSTOP"
    using assms(2,3) by (auto simp: page_valid_def page_valid_nonzero)
  have small: "unat (V2P p) < 33554432" using pv by (simp add: word_less_nat_alt PHYSTOP_def)
  then have "unat (V2P p + KERNBASE) = unat (V2P p) + 2147483648"
    by (subst unat_add_small) (simp_all add: KERNBASE_def)
  then have "unat p = unat (V2P p) + 2147483648" by (simp add: V2P_def)
  then have bound: "unat p + 4096 < 2 ^ 32" using small by simp
  have top: "unat (p + 4096) = unat p + 4096"
    using bound by (subst unat_add_small) simp_all
  have "slab_at p i \<notin> set xs" if "i < 127" for i
  proof
    assume "slab_at p i \<in> set xs"
    from assms(4) [OF this] slab_at_unat [OF bound, of i] that top
    show False by (auto simp: word_less_nat_alt word_le_nat_alt)
  qed
  with slabinit_loop_rep [OF assms(1) bound p, of 0 128] show ?thesis
    by (simp add: slab_at_def)
qed

section \<open>Swap\<close>

lemma SECNO_SWAPM_inverse:
  assumes "i < SLOTSIZE"
  shows "SECNO2SWAPM (SWAPM2SECNO i) = i"
proof -
  have "unat (push_bit 3 (of_nat i :: u32)) = 8 * i"
    using assms by (simp add: push_bit_eq_mult unat_word_ariths unat_of_nat SLOTSIZE_def)
  then show ?thesis
    by (simp add: SECNO2SWAPM_def SWAPM2SECNO_def drop_bit_eq_div unat_div)
qed

lemma alloc_slot_Done:
  assumes "alloc_slot ident s = Done n t"
  shows "\<exists>i. i < SLOTSIZE \<and> swap_map s i = 0 \<and> n = SWAPM2SECNO i \<and>
           t = s\<lparr>swap_map := (swap_map s)(i := ident)\<rparr>"
proof -
  obtain i where i: "find_from (\<lambda>i. swap_map s i = 0) 0 SLOTSIZE = Some i"
    and r: "n = SWAPM2SECNO i" "t = s\<lparr>swap_map := (swap_map s)(i := ident)\<rparr>"
    using assms by (auto simp: alloc_slot_def split: option.splits)
  from find_from_SomeD [OF i] have "i < SLOTSIZE" "swap_map s i = 0" by simp_all
  with r show ?thesis by blast
qed

lemma find_slot_fresh:
  assumes "\<forall>k < SLOTSIZE. swap_map s k = ident \<longrightarrow> k = i" "swap_map s i = ident" "i < SLOTSIZE"
  shows "find_slot ident s = Done (SWAPM2SECNO i) s"
proof -
  have "\<exists>k. find_from (\<lambda>k. swap_map s k = ident) 0 SLOTSIZE = Some k \<and> k \<le> i"
    by (rule find_from_ex) (simp_all add: assms(2,3))
  then obtain j where j: "find_from (\<lambda>k. swap_map s k = ident) 0 SLOTSIZE = Some j" by blast
  from find_from_SomeD [OF j] have "j < SLOTSIZE" "swap_map s j = ident" by simp_all
  with assms(1) have "j = i" by blast
  with j show ?thesis by (simp add: find_slot_def)
qed

lemma lba28_slot:
  assumes "i < SLOTSIZE"
  shows "lba28 (SWAPM2SECNO i) = 8 * i"
proof -
  have u: "unat (SWAPM2SECNO i) = 8 * i"
    using assms by (simp add: SWAPM2SECNO_def push_bit_eq_mult unat_word_ariths unat_of_nat SLOTSIZE_def)
  have "0x0FFFFFFF = (mask 28 :: u32)" by (simp add: mask_eq_exp_minus_1)
  then have "SWAPM2SECNO i AND 0x0FFFFFFF = take_bit 28 (SWAPM2SECNO i)"
    by (simp add: take_bit_eq_mask)
  then have "unat (SWAPM2SECNO i AND 0x0FFFFFFF) = unat (SWAPM2SECNO i) mod 2 ^ 28"
    by (simp only: unsigned_take_bit_eq) (simp add: take_bit_eq_mod)
  with u assms show ?thesis by (simp add: lba28_def SLOTSIZE_def)
qed

text \<open>The swap drive reports no error, and its sectors have 512 bytes.\<close>

definition drive_ok :: "'a kmem_state_scheme \<Rightarrow> bool" where
  "drive_ok s \<longleftrightarrow> (\<forall>n. swap_sr s n AND (ATA_SR_DF OR ATA_SR_ERR) = 0) \<and> (\<forall>sec. length (swap_disk s sec) = 512)"

lemma swap_wait_ok: "drive_ok s \<Longrightarrow> swap_wait c s = Done 0 (s\<lparr>swap_waits := Suc (swap_waits s)\<rparr>)"
  by (simp add: swap_wait_def kop_simps drive_ok_def)

definition put_sectors :: "(nat \<Rightarrow> byte list) \<Rightarrow> nat \<Rightarrow> nat \<Rightarrow> memory \<Rightarrow> addr \<Rightarrow> nat \<Rightarrow> byte list" where
  "put_sectors d sec n m v =
     (\<lambda>k. if sec \<le> k \<and> k < sec + n then mem_read m (v + of_nat (512 * (k - sec))) 512 else d k)"

lemma put_sectors_Suc:
  "put_sectors (d(sec := mem_read m v 512)) (Suc sec) n m (v + 512) = put_sectors d sec (Suc n) m v"
proof
  fix k
  have "v + 512 + of_nat (512 * (k - Suc sec)) = v + of_nat (512 * (k - sec))" if "sec < k"
  proof -
    have "512 * (k - sec) = 512 + 512 * (k - Suc sec)" using that by simp
    then show ?thesis by (simp only: of_nat_add) (simp add: add.assoc)
  qed
  then show "put_sectors (d(sec := mem_read m v 512)) (Suc sec) n m (v + 512) k = put_sectors d sec (Suc n) m v k"
    by (cases "k = sec") (auto simp: put_sectors_def)
qed

text \<open>With a drive that reports no error both transfers move all their sectors.\<close>

lemma write_swap_loop_run:
  "drive_ok s \<Longrightarrow> write_swap_loop n sec v s =
     Done 0 (s\<lparr>swap_disk := put_sectors (swap_disk s) sec n (mem s) v, swap_waits := swap_waits s + n\<rparr>)"
proof (induction n arbitrary: s sec v)
  case 0
  have "put_sectors d sec 0 m v = d" for d m by (rule ext) (auto simp: put_sectors_def)
  then show ?case by (simp add: kop_simps)
next
  case (Suc n)
  let ?s = "s\<lparr>swap_waits := Suc (swap_waits s), swap_disk := (swap_disk s)(sec := mem_read (mem s) v 512)\<rparr>"
  have "drive_ok ?s" using Suc.prems by (simp add: drive_ok_def)
  from Suc.IH [OF this] show ?case
    using swap_wait_ok [OF Suc.prems] by (simp add: kop_simps put_sectors_Suc [unfolded fun_upd_def])
qed

lemma write_swap_run:
  assumes "drive_ok s"
  shows "write_swap n v s =
    Done 0 (s\<lparr>swap_disk := put_sectors (swap_disk s) (lba28 n) 8 (mem s) v, swap_waits := swap_waits s + 9\<rparr>)"
proof -
  have "drive_ok (s\<lparr>swap_waits := Suc (swap_waits s)\<rparr>)" using assms by (simp add: drive_ok_def)
  from write_swap_loop_run [OF this, of 8] show ?thesis
    using swap_wait_ok [OF assms] by (simp add: write_swap_def kop_simps)
qed

lemma read_swap_loop_run:
  "drive_ok s \<Longrightarrow> n \<le> 8 \<Longrightarrow> read_swap_loop n sec v s =
     Done 0 (s\<lparr>mem := mem_write (mem s) v (concat (map (\<lambda>k. swap_disk s (sec + k)) [0..<n])), swap_waits := swap_waits s + n\<rparr>)"
proof (induction n arbitrary: s sec v)
  case 0
  then show ?case by (simp add: kop_simps)
next
  case (Suc n)
  let ?s = "s\<lparr>swap_waits := Suc (swap_waits s), mem := mem_write (mem s) v (swap_disk s sec)\<rparr>"
  let ?r = "concat (map (\<lambda>k. swap_disk s (Suc sec + k)) [0..<n])"
  have ok: "drive_ok ?s" "length (swap_disk s k) = 512" for k using Suc.prems(1) by (simp_all add: drive_ok_def)
  have "length ?r = 512 * n" by (simp add: length_concat comp_def ok(2) sum_list_triv)
  then have "mem_write (mem_write (mem s) v (swap_disk s sec)) (v + 512) ?r = mem_write (mem s) v (swap_disk s sec @ ?r)"
    using Suc.prems(2) ok(2) [of sec] mem_write_append [of "swap_disk s sec" ?r "mem s" v] by simp
  moreover have "swap_disk s sec @ ?r = concat (map (\<lambda>k. swap_disk s (sec + k)) [0..<Suc n])"
    by (simp only: upt_conv_Cons [OF zero_less_Suc] map_Suc_upt [symmetric]) (simp add: comp_def)
  ultimately show ?case
    using swap_wait_ok [OF Suc.prems(1)] Suc.IH [OF ok(1), of "Suc sec"] Suc.prems(2) by (simp add: kop_simps)
qed

lemma read_swap_run:
  assumes "drive_ok s"
  shows "read_swap n v s =
    Done 0 (s\<lparr>mem := mem_write (mem s) v (concat (map (\<lambda>k. swap_disk s (lba28 n + k)) [0..<8])), swap_waits := swap_waits s + 9\<rparr>)"
proof -
  have "drive_ok (s\<lparr>swap_waits := Suc (swap_waits s)\<rparr>)" using assms by (simp add: drive_ok_def)
  from read_swap_loop_run [OF this, of 8] show ?thesis
    using swap_wait_ok [OF assms] by (simp add: read_swap_def kop_simps)
qed

text \<open>When the drive reports an error before the first sector, nothing is written and the result is -1.\<close>

lemma write_swap_error:
  assumes "swap_sr s (Suc (swap_waits s)) AND (ATA_SR_DF OR ATA_SR_ERR) \<noteq> 0"
  shows "write_swap n v s = Done (-1) (s\<lparr>swap_waits := swap_waits s + 2\<rparr>)"
proof -
  have eight: "Suc 7 = 8" by simp
  have "write_swap_loop (Suc 7) (lba28 n) v (s\<lparr>swap_waits := Suc (swap_waits s)\<rparr>) = Done (-1) (s\<lparr>swap_waits := swap_waits s + 2\<rparr>)"
    unfolding write_swap_loop.simps(2) using assms by (simp add: kop_simps swap_wait_def)
  then have "write_swap_loop 8 (lba28 n) v (s\<lparr>swap_waits := Suc (swap_waits s)\<rparr>) = Done (-1) (s\<lparr>swap_waits := swap_waits s + 2\<rparr>)"
    unfolding eight .
  then show ?thesis by (simp add: write_swap_def kop_simps swap_wait_def)
qed

text \<open>What is written to a slot is what a later read of the slot brings back.\<close>

lemma put_sectors_content:
  "concat (map (\<lambda>k. put_sectors d sec 8 m src (sec + k)) [0..<8]) = mem_read m src 4096"
proof -
  have t: "put_sectors d sec 8 m src (sec + k) = mem_read m (src + of_nat (512 * k)) 512" if "k < 8" for k
    using that by (simp add: put_sectors_def)
  have eight: "[0..<8] = [0, 1, 2, 3, 4, 5, 6, 7::nat]" by (simp add: upt_rec)
  have split: "mem_read m a (512 + n) = mem_read m a 512 @ mem_read m (a + 512) n" for a n
  proof (rule nth_equalityI)
    fix i assume "i < length (mem_read m a (512 + n))"
    then show "mem_read m a (512 + n) ! i = (mem_read m a 512 @ mem_read m (a + 512) n) ! i"
      by (auto simp: mem_read_def nth_append of_nat_diff)
  qed simp
  have "mem_read m src 4096 = concat (map (\<lambda>k. mem_read m (src + of_nat (512 * k)) 512) [0..<8])"
    using split [of src 3584] split [of "src + 512" 3072]
      split [of "src + 1024" 2560] split [of "src + 1536" 2048]
      split [of "src + 2048" 1536] split [of "src + 2560" 1024]
      split [of "src + 3072" 512]
    by (simp add: eight add.assoc)
  also have "\<dots> = concat (map (\<lambda>k. put_sectors d sec 8 m src (sec + k)) [0..<8])"
    by (intro arg_cong [where f = concat] map_cong) (simp_all add: t)
  finally show ?thesis ..
qed

section \<open>The second-chance choice\<close>

lemma second_chance_spec:
  "second_chance q =
     (map (\<lambda>e. e\<lparr>pe_ref := 0\<rparr>) (takeWhile (\<lambda>e. pe_ref e = PTE_A) q) @ dropWhile (\<lambda>e. pe_ref e = PTE_A) q,
      case dropWhile (\<lambda>e. pe_ref e = PTE_A) q of [] \<Rightarrow> None | e # _ \<Rightarrow> Some e)"
  by (induction q) (auto split: prod.splits)

section \<open>The memory operations leave the rest of the kernel state alone\<close>

lemma mem_ops_frame [frames]:
  "keeps kmem_state.more (free_page_slot i)" "keeps kmem_state.more (free_slab v)"
  unfolding free_page_slot_def free_slab_def
  by (rule keeps_kmod, simp split: option.split)+

lemma swap_wait_frame [frames]: "keeps kmem_state.more (swap_wait c)"
  unfolding swap_wait_def by (intro frames keeps_kmod; simp)

lemma swap_loop_frame [frames]:
  "keeps kmem_state.more (read_swap_loop n sec v)" "keeps kmem_state.more (write_swap_loop n sec v)"
  by (induction n arbitrary: sec v) (simp_all, (intro frames keeps_kmod; simp)+)

lemma swap_frame [frames]: "keeps kmem_state.more (write_swap n v)" "keeps kmem_state.more (read_swap n v)"
  unfolding write_swap_def read_swap_def by (intro frames)+

lemma kfree_frame [frames]: "keeps kmem_state.more (kfree v)"
  by (rule keeps_Done; clarsimp simp: kfree_def split: if_splits)

lemma slot_frame [frames]:
  "keeps kmem_state.more (alloc_slot i)" "keeps kmem_state.more (find_slot i)"
  "keeps kmem_state.more (free_slot n)" "keeps kmem_state.more sel_page"
  by (rule keeps_Done; clarsimp simp: alloc_slot_def find_slot_def free_slot_def sel_page_def Let_def
      split: option.splits prod.splits if_splits)+

lemma free_page_frame [frames]: "keeps kmem_state.more (free_page i fl)"
  unfolding free_page_def by (intro frames keeps_kmod; simp)

lemma alloc_frame [frames]: "keeps kmem_state.more page_out" "keeps kmem_state.more kalloc"
  unfolding page_out_def kalloc_def
  by (intro frames keeps_kmod; simp)+

lemma slab_frame [frames]: "keeps kmem_state.more (slabinit_loop n p q)" 
  by (induction n arbitrary: p) (simp_all add: frames)

lemma slab_frame2 [frames]: "keeps kmem_state.more slabinit" "keeps kmem_state.more alloc_slab"
  "keeps kmem_state.more (add_page p va i)"
  unfolding slabinit_def alloc_slab_def add_page_def
  by (intro frames keeps_kmod; simp)+

section \<open>The memory operations never sleep\<close>

lemma mem_awake [awakes]:
  "awake (free_page_slot i)" "awake (free_slab v)" "awake (swap_wait c)"
  unfolding free_page_slot_def free_slab_def swap_wait_def by (intro awakes)+

lemma swap_loop_awake [awakes]: "awake (read_swap_loop n sec v)" "awake (write_swap_loop n sec v)"
  by (induction n arbitrary: sec v) (simp_all add: awakes)

lemma swap_awake [awakes]: "awake (write_swap n v)" "awake (read_swap n v)"
  unfolding write_swap_def read_swap_def by (intro awakes)+

lemma kfree_awake [awakes]: "awake (kfree v)"
  by (simp add: awake_def kfree_def)

lemma slot_awake [awakes]: "awake (alloc_slot i)" "awake (find_slot i)" "awake (free_slot n)"
  by (simp_all add: awake_def alloc_slot_def find_slot_def free_slot_def Let_def split: option.split)

lemma page_awake [awakes]: "awake sel_page" "awake (free_page i fl)"
proof -
  show "awake sel_page" by (simp add: awake_def sel_page_def split: option.split prod.split)
  show "awake (free_page i fl)" unfolding free_page_def by (intro awakes)
qed

lemma alloc_awake [awakes]: "awake page_out" "awake kalloc"
  unfolding page_out_def kalloc_def by (intro awakes)+

lemma slabinit_loop_awake [awakes]: "awake (slabinit_loop n p q)"
  by (induction n arbitrary: p) (simp_all add: awakes)

lemma slab_awake [awakes]: "awake slabinit" "awake alloc_slab" "awake (add_page p va i)"
  unfolding slabinit_def alloc_slab_def add_page_def by (intro awakes)+

section \<open>Properties\<close>

text \<open>A concrete memory for the witnesses: nothing free, the kernel image ends at 2 MB.\<close>

definition demo_kmem :: kmem_state where
  "demo_kmem = \<lparr>mem = (\<lambda>_. 0), kend = 0x80200000, kdata = 0x80110000, kmem_nfree = 0, kmem_free = 0,
     slab_nfree = 0, slab_free = 0, pgqueue = [], swap_map = (\<lambda>_. 0), swap_disk = (\<lambda>_. replicate 512 0),
     swap_sr = (\<lambda>_. 0x40), swap_waits = 0\<rparr>"

lemma demo_kmem_simps [simp]:
  "kend demo_kmem = 0x80200000" "kmem_nfree demo_kmem = 0" "kmem_free demo_kmem = 0"
  "slab_nfree demo_kmem = 0" "slab_free demo_kmem = 0" "pgqueue demo_kmem = []"
  "swap_map demo_kmem = (\<lambda>_. 0)"
  by (simp_all add: demo_kmem_def)

lemma demo_kmem_rep: "kmem_rep demo_kmem []" "slab_rep demo_kmem []"
  by (simp_all add: kmem_rep_def slab_rep_def)

lemma demo_page: "page_valid 0x80200000 0x80300000"
  by (simp add: page_valid_def layout_defs)

text \<open>
  Freeing a page and allocating again gives the same page back and leaves the
  free list as it was; freeing a page that is not page aligned or outside the range panics.
\<close>

lemma kfree_kalloc:
  assumes "kmem_rep s xs" "0 < kend s" "v \<notin> set xs"
  shows "if page_valid (kend s) v then \<exists>t. kseq (kfree v) kalloc s = Done v t \<and> kmem_rep t xs
         else kfree v s = Panicked ''kfree''"
proof (cases "page_valid (kend s) v")
  case True
  then obtain u where u: "kfree v s = Done () u" "kmem_rep u (v # xs)"
    using kfree_rep assms by blast
  from kalloc_rep [OF u(2)] u(1) True show ?thesis by (auto simp: kop_simps)
qed (simp add: kfree_def)

text \<open>
  C31 (page allocator). \<^verbatim>\<open>freerange\<close> over \<open>k\<close> whole pages returns, and afterwards the free list is exactly
  these pages, last one first, in front of what was free before. Its fuel is always enough.
\<close>

theorem freerange_frees_all:
  assumes "kmem_rep s xs" "0 < kend s" "4096 * k < 2 ^ 32"
    and "\<And>i. i < k \<Longrightarrow> page_valid (kend s) (PGROUNDUP vs + of_nat (4096 * i)) \<and>
           PGROUNDUP vs + of_nat (4096 * i) \<notin> set xs \<and> PGROUNDUP vs + of_nat (4096 * i) < ve"
    and "\<not> PGROUNDUP vs + of_nat (4096 * k) < ve"
  shows "\<exists>t. freerange vs ve s = Done () t \<and>
           kmem_rep t (rev (map (\<lambda>i. PGROUNDUP vs + of_nat (4096 * i)) [0..<k]) @ xs)"
  unfolding freerange_def
  using freerange_loop_rep [OF assms(1,2,4,5), of "2 ^ 20"] assms(3) by auto

theorem freerange_frees_all_witness:
  "\<exists>t. freerange 0x802FF001 0x80302000 demo_kmem = Done () t \<and> kmem_rep t [0x80301000, 0x80300000]"
proof -
  have r: "PGROUNDUP 0x802FF001 = 0x80300000" by (simp add: PGROUNDUP_def PGSIZE_def)
  have "\<exists>t. freerange 0x802FF001 0x80302000 demo_kmem = Done () t \<and>
      kmem_rep t (rev (map (\<lambda>i. PGROUNDUP 0x802FF001 + of_nat (4096 * i)) [0..<2]) @ [])"
    by (rule freerange_frees_all [OF demo_kmem_rep(1)])
      (auto simp: r less_2_cases_iff page_valid_def layout_defs)
  then show ?thesis by (simp add: r numeral_2_eq_2)
qed

end
