(* ===== verification/Proc_State.thy ===== *)
theory Proc_State
  imports Kmem
begin

unbundle bit_operations_syntax

text \<open>
  The process table and the scheduler's variables (\<^verbatim>\<open>proc.h\<close>, \<^verbatim>\<open>process.c\<close>, \<^verbatim>\<open>schedule.c\<close>,
  \<^verbatim>\<open>trap.c\<close>) as an extension of the memory state, the accessors the operations use, and the
  priority arithmetic of \<^verbatim>\<open>proc.h\<close> with its bounds.
\<close>

section \<open>Constants (\<^verbatim>\<open>param.h\<close>, \<^verbatim>\<open>param_yonix.h\<close>)\<close>

definition NPROC :: nat where "NPROC = 64"
definition P_NOFILE :: nat where "P_NOFILE = 16"
definition K_STACKSZ :: u32 where "K_STACKSZ = 4096"
definition SCHEME_NUMS :: nat where "SCHEME_NUMS = 3"
definition PRI_NUM :: int where "PRI_NUM = 140"
definition TIMER_INTERVAL :: int where "TIMER_INTERVAL = 10"
definition ETERNAL :: int where "ETERNAL = -255"
definition MAX_RT_PRI :: int where "MAX_RT_PRI = 100"
definition SCHED_RR_TIMESLICE :: int where "SCHED_RR_TIMESLICE = 100"
definition SCHED_FIFO_TIMESLICE :: int where "SCHED_FIFO_TIMESLICE = ETERNAL"
definition MIN_TIMESLICE :: int where "MIN_TIMESLICE = 100"
definition MAX_NICE :: int where "MAX_NICE = 15"
definition MIN_NICE :: int where "MIN_NICE = -15"
definition MAX_AVGSLP :: int where "MAX_AVGSLP = 100"
definition MAX_PID :: int where "MAX_PID = 0xfff"

lemmas sched_consts = PRI_NUM_def TIMER_INTERVAL_def ETERNAL_def MAX_RT_PRI_def
  SCHED_RR_TIMESLICE_def SCHED_FIFO_TIMESLICE_def MIN_TIMESLICE_def MAX_NICE_def MIN_NICE_def
  MAX_AVGSLP_def

section \<open>Processes (\<^verbatim>\<open>proc.h\<close>, \<^verbatim>\<open>x86.h\<close>)\<close>

datatype procstat = SUNUSED | SEMBRYO | SWAIT | SSLEEPING | READY | SRUN | SZOMB

record trapframe =
  tf_edi :: u32
  tf_esi :: u32
  tf_ebp :: u32
  tf_oesp :: u32
  tf_ebx :: u32
  tf_edx :: u32
  tf_ecx :: u32
  tf_eax :: u32
  tf_gs :: u16
  tf_fs :: u16
  tf_es :: u16
  tf_ds :: u16
  tf_trapno :: u32
  tf_err :: u32
  tf_eip :: u32
  tf_cs :: u16
  tf_eflags :: u32
  tf_esp :: u32
  tf_ss :: u16

text \<open>
  Where a kernel context continues: \<^verbatim>\<open>forkret\<close> for a new process (with \<^verbatim>\<open>trapret\<close> above it on
  the kernel stack), elsewhere for one that called \<^verbatim>\<open>swtch\<close>.
\<close>

datatype kentry = AtZero | AtForkret | AtSwtch

record kcontext =
  cx_edi :: u32
  cx_esi :: u32
  cx_ebx :: u32
  cx_ebp :: u32
  cx_eip :: kentry

text \<open>
  \<^verbatim>\<open>struct proc\<close>. Pointers to other table entries, to open files and to inodes are indices
  into the respective tables; the trap frame and the context, which the code keeps on the
  process's kernel stack, are kept by value.
\<close>

record proc =
  p_stat :: procstat
  p_pid :: int
  p_procp :: int
  p_prt :: "nat option"
  p_page :: addr
  p_size :: u32
  p_tf :: trapframe
  p_kstack :: addr
  p_stack :: u32
  p_ctxt :: kcontext
  p_chan :: chan
  p_killed :: int
  p_of :: "nat option list"
  p_cdir :: "nat option"
  p_name :: "byte list"
  p_time_slice :: int
  p_creatime :: int
  p_nice :: int
  p_spri :: int
  p_dpri :: int
  p_avgslp :: int

record slot_entry =
  se_slab :: addr
  slotptr :: nat

text \<open>
  The scheduler is a coroutine: \<^verbatim>\<open>switch_to\<close> leaves it in the middle of a scheme's function,
  and a process that gives up the CPU continues it there. Its suspended frame records where
  it is and the queue entry it holds.
\<close>

datatype sched_frame =
    FifoResched
  | FifoEntry slot_entry
  | RRFrame
  | PriEntry slot_entry

text \<open>
  The global variables. \<open>cur\<close> is \<^verbatim>\<open>proc\<close>; \<open>rr_p\<close> the static cursor of the round-robin scheme;
  \<open>sched_k\<close> the suspended scheduler; \<open>cr3\<close> and \<open>ts_esp0\<close> the page directory register and the
  kernel stack pointer of the task state segment.
\<close>

record proc_state = kmem_state +
  ptable :: "proc list"
  nextpid :: int
  initproc :: "nat option"
  cur :: "nat option"
  esqueue :: "slot_entry list"
  rdyqueue :: "slot_entry list"
  rdy_q_dy :: "slot_entry list list"
  cpu_scheme :: nat
  rr_p :: nat
  ticks :: u32
  sched_k :: "sched_frame option"
  kpgdir :: addr
  cr3 :: u32
  ts_esp0 :: u32
  sched_debug :: bool

abbreviation pof :: "'a proc_state_scheme \<Rightarrow> nat \<Rightarrow> proc" where
  "pof s i \<equiv> ptable s ! i"

definition upd_proc :: "nat \<Rightarrow> (proc \<Rightarrow> proc) \<Rightarrow> 'a proc_state_scheme \<Rightarrow> 'a proc_state_scheme" where
  "upd_proc i f s = s\<lparr>ptable := (ptable s)[i := f (ptable s ! i)]\<rparr>"

text \<open>Writing a table entry; the current process, a fault when there is none.\<close>

definition kproc :: "nat \<Rightarrow> (proc \<Rightarrow> proc) \<Rightarrow> ('a proc_state_scheme, unit) kop" where
  "kproc i f = kmod (upd_proc i f)"

definition pget :: "nat \<Rightarrow> (proc \<Rightarrow> 'v) \<Rightarrow> ('a proc_state_scheme, 'v) kop" where
  "pget i f = kget (\<lambda>s. f (pof s i))"

definition curproc :: "('a proc_state_scheme, nat) kop" where
  "curproc = (\<lambda>s. case cur s of None \<Rightarrow> Fault | Some i \<Rightarrow> Done i s)"

lemma ptable_upd_proc [simp]:
  "ptable (upd_proc i f s) = (ptable s)[i := f (ptable s ! i)]"
  by (simp add: upd_proc_def)

lemma upd_proc_other [simp]:
  "nextpid (upd_proc i f s) = nextpid s" "initproc (upd_proc i f s) = initproc s"
  "cur (upd_proc i f s) = cur s" "esqueue (upd_proc i f s) = esqueue s"
  "rdyqueue (upd_proc i f s) = rdyqueue s" "rdy_q_dy (upd_proc i f s) = rdy_q_dy s"
  "cpu_scheme (upd_proc i f s) = cpu_scheme s" "rr_p (upd_proc i f s) = rr_p s"
  "ticks (upd_proc i f s) = ticks s" "sched_k (upd_proc i f s) = sched_k s"
  "kmem_nfree (upd_proc i f s) = kmem_nfree s" "kmem_free (upd_proc i f s) = kmem_free s"
  "slab_nfree (upd_proc i f s) = slab_nfree s" "slab_free (upd_proc i f s) = slab_free s"
  "mem (upd_proc i f s) = mem s" "kend (upd_proc i f s) = kend s"
  "pgqueue (upd_proc i f s) = pgqueue s" "swap_map (upd_proc i f s) = swap_map s"
  "swap_disk (upd_proc i f s) = swap_disk s" "swap_sr (upd_proc i f s) = swap_sr s"
  "swap_waits (upd_proc i f s) = swap_waits s"
  by (simp_all add: upd_proc_def)

section \<open>Priorities (\<^verbatim>\<open>proc.h\<close>)\<close>

definition c_max :: "int \<Rightarrow> int \<Rightarrow> int" where "c_max a b = (if a > b then a else b)"
definition c_min :: "int \<Rightarrow> int \<Rightarrow> int" where "c_min a b = (if a < b then a else b)"

text \<open>C division of \<^verbatim>\<open>int\<close> values truncates towards zero.\<close>

definition c_div :: "int \<Rightarrow> int \<Rightarrow> int" where
  "c_div a b = sgn a * sgn b * (\<bar>a\<bar> div \<bar>b\<bar>)"

definition STATIC_PRI :: "int \<Rightarrow> int" where
  "STATIC_PRI nice = MAX_RT_PRI + nice + 20"

definition TIME_SLICE :: "int \<Rightarrow> int" where
  "TIME_SLICE stpri =
     (if stpri > 120 then c_max ((PRI_NUM - stpri) * 5) MIN_TIMESLICE
      else c_max ((PRI_NUM - stpri) * 20) MIN_TIMESLICE)"

definition BONUS :: "int \<Rightarrow> int" where
  "BONUS avgslp = c_div avgslp 10"

definition DYNAMIC_PRI :: "int \<Rightarrow> int \<Rightarrow> int" where
  "DYNAMIC_PRI stpri bns = c_max MAX_RT_PRI (c_min (stpri - bns + 5) (PRI_NUM - 1))"

text \<open>The dynamic priority always selects one of the forty ready queues.\<close>

lemma DYNAMIC_PRI_queue: "0 \<le> DYNAMIC_PRI st b - 100 \<and> nat (DYNAMIC_PRI st b - 100) < 40"
  by (auto simp: DYNAMIC_PRI_def c_max_def c_min_def sched_consts)

lemma TIME_SLICE_ge: "MIN_TIMESLICE \<le> TIME_SLICE st"
  by (simp add: TIME_SLICE_def c_max_def sched_consts)

lemma TIME_SLICE_antimono: "a \<le> b \<Longrightarrow> TIME_SLICE b \<le> TIME_SLICE a"
  by (auto simp: TIME_SLICE_def c_max_def sched_consts)

lemma STATIC_PRI_range:
  "MIN_NICE \<le> n \<Longrightarrow> n \<le> MAX_NICE \<Longrightarrow> 105 \<le> STATIC_PRI n \<and> STATIC_PRI n \<le> 135"
  by (simp add: STATIC_PRI_def sched_consts)

end
