(* ===== verification/Vm.thy ===== *)
theory Vm
  imports Proc_State
begin

unbundle bit_operations_syntax

text \<open>
  Virtual memory (\<^verbatim>\<open>vm.c\<close>): the two-level page table in kernel memory, mapping and unmapping
  of user pages, copying an address space, the reference bits of the resident pages, and
  paging in from the swap disk. Segment descriptors are in \<open>Devices\<close>.
\<close>

section \<open>Page tables\<close>

definition PDX :: "addr \<Rightarrow> u32" where "PDX va = drop_bit 22 va AND 0x3FF"
definition PTX :: "addr \<Rightarrow> u32" where "PTX va = drop_bit 12 va AND 0x3FF"

definition EXTMEM :: u32 where "EXTMEM = 0x100000"
definition DEVSPACE :: u32 where "DEVSPACE = 0xFE000000"
definition MEMTOP :: u32 where "MEMTOP = 0xFFFFFFFF"
definition KERNLINK :: addr where "KERNLINK = KERNBASE + EXTMEM"
definition NPDENTRIES :: nat where "NPDENTRIES = 1024"
definition NPTENTRIES :: u32 where "NPTENTRIES = 1024"

text \<open>\<^verbatim>\<open>memset(v, 0, PGSIZE)\<close>.\<close>

definition page_zero :: "addr \<Rightarrow> ('a kmem_state_scheme, unit) kop" where
  "page_zero v = kmod (\<lambda>s. set_mem (mem_write (mem s) v (replicate 4096 0)) s)"

text \<open>The page table entry for a virtual address; \<open>0\<close> is \<^verbatim>\<open>NULL\<close>.\<close>

definition walkpgdir :: "addr \<Rightarrow> addr \<Rightarrow> bool \<Rightarrow> ('a kmem_state_scheme, addr) kop" where
  "walkpgdir pgdir va alloc =
     kbind (kget (\<lambda>s. ld32 (mem s) (pgdir + 4 * PDX va))) (\<lambda>pde.
       if pde AND PTE_P = 0 then
         (if \<not> alloc then kret 0
          else kbind kalloc (\<lambda>pgtab.
            if pgtab = 0 then kret 0
            else kseq (page_zero pgtab)
                (kseq (kmod (\<lambda>s. set_mem (st32 (mem s) (pgdir + 4 * PDX va)
                        (V2P pgtab OR PTE_P OR PTE_W OR PTE_U)) s))
                      (kret (pgtab + 4 * PTX va)))))
       else kret (P2V (PTE_ADDR pde) + 4 * PTX va))"

text \<open>
  The loop of \<^verbatim>\<open>mappages\<close> ends when the page just mapped is the last one. Both bounds are page
  aligned, so it visits at most the \<open>2 ^ 20\<close> pages of the address space, which is its fuel.
\<close>

primrec mappages_loop ::
    "nat \<Rightarrow> addr \<Rightarrow> addr \<Rightarrow> addr \<Rightarrow> u32 \<Rightarrow> u32 \<Rightarrow> ('a kmem_state_scheme, int) kop" where
  "mappages_loop 0 pgdir bottom topva pa perm = kfault"
| "mappages_loop (Suc n) pgdir bottom topva pa perm =
     kbind (walkpgdir pgdir bottom True) (\<lambda>pte.
       if pte = 0 then kret (-1)
       else kbind (kget (\<lambda>s. ld32 (mem s) pte)) (\<lambda>v.
         if v AND PTE_P \<noteq> 0 then kpanic ''Duplicate mapping''
         else kseq (kmod (\<lambda>s. set_mem (st32 (mem s) pte (pa OR perm OR PTE_P)) s))
             (if bottom = topva then kret 0
              else mappages_loop n pgdir (bottom + PGSIZE) topva (pa + PGSIZE) perm)))"

definition mappages :: "addr \<Rightarrow> addr \<Rightarrow> u32 \<Rightarrow> u32 \<Rightarrow> u32 \<Rightarrow> ('a kmem_state_scheme, int) kop" where
  "mappages pgdir va sz pa perm =
     mappages_loop (2 ^ 20) pgdir (PGROUNDDOWN va) (PGROUNDDOWN (va + sz - 1)) pa perm"

definition kmap :: "addr \<Rightarrow> (addr \<times> u32 \<times> u32 \<times> u32) list" where
  "kmap kd = [(KERNBASE, 0, EXTMEM, PTE_W), (KERNLINK, V2P KERNLINK, V2P kd, 0),
              (kd, V2P kd, PHYSTOP, PTE_W), (DEVSPACE, DEVSPACE, MEMTOP, PTE_W)]"

primrec setupkvm_loop ::
    "addr \<Rightarrow> (addr \<times> u32 \<times> u32 \<times> u32) list \<Rightarrow> ('a kmem_state_scheme, addr) kop" where
  "setupkvm_loop pgdir [] = kret pgdir"
| "setupkvm_loop pgdir (k # ks) =
     (case k of (virt_start, phys_start, phys_end, perm) \<Rightarrow>
        kbind (mappages pgdir virt_start (phys_end - phys_start) phys_start perm) (\<lambda>r.
          if r < 0 then kret 0 else setupkvm_loop pgdir ks))"

definition setupkvm :: "('a kmem_state_scheme, addr) kop" where
  "setupkvm =
     (if PHYSTOP > DEVSPACE then kpanic ''PHYSICAL MEMORY TOO BIG''
      else kbind kalloc (\<lambda>pgdir.
        if pgdir = 0 then kret 0
        else kseq (page_zero pgdir)
            (kbind (kget kdata) (\<lambda>kd. setupkvm_loop pgdir (kmap kd)))))"

section \<open>Reference bits and address space switches\<close>

text \<open>
  \<^verbatim>\<open>write_ref\<close> clears, and \<^verbatim>\<open>read_ref\<close> reads, the accessed bit of the current process's resident
  pages, through the kernel mapping of the page in that process's page table.
\<close>

definition ref_pte :: "page_entry \<Rightarrow> nat \<Rightarrow> ('a proc_state_scheme, addr) kop" where
  "ref_pte e i =
     kbind (kget (\<lambda>s. PTE_ADDR (ld32 (mem s) (ptr_pte e)))) (\<lambda>pa.
     kbind (pget i p_page) (\<lambda>pg. walkpgdir pg (P2V pa) False))"

definition write_ref_entry :: "page_entry \<Rightarrow> ('a proc_state_scheme, unit) kop" where
  "write_ref_entry e =
     kbind curproc (\<lambda>i. kbind (pget i p_pid) (\<lambda>pid.
       if PTE_FLAGS (pn_pid e) \<noteq> word_of_int pid then kret ()
       else kbind (ref_pte e i) (\<lambda>pte.
         if pte = 0 then kpanic ''write_ref: PTE should exist''
         else kmod (\<lambda>s. set_mem (st32 (mem s) pte (ld32 (mem s) pte AND (0xffffffff XOR PTE_A))) s))))"

definition write_ref :: "('a proc_state_scheme, unit) kop" where
  "write_ref = kbind (kget pgqueue) (\<lambda>q. kfor q write_ref_entry)"

definition read_ref_entry :: "nat \<Rightarrow> ('a proc_state_scheme, unit) kop" where
  "read_ref_entry k =
     kbind (kget (\<lambda>s. pgqueue s ! k)) (\<lambda>e.
     kbind curproc (\<lambda>i. kbind (pget i p_pid) (\<lambda>pid.
       if PTE_FLAGS (pn_pid e) \<noteq> word_of_int pid then kret ()
       else kbind (ref_pte e i) (\<lambda>pte.
         if pte = 0 then kpanic ''read_ref: PTE should exist''
         else kmod (\<lambda>s. s\<lparr>pgqueue := (pgqueue s)[k := e\<lparr>pe_ref := ld32 (mem s) pte AND PTE_A\<rparr>]\<rparr>)))))"

definition read_ref :: "('a proc_state_scheme, unit) kop" where
  "read_ref = kbind (kget (\<lambda>s. length (pgqueue s))) (\<lambda>n. kfor [0..<n] read_ref_entry)"

definition switchkvm :: "('a proc_state_scheme, unit) kop" where
  "switchkvm =
     kbind (kget pgqueue) (\<lambda>q.
     kseq (kwhen (q \<noteq> []) read_ref)
          (kmod (\<lambda>s. s\<lparr>cr3 := V2P (kpgdir s)\<rparr>)))"

definition switchuvm :: "nat \<Rightarrow> ('a proc_state_scheme, unit) kop" where
  "switchuvm p =
     kseq write_ref
    (kseq (kmod (\<lambda>s. s\<lparr>ts_esp0 := p_kstack (pof s p) + K_STACKSZ\<rparr>))
    (kbind (pget p p_page) (\<lambda>pg.
       if pg = 0 then kpanic ''switchuvm: no pgdir''
       else kmod (\<lambda>s. s\<lparr>cr3 := V2P pg\<rparr>))))"

definition kvmalloc :: "('a proc_state_scheme, unit) kop" where
  "kvmalloc =
     kbind setupkvm (\<lambda>pg.
     kseq (kmod (\<lambda>s. s\<lparr>kpgdir := pg\<rparr>))
          (if pg = 0 then kpanic ''kvmalloc: setupkvm error'' else switchkvm))"

section \<open>User address spaces\<close>

definition inituvm :: "addr \<Rightarrow> byte list \<Rightarrow> ('a kmem_state_scheme, unit) kop" where
  "inituvm pgdir init =
     (if 4096 \<le> length init then kpanic ''inituvm: more than a page''
      else kbind kalloc (\<lambda>m.
        if m = 0 then kfault
        else kseq (page_zero m)
            (kseq (mappages pgdir 0 PGSIZE (V2P m) (PTE_W OR PTE_U))
                  (kmod (\<lambda>s. set_mem (mem_write (mem s) m init) s)))))"

text \<open>
  Unmapping from \<open>startva\<close> down to \<open>endva\<close>. A missing page table skips 4 MB. The loop visits at
  most the pages of the address space.
\<close>

primrec deallocuvm_loop ::
    "nat \<Rightarrow> addr \<Rightarrow> u32 \<Rightarrow> u32 \<Rightarrow> u32 \<Rightarrow> ('a kmem_state_scheme, unit) kop" where
  "deallocuvm_loop 0 pgdir i startva pid = (if i < startva then kfault else kret ())"
| "deallocuvm_loop (Suc n) pgdir i startva pid =
     (if i < startva then
        kbind (walkpgdir pgdir i False) (\<lambda>pte.
          if pte = 0 then
            deallocuvm_loop n pgdir (i + (NPTENTRIES - 1) * PGSIZE + PGSIZE) startva pid
          else kbind (kget (\<lambda>s. ld32 (mem s) pte)) (\<lambda>v.
            kseq (kwhen (v AND PTE_P \<noteq> 0)
                   (kseq (free_page (i OR pid) True)
                   (kseq (kfree (P2V (PTE_ADDR v)))
                         (kmod (\<lambda>s. set_mem (st32 (mem s) pte 0) s)))))
                 (deallocuvm_loop n pgdir (i + PGSIZE) startva pid)))
      else kret ())"

definition deallocuvm :: "addr \<Rightarrow> u32 \<Rightarrow> u32 \<Rightarrow> u32 \<Rightarrow> ('a kmem_state_scheme, u32) kop" where
  "deallocuvm pgdir startva endva pid =
     (if startva \<le> endva then kret startva
      else kseq (deallocuvm_loop (2 ^ 20) pgdir (PGROUNDUP endva) startva pid) (kret endva))"

text \<open>The loop of \<^verbatim>\<open>allocuvm\<close>: the error flag and the address it stopped at.\<close>

primrec allocuvm_loop ::
    "nat \<Rightarrow> addr \<Rightarrow> u32 \<Rightarrow> u32 \<Rightarrow> u32 \<Rightarrow> u32 \<Rightarrow> ('a kmem_state_scheme, bool \<times> u32) kop" where
  "allocuvm_loop 0 pgdir i startva endva pid = (if i < endva then kfault else kret (False, i))"
| "allocuvm_loop (Suc n) pgdir i startva endva pid =
     (if i < endva then
        kbind kalloc (\<lambda>m.
          if m = 0 then kret (True, i)
          else kseq (page_zero m)
              (kbind (mappages pgdir i PGSIZE (V2P m) (PTE_P OR PTE_W OR PTE_U)) (\<lambda>r.
                if r < 0 then kseq (kfree m) (kret (True, i))
                else kbind (walkpgdir pgdir i False) (\<lambda>p.
                  kbind (kget (\<lambda>s. ld32 (mem s) p)) (\<lambda>v.
                  kseq (kwhen (i > PGROUNDUP startva \<and> v AND PTE_U \<noteq> 0) (add_page p i pid))
                       (allocuvm_loop n pgdir (i + PGSIZE) startva endva pid))))))
      else kret (False, i))"

definition allocuvm :: "addr \<Rightarrow> u32 \<Rightarrow> u32 \<Rightarrow> ('a proc_state_scheme, u32) kop" where
  "allocuvm pgdir startva endva =
     (if endva \<ge> KERNBASE then kret 0
      else if endva < startva then kret startva
      else kbind curproc (\<lambda>c. kbind (pget c p_pid) (\<lambda>pid.
        kbind (allocuvm_loop (2 ^ 20) pgdir (PGROUNDUP startva) startva endva (word_of_int pid))
          (\<lambda>(bad, i).
            if bad then kseq (deallocuvm pgdir i startva (word_of_int pid)) (kret 0)
            else kret endva))))"

definition freeuvm :: "addr \<Rightarrow> u32 \<Rightarrow> ('a kmem_state_scheme, unit) kop" where
  "freeuvm pgdir pid =
     (if pgdir = 0 then kpanic ''freeuvm: already freed''
      else kseq (deallocuvm pgdir KERNBASE 0 pid)
          (kseq (kfor [0..<NPDENTRIES] (\<lambda>i.
                   kbind (kget (\<lambda>s. ld32 (mem s) (pgdir + 4 * of_nat i))) (\<lambda>pde.
                     kwhen (pde AND PTE_P \<noteq> 0) (kfree (P2V (PTE_ADDR pde))))))
                (kfree pgdir)))"

section \<open>Paging in\<close>

definition page_in :: "addr \<Rightarrow> ('a proc_state_scheme, unit) kop" where
  "page_in va =
     kbind curproc (\<lambda>c.
     kbind kalloc (\<lambda>m.
     kseq (kwhen (m = 0) (kproc c (p_killed_update (\<lambda>_. 1))))
    (kbind (pget c p_page) (\<lambda>pg.
     kbind (walkpgdir pg va False) (\<lambda>p.
     kseq (kwhen (p = 0) (kproc c (p_killed_update (\<lambda>_. 1))))
    (kbind (pget c p_pid) (\<lambda>pid.
     kbind (find_slot (word_of_int pid OR va)) (\<lambda>slotn.
       if m = 0 \<or> p = 0 then kfault
       else kbind (read_swap slotn m) (\<lambda>_.
            kseq (free_slot slotn)
           (kseq (kmod (\<lambda>s. set_mem (st32 (mem s) p (V2P m OR PTE_FLAGS (ld32 (mem s) p) OR PTE_P)) s))
                 (add_page p va (word_of_int pid))))))))))))"

definition pgflt_handle :: "addr \<Rightarrow> ('a proc_state_scheme, int) kop" where
  "pgflt_handle va =
     (let va = PGROUNDDOWN va in
      kbind curproc (\<lambda>c. kbind (pget c p_size) (\<lambda>sz.
        if va < sz then kseq (page_in va) (kret 0) else kret (-1))))"

section \<open>Copying an address space\<close>

primrec copyuvm_loop ::
    "nat \<Rightarrow> addr \<Rightarrow> addr \<Rightarrow> u32 \<Rightarrow> u32 \<Rightarrow> u32 \<Rightarrow> ('a proc_state_scheme, bool) kop" where
  "copyuvm_loop 0 spgdir tpgdir i sz pid = (if i < sz then kfault else kret False)"
| "copyuvm_loop (Suc n) spgdir tpgdir i sz pid =
     (if i < sz then
        kbind (walkpgdir spgdir i False) (\<lambda>pte.
          if pte = 0 then kfault
          else
          kbind (kget (\<lambda>s. ld32 (mem s) pte)) (\<lambda>v.
          kseq (kwhen (v AND PTE_P = 0) (page_in i))
         (kbind (kget (\<lambda>s. ld32 (mem s) pte)) (\<lambda>w.
          kbind kalloc (\<lambda>m.
            if m = 0 then kret True
            else
              kseq (kmod (\<lambda>s. set_mem (mem_write (mem s) m
                      (mem_read (mem s) (P2V (PTE_ADDR w)) 4096)) s))
             (kbind (mappages tpgdir i PGSIZE (V2P m) (PTE_FLAGS w)) (\<lambda>r.
                if r < 0 then kret True
                else kbind (walkpgdir tpgdir i False) (\<lambda>p.
                  kbind (kget (\<lambda>s. ld32 (mem s) p)) (\<lambda>u.
                  kseq (kwhen (i > 0 \<and> u AND PTE_U \<noteq> 0) (add_page p i pid))
                       (copyuvm_loop n spgdir tpgdir (i + PGSIZE) sz pid))))))))))
      else kret False)"

definition copyuvm :: "addr \<Rightarrow> u32 \<Rightarrow> u32 \<Rightarrow> ('a proc_state_scheme, addr) kop" where
  "copyuvm spgdir sz pid =
     kbind setupkvm (\<lambda>tpgdir.
       if tpgdir = 0 then kret 0
       else kbind (copyuvm_loop (2 ^ 20) spgdir tpgdir 0 sz pid) (\<lambda>bad.
         if bad then kseq (freeuvm tpgdir pid) (kret 0) else kret tpgdir))"

section \<open>User memory accesses\<close>

definition clearpteu :: "addr \<Rightarrow> addr \<Rightarrow> ('a kmem_state_scheme, unit) kop" where
  "clearpteu pgdir uva =
     kbind (walkpgdir pgdir uva False) (\<lambda>pte.
       if pte = 0 then kpanic ''clearpteu: error''
       else kmod (\<lambda>s. set_mem (st32 (mem s) pte (ld32 (mem s) pte AND NOT PTE_U)) s))"

text \<open>\<^verbatim>\<open>uva2ka\<close> reads through the entry without checking that there is one.\<close>

definition uva2ka :: "addr \<Rightarrow> addr \<Rightarrow> ('a kmem_state_scheme, addr) kop" where
  "uva2ka pgdir uva =
     kbind (walkpgdir pgdir uva False) (\<lambda>pte.
       if pte = 0 then kfault
       else kbind (kget (\<lambda>s. ld32 (mem s) pte)) (\<lambda>v.
         if v AND PTE_P = 0 then kret 0
         else if v AND PTE_U = 0 then kret 0
         else kret (P2V (PTE_ADDR v))))"

text \<open>
  \<^verbatim>\<open>copyout\<close> copies page by page. Every round but the first covers a whole page, so the number
  of bytes bounds the number of rounds.
\<close>

primrec copyout_loop :: "nat \<Rightarrow> addr \<Rightarrow> addr \<Rightarrow> byte list \<Rightarrow> ('a kmem_state_scheme, int) kop" where
  "copyout_loop 0 pgdir va bs = (if bs = [] then kret 0 else kfault)"
| "copyout_loop (Suc k) pgdir va bs =
     (if bs = [] then kret 0
      else (let va0 = PGROUNDDOWN va in
        kbind (uva2ka pgdir va0) (\<lambda>pa0.
          if pa0 = 0 then kret (-1)
          else (let n = min (4096 - unat (va - va0)) (length bs) in
            kseq (kmod (\<lambda>s. set_mem (mem_write (mem s) (pa0 + (va - va0)) (take n bs)) s))
                 (copyout_loop k pgdir (va0 + PGSIZE) (drop n bs))))))"

definition copyout :: "addr \<Rightarrow> addr \<Rightarrow> byte list \<Rightarrow> ('a kmem_state_scheme, int) kop" where
  "copyout pgdir va bs = copyout_loop (length bs) pgdir va bs"

section \<open>Accounting\<close>

definition procvmsz :: "nat \<Rightarrow> 'a proc_state_scheme \<Rightarrow> u32" where
  "procvmsz i s =
     of_nat (length (filter (\<lambda>k. swap_map s k \<noteq> 0 \<and>
       PTE_FLAGS (swap_map s k) = word_of_int (p_pid (pof s i))) [0..<SLOTSIZE])) * PGSIZE"

definition page_present :: "memory \<Rightarrow> addr \<Rightarrow> addr \<Rightarrow> bool" where
  "page_present m pg va \<longleftrightarrow>
     (let pde = ld32 m (pg + 4 * PDX va) in
      pde AND PTE_P \<noteq> 0 \<and>
      ld32 m (P2V (PTE_ADDR pde) + 4 * PTX va) AND PTE_P \<noteq> 0)"

definition procmemsz :: "nat \<Rightarrow> 'a proc_state_scheme \<Rightarrow> u32" where
  "procmemsz i s =
     of_nat (length (filter (\<lambda>k. page_present (mem s) (p_page (pof s i)) (of_nat (4096 * k)))
       [0..<524288])) * PGSIZE"

section \<open>The kernel's accesses to user memory\<close>

text \<open>
  In a system call the kernel runs on the page table of the calling process and follows user
  pointers directly. A page that is not present makes the processor trap from kernel mode,
  and \<^verbatim>\<open>trap\<close> panics then.
\<close>

definition user_pa :: "memory \<Rightarrow> addr \<Rightarrow> addr \<Rightarrow> addr option" where
  "user_pa m pg va =
     (if page_present m pg va
      then Some (P2V (PTE_ADDR (ld32 m (P2V (PTE_ADDR (ld32 m (pg + 4 * PDX va))) + 4 * PTX va)))
                 + (va AND 0xFFF))
      else None)"

primrec uload_from :: "nat \<Rightarrow> addr \<Rightarrow> addr \<Rightarrow> ('a kmem_state_scheme, byte list) kop" where
  "uload_from 0 pg va = kret []"
| "uload_from (Suc n) pg va =
     kbind (kget (\<lambda>s. map_option (mem s) (user_pa (mem s) pg va))) (\<lambda>r. case r of
         None \<Rightarrow> kpanic ''trap''
       | Some b \<Rightarrow> kbind (uload_from n pg (va + 1)) (\<lambda>bs. kret (b # bs)))"

primrec ustore_at :: "addr \<Rightarrow> addr \<Rightarrow> byte list \<Rightarrow> ('a kmem_state_scheme, unit) kop" where
  "ustore_at pg va [] = kret ()"
| "ustore_at pg va (b # bs) =
     kbind (kget (\<lambda>s. user_pa (mem s) pg va)) (\<lambda>r. case r of
         None \<Rightarrow> kpanic ''trap''
       | Some a \<Rightarrow> kseq (kmod (\<lambda>s. set_mem ((mem s)(a := b)) s)) (ustore_at pg (va + 1) bs))"

definition uload :: "addr \<Rightarrow> nat \<Rightarrow> ('a proc_state_scheme, byte list) kop" where
  "uload va n = kbind curproc (\<lambda>c. kbind (pget c p_page) (\<lambda>pg. uload_from n pg va))"

definition ustore :: "addr \<Rightarrow> byte list \<Rightarrow> ('a proc_state_scheme, unit) kop" where
  "ustore va bs = kbind curproc (\<lambda>c. kbind (pget c p_page) (\<lambda>pg. ustore_at pg va bs))"

definition uload32 :: "addr \<Rightarrow> ('a proc_state_scheme, u32) kop" where
  "uload32 va = kbind (uload va 4) (\<lambda>bs. kret (word_of_bytes (bs ! 0) (bs ! 1) (bs ! 2) (bs ! 3)))"

definition ustore32 :: "addr \<Rightarrow> u32 \<Rightarrow> ('a proc_state_scheme, unit) kop" where
  "ustore32 va w = ustore va [byte_of 0 w, byte_of 1 w, byte_of 2 w, byte_of 3 w]"

end
