(* ===== verification/Sched.thy ===== *)
theory Sched
  imports Vm
begin

unbundle bit_operations_syntax

text \<open>
  The scheduler: the three scheduling classes of \<^verbatim>\<open>scheduler_class.c\<close> behind the table
  \<^verbatim>\<open>sched_reftable\<close>, and \<^verbatim>\<open>schedule.c\<close> (the scheduler loop, giving up the CPU, sleeping and
  waking up). The scheduler loop and the processes are coroutines: \<^verbatim>\<open>switch_to\<close> suspends the
  scheduler in a frame, \<^verbatim>\<open>transform\<close> continues it from there.
\<close>

section \<open>Queue entries\<close>

definition new_entry :: "nat \<Rightarrow> ('a proc_state_scheme, slot_entry) kop" where
  "new_entry p = kbind alloc_slab (\<lambda>e.
     if e = 0 then kfault else kret \<lparr>se_slab = e, slotptr = p\<rparr>)"

definition esinit :: "('a proc_state_scheme, unit) kop" where
  "esinit =
     kseq (kmod (\<lambda>s. s\<lparr>esqueue := []\<rparr>))
          (kfor [0..<NPROC] (\<lambda>p.
             kbind (new_entry p) (\<lambda>e. kmod (\<lambda>s. s\<lparr>esqueue := lq_insert_tail e (esqueue s)\<rparr>))))"

definition rdinit :: "('a proc_state_scheme, unit) kop" where
  "rdinit = kmod (\<lambda>s. s\<lparr>rdyqueue := [], rdy_q_dy := replicate 40 []\<rparr>)"

text \<open>The index of a process's queue under the priority scheme; outside the array is a fault.\<close>

definition pri_index :: "nat \<Rightarrow> ('a proc_state_scheme, nat) kop" where
  "pri_index p = (\<lambda>s. let d = p_dpri (pof s p) - 100 in
     if 0 \<le> d \<and> nat d < length (rdy_q_dy s) then Done (nat d) s else Fault)"

section \<open>The scheduling classes\<close>

definition sched_fifo_enqueue :: "nat \<Rightarrow> ('a proc_state_scheme, unit) kop" where
  "sched_fifo_enqueue p =
     kbind (new_entry p) (\<lambda>e. kmod (\<lambda>s. s\<lparr>rdyqueue := lq_insert_tail e (rdyqueue s)\<rparr>))"

definition sched_rr_enqueue :: "nat \<Rightarrow> ('a proc_state_scheme, unit) kop" where
  "sched_rr_enqueue p = kret ()"

definition sched_priority_enqueue :: "nat \<Rightarrow> ('a proc_state_scheme, unit) kop" where
  "sched_priority_enqueue p =
     kbind (new_entry p) (\<lambda>e. kbind (pri_index p) (\<lambda>d.
       kmod (\<lambda>s. s\<lparr>rdy_q_dy := (rdy_q_dy s)[d := lq_insert_tail e (rdy_q_dy s ! d)]\<rparr>)))"

definition sched_fifo_timeslice :: "nat \<Rightarrow> ('a proc_state_scheme, unit) kop" where
  "sched_fifo_timeslice p = kproc p (p_time_slice_update (\<lambda>_. SCHED_FIFO_TIMESLICE))"

definition sched_rr_timeslice :: "nat \<Rightarrow> ('a proc_state_scheme, unit) kop" where
  "sched_rr_timeslice p = kproc p (p_time_slice_update (\<lambda>_. SCHED_RR_TIMESLICE))"

definition sched_priority_timeslice :: "nat \<Rightarrow> ('a proc_state_scheme, unit) kop" where
  "sched_priority_timeslice p =
     kproc p (\<lambda>q. q\<lparr>p_spri := STATIC_PRI (p_nice q),
                    p_time_slice := TIME_SLICE (STATIC_PRI (p_nice q))\<rparr>)"

definition sched_fifo_after :: "('a proc_state_scheme, unit) kop" where
  "sched_fifo_after = kbind curproc sched_fifo_timeslice"

definition sched_rr_after :: "('a proc_state_scheme, unit) kop" where
  "sched_rr_after = kbind curproc sched_rr_timeslice"

text \<open>
  Under the priority scheme the entry of the current process is moved to the queue of its new
  priority. When there is no entry the loop leaves a null pointer, which is then followed.
\<close>

definition sched_priority_after :: "('a proc_state_scheme, unit) kop" where
  "sched_priority_after =
     kbind curproc (\<lambda>c. kbind (pri_index c) (\<lambda>d. kbind (kget (\<lambda>s. rdy_q_dy s ! d)) (\<lambda>q.
       case find (\<lambda>e. slotptr e = c) q of
         None \<Rightarrow> kfault
       | Some e \<Rightarrow>
           kseq (kmod (\<lambda>s. s\<lparr>rdy_q_dy := (rdy_q_dy s)[d := lq_remove e (rdy_q_dy s ! d)]\<rparr>))
          (kseq (sched_priority_timeslice c)
          (kseq (kproc c (\<lambda>p. p\<lparr>p_dpri := DYNAMIC_PRI (p_spri p) (BONUS (p_avgslp p))\<rparr>))
          (kbind (pri_index c) (\<lambda>d'.
             kmod (\<lambda>s. s\<lparr>rdy_q_dy := (rdy_q_dy s)[d' := lq_insert_tail e (rdy_q_dy s ! d')]\<rparr>))))))))"

text \<open>
  The clean-up loops of the two \<^verbatim>\<open>init\<close> functions free the entry they stand on and then step to
  its successor, which reads the freed slab: a fault.
\<close>

primrec fifo_purge :: "slot_entry list \<Rightarrow> ('a proc_state_scheme, unit) kop" where
  "fifo_purge [] = kret ()"
| "fifo_purge (e # es) =
     kbind (pget (slotptr e) p_stat) (\<lambda>st.
       if st \<noteq> READY then
         kseq (kmod (\<lambda>s. s\<lparr>rdyqueue := lq_remove e (rdyqueue s)\<rparr>))
        (kseq (free_slab (se_slab e)) kfault)
       else fifo_purge es)"

definition sched_fifo_init :: "('a proc_state_scheme, unit) kop" where
  "sched_fifo_init =
     kbind (kget rdyqueue) (\<lambda>q.
     kseq (fifo_purge q)
          (kfor [0..<NPROC] (\<lambda>p. kbind (pget p p_stat) (\<lambda>st.
             kwhen (st = READY) (sched_fifo_enqueue p)))))"

definition sched_rr_init :: "('a proc_state_scheme, unit) kop" where
  "sched_rr_init = kret ()"

definition sched_priority_init :: "('a proc_state_scheme, unit) kop" where
  "sched_priority_init =
     kbind curproc (\<lambda>c. kbind (pri_index c) (\<lambda>d.
     kbind (kget (\<lambda>s. rdy_q_dy s ! d)) (\<lambda>q. kbind (kget rdyqueue) (\<lambda>rq.
     kseq (case rq of
             [] \<Rightarrow> kret ()
           | e # _ \<Rightarrow> kwhen (q \<noteq> [])
               (kseq (kmod (\<lambda>s. s\<lparr>rdyqueue := lq_remove e (rdyqueue s)\<rparr>))
               (kseq (free_slab (se_slab e)) kfault)))
          (kfor [0..<NPROC] (\<lambda>p. kbind (pget p p_stat) (\<lambda>st.
             kwhen (st = READY) (sched_priority_enqueue p))))))))"

subsection \<open>The table \<^verbatim>\<open>sched_reftable\<close>\<close>

text \<open>Schemes 0, 1, 2 are FIFO, RR and PRIORITY; any other index is outside the table.\<close>

definition by_scheme ::
    "('a proc_state_scheme, 'v) kop \<Rightarrow> ('a proc_state_scheme, 'v) kop \<Rightarrow> ('a proc_state_scheme, 'v) kop
      \<Rightarrow> ('a proc_state_scheme, 'v) kop" where
  "by_scheme f r p = kbind (kget cpu_scheme) (\<lambda>k.
     if k = 0 then f else if k = 1 then r else if k = 2 then p else kfault)"

definition sched_enqueue :: "nat \<Rightarrow> ('a proc_state_scheme, unit) kop" where
  "sched_enqueue p = by_scheme (sched_fifo_enqueue p) (sched_rr_enqueue p) (sched_priority_enqueue p)"

definition sched_timeslice :: "nat \<Rightarrow> ('a proc_state_scheme, unit) kop" where
  "sched_timeslice p =
     by_scheme (sched_fifo_timeslice p) (sched_rr_timeslice p) (sched_priority_timeslice p)"

definition sched_after :: "('a proc_state_scheme, unit) kop" where
  "sched_after = by_scheme sched_fifo_after sched_rr_after sched_priority_after"

definition sched_init :: "('a proc_state_scheme, unit) kop" where
  "sched_init = by_scheme sched_fifo_init sched_rr_init sched_priority_init"

definition sched_name :: "('a proc_state_scheme, string) kop" where
  "sched_name = by_scheme (kret ''FIFO'') (kret ''RR'') (kret ''PRIORITY'')"

definition select_scheme :: "nat \<Rightarrow> ('a proc_state_scheme, unit) kop" where
  "select_scheme schem = kseq (kmod (\<lambda>s. s\<lparr>cpu_scheme := schem\<rparr>)) sched_init"

definition recalc_timeslice :: "('a proc_state_scheme, unit) kop" where
  "recalc_timeslice = kfor [0..<NPROC] (\<lambda>p. kbind (pget p p_stat) (\<lambda>st.
     kwhen (st \<noteq> SUNUSED) (sched_timeslice p)))"

section \<open>Choosing a process\<close>

definition switch_to :: "nat \<Rightarrow> ('a proc_state_scheme, unit) kop" where
  "switch_to p =
     kseq (kmod (\<lambda>s. s\<lparr>cur := Some p\<rparr>))
    (kseq (switchuvm p)
          (kproc p (p_stat_update (\<lambda>_. SRUN))))"

text \<open>
  A scheme's function up to the point where it has switched to a process (\<open>True\<close>, the frame
  says where it continues) or returns 0 (\<open>False\<close>).
\<close>

definition run_from :: "sched_frame \<Rightarrow> nat \<Rightarrow> ('a proc_state_scheme, bool) kop" where
  "run_from k p = kseq (switch_to p) (kseq (kmod (\<lambda>s. s\<lparr>sched_k := Some k\<rparr>)) (kret True))"

definition fifo_dequeue :: "('a proc_state_scheme, bool) kop" where
  "fifo_dequeue = kbind (kget rdyqueue) (\<lambda>q. case q of
       [] \<Rightarrow> kret False
     | e # _ \<Rightarrow>
         kseq (kmod (\<lambda>s. s\<lparr>rdyqueue := lq_remove e (rdyqueue s)\<rparr>))
              (run_from (FifoEntry e) (slotptr e)))"

definition sched_fifo :: "('a proc_state_scheme, bool) kop" where
  "sched_fifo = kbind (kget cur) (\<lambda>c. case c of
       None \<Rightarrow> fifo_dequeue
     | Some p \<Rightarrow> kbind (pget p p_stat) (\<lambda>st.
         if st = READY then run_from FifoResched p else fifo_dequeue))"

definition sched_rr :: "('a proc_state_scheme, bool) kop" where
  "sched_rr = (\<lambda>s.
     case find_from (\<lambda>i. p_stat (pof s i) = READY) (rr_p s) (NPROC - rr_p s) of
       None \<Rightarrow> Done False (s\<lparr>rr_p := 0\<rparr>)
     | Some i \<Rightarrow> run_from RRFrame i (s\<lparr>rr_p := i\<rparr>))"

definition sched_priority :: "('a proc_state_scheme, bool) kop" where
  "sched_priority = (\<lambda>s.
     case find_from (\<lambda>d. rdy_q_dy s ! d \<noteq> []) 0 40 of
       None \<Rightarrow> Done False s
     | Some d \<Rightarrow>
         (let e = hd (rdy_q_dy s ! d) in
          run_from (PriEntry e) (slotptr e)
            (s\<lparr>rdy_q_dy := (rdy_q_dy s)[d := lq_remove e (rdy_q_dy s ! d)]\<rparr>)))"

text \<open>One round of the scheduler's loop, up to the switch.\<close>

definition scheduler_round :: "('a proc_state_scheme, bool) kop" where
  "scheduler_round = by_scheme sched_fifo sched_rr sched_priority"

text \<open>The rest of the round, after a process has switched back.\<close>

definition scheduler_finish :: "('a proc_state_scheme, unit) kop" where
  "scheduler_finish =
     kseq (kmod (\<lambda>s. s\<lparr>sched_k := None\<rparr>))
    (kseq switchkvm
          (kmod (\<lambda>s. s\<lparr>cur := None\<rparr>)))"

definition scheduler_resume :: "('a proc_state_scheme, unit) kop" where
  "scheduler_resume = kbind (kget sched_k) (\<lambda>k. case k of
       None \<Rightarrow> kfault
     | Some (FifoEntry e) \<Rightarrow> kseq (free_slab (se_slab e)) scheduler_finish
     | Some (PriEntry e) \<Rightarrow> kseq (free_slab (se_slab e)) scheduler_finish
     | Some RRFrame \<Rightarrow> kseq (kmod (\<lambda>s. s\<lparr>rr_p := rr_p s + 1\<rparr>)) scheduler_finish
     | Some FifoResched \<Rightarrow>
         kseq (kmod (\<lambda>s. s\<lparr>sched_k := None\<rparr>)) (kbind fifo_dequeue (\<lambda>_. kret ())))"

section \<open>Giving up the CPU (\<^verbatim>\<open>schedule.c\<close>)\<close>

definition transform :: "('a proc_state_scheme, unit) kop" where
  "transform = kbind curproc (\<lambda>c. kbind (pget c p_stat) (\<lambda>st.
     if st = SRUN then kpanic ''sched running''
     else kseq (kproc c (p_ctxt_update (cx_eip_update (\<lambda>_. AtSwtch)))) scheduler_resume))"

definition giveup_cpu :: "('a proc_state_scheme, unit) kop" where
  "giveup_cpu = kbind curproc (\<lambda>c.
     kseq (kproc c (p_stat_update (\<lambda>_. READY)))
    (kseq (sched_enqueue c)
    (kseq sched_after transform)))"

definition timeslice_yield :: "('a proc_state_scheme, unit) kop" where
  "timeslice_yield = kbind curproc (\<lambda>c. kbind (pget c p_time_slice) (\<lambda>ts.
     if ts = ETERNAL then kret ()
     else
       kseq (kproc c (\<lambda>p. p\<lparr>p_time_slice := p_time_slice p - TIMER_INTERVAL\<rparr>))
      (kseq (kproc c (\<lambda>p. p\<lparr>p_avgslp := c_max (-50) (p_avgslp p - 1)\<rparr>))
            (kwhen (ts - TIMER_INTERVAL \<le> 0) giveup_cpu))))"

section \<open>Sleeping and waking up (\<^verbatim>\<open>schedule.c\<close>)\<close>

text \<open>
  \<^verbatim>\<open>sleep\<close> up to the switch, returning the tick count it remembers, and the rest of it, run when
  the process has been scheduled again. The sum is unsigned: an \<^verbatim>\<open>int\<close> and a \<^verbatim>\<open>uint\<close>.
\<close>

definition sleep_enter :: "chan \<Rightarrow> ('a proc_state_scheme, u32) kop" where
  "sleep_enter e =
     kbind (kget ticks) (\<lambda>tick0. kbind curproc (\<lambda>c.
     kseq (kproc c (\<lambda>p. p\<lparr>p_chan := e\<rparr>))
    (kseq (kproc c (\<lambda>p. p\<lparr>p_stat := SSLEEPING\<rparr>))
    (kseq transform (kret tick0)))))"

definition sleep_avgslp :: "int \<Rightarrow> u32 \<Rightarrow> u32 \<Rightarrow> int" where
  "sleep_avgslp avg tick0 now =
     (let a = word_of_int avg + (tick0 - now) in
      if a < word_of_int MAX_AVGSLP then sint a else MAX_AVGSLP)"

definition sleep_leave :: "u32 \<Rightarrow> ('a proc_state_scheme, unit) kop" where
  "sleep_leave tick0 =
     kbind (kget ticks) (\<lambda>now. kbind curproc (\<lambda>c.
     kseq (kproc c (\<lambda>p. p\<lparr>p_chan := NoChan\<rparr>))
          (kproc c (\<lambda>p. p\<lparr>p_avgslp := sleep_avgslp (p_avgslp p) tick0 now\<rparr>))))"

definition wakeup_one :: "chan \<Rightarrow> nat \<Rightarrow> ('a proc_state_scheme, unit) kop" where
  "wakeup_one e i = kbind (pget i id) (\<lambda>p.
     kwhen (p_stat p = SSLEEPING \<and> p_chan p = e)
       (kseq (kproc i (p_stat_update (\<lambda>_. READY))) (sched_enqueue i)))"

definition wakeup :: "chan \<Rightarrow> ('a proc_state_scheme, unit) kop" where
  "wakeup e = kfor [0..<NPROC] (wakeup_one e)"

section \<open>What the scheduler leaves alone\<close>

text \<open>The memory operations do not touch the process state; waking up touches nothing above it.\<close>

lemma more_proc: 
  fixes s t :: "'a proc_state_scheme"
  assumes "kmem_state.more s = kmem_state.more t"
  shows "proc_state.more s = proc_state.more t" "ptable s = ptable t" "cur s = cur t" 
   "esqueue s = esqueue t" "rdyqueue s = rdyqueue t" "rdy_q_dy s = rdy_q_dy t" "nextpid s = nextpid t" "initproc s = initproc t"
   "cpu_scheme s = cpu_scheme t" "rr_p s = rr_p t" "ticks s = ticks t" "sched_k s = sched_k t"
  using assms  by (cases s, cases t, simp)+

lemmas alloc_slab_proc [frames] = keeps_dep [OF slab_frame2(2), where g = proc_state.more, OF more_proc(1)]

lemma kproc_frame [frames]: "keeps proc_state.more (kproc i f)"
  by (simp add: kproc_def keeps_kmod upd_proc_def)

lemma pget_frame [frames]: "keeps g (pget i f)" "keeps g curproc" "keeps g (pri_index p)"
  by (rule keeps_Done; clarsimp simp: pget_def curproc_def pri_index_def kop_simps Let_def split: option.splits if_splits)+

lemma enq_frame [frames]: "keeps proc_state.more (new_entry p)" "keeps proc_state.more (sched_enqueue p)" "keeps proc_state.more (wakeup c)"
  unfolding new_entry_def sched_enqueue_def by_scheme_def sched_fifo_enqueue_def sched_rr_enqueue_def sched_priority_enqueue_def
    wakeup_def wakeup_one_def
  by (intro frames keeps_kmod; simp)+
lemma proc_awake [awakes]: "awake (kproc i g)" "awake (pget i f)" "awake curproc" "awake (pri_index p)"
  by (auto simp: awake_def kproc_def pget_def curproc_def pri_index_def kop_simps Let_def split: option.split)

lemma enq_awake [awakes]: "awake (new_entry p)" "awake (sched_enqueue p)" "awake (wakeup c)"
  unfolding new_entry_def sched_enqueue_def by_scheme_def sched_fifo_enqueue_def sched_rr_enqueue_def
    sched_priority_enqueue_def wakeup_def wakeup_one_def
  by (intro awakes)+

text \<open>Nobody sleeps on a channel: then waking it up does nothing.\<close>

definition no_sleeper :: "chan \<Rightarrow> 'a proc_state_scheme \<Rightarrow> bool" where
  "no_sleeper c s \<longleftrightarrow> (\<forall>i < NPROC. \<not> (p_stat (pof s i) = SSLEEPING \<and> p_chan (pof s i) = c))"

lemma wakeup_quiet: "no_sleeper c s \<Longrightarrow> wakeup c s = Done () s"
  unfolding wakeup_def no_sleeper_def
  by (rule kfor_id) (auto simp: wakeup_one_def pget_def kop_simps)

end
