(* ===== verification/Sync.thy ===== *)
theory Sync
  imports Sched
begin

unbundle bit_operations_syntax

text \<open>
  Synchronisation: sleep locks (\<^verbatim>\<open>sleeplock.c\<close>), counting semaphores and mutexes
  (\<^verbatim>\<open>semaphore.c\<close>) and the uninterruptible arithmetic calls (\<^verbatim>\<open>atomic.c\<close>). A wait loop that
  calls \<^verbatim>\<open>sleep\<close> ends the routine with \<open>Slept\<close>; when the process runs again it goes through the
  loop's test from the start, that is it calls the routine again.
\<close>

section \<open>Sleep locks (\<^verbatim>\<open>sleeplock.c\<close>)\<close>

record sleeplock =
  lk_locked :: u32
  lk_name :: string
  lk_pid :: int

text \<open>
  A lock is a field of a buffer or an inode: the routines take the way to read it, the way to
  update it, and its address as a sleep channel.
\<close>

type_synonym 's lockref = "('s \<Rightarrow> sleeplock) \<times> ((sleeplock \<Rightarrow> sleeplock) \<Rightarrow> 's \<Rightarrow> 's) \<times> chan"

definition initsleeplock :: "string \<Rightarrow> sleeplock \<Rightarrow> sleeplock" where
  "initsleeplock name lk = lk\<lparr>lk_name := name, lk_locked := 0, lk_pid := 0\<rparr>"

text \<open>
  \<^verbatim>\<open>acquiresleep\<close> is the test of the lock word, with the sleep when it is set, and then the two stores (\<open>acquire_take\<close>).
  Interrupts are on meanwhile; \<open>Lock_Protocol\<close> interleaves the two parts separately.
\<close>

fun acquire_take :: "'a proc_state_scheme lockref \<Rightarrow> ('a proc_state_scheme, unit) kop" where
  "acquire_take (get, upd, ch) =
     kseq (kmod (upd (\<lambda>lk. lk\<lparr>lk_locked := 1\<rparr>)))
    (kbind curproc (\<lambda>c. kbind (pget c p_pid) (\<lambda>pid.
       kmod (upd (\<lambda>lk. lk\<lparr>lk_pid := pid\<rparr>)))))"

fun acquiresleep :: "'a proc_state_scheme lockref \<Rightarrow> ('a proc_state_scheme, unit) kop" where
  "acquiresleep (get, upd, ch) =
     kbind (kget (\<lambda>s. lk_locked (get s))) (\<lambda>l.
       if l \<noteq> 0 then ksleep ch
       else acquire_take (get, upd, ch))"

fun releasesleep :: "'a proc_state_scheme lockref \<Rightarrow> ('a proc_state_scheme, unit) kop" where
  "releasesleep (get, upd, ch) =
     kseq (kmod (upd (\<lambda>lk. lk\<lparr>lk_locked := 0\<rparr>)))
    (kseq (kmod (upd (\<lambda>lk. lk\<lparr>lk_pid := 0\<rparr>)))
          (wakeup ch))"

fun holdingsleep :: "'a proc_state_scheme lockref \<Rightarrow> ('a proc_state_scheme, bool) kop" where
  "holdingsleep (get, upd, ch) = kget (\<lambda>s. lk_locked (get s) \<noteq> 0)"

section \<open>Semaphores and mutexes (\<^verbatim>\<open>semaphore.c\<close>)\<close>

text \<open>
  A semaphore is an \<^verbatim>\<open>int\<close> in the memory of the calling process; the kernel reads and writes it
  through the user pointer. \<^verbatim>\<open>int\<close> arithmetic is two's complement.
\<close>

definition sem_init :: "int \<Rightarrow> addr \<Rightarrow> ('a proc_state_scheme, int) kop" where
  "sem_init num sema =
     (if num < 0 then kpanic ''semaphre init failed!''
      else kseq (ustore32 sema (word_of_int num)) (kret 0))"

definition sem_P :: "int \<Rightarrow> addr \<Rightarrow> ('a proc_state_scheme, int) kop" where
  "sem_P step sema =
     (if step < 0 then kpanic ''semaphre P error!''
      else kbind (uload32 sema) (\<lambda>v.
        if sint v \<le> step - 1 then ksleep (ChSem sema)
        else kseq (ustore32 sema (v - word_of_int step)) (kret 0)))"

definition sem_V :: "int \<Rightarrow> addr \<Rightarrow> ('a proc_state_scheme, int) kop" where
  "sem_V step sema =
     (if step < 0 then kpanic ''semaphre V error!''
      else kbind (uload32 sema) (\<lambda>v.
        kseq (ustore32 sema (v + word_of_int step))
       (kseq (kwhen (sint (v + word_of_int step) > 0) (wakeup (ChSem sema)))
             (kret 0))))"

definition mutex_init :: "addr \<Rightarrow> ('a proc_state_scheme, int) kop" where
  "mutex_init sema = kseq (ustore32 sema 1) (kret 0)"

definition mutex_P :: "addr \<Rightarrow> ('a proc_state_scheme, int) kop" where
  "mutex_P sema =
     kbind (uload32 sema) (\<lambda>v.
       if sint v \<le> 0 then ksleep (ChSem sema)
       else kseq (ustore32 sema (v - 1)) (kret 0))"

definition mutex_V :: "addr \<Rightarrow> ('a proc_state_scheme, int) kop" where
  "mutex_V sema =
     kbind (uload32 sema) (\<lambda>v.
       kseq (ustore32 sema (v + 1))
      (kseq (kwhen (sint (v + 1) > 0) (wakeup (ChSem sema)))
            (kret 0)))"

section \<open>Atomic arithmetic (\<^verbatim>\<open>atomic.c\<close>)\<close>

definition c_mod :: "int \<Rightarrow> int \<Rightarrow> int" where
  "c_mod a b = a - b * c_div a b"

definition atomic_add :: "u32 \<Rightarrow> u32 \<Rightarrow> addr \<Rightarrow> ('a proc_state_scheme, int) kop" where
  "atomic_add a b c = kseq (ustore32 c (a + b)) (kret 0)"

definition atomic_sub :: "u32 \<Rightarrow> u32 \<Rightarrow> addr \<Rightarrow> ('a proc_state_scheme, int) kop" where
  "atomic_sub a b c = kseq (ustore32 c (a - b)) (kret 0)"

definition atomic_multi :: "u32 \<Rightarrow> u32 \<Rightarrow> addr \<Rightarrow> ('a proc_state_scheme, int) kop" where
  "atomic_multi a b c = kseq (ustore32 c (a * b)) (kret 0)"

text \<open>
  Division by zero, and the one quotient that does not fit, trap in kernel mode, where
  \<^verbatim>\<open>trap\<close> panics.
\<close>

definition idiv_traps :: "u32 \<Rightarrow> u32 \<Rightarrow> bool" where
  "idiv_traps a b \<longleftrightarrow> b = 0 \<or> (sint a = - (2 ^ 31) \<and> sint b = -1)"

definition atomic_divide :: "u32 \<Rightarrow> u32 \<Rightarrow> addr \<Rightarrow> ('a proc_state_scheme, int) kop" where
  "atomic_divide a b c =
     (if idiv_traps a b then kpanic ''trap''
      else kseq (ustore32 c (word_of_int (c_div (sint a) (sint b)))) (kret 0))"

definition atomic_mod :: "u32 \<Rightarrow> u32 \<Rightarrow> addr \<Rightarrow> ('a proc_state_scheme, int) kop" where
  "atomic_mod a b c =
     (if idiv_traps a b then kpanic ''trap''
      else kseq (ustore32 c (word_of_int (c_mod (sint a) (sint b)))) (kret 0))"

definition atomic_set :: "addr \<Rightarrow> u32 \<Rightarrow> ('a proc_state_scheme, int) kop" where
  "atomic_set a b = kseq (ustore32 a b) (kret 0)"

definition atomic_swap :: "addr \<Rightarrow> addr \<Rightarrow> ('a proc_state_scheme, int) kop" where
  "atomic_swap a b =
     kbind (uload32 a) (\<lambda>temp. kbind (uload32 b) (\<lambda>vb.
     kseq (ustore32 a vb) (kseq (ustore32 b temp) (kret 0))))"

end
