(* ===== verification/Bio.thy ===== *)
theory Bio
  imports Sync
begin

unbundle bit_operations_syntax

text \<open>
  The state of the file system as an extension of the process state, the disk of \<^verbatim>\<open>memide.c\<close>
  and the block cache of \<^verbatim>\<open>bio.c\<close>: thirty buffers in a list kept in the order of their last
  use, each under a sleep lock.
\<close>

section \<open>Bytes of a block\<close>

definition splice :: "'b list \<Rightarrow> nat \<Rightarrow> 'b list \<Rightarrow> 'b list" where
  "splice bs off xs = take off bs @ xs @ drop (off + length xs) bs"

definition slice :: "'b list \<Rightarrow> nat \<Rightarrow> nat \<Rightarrow> 'b list" where
  "slice bs off n = take n (drop off bs)"

lemma length_splice [simp]: "off + length xs \<le> length bs \<Longrightarrow> length (splice bs off xs) = length bs"
  by (simp add: splice_def)

lemma length_slice [simp]: "off + n \<le> length bs \<Longrightarrow> length (slice bs off n) = n"
  by (simp add: slice_def)

lemma slice_splice_same [simp]:
  "off + length xs \<le> length bs \<Longrightarrow> n = length xs \<Longrightarrow> slice (splice bs off xs) off n = xs"
  by (simp add: slice_def splice_def)

lemma slice_splice_other:
  assumes "off + length xs \<le> length bs" "o' + n \<le> off \<or> off + length xs \<le> o'"
  shows "slice (splice bs off xs) o' n = slice bs o' n"
  using assms
proof (elim disjE)
  assume "o' + n \<le> off"
  then show ?thesis
    using assms by (simp add: slice_def splice_def take_drop min_def)
next
  assume "off + length xs \<le> o'"
  then show ?thesis
    using assms by (simp add: slice_def splice_def)
qed

definition word32_of :: "byte list \<Rightarrow> u32" where
  "word32_of bs = word_of_bytes (bs ! 0) (bs ! 1) (bs ! 2) (bs ! 3)"

definition bytes_of32 :: "u32 \<Rightarrow> byte list" where
  "bytes_of32 w = [byte_of 0 w, byte_of 1 w, byte_of 2 w, byte_of 3 w]"

definition word16_of :: "byte list \<Rightarrow> u16" where
  "word16_of bs = ucast (bs ! 0) OR push_bit 8 (ucast (bs ! 1))"

definition bytes_of16 :: "u16 \<Rightarrow> byte list" where
  "bytes_of16 w = [ucast w, ucast (drop_bit 8 w)]"

lemma word32_bytes [simp]: "word32_of (bytes_of32 w) = w"
  by (simp add: word32_of_def bytes_of32_def)

lemma word16_bytes [simp]: "word16_of (bytes_of16 w) = w"
proof (rule bit_word_eqI)
  fix n
  assume "n < LENGTH(16)"
  then have "n < 8 \<or> (8 \<le> n \<and> n < 16)" by simp linarith
  then show "bit (word16_of (bytes_of16 w)) n = bit w n"
    by (elim disjE) (auto simp: word16_of_def bytes_of16_def bit_simps)
qed

lemma length_bytes_of [simp]: "length (bytes_of32 w) = 4" "length (bytes_of16 w') = 2"
  by (simp_all add: bytes_of32_def bytes_of16_def)

definition get32 :: "byte list \<Rightarrow> nat \<Rightarrow> u32" where
  "get32 bs off = word32_of (slice bs off 4)"

definition put32 :: "byte list \<Rightarrow> nat \<Rightarrow> u32 \<Rightarrow> byte list" where
  "put32 bs off w = splice bs off (bytes_of32 w)"

definition get16 :: "byte list \<Rightarrow> nat \<Rightarrow> u16" where
  "get16 bs off = word16_of (slice bs off 2)"

lemma get32_put32 [simp]: "off + 4 \<le> length bs \<Longrightarrow> get32 (put32 bs off w) off = w"
  by (simp add: get32_def put32_def)

lemma get32_put32_other:
  "off + 4 \<le> length bs \<Longrightarrow> o' + 4 \<le> off \<or> off + 4 \<le> o' \<Longrightarrow> get32 (put32 bs off w) o' = get32 bs o'"
  by (simp add: get32_def put32_def slice_splice_other)

lemma length_put32 [simp]: "off + 4 \<le> length bs \<Longrightarrow> length (put32 bs off w) = length bs"
  by (simp add: put32_def)

section \<open>Parameters (\<^verbatim>\<open>fs.h\<close>, \<^verbatim>\<open>param.h\<close>)\<close>

definition ROOTINO :: u32 where "ROOTINO = 1"
definition ROOTDEV :: u32 where "ROOTDEV = 1"
definition BSIZE :: nat where "BSIZE = 512"
definition NDIRECT :: nat where "NDIRECT = 12"
definition NINDIRECT :: nat where "NINDIRECT = 128"
definition MAXFILE :: nat where "MAXFILE = NDIRECT + NINDIRECT"
definition IPB :: nat where "IPB = 8"
definition BPB :: nat where "BPB = 4096"
definition DIRSIZ :: nat where "DIRSIZ = 14"
definition NBUF :: nat where "NBUF = 30"
definition LOGSIZE :: nat where "LOGSIZE = 30"
definition MAXOPBLOCKS :: int where "MAXOPBLOCKS = 10"
definition NINODE :: nat where "NINODE = 50"
definition NFILE :: nat where "NFILE = 100"
definition NDEV :: nat where "NDEV = 10"
definition FSSIZE :: nat where "FSSIZE = 1000"

section \<open>State\<close>

text \<open>\<^verbatim>\<open>struct buf\<close>, without the links of the two lists it is on.\<close>

record buf =
  b_flags :: u32
  b_dev :: u32
  b_blockno :: u32
  b_lock :: sleeplock
  b_refcnt :: u32
  b_data :: "byte list"

definition B_VALID :: u32 where "B_VALID = 2"
definition B_DIRTY :: u32 where "B_DIRTY = 4"

record superblock =
  sb_size :: u32
  sb_nblocks :: u32
  sb_ninodes :: u32
  sb_nlog :: u32
  sb_logstart :: u32
  sb_inodestart :: u32
  sb_bmapstart :: u32

text \<open>\<^verbatim>\<open>struct log\<close> with its in-memory header (\<^verbatim>\<open>log.c\<close>).\<close>

record log_t =
  lg_start :: int
  lg_size :: int
  lg_outstanding :: int
  lg_committing :: int
  lg_dev :: int
  lh_n :: int
  lh_block :: "int list"

text \<open>\<^verbatim>\<open>struct inode\<close>, the in-memory inode (\<^verbatim>\<open>file.h\<close>).\<close>

record inode =
  i_dev :: u32
  i_inum :: u32
  i_ref :: int
  i_lock :: sleeplock
  i_flags :: u32
  i_type :: u16
  i_major :: u16
  i_minor :: u16
  i_nlink :: u16
  i_size :: u32
  i_addrs :: "u32 list"

definition I_VALID :: u32 where "I_VALID = 2"

datatype fdtype = FD_NONE | FD_PIPE | FD_INODE

record kfile =
  f_type :: fdtype
  f_ref :: int
  f_readable :: bool
  f_writable :: bool
  f_pipe :: addr
  f_ip :: nat
  f_off :: u32

record pipe =
  pi_data :: "byte list"
  pi_nread :: u32
  pi_nwrite :: u32
  pi_readopen :: bool
  pi_writeopen :: bool

text \<open>The console's input line (\<^verbatim>\<open>console.c\<close>).\<close>

record cons_input =
  in_buf :: "byte list"
  in_r :: u32
  in_w :: u32
  in_e :: u32

text \<open>
  The disk is an array of blocks. \<open>bhead\<close> is the list of buffers from \<^verbatim>\<open>head.next\<close> to \<^verbatim>\<open>head.prev\<close>,
  as indices. A pipe lives in a page of its own: \<open>pipes\<close> maps the page to it. \<open>dwrites\<close> is a
  history variable: the blocks written to the disk so far, in order.
\<close>

record fs_state = proc_state +
  memdisk :: "nat \<Rightarrow> byte list"
  disksize :: nat
  dwrites :: "(nat \<times> byte list) list"
  bufs :: "buf list"
  bhead :: "nat list"
  sb :: superblock
  klog :: log_t
  inodes :: "inode list"
  ftable :: "kfile list"
  pipes :: "addr \<Rightarrow> pipe option"
  cinput :: cons_input
  cons_out :: "byte list"

text \<open>The operations of the layers below keep every component of the file system state.\<close>

lemma fs_more:
  fixes s t :: "'a fs_state_scheme"
  assumes "proc_state.more s = proc_state.more t"
  shows "memdisk s = memdisk t" "disksize s = disksize t" "dwrites s = dwrites t" "bufs s = bufs t"
    "bhead s = bhead t" "sb s = sb t" "klog s = klog t" "inodes s = inodes t" "ftable s = ftable t"
    "pipes s = pipes t" "cinput s = cinput t" "cons_out s = cons_out t"
  using assms by (cases s, cases t, simp)+

definition upd_buf :: "nat \<Rightarrow> (buf \<Rightarrow> buf) \<Rightarrow> 'a fs_state_scheme \<Rightarrow> 'a fs_state_scheme" where
  "upd_buf b f s = s\<lparr>bufs := (bufs s)[b := f (bufs s ! b)]\<rparr>"

abbreviation kbuf :: "nat \<Rightarrow> (buf \<Rightarrow> buf) \<Rightarrow> ('a fs_state_scheme, unit) kop" where
  "kbuf b f \<equiv> kmod (upd_buf b f)"

definition bget_field :: "nat \<Rightarrow> (buf \<Rightarrow> 'v) \<Rightarrow> ('a fs_state_scheme, 'v) kop" where
  "bget_field b f = kget (\<lambda>s. f (bufs s ! b))"

definition buf_lock :: "nat \<Rightarrow> 'a fs_state_scheme lockref" where
  "buf_lock b = (\<lambda>s. b_lock (bufs s ! b), \<lambda>f. upd_buf b (b_lock_update f), ChBufLock b)"

section \<open>The disk (\<^verbatim>\<open>memide.c\<close>)\<close>

definition iderw :: "nat \<Rightarrow> ('a fs_state_scheme, unit) kop" where
  "iderw b =
     kbind (holdingsleep (buf_lock b)) (\<lambda>held.
       if \<not> held then kpanic ''iderw: buf not locked''
       else kbind (bget_field b id) (\<lambda>bp.
         if b_flags bp AND (B_VALID OR B_DIRTY) = B_VALID then kpanic ''iderw: nothing to do''
         else if b_dev bp \<noteq> 1 then kpanic ''iderw: request not for disk 1''
         else kbind (kget disksize) (\<lambda>ds.
           if ds \<le> unat (b_blockno bp) then kpanic ''iderw: block out of range''
           else
             kseq (if b_flags bp AND B_DIRTY \<noteq> 0 then
                     kseq (kbuf b (\<lambda>bp. bp\<lparr>b_flags := b_flags bp AND NOT B_DIRTY\<rparr>))
                          (kmod (\<lambda>s. s\<lparr>memdisk := (memdisk s)(unat (b_blockno bp) := b_data bp),
                             dwrites := dwrites s @ [(unat (b_blockno bp), b_data bp)]\<rparr>))
                   else
                     kbind (kget (\<lambda>s. memdisk s (unat (b_blockno bp)))) (\<lambda>d.
                       kbuf b (\<lambda>bp. bp\<lparr>b_data := d\<rparr>)))
                  (kbuf b (\<lambda>bp. bp\<lparr>b_flags := b_flags bp OR B_VALID\<rparr>)))))"

section \<open>The block cache (\<^verbatim>\<open>bio.c\<close>)\<close>

definition binit :: "('a fs_state_scheme, unit) kop" where
  "binit =
     kseq (kmod (\<lambda>s. s\<lparr>bhead := []\<rparr>))
          (kfor [0..<NBUF] (\<lambda>b.
             kseq (kbuf b (\<lambda>bp. bp\<lparr>b_dev := -1, b_lock := initsleeplock ''buffer'' (b_lock bp)\<rparr>))
                  (kmod (\<lambda>s. s\<lparr>bhead := b # bhead s\<rparr>))))"

definition bget :: "u32 \<Rightarrow> u32 \<Rightarrow> ('a fs_state_scheme, nat) kop" where
  "bget dev blockno =
     kbind (kget (\<lambda>s. find (\<lambda>b. b_dev (bufs s ! b) = dev \<and> b_blockno (bufs s ! b) = blockno) (bhead s)))
       (\<lambda>r. case r of
         Some b \<Rightarrow>
           kseq (kbuf b (\<lambda>bp. bp\<lparr>b_refcnt := b_refcnt bp + 1\<rparr>))
          (kseq (acquiresleep (buf_lock b)) (kret b))
       | None \<Rightarrow>
           kbind (kget (\<lambda>s. find (\<lambda>b. b_refcnt (bufs s ! b) = 0 \<and> b_flags (bufs s ! b) AND B_DIRTY = 0)
                              (rev (bhead s)))) (\<lambda>r. case r of
             Some b \<Rightarrow>
               kseq (kbuf b (\<lambda>bp. bp\<lparr>b_dev := dev, b_blockno := blockno, b_flags := 0, b_refcnt := 1\<rparr>))
              (kseq (acquiresleep (buf_lock b)) (kret b))
           | None \<Rightarrow> kpanic ''bget: no buffers''))"

definition bread :: "u32 \<Rightarrow> u32 \<Rightarrow> ('a fs_state_scheme, nat) kop" where
  "bread dev blockno =
     kbind (bget dev blockno) (\<lambda>b.
     kbind (bget_field b b_flags) (\<lambda>fl.
     kseq (kwhen (fl AND B_VALID = 0) (iderw b))
          (kret b)))"

definition bwrite :: "nat \<Rightarrow> ('a fs_state_scheme, unit) kop" where
  "bwrite b =
     kbind (holdingsleep (buf_lock b)) (\<lambda>held.
       if \<not> held then kpanic ''bwrite''
       else kseq (kbuf b (\<lambda>bp. bp\<lparr>b_flags := b_flags bp OR B_DIRTY\<rparr>)) (iderw b))"

definition brelse :: "nat \<Rightarrow> ('a fs_state_scheme, unit) kop" where
  "brelse b =
     kbind (holdingsleep (buf_lock b)) (\<lambda>held.
       if \<not> held then kpanic ''brelse''
       else
         kseq (releasesleep (buf_lock b))
        (kseq (kbuf b (\<lambda>bp. bp\<lparr>b_refcnt := b_refcnt bp - 1\<rparr>))
        (kbind (bget_field b b_refcnt) (\<lambda>n.
           kwhen (n = 0) (kmod (\<lambda>s. s\<lparr>bhead := b # remove1 b (bhead s)\<rparr>))))))"

text \<open>The bytes of a locked buffer.\<close>

definition bdata :: "nat \<Rightarrow> ('a fs_state_scheme, byte list) kop" where
  "bdata b = bget_field b b_data"

definition set_bdata :: "nat \<Rightarrow> byte list \<Rightarrow> ('a fs_state_scheme, unit) kop" where
  "set_bdata b d = kbuf b (\<lambda>bp. bp\<lparr>b_data := d\<rparr>)"

end
