(* ===== verification/Log.thy ===== *)
theory Log
  imports Bio
begin

unbundle bit_operations_syntax

text \<open>
  The write-ahead log (\<^verbatim>\<open>log.c\<close>). A file system operation runs between \<^verbatim>\<open>begin_op\<close> and
  \<^verbatim>\<open>end_op\<close> and marks the blocks it changes with \<^verbatim>\<open>log_write\<close>; the last \<^verbatim>\<open>end_op\<close> commits: the
  blocks go to the log area, then the header (the commit point), then to their home, then
  the header is cleared. \<^verbatim>\<open>recover_from_log\<close> replays a committed log at boot.
\<close>

definition u32_of :: "int \<Rightarrow> u32" where "u32_of i = word_of_int i"

abbreviation klg :: "(log_t \<Rightarrow> log_t) \<Rightarrow> ('a fs_state_scheme, unit) kop" where
  "klg f \<equiv> kmod (\<lambda>s. s\<lparr>klog := f (klog s)\<rparr>)"

section \<open>Superblock\<close>

definition decode_sb :: "byte list \<Rightarrow> superblock" where
  "decode_sb d = \<lparr>sb_size = get32 d 0, sb_nblocks = get32 d 4, sb_ninodes = get32 d 8,
     sb_nlog = get32 d 12, sb_logstart = get32 d 16, sb_inodestart = get32 d 20,
     sb_bmapstart = get32 d 24\<rparr>"

definition readsb :: "u32 \<Rightarrow> ('a fs_state_scheme, superblock) kop" where
  "readsb dev =
     kbind (bread dev 1) (\<lambda>b. kbind (bdata b) (\<lambda>d.
     kseq (brelse b) (kret (decode_sb d))))"

section \<open>Moving blocks\<close>

text \<open>One round of \<^verbatim>\<open>install_trans\<close>: a logged block goes to its home location.\<close>

definition install_block :: "nat \<Rightarrow> ('a fs_state_scheme, unit) kop" where
  "install_block tail =
     kbind (kget klog) (\<lambda>lg.
     kbind (bread (u32_of (lg_dev lg)) (u32_of (lg_start lg + int tail + 1))) (\<lambda>lbuf.
     kbind (bread (u32_of (lg_dev lg)) (u32_of (lh_block lg ! tail))) (\<lambda>dbuf.
     kbind (bdata lbuf) (\<lambda>d.
     kseq (set_bdata dbuf d)
    (kseq (bwrite dbuf)
    (kseq (brelse lbuf)
          (brelse dbuf)))))))"

definition install_trans :: "('a fs_state_scheme, unit) kop" where
  "install_trans = kbind (kget (\<lambda>s. nat (lh_n (klog s)))) (\<lambda>n. kfor [0..<n] install_block)"

text \<open>
  The header block: the count, then the block numbers. Reading more than \<^verbatim>\<open>LOGSIZE\<close> numbers
  would run over the in-memory array.
\<close>

definition read_head :: "('a fs_state_scheme, unit) kop" where
  "read_head =
     kbind (kget klog) (\<lambda>lg.
     kbind (bread (u32_of (lg_dev lg)) (u32_of (lg_start lg))) (\<lambda>b.
     kbind (bdata b) (\<lambda>d.
     (let n = sint (get32 d 0) in
      if int LOGSIZE < n then kfault
      else
        kseq (klg (\<lambda>lg. lg\<lparr>lh_n := n,
                lh_block := map (\<lambda>i. if i < nat n then sint (get32 d (4 + 4 * i)) else lh_block lg ! i)
                              [0..<LOGSIZE]\<rparr>))
             (brelse b)))))"

fun put_blocks :: "byte list \<Rightarrow> nat \<Rightarrow> int list \<Rightarrow> byte list" where
  "put_blocks d i [] = d"
| "put_blocks d i (x # xs) = put_blocks (put32 d (4 + 4 * i) (u32_of x)) (Suc i) xs"

definition encode_head :: "log_t \<Rightarrow> byte list \<Rightarrow> byte list" where
  "encode_head lg d = put_blocks (put32 d 0 (u32_of (lh_n lg))) 0 (take (nat (lh_n lg)) (lh_block lg))"

definition write_head :: "('a fs_state_scheme, unit) kop" where
  "write_head =
     kbind (kget klog) (\<lambda>lg.
     kbind (bread (u32_of (lg_dev lg)) (u32_of (lg_start lg))) (\<lambda>b.
     kbind (bdata b) (\<lambda>d.
     kseq (set_bdata b (encode_head lg d))
    (kseq (bwrite b)
          (brelse b)))))"

definition recover_from_log :: "('a fs_state_scheme, unit) kop" where
  "recover_from_log =
     kseq read_head
    (kseq install_trans
    (kseq (klg (\<lambda>lg. lg\<lparr>lh_n := 0\<rparr>))
          write_head))"

text \<open>The size check of \<^verbatim>\<open>initlog\<close> is on constants: the header has 124 bytes, a block 512.\<close>

definition initlog :: "int \<Rightarrow> ('a fs_state_scheme, unit) kop" where
  "initlog dev =
     (if 4 + 4 * LOGSIZE \<ge> BSIZE then kpanic ''initlog: too big logheader''
      else
        kbind (readsb (u32_of dev)) (\<lambda>sbk.
        kseq (klg (\<lambda>lg. lg\<lparr>lg_start := sint (sb_logstart sbk), lg_size := sint (sb_nlog sbk), lg_dev := dev\<rparr>))
             recover_from_log))"

section \<open>Transactions\<close>

definition begin_op :: "('a fs_state_scheme, unit) kop" where
  "begin_op =
     kbind (kget klog) (\<lambda>lg.
       if lg_committing lg \<noteq> 0 then ksleep ChLog
       else if lh_n lg + (lg_outstanding lg + 1) * MAXOPBLOCKS > int LOGSIZE then ksleep ChLog
       else klg (\<lambda>lg. lg\<lparr>lg_outstanding := lg_outstanding lg + 1\<rparr>))"

text \<open>One round of \<^verbatim>\<open>write_log\<close>: a changed block goes from the cache to the log area.\<close>

definition log_block :: "nat \<Rightarrow> ('a fs_state_scheme, unit) kop" where
  "log_block tail =
     kbind (kget klog) (\<lambda>lg.
     kbind (bread (u32_of (lg_dev lg)) (u32_of (lg_start lg + int tail + 1))) (\<lambda>to.
     kbind (bread (u32_of (lg_dev lg)) (u32_of (lh_block lg ! tail))) (\<lambda>from.
     kbind (bdata from) (\<lambda>d.
     kseq (set_bdata to d)
    (kseq (bwrite to)
    (kseq (brelse from)
          (brelse to)))))))"

definition write_log :: "('a fs_state_scheme, unit) kop" where
  "write_log = kbind (kget (\<lambda>s. nat (lh_n (klog s)))) (\<lambda>n. kfor [0..<n] log_block)"

definition commit :: "('a fs_state_scheme, unit) kop" where
  "commit =
     kbind (kget (\<lambda>s. lh_n (klog s))) (\<lambda>n. kwhen (n > 0)
       (kseq write_log
       (kseq write_head
       (kseq install_trans
       (kseq (klg (\<lambda>lg. lg\<lparr>lh_n := 0\<rparr>))
             write_head)))))"

definition end_op :: "('a fs_state_scheme, unit) kop" where
  "end_op =
     kseq (klg (\<lambda>lg. lg\<lparr>lg_outstanding := lg_outstanding lg - 1\<rparr>))
    (kbind (kget klog) (\<lambda>lg.
       if lg_committing lg \<noteq> 0 then kpanic ''log.committing''
       else if lg_outstanding lg = 0 then
         kseq (klg (\<lambda>lg. lg\<lparr>lg_committing := 1\<rparr>))
        (kseq commit
        (kseq (klg (\<lambda>lg. lg\<lparr>lg_committing := 0\<rparr>))
              (wakeup ChLog)))
       else wakeup ChLog))"

text \<open>
  \<^verbatim>\<open>log_write\<close> records the block number, absorbing a repeated write, and pins the buffer in the
  cache by marking it dirty.
\<close>

definition log_write :: "nat \<Rightarrow> ('a fs_state_scheme, unit) kop" where
  "log_write b =
     kbind (kget klog) (\<lambda>lg.
       if lh_n lg \<ge> int LOGSIZE \<or> lh_n lg \<ge> lg_size lg - 1 then kpanic ''too big a transaction''
       else if lg_outstanding lg < 1 then kpanic ''log_write outside of trans''
       else kbind (bget_field b b_blockno) (\<lambda>bn.
         (let n = nat (lh_n lg);
              i = (case find_from (\<lambda>i. u32_of (lh_block lg ! i) = bn) 0 n of None \<Rightarrow> n | Some i \<Rightarrow> i)
          in kseq (klg (\<lambda>lg. lg\<lparr>lh_block := (lh_block lg)[i := sint bn],
                                 lh_n := (if i = n then lh_n lg + 1 else lh_n lg)\<rparr>))
                  (kbuf b (\<lambda>bp. bp\<lparr>b_flags := b_flags bp OR B_DIRTY\<rparr>)))))"

end
