(* ===== verification/Cstring.thy ===== *)
theory Cstring
  imports Yonix_Prelude
begin

unbundle bit_operations_syntax

text \<open>
  The byte and string routines of \<^verbatim>\<open>string.c\<close>. The memory routines work on byte memory through
  pointers; the string routines on the list of bytes a pointer leads to, where a byte past
  the end of the list reads as the terminating NUL.
\<close>

section \<open>Memory\<close>

text \<open>\<^verbatim>\<open>memmove\<close>: backwards when the destination starts inside the source, forwards otherwise.\<close>

primrec memmove_fwd :: "nat \<Rightarrow> addr \<Rightarrow> addr \<Rightarrow> memory \<Rightarrow> memory" where
  "memmove_fwd 0 d s m = m"
| "memmove_fwd (Suc n) d s m = memmove_fwd n (d + 1) (s + 1) (m(d := m s))"

primrec memmove_bwd :: "nat \<Rightarrow> addr \<Rightarrow> addr \<Rightarrow> memory \<Rightarrow> memory" where
  "memmove_bwd 0 d s m = m"
| "memmove_bwd (Suc n) d s m = memmove_bwd n (d - 1) (s - 1) (m(d - 1 := m (s - 1)))"

definition memmove :: "addr \<Rightarrow> addr \<Rightarrow> nat \<Rightarrow> memory \<Rightarrow> memory" where
  "memmove dst src n m =
     (if src < dst \<and> src + of_nat n > dst
      then memmove_bwd n (dst + of_nat n) (src + of_nat n) m
      else memmove_fwd n dst src m)"

text \<open>
  \<^verbatim>\<open>memset\<close>: by 32-bit stores when the address and the length allow it, by bytes otherwise.
\<close>

primrec stosb :: "nat \<Rightarrow> addr \<Rightarrow> byte \<Rightarrow> memory \<Rightarrow> memory" where
  "stosb 0 d c m = m"
| "stosb (Suc n) d c m = stosb n (d + 1) c (m(d := c))"

primrec stosl :: "nat \<Rightarrow> addr \<Rightarrow> u32 \<Rightarrow> memory \<Rightarrow> memory" where
  "stosl 0 d w m = m"
| "stosl (Suc n) d w m = stosl n (d + 4) w (st32 m d w)"

definition memset :: "addr \<Rightarrow> u32 \<Rightarrow> nat \<Rightarrow> memory \<Rightarrow> memory" where
  "memset dst c n m =
     (if unat dst mod 4 = 0 \<and> n mod 4 = 0
      then (let c = c AND 0xFF in
            stosl (n div 4) dst (push_bit 24 c OR push_bit 16 c OR push_bit 8 c OR c) m)
      else stosb n dst (ucast c) m)"

text \<open>\<^verbatim>\<open>memcmp\<close> on the \<open>n\<close> bytes at the two pointers.\<close>

fun memcmp :: "byte list \<Rightarrow> byte list \<Rightarrow> int" where
  "memcmp (a # as) (b # bs) = (if a \<noteq> b then uint a - uint b else memcmp as bs)"
| "memcmp _ _ = 0"

section \<open>Strings\<close>

definition hdz :: "byte list \<Rightarrow> byte" where
  "hdz p = (case p of [] \<Rightarrow> 0 | c # _ \<Rightarrow> c)"

fun strncmp :: "byte list \<Rightarrow> byte list \<Rightarrow> nat \<Rightarrow> int" where
  "strncmp p q 0 = 0"
| "strncmp p q (Suc n) =
     (if hdz p \<noteq> 0 \<and> hdz p = hdz q then strncmp (tl p) (tl q) n
      else uint (hdz p) - uint (hdz q))"

text \<open>The \<open>n\<close> bytes \<^verbatim>\<open>strncpy\<close> stores: the string up to and with its NUL, then zeros.\<close>

fun strncpy :: "byte list \<Rightarrow> nat \<Rightarrow> byte list" where
  "strncpy t 0 = []"
| "strncpy t (Suc n) = (if hdz t \<noteq> 0 then hdz t # strncpy (tl t) n else replicate (Suc n) 0)"

text \<open>The bytes \<^verbatim>\<open>safestrcpy\<close> stores for \<open>n > 0\<close>; nothing for \<open>n \<le> 0\<close>.\<close>

fun safestrcpy_loop :: "byte list \<Rightarrow> nat \<Rightarrow> byte list" where
  "safestrcpy_loop t 0 = [0]"
| "safestrcpy_loop t (Suc n) = (if hdz t \<noteq> 0 then hdz t # safestrcpy_loop (tl t) n else [0, 0])"

definition safestrcpy :: "byte list \<Rightarrow> int \<Rightarrow> byte list" where
  "safestrcpy t n = (if n \<le> 0 then [] else safestrcpy_loop t (nat n - 1))"

fun strlen :: "byte list \<Rightarrow> nat" where
  "strlen [] = 0"
| "strlen (c # cs) = (if c = 0 then 0 else Suc (strlen cs))"

text \<open>The characters of a C string: the bytes before the first NUL.\<close>

definition cstr :: "byte list \<Rightarrow> byte list" where
  "cstr p = takeWhile (\<lambda>c. c \<noteq> 0) p"

section \<open>Properties\<close>

subsection \<open>Filling\<close>

lemma stosb_eq: "n \<le> 2 ^ 32 \<Longrightarrow> stosb n d c m = mem_write m d (replicate n c)"
  by (induction n arbitrary: d m) (simp_all add: mem_write_Cons)

lemma stosl_eq:
  "4 * n \<le> 2 ^ 32 \<Longrightarrow> stosl n d w m =
     mem_write m d (concat (replicate n [byte_of 0 w, byte_of 1 w, byte_of 2 w, byte_of 3 w]))"
proof (induction n arbitrary: d m)
  case (Suc n)
  let ?b = "[byte_of 0 w, byte_of 1 w, byte_of 2 w, byte_of 3 w]"
  have "mem_write m d (?b @ concat (replicate n ?b)) = mem_write (mem_write m d ?b) (d + 4) (concat (replicate n ?b))"
    using Suc.prems by (subst mem_write_append) (simp_all add: length_concat sum_list_replicate del: append.simps)
  with Suc show ?case by (simp add: st32_mem_write)
qed simp

lemma byte_of_spread:
  fixes x :: u32
  assumes "i < 4" and c: "c = x AND 0xFF"
  shows "byte_of i (push_bit 24 c OR push_bit 16 c OR push_bit 8 c OR c) = ucast x"
proof (rule bit_word_eqI)
  fix k assume "k < LENGTH(8)"
  then have k: "k < 8" by simp
  have c': "c = take_bit 8 x" by (simp add: c take_bit_eq_mask mask_eq_exp_minus_1)
  have "i = 0 \<or> i = 1 \<or> i = 2 \<or> i = 3" using assms(1) by auto
  then show "bit (byte_of i (push_bit 24 c OR push_bit 16 c OR push_bit 8 c OR c)) k = bit (ucast x :: byte) k"
    unfolding c' by (elim disjE) (use k in \<open>auto simp: byte_of_def bit_simps\<close>)
qed

lemma concat_replicate4: "concat (replicate n [b, b, b, b]) = replicate (4 * n) b"
proof (induction n)
  case (Suc n)
  have "replicate (4 * Suc n) b = replicate 4 b @ replicate (4 * n) b"
    by (simp add: replicate_add [symmetric])
  with Suc show ?case by (simp add: numeral_eq_Suc)
qed simp

text \<open>
  \<^verbatim>\<open>memset\<close> stores the low byte of its argument into exactly the given
  range, whether it goes by words or by bytes.
\<close>

theorem memset_fills:
  assumes "n \<le> 2 ^ 32"
  shows "memset dst c n m = mem_write m dst (replicate n (ucast c))"
proof (cases "unat dst mod 4 = 0 \<and> n mod 4 = 0")
  case True
  then have n: "4 * (n div 4) = n" by presburger
  let ?c = "c AND 0xFF"
  let ?w = "push_bit 24 ?c OR push_bit 16 ?c OR push_bit 8 ?c OR ?c"
  have "memset dst c n m = stosl (n div 4) dst ?w m"
    using True by (simp add: memset_def)
  also have "\<dots> = mem_write m dst (concat (replicate (n div 4) [ucast c, ucast c, ucast c, ucast c]))"
    using assms n stosl_eq [of "n div 4" dst ?w m] byte_of_spread [OF _ refl, of _ c] by simp
  also have "\<dots> = mem_write m dst (replicate n (ucast c))"
    by (simp only: concat_replicate4 n)
  finally show ?thesis .
next
  case False
  then have "memset dst c n m = stosb n dst (ucast c) m" by (simp only: memset_def if_False)
  with assms show ?thesis by (simp add: stosb_eq)
qed

theorem memset_fills_witness:
  "memset 0x1000 0x1FF 8 ucast = mem_write ucast 0x1000 (replicate 8 (ucast (0x1FF :: u32)))"
  by (rule memset_fills) simp

subsection \<open>Copying\<close>

text \<open>Going forwards is right when no byte is stored over a source byte that is still to be read.\<close>

lemma memmove_fwd_eq:
  "n \<le> 2 ^ 32 \<Longrightarrow> (\<And>i j. i < j \<Longrightarrow> j < n \<Longrightarrow> d + of_nat i \<noteq> s + of_nat j) \<Longrightarrow>
   memmove_fwd n d s m = mem_write m d (mem_read m s n)"
proof (induction n arbitrary: d s m)
  case (Suc n)
  have "memmove_fwd (Suc n) d s m = mem_write (m(d := m s)) (d + 1) (mem_read (m(d := m s)) (s + 1) n)"
    using Suc.prems(1) Suc.prems(2) [of "Suc i" "Suc j" for i j]
    by (simp, intro Suc.IH) (simp_all add: add.assoc)
  also have "mem_read (m(d := m s)) (s + 1) n = mem_read m (s + 1) n"
  proof (rule mem_read_cong)
    fix i assume "i < n"
    then have "s + 1 + of_nat i \<noteq> d" using Suc.prems(2) [of 0 "Suc i"] by (auto simp: add.assoc)
    then show "(m(d := m s)) (s + 1 + of_nat i) = m (s + 1 + of_nat i)" by simp
  qed
  also have "mem_write (m(d := m s)) (d + 1) (mem_read m (s + 1) n) = mem_write m d (mem_read m s (Suc n))"
    using Suc.prems(1) by (simp add: mem_read_Suc mem_write_Cons)
  finally show ?case .
qed simp

lemma memmove_bwd_eq:
  "n \<le> 2 ^ 32 \<Longrightarrow> (\<And>i j. j < i \<Longrightarrow> i < n \<Longrightarrow> d + of_nat i \<noteq> s + of_nat j) \<Longrightarrow>
   memmove_bwd n (d + of_nat n) (s + of_nat n) m = mem_write m d (mem_read m s n)"
proof (induction n arbitrary: m)
  case (Suc n)
  let ?m = "m(d + of_nat n := m (s + of_nat n))"
  have "memmove_bwd (Suc n) (d + of_nat (Suc n)) (s + of_nat (Suc n)) m =
        memmove_bwd n (d + of_nat n) (s + of_nat n) ?m"
    by (simp add: algebra_simps)
  also have "\<dots> = mem_write ?m d (mem_read ?m s n)"
    using Suc.prems by (intro Suc.IH) simp_all
  also have "mem_read ?m s n = mem_read m s n"
  proof (rule mem_read_cong)
    fix i assume "i < n"
    then have "s + of_nat i \<noteq> d + of_nat n" using Suc.prems(2) [of i n] by (metis lessI)
    then show "?m (s + of_nat i) = m (s + of_nat i)" by simp
  qed
  also have "mem_write ?m d (mem_read m s n) = mem_write m d (mem_read m s (Suc n))"
  proof
    fix x
    have "unat (of_nat n :: u32) = n" using Suc.prems(1) by (simp add: unat_of_nat)
    then have "x = d + of_nat n \<longleftrightarrow> unat (x - d) = n"
      by (metis add.commute add_diff_cancel_left' diff_add_cancel unsigned_word_eqI)
    then show "mem_write ?m d (mem_read m s n) x = mem_write m d (mem_read m s (Suc n)) x"
      by (auto simp: mem_write_def mem_read_snoc nth_append Let_def)
  qed
  finally show ?case .
qed simp

lemma no_wrap_add:
  assumes "unat (a :: u32) + n < 2 ^ 32" and "i \<le> n"
  shows "unat (a + of_nat i) = unat a + i"
  using assms by (simp add: unat_add_small unat_of_nat)

text \<open>
  \<^verbatim>\<open>memmove\<close> between two ranges that do not run over the end of the
  address space leaves in the destination the bytes the source had before the call, however
  the two ranges overlap, and changes nothing else.
\<close>

lemma memmove_correct:
  assumes "unat src + n < 2 ^ 32" and "unat dst + n < 2 ^ 32"
  shows "memmove dst src n m = mem_write m dst (mem_read m src n)"
proof (cases "src < dst \<and> src + of_nat n > dst")
  case True
  have "dst + of_nat i \<noteq> src + of_nat j" if "j < i" "i < n" for i j
    using no_wrap_add [OF assms(1), of j] no_wrap_add [OF assms(2), of i] True that
    by (auto simp: word_less_nat_alt dest!: arg_cong [where f = unat])
  with True assms show ?thesis by (simp add: memmove_def memmove_bwd_eq)
next
  case False
  have "dst + of_nat i \<noteq> src + of_nat j" if "i < j" "j < n" for i j
    using no_wrap_add [OF assms(1), of j] no_wrap_add [OF assms(2), of i]
      no_wrap_add [OF assms(1), of n] False that
    by (auto simp: word_less_nat_alt dest!: arg_cong [where f = unat])
  then have "memmove_fwd n dst src m = mem_write m dst (mem_read m src n)"
    using assms by (intro memmove_fwd_eq) simp_all
  with False show ?thesis by (simp only: memmove_def if_False)
qed

subsection \<open>Strings\<close>

lemma hdz_simps [simp]: "hdz [] = 0" "hdz (c # cs) = c"
  by (simp_all add: hdz_def)

lemma cstr_step: "cstr p = (if hdz p = 0 then [] else hdz p # cstr (tl p))"
  by (cases p) (simp_all add: cstr_def)

lemma cstr_eq_step:
  "take (Suc n) (cstr p) = take (Suc n) (cstr q) \<longleftrightarrow>
   hdz p = hdz q \<and> (hdz p \<noteq> 0 \<longrightarrow> take n (cstr (tl p)) = take n (cstr (tl q)))"
  by (subst (1 2) cstr_step) auto

lemma strlen_cstr: "strlen p = length (cstr p)"
  by (induction p rule: strlen.induct) (simp_all add: cstr_def)

text \<open>
  \<^verbatim>\<open>strncmp\<close> returns zero exactly when the two strings agree on their first \<open>n\<close> characters, and
  exchanging the strings negates the result.
\<close>

lemma strncmp_spec:
  "(strncmp p q n = 0 \<longleftrightarrow> take n (cstr p) = take n (cstr q)) \<and> strncmp q p n = - strncmp p q n"
proof (induction p q n rule: strncmp.induct)
  case (2 p q n)
  show ?case
  proof (cases "hdz p \<noteq> 0 \<and> hdz p = hdz q")
    case True
    with 2 have "strncmp (tl p) (tl q) n = 0 \<longleftrightarrow> take n (cstr (tl p)) = take n (cstr (tl q))"
      and "strncmp (tl q) (tl p) n = - strncmp (tl p) (tl q) n" by auto
    with True show ?thesis by (simp only: cstr_eq_step strncmp.simps) auto
  next
    case False
    then have d: "strncmp p q (Suc n) = uint (hdz p) - uint (hdz q)"
      "strncmp q p (Suc n) = uint (hdz q) - uint (hdz p)" by auto
    have "uint (hdz p) - uint (hdz q) = 0 \<longleftrightarrow> hdz p = hdz q"
      by (simp add: word_uint_eq_iff)
    with d False show ?thesis by (simp only: cstr_eq_step) auto
  qed
qed simp

lemmas strncmp_zero = conjunct1 [OF strncmp_spec]

lemma strncpy_length [simp]: "length (strncpy t n) = n"
  by (induction t n rule: strncpy.induct) simp_all

lemma cstr_replicate0 [simp]: "cstr (replicate n 0) = []"
  by (cases n) (simp_all add: cstr_def)

lemma cstr_strncpy: "cstr (strncpy t n) = take n (cstr t)"
proof (induction t n rule: strncpy.induct)
  case (2 t n)
  then show ?case
    by (subst (2) cstr_step) (auto simp: cstr_step [of "hdz t # _"] cstr_step [of "0 # _"])
qed (simp add: cstr_def)

lemma cstr_safestrcpy_loop:
  "cstr (safestrcpy_loop t n) = take n (cstr t) \<and> length (safestrcpy_loop t n) \<le> Suc n \<and>
   0 \<in> set (safestrcpy_loop t n)"
proof (induction t n rule: safestrcpy_loop.induct)
  case (2 t n)
  then show ?case
    by (subst (2) cstr_step) (auto simp: cstr_step [of "hdz t # _"] cstr_step [of "0 # _"])
qed (simp_all add: cstr_def)

text \<open>
  \<^verbatim>\<open>safestrcpy\<close> into a field of \<open>n > 0\<close> bytes stays inside the
  field, always terminates the copy, and copies as many characters as fit.
\<close>

theorem safestrcpy_bounded:
  assumes "0 < n"
  shows "int (length (safestrcpy t n)) \<le> n \<and> 0 \<in> set (safestrcpy t n) \<and>
         cstr (safestrcpy t n) = take (nat n - 1) (cstr t)"
  using assms cstr_safestrcpy_loop [of t "nat n - 1"] by (auto simp: safestrcpy_def)

theorem safestrcpy_bounded_witness:
  "int (length (safestrcpy [0x73, 0x68, 0x65, 0x6c, 0x6c, 0] 3)) \<le> 3 \<and>
   0 \<in> set (safestrcpy [0x73, 0x68, 0x65, 0x6c, 0x6c, 0] 3) \<and>
   cstr (safestrcpy [0x73, 0x68, 0x65, 0x6c, 0x6c, 0] 3) =
     take (nat 3 - 1) (cstr [0x73, 0x68, 0x65, 0x6c, 0x6c, 0])"
  by (rule safestrcpy_bounded) simp

end
