(* ===== verification/Fs.thy ===== *)
theory Fs
  imports Log Cstring
begin

unbundle bit_operations_syntax

text \<open>
  The file system (\<^verbatim>\<open>fs.c\<close>): the block bitmap, inodes and their cache, the block map of a
  file, reading and writing file contents, directories and path names; and the console
  device's read and write routines (\<^verbatim>\<open>console.c\<close>), which \<^verbatim>\<open>readi\<close> and \<^verbatim>\<open>writei\<close> call for device
  files. Routines that fill a caller's buffer return the bytes.
\<close>

definition T_DIR :: u16 where "T_DIR = 1"
definition T_FILE :: u16 where "T_FILE = 2"
definition T_DEV :: u16 where "T_DEV = 3"

definition upd_inode :: "nat \<Rightarrow> (inode \<Rightarrow> inode) \<Rightarrow> 'a fs_state_scheme \<Rightarrow> 'a fs_state_scheme" where
  "upd_inode ip f s = s\<lparr>inodes := (inodes s)[ip := f (inodes s ! ip)]\<rparr>"

abbreviation kinode :: "nat \<Rightarrow> (inode \<Rightarrow> inode) \<Rightarrow> ('a fs_state_scheme, unit) kop" where
  "kinode ip f \<equiv> kmod (upd_inode ip f)"

definition inode_field :: "nat \<Rightarrow> (inode \<Rightarrow> 'v) \<Rightarrow> ('a fs_state_scheme, 'v) kop" where
  "inode_field ip f = kget (\<lambda>s. f (inodes s ! ip))"

definition inode_lock :: "nat \<Rightarrow> 'a fs_state_scheme lockref" where
  "inode_lock ip = (\<lambda>s. i_lock (inodes s ! ip), \<lambda>f. upd_inode ip (i_lock_update f), ChInodeLock ip)"

section \<open>The block bitmap\<close>

definition BBLOCK :: "nat \<Rightarrow> superblock \<Rightarrow> u32" where
  "BBLOCK b sbk = of_nat (b div BPB) + sb_bmapstart sbk"

definition bzero :: "u32 \<Rightarrow> u32 \<Rightarrow> ('a fs_state_scheme, unit) kop" where
  "bzero dev bno =
     kbind (bread dev bno) (\<lambda>b.
     kseq (set_bdata b (replicate BSIZE 0))
    (kseq (log_write b)
          (brelse b)))"

text \<open>The bit of block \<open>bi\<close> in a bitmap block.\<close>

definition bmap_bit :: "byte list \<Rightarrow> nat \<Rightarrow> bool" where
  "bmap_bit d bi = bit (d ! (bi div 8)) (bi mod 8)"

definition bmap_set :: "byte list \<Rightarrow> nat \<Rightarrow> byte list" where
  "bmap_set d bi = d[bi div 8 := set_bit (bi mod 8) (d ! (bi div 8))]"

definition bmap_clear :: "byte list \<Rightarrow> nat \<Rightarrow> byte list" where
  "bmap_clear d bi = d[bi div 8 := unset_bit (bi mod 8) (d ! (bi div 8))]"

text \<open>The outer loop of \<^verbatim>\<open>balloc\<close>, one bitmap block per round; \<open>k\<close> rounds remain.\<close>

primrec balloc_loop :: "nat \<Rightarrow> nat \<Rightarrow> u32 \<Rightarrow> ('a fs_state_scheme, u32) kop" where
  "balloc_loop 0 b dev = kpanic ''balloc: out of blocks''"
| "balloc_loop (Suc k) b dev =
     kbind (kget sb) (\<lambda>sbk.
     kbind (bread dev (BBLOCK b sbk)) (\<lambda>bp.
     kbind (bdata bp) (\<lambda>d.
       case find_from (\<lambda>bi. \<not> bmap_bit d bi) 0 (min BPB (unat (sb_size sbk) - b)) of
         Some bi \<Rightarrow>
           kseq (set_bdata bp (bmap_set d bi))
          (kseq (log_write bp)
          (kseq (brelse bp)
          (kseq (bzero dev (of_nat (b + bi)))
                (kret (of_nat (b + bi))))))
       | None \<Rightarrow> kseq (brelse bp) (balloc_loop k (b + BPB) dev))))"

definition balloc :: "u32 \<Rightarrow> ('a fs_state_scheme, u32) kop" where
  "balloc dev = kbind (kget sb) (\<lambda>sbk. balloc_loop ((unat (sb_size sbk) + BPB - 1) div BPB) 0 dev)"

definition bfree :: "u32 \<Rightarrow> u32 \<Rightarrow> ('a fs_state_scheme, unit) kop" where
  "bfree dev b =
     kbind (readsb dev) (\<lambda>sbk.
     kseq (kmod (\<lambda>s. s\<lparr>sb := sbk\<rparr>))
    (kbind (bread dev (BBLOCK (unat b) sbk)) (\<lambda>bp.
     kbind (bdata bp) (\<lambda>d.
       (let bi = unat b mod BPB in
        if \<not> bmap_bit d bi then kpanic ''freeing free block''
        else kseq (set_bdata bp (bmap_clear d bi))
            (kseq (log_write bp)
                  (brelse bp)))))))"

section \<open>Inodes\<close>

definition IBLOCK :: "u32 \<Rightarrow> superblock \<Rightarrow> u32" where
  "IBLOCK i sbk = of_nat (unat i div IPB) + sb_inodestart sbk"

definition dinode_off :: "u32 \<Rightarrow> nat" where
  "dinode_off inum = 64 * (unat inum mod IPB)"

definition encode_dinode :: "inode \<Rightarrow> byte list" where
  "encode_dinode ip = bytes_of16 (i_type ip) @ bytes_of16 (i_major ip) @ bytes_of16 (i_minor ip) @
     bytes_of16 (i_nlink ip) @ bytes_of32 (i_size ip) @ concat (map bytes_of32 (i_addrs ip))"

text \<open>Loading the fields of an on-disk inode at offset \<open>off\<close> of a block into an in-memory one.\<close>

definition load_dinode :: "byte list \<Rightarrow> nat \<Rightarrow> inode \<Rightarrow> inode" where
  "load_dinode d off ip = ip\<lparr>i_type := get16 d off, i_major := get16 d (off + 2),
     i_minor := get16 d (off + 4), i_nlink := get16 d (off + 6), i_size := get32 d (off + 8),
     i_addrs := map (\<lambda>k. get32 d (off + 12 + 4 * k)) [0..<NDIRECT + 1]\<rparr>"

definition iinit :: "u32 \<Rightarrow> ('a fs_state_scheme, unit) kop" where
  "iinit dev =
     kseq (kfor [0..<NINODE] (\<lambda>i. kinode i (i_lock_update (initsleeplock ''inode''))))
          (kbind (readsb dev) (\<lambda>sbk. kmod (\<lambda>s. s\<lparr>sb := sbk\<rparr>)))"

definition iget :: "u32 \<Rightarrow> u32 \<Rightarrow> ('a fs_state_scheme, nat) kop" where
  "iget dev inum =
     kbind (kget inodes) (\<lambda>ic.
       case find_from (\<lambda>i. i_ref (ic ! i) > 0 \<and> i_dev (ic ! i) = dev \<and> i_inum (ic ! i) = inum) 0 NINODE of
         Some ip \<Rightarrow> kseq (kinode ip (\<lambda>i. i\<lparr>i_ref := i_ref i + 1\<rparr>)) (kret ip)
       | None \<Rightarrow>
           (case find_from (\<lambda>i. i_ref (ic ! i) = 0) 0 NINODE of
              None \<Rightarrow> kpanic ''iget: no inodes''
            | Some ip \<Rightarrow>
                kseq (kinode ip (\<lambda>i. i\<lparr>i_dev := dev, i_inum := inum, i_ref := 1, i_flags := 0\<rparr>))
                     (kret ip)))"

text \<open>The search of \<^verbatim>\<open>ialloc\<close>; \<open>k\<close> inode numbers remain.\<close>

primrec ialloc_loop :: "nat \<Rightarrow> nat \<Rightarrow> u32 \<Rightarrow> u16 \<Rightarrow> ('a fs_state_scheme, nat) kop" where
  "ialloc_loop 0 inum dev ty = kpanic ''ialloc: no inodes''"
| "ialloc_loop (Suc k) inum dev ty =
     kbind (kget sb) (\<lambda>sbk.
     kbind (bread dev (IBLOCK (of_nat inum) sbk)) (\<lambda>bp.
     kbind (bdata bp) (\<lambda>d.
       (let off = dinode_off (of_nat inum) in
        if get16 d off = 0 then
          kseq (set_bdata bp (splice d off (bytes_of16 ty @ replicate 62 0)))
         (kseq (log_write bp)
         (kseq (brelse bp)
               (iget dev (of_nat inum))))
        else kseq (brelse bp) (ialloc_loop k (Suc inum) dev ty)))))"

definition ialloc :: "u32 \<Rightarrow> u16 \<Rightarrow> ('a fs_state_scheme, nat) kop" where
  "ialloc dev ty = kbind (kget sb) (\<lambda>sbk. ialloc_loop (unat (sb_ninodes sbk) - 1) 1 dev ty)"

definition iupdate :: "nat \<Rightarrow> ('a fs_state_scheme, unit) kop" where
  "iupdate ip =
     kbind (inode_field ip id) (\<lambda>i.
     kbind (kget sb) (\<lambda>sbk.
     kbind (bread (i_dev i) (IBLOCK (i_inum i) sbk)) (\<lambda>bp.
     kbind (bdata bp) (\<lambda>d.
     kseq (set_bdata bp (splice d (dinode_off (i_inum i)) (encode_dinode i)))
    (kseq (log_write bp)
          (brelse bp))))))"

definition idup :: "nat \<Rightarrow> ('a fs_state_scheme, nat) kop" where
  "idup ip = kseq (kinode ip (\<lambda>i. i\<lparr>i_ref := i_ref i + 1\<rparr>)) (kret ip)"

definition ilock :: "nat \<Rightarrow> ('a fs_state_scheme, unit) kop" where
  "ilock ip =
     kbind (inode_field ip i_ref) (\<lambda>r.
       if r < 1 then kpanic ''ilock''
       else
         kseq (acquiresleep (inode_lock ip))
        (kbind (inode_field ip id) (\<lambda>i.
           kwhen (i_flags i AND I_VALID = 0)
             (kbind (kget sb) (\<lambda>sbk.
              kbind (bread (i_dev i) (IBLOCK (i_inum i) sbk)) (\<lambda>bp.
              kbind (bdata bp) (\<lambda>d.
              kseq (kinode ip (load_dinode d (dinode_off (i_inum i))))
             (kseq (brelse bp)
             (kseq (kinode ip (\<lambda>i. i\<lparr>i_flags := i_flags i OR I_VALID\<rparr>))
             (kbind (inode_field ip i_type) (\<lambda>ty.
                kwhen (ty = 0) (kpanic ''ilock: no type''))))))))))))"

definition iunlock :: "nat \<Rightarrow> ('a fs_state_scheme, unit) kop" where
  "iunlock ip =
     kbind (holdingsleep (inode_lock ip)) (\<lambda>held. kbind (inode_field ip i_ref) (\<lambda>r.
       if \<not> held \<or> r < 1 then kpanic ''iunlock'' else releasesleep (inode_lock ip)))"

section \<open>The block map of a file\<close>

definition bmap :: "nat \<Rightarrow> nat \<Rightarrow> ('a fs_state_scheme, u32) kop" where
  "bmap ip bn =
     kbind (inode_field ip i_dev) (\<lambda>dev.
       if bn < NDIRECT then
         kbind (inode_field ip (\<lambda>i. i_addrs i ! bn)) (\<lambda>addr.
           if addr \<noteq> 0 then kret addr
           else kbind (balloc dev) (\<lambda>a.
             kseq (kinode ip (\<lambda>i. i\<lparr>i_addrs := (i_addrs i)[bn := a]\<rparr>)) (kret a)))
       else if bn - NDIRECT < NINDIRECT then
         (let k = bn - NDIRECT in
          kbind (inode_field ip (\<lambda>i. i_addrs i ! NDIRECT)) (\<lambda>addr.
          kbind (if addr \<noteq> 0 then kret addr
                 else kbind (balloc dev) (\<lambda>a.
                   kseq (kinode ip (\<lambda>i. i\<lparr>i_addrs := (i_addrs i)[NDIRECT := a]\<rparr>)) (kret a)))
            (\<lambda>ind.
              kbind (bread dev ind) (\<lambda>bp.
              kbind (bdata bp) (\<lambda>d.
                if get32 d (4 * k) \<noteq> 0 then kseq (brelse bp) (kret (get32 d (4 * k)))
                else kbind (balloc dev) (\<lambda>a.
                  kseq (kbuf bp (\<lambda>b. b\<lparr>b_data := put32 (b_data b) (4 * k) a\<rparr>))
                 (kseq (log_write bp)
                 (kseq (brelse bp) (kret a)))))))))
       else kpanic ''bmap: out of range'')"

text \<open>Freeing the blocks of a file.\<close>

definition itrunc_direct :: "nat \<Rightarrow> nat \<Rightarrow> ('a fs_state_scheme, unit) kop" where
  "itrunc_direct ip k =
     kbind (inode_field ip id) (\<lambda>i.
       kwhen (i_addrs i ! k \<noteq> 0)
         (kseq (bfree (i_dev i) (i_addrs i ! k))
               (kinode ip (\<lambda>i. i\<lparr>i_addrs := (i_addrs i)[k := 0]\<rparr>))))"

definition itrunc :: "nat \<Rightarrow> ('a fs_state_scheme, unit) kop" where
  "itrunc ip =
     kseq (kfor [0..<NDIRECT] (itrunc_direct ip))
    (kbind (inode_field ip id) (\<lambda>i.
     kseq (kwhen (i_addrs i ! NDIRECT \<noteq> 0)
            (kbind (bread (i_dev i) (i_addrs i ! NDIRECT)) (\<lambda>bp.
             kseq (kfor [0..<NINDIRECT] (\<lambda>j.
                     kbind (bdata bp) (\<lambda>d.
                       kwhen (get32 d (4 * j) \<noteq> 0) (bfree (i_dev i) (get32 d (4 * j))))))
            (kseq (brelse bp)
            (kseq (bfree (i_dev i) (i_addrs i ! NDIRECT))
                  (kinode ip (\<lambda>i. i\<lparr>i_addrs := (i_addrs i)[NDIRECT := 0]\<rparr>)))))))
    (kseq (kinode ip (\<lambda>i. i\<lparr>i_size := 0\<rparr>))
          (iupdate ip))))"

definition iput :: "nat \<Rightarrow> ('a fs_state_scheme, unit) kop" where
  "iput ip =
     kbind (inode_field ip id) (\<lambda>i.
     kseq (kwhen (i_ref i = 1 \<and> i_flags i AND I_VALID \<noteq> 0 \<and> i_nlink i = 0)
            (kseq (itrunc ip)
            (kseq (kinode ip (\<lambda>i. i\<lparr>i_type := 0\<rparr>))
            (kseq (iupdate ip)
                  (kinode ip (\<lambda>i. i\<lparr>i_flags := 0\<rparr>))))))
          (kinode ip (\<lambda>i. i\<lparr>i_ref := i_ref i - 1\<rparr>)))"

definition iunlockput :: "nat \<Rightarrow> ('a fs_state_scheme, unit) kop" where
  "iunlockput ip = kseq (iunlock ip) (iput ip)"

record stat =
  st_dev :: u32
  st_ino :: u32
  st_type :: u16
  st_nlink :: u16
  st_size :: u32

definition stati :: "nat \<Rightarrow> ('a fs_state_scheme, stat) kop" where
  "stati ip = inode_field ip (\<lambda>i. \<lparr>st_dev = i_dev i, st_ino = i_inum i, st_type = i_type i,
     st_nlink = i_nlink i, st_size = i_size i\<rparr>)"

section \<open>The console device (\<^verbatim>\<open>console.c\<close>)\<close>

definition INPUT_BUF :: nat where "INPUT_BUF = 128"

text \<open>
  The loop of \<^verbatim>\<open>consoleread\<close>: \<open>n\<close> bytes are still wanted of \<open>target\<close>. The result is the bytes
  read, or \<open>None\<close> when the process was killed while it waited. Byte 4 is control-D.
\<close>

primrec consoleread_loop :: "nat \<Rightarrow> nat \<Rightarrow> byte list \<Rightarrow> ('a fs_state_scheme, byte list option) kop" where
  "consoleread_loop 0 target acc = kret (Some acc)"
| "consoleread_loop (Suc n) target acc =
     kbind (kget cinput) (\<lambda>inp.
       if in_r inp = in_w inp then
         kbind curproc (\<lambda>c. kbind (pget c p_killed) (\<lambda>k.
           if k \<noteq> 0 then kret None else ksleep ChInput))
       else
         (let ch = in_buf inp ! (unat (in_r inp) mod INPUT_BUF) in
          kseq (kmod (\<lambda>s. s\<lparr>cinput := (cinput s)\<lparr>in_r := in_r (cinput s) + 1\<rparr>\<rparr>))
               (if ch = 4 then
                  kseq (kwhen (Suc n < target)
                         (kmod (\<lambda>s. s\<lparr>cinput := (cinput s)\<lparr>in_r := in_r (cinput s) - 1\<rparr>\<rparr>)))
                       (kret (Some acc))
                else if ch = 10 then kret (Some (acc @ [ch]))
                else consoleread_loop n target (acc @ [ch]))))"

definition consoleread :: "nat \<Rightarrow> int \<Rightarrow> ('a fs_state_scheme, int \<times> byte list) kop" where
  "consoleread ip n =
     kseq (iunlock ip)
    (kbind (consoleread_loop (nat n) (nat n) []) (\<lambda>r.
     kseq (ilock ip)
          (case r of None \<Rightarrow> kret (-1, []) | Some bs \<Rightarrow> kret (int (length bs), bs))))"

definition consolewrite :: "nat \<Rightarrow> byte list \<Rightarrow> ('a fs_state_scheme, int) kop" where
  "consolewrite ip bs =
     kseq (iunlock ip)
    (kseq (kmod (\<lambda>s. s\<lparr>cons_out := cons_out s @ bs\<rparr>))
    (kseq (ilock ip)
          (kret (int (length bs)))))"

text \<open>\<^verbatim>\<open>devsw\<close>: the only device with read and write routines is the console, major number 1.\<close>

definition devsw_console :: "u16 \<Rightarrow> bool" where
  "devsw_console major \<longleftrightarrow> \<not> (sint major < 0 \<or> sint major \<ge> int NDEV) \<and> major = 1"

section \<open>Reading and writing files\<close>

text \<open>
  The copy loops: \<open>left\<close> bytes remain, each round copies up to the end of a block, so every
  round makes progress and the number of bytes bounds the rounds.
\<close>

primrec readi_loop :: "nat \<Rightarrow> nat \<Rightarrow> nat \<Rightarrow> nat \<Rightarrow> byte list \<Rightarrow> ('a fs_state_scheme, byte list) kop" where
  "readi_loop 0 ip off left acc = (if left = 0 then kret acc else kfault)"
| "readi_loop (Suc k) ip off left acc =
     (if left = 0 then kret acc
      else
        kbind (inode_field ip i_dev) (\<lambda>dev.
        kbind (bmap ip (off div BSIZE)) (\<lambda>a.
        kbind (bread dev a) (\<lambda>bp.
        kbind (bdata bp) (\<lambda>d.
          (let m = min left (BSIZE - off mod BSIZE) in
           kseq (brelse bp)
                (readi_loop k ip (off + m) (left - m) (acc @ slice d (off mod BSIZE) m))))))))"

definition readi :: "nat \<Rightarrow> u32 \<Rightarrow> u32 \<Rightarrow> ('a fs_state_scheme, int \<times> byte list) kop" where
  "readi ip off n =
     kbind (inode_field ip id) (\<lambda>i.
       if i_type i = T_DEV then
         (if \<not> devsw_console (i_major i) then kret (-1, []) else consoleread ip (sint n))
       else if off > i_size i \<or> off + n < off then kret (-1, [])
       else
         (let n = (if off + n > i_size i then i_size i - off else n) in
          kbind (readi_loop (unat n) ip (unat off) (unat n) []) (\<lambda>bs.
            kret (sint n, bs))))"

primrec writei_loop :: "nat \<Rightarrow> nat \<Rightarrow> nat \<Rightarrow> byte list \<Rightarrow> ('a fs_state_scheme, unit) kop" where
  "writei_loop 0 ip off src = (if src = [] then kret () else kfault)"
| "writei_loop (Suc k) ip off src =
     (if src = [] then kret ()
      else
        kbind (inode_field ip i_dev) (\<lambda>dev.
        kbind (bmap ip (off div BSIZE)) (\<lambda>a.
        kbind (bread dev a) (\<lambda>bp.
          (let m = min (length src) (BSIZE - off mod BSIZE) in
           kseq (kbuf bp (\<lambda>b. b\<lparr>b_data := splice (b_data b) (off mod BSIZE) (take m src)\<rparr>))
          (kseq (log_write bp)
          (kseq (brelse bp)
                (writei_loop k ip (off + m) (drop m src)))))))))"

definition writei :: "nat \<Rightarrow> byte list \<Rightarrow> u32 \<Rightarrow> ('a fs_state_scheme, int) kop" where
  "writei ip src off =
     (let n = of_nat (length src) :: u32 in
      kbind (inode_field ip id) (\<lambda>i.
        if i_type i = T_DEV then
          (if \<not> devsw_console (i_major i) then kret (-1) else consolewrite ip src)
        else if off > i_size i \<or> off + n < off then kret (-1)
        else if off + n > of_nat (MAXFILE * BSIZE) then kret (-1)
        else
          kseq (writei_loop (length src) ip (unat off) src)
         (kbind (inode_field ip i_size) (\<lambda>sz.
          kseq (kwhen (n > 0 \<and> off + n > sz)
                 (kseq (kinode ip (\<lambda>i. i\<lparr>i_size := off + n\<rparr>)) (iupdate ip)))
               (kret (sint n))))))"

section \<open>Directories\<close>

definition namecmp :: "byte list \<Rightarrow> byte list \<Rightarrow> int" where
  "namecmp s t = strncmp s t DIRSIZ"

text \<open>A directory entry: inode number and name, sixteen bytes.\<close>

definition de_inum :: "byte list \<Rightarrow> u16" where "de_inum de = get16 de 0"
definition de_name :: "byte list \<Rightarrow> byte list" where "de_name de = slice de 2 DIRSIZ"

definition encode_dirent :: "u16 \<Rightarrow> byte list \<Rightarrow> byte list" where
  "encode_dirent inum name = bytes_of16 inum @ strncpy name DIRSIZ"

definition read_dirent :: "nat \<Rightarrow> nat \<Rightarrow> string \<Rightarrow> ('a fs_state_scheme, byte list) kop" where
  "read_dirent dp off msg =
     kbind (readi dp (of_nat off) 16) (\<lambda>(r, de). if r \<noteq> 16 then kpanic msg else kret de)"

text \<open>The scan of \<^verbatim>\<open>dirlookup\<close>: the inode and the offset of the entry found.\<close>

primrec dirlookup_loop :: "nat \<Rightarrow> nat \<Rightarrow> byte list \<Rightarrow> nat \<Rightarrow> ('a fs_state_scheme, (nat \<times> u32) option) kop" where
  "dirlookup_loop 0 dp name off = kret None"
| "dirlookup_loop (Suc k) dp name off =
     kbind (inode_field dp id) (\<lambda>i.
       if \<not> off < unat (i_size i) then kret None
       else
         kbind (read_dirent dp off ''dirlink read'') (\<lambda>de.
           if de_inum de = 0 then dirlookup_loop k dp name (off + 16)
           else if namecmp name (de_name de) = 0 then
             kbind (iget (i_dev i) (ucast (de_inum de))) (\<lambda>ip. kret (Some (ip, of_nat off)))
           else dirlookup_loop k dp name (off + 16)))"

text \<open>The number of entries bounds the scan.\<close>

definition dir_rounds :: "nat \<Rightarrow> ('a fs_state_scheme, nat) kop" where
  "dir_rounds dp = inode_field dp (\<lambda>i. unat (i_size i) div 16 + 1)"

definition dirlookup :: "nat \<Rightarrow> byte list \<Rightarrow> ('a fs_state_scheme, (nat \<times> u32) option) kop" where
  "dirlookup dp name =
     kbind (inode_field dp i_type) (\<lambda>ty.
       if ty \<noteq> T_DIR then kpanic ''dirlookup not DIR''
       else kbind (dir_rounds dp) (\<lambda>k. dirlookup_loop k dp name 0))"

text \<open>The offset of the first free entry, or the end of the directory.\<close>

primrec free_dirent :: "nat \<Rightarrow> nat \<Rightarrow> nat \<Rightarrow> ('a fs_state_scheme, nat) kop" where
  "free_dirent 0 dp off = kret off"
| "free_dirent (Suc k) dp off =
     kbind (inode_field dp i_size) (\<lambda>sz.
       if \<not> off < unat sz then kret off
       else kbind (read_dirent dp off ''dirlink read'') (\<lambda>de.
         if de_inum de = 0 then kret off else free_dirent k dp (off + 16)))"

definition dirlink :: "nat \<Rightarrow> byte list \<Rightarrow> u32 \<Rightarrow> ('a fs_state_scheme, int) kop" where
  "dirlink dp name inum =
     kbind (dirlookup dp name) (\<lambda>r. case r of
       Some (ip, _) \<Rightarrow> kseq (iput ip) (kret (-1))
     | None \<Rightarrow>
         kbind (dir_rounds dp) (\<lambda>k.
         kbind (free_dirent k dp 0) (\<lambda>off.
         kbind (writei dp (encode_dirent (ucast inum) name) (of_nat off)) (\<lambda>w.
           if w \<noteq> 16 then kpanic ''dirlink'' else kret 0))))"

section \<open>Paths\<close>

definition slash :: byte where "slash = 0x2F"

text \<open>
  \<^verbatim>\<open>skipelem\<close>: the next element of a path, cut to \<^verbatim>\<open>DIRSIZ\<close> characters, and the rest of the path
  without leading slashes; \<open>None\<close> when no element is left.
\<close>

definition skipelem :: "byte list \<Rightarrow> (byte list \<times> byte list) option" where
  "skipelem path =
     (let p = dropWhile (\<lambda>c. c = slash) path in
      if p = [] then None
      else
        (let elem = takeWhile (\<lambda>c. c \<noteq> slash) p;
             rest = dropWhile (\<lambda>c. c \<noteq> slash) p
         in Some (take DIRSIZ elem, dropWhile (\<lambda>c. c = slash) rest)))"

text \<open>
  The walk of \<^verbatim>\<open>namex\<close> from inode \<open>ip\<close>. Every round consumes an element, so the length of the
  path bounds the rounds. The result is the inode and the last element, if any.
\<close>

primrec namex_loop ::
    "nat \<Rightarrow> nat \<Rightarrow> byte list \<Rightarrow> bool \<Rightarrow> byte list \<Rightarrow> ('a fs_state_scheme, (nat \<times> byte list) option) kop" where
  "namex_loop 0 ip path parent name = kfault"
| "namex_loop (Suc k) ip path parent name =
     (case skipelem path of
        None \<Rightarrow> if parent then kseq (iput ip) (kret None) else kret (Some (ip, name))
      | Some (elem, rest) \<Rightarrow>
          kseq (ilock ip)
         (kbind (inode_field ip i_type) (\<lambda>ty.
            if ty \<noteq> T_DIR then kseq (iunlockput ip) (kret None)
            else if parent \<and> rest = [] then kseq (iunlock ip) (kret (Some (ip, elem)))
            else kbind (dirlookup ip elem) (\<lambda>r. case r of
              None \<Rightarrow> kseq (iunlockput ip) (kret None)
            | Some (nxt, _) \<Rightarrow> kseq (iunlockput ip) (namex_loop k nxt rest parent elem)))))"

definition namex :: "byte list \<Rightarrow> bool \<Rightarrow> ('a fs_state_scheme, (nat \<times> byte list) option) kop" where
  "namex path parent =
     kbind (if path \<noteq> [] \<and> hd path = slash then iget ROOTDEV ROOTINO
            else kbind curproc (\<lambda>c. kbind (pget c p_cdir) (\<lambda>d.
              case d of None \<Rightarrow> kfault | Some ip \<Rightarrow> idup ip)))
       (\<lambda>ip. namex_loop (length path + 1) ip path parent [])"

definition namei :: "byte list \<Rightarrow> ('a fs_state_scheme, nat option) kop" where
  "namei path = kbind (namex path False) (\<lambda>r. kret (map_option fst r))"

definition nameiparent :: "byte list \<Rightarrow> ('a fs_state_scheme, (nat \<times> byte list) option) kop" where
  "nameiparent path = namex path True"

end
