(* ===== verification/File.thy ===== *)
theory File
  imports Fs
begin

unbundle bit_operations_syntax

text \<open>
  Open files (\<^verbatim>\<open>file.c\<close>) and pipes (\<^verbatim>\<open>pipe.c\<close>). A file is an index into \<^verbatim>\<open>ftable\<close>. A pipe lives in
  a page of its own; using it after the page was freed is a fault. A writer that has put some
  of its bytes and finds the buffer full sleeps in the middle of its loop.
\<close>

definition PIPESIZE :: nat where "PIPESIZE = 512"

definition upd_file :: "nat \<Rightarrow> (kfile \<Rightarrow> kfile) \<Rightarrow> 'a fs_state_scheme \<Rightarrow> 'a fs_state_scheme" where
  "upd_file f g s = s\<lparr>ftable := (ftable s)[f := g (ftable s ! f)]\<rparr>"

abbreviation kfil :: "nat \<Rightarrow> (kfile \<Rightarrow> kfile) \<Rightarrow> ('a fs_state_scheme, unit) kop" where
  "kfil f g \<equiv> kmod (upd_file f g)"

definition file_of :: "nat \<Rightarrow> ('a fs_state_scheme, kfile) kop" where
  "file_of f = kget (\<lambda>s. ftable s ! f)"

section \<open>Pipes (\<^verbatim>\<open>pipe.c\<close>)\<close>

definition pipe_of :: "addr \<Rightarrow> ('a fs_state_scheme, pipe) kop" where
  "pipe_of p = (\<lambda>s. case pipes s p of None \<Rightarrow> Fault | Some q \<Rightarrow> Done q s)"

definition kpipe :: "addr \<Rightarrow> (pipe \<Rightarrow> pipe) \<Rightarrow> ('a fs_state_scheme, unit) kop" where
  "kpipe p f = kmod (\<lambda>s. s\<lparr>pipes := (pipes s)(p := map_option f (pipes s p))\<rparr>)"

definition pipe_full :: "pipe \<Rightarrow> bool" where
  "pipe_full q \<longleftrightarrow> pi_nwrite q = pi_nread q + of_nat PIPESIZE"

definition pipe_empty :: "pipe \<Rightarrow> bool" where
  "pipe_empty q \<longleftrightarrow> pi_nread q = pi_nwrite q"

text \<open>\<^verbatim>\<open>p->data[p->nwrite++ % PIPESIZE] = b\<close> and \<^verbatim>\<open>p->data[p->nread++ % PIPESIZE]\<close>.\<close>

definition pipe_put :: "byte \<Rightarrow> pipe \<Rightarrow> pipe" where
  "pipe_put b q = q\<lparr>pi_data := (pi_data q)[unat (pi_nwrite q) mod PIPESIZE := b],
                    pi_nwrite := pi_nwrite q + 1\<rparr>"

definition pipe_next :: "pipe \<Rightarrow> byte" where
  "pipe_next q = pi_data q ! (unat (pi_nread q) mod PIPESIZE)"

definition pipe_advance :: "pipe \<Rightarrow> pipe" where
  "pipe_advance q = q\<lparr>pi_nread := pi_nread q + 1\<rparr>"

definition pipeclose :: "addr \<Rightarrow> bool \<Rightarrow> ('a fs_state_scheme, unit) kop" where
  "pipeclose p writable =
     kseq (pipe_of p)
    (kseq (if writable
           then kseq (kpipe p (\<lambda>q. q\<lparr>pi_writeopen := False\<rparr>)) (wakeup (ChPipeRead p))
           else kseq (kpipe p (\<lambda>q. q\<lparr>pi_readopen := False\<rparr>)) (wakeup (ChPipeWrite p)))
    (kbind (pipe_of p) (\<lambda>q.
       kwhen (\<not> pi_readopen q \<and> \<not> pi_writeopen q)
         (kseq (kfree p) (kmod (\<lambda>s. s\<lparr>pipes := (pipes s)(p := None)\<rparr>))))))"

text \<open>
  \<^verbatim>\<open>pipewrite\<close> from index \<open>i\<close> of the buffer on: it copies bytes until all are copied or the pipe is full
  (\<open>pipewrite_fill\<close>, with \<open>k\<close> bytes left, returns the index it has reached). With the pipe full it gives up or goes to
  sleep; when it is woken up it goes on at the index it has reached.
\<close>

primrec pipewrite_fill :: "nat \<Rightarrow> addr \<Rightarrow> addr \<Rightarrow> nat \<Rightarrow> ('a fs_state_scheme, nat) kop" where
  "pipewrite_fill 0 p uaddr i = kret i"
| "pipewrite_fill (Suc k) p uaddr i =
     kbind (pipe_of p) (\<lambda>q.
       if pipe_full q then kret i
       else
         kbind (uload (uaddr + of_nat i) 1) (\<lambda>bs.
         kseq (kpipe p (pipe_put (hd bs)))
              (pipewrite_fill k p uaddr (Suc i))))"

definition pipewrite_from :: "addr \<Rightarrow> addr \<Rightarrow> int \<Rightarrow> nat \<Rightarrow> ('a fs_state_scheme, int) kop" where
  "pipewrite_from p uaddr n i =
     kbind (pipewrite_fill (nat n - i) p uaddr i) (\<lambda>i.
       if n \<le> int i then kseq (wakeup (ChPipeRead p)) (kret n)
       else
         kbind (pipe_of p) (\<lambda>q. kbind curproc (\<lambda>c. kbind (pget c p_killed) (\<lambda>kl.
           if \<not> pi_readopen q \<or> kl \<noteq> 0 then kret (-1)
           else kseq (wakeup (ChPipeRead p)) (ksleep (ChPipeWrite p))))))"

definition pipewrite :: "addr \<Rightarrow> addr \<Rightarrow> int \<Rightarrow> ('a fs_state_scheme, int) kop" where
  "pipewrite p uaddr n = pipewrite_from p uaddr n 0"

text \<open>The reader's copy loop: it stops when the pipe is empty and returns the count.\<close>

primrec piperead_loop :: "nat \<Rightarrow> addr \<Rightarrow> addr \<Rightarrow> nat \<Rightarrow> ('a fs_state_scheme, nat) kop" where
  "piperead_loop 0 p uaddr i = kret i"
| "piperead_loop (Suc k) p uaddr i =
     kbind (pipe_of p) (\<lambda>q.
       if pipe_empty q then kret i
       else kseq (kpipe p pipe_advance)
           (kseq (ustore (uaddr + of_nat i) [pipe_next q])
                 (piperead_loop k p uaddr (Suc i))))"

definition piperead :: "addr \<Rightarrow> addr \<Rightarrow> int \<Rightarrow> ('a fs_state_scheme, int) kop" where
  "piperead p uaddr n =
     kbind (pipe_of p) (\<lambda>q.
       if pipe_empty q \<and> pi_writeopen q then
         kbind curproc (\<lambda>c. kbind (pget c p_killed) (\<lambda>kl.
           if kl \<noteq> 0 then kret (-1) else ksleep (ChPipeRead p)))
       else
         kbind (piperead_loop (nat n) p uaddr 0) (\<lambda>i.
         kseq (wakeup (ChPipeWrite p)) (kret (int i))))"

section \<open>Open files (\<^verbatim>\<open>file.c\<close>)\<close>

definition filealloc :: "('a fs_state_scheme, nat option) kop" where
  "filealloc =
     kbind (kget (\<lambda>s. find_from (\<lambda>f. f_ref (ftable s ! f) = 0) 0 NFILE)) (\<lambda>r. case r of
       None \<Rightarrow> kret None
     | Some f \<Rightarrow> kseq (kfil f (\<lambda>x. x\<lparr>f_ref := 1\<rparr>)) (kret (Some f)))"

definition filedup :: "nat \<Rightarrow> ('a fs_state_scheme, nat) kop" where
  "filedup f =
     kbind (file_of f) (\<lambda>x.
       if f_ref x < 1 then kpanic ''filedup''
       else kseq (kfil f (\<lambda>x. x\<lparr>f_ref := f_ref x + 1\<rparr>)) (kret f))"

definition fileclose :: "nat \<Rightarrow> ('a fs_state_scheme, unit) kop" where
  "fileclose f =
     kbind (file_of f) (\<lambda>x.
       if f_ref x < 1 then kpanic ''fileclose''
       else
         kseq (kfil f (\<lambda>x. x\<lparr>f_ref := f_ref x - 1\<rparr>))
        (if f_ref x - 1 > 0 then kret ()
         else
           kseq (kfil f (\<lambda>x. x\<lparr>f_ref := 0, f_type := FD_NONE\<rparr>))
          (case f_type x of
             FD_PIPE \<Rightarrow> pipeclose (f_pipe x) (f_writable x)
           | FD_INODE \<Rightarrow> kseq begin_op (kseq (iput (f_ip x)) end_op)
           | FD_NONE \<Rightarrow> kret ())))"

text \<open>\<^verbatim>\<open>pipealloc\<close> (\<^verbatim>\<open>pipe.c\<close>): the two ends, or nothing with everything given back.\<close>

definition pipealloc :: "('a fs_state_scheme, (nat \<times> nat) option) kop" where
  "pipealloc =
     kbind filealloc (\<lambda>r0. case r0 of
       None \<Rightarrow> kret None
     | Some f0 \<Rightarrow>
         kbind filealloc (\<lambda>r1. case r1 of
           None \<Rightarrow> kseq (fileclose f0) (kret None)
         | Some f1 \<Rightarrow>
             kbind kalloc (\<lambda>p.
               if p = 0 then kseq (fileclose f0) (kseq (fileclose f1) (kret None))
               else
                 kseq (kmod (\<lambda>s. s\<lparr>pipes := (pipes s)(p \<mapsto>
                         \<lparr>pi_data = mem_read (mem s) p PIPESIZE, pi_nread = 0, pi_nwrite = 0,
                          pi_readopen = True, pi_writeopen = True\<rparr>)\<rparr>))
                (kseq (kfil f0 (\<lambda>x. x\<lparr>f_type := FD_PIPE, f_readable := True, f_writable := False,
                         f_pipe := p\<rparr>))
                (kseq (kfil f1 (\<lambda>x. x\<lparr>f_type := FD_PIPE, f_readable := False, f_writable := True,
                         f_pipe := p\<rparr>))
                      (kret (Some (f0, f1))))))))"

definition filestat :: "nat \<Rightarrow> ('a fs_state_scheme, stat option) kop" where
  "filestat f =
     kbind (file_of f) (\<lambda>x.
       if f_type x = FD_INODE then
         kseq (ilock (f_ip x))
        (kbind (stati (f_ip x)) (\<lambda>st.
         kseq (iunlock (f_ip x)) (kret (Some st))))
       else kret None)"

text \<open>The file's bytes go to the caller's buffer before the offset moves.\<close>

definition fileread :: "nat \<Rightarrow> addr \<Rightarrow> int \<Rightarrow> ('a fs_state_scheme, int) kop" where
  "fileread f uaddr n =
     kbind (file_of f) (\<lambda>x.
       if \<not> f_readable x then kret (-1)
       else (case f_type x of
           FD_PIPE \<Rightarrow> piperead (f_pipe x) uaddr n
         | FD_INODE \<Rightarrow>
             kseq (ilock (f_ip x))
            (kbind (readi (f_ip x) (f_off x) (word_of_int n)) (\<lambda>(r, bs).
             kseq (ustore uaddr bs)
            (kseq (kwhen (r > 0) (kfil f (\<lambda>x. x\<lparr>f_off := f_off x + word_of_int r\<rparr>)))
            (kseq (iunlock (f_ip x)) (kret r)))))
         | FD_NONE \<Rightarrow> kpanic ''fileread''))"

text \<open>
  A write to a file is split into transactions that fit the log. Every round writes at least
  one byte or stops, so \<open>n\<close> bounds the rounds.
\<close>

definition filewrite_max :: int where
  "filewrite_max = ((int LOGSIZE - 1 - 1 - 2) div 2) * 512"

primrec filewrite_loop :: "nat \<Rightarrow> nat \<Rightarrow> addr \<Rightarrow> int \<Rightarrow> int \<Rightarrow> ('a fs_state_scheme, int) kop" where
  "filewrite_loop 0 f uaddr i n = (if i < n then kfault else kret i)"
| "filewrite_loop (Suc k) f uaddr i n =
     (if i < n then
        (let n1 = (if n - i > filewrite_max then filewrite_max else n - i) in
         kseq begin_op
        (kbind (file_of f) (\<lambda>x.
         kseq (ilock (f_ip x))
        (kbind (uload (uaddr + word_of_int i) (nat n1)) (\<lambda>bs.
         kbind (writei (f_ip x) bs (f_off x)) (\<lambda>r.
         kseq (kwhen (r > 0) (kfil f (\<lambda>x. x\<lparr>f_off := f_off x + word_of_int r\<rparr>)))
        (kseq (iunlock (f_ip x))
        (kseq end_op
          (if r < 0 then kret i
           else if r \<noteq> n1 then kpanic ''short filewrite''
           else filewrite_loop k f uaddr (i + r) n)))))))))
      else kret i)"

definition filewrite :: "nat \<Rightarrow> addr \<Rightarrow> int \<Rightarrow> ('a fs_state_scheme, int) kop" where
  "filewrite f uaddr n =
     kbind (file_of f) (\<lambda>x.
       if \<not> f_writable x then kret (-1)
       else (case f_type x of
           FD_PIPE \<Rightarrow> pipewrite (f_pipe x) uaddr n
         | FD_INODE \<Rightarrow>
             kbind (filewrite_loop (nat n) f uaddr 0 n) (\<lambda>i.
               kret (if i = n then n else -1))
         | FD_NONE \<Rightarrow> kpanic ''filewrite''))"

end
