(* ===== verification/Process.thy ===== *)
theory Process
  imports File
begin

unbundle bit_operations_syntax

text \<open>
  Processes and threads (\<^verbatim>\<open>process.c\<close>): allocating a slot of the process table, growing the
  address space, forking, exiting, killing, waiting, creating and joining threads, the start
  of the first process, and the saved trap frames of the dynamic restart calls.
\<close>

definition P_NAMESZ :: nat where "P_NAMESZ = 16"

definition chan_of :: "nat option \<Rightarrow> chan" where
  "chan_of p = (case p of None \<Rightarrow> NoChan | Some i \<Rightarrow> ChProc i)"

text \<open>\<^verbatim>\<open>safestrcpy(np->p_name, src, sizeof(p_name))\<close>.\<close>

definition set_name :: "byte list \<Rightarrow> proc \<Rightarrow> proc" where
  "set_name src p = p\<lparr>p_name := splice (p_name p) 0 (safestrcpy src (int P_NAMESZ))\<rparr>"

text \<open>A free slot goes back to the tail of the queue of empty slots.\<close>

definition give_slot :: "nat \<Rightarrow> ('a proc_state_scheme, unit) kop" where
  "give_slot p = kbind (new_entry p) (\<lambda>e. kmod (\<lambda>s. s\<lparr>esqueue := lq_insert_tail e (esqueue s)\<rparr>))"

section \<open>Allocating a process\<close>

definition zero_context :: kcontext where
  "zero_context = \<lparr>cx_edi = 0, cx_esi = 0, cx_ebx = 0, cx_ebp = 0, cx_eip = AtZero\<rparr>"

text \<open>
  \<^verbatim>\<open>procalloc\<close>. The trap frame lies on the fresh kernel stack and is not initialised; the old
  value stands for its unknown contents. Every caller overwrites it.
\<close>

definition procalloc :: "('a proc_state_scheme, nat option) kop" where
  "procalloc =
     kbind (kget esqueue) (\<lambda>q. case q of
       [] \<Rightarrow> kret None
     | ee # _ \<Rightarrow>
         (let p = slotptr ee in
          kseq (kmod (\<lambda>s. s\<lparr>esqueue := lq_remove ee (esqueue s)\<rparr>))
         (kseq (free_slab (se_slab ee))
         (kseq (kmod (\<lambda>s. upd_proc p (\<lambda>x. x\<lparr>p_stat := SEMBRYO, p_pid := nextpid s, p_nice := 0,
                  p_spri := STATIC_PRI 0, p_creatime := sint (ticks s), p_avgslp := 0\<rparr>)
                  (s\<lparr>nextpid := nextpid s + 1\<rparr>)))
         (kseq (sched_timeslice p)
         (kseq (kproc p (\<lambda>x. x\<lparr>p_dpri := DYNAMIC_PRI (p_spri x) (BONUS (p_avgslp x))\<rparr>))
         (kbind kalloc (\<lambda>ks.
          kseq (kproc p (\<lambda>x. x\<lparr>p_kstack := ks\<rparr>))
         (if ks = 0 then
            kseq (kproc p (\<lambda>x. x\<lparr>p_stat := SUNUSED\<rparr>)) (kret None)
          else
            kseq (kproc p (\<lambda>x. x\<lparr>p_ctxt := zero_context\<rparr>)) (kret (Some p)))))))))))"

definition procgrow :: "int \<Rightarrow> ('a proc_state_scheme, int) kop" where
  "procgrow n =
     kbind curproc (\<lambda>c. kbind (pget c id) (\<lambda>p.
     (let sz = p_size p; fin = (\<lambda>sz. kseq (kproc c (\<lambda>x. x\<lparr>p_size := sz\<rparr>)) (kseq (switchuvm c) (kret 0)))
      in if n > 0 then
           kbind (allocuvm (p_page p) sz (sz + word_of_int n)) (\<lambda>sz'.
             if sz' = 0 then kret (-1) else fin sz')
         else if n < 0 then
           kbind (deallocuvm (p_page p) sz (sz + word_of_int n) (word_of_int (p_pid p))) (\<lambda>sz'.
             if sz' = 0 then kret (-1) else fin sz')
         else fin sz)))"

section \<open>Forking\<close>

text \<open>Duplicating the open files and the current directory into a new process.\<close>

definition dup_file :: "nat \<Rightarrow> nat \<Rightarrow> nat \<Rightarrow> ('a fs_state_scheme, unit) kop" where
  "dup_file c np i =
     kbind (pget c (\<lambda>p. p_of p ! i)) (\<lambda>f. case f of
       None \<Rightarrow> kret ()
     | Some f \<Rightarrow> kbind (filedup f) (\<lambda>g.
         kproc np (\<lambda>x. x\<lparr>p_of := (p_of x)[i := Some g]\<rparr>)))"

definition dup_cdir :: "nat \<Rightarrow> nat \<Rightarrow> ('a fs_state_scheme, unit) kop" where
  "dup_cdir c np =
     kbind (pget c p_cdir) (\<lambda>d. case d of
       None \<Rightarrow> kfault
     | Some ip \<Rightarrow> kbind (idup ip) (\<lambda>ip. kproc np (\<lambda>x. x\<lparr>p_cdir := Some ip\<rparr>)))"

text \<open>What \<^verbatim>\<open>fork\<close> and \<^verbatim>\<open>lwp_create\<close> do last: files, directory, name, ready to run.\<close>

definition launch :: "nat \<Rightarrow> nat \<Rightarrow> int \<Rightarrow> ('a fs_state_scheme, int) kop" where
  "launch c np procp =
     kseq (kfor [0..<P_NOFILE] (dup_file c np))
    (kseq (dup_cdir c np)
    (kbind (pget c p_name) (\<lambda>nm.
     kseq (kproc np (set_name nm))
    (kbind (pget np p_pid) (\<lambda>pid.
     kseq (kproc np (\<lambda>x. x\<lparr>p_procp := procp\<rparr>))
    (kseq (kproc np (\<lambda>x. x\<lparr>p_stat := READY\<rparr>))
    (kseq (sched_enqueue np)
          (kret pid))))))))"

definition fork :: "('a fs_state_scheme, int) kop" where
  "fork =
     kbind procalloc (\<lambda>r. case r of
       None \<Rightarrow> kret (-1)
     | Some np \<Rightarrow>
         kbind curproc (\<lambda>c. kbind (pget c id) (\<lambda>p. kbind (pget np p_pid) (\<lambda>npid.
         kbind (copyuvm (p_page p) (p_size p) (word_of_int npid)) (\<lambda>pg.
         kseq (kproc np (\<lambda>x. x\<lparr>p_page := pg\<rparr>))
        (if pg = 0 then
           kbind (pget np p_kstack) (\<lambda>ks.
           kseq (kfree ks)
          (kseq (kproc np (\<lambda>x. x\<lparr>p_kstack := 0\<rparr>))
          (kseq (kproc np (\<lambda>x. x\<lparr>p_stat := SUNUSED\<rparr>))
          (kseq (give_slot np) (kret (-1))))))
         else
           kseq (kproc np (\<lambda>x. x\<lparr>p_size := p_size p, p_prt := Some c,
                    p_tf := (p_tf p)\<lparr>tf_eax := 0\<rparr>,
                    p_ctxt := (p_ctxt x)\<lparr>cx_eip := AtForkret\<rparr>\<rparr>))
                (launch c np 1)))))))"

section \<open>Exit and kill\<close>

definition close_fd :: "nat \<Rightarrow> nat \<Rightarrow> ('a fs_state_scheme, unit) kop" where
  "close_fd c fd =
     kbind (pget c (\<lambda>p. p_of p ! fd)) (\<lambda>f. case f of
       None \<Rightarrow> kret ()
     | Some f \<Rightarrow> kseq (fileclose f) (kproc c (\<lambda>x. x\<lparr>p_of := (p_of x)[fd := None]\<rparr>)))"

definition reparent :: "nat \<Rightarrow> nat \<Rightarrow> ('a fs_state_scheme, unit) kop" where
  "reparent c i =
     kbind (pget i id) (\<lambda>p. kbind (kget initproc) (\<lambda>ini.
       kwhen (p_prt p = Some c)
         (kseq (kproc i (\<lambda>x. x\<lparr>p_prt := ini\<rparr>))
               (kwhen (p_stat p = SZOMB) (wakeup (chan_of ini))))))"

text \<open>\<^verbatim>\<open>exit\<close> ends in the scheduler: the result is the state after the scheduler's round.\<close>

definition exit :: "('a fs_state_scheme, unit) kop" where
  "exit =
     kbind curproc (\<lambda>c. kbind (kget initproc) (\<lambda>ini.
       if ini = Some c then kpanic ''init exiting''
       else
         kseq (kfor [0..<P_NOFILE] (close_fd c))
        (kseq begin_op
        (kbind (pget c p_cdir) (\<lambda>d. case d of
           None \<Rightarrow> kfault
         | Some ip \<Rightarrow>
             kseq (iput ip)
            (kseq end_op
            (kseq (kproc c (\<lambda>x. x\<lparr>p_cdir := None\<rparr>))
            (kbind (pget c p_prt) (\<lambda>prt.
             kseq (wakeup (chan_of prt))
            (kseq (kfor [0..<NPROC] (reparent c))
            (kseq (kproc c (\<lambda>x. x\<lparr>p_stat := SZOMB\<rparr>))
                  transform)))))))))))"

definition kill :: "int \<Rightarrow> ('a proc_state_scheme, int) kop" where
  "kill pid =
     kbind (kget (\<lambda>s. find_from (\<lambda>i. p_pid (pof s i) = pid) 0 NPROC)) (\<lambda>r. case r of
       None \<Rightarrow> kret (-1)
     | Some i \<Rightarrow>
         kseq (kproc i (\<lambda>p. p\<lparr>p_killed := 1\<rparr>))
        (kbind (pget i p_stat) (\<lambda>st.
         kseq (kwhen (st = SSLEEPING) (kproc i (\<lambda>p. p\<lparr>p_stat := READY\<rparr>)))
              (kret 0))))"

text \<open>
  The first process to return from its first switch initialises the file system; the flag is
  the static variable \<^verbatim>\<open>firstproc\<close>, returned updated.
\<close>

definition forkret :: "bool \<Rightarrow> ('a fs_state_scheme, bool) kop" where
  "forkret firstproc =
     (if firstproc then kseq (iinit ROOTDEV) (kseq (initlog 1) (kret False)) else kret False)"

section \<open>Waiting\<close>

definition wait :: "('a fs_state_scheme, int) kop" where
  "wait =
     kbind curproc (\<lambda>c.
     kbind (kget (\<lambda>s. find_from (\<lambda>i. p_prt (pof s i) = Some c \<and> p_stat (pof s i) = SZOMB) 0 NPROC))
       (\<lambda>r. case r of
         Some i \<Rightarrow>
           kbind (pget i id) (\<lambda>p.
           kseq (kfree (p_kstack p))
          (kseq (kproc i (\<lambda>x. x\<lparr>p_kstack := 0\<rparr>))
          (kseq (freeuvm (p_page p) (word_of_int (p_pid p)))
          (kseq (kproc i (\<lambda>x. x\<lparr>p_pid := 0, p_prt := None, p_name := (p_name x)[0 := 0],
                   p_killed := 0, p_stat := SUNUSED\<rparr>))
          (kseq (give_slot i)
                (kret (p_pid p)))))))
       | None \<Rightarrow>
           kbind (kget (\<lambda>s. find_from (\<lambda>i. p_prt (pof s i) = Some c) 0 NPROC)) (\<lambda>kid.
           kbind (pget c p_killed) (\<lambda>kl.
             if kid = None \<or> kl \<noteq> 0 then kret (-1) else ksleep (ChProc c)))))"

section \<open>Threads\<close>

text \<open>
  \<^verbatim>\<open>lwp_create\<close>: the thread shares the page table; its stack gets the argument and a fake
  return address, written through the calling process's user addresses.
\<close>

definition lwp_create :: "u32 \<Rightarrow> u32 \<Rightarrow> u32 \<Rightarrow> u32 \<Rightarrow> ('a fs_state_scheme, int) kop" where
  "lwp_create task arg stack stksz =
     kbind procalloc (\<lambda>r. case r of
       None \<Rightarrow> kret (-1)
     | Some lwp \<Rightarrow>
         kbind curproc (\<lambda>c. kbind (pget c id) (\<lambda>p.
         kseq (kproc lwp (\<lambda>x. x\<lparr>p_page := p_page p, p_size := p_size p\<rparr>))
        (if p_page p = 0 then kret (-1)
         else
           (let esp = stack + stksz - 4 in
            kseq (kproc lwp (\<lambda>x. x\<lparr>p_prt := (if p_procp p \<noteq> 0 then Some c else p_prt p),
                     p_tf := (p_tf p)\<lparr>tf_eax := 0, tf_eip := task, tf_esp := esp\<rparr>,
                     p_ctxt := (p_ctxt x)\<lparr>cx_eip := AtForkret\<rparr>,
                     p_stack := stack\<rparr>))
           (kseq (ustore32 esp arg)
           (kseq (ustore32 (esp - 4) 0xFFFFFFFF)
           (kseq (kproc lwp (\<lambda>x. x\<lparr>p_tf := (p_tf x)\<lparr>tf_esp := esp - 4\<rparr>\<rparr>))
                 (launch c lwp 0)))))))))"

definition lwp_join :: "addr \<Rightarrow> ('a fs_state_scheme, int) kop" where
  "lwp_join ustack =
     kbind curproc (\<lambda>c.
     kbind (kget (\<lambda>s. find_from (\<lambda>i. p_prt (pof s i) = Some c \<and> p_procp (pof s i) = 0 \<and>
                                      p_stat (pof s i) = SZOMB) 0 NPROC)) (\<lambda>r. case r of
         Some i \<Rightarrow>
           kbind (pget i id) (\<lambda>p.
           kseq (kfree (p_kstack p))
          (kseq (kproc i (\<lambda>x. x\<lparr>p_kstack := 0, p_stat := SUNUSED, p_pid := 0, p_prt := None,
                   p_name := (p_name x)[0 := 0], p_killed := 0\<rparr>))
          (kseq (ustore32 ustack (p_stack p))
          (kseq (give_slot i)
                (kret (p_pid p))))))
       | None \<Rightarrow>
           kbind (kget (\<lambda>s. find_from (\<lambda>i. p_prt (pof s i) = Some c \<and> p_procp (pof s i) = 0) 0 NPROC))
             (\<lambda>kid. kbind (pget c p_killed) (\<lambda>kl.
               if kid = None \<or> kl \<noteq> 0 then kret (-1) else ksleep (ChProc c)))))"

section \<open>The first process\<close>

definition user_tf :: trapframe where
  "user_tf = \<lparr>tf_edi = 0, tf_esi = 0, tf_ebp = 0, tf_oesp = 0, tf_ebx = 0, tf_edx = 0, tf_ecx = 0,
     tf_eax = 0, tf_gs = 0, tf_fs = 0, tf_es = 0x2B, tf_ds = 0x2B, tf_trapno = 0, tf_err = 0,
     tf_eip = 0, tf_cs = 0x23, tf_eflags = 0x200, tf_esp = PGSIZE, tf_ss = 0x2B\<rparr>"

text \<open>\<^verbatim>\<open>userinit\<close>; the bytes of the program \<^verbatim>\<open>initcode\<close> are linked into the kernel.\<close>

definition userinit :: "byte list \<Rightarrow> ('a fs_state_scheme, unit) kop" where
  "userinit initcode =
     kbind procalloc (\<lambda>r.
     kseq (kmod (\<lambda>s. s\<lparr>initproc := r\<rparr>))
    (case r of
       None \<Rightarrow> kfault
     | Some p \<Rightarrow>
         kbind setupkvm (\<lambda>pg.
         kseq (kproc p (\<lambda>x. x\<lparr>p_page := pg\<rparr>))
        (if pg = 0 then kpanic ''userinit: setupkvm failed!''
         else
           kseq (inituvm pg initcode)
          (kseq (kproc p (\<lambda>x. x\<lparr>p_tf := user_tf, p_size := PGSIZE\<rparr>))
          (kseq (kproc p (set_name (map (\<lambda>c. of_nat (of_char c)) ''initcode'')))
          (kbind (namei [slash]) (\<lambda>d.
           kseq (kproc p (\<lambda>x. x\<lparr>p_cdir := d, p_procp := 1, p_stat := READY\<rparr>))
          (kseq (sched_enqueue p)
                (kproc p (\<lambda>x. x\<lparr>p_ctxt := (p_ctxt x)\<lparr>cx_eip := AtForkret\<rparr>\<rparr>)))))))))))"

section \<open>Saved trap frames\<close>

text \<open>
  The 76 bytes of a trap frame in memory. The half-words of padding beside the segment
  registers are stored as zero.
\<close>

definition encode_tf :: "trapframe \<Rightarrow> byte list" where
  "encode_tf t =
     bytes_of32 (tf_edi t) @ bytes_of32 (tf_esi t) @ bytes_of32 (tf_ebp t) @ bytes_of32 (tf_oesp t) @
     bytes_of32 (tf_ebx t) @ bytes_of32 (tf_edx t) @ bytes_of32 (tf_ecx t) @ bytes_of32 (tf_eax t) @
     bytes_of16 (tf_gs t) @ [0, 0] @ bytes_of16 (tf_fs t) @ [0, 0] @
     bytes_of16 (tf_es t) @ [0, 0] @ bytes_of16 (tf_ds t) @ [0, 0] @
     bytes_of32 (tf_trapno t) @ bytes_of32 (tf_err t) @ bytes_of32 (tf_eip t) @
     bytes_of16 (tf_cs t) @ [0, 0] @ bytes_of32 (tf_eflags t) @ bytes_of32 (tf_esp t) @
     bytes_of16 (tf_ss t) @ [0, 0]"

definition decode_tf :: "byte list \<Rightarrow> trapframe" where
  "decode_tf b = \<lparr>tf_edi = get32 b 0, tf_esi = get32 b 4, tf_ebp = get32 b 8, tf_oesp = get32 b 12,
     tf_ebx = get32 b 16, tf_edx = get32 b 20, tf_ecx = get32 b 24, tf_eax = get32 b 28,
     tf_gs = get16 b 32, tf_fs = get16 b 36, tf_es = get16 b 40, tf_ds = get16 b 44,
     tf_trapno = get32 b 48, tf_err = get32 b 52, tf_eip = get32 b 56, tf_cs = get16 b 60,
     tf_eflags = get32 b 64, tf_esp = get32 b 68, tf_ss = get16 b 72\<rparr>"

text \<open>The size is an \<^verbatim>\<open>int\<close> passed to an unsigned parameter.\<close>

definition dynamic_sstore :: "addr \<Rightarrow> addr \<Rightarrow> u32 \<Rightarrow> ('a proc_state_scheme, unit) kop" where
  "dynamic_sstore stack tf stksz =
     kbind curproc (\<lambda>c. kbind (pget c id) (\<lambda>p.
     kbind (uload (p_stack p) (unat stksz)) (\<lambda>bs.
     kseq (ustore stack bs)
          (ustore tf (encode_tf (p_tf p))))))"

definition dynamic_restart :: "addr \<Rightarrow> addr \<Rightarrow> u32 \<Rightarrow> ('a proc_state_scheme, unit) kop" where
  "dynamic_restart stack tf stksz =
     kbind curproc (\<lambda>c. kbind (pget c id) (\<lambda>p.
     kbind (uload stack (unat stksz)) (\<lambda>bs.
     kseq (ustore (p_stack p) bs)
    (kbind (uload tf 76) (\<lambda>t.
           kproc c (\<lambda>x. x\<lparr>p_tf := decode_tf t\<rparr>))))))"

end
