(* ===== verification/Exec.thy ===== *)
theory Exec
  imports Process
begin

unbundle bit_operations_syntax

text \<open>
  Replacing the image of a process (\<^verbatim>\<open>exec.c\<close>, \<^verbatim>\<open>loaduvm\<close> of \<^verbatim>\<open>vm.c\<close>, the formats of \<^verbatim>\<open>elf.h\<close>).
  The argument strings are given by their bytes.
\<close>

definition MAXARG :: nat where "MAXARG = 32"
definition ELF_MAGIC :: u32 where "ELF_MAGIC = 0x464C457F"
definition ELF_PROG_LOAD :: u32 where "ELF_PROG_LOAD = 1"

record elfhdr =
  elf_magic :: u32
  elf_entry :: u32
  elf_phoff :: u32
  elf_phnum :: u16

definition decode_elf :: "byte list \<Rightarrow> elfhdr" where
  "decode_elf b = \<lparr>elf_magic = get32 b 0, elf_entry = get32 b 24, elf_phoff = get32 b 28,
     elf_phnum = get16 b 44\<rparr>"

record proghdr =
  ph_type :: u32
  ph_off :: u32
  ph_vaddr :: u32
  ph_paddr :: u32
  ph_filesz :: u32
  ph_memsz :: u32

definition decode_ph :: "byte list \<Rightarrow> proghdr" where
  "decode_ph b = \<lparr>ph_type = get32 b 0, ph_off = get32 b 4, ph_vaddr = get32 b 8, ph_paddr = get32 b 12,
     ph_filesz = get32 b 16, ph_memsz = get32 b 20\<rparr>"

text \<open>Loading a segment page by page; a round per page, so the pages of the address space bound it.\<close>

primrec loaduvm_loop ::
    "nat \<Rightarrow> addr \<Rightarrow> addr \<Rightarrow> nat \<Rightarrow> u32 \<Rightarrow> u32 \<Rightarrow> u32 \<Rightarrow> ('a fs_state_scheme, int) kop" where
  "loaduvm_loop 0 pgdir va ip offset sz i = (if i < sz then kfault else kret 0)"
| "loaduvm_loop (Suc k) pgdir va ip offset sz i =
     (if i < sz then
        kbind (walkpgdir pgdir (va + i) False) (\<lambda>pte.
          if pte = 0 then kpanic ''loaduvm: non-exist address''
          else
            kbind (kget (\<lambda>s. PTE_ADDR (ld32 (mem s) pte))) (\<lambda>pa.
              (let n = (if sz - i < PGSIZE then sz - i else PGSIZE) in
               kbind (readi ip (offset + i) n) (\<lambda>(r, bs).
               kseq (kmod (\<lambda>s. set_mem (mem_write (mem s) (P2V pa) bs) s))
                    (if word_of_int r \<noteq> n then kret (-1)
                     else loaduvm_loop k pgdir va ip offset sz (i + PGSIZE))))))
      else kret 0)"

definition loaduvm :: "addr \<Rightarrow> addr \<Rightarrow> nat \<Rightarrow> u32 \<Rightarrow> u32 \<Rightarrow> ('a fs_state_scheme, int) kop" where
  "loaduvm pgdir va ip offset sz =
     (if unat va mod 4096 \<noteq> 0 then kpanic ''loaduvm: start addr must be page alligned''
      else loaduvm_loop (2 ^ 20) pgdir va ip offset sz 0)"

text \<open>The loop over the program headers, \<open>k\<close> left: the size of the image, \<open>None\<close> for \<^verbatim>\<open>goto bad\<close>.\<close>

primrec exec_load :: "nat \<Rightarrow> addr \<Rightarrow> nat \<Rightarrow> u32 \<Rightarrow> u32 \<Rightarrow> ('a fs_state_scheme, u32 option) kop" where
  "exec_load 0 pg ip off sz = kret (Some sz)"
| "exec_load (Suc k) pg ip off sz =
     kbind (readi ip off 32) (\<lambda>(r, bs).
       if r \<noteq> 32 then kret None
       else
         (let ph = decode_ph bs in
          if ph_type ph \<noteq> ELF_PROG_LOAD then exec_load k pg ip (off + 32) sz
          else if ph_memsz ph < ph_filesz ph then kret None
          else if ph_vaddr ph + ph_memsz ph < ph_vaddr ph then kret None
          else
            kbind (allocuvm pg sz (ph_vaddr ph + ph_memsz ph)) (\<lambda>sz'.
              if sz' = 0 then kret None
              else if unat (ph_vaddr ph) mod 4096 \<noteq> 0 then kret None
              else
                kbind (loaduvm pg (ph_vaddr ph) ip (ph_off ph) (ph_filesz ph)) (\<lambda>l.
                  if l < 0 then kret None else exec_load k pg ip (off + 32) sz'))))"

text \<open>Pushing the argument strings: the stack pointer and the saved pointers.\<close>

primrec exec_args ::
    "byte list list \<Rightarrow> addr \<Rightarrow> nat \<Rightarrow> u32 \<Rightarrow> u32 list \<Rightarrow> ('a fs_state_scheme, (u32 \<times> u32 list) option) kop" where
  "exec_args [] pg argc sp ptrs = kret (Some (sp, ptrs))"
| "exec_args (a # as) pg argc sp ptrs =
     (if argc \<ge> MAXARG then kret None
      else
        (let sp' = (sp - (of_nat (length a) + 1)) AND NOT 3 in
         kbind (copyout pg sp' (a @ [0])) (\<lambda>r.
           if r < 0 then kret None else exec_args as pg (Suc argc) sp' (ptrs @ [sp']))))"

definition exec_ustack :: "u32 \<Rightarrow> u32 list \<Rightarrow> u32 list" where
  "exec_ustack sp ptrs =
     [0xffffffff, of_nat (length ptrs), sp - (of_nat (length ptrs) + 1) * 4] @ ptrs @ [0]"

definition basename :: "byte list \<Rightarrow> byte list" where
  "basename path = rev (takeWhile (\<lambda>c. c \<noteq> slash) (rev path))"

definition exec_bad :: "addr \<Rightarrow> nat option \<Rightarrow> ('a fs_state_scheme, int) kop" where
  "exec_bad pg ip =
     kbind curproc (\<lambda>c. kbind (pget c p_pid) (\<lambda>pid.
     kseq (kwhen (pg \<noteq> 0) (freeuvm pg (word_of_int pid)))
    (kseq (case ip of None \<Rightarrow> kret () | Some ip \<Rightarrow> kseq (iunlockput ip) end_op)
          (kret (-1)))))"

text \<open>The second half of \<^verbatim>\<open>exec\<close>: stack, arguments, and the switch to the new image.\<close>

definition exec_image ::
    "byte list \<Rightarrow> byte list list \<Rightarrow> elfhdr \<Rightarrow> addr \<Rightarrow> u32 \<Rightarrow> ('a fs_state_scheme, int) kop" where
  "exec_image path argv elf pg sz =
     (let sz = PGROUNDUP sz in
      kbind (allocuvm pg sz (sz + 2 * PGSIZE)) (\<lambda>sz.
        if sz = 0 then exec_bad pg None
        else
          kseq (clearpteu pg (sz - 2 * PGSIZE))
         (kbind (exec_args argv pg 0 sz []) (\<lambda>r. case r of
            None \<Rightarrow> exec_bad pg None
          | Some (sp, ptrs) \<Rightarrow>
              (let sp' = sp - (3 + of_nat (length ptrs) + 1) * 4 in
               kbind (copyout pg sp' (concat (map bytes_of32 (exec_ustack sp ptrs)))) (\<lambda>r.
                 if r < 0 then exec_bad pg None
                 else
                   kbind curproc (\<lambda>c.
                   kseq (kproc c (set_name (basename path)))
                  (kbind (pget c id) (\<lambda>old.
                   kseq (kproc c (\<lambda>x. x\<lparr>p_page := pg, p_size := sz,
                            p_tf := (p_tf x)\<lparr>tf_eip := elf_entry elf, tf_esp := sp'\<rparr>\<rparr>))
                  (kseq (switchuvm c)
                  (kseq (freeuvm (p_page old) (word_of_int (p_pid old)))
                        (kret 0))))))))))))"

definition exec :: "byte list \<Rightarrow> byte list list \<Rightarrow> ('a fs_state_scheme, int) kop" where
  "exec path argv =
     kseq begin_op
    (kbind (namei path) (\<lambda>r. case r of
       None \<Rightarrow> kseq end_op (kret (-1))
     | Some ip \<Rightarrow>
         kseq (ilock ip)
        (kbind (readi ip 0 52) (\<lambda>(n, bs).
           if n \<noteq> 52 then exec_bad 0 (Some ip)
           else
             (let elf = decode_elf bs in
              if elf_magic elf \<noteq> ELF_MAGIC then exec_bad 0 (Some ip)
              else
                kbind setupkvm (\<lambda>pg.
                  if pg = 0 then exec_bad 0 (Some ip)
                  else
                    kbind (exec_load (unat (elf_phnum elf)) pg ip (elf_phoff elf) 0) (\<lambda>r. case r of
                      None \<Rightarrow> exec_bad pg (Some ip)
                    | Some sz \<Rightarrow>
                        kseq (iunlockput ip)
                       (kseq end_op
                             (exec_image path argv elf pg sz)))))))))"

end
