(* ===== verification/Syscall.thy ===== *)
theory Syscall
  imports Exec
begin

unbundle bit_operations_syntax

text \<open>
  System calls: fetching the arguments from the user stack (\<^verbatim>\<open>syscall.c\<close>) and the calls on files
  (\<^verbatim>\<open>sysfile.c\<close>). The kernel runs on the caller's page table and follows user pointers
  directly; a string argument is represented by its bytes.
\<close>

section \<open>Arguments (\<^verbatim>\<open>syscall.c\<close>)\<close>

definition fetchint :: "u32 \<Rightarrow> ('a proc_state_scheme, u32 option) kop" where
  "fetchint a =
     kbind curproc (\<lambda>c. kbind (pget c p_size) (\<lambda>sz.
       if a \<ge> sz \<or> a + 4 > sz then kret None
       else kbind (uload32 a) (\<lambda>v. kret (Some v))))"

text \<open>The scan for the terminating NUL, up to the end of the process; \<open>k\<close> bytes are left.\<close>

primrec fetchstr_loop :: "nat \<Rightarrow> u32 \<Rightarrow> byte list \<Rightarrow> ('a proc_state_scheme, byte list option) kop" where
  "fetchstr_loop 0 a acc = kret None"
| "fetchstr_loop (Suc k) a acc =
     kbind (uload a 1) (\<lambda>bs.
       if hd bs = 0 then kret (Some acc) else fetchstr_loop k (a + 1) (acc @ [hd bs]))"

definition fetchstr :: "u32 \<Rightarrow> ('a proc_state_scheme, byte list option) kop" where
  "fetchstr a =
     kbind curproc (\<lambda>c. kbind (pget c p_size) (\<lambda>sz.
       if a \<ge> sz then kret None else fetchstr_loop (unat (sz - a)) a []))"

definition argint :: "nat \<Rightarrow> ('a proc_state_scheme, u32 option) kop" where
  "argint n =
     kbind curproc (\<lambda>c. kbind (pget c (\<lambda>p. tf_esp (p_tf p))) (\<lambda>esp.
       fetchint (esp + 4 + 4 * of_nat n)))"

text \<open>A pointer to \<open>len\<close> bytes; the length is an \<^verbatim>\<open>int\<close>, the sum with the pointer is unsigned.\<close>

definition argptr :: "nat \<Rightarrow> int \<Rightarrow> ('a proc_state_scheme, addr option) kop" where
  "argptr n len =
     kbind (argint n) (\<lambda>r. case r of
       None \<Rightarrow> kret None
     | Some i \<Rightarrow>
         kbind curproc (\<lambda>c. kbind (pget c p_size) (\<lambda>sz.
           if len < 0 \<or> i \<ge> sz \<or> i + word_of_int len > sz then kret None
           else kret (Some i))))"

definition argstr :: "nat \<Rightarrow> ('a proc_state_scheme, byte list option) kop" where
  "argstr n =
     kbind (argint n) (\<lambda>r. case r of None \<Rightarrow> kret None | Some a \<Rightarrow> fetchstr a)"

text \<open>\<^verbatim>\<open>if (arg(...) < 0) return -1;\<close>\<close>

definition orfail :: "('s, 'v option) kop \<Rightarrow> ('v \<Rightarrow> ('s, int) kop) \<Rightarrow> ('s, int) kop" where
  "orfail m f = kbind m (\<lambda>r. case r of None \<Rightarrow> kret (-1) | Some v \<Rightarrow> f v)"

section \<open>File descriptors (\<^verbatim>\<open>sysfile.c\<close>)\<close>

definition argfd :: "nat \<Rightarrow> ('a proc_state_scheme, (nat \<times> nat) option) kop" where
  "argfd n =
     kbind (argint n) (\<lambda>r. case r of
       None \<Rightarrow> kret None
     | Some v \<Rightarrow>
         if sint v < 0 \<or> sint v \<ge> int P_NOFILE then kret None
         else kbind curproc (\<lambda>c. kbind (pget c (\<lambda>p. p_of p ! nat (sint v))) (\<lambda>f. case f of
           None \<Rightarrow> kret None
         | Some f \<Rightarrow> kret (Some (nat (sint v), f)))))"

definition fdalloc :: "nat \<Rightarrow> ('a proc_state_scheme, nat option) kop" where
  "fdalloc f =
     kbind curproc (\<lambda>c. kbind (pget c p_of) (\<lambda>ofs.
       case find_from (\<lambda>fd. ofs ! fd = None) 0 P_NOFILE of
         None \<Rightarrow> kret None
       | Some fd \<Rightarrow> kseq (kproc c (\<lambda>p. p\<lparr>p_of := (p_of p)[fd := Some f]\<rparr>)) (kret (Some fd))))"

definition sys_dup :: "('a fs_state_scheme, int) kop" where
  "sys_dup =
     orfail (argfd 0) (\<lambda>(_, f).
     orfail (fdalloc f) (\<lambda>fd.
     kseq (filedup f) (kret (int fd))))"

definition sys_read :: "('a fs_state_scheme, int) kop" where
  "sys_read =
     orfail (argfd 0) (\<lambda>(_, f). orfail (argint 2) (\<lambda>n. orfail (argptr 1 (sint n)) (\<lambda>p.
     fileread f p (sint n))))"

definition sys_write :: "('a fs_state_scheme, int) kop" where
  "sys_write =
     orfail (argfd 0) (\<lambda>(_, f). orfail (argint 2) (\<lambda>n. orfail (argptr 1 (sint n)) (\<lambda>p.
     filewrite f p (sint n))))"

definition sys_close :: "('a fs_state_scheme, int) kop" where
  "sys_close =
     orfail (argfd 0) (\<lambda>(fd, f). kbind curproc (\<lambda>c.
     kseq (kproc c (\<lambda>p. p\<lparr>p_of := (p_of p)[fd := None]\<rparr>))
    (kseq (fileclose f) (kret 0))))"

text \<open>\<^verbatim>\<open>struct stat\<close> in user memory: twenty bytes, the two short fields padded to four.\<close>

definition sys_fstat :: "('a fs_state_scheme, int) kop" where
  "sys_fstat =
     orfail (argfd 0) (\<lambda>(_, f). orfail (argptr 1 20) (\<lambda>p.
     orfail (filestat f) (\<lambda>st.
     kseq (ustore p (bytes_of16 (st_type st)))
    (kseq (ustore (p + 4) (bytes_of32 (st_dev st)))
    (kseq (ustore (p + 8) (bytes_of32 (st_ino st)))
    (kseq (ustore (p + 12) (bytes_of16 (st_nlink st)))
    (kseq (ustore (p + 16) (bytes_of32 (st_size st)))
          (kret 0))))))))"

section \<open>Links (\<^verbatim>\<open>sysfile.c\<close>)\<close>

definition link_bad :: "nat \<Rightarrow> ('a fs_state_scheme, int) kop" where
  "link_bad ip =
     kseq (ilock ip)
    (kseq (kinode ip (\<lambda>i. i\<lparr>i_nlink := i_nlink i - 1\<rparr>))
    (kseq (iupdate ip)
    (kseq (iunlockput ip)
    (kseq end_op (kret (-1))))))"

definition sys_link :: "('a fs_state_scheme, int) kop" where
  "sys_link =
     orfail (argstr 0) (\<lambda>old. orfail (argstr 1) (\<lambda>new.
     kseq begin_op
    (kbind (namei old) (\<lambda>r. case r of
       None \<Rightarrow> kseq end_op (kret (-1))
     | Some ip \<Rightarrow>
         kseq (ilock ip)
        (kbind (inode_field ip i_type) (\<lambda>ty.
           if ty = T_DIR then kseq (iunlockput ip) (kseq end_op (kret (-1)))
           else
             kseq (kinode ip (\<lambda>i. i\<lparr>i_nlink := i_nlink i + 1\<rparr>))
            (kseq (iupdate ip)
            (kseq (iunlock ip)
            (kbind (nameiparent new) (\<lambda>r. case r of
               None \<Rightarrow> link_bad ip
             | Some (dp, name) \<Rightarrow>
                 kseq (ilock dp)
                (kbind (inode_field dp i_dev) (\<lambda>ddev. kbind (inode_field ip id) (\<lambda>i.
                   if ddev \<noteq> i_dev i then kseq (iunlockput dp) (link_bad ip)
                   else
                     kbind (dirlink dp name (i_inum i)) (\<lambda>l.
                       if l < 0 then kseq (iunlockput dp) (link_bad ip)
                       else
                         kseq (iunlockput dp)
                        (kseq (iput ip)
                        (kseq end_op (kret 0)))))))))))))))))"

primrec isdirempty_loop :: "nat \<Rightarrow> nat \<Rightarrow> nat \<Rightarrow> ('a fs_state_scheme, bool) kop" where
  "isdirempty_loop 0 dp off = kret True"
| "isdirempty_loop (Suc k) dp off =
     kbind (inode_field dp i_size) (\<lambda>sz.
       if \<not> off < unat sz then kret True
       else kbind (read_dirent dp off ''isdirempty: readi'') (\<lambda>de.
         if de_inum de \<noteq> 0 then kret False else isdirempty_loop k dp (off + 16)))"

definition isdirempty :: "nat \<Rightarrow> ('a fs_state_scheme, bool) kop" where
  "isdirempty dp = kbind (dir_rounds dp) (\<lambda>k. isdirempty_loop k dp 32)"

definition dot :: "byte list" where "dot = [0x2E]"
definition dotdot :: "byte list" where "dotdot = [0x2E, 0x2E]"

definition sys_unlink :: "('a fs_state_scheme, int) kop" where
  "sys_unlink =
     orfail (argstr 0) (\<lambda>path.
     kseq begin_op
    (kbind (nameiparent path) (\<lambda>r. case r of
       None \<Rightarrow> kseq end_op (kret (-1))
     | Some (dp, name) \<Rightarrow>
         (let bad = kseq (iunlockput dp) (kseq end_op (kret (-1))) in
          kseq (ilock dp)
         (if namecmp name dot = 0 \<or> namecmp name dotdot = 0 then bad
          else
            kbind (dirlookup dp name) (\<lambda>r. case r of
              None \<Rightarrow> bad
            | Some (ip, off) \<Rightarrow>
                kseq (ilock ip)
               (kbind (inode_field ip id) (\<lambda>i.
                  if sint (i_nlink i) < 1 then kpanic ''unlink: nlink < 1''
                  else
                    kbind (if i_type i = T_DIR then isdirempty ip else kret True) (\<lambda>ok.
                      if \<not> ok then kseq (iunlockput ip) bad
                      else
                        kbind (writei dp (replicate 16 0) off) (\<lambda>w.
                          if w \<noteq> 16 then kpanic ''unlink: writei''
                          else
                            kseq (kwhen (i_type i = T_DIR)
                                   (kseq (kinode dp (\<lambda>d. d\<lparr>i_nlink := i_nlink d - 1\<rparr>)) (iupdate dp)))
                           (kseq (iunlockput dp)
                           (kseq (kinode ip (\<lambda>i. i\<lparr>i_nlink := i_nlink i - 1\<rparr>))
                           (kseq (iupdate ip)
                           (kseq (iunlockput ip)
                           (kseq end_op (kret 0))))))))))))))))"

section \<open>Creating and opening (\<^verbatim>\<open>sysfile.c\<close>)\<close>

definition create :: "byte list \<Rightarrow> u16 \<Rightarrow> u16 \<Rightarrow> u16 \<Rightarrow> ('a fs_state_scheme, nat option) kop" where
  "create path ty major minor =
     kbind (nameiparent path) (\<lambda>r. case r of
       None \<Rightarrow> kret None
     | Some (dp, name) \<Rightarrow>
         kseq (ilock dp)
        (kbind (dirlookup dp name) (\<lambda>r. case r of
           Some (ip, _) \<Rightarrow>
             kseq (iunlockput dp)
            (kseq (ilock ip)
            (kbind (inode_field ip i_type) (\<lambda>ty'.
               if ty = T_FILE \<and> ty' = T_FILE then kret (Some ip)
               else kseq (iunlockput ip) (kret None))))
         | None \<Rightarrow>
             kbind (inode_field dp i_dev) (\<lambda>dev.
             kbind (ialloc dev ty) (\<lambda>ip.
             kseq (ilock ip)
            (kseq (kinode ip (\<lambda>i. i\<lparr>i_major := major, i_minor := minor, i_nlink := 1\<rparr>))
            (kseq (iupdate ip)
            (kbind (inode_field ip i_inum) (\<lambda>inum. kbind (inode_field dp i_inum) (\<lambda>dinum.
             kseq (kwhen (ty = T_DIR)
                    (kseq (kinode dp (\<lambda>d. d\<lparr>i_nlink := i_nlink d + 1\<rparr>))
                    (kseq (iupdate dp)
                    (kbind (dirlink ip dot inum) (\<lambda>a.
                       if a < 0 then kpanic ''create dots''
                       else kbind (dirlink ip dotdot dinum) (\<lambda>b.
                         if b < 0 then kpanic ''create dots'' else kret ()))))))
            (kbind (dirlink dp name inum) (\<lambda>l.
               if l < 0 then kpanic ''create: dirlink''
               else kseq (iunlockput dp) (kret (Some ip))))))))))))))"

definition O_WRONLY :: u32 where "O_WRONLY = 1"
definition O_RDWR :: u32 where "O_RDWR = 2"
definition O_CREATE :: u32 where "O_CREATE = 0x200"

text \<open>The inode to open, locked.\<close>

definition open_inode :: "byte list \<Rightarrow> u32 \<Rightarrow> ('a fs_state_scheme, nat option) kop" where
  "open_inode path omode =
     (if omode AND O_CREATE \<noteq> 0 then create path T_FILE 0 0
      else
        kbind (namei path) (\<lambda>r. case r of
          None \<Rightarrow> kret None
        | Some ip \<Rightarrow>
            kseq (ilock ip)
           (kbind (inode_field ip i_type) (\<lambda>ty.
              if ty = T_DIR \<and> omode \<noteq> 0 then kseq (iunlockput ip) (kret None)
              else kret (Some ip)))))"

definition sys_open :: "('a fs_state_scheme, int) kop" where
  "sys_open =
     orfail (argstr 0) (\<lambda>path. orfail (argint 1) (\<lambda>omode.
     kseq begin_op
    (kbind (open_inode path omode) (\<lambda>r. case r of
       None \<Rightarrow> kseq end_op (kret (-1))
     | Some ip \<Rightarrow>
         (let fail = kseq (iunlockput ip) (kseq end_op (kret (-1))) in
          kbind filealloc (\<lambda>r. case r of
            None \<Rightarrow> fail
          | Some f \<Rightarrow>
              kbind (fdalloc f) (\<lambda>r. case r of
                None \<Rightarrow> kseq (fileclose f) fail
              | Some fd \<Rightarrow>
                  kseq (iunlock ip)
                 (kseq end_op
                 (kseq (kfil f (\<lambda>x. x\<lparr>f_type := FD_INODE, f_ip := ip, f_off := 0,
                          f_readable := (omode AND O_WRONLY = 0),
                          f_writable := (omode AND O_WRONLY \<noteq> 0 \<or> omode AND O_RDWR \<noteq> 0)\<rparr>))
                       (kret (int fd)))))))))))"

text \<open>An operation that makes an inode, in a transaction of its own.\<close>

definition mk_inode :: "('a fs_state_scheme, nat option) kop \<Rightarrow> ('a fs_state_scheme, int) kop" where
  "mk_inode m =
     kseq begin_op
    (kbind m (\<lambda>r. case r of
       None \<Rightarrow> kseq end_op (kret (-1))
     | Some ip \<Rightarrow> kseq (iunlockput ip) (kseq end_op (kret 0))))"

definition sys_mkdir :: "('a fs_state_scheme, int) kop" where
  "sys_mkdir = mk_inode (kbind (argstr 0) (\<lambda>r. case r of
     None \<Rightarrow> kret None | Some path \<Rightarrow> create path T_DIR 0 0))"

definition sys_mknod :: "('a fs_state_scheme, int) kop" where
  "sys_mknod = mk_inode (kbind (argstr 0) (\<lambda>r. case r of
     None \<Rightarrow> kret None
   | Some path \<Rightarrow> kbind (argint 1) (\<lambda>r. case r of
       None \<Rightarrow> kret None
     | Some major \<Rightarrow> kbind (argint 2) (\<lambda>r. case r of
         None \<Rightarrow> kret None
       | Some minor \<Rightarrow> create path T_DEV (ucast major) (ucast minor)))))"

definition sys_chdir :: "('a fs_state_scheme, int) kop" where
  "sys_chdir =
     kseq begin_op
    (kbind (kbind (argstr 0) (\<lambda>r. case r of None \<Rightarrow> kret None | Some path \<Rightarrow> namei path)) (\<lambda>r. case r of
       None \<Rightarrow> kseq end_op (kret (-1))
     | Some ip \<Rightarrow>
         kseq (ilock ip)
        (kbind (inode_field ip i_type) (\<lambda>ty.
           if ty \<noteq> T_DIR then kseq (iunlockput ip) (kseq end_op (kret (-1)))
           else
             kseq (iunlock ip)
            (kbind curproc (\<lambda>c. kbind (pget c p_cdir) (\<lambda>d. case d of
               None \<Rightarrow> kfault
             | Some old \<Rightarrow>
                 kseq (iput old)
                (kseq end_op
                (kseq (kproc c (\<lambda>p. p\<lparr>p_cdir := Some ip\<rparr>))
                      (kret 0))))))))))"

text \<open>Collecting the argument strings of \<^verbatim>\<open>exec\<close>; \<open>k\<close> of the \<^verbatim>\<open>MAXARG\<close> places are left.\<close>

primrec exec_argv :: "nat \<Rightarrow> u32 \<Rightarrow> nat \<Rightarrow> byte list list \<Rightarrow> ('a proc_state_scheme, byte list list option) kop" where
  "exec_argv 0 uargv i acc = kret None"
| "exec_argv (Suc k) uargv i acc =
     kbind (fetchint (uargv + 4 * of_nat i)) (\<lambda>r. case r of
       None \<Rightarrow> kret None
     | Some uarg \<Rightarrow>
         if uarg = 0 then kret (Some acc)
         else kbind (fetchstr uarg) (\<lambda>r. case r of
           None \<Rightarrow> kret None
         | Some a \<Rightarrow> exec_argv k uargv (Suc i) (acc @ [a])))"

definition sys_exec :: "('a fs_state_scheme, int) kop" where
  "sys_exec =
     orfail (argstr 0) (\<lambda>path. orfail (argint 1) (\<lambda>uargv.
     orfail (exec_argv MAXARG uargv 0 []) (\<lambda>argv. exec path argv)))"

definition clear_fd :: "nat \<Rightarrow> ('a proc_state_scheme, unit) kop" where
  "clear_fd fd = kbind curproc (\<lambda>c. kproc c (\<lambda>p. p\<lparr>p_of := (p_of p)[fd := None]\<rparr>))"

definition sys_pipe :: "('a fs_state_scheme, int) kop" where
  "sys_pipe =
     orfail (argptr 0 8) (\<lambda>ufd.
     orfail pipealloc (\<lambda>(rf, wf).
       (let fail = kseq (fileclose rf) (kseq (fileclose wf) (kret (-1))) in
        kbind (fdalloc rf) (\<lambda>r. case r of
          None \<Rightarrow> fail
        | Some fd0 \<Rightarrow>
            kbind (fdalloc wf) (\<lambda>r. case r of
              None \<Rightarrow> kseq (clear_fd fd0) fail
            | Some fd1 \<Rightarrow>
                kseq (ustore32 ufd (of_nat fd0))
               (kseq (ustore32 (ufd + 4) (of_nat fd1))
                     (kret 0)))))))"

end
