(* ===== verification/Console.thy ===== *)
theory Console
  imports Process
begin

unbundle bit_operations_syntax

text \<open>
  The console (\<^verbatim>\<open>console.c\<close>): the digits \<^verbatim>\<open>printint\<close> prints, the CGA cursor and screen, the line
  editor with its command history, and the keyboard driver (\<^verbatim>\<open>kbd.c\<close>, \<^verbatim>\<open>kbd.h\<close>) that feeds it.
\<close>

section \<open>Printing numbers\<close>

definition digit_char :: "nat \<Rightarrow> char" where
  "digit_char d = ''0123456789abcdef'' ! d"

text \<open>
  The characters put into \<^verbatim>\<open>buf\<close>, lowest digit first. A 32-bit number has at most 32 digits in
  any base from 2 on, which is the fuel.
\<close>

primrec printint_digits :: "nat \<Rightarrow> nat \<Rightarrow> nat \<Rightarrow> string" where
  "printint_digits 0 x base = []"
| "printint_digits (Suc k) x base =
     digit_char (x mod base) # (if x div base \<noteq> 0 then printint_digits k (x div base) base else [])"

definition printint :: "u32 \<Rightarrow> nat \<Rightarrow> bool \<Rightarrow> string" where
  "printint xx base sg =
     (let neg = sg \<and> sint xx < 0;
          x = (if neg then - xx else xx)
      in rev (printint_digits 32 (unat x) base @ (if neg then ''-'' else [])))"

section \<open>The screen\<close>

text \<open>\<open>crt\<close> is the screen memory from its start; \<open>None\<close> stands for a panic or a write outside it.\<close>

definition BACKSPACE :: int where "BACKSPACE = 0x100"

definition cga_move :: "int \<Rightarrow> nat \<Rightarrow> u16 list \<Rightarrow> (nat \<times> u16 list) option" where
  "cga_move c pos crt =
     (if c = 10 then Some (pos + (80 - pos mod 80), crt)
      else if c = BACKSPACE then Some (if pos > 0 then pos - 1 else pos, crt)
      else if pos < length crt
           then Some (pos + 1, crt[pos := word_of_int c AND 0xFF OR 0x0700]) else None)"

definition cga_scroll :: "nat \<Rightarrow> u16 list \<Rightarrow> nat \<times> u16 list" where
  "cga_scroll pos crt =
     (if pos div 80 \<ge> 24 then
        (let p = pos - 80;
             moved = take (23 * 80) (drop 80 crt) @ drop (23 * 80) crt
         in (p, splice moved p (replicate (24 * 80 - p) 0)))
      else (pos, crt))"

definition cgaputc :: "int \<Rightarrow> nat \<Rightarrow> u16 list \<Rightarrow> (nat \<times> u16 list) option" where
  "cgaputc c pos crt =
     (case cga_move c pos crt of
        None \<Rightarrow> None
      | Some (pos, crt) \<Rightarrow>
          if pos > 25 * 80 then None
          else (case cga_scroll pos crt of (pos, crt) \<Rightarrow>
            if pos < length crt then Some (pos, crt[pos := 0x0720]) else None))"

section \<open>The line editor\<close>

definition CMD_BUF :: nat where "CMD_BUF = 30"

text \<open>The history: thirty lines, the number of lines put in, the line on display.\<close>

record cmd_histy =
  h_cmd :: "byte list list"
  h_n :: u32
  h_c :: u32

text \<open>
  The console together with its history. The handler's inner loops, which eat characters until
  a given one, are modes; \<open>dokill\<close> and \<open>doprocdump\<close> are its flags.
\<close>

datatype cons_mode = Normal | KillMode nat int | EatUntil int bool

record cons_state = fs_state +
  histy :: cmd_histy
  cmode :: cons_mode
  dokill :: bool

abbreviation kcin :: "(cons_input \<Rightarrow> cons_input) \<Rightarrow> ('a fs_state_scheme, unit) kop" where
  "kcin f \<equiv> kmod (\<lambda>s. s\<lparr>cinput := f (cinput s)\<rparr>)"

abbreviation khist :: "(cmd_histy \<Rightarrow> cmd_histy) \<Rightarrow> ('a cons_state_scheme, unit) kop" where
  "khist f \<equiv> kmod (\<lambda>s. s\<lparr>histy := f (histy s)\<rparr>)"

primrec clear_line_loop :: "nat \<Rightarrow> cons_input \<Rightarrow> cons_input" where
  "clear_line_loop 0 i = i"
| "clear_line_loop (Suc k) i =
     (if in_e i \<noteq> in_w i \<and> in_buf i ! (unat (in_e i - 1) mod INPUT_BUF) \<noteq> 10
      then clear_line_loop k (i\<lparr>in_e := in_e i - 1\<rparr>) else i)"

text \<open>The edit index moves down to the write index at the latest.\<close>

definition clear_line :: "cons_input \<Rightarrow> cons_input" where
  "clear_line i = clear_line_loop (unat (in_e i - in_w i)) i"

definition put_char :: "byte \<Rightarrow> cons_input \<Rightarrow> cons_input" where
  "put_char c i = i\<lparr>in_buf := (in_buf i)[unat (in_e i) mod INPUT_BUF := c], in_e := in_e i + 1\<rparr>"

definition put_histy :: "cmd_histy \<Rightarrow> cons_input \<Rightarrow> cons_input" where
  "put_histy h i = fold put_char (takeWhile (\<lambda>c. c \<noteq> 10) (cstr (h_cmd h ! (unat (h_c h - 1) mod CMD_BUF)))) i"

text \<open>
  \<^verbatim>\<open>&input.buf[input.r]\<close>: the index is not reduced modulo the size of the buffer. A start
  outside the buffer, or a string that does not end in it, reads beyond it.
\<close>

definition line_at :: "cons_input \<Rightarrow> byte list option" where
  "line_at i =
     (let rest = drop (unat (in_r i)) (in_buf i) in
      if 0 \<in> set rest then Some (cstr rest) else None)"

definition save_line :: "byte list \<Rightarrow> cmd_histy \<Rightarrow> cmd_histy" where
  "save_line ln h =
     (let h' = (if strlen ln > 1 \<and>
                   strncmp (h_cmd h ! (unat (h_n h - 1) mod CMD_BUF)) ln (strlen ln - 1) \<noteq> 0
                then (let k = unat (h_n h) mod CMD_BUF in
                      h\<lparr>h_cmd := (h_cmd h)[k := splice (h_cmd h ! k) 0 (safestrcpy ln (int (strlen ln)))],
                        h_n := h_n h + 1\<rparr>)
                else h)
      in h'\<lparr>h_c := h_n h' + 1\<rparr>)"

text \<open>The default case of the handler's switch.\<close>

definition cons_default :: "int \<Rightarrow> ('a cons_state_scheme, unit) kop" where
  "cons_default c =
     kbind (kget cinput) (\<lambda>i.
       kwhen (c \<noteq> 0 \<and> in_e i - in_r i < of_nat INPUT_BUF)
         (let c = (if c = 13 then 10 else c) in
          kseq (kcin (put_char (word_of_int c)))
         (kbind (kget cinput) (\<lambda>i.
            kwhen (c = 10 \<or> c = 4 \<or> in_e i = in_r i + of_nat INPUT_BUF)
              (kseq (kcin (\<lambda>i. i\<lparr>in_w := in_e i\<rparr>))
              (kbind (kget cinput) (\<lambda>i. case line_at i of
                 None \<Rightarrow> kfault
               | Some ln \<Rightarrow> kseq (khist (save_line ln)) (wakeup ChInput))))))))"

text \<open>The characters of the process-listing mode: \<open>k\<close> starts a number, a newline ends it.\<close>

definition kill_char :: "nat \<Rightarrow> int \<Rightarrow> int \<Rightarrow> ('a cons_state_scheme, unit) kop" where
  "kill_char status pid q =
     (if q = 12 then kmod (\<lambda>s. s\<lparr>cmode := Normal\<rparr>)
      else
        (let status' = (if q = 107 then 1 else if q = 10 \<and> status = 2 then 3 else status);
             pid' = (if 48 \<le> q \<and> q \<le> 57 \<and> status = 2 then pid * 10 + q - 48 else pid)
         in if status' = 1 then kmod (\<lambda>s. s\<lparr>cmode := KillMode 2 pid'\<rparr>)
            else if status' = 3 then kseq (kill pid') (kmod (\<lambda>s. s\<lparr>cmode := KillMode 0 pid'\<rparr>))
            else kmod (\<lambda>s. s\<lparr>cmode := KillMode status' pid'\<rparr>)))"

text \<open>
  One character from \<^verbatim>\<open>getc\<close>. Control-Z eats characters up to the next control-Z and then falls
  through to the default case with the first one.
\<close>

definition cons_char :: "int \<Rightarrow> ('a cons_state_scheme, unit) kop" where
  "cons_char c =
     kbind (kget cmode) (\<lambda>m. case m of
       KillMode status pid \<Rightarrow> kill_char status pid c
     | EatUntil stop thru \<Rightarrow>
         kwhen (c = stop)
           (kseq (kmod (\<lambda>s. s\<lparr>cmode := Normal\<rparr>)) (kwhen thru (cons_default stop)))
     | Normal \<Rightarrow>
         if c = 16 then kret ()
         else if c = 21 then kcin clear_line
         else if c = 8 \<or> c = 127 then
           kcin (\<lambda>i. if in_e i \<noteq> in_w i then i\<lparr>in_e := in_e i - 1\<rparr> else i)
         else if c = 3 then kmod (\<lambda>s. s\<lparr>dokill := True\<rparr>)
         else if c = 12 then kmod (\<lambda>s. s\<lparr>cmode := KillMode 0 0\<rparr>)
         else if c = 18 then kmod (\<lambda>s. s\<lparr>cmode := EatUntil 18 False\<rparr>)
         else if c = 19 then kmod (\<lambda>s. s\<lparr>cmode := EatUntil 19 False\<rparr>)
         else if c = 0xE2 then
           kbind (kget histy) (\<lambda>h. kwhen (h_c h > 1)
             (kseq (kcin clear_line)
             (kseq (khist (\<lambda>h. h\<lparr>h_c := h_c h - 1\<rparr>))
             (kbind (kget histy) (\<lambda>h. kcin (put_histy h))))))
         else if c = 0xE3 then
           kbind (kget histy) (\<lambda>h. kwhen (h_c h < h_n h)
             (kseq (kcin clear_line)
             (kseq (khist (\<lambda>h. h\<lparr>h_c := h_c h + 1\<rparr>))
             (kbind (kget histy) (\<lambda>h. kcin (put_histy h))))))
         else if c = 26 then kmod (\<lambda>s. s\<lparr>cmode := EatUntil 26 True\<rparr>)
         else cons_default c)"

text \<open>
  \<^verbatim>\<open>consoleintr\<close> on the characters \<^verbatim>\<open>getc\<close> delivers. When they end in the middle of an inner loop the
  handler is still in it, and the rest of the function has not run.
\<close>

definition consoleintr :: "int list \<Rightarrow> ('a cons_state_scheme, unit) kop" where
  "consoleintr cs =
     kseq (kmod (\<lambda>s. s\<lparr>dokill := False\<rparr>))
    (kseq (kfor cs cons_char)
    (kbind (kget cmode) (\<lambda>m. kbind (kget dokill) (\<lambda>dk. kbind (kget cur) (\<lambda>p.
       if m \<noteq> Normal \<or> \<not> dk then kret ()
       else (case p of
           None \<Rightarrow> kret ()
         | Some c \<Rightarrow> kbind (pget c p_pid) (\<lambda>pid.
             if pid > 2 then kseq (kill pid) (kret ()) else kret ())))))))"

section \<open>The keyboard (\<^verbatim>\<open>kbd.c\<close>, \<^verbatim>\<open>kbd.h\<close>)\<close>

definition SHIFT :: byte where "SHIFT = 1"
definition CTL :: byte where "CTL = 2"
definition ALT :: byte where "ALT = 4"
definition CAPSLOCK :: byte where "CAPSLOCK = 8"
definition NUMLOCK :: byte where "NUMLOCK = 16"
definition SCROLLLOCK :: byte where "SCROLLLOCK = 32"
definition E0ESC :: byte where "E0ESC = 64"

definition shiftcode :: "nat \<Rightarrow> byte" where
  "shiftcode d = (if d = 0x1D \<or> d = 0x9D then CTL else if d = 0x2A \<or> d = 0x36 then SHIFT
     else if d = 0x38 \<or> d = 0xB8 then ALT else 0)"

definition togglecode :: "nat \<Rightarrow> byte" where
  "togglecode d = (if d = 0x3A then CAPSLOCK else if d = 0x45 then NUMLOCK
     else if d = 0x46 then SCROLLLOCK else 0)"

text \<open>The part of the maps above 0x7F, the same in all three but for two keys.\<close>

definition extmap :: "nat \<Rightarrow> nat \<Rightarrow> nat \<Rightarrow> nat" where
  "extmap enter slash_key d =
     (if d = 0x9C then enter else if d = 0xB5 then slash_key
      else if d = 0xC8 then 0xE2 else if d = 0xD0 then 0xE3
      else if d = 0xC9 then 0xE6 else if d = 0xD1 then 0xE7
      else if d = 0xCB then 0xE4 else if d = 0xCD then 0xE5
      else if d = 0x97 then 0xE0 else if d = 0xCF then 0xE1
      else if d = 0xD2 then 0xE8 else if d = 0xD3 then 0xE9 else 0)"

definition codes :: "string \<Rightarrow> nat list" where
  "codes cs = map of_char cs"

text \<open>The rows of the tables; \<^verbatim>\<open>NO\<close> is 0.\<close>

definition keypad :: "nat list" where
  "keypad = [0] @ codes '' '' @ [0, 0, 0, 0, 0, 0] @ [0, 0, 0, 0, 0, 0, 0] @ codes ''7'' @
     codes ''89-456+1'' @ codes ''230.'' @ [0, 0, 0, 0]"

definition normalkeys :: "nat list" where
  "normalkeys = [0, 0x1B] @ codes ''123456'' @ codes ''7890-='' @ [8, 9] @
     codes ''qwertyui'' @ codes ''op[]'' @ [10, 0] @ codes ''as'' @
     codes ''dfghjkl;'' @ [39] @ codes ''`'' @ [0, 92] @ codes ''zxcv'' @
     codes ''bnm,./'' @ [0] @ codes ''*'' @ keypad"

definition shiftkeys :: "nat list" where
  "shiftkeys = [0, 27] @ codes ''!@#$%^'' @ codes ''&*()_+'' @ [8, 9] @
     codes ''QWERTYUI'' @ codes ''OP{}'' @ [10, 0] @ codes ''AS'' @
     codes ''DFGHJKL:'' @ [34] @ codes ''~'' @ [0] @ codes ''|ZXCV'' @
     codes ''BNM<>?'' @ [0] @ codes ''*'' @ keypad"

definition ctl :: "nat list \<Rightarrow> nat list" where
  "ctl cs = map (\<lambda>c. c - 64) cs"

text \<open>\<^verbatim>\<open>C('/')\<close> is \<open>47 - 64\<close>, stored in an unsigned char.\<close>

definition ctlkeys :: "nat list" where
  "ctlkeys = replicate 16 0 @ ctl (codes ''QWERTYUI'') @ ctl (codes ''OP'') @ [0, 0, 13, 0] @
     ctl (codes ''AS'') @ ctl (codes ''DFGHJKL'') @ [0] @ [0, 0, 0, 28] @ ctl (codes ''ZXCV'') @
     ctl (codes ''BNM'') @ [0, 0, 239, 0, 0]"

definition keymap :: "nat list \<Rightarrow> nat \<Rightarrow> nat \<Rightarrow> nat \<Rightarrow> nat" where
  "keymap keys enter slash_key d =
     (if d < length keys then keys ! d else extmap enter slash_key d)"

definition normalmap :: "nat \<Rightarrow> nat" where "normalmap = keymap normalkeys 10 47"
definition shiftmap :: "nat \<Rightarrow> nat" where "shiftmap = keymap shiftkeys 10 47"
definition ctlmap :: "nat \<Rightarrow> nat" where "ctlmap = keymap ctlkeys 13 239"

definition charcode :: "byte \<Rightarrow> nat \<Rightarrow> nat" where
  "charcode sh = (if sh AND (CTL OR SHIFT) = 0 then normalmap
     else if sh AND (CTL OR SHIFT) = SHIFT then shiftmap else ctlmap)"

text \<open>
  \<^verbatim>\<open>kbdgetc\<close> on the byte the controller delivers, with the static variable \<^verbatim>\<open>shift\<close>; no byte waiting
  gives \<open>-1\<close>.
\<close>

definition kbdgetc :: "byte \<Rightarrow> byte option \<Rightarrow> byte \<times> int" where
  "kbdgetc shift inp =
     (case inp of
        None \<Rightarrow> (shift, -1)
      | Some data \<Rightarrow>
          if data = 0xE0 then (shift OR E0ESC, 0)
          else if data AND 0x80 \<noteq> 0 then
            (let d = (if shift AND E0ESC \<noteq> 0 then data else data AND 0x7F)
             in (shift AND NOT (shiftcode (unat d) OR E0ESC), 0))
          else
            (let esc = shift AND E0ESC \<noteq> 0;
                 d = unat (if esc then data OR 0x80 else data);
                 sh1 = (if esc then shift AND NOT E0ESC else shift);
                 sh2 = (sh1 OR shiftcode d) XOR togglecode d;
                 c = charcode sh2 d
             in (sh2, int (if sh2 AND CAPSLOCK \<noteq> 0 then
                             (if 97 \<le> c \<and> c \<le> 122 then c - 32
                              else if 65 \<le> c \<and> c \<le> 90 then c + 32 else c)
                           else c))))"

text \<open>\<^verbatim>\<open>consoleintr\<close> calls \<^verbatim>\<open>kbdgetc\<close> until it returns a negative value: on the bytes waiting.\<close>

primrec kbd_chars :: "byte \<Rightarrow> byte list \<Rightarrow> byte \<times> int list" where
  "kbd_chars shift [] = (shift, [])"
| "kbd_chars shift (b # bs) =
     (case kbdgetc shift (Some b) of (sh, c) \<Rightarrow>
        (case kbd_chars sh bs of (sh', cs) \<Rightarrow> (sh', c # cs)))"

definition kbdintr :: "byte \<Rightarrow> byte list \<Rightarrow> ('a cons_state_scheme, byte) kop" where
  "kbdintr shift bs =
     (case kbd_chars shift bs of (sh, cs) \<Rightarrow> kseq (consoleintr cs) (kret sh))"

end
