(* ===== verification/Trap.thy ===== *)
theory Trap
  imports Syscall Console
begin

unbundle bit_operations_syntax

text \<open>
  The calls on processes, scheduling, threads, atomic arithmetic and semaphores (\<^verbatim>\<open>sysproc.c\<close>), the
  system call table (\<^verbatim>\<open>syscall.c\<close>), the interrupt handler (\<^verbatim>\<open>trap.c\<close>) and the start of the kernel
  (\<^verbatim>\<open>main.c\<close>).
\<close>

section \<open>Process calls (\<^verbatim>\<open>sysproc.c\<close>)\<close>

definition sys_fork :: "('a fs_state_scheme, int) kop" where "sys_fork = fork"
definition sys_wait :: "('a fs_state_scheme, int) kop" where "sys_wait = wait"

definition sys_kill :: "('a fs_state_scheme, int) kop" where
  "sys_kill = orfail (argint 0) (\<lambda>pid. kill (sint pid))"

definition sys_getpid :: "('a fs_state_scheme, int) kop" where
  "sys_getpid = kbind curproc (\<lambda>c. pget c p_pid)"

definition sys_sbrk :: "('a fs_state_scheme, int) kop" where
  "sys_sbrk =
     orfail (argint 0) (\<lambda>n. kbind curproc (\<lambda>c. kbind (pget c p_size) (\<lambda>a.
     kbind (procgrow (sint n)) (\<lambda>r. kret (if r < 0 then -1 else sint a)))))"

text \<open>
  The loop of \<^verbatim>\<open>sys_sleep\<close>, with the tick count at the start. The difference is unsigned and \<open>n\<close> is
  converted to unsigned for the comparison.
\<close>

definition sys_sleep_loop :: "u32 \<Rightarrow> u32 \<Rightarrow> ('a fs_state_scheme, int) kop" where
  "sys_sleep_loop n ticks0 =
     kbind (kget ticks) (\<lambda>now.
       if now - ticks0 < n then
         kbind curproc (\<lambda>c. kbind (pget c p_killed) (\<lambda>k.
           if k \<noteq> 0 then kret (-1) else ksleep ChTicks))
       else kret 0)"

definition sys_sleep :: "('a fs_state_scheme, int) kop" where
  "sys_sleep = orfail (argint 0) (\<lambda>n. kbind (kget ticks) (\<lambda>t0. sys_sleep_loop n t0))"

definition sys_uptime :: "('a fs_state_scheme, int) kop" where
  "sys_uptime = kget (\<lambda>s. sint (ticks s))"

definition incnice :: "int \<Rightarrow> ('a fs_state_scheme, int) kop" where
  "incnice n =
     kbind curproc (\<lambda>c. kbind (pget c p_nice) (\<lambda>nice.
       (let aim = nice + n in
        if MIN_NICE \<le> aim \<and> aim \<le> MAX_NICE
        then kseq (kproc c (\<lambda>p. p\<lparr>p_nice := aim\<rparr>)) (kret 0)
        else kret (-1))))"

definition sys_incnice :: "('a fs_state_scheme, int) kop" where
  "sys_incnice = orfail (argint 0) (\<lambda>n. incnice (sint n))"

definition sys_decnice :: "('a fs_state_scheme, int) kop" where
  "sys_decnice = orfail (argint 0) (\<lambda>n. incnice (sint (- n)))"

text \<open>The bound of \<^verbatim>\<open>sys_sched\<close> is \<^verbatim>\<open>sizeof (SCHEME_NUMS)\<close>, the size of an \<^verbatim>\<open>int\<close>.\<close>

definition sys_sched :: "('a fs_state_scheme, int) kop" where
  "sys_sched =
     orfail (argint 0) (\<lambda>n.
       if n \<ge> 4 then kret (-1)
       else kseq (select_scheme (unat n)) (kseq recalc_timeslice (kret 0)))"

definition sys_lwp_create :: "('a fs_state_scheme, int) kop" where
  "sys_lwp_create =
     orfail (argint 0) (\<lambda>fn. orfail (argint 1) (\<lambda>arg. orfail (argint 2) (\<lambda>stack.
     orfail (argint 3) (\<lambda>stksz. if sint stksz < 0 then kret (-1) else lwp_create fn arg stack stksz))))"

definition sys_lwp_join :: "('a fs_state_scheme, int) kop" where
  "sys_lwp_join = orfail (argint 0) lwp_join"

definition sys_sched_name :: "('a fs_state_scheme, int) kop" where
  "sys_sched_name =
     orfail (argint 0) (\<lambda>name. kbind sched_name (\<lambda>nm.
       (let bs = map (\<lambda>c. of_nat (of_char c)) nm in
        kseq (ustore name (safestrcpy bs (int (length bs) + 1))) (kret 0))))"

definition sys_dsstore :: "('a fs_state_scheme, int) kop" where
  "sys_dsstore =
     orfail (argint 0) (\<lambda>stk. orfail (argint 1) (\<lambda>tf. orfail (argint 2) (\<lambda>stksz.
     kseq (dynamic_sstore stk tf stksz) (kret 0))))"

definition sys_dsrestart :: "('a fs_state_scheme, int) kop" where
  "sys_dsrestart =
     orfail (argint 0) (\<lambda>stk. orfail (argint 1) (\<lambda>tf. orfail (argint 2) (\<lambda>stksz.
     kseq (dynamic_restart stk tf stksz) (kret 0))))"

text \<open>The calls that fetch two or three integers and hand them on.\<close>

definition args2 :: "(u32 \<Rightarrow> u32 \<Rightarrow> ('a fs_state_scheme, int) kop) \<Rightarrow> ('a fs_state_scheme, int) kop" where
  "args2 f = orfail (argint 0) (\<lambda>a. orfail (argint 1) (\<lambda>b. f a b))"

definition args3 ::
    "(u32 \<Rightarrow> u32 \<Rightarrow> u32 \<Rightarrow> ('a fs_state_scheme, int) kop) \<Rightarrow> ('a fs_state_scheme, int) kop" where
  "args3 f = orfail (argint 0) (\<lambda>a. orfail (argint 1) (\<lambda>b. orfail (argint 2) (\<lambda>c. f a b c)))"

definition sys_atom_add :: "('a fs_state_scheme, int) kop" where "sys_atom_add = args3 atomic_add"
definition sys_atom_sub :: "('a fs_state_scheme, int) kop" where "sys_atom_sub = args3 atomic_sub"
definition sys_atom_mul :: "('a fs_state_scheme, int) kop" where "sys_atom_mul = args3 atomic_multi"
definition sys_atom_div :: "('a fs_state_scheme, int) kop" where "sys_atom_div = args3 atomic_divide"
definition sys_atom_mod :: "('a fs_state_scheme, int) kop" where "sys_atom_mod = args3 atomic_mod"
definition sys_atom_set :: "('a fs_state_scheme, int) kop" where "sys_atom_set = args2 atomic_set"
definition sys_atom_swp :: "('a fs_state_scheme, int) kop" where "sys_atom_swp = args2 atomic_swap"

definition sys_sem_init :: "('a fs_state_scheme, int) kop" where
  "sys_sem_init = args2 (\<lambda>n sem. sem_init (sint n) sem)"
definition sys_sem_p :: "('a fs_state_scheme, int) kop" where
  "sys_sem_p = args2 (\<lambda>d sem. sem_P (sint d) sem)"
definition sys_sem_v :: "('a fs_state_scheme, int) kop" where
  "sys_sem_v = args2 (\<lambda>d sem. sem_V (sint d) sem)"

definition sys_mut_init :: "('a fs_state_scheme, int) kop" where
  "sys_mut_init = orfail (argint 0) mutex_init"
definition sys_mut_p :: "('a fs_state_scheme, int) kop" where
  "sys_mut_p = orfail (argint 0) mutex_P"
definition sys_mut_v :: "('a fs_state_scheme, int) kop" where
  "sys_mut_v = orfail (argint 0) mutex_V"

definition sys_toggle_debug :: "('a fs_state_scheme, int) kop" where
  "sys_toggle_debug = kseq (kmod (\<lambda>s. s\<lparr>sched_debug := \<not> sched_debug s\<rparr>)) (kret 0)"

section \<open>The system call table (\<^verbatim>\<open>syscall.c\<close>)\<close>

text \<open>Calls 1 to 43, without \<^verbatim>\<open>exit\<close> (number 2), which does not come back.\<close>

definition syscalls :: "(nat \<times> ('a fs_state_scheme, int) kop) list" where
  "syscalls =
     [(1, sys_fork), (3, sys_wait), (4, sys_pipe), (5, sys_read), (6, sys_kill), (7, sys_exec),
      (8, sys_fstat), (9, sys_chdir), (10, sys_dup), (11, sys_getpid), (12, sys_sbrk),
      (13, sys_sleep), (14, sys_uptime), (15, sys_open), (16, sys_write), (17, sys_mknod),
      (18, sys_unlink), (19, sys_link), (20, sys_mkdir), (21, sys_close), (22, sys_incnice),
      (23, sys_decnice), (24, sys_sched), (25, sys_lwp_create), (26, sys_lwp_join),
      (27, sys_sched_name), (28, sys_dsstore), (29, sys_dsrestart), (30, sys_atom_add),
      (31, sys_atom_sub), (32, sys_atom_mul), (33, sys_atom_div), (34, sys_atom_mod),
      (35, sys_atom_set), (36, sys_atom_swp), (37, sys_sem_init), (38, sys_sem_p), (39, sys_sem_v),
      (40, sys_mut_init), (41, sys_mut_p), (42, sys_mut_v), (43, sys_toggle_debug)]"

text \<open>
  \<^verbatim>\<open>num < sizeof(_syscalls)\<close> compares with the size in bytes, 176, not with the 44 entries: a
  number from 44 to 175 calls through memory behind the table, number 0 through its empty
  entry. The call may have replaced the process (\<^verbatim>\<open>proc\<close> is read again for the result).
\<close>

definition syscall :: "('a fs_state_scheme, unit) kop" where
  "syscall =
     kbind curproc (\<lambda>c. kbind (pget c (\<lambda>p. tf_eax (p_tf p))) (\<lambda>num.
       if num < 176 then
         (if num = 2 then exit
          else (case map_of syscalls (unat num) of
              None \<Rightarrow> kfault
            | Some f \<Rightarrow> kbind f (\<lambda>r. kbind curproc (\<lambda>c.
                kproc c (\<lambda>p. p\<lparr>p_tf := (p_tf p)\<lparr>tf_eax := word_of_int r\<rparr>\<rparr>)))))
       else kproc c (\<lambda>p. p\<lparr>p_tf := (p_tf p)\<lparr>tf_eax := -1\<rparr>\<rparr>)))"

section \<open>Interrupts (\<^verbatim>\<open>trap.c\<close>)\<close>

definition T_PGFLT :: u32 where "T_PGFLT = 14"
definition T_SYSCALL :: u32 where "T_SYSCALL = 64"
definition T_IRQ0 :: u32 where "T_IRQ0 = 32"

definition from_user :: "trapframe \<Rightarrow> bool" where
  "from_user tf \<longleftrightarrow> tf_cs tf AND 3 = 3"

text \<open>What happens with a killed process on its way back to user mode.\<close>

definition exit_if_killed :: "trapframe \<Rightarrow> ('a fs_state_scheme, unit) kop" where
  "exit_if_killed tf =
     kbind (kget cur) (\<lambda>p. case p of
       None \<Rightarrow> kret ()
     | Some c \<Rightarrow> kbind (pget c p_killed) (\<lambda>k. kwhen (k \<noteq> 0 \<and> from_user tf) exit))"

text \<open>
  The device part of an interrupt: the clock, the keyboard (the bytes waiting and the shift
  state, which is returned), the serial line (the characters waiting), the disk, whose
  requests the model completes at once.
\<close>

record trap_input =
  ti_kbd :: "byte list"
  ti_shift :: byte
  ti_uart :: "int list"
  ti_cr2 :: u32

definition trap_device :: "trapframe \<Rightarrow> trap_input \<Rightarrow> ('a cons_state_scheme, unit) kop" where
  "trap_device tf inp =
     (let no = tf_trapno tf in
      if no = T_IRQ0 then
        kseq (kmod (\<lambda>s. s\<lparr>ticks := ticks s + 1\<rparr>)) (wakeup ChTicks)
      else if no = T_IRQ0 + 1 then kseq (kbdintr (ti_shift inp) (ti_kbd inp)) (kret ())
      else if no = T_IRQ0 + 4 then consoleintr (ti_uart inp)
      else if no = T_IRQ0 + 14 \<or> no = T_IRQ0 + 15 then kret ()
      else if no = T_IRQ0 + 7 \<or> no = T_IRQ0 + 31 then kret ()
      else if no = T_PGFLT then
        kbind (kget cur) (\<lambda>p.
          if p = None \<or> tf_cs tf AND 3 = 0 then kpanic ''trap''
          else kbind (pgflt_handle (ti_cr2 inp)) (\<lambda>r.
            if r < 0 then kpanic ''page fault'' else kret ()))
      else
        kbind (kget cur) (\<lambda>p. case p of
          None \<Rightarrow> kpanic ''trap''
        | Some c \<Rightarrow>
            if tf_cs tf AND 3 = 0 then kpanic ''trap''
            else kproc c (\<lambda>x. x\<lparr>p_killed := 1\<rparr>)))"

text \<open>
  The end of \<^verbatim>\<open>trap\<close>. After \<^verbatim>\<open>exit\<close>, or a switch in \<^verbatim>\<open>timeslice_yield\<close>, no process is current and the
  rest runs when the process is scheduled again, starting with the last check.
\<close>

definition trap_tail :: "trapframe \<Rightarrow> ('a fs_state_scheme, unit) kop" where
  "trap_tail tf =
     kseq (exit_if_killed tf)
    (kseq (kbind (kget cur) (\<lambda>p. case p of
             None \<Rightarrow> kret ()
           | Some c \<Rightarrow> kbind (pget c p_stat) (\<lambda>st.
               kwhen (tf_trapno tf = T_IRQ0 \<and> st = SRUN) timeslice_yield)))
          (exit_if_killed tf))"

definition trap :: "trapframe \<Rightarrow> trap_input \<Rightarrow> ('a cons_state_scheme, unit) kop" where
  "trap tf inp =
     (if tf_trapno tf = T_SYSCALL then
        kbind curproc (\<lambda>c. kbind (pget c p_killed) (\<lambda>k.
          if k \<noteq> 0 then exit
          else
            kseq (kproc c (\<lambda>x. x\<lparr>p_tf := tf\<rparr>))
           (kseq syscall
           (kbind (kget cur) (\<lambda>p. case p of
              None \<Rightarrow> kret ()
            | Some c \<Rightarrow> kbind (pget c p_killed) (\<lambda>k. kwhen (k \<noteq> 0) exit))))))
      else kseq (trap_device tf inp) (trap_tail tf))"

section \<open>Start (\<^verbatim>\<open>main.c\<close>)\<close>

definition main :: "byte list \<Rightarrow> ('a fs_state_scheme, unit) kop" where
  "main initcode =
     kbind (kget kend) (\<lambda>e.
     kseq (kinit1 e (P2V (4 * 1024 * 1024)))
    (kseq kvmalloc
    (kseq binit
    (kseq (kinit2 (P2V (4 * 1024 * 1024)) (P2V PHYSTOP))
    (kseq swapinit
    (kseq esinit
    (kseq rdinit
    (kseq (select_scheme 1)
          (userinit initcode)))))))))"

end
