(* ===== verification/Demo.thy ===== *)
theory Demo
  imports File
begin

unbundle bit_operations_syntax

text \<open>
  A small concrete machine on which the hypotheses of the properties are evaluated: one running
  process whose page 0 is mapped, free slots, an empty file system state and one pipe.
\<close>

definition demo_mem :: memory where
  "demo_mem = st32 (st32 (st32 (\<lambda>_. 0) 0x80400000 0x401007) 0x80401000 0x402007) 0x80402000 0x44434241"

definition demo_proc :: proc where
  "demo_proc = \<lparr>p_stat = SUNUSED, p_pid = 0, p_procp = 0, p_prt = None, p_page = 0, p_size = 0,
     p_tf = \<lparr>tf_edi = 0, tf_esi = 0, tf_ebp = 0, tf_oesp = 0, tf_ebx = 0, tf_edx = 0, tf_ecx = 0,
       tf_eax = 0, tf_gs = 0, tf_fs = 0, tf_es = 0, tf_ds = 0, tf_trapno = 0, tf_err = 0,
       tf_eip = 0, tf_cs = 0, tf_eflags = 0, tf_esp = 0, tf_ss = 0\<rparr>,
     p_kstack = 0, p_stack = 0,
     p_ctxt = \<lparr>cx_edi = 0, cx_esi = 0, cx_ebx = 0, cx_ebp = 0, cx_eip = AtZero\<rparr>,
     p_chan = NoChan, p_killed = 0, p_of = replicate P_NOFILE None, p_cdir = None,
     p_name = replicate 16 0, p_time_slice = 0, p_creatime = 0, p_nice = 0, p_spri = 120,
     p_dpri = 120, p_avgslp = 0\<rparr>"

definition demo_lock :: sleeplock where
  "demo_lock = \<lparr>lk_locked = 0, lk_name = [], lk_pid = 0\<rparr>"

definition demo_pipe :: pipe where
  "demo_pipe = \<lparr>pi_data = replicate 512 0, pi_nread = 0xFFFFFFFF, pi_nwrite = 0xFFFFFFFF,
     pi_readopen = True, pi_writeopen = True\<rparr>"

definition demo_state :: fs_state where
  "demo_state = \<lparr>mem = demo_mem, kend = 0x80200000, kdata = 0x80110000, kmem_nfree = 0, kmem_free = 0,
     slab_nfree = 0, slab_free = 0, pgqueue = [], swap_map = (\<lambda>_. 0), swap_disk = (\<lambda>_. replicate 512 0),
     swap_sr = (\<lambda>_. 0x40), swap_waits = 0,
     ptable = demo_proc\<lparr>p_stat := SRUN, p_pid := 1, p_procp := 1, p_page := 0x80400000, p_size := 4096\<rparr>
       # replicate 63 demo_proc,
     nextpid = 2, initproc = Some 0, cur = Some 0, esqueue = [], rdyqueue = [],
     rdy_q_dy = replicate 40 [], cpu_scheme = 1, rr_p = 0, ticks = 0, sched_k = Some RRFrame,
     kpgdir = 0x80400000, cr3 = 0x400000, ts_esp0 = 0, sched_debug = False,
     memdisk = (\<lambda>_. replicate 512 0), disksize = 1000, dwrites = [],
     bufs = replicate 30 \<lparr>b_flags = 0, b_dev = -1, b_blockno = 0, b_lock = demo_lock, b_refcnt = 0,
       b_data = replicate 512 0\<rparr>,
     bhead = rev [0..<30],
     sb = \<lparr>sb_size = 1000, sb_nblocks = 941, sb_ninodes = 200, sb_nlog = 30, sb_logstart = 2,
       sb_inodestart = 32, sb_bmapstart = 58\<rparr>,
     klog = \<lparr>lg_start = 2, lg_size = 30, lg_outstanding = 0, lg_committing = 0, lg_dev = 1, lh_n = 0,
       lh_block = replicate 30 0\<rparr>,
     inodes = replicate 50 \<lparr>i_dev = 0, i_inum = 0, i_ref = 0, i_lock = demo_lock, i_flags = 0,
       i_type = 0, i_major = 0, i_minor = 0, i_nlink = 0, i_size = 0, i_addrs = replicate 13 0\<rparr>,
     ftable = replicate 100 \<lparr>f_type = FD_NONE, f_ref = 0, f_readable = False, f_writable = False,
       f_pipe = 0, f_ip = 0, f_off = 0\<rparr>,
     pipes = [0x80500000 \<mapsto> demo_pipe],
     cinput = \<lparr>in_buf = replicate 128 0, in_r = 0, in_w = 0, in_e = 0\<rparr>, cons_out = []\<rparr>"

lemma demo_fields [simp]:
  "mem demo_state = demo_mem" "cur demo_state = Some 0" "pipes demo_state = [0x80500000 \<mapsto> demo_pipe]"
  "p_page (pof demo_state 0) = 0x80400000" "p_size (pof demo_state 0) = 4096"
  "kmem_nfree demo_state = 0" "kmem_free demo_state = 0" "kend demo_state = 0x80200000"
  "cpu_scheme demo_state = 1" "ticks demo_state = 0"
  by (simp_all add: demo_state_def)

lemma demo_stat: "i < NPROC \<Longrightarrow> p_stat (pof demo_state i) = (if i = 0 then SRUN else SUNUSED)"
  by (cases i) (simp_all add: demo_state_def demo_proc_def NPROC_def)

lemma demo_quiet: "ptable s = ptable demo_state \<Longrightarrow> no_sleeper c s"
  by (simp add: no_sleeper_def demo_stat)

text \<open>The word at user address 0 holds the bytes \<^verbatim>\<open>"ABCD"\<close>.\<close>

lemma demo_user_bytes:
  "map_option demo_mem (user_pa demo_mem 0x80400000 0) = Some 0x41"
  "map_option demo_mem (user_pa demo_mem 0x80400000 1) = Some 0x42"
  by code_simp+

lemma demo_user_pa: "user_pa demo_mem 0x80400000 0 = Some 0x80402000"
  by code_simp

lemma demo_killed: "p_killed (pof demo_state 0) = 0"
  by (simp add: demo_state_def demo_proc_def)

lemma demo_uload: "uload 0 1 demo_state = Done [0x41] demo_state"
  by (simp add: uload_def curproc_def pget_def kop_simps demo_user_bytes)

end
