(* ===== verification/Pipe_Fifo.thy ===== *)
theory Pipe_Fifo
  imports Demo
begin

unbundle bit_operations_syntax

text \<open>
  A pipe is a bounded first-in first-out channel: the byte string between the two counters,
  read modulo the buffer size, is what was written and not yet read. The counters run freely
  modulo \<open>2 ^ 32\<close>; the proof is for every value of them, across the wrap-around.
\<close>

section \<open>The channel contract\<close>

locale byte_channel =
  fixes wf :: "'q \<Rightarrow> bool"
    and content :: "'q \<Rightarrow> 'b list"
    and cap :: nat
    and full :: "'q \<Rightarrow> bool"
    and empty :: "'q \<Rightarrow> bool"
    and put :: "'b \<Rightarrow> 'q \<Rightarrow> 'q"
    and front :: "'q \<Rightarrow> 'b"
    and advance :: "'q \<Rightarrow> 'q"
  assumes bounded: "wf q \<Longrightarrow> length (content q) \<le> cap"
    and full_iff: "wf q \<Longrightarrow> full q \<longleftrightarrow> length (content q) = cap"
    and empty_iff: "wf q \<Longrightarrow> empty q \<longleftrightarrow> content q = []"
    and put_wf: "wf q \<Longrightarrow> \<not> full q \<Longrightarrow> wf (put b q)"
    and put_content: "wf q \<Longrightarrow> \<not> full q \<Longrightarrow> content (put b q) = content q @ [b]"
    and adv_wf: "wf q \<Longrightarrow> \<not> empty q \<Longrightarrow> wf (advance q)"
    and adv_content: "wf q \<Longrightarrow> \<not> empty q \<Longrightarrow> content q = front q # content (advance q)"
begin

text \<open>Any run of writes and reads that respects the two guards, with the bytes put in and taken out.\<close>

inductive run :: "'q \<Rightarrow> 'b list \<Rightarrow> 'b list \<Rightarrow> 'q \<Rightarrow> bool" where
  start: "run q [] [] q"
| wr: "run q ins outs r \<Longrightarrow> \<not> full r \<Longrightarrow> run q (ins @ [b]) outs (put b r)"
| rd: "run q ins outs r \<Longrightarrow> \<not> empty r \<Longrightarrow> run q ins (outs @ [front r]) (advance r)"

lemma run_wf: "run q ins outs r \<Longrightarrow> wf q \<Longrightarrow> wf r"
  by (induction rule: run.induct) (auto intro: put_wf adv_wf)

text \<open>No byte is lost, duplicated or reordered.\<close>

lemma run_fifo: "run q ins outs r \<Longrightarrow> wf q \<Longrightarrow> content q @ ins = outs @ content r"
proof (induction rule: run.induct)
  case (wr q ins outs r b)
  then show ?case using put_content run_wf by fastforce
next
  case (rd q ins outs r)
  have "content r = front r # content (advance r)"
    using rd run_wf adv_content by blast
  with rd show ?case by simp
qed simp

lemma run_bounded: "run q ins outs r \<Longrightarrow> wf q \<Longrightarrow> length (content r) \<le> cap"
  using run_wf bounded by simp

text \<open>Reading \<open>k\<close> bytes in a row.\<close>

lemma advance_n:
  "wf q \<Longrightarrow> k \<le> length (content q) \<Longrightarrow> wf ((advance ^^ k) q) \<and> content ((advance ^^ k) q) = drop k (content q)"
proof (induction k)
  case 0
  then show ?case by simp
next
  case (Suc k)
  then have IH: "wf ((advance ^^ k) q)" "content ((advance ^^ k) q) = drop k (content q)" by auto
  with Suc.prems have ne: "\<not> empty ((advance ^^ k) q)" by (simp add: empty_iff)
  with IH adv_content [OF IH(1) ne] have "drop k (content q) = front ((advance ^^ k) q) # content (advance ((advance ^^ k) q))"
    by simp
  then have "content (advance ((advance ^^ k) q)) = drop (Suc k) (content q)"
    by (metis drop_Suc list.sel(3) tl_drop)
  with adv_wf [OF IH(1) ne] show ?case by simp
qed

end

section \<open>The pipe buffer provides it\<close>

definition pipe_wf :: "pipe \<Rightarrow> bool" where
  "pipe_wf q \<longleftrightarrow> length (pi_data q) = PIPESIZE \<and> unat (pi_nwrite q - pi_nread q) \<le> PIPESIZE"

definition pipe_content :: "pipe \<Rightarrow> byte list" where
  "pipe_content q = map (\<lambda>i. pi_data q ! (unat (pi_nread q + of_nat i) mod PIPESIZE))
     [0..<unat (pi_nwrite q - pi_nread q)]"

lemma length_pipe_content: "length (pipe_content q) = unat (pi_nwrite q - pi_nread q)"
  by (simp add: pipe_content_def)

text \<open>The buffer size divides \<open>2 ^ 32\<close>, so positions are not disturbed by the wrap-around.\<close>

lemma pipe_pos: "unat (r + of_nat i :: u32) mod PIPESIZE = (unat r + i) mod PIPESIZE"
proof -
  have dvd: "PIPESIZE dvd 2 ^ 32" by (simp add: PIPESIZE_def)
  have "unat (r + of_nat i :: u32) = (unat r + i) mod 2 ^ 32"
    by (simp add: unat_word_ariths unat_of_nat mod_simps)
  with dvd show ?thesis by (simp add: mod_mod_cancel)
qed

lemma pipe_pos_neq:
  assumes "i < j" "j < PIPESIZE"
  shows "(a + i) mod PIPESIZE \<noteq> (a + j) mod PIPESIZE"
proof
  assume eq: "(a + i) mod PIPESIZE = (a + j) mod PIPESIZE"
  then have "PIPESIZE dvd (a + j) - (a + i)"
    using mod_eq_dvd_iff_nat [of "a + i" "a + j" PIPESIZE] assms(1) by (simp add: eq)
  then have "PIPESIZE dvd j - i" by simp
  with assms show False using nat_dvd_not_less [of "j - i" PIPESIZE] by simp
qed

lemma pipe_full_iff:
  assumes "pipe_wf q" shows "pipe_full q \<longleftrightarrow> length (pipe_content q) = PIPESIZE"
proof -
  have "pipe_full q \<longleftrightarrow> pi_nwrite q - pi_nread q = of_nat PIPESIZE"
    by (auto simp: pipe_full_def algebra_simps)
  also have "\<dots> \<longleftrightarrow> unat (pi_nwrite q - pi_nread q) = PIPESIZE"
    by (simp add: word_unat_eq_iff unat_of_nat PIPESIZE_def)
  finally show ?thesis by (simp add: length_pipe_content)
qed

lemma pipe_empty_iff: "pipe_empty q \<longleftrightarrow> pipe_content q = []"
proof -
  have "pipe_empty q \<longleftrightarrow> pi_nwrite q - pi_nread q = 0" by (auto simp: pipe_empty_def)
  also have "\<dots> \<longleftrightarrow> length (pipe_content q) = 0" by (simp add: length_pipe_content unat_eq_zero)
  finally show ?thesis by simp
qed

lemma pipe_put_count:
  assumes "pipe_wf q" "\<not> pipe_full q"
  shows "unat (pi_nwrite q + 1 - pi_nread q) = Suc (unat (pi_nwrite q - pi_nread q))"
    and "unat (pi_nwrite q - pi_nread q) < PIPESIZE"
proof -
  show lt: "unat (pi_nwrite q - pi_nread q) < PIPESIZE"
    using assms pipe_full_iff by (fastforce simp: pipe_wf_def length_pipe_content)
  have "pi_nwrite q + 1 - pi_nread q = (pi_nwrite q - pi_nread q) + 1" by (simp add: algebra_simps)
  moreover have "unat ((pi_nwrite q - pi_nread q) + 1) = unat (pi_nwrite q - pi_nread q) + 1"
    using lt by (subst unat_add_small) (simp_all add: PIPESIZE_def)
  ultimately show "unat (pi_nwrite q + 1 - pi_nread q) = Suc (unat (pi_nwrite q - pi_nread q))"
    by (simp only: Suc_eq_plus1)
qed

lemma pipe_put_wf: "pipe_wf q \<Longrightarrow> \<not> pipe_full q \<Longrightarrow> pipe_wf (pipe_put b q)"
  using pipe_put_count [of q] by (simp add: pipe_wf_def pipe_put_def)

lemma pipe_put_content:
  assumes "pipe_wf q" "\<not> pipe_full q"
  shows "pipe_content (pipe_put b q) = pipe_content q @ [b]"
proof -
  define n where "n = unat (pi_nwrite q - pi_nread q)"
  have n: "n < PIPESIZE" "unat (pi_nwrite q + 1 - pi_nread q) = Suc n"
    using pipe_put_count [OF assms] by (simp_all add: n_def)
  have w: "unat (pi_nwrite q) mod PIPESIZE = (unat (pi_nread q) + n) mod PIPESIZE"
  proof -
    have "pi_nwrite q = pi_nread q + of_nat n" by (simp add: n_def)
    then show ?thesis by (metis pipe_pos)
  qed
  have len: "length (pi_data q) = PIPESIZE" using assms by (simp add: pipe_wf_def)
  have old: "(pi_data q)[unat (pi_nwrite q) mod PIPESIZE := b] ! (unat (pi_nread q + of_nat i) mod PIPESIZE)
      = pi_data q ! (unat (pi_nread q + of_nat i) mod PIPESIZE)" if "i < n" for i
    using pipe_pos_neq [OF that n(1), of "unat (pi_nread q)"] by (simp add: w pipe_pos)
  have new: "(pi_data q)[unat (pi_nwrite q) mod PIPESIZE := b] ! (unat (pi_nread q + of_nat n) mod PIPESIZE) = b"
  proof -
    have "x mod PIPESIZE < PIPESIZE" for x by (simp add: PIPESIZE_def)
    with len show ?thesis unfolding w pipe_pos by simp
  qed
  show ?thesis
    using old new by (simp add: pipe_content_def pipe_put_def n n_def [symmetric])
qed

lemma pipe_adv_count:
  assumes "\<not> pipe_empty q"
  shows "unat (pi_nwrite q - pi_nread q) = Suc (unat (pi_nwrite q - (pi_nread q + 1)))"
proof -
  have "pi_nwrite q - pi_nread q \<noteq> 0" using assms by (auto simp: pipe_empty_def)
  then have "unat (pi_nwrite q - pi_nread q - 1) = unat (pi_nwrite q - pi_nread q) - 1"
    by (rule unat_minus_one)
  moreover have "unat (pi_nwrite q - pi_nread q) \<noteq> 0"
    using \<open>pi_nwrite q - pi_nread q \<noteq> 0\<close> by (simp add: unat_eq_zero)
  ultimately show ?thesis by (simp add: diff_diff_eq)
qed

lemma pipe_adv_wf: "pipe_wf q \<Longrightarrow> \<not> pipe_empty q \<Longrightarrow> pipe_wf (pipe_advance q)"
  using pipe_adv_count [of q] by (simp add: pipe_wf_def pipe_advance_def)

lemma pipe_adv_content:
  assumes "\<not> pipe_empty q"
  shows "pipe_content q = pipe_next q # pipe_content (pipe_advance q)"
proof -
  show ?thesis
    unfolding pipe_content_def pipe_adv_count [OF assms] map_upt_Suc
    by (simp add: pipe_next_def pipe_advance_def add.assoc)
qed

interpretation pipe: byte_channel pipe_wf pipe_content PIPESIZE pipe_full pipe_empty pipe_put pipe_next pipe_advance
proof unfold_locales
  show "length (pipe_content q) \<le> PIPESIZE" if "pipe_wf q" for q
    using that by (simp add: pipe_wf_def length_pipe_content)
qed (simp_all add: pipe_full_iff pipe_empty_iff pipe_put_wf pipe_put_content pipe_adv_wf,
     simp add: pipe_adv_content flip: pipe_empty_iff)

section \<open>Writers and readers\<close>

text \<open>Reading user memory changes nothing; the pipes are out of reach of the memory and scheduler operations.\<close>

lemma uload_from_state: "uload_from n pg va s = Done bs t \<Longrightarrow> t = s \<and> length bs = n"
proof (induction n arbitrary: va bs)
  case 0
  then show ?case by (simp add: kop_simps)
next
  case (Suc n)
  then obtain b bs' u where "uload_from n pg (va + 1) s = Done bs' u" "bs = b # bs'" "t = u"
    by (auto simp: kop_simps split: option.splits outcome.splits)
  with Suc.IH show ?case by auto
qed

lemma uload_eval:
  "uload va n s = (case cur s of None \<Rightarrow> Fault | Some c \<Rightarrow> uload_from n (p_page (pof s c)) va s)"
  by (simp add: uload_def curproc_def pget_def kop_simps split: option.split)

lemma uload_state: "uload va n s = Done bs t \<Longrightarrow> t = s \<and> length bs = n"
  by (auto simp: uload_eval uload_from_state split: option.splits)

lemma uload_split:
  assumes "uload va 1 s = Done [b] s" "uload (va + 1) n s = Done bs s"
  shows "uload va (Suc n) s = Done (b # bs) s"
  using assms by (auto simp: uload_eval kop_simps split: option.splits)

lemma uload_pipes [simp]:
  "uload va n (s\<lparr>pipes := x\<rparr>) =
     (case uload va n s of Done bs t \<Rightarrow> Done bs (s\<lparr>pipes := x\<rparr>) | Slept c t \<Rightarrow> Slept c (s\<lparr>pipes := x\<rparr>)
      | Panicked m \<Rightarrow> Panicked m | Fault \<Rightarrow> Fault)"
proof -
  have "uload_from n pg va (s\<lparr>pipes := x\<rparr>) =
     (case uload_from n pg va s of Done bs t \<Rightarrow> Done bs (s\<lparr>pipes := x\<rparr>)
      | Slept c t \<Rightarrow> Slept c (s\<lparr>pipes := x\<rparr>) | Panicked m \<Rightarrow> Panicked m | Fault \<Rightarrow> Fault)" for pg
    by (induction n arbitrary: va) (simp_all add: kop_simps split: option.split outcome.split)
  then show ?thesis by (simp add: uload_eval split: option.split)
qed

lemma uload_from_not_Slept: "uload_from n pg va s \<noteq> Slept c t"
  by (induction n arbitrary: va t) (auto simp: kop_simps split: option.splits outcome.splits)

lemma uload_not_Slept: "uload va n s \<noteq> Slept c t"
  by (simp add: uload_eval uload_from_not_Slept split: option.split)

lemma wakeup_pipes: "wakeup c s = Done a t \<Longrightarrow> pipes t = pipes s"
  by (rule fs_more(10), rule keepsD [OF enq_frame(3)])

text \<open>
  The writer has moved \<open>j\<close> bytes from index \<open>i\<close> of the caller's buffer to the end of the pipe.
\<close>

definition wrote :: "addr \<Rightarrow> addr \<Rightarrow> nat \<Rightarrow> 'a fs_state_scheme \<Rightarrow> pipe \<Rightarrow> 'a fs_state_scheme \<Rightarrow> nat \<Rightarrow> pipe \<Rightarrow> bool" where
  "wrote p a i s q t j q' \<longleftrightarrow> (\<exists>bs. uload (a + of_nat i) j s = Done bs s \<and> pipes t p = Some q' \<and>
     pipe_wf q' \<and> pipe_content q' = pipe_content q @ bs)"

lemma wrote_none:
  "cur s \<noteq> None \<Longrightarrow> pipes t p = Some q \<Longrightarrow> pipe_wf q \<Longrightarrow> wrote p a i s q t 0 q"
  by (auto simp: wrote_def uload_eval kop_simps)

lemma wrote_one:
  assumes "pipe_wf q" "\<not> pipe_full q" "uload (a + of_nat i) 1 s = Done [b] s"
    and "wrote p a (Suc i) (s\<lparr>pipes := x\<rparr>) (pipe_put b q) t j q'"
  shows "wrote p a i s q t (Suc j) q'"
proof -
  obtain bs where u: "uload (a + of_nat (Suc i)) j (s\<lparr>pipes := x\<rparr>) = Done bs (s\<lparr>pipes := x\<rparr>)"
    and q': "pipes t p = Some q'" "pipe_wf q'" "pipe_content q' = pipe_content q @ b # bs"
    using assms(1,2,4) by (auto simp: wrote_def pipe_put_content)
  have nx: "a + of_nat (Suc i) = a + of_nat i + 1" by simp
  obtain u' where "uload (a + of_nat i + 1) j s = Done bs u'"
    using u unfolding nx by (auto split: outcome.splits)
  then have "uload (a + of_nat i + 1) j s = Done bs s" using uload_state by blast
  from uload_split [OF assms(3) this] q' show ?thesis by (auto simp: wrote_def)
qed

text \<open>
  The writer's loop puts the bytes it reads from the caller's buffer at the end of the pipe, until all are there or the pipe is full.
\<close>

lemma pipewrite_fill_spec:
  assumes "pipewrite_fill k p a i s = Done j t" "pipes s p = Some q" "pipe_wf q" "cur s \<noteq> None"
  shows "\<exists>m q'. j = i + m \<and> m \<le> k \<and> wrote p a i s q t m q' \<and> (m < k \<longrightarrow> pipe_full q') \<and> t = s\<lparr>pipes := pipes t\<rparr>"
  using assms
proof (induction k arbitrary: i s q)
  case 0
  then have "j = i" "t = s" by (simp_all add: kop_simps)
  then show ?case using wrote_none [OF 0(4,2,3)] by auto
next
  case (Suc k)
  show ?case
  proof (cases "pipe_full q")
    case True
    then have "j = i" "t = s" using Suc.prems(1,2) by (simp_all add: kop_simps pipe_of_def)
    then show ?thesis using True wrote_none [OF Suc.prems(4,2,3)] by auto
  next
    case False
    let ?s = "s\<lparr>pipes := (pipes s)(p \<mapsto> pipe_put b q)\<rparr>"
    obtain b where b: "uload (a + of_nat i) 1 s = Done [b] s"
      and run: "pipewrite_fill k p a (Suc i) (s\<lparr>pipes := (pipes s)(p \<mapsto> pipe_put b q)\<rparr>) = Done j t"
      using Suc.prems(1,2) False uload_state [of "a + of_nat i" 1 s]
      by (auto simp: kop_simps pipe_of_def kpipe_def length_Suc_conv split: outcome.splits)
    from Suc.IH [OF run] Suc.prems False obtain m q' where m: "j = Suc i + m" "m \<le> k"
      "wrote p a (Suc i) (s\<lparr>pipes := (pipes s)(p \<mapsto> pipe_put b q)\<rparr>) (pipe_put b q) t m q'" "m < k \<longrightarrow> pipe_full q'"
      "t = s\<lparr>pipes := pipes t\<rparr>"
      by (auto simp: pipe_put_wf)
    with wrote_one [OF Suc.prems(3) False b m(3)] show ?thesis by (intro exI [of _ "Suc m"] exI [of _ q']) auto
  qed
qed

lemma pipewrite_fill_awake: "awake (pipewrite_fill k p a i)"
proof (induction k arbitrary: i)
  case (Suc k)
  have "awake (pipe_of p)" "awake (uload va n)" "awake (kpipe p f)" for va n f
    by (auto simp: awake_def pipe_of_def kpipe_def kop_simps uload_not_Slept split: option.split)
  then show ?case using Suc by (auto intro!: awakes)
qed (simp add: awakes)

text \<open>Whether a stretch of the call ends or sleeps, it has appended the bytes up to the index it reaches.\<close>

lemma pipewrite_fromD:
  assumes s: "pipes s p = Some q" "pipe_wf q" "cur s \<noteq> None" and i: "i \<le> nat n"
    and f: "pipewrite_fill (nat n - i) p a i s = Done j u"
  obtains m q' where "j = i + m" "m \<le> nat n - i" "wrote p a i s q u m q'" "m < nat n - i \<longrightarrow> pipe_full q'" "u = s\<lparr>pipes := pipes u\<rparr>"
    "pipewrite_from p a n i s =
       (if m = nat n - i then kseq (wakeup (ChPipeRead p)) (kret n) u
        else kbind curproc (\<lambda>c. kbind (pget c p_killed) (\<lambda>kl.
           if \<not> pi_readopen q' \<or> kl \<noteq> 0 then kret (-1) else kseq (wakeup (ChPipeRead p)) (ksleep (ChPipeWrite p)))) u)"
proof -
  obtain m q' where m: "j = i + m" "m \<le> nat n - i" "wrote p a i s q u m q'" "m < nat n - i \<longrightarrow> pipe_full q'" "u = s\<lparr>pipes := pipes u\<rparr>"
    using pipewrite_fill_spec [OF f s] by blast
  have "n \<le> int j \<longleftrightarrow> m = nat n - i" using m(1,2) i by linarith
  moreover have "pipes u p = Some q'" using m(3) by (auto simp: wrote_def)
  ultimately have "pipewrite_from p a n i s =
       (if m = nat n - i then kseq (wakeup (ChPipeRead p)) (kret n) u
        else kbind curproc (\<lambda>c. kbind (pget c p_killed) (\<lambda>kl.
           if \<not> pi_readopen q' \<or> kl \<noteq> 0 then kret (-1) else kseq (wakeup (ChPipeRead p)) (ksleep (ChPipeWrite p)))) u)"
    using f by (simp add: pipewrite_from_def kop_simps pipe_of_def)
  with m show ?thesis by (rule that)
qed

lemma wrote_pipes: "wrote p a i s q u m q' \<Longrightarrow> pipes t = pipes u \<Longrightarrow> wrote p a i s q t m q'"
  by (simp add: wrote_def)

lemma pipewrite_fill_runs:
  assumes "pipewrite_from p a n i s = Done r t \<or> pipewrite_from p a n i s = Slept c t"
  obtains j u where "pipewrite_fill (nat n - i) p a i s = Done j u"
proof (cases "pipewrite_fill (nat n - i) p a i s")
  case (Done j u)
  then show ?thesis by (rule that)
next
  case (Slept c u)
  then show ?thesis using awakeD [OF pipewrite_fill_awake] by blast
qed (use assms in \<open>simp_all add: pipewrite_from_def kop_simps\<close>)

lemma pipewrite_from_Done:
  assumes "pipewrite_from p a n i s = Done r t" "pipes s p = Some q" "pipe_wf q" "cur s \<noteq> None" "i \<le> nat n"
  shows "\<exists>m q'. m \<le> nat n - i \<and> wrote p a i s q t m q' \<and> (m = nat n - i \<and> r = n \<or> r = -1 \<and> pipe_full q')"
proof -
  obtain j u where f: "pipewrite_fill (nat n - i) p a i s = Done j u" using pipewrite_fill_runs assms(1) by metis
  obtain m q' where "j = i + m" and m: "m \<le> nat n - i" "wrote p a i s q u m q'" "m < nat n - i \<longrightarrow> pipe_full q'" and
    "u = s\<lparr>pipes := pipes u\<rparr>" and run: "pipewrite_from p a n i s =
       (if m = nat n - i then kseq (wakeup (ChPipeRead p)) (kret n) u
        else kbind curproc (\<lambda>c. kbind (pget c p_killed) (\<lambda>kl.
           if \<not> pi_readopen q' \<or> kl \<noteq> 0 then kret (-1) else kseq (wakeup (ChPipeRead p)) (ksleep (ChPipeWrite p)))) u)"
    by (rule pipewrite_fromD [OF assms(2-5) f])
  show ?thesis
  proof (cases "m = nat n - i")
    case True
    with run assms(1) obtain x where "wakeup (ChPipeRead p) u = Done x t" "r = n" by (auto simp: kop_simps split: outcome.splits)
    with wrote_pipes [OF m(2) wakeup_pipes] True show ?thesis by blast
  next
    case False
    with run assms(1) have "r = -1" "t = u"
      by (auto simp: kop_simps curproc_def pget_def split: outcome.splits if_splits option.splits)
    with m False show ?thesis by auto
  qed
qed

lemma pipewrite_from_Slept:
  assumes "pipewrite_from p a n i s = Slept c t" "pipewrite_fill (nat n - i) p a i s = Done j u"
    "pipes s p = Some q" "pipe_wf q" "cur s \<noteq> None" "i \<le> nat n"
  shows "\<exists>m q'. j = i + m \<and> m < nat n - i \<and> wrote p a i s q t m q' \<and> c = ChPipeWrite p \<and> pipe_full q'"
proof -
  obtain m q' where m: "j = i + m" "m \<le> nat n - i" "wrote p a i s q u m q'" "m < nat n - i \<longrightarrow> pipe_full q'"
    and "u = s\<lparr>pipes := pipes u\<rparr>" and run: "pipewrite_from p a n i s =
       (if m = nat n - i then kseq (wakeup (ChPipeRead p)) (kret n) u
        else kbind curproc (\<lambda>c. kbind (pget c p_killed) (\<lambda>kl.
           if \<not> pi_readopen q' \<or> kl \<noteq> 0 then kret (-1) else kseq (wakeup (ChPipeRead p)) (ksleep (ChPipeWrite p)))) u)"
    by (rule pipewrite_fromD [OF assms(3-6,2)])
  have ne: "m \<noteq> nat n - i" using run assms(1) awakeD [OF enq_awake(3)] by (auto simp: kop_simps split: outcome.splits if_splits)
  then obtain x where "wakeup (ChPipeRead p) u = Done x t" "c = ChPipeWrite p"
    using run assms(1) awakeD [OF enq_awake(3)]
    by (auto simp: kop_simps curproc_def pget_def split: outcome.splits if_splits option.splits)
  moreover have "m < nat n - i" using m(2) ne by simp
  ultimately show ?thesis using m(1,4) wrote_pipes [OF m(3) wakeup_pipes] by blast
qed

text \<open>
  A whole call of \<^verbatim>\<open>pipewrite\<close>: each time it sleeps, other processes put bytes into the pipe and take bytes out of it, and may close
  the other end; the call then goes on at the index it has reached. \<open>bytes\<close> is what the process has in its buffer
  whenever it runs; the list has what the others put in and took out during each sleep.
\<close>

definition pipe_evolves :: "pipe \<Rightarrow> byte list \<Rightarrow> byte list \<Rightarrow> pipe \<Rightarrow> bool" where
  "pipe_evolves q ins outs q' \<longleftrightarrow>
     (\<exists>r. pipe.run q ins outs r \<and> pi_data q' = pi_data r \<and> pi_nread q' = pi_nread r \<and> pi_nwrite q' = pi_nwrite r)"

inductive pipewrite_call ::
    "addr \<Rightarrow> addr \<Rightarrow> int \<Rightarrow> byte list \<Rightarrow> nat \<Rightarrow> 'a fs_state_scheme \<Rightarrow> (byte list \<times> byte list) list \<Rightarrow> int \<Rightarrow> 'a fs_state_scheme \<Rightarrow> bool"
  for p a n bytes where
  returns: "uload a (nat n) s = Done bytes s \<Longrightarrow> pipewrite_from p a n i s = Done r t \<Longrightarrow> pipewrite_call p a n bytes i s [] r t"
| resumes: "uload a (nat n) s = Done bytes s \<Longrightarrow> pipewrite_from p a n i s = Slept c u \<Longrightarrow>
    pipewrite_fill (nat n - i) p a i s = Done j w \<Longrightarrow> pipes u p = Some q \<Longrightarrow> pipe_evolves q ins outs q' \<Longrightarrow> pipes v p = Some q' \<Longrightarrow>
    pipewrite_call p a n bytes j v os r t \<Longrightarrow> pipewrite_call p a n bytes i s ((ins, outs) # os) r t"

lemma pipe_evolves_fifo:
  assumes "pipe_evolves q ins outs q'" "pipe_wf q"
  shows "pipe_wf q'" "pipe_content q @ ins = outs @ pipe_content q'"
proof -
  obtain r where r: "pipe.run q ins outs r" "pi_data q' = pi_data r" "pi_nread q' = pi_nread r" "pi_nwrite q' = pi_nwrite r"
    using assms(1) by (auto simp: pipe_evolves_def)
  then have "pipe_wf q' = pipe_wf r" "pipe_content q' = pipe_content r" by (simp_all add: pipe_wf_def pipe_content_def)
  with pipe.run_wf [OF r(1) assms(2)] pipe.run_fifo [OF r(1) assms(2)] show "pipe_wf q'" "pipe_content q @ ins = outs @ pipe_content q'" by simp_all
qed

text \<open>The stretches of the call with what the others write between them.\<close>

fun weave :: "'b list list \<Rightarrow> 'b list list \<Rightarrow> 'b list" where
  "weave (c # cs) (i # is) = c @ i @ weave cs is"
| "weave cs [] = concat cs"
| "weave [] is = concat is"

lemma uload_slice:
  assumes "uload a n s = Done bytes s" "i + m \<le> n"
  shows "uload (a + of_nat i) m s = Done (take m (drop i bytes)) s"
proof -
  have "uload_from n pg a s = Done bytes s \<Longrightarrow> i + m \<le> n \<Longrightarrow> uload_from m pg (a + of_nat i) s = Done (take m (drop i bytes)) s" for pg
  proof (induction n arbitrary: a bytes i m)
    case (Suc n)
    obtain x bs where b: "user_pa (mem s) pg a = Some x" "uload_from n pg (a + 1) s = Done bs s" "bytes = mem s x # bs"
      using Suc.prems(1) uload_from_state [of n pg "a + 1" s] by (auto simp: kop_simps split: option.splits outcome.splits)
    show ?case
    proof (cases i)
      case 0
      show ?thesis
      proof (cases m)
        case (Suc m')
        have "uload_from m' pg (a + 1 + of_nat 0) s = Done (take m' (drop 0 bs)) s"
          by (rule Suc.IH [OF b(2)]) (use Suc.prems(2) 0 Suc in simp)
        then show ?thesis using b 0 Suc by (simp add: kop_simps)
      qed (simp add: kop_simps)
    next
      case (Suc i')
      have "uload_from m pg (a + 1 + of_nat i') s = Done (take m (drop i' bs)) s"
        by (rule Suc.IH [OF b(2)]) (use Suc.prems(2) Suc in simp)
      then show ?thesis using b Suc by (simp add: algebra_simps)
    qed
  qed (simp add: kop_simps)
  with assms show ?thesis by (auto simp: uload_eval split: option.splits)
qed

lemma wrote_slice:
  assumes "wrote p a i s q t m q'" "uload a (nat n) s = Done bytes s" "i + m \<le> nat n"
  shows "pipes t p = Some q'" "pipe_wf q'" "pipe_content q' = pipe_content q @ take m (drop i bytes)"
  using assms uload_slice [OF assms(2,3)] by (auto simp: wrote_def)

lemma pipewrite_call_spec:
  assumes "pipewrite_call p a n bytes i s os r t" "pipes s p = Some q" "pipe_wf q" "i \<le> nat n"
  shows "\<exists>chunks q'. length chunks = Suc (length os) \<and> pipes t p = Some q' \<and> pipe_wf q' \<and>
    pipe_content q @ weave chunks (map fst os) = concat (map snd os) @ pipe_content q' \<and>
    (concat chunks = drop i bytes \<and> r = n \<or> r = -1 \<and> pipe_full q' \<and> (\<exists>m. concat chunks = take m (drop i bytes)))"
  using assms
proof (induction arbitrary: q rule: pipewrite_call.induct)
  case (returns s i r t)
  have c: "cur s \<noteq> None" using returns.hyps(1) by (auto simp: uload_eval split: option.splits)
  have len: "length bytes = nat n" using uload_state [OF returns.hyps(1)] by simp
  obtain m q' where m: "m \<le> nat n - i" "wrote p a i s q t m q'" "m = nat n - i \<and> r = n \<or> r = -1 \<and> pipe_full q'"
    using pipewrite_from_Done [OF returns.hyps(2) returns.prems(1,2) c returns.prems(3)] by blast
  have w: "pipes t p = Some q'" "pipe_wf q'" "pipe_content q' = pipe_content q @ take m (drop i bytes)"
    using wrote_slice [OF m(2) returns.hyps(1)] m(1) returns.prems(3) by simp_all
  have "m = nat n - i \<Longrightarrow> take m (drop i bytes) = drop i bytes" using len by simp
  then show ?case using w m(3) by (intro exI [of _ "[take m (drop i bytes)]"] exI [of _ q']) auto
next
  case (resumes s i c u j w q0 ins outs q1 v os r t)
  have c: "cur s \<noteq> None" using resumes.hyps(1) by (auto simp: uload_eval split: option.splits)
  obtain m q' where m: "j = i + m" "m < nat n - i" "wrote p a i s q u m q'"
    using pipewrite_from_Slept [OF resumes.hyps(2,3) resumes.prems(1,2) c resumes.prems(3)] by blast
  have w: "pipes u p = Some q'" "pipe_wf q'" "pipe_content q' = pipe_content q @ take m (drop i bytes)"
    using wrote_slice [OF m(3) resumes.hyps(1)] m(2) by simp_all
  then have q0: "q0 = q'" using resumes.hyps(4) by simp
  note E = pipe_evolves_fifo [OF resumes.hyps(5), unfolded q0, OF w(2)]
  have "j \<le> nat n" using m(1,2) by simp
  from resumes.IH [OF resumes.hyps(6) E(1) this] obtain cs q2 where cs: "length cs = Suc (length os)" "pipes t p = Some q2" "pipe_wf q2"
    "pipe_content q1 @ weave cs (map fst os) = concat (map snd os) @ pipe_content q2"
    "concat cs = drop j bytes \<and> r = n \<or> r = -1 \<and> pipe_full q2 \<and> (\<exists>m. concat cs = take m (drop j bytes))" by blast
  let ?cs = "take m (drop i bytes) # cs"
  have d: "take m (drop i bytes) @ drop j bytes = drop i bytes" unfolding m(1) by (metis add.commute append_take_drop_id drop_drop)
  have "take m (drop i bytes) @ take k (drop j bytes) = take (m + k) (drop i bytes)" for k
    unfolding m(1) using take_add [of m k "drop i bytes"] by (simp add: add.commute [of i m])
  then have "concat ?cs = drop i bytes \<and> r = n \<or> r = -1 \<and> pipe_full q2 \<and> (\<exists>m. concat ?cs = take m (drop i bytes))"
    using cs(5) d by auto
  moreover have "pipe_content q @ weave ?cs (ins # map fst os) = outs @ concat (map snd os) @ pipe_content q2"
  proof -
    have "pipe_content q @ weave ?cs (ins # map fst os) = (pipe_content q' @ ins) @ weave cs (map fst os)" by (simp add: w(3))
    also have "\<dots> = outs @ (pipe_content q1 @ weave cs (map fst os))" by (simp add: E(2))
    finally show ?thesis by (simp add: cs(4))
  qed
  ultimately show ?case using cs(1-3) by (intro exI [of _ ?cs] exI [of _ q2]) simp
qed

text \<open>With room for all the bytes the call returns without sleeping.\<close>

lemma pipewrite_fill_room:
  assumes "uload a n s = Done bytes s" "pipes s p = Some q" "pipe_wf q" "i + k = n" "length (pipe_content q) + k \<le> PIPESIZE"
  shows "\<exists>t. pipewrite_fill k p a i s = Done n t \<and> t = s\<lparr>pipes := pipes t\<rparr>"
  using assms
proof (induction k arbitrary: i s q)
  case (Suc k)
  have "uload (a + of_nat i) 1 s = Done (take 1 (drop i bytes)) s" using uload_slice [OF Suc.prems(1), of i 1] Suc.prems(4) by simp
  moreover have "length (take 1 (drop i bytes)) = 1" using uload_state [OF calculation] by simp
  ultimately obtain b where b: "uload (a + of_nat i) 1 s = Done [b] s" by (metis One_nat_def length_0_conv length_Suc_conv)
  have nf: "\<not> pipe_full q" using Suc.prems(3,5) by (simp add: pipe_full_iff)
  let ?s = "s\<lparr>pipes := (pipes s)(p \<mapsto> pipe_put b q)\<rparr>"
  have "\<exists>t. pipewrite_fill k p a (Suc i) ?s = Done n t \<and> t = ?s\<lparr>pipes := pipes t\<rparr>"
    by (rule Suc.IH [where q = "pipe_put b q"]) (use Suc.prems nf in \<open>simp_all add: pipe_put_wf pipe_put_content\<close>)
  then show ?case using Suc.prems(2) nf b by (auto simp: kop_simps pipe_of_def kpipe_def)
qed (auto simp: kop_simps)

text \<open>The reader's loop stores the front of the pipe in the caller's buffer.\<close>

lemma ustore_eval:
  "ustore va bs s = (case cur s of None \<Rightarrow> Fault | Some c \<Rightarrow> ustore_at (p_page (pof s c)) va bs s)"
  by (simp add: ustore_def curproc_def pget_def kop_simps split: option.split)

lemma ustore_at_Done_keeps:
  "ustore_at pg va bs s = Done () u \<Longrightarrow> \<exists>m. u = s\<lparr>mem := m\<rparr>"
proof (induction bs arbitrary: va s)
  case Nil
  then have "u = s\<lparr>mem := mem s\<rparr>" by (simp add: kop_simps)
  then show ?case by blast
next
  case (Cons b bs)
  then obtain a where "ustore_at pg (va + 1) bs (s\<lparr>mem := (mem s)(a := b)\<rparr>) = Done () u"
    by (auto simp: kop_simps split: option.splits)
  from Cons.IH [OF this] show ?case by auto
qed

lemma ustore_mem: "ustore va bs s = Done () u \<Longrightarrow> \<exists>m. u = s\<lparr>mem := m\<rparr>"
  unfolding ustore_eval using ustore_at_Done_keeps by (cases "cur s") simp_all

lemma ustore_cons:
  "ustore va (b # bs) s = kseq (ustore va [b]) (ustore (va + 1) bs) s"
  by (simp add: ustore_eval kop_simps split: option.split)

lemma set_mem_pipes: "set_mem m (s\<lparr>pipes := x\<rparr>) = (set_mem m s)\<lparr>pipes := x\<rparr>"
  by (cases s) simp

lemma ustore_pipes:
  "ustore va bs (s\<lparr>pipes := x\<rparr>) =
     (case ustore va bs s of Done a t \<Rightarrow> Done a (t\<lparr>pipes := x\<rparr>) | Slept c t \<Rightarrow> Slept c (t\<lparr>pipes := x\<rparr>)
      | Panicked m \<Rightarrow> Panicked m | Fault \<Rightarrow> Fault)"
proof -
  have "ustore_at pg va bs (s\<lparr>pipes := x\<rparr>) =
     (case ustore_at pg va bs s of Done a t \<Rightarrow> Done a (t\<lparr>pipes := x\<rparr>) | Slept c t \<Rightarrow> Slept c (t\<lparr>pipes := x\<rparr>)
      | Panicked m \<Rightarrow> Panicked m | Fault \<Rightarrow> Fault)" for pg
    by (induction bs arbitrary: va s) (simp_all add: kop_simps set_mem_pipes split: option.split)
  then show ?thesis by (simp add: ustore_eval split: option.split)
qed

lemma piperead_loop_spec:
  fixes s :: "'a fs_state_scheme"
  assumes "piperead_loop k p a i s = Done j t" "pipes s p = Some q" "pipe_wf q" "cur s \<noteq> None"
    and m: "m = min k (length (pipe_content q))"
  shows "j = i + m \<and> (\<exists>u. ustore (a + of_nat i) (take m (pipe_content q)) s = Done () u \<and>
           t = u\<lparr>pipes := (pipes s)(p \<mapsto> (pipe_advance ^^ m) q)\<rparr>)"
  using assms
proof (induction k arbitrary: i s q m)
  case 0
  then have "t = s" "j = i" "m = 0" "(pipes s)(p \<mapsto> q) = pipes s" by (simp_all add: kop_simps map_upd_triv)
  with 0 show ?case by (simp add: kop_simps ustore_eval split: option.split)
next
  case (Suc k)
  show ?case
  proof (cases "pipe_empty q")
    case True
    with Suc.prems have "t = s" "j = i" "(pipes s)(p \<mapsto> q) = pipes s"
      by (simp_all add: kop_simps pipe_of_def map_upd_triv)
    moreover have "m = 0" using True Suc.prems by (simp add: pipe_empty_iff)
    ultimately show ?thesis using Suc.prems by (simp add: kop_simps ustore_eval split: option.split)
  next
    case False
    let ?x = "(pipes s)(p \<mapsto> pipe_advance q)" and ?va = "a + of_nat i"
    have c: "pipe_content q = pipe_next q # pipe_content (pipe_advance q)"
      using False by (rule pipe_adv_content)
    obtain u where u: "ustore ?va [pipe_next q] s = Done () u"
      and run: "piperead_loop k p a (Suc i) (u\<lparr>pipes := ?x\<rparr>) = Done j t"
      using Suc.prems(1,2) False
      by (auto simp: kop_simps pipe_of_def kpipe_def ustore_pipes split: outcome.splits)
    obtain mm where mm: "u = s\<lparr>mem := mm\<rparr>"
      using ustore_mem [OF u] by blast
    define m' where "m' = min k (length (pipe_content (pipe_advance q)))"
    have m: "m = Suc m'" using Suc.prems(5) by (simp add: m'_def c)
    have "j = Suc i + m' \<and> (\<exists>v. ustore (a + of_nat (Suc i)) (take m' (pipe_content (pipe_advance q)))
        (u\<lparr>pipes := ?x\<rparr>) = Done () v \<and> t = v\<lparr>pipes := ?x(p \<mapsto> (pipe_advance ^^ m') (pipe_advance q))\<rparr>)"
    proof -
      have pre: "pipes (u\<lparr>pipes := ?x\<rparr>) p = Some (pipe_advance q)" "pipe_wf (pipe_advance q)"
        "cur (u\<lparr>pipes := ?x\<rparr>) \<noteq> None"
        using Suc.prems False mm by (simp_all add: pipe_adv_wf)
      have same: "pipes (u\<lparr>pipes := ?x\<rparr>) = ?x" by simp
      show ?thesis using Suc.IH [OF run pre m'_def] unfolding same .
    qed
    then obtain v where j: "j = i + m"
      and v: "ustore (?va + 1) (take m' (pipe_content (pipe_advance q))) u = Done () v"
      and t: "t = v\<lparr>pipes := (pipes s)(p \<mapsto> (pipe_advance ^^ m) q)\<rparr>"
      by (auto simp: ustore_pipes m funpow_swap1 ac_simps split: outcome.splits)
    have "ustore ?va (take m (pipe_content q)) s = Done () v"
      using u v by (simp add: c m) (subst ustore_cons, simp add: kop_simps)
    with j t show ?thesis by blast
  qed
qed

section \<open>Properties\<close>

lemma demo_pipe_wf: "pipe_wf demo_pipe" "\<not> pipe_full demo_pipe"
  by (simp_all add: pipe_wf_def demo_pipe_def PIPESIZE_def pipe_full_def)

text \<open>
  C15 (pipes). For any sequence of single-byte writes guarded by \<^verbatim>\<open>nwrite != nread + PIPESIZE\<close> and
  reads guarded by \<^verbatim>\<open>nread != nwrite\<close>, in any interleaving and from any counter values, what was in
  the pipe followed by what was written is what was read followed by what is in the pipe, and
  the pipe never holds more than \<^verbatim>\<open>PIPESIZE\<close> bytes.
\<close>

theorem pipe_fifo:
  assumes "pipe.run q ins outs r" "pipe_wf q"
  shows "pipe_content q @ ins = outs @ pipe_content r \<and> length (pipe_content r) \<le> PIPESIZE"
  using pipe.run_fifo [OF assms] pipe.run_bounded [OF assms] by simp

theorem pipe_fifo_witness:
  "\<exists>r. pipe_content demo_pipe @ [7, 8] = [7] @ pipe_content r \<and> pipe_content r = [8]"
proof -
  have e: "pipe_content demo_pipe = []" by (simp add: pipe_content_def demo_pipe_def)
  let ?r = "pipe_advance (pipe_put 8 (pipe_put 7 demo_pipe))"
  have "pipe.run demo_pipe ([] @ [7]) [] (pipe_put 7 demo_pipe)"
    by (intro pipe.run.intros demo_pipe_wf)
  then have "pipe.run demo_pipe (([] @ [7]) @ [8]) [] (pipe_put 8 (pipe_put 7 demo_pipe))"
    by (rule pipe.run.wr) (simp add: pipe_full_def pipe_put_def demo_pipe_def PIPESIZE_def)
  then have "pipe.run demo_pipe (([] @ [7]) @ [8]) ([] @ [pipe_next (pipe_put 8 (pipe_put 7 demo_pipe))]) ?r"
    by (rule pipe.run.rd) (simp add: pipe_empty_def pipe_put_def demo_pipe_def)
  moreover have "pipe_next (pipe_put 8 (pipe_put 7 demo_pipe)) = 7"
    by (simp add: pipe_next_def pipe_put_def demo_pipe_def PIPESIZE_def)
  ultimately have "pipe.run demo_pipe [7, 8] [7] ?r" by simp
  from pipe_fifo [OF this demo_pipe_wf(1)] show ?thesis by (auto simp: e)
qed

text \<open>
  C18 (pipes). However often a call of \<^verbatim>\<open>pipewrite\<close> goes to sleep, and whatever the other processes read and write meanwhile, the
  bytes of the caller's buffer go through the pipe once each and in order: what was in the pipe, followed by the stretches of
  the buffer that the call has written and by what others wrote between them, is what was read meanwhile followed
  by what is in the pipe in the end. The stretches make up the whole buffer when the call returns \<open>n\<close>; otherwise it returns \<open>-1\<close>, the pipe
  is full and the stretches make up a prefix of the buffer. With room for all the bytes and nobody waiting, the call returns at once.
\<close>

theorem pipewrite_appends:
  assumes "pipewrite_call p a n bytes 0 s os r t" "pipes s p = Some q" "pipe_wf q"
  shows "(\<exists>chunks q'. length chunks = Suc (length os) \<and> pipes t p = Some q' \<and> pipe_wf q' \<and>
      pipe_content q @ weave chunks (map fst os) = concat (map snd os) @ pipe_content q' \<and>
      (concat chunks = bytes \<and> r = n \<or> r = -1 \<and> pipe_full q' \<and> (\<exists>m. concat chunks = take m bytes))) \<and>
    (length (pipe_content q) + nat n \<le> PIPESIZE \<and> no_sleeper (ChPipeRead p) s \<longrightarrow> (\<exists>u. pipewrite p a n s = Done n u))"
proof
  show "\<exists>chunks q'. length chunks = Suc (length os) \<and> pipes t p = Some q' \<and> pipe_wf q' \<and>
      pipe_content q @ weave chunks (map fst os) = concat (map snd os) @ pipe_content q' \<and>
      (concat chunks = bytes \<and> r = n \<or> r = -1 \<and> pipe_full q' \<and> (\<exists>m. concat chunks = take m bytes))"
    using pipewrite_call_spec [OF assms] by simp
  have u: "uload a (nat n) s = Done bytes s" using assms(1) by (cases rule: pipewrite_call.cases) simp_all
  show "length (pipe_content q) + nat n \<le> PIPESIZE \<and> no_sleeper (ChPipeRead p) s \<longrightarrow> (\<exists>u. pipewrite p a n s = Done n u)"
  proof
    assume h: "length (pipe_content q) + nat n \<le> PIPESIZE \<and> no_sleeper (ChPipeRead p) s"
    obtain w where w: "pipewrite_fill (nat n) p a 0 s = Done (nat n) w" "w = s\<lparr>pipes := pipes w\<rparr>"
      using pipewrite_fill_room [OF u assms(2,3), of 0 "nat n"] h by auto
    have "ptable w = ptable s" by (subst w(2)) simp
    then have "wakeup (ChPipeRead p) w = Done () w" using h by (intro wakeup_quiet) (simp add: no_sleeper_def)
    then show "\<exists>u. pipewrite p a n s = Done n u" using w(1) by (simp add: pipewrite_def pipewrite_from_def kop_simps)
  qed
qed

text \<open>A call for two bytes with room for one: it sleeps at index 1, a reader takes a byte, and the call goes on with its second byte.\<close>

definition demo_almost :: pipe where
  "demo_almost = demo_pipe\<lparr>pi_nwrite := 510\<rparr>"

lemma demo_almost_facts:
  "pipe_wf demo_almost" "\<not> pipe_full demo_almost" "pipe_full (pipe_put b demo_almost)" "\<not> pipe_empty (pipe_put b demo_almost)"
  "\<not> pipe_full (pipe_advance (pipe_put b demo_almost))" "pi_readopen (pipe_put b demo_almost)"
  by (simp_all add: demo_almost_def pipe_wf_def demo_pipe_def PIPESIZE_def pipe_full_def pipe_put_def pipe_advance_def pipe_empty_def)

lemma demo_uload2: "uload 0 2 demo_state = Done [0x41, 0x42] demo_state" "uload 1 1 demo_state = Done [0x42] demo_state"
proof -
  have "map_option demo_mem (user_pa demo_mem 0x80400000 1) = Some 0x42" by code_simp
  then show "uload 0 2 demo_state = Done [0x41, 0x42] demo_state" "uload 1 1 demo_state = Done [0x42] demo_state"
    by (simp_all add: uload_def curproc_def pget_def kop_simps demo_user_bytes numeral_2_eq_2)
qed

theorem pipewrite_appends_witness:
  "\<exists>(s :: fs_state) t chunks q'. pipewrite_call 0x80500000 0 2 [0x41, 0x42] 0 s [([], [pipe_next (pipe_put 0x41 demo_almost)])] 2 t \<and>
     pipes t 0x80500000 = Some q' \<and> concat chunks = [0x41, 0x42] \<and>
     pipe_content demo_almost @ concat chunks = [pipe_next (pipe_put 0x41 demo_almost)] @ pipe_content q'"
proof -
  let ?p = "0x80500000 :: addr" and ?q1 = "pipe_put 0x41 demo_almost"
  let ?s = "\<lambda>q. demo_state\<lparr>pipes := [?p \<mapsto> q]\<rparr>"
  note F = demo_almost_facts and S = kop_simps pipe_of_def kpipe_def curproc_def pget_def wakeup_quiet demo_quiet demo_killed
  have f: "pipewrite_fill (nat 2 - 0) ?p 0 0 (?s demo_almost) = Done 1 (?s ?q1)"
    by (simp add: numeral_2_eq_2 S F demo_uload [simplified])
  have s: "pipewrite_from ?p 0 2 0 (?s demo_almost) = Slept (ChPipeWrite ?p) (?s ?q1)"
    using f by (simp add: pipewrite_from_def S F)
  have r: "pipewrite_from ?p 0 2 1 (?s (pipe_advance ?q1)) = Done 2 (?s (pipe_put 0x42 (pipe_advance ?q1)))"
    by (simp add: pipewrite_from_def S F demo_uload2 [simplified])
  have "pipe.run ?q1 [] ([] @ [pipe_next ?q1]) (pipe_advance ?q1)" by (intro pipe.run.rd pipe.run.start F)
  then have e: "pipe_evolves ?q1 [] [pipe_next ?q1] (pipe_advance ?q1)" by (auto simp: pipe_evolves_def)
  have u: "uload 0 (nat 2) (?s q) = Done [0x41, 0x42] (?s q)" for q using demo_uload2(1) by simp
  have "pipewrite_call ?p 0 2 [0x41, 0x42] 1 (?s (pipe_advance ?q1)) [] 2 (?s (pipe_put 0x42 (pipe_advance ?q1)))"
    by (rule pipewrite_call.returns [OF u r])
  from pipewrite_call.resumes [OF u s f _ e _ this]
  have call: "pipewrite_call ?p 0 2 [0x41, 0x42] 0 (?s demo_almost) [([], [pipe_next ?q1])] 2 (?s (pipe_put 0x42 (pipe_advance ?q1)))"
    by simp
  obtain chunks q' where c: "length chunks = Suc (Suc 0)" "pipes (?s (pipe_put 0x42 (pipe_advance ?q1))) ?p = Some q'"
      "pipe_content demo_almost @ weave chunks [[]] = [pipe_next ?q1] @ pipe_content q'" "concat chunks = [0x41, 0x42]"
    using conjunct1 [OF pipewrite_appends [OF call _ F(1)]] by auto
  have "weave chunks [[]] = concat chunks" using c(1) by (auto simp: length_Suc_conv)
  then have "pipe_content demo_almost @ concat chunks = [pipe_next ?q1] @ pipe_content q'" using c(3) by simp
  with call c(2,4) show ?thesis by blast
qed

text \<open>
  C29 (pipes). A \<^verbatim>\<open>pipewrite\<close> that goes to sleep has appended a proper prefix of its bytes, sleeps on
  the pipe's write channel, and the pipe is full: a writer never sleeps while there is room.
\<close>

theorem pipewrite_sleeps_full:
  assumes "pipewrite p a n s = Slept c t" "pipes s p = Some q" "pipe_wf q" "cur s \<noteq> None"
  shows "\<exists>j bs q'. j < nat n \<and> uload a j s = Done bs s \<and> pipes t p = Some q' \<and> pipe_wf q' \<and>
           pipe_content q' = pipe_content q @ bs \<and> c = ChPipeWrite p \<and> pipe_full q'"
proof -
  obtain j u where f: "pipewrite_fill (nat n - 0) p a 0 s = Done j u" using pipewrite_fill_runs assms(1) unfolding pipewrite_def by metis
  from pipewrite_from_Slept [OF assms(1) [unfolded pipewrite_def] f assms(2-4)] show ?thesis by (auto simp: wrote_def)
qed

theorem pipewrite_sleeps_full_witness:
  "\<exists>t j bs q'. pipewrite 0x80500000 0 1 (demo_state\<lparr>pipes := [0x80500000 \<mapsto> demo_pipe\<lparr>pi_nwrite := 511\<rparr>]\<rparr>) =
     Slept (ChPipeWrite 0x80500000) t \<and> j < (1::nat) \<and> pipes t 0x80500000 = Some q' \<and> pipe_full q' \<and>
     pipe_content q' = pipe_content (demo_pipe\<lparr>pi_nwrite := 511\<rparr>) @ bs"
proof -
  let ?q = "demo_pipe\<lparr>pi_nwrite := 511\<rparr>"
  let ?s = "demo_state\<lparr>pipes := [0x80500000 \<mapsto> ?q]\<rparr>"
  have q: "pipe_wf ?q" "pipe_full ?q" by (simp_all add: pipe_wf_def pipe_full_def demo_pipe_def PIPESIZE_def)
  have run: "pipewrite 0x80500000 0 1 ?s = Slept (ChPipeWrite 0x80500000) ?s"
    by (simp add: pipewrite_def pipewrite_from_def kop_simps pipe_of_def q curproc_def pget_def wakeup_quiet demo_quiet demo_killed,
        simp add: demo_pipe_def)
  have p: "pipes ?s 0x80500000 = Some ?q" "cur ?s \<noteq> None" by simp_all
  obtain j bs q' where "j < nat 1" "pipes ?s 0x80500000 = Some q'" "pipe_full q'"
    "pipe_content q' = pipe_content ?q @ bs"
    using pipewrite_sleeps_full [OF run p(1) q(1) p(2)] by blast
  with run show ?thesis by (intro exI [of _ ?s] exI [of _ j] exI [of _ bs] exI [of _ q']) simp
qed

text \<open>
  C30 (pipes). A \<^verbatim>\<open>piperead\<close> that does not fail takes the first \<open>min n (length content)\<close> bytes off the
  pipe, returns their number and has stored exactly them in the caller's buffer.
\<close>

theorem piperead_takes:
  assumes "piperead p a n s = Done r t" "r \<noteq> -1" "pipes s p = Some q" "pipe_wf q" "cur s \<noteq> None"
  shows "\<exists>m u q'. m = min (nat n) (length (pipe_content q)) \<and> r = int m \<and>
           ustore a (take m (pipe_content q)) s = Done () u \<and>
           wakeup (ChPipeWrite p) (u\<lparr>pipes := (pipes s)(p \<mapsto> q')\<rparr>) = Done () t \<and>
           pipes t p = Some q' \<and> pipe_wf q' \<and> pipe_content q' = drop m (pipe_content q)"
proof -
  define m where "m = min (nat n) (length (pipe_content q))"
  obtain j v where run: "piperead_loop (nat n) p a 0 s = Done j v"
    and wk: "wakeup (ChPipeWrite p) v = Done () t" and r: "r = int j"
    using assms by (auto simp: piperead_def pipe_of_def curproc_def pget_def kop_simps
        split: if_splits outcome.splits option.splits)
  from piperead_loop_spec [OF run assms(3-5) m_def] obtain u where u: "j = m"
    "ustore a (take m (pipe_content q)) s = Done () u"
    "v = u\<lparr>pipes := (pipes s)(p \<mapsto> (pipe_advance ^^ m) q)\<rparr>" by auto
  have "pipes t p = Some ((pipe_advance ^^ m) q)" using wakeup_pipes [OF wk] u by simp
  moreover have "pipe_wf ((pipe_advance ^^ m) q) \<and>
      pipe_content ((pipe_advance ^^ m) q) = drop m (pipe_content q)"
    using pipe.advance_n [OF assms(4), of m] by (simp add: m_def)
  ultimately show ?thesis using u wk r m_def by blast
qed

theorem piperead_takes_witness:
  "\<exists>t m q'. piperead 0x80500000 0 1 (demo_state\<lparr>pipes := [0x80500000 \<mapsto> pipe_put 7 demo_pipe]\<rparr>) = Done 1 t \<and>
     m = 1 \<and> pipes t 0x80500000 = Some q' \<and> pipe_content q' = drop m (pipe_content (pipe_put 7 demo_pipe))"
proof -
  let ?q = "pipe_put 7 demo_pipe"
  let ?s = "demo_state\<lparr>pipes := [0x80500000 \<mapsto> ?q]\<rparr>"
  have wf: "pipe_wf ?q" by (rule pipe_put_wf [OF demo_pipe_wf])
  have q: "\<not> pipe_empty ?q" "pipe_empty (pipe_advance ?q)" "length (pipe_content ?q) = 1"
    by (simp_all add: pipe_empty_def pipe_put_def pipe_advance_def demo_pipe_def length_pipe_content)
  have "\<exists>t. piperead 0x80500000 0 1 ?s = Done 1 t"
    by (simp add: piperead_def kop_simps pipe_of_def kpipe_def q ustore_def curproc_def pget_def demo_user_pa
        wakeup_quiet demo_quiet)
  then obtain t where "piperead 0x80500000 0 1 ?s = Done 1 t" ..
  from piperead_takes [OF this _ _ wf] this q(3) show ?thesis by auto
qed

end
