(* ===== verification/Scheduling.thy ===== *)
theory Scheduling
  imports Process Demo
begin

unbundle bit_operations_syntax

text \<open>
  Properties of the scheduler: what waking up does under each scheduling class, bounded waiting
  under round robin as an induction over sequences of scheduler rounds, and the choice of the
  priority class.
\<close>

section \<open>Waking up\<close>

text \<open>The entry of a process after its channel has been woken up.\<close>

definition woken :: "chan \<Rightarrow> proc \<Rightarrow> proc" where
  "woken c p = (if p_stat p = SSLEEPING \<and> p_chan p = c then p\<lparr>p_stat := READY\<rparr> else p)"

definition sleeps_on :: "chan \<Rightarrow> 'a proc_state_scheme \<Rightarrow> nat \<Rightarrow> bool" where
  "sleeps_on c s i \<longleftrightarrow> p_stat (pof s i) = SSLEEPING \<and> p_chan (pof s i) = c"

text \<open>The processes a list of queue entries stands for, and the ready lists of the three classes.\<close>

definition fifo_slots :: "'a proc_state_scheme \<Rightarrow> nat list" where
  "fifo_slots s = map slotptr (rdyqueue s)"

definition pri_slots :: "'a proc_state_scheme \<Rightarrow> nat \<Rightarrow> nat list" where
  "pri_slots s d = map slotptr (rdy_q_dy s ! d)"

lemmas slots_defs = fifo_slots_def pri_slots_def

lemma alloc_slab_keeps_proc [dest]:
  assumes "alloc_slab s = Done e (t :: 'a proc_state_scheme)"
  shows "kmem_state.more t = kmem_state.more s"
  using keepsD [OF slab_frame2(2) assms] .

lemma new_entryD:
  assumes "new_entry p s = Done e (t :: 'a proc_state_scheme)"
  shows "kmem_state.more t = kmem_state.more s" "slotptr e = p"
  using assms by (auto simp: new_entry_def kop_simps split: outcome.splits if_splits)

lemma fifo_enqueueD:
  assumes "sched_fifo_enqueue p s = Done () (t :: 'a proc_state_scheme)"
  shows "\<exists>e u. kmem_state.more u = kmem_state.more s \<and> slotptr e = p \<and>
           t = u\<lparr>rdyqueue := rdyqueue u @ [e]\<rparr>"
  using assms new_entryD [of p s]
  by (auto simp: sched_fifo_enqueue_def lq_insert_tail_def kop_simps split: outcome.splits)

lemma priority_enqueueD:
  assumes "sched_priority_enqueue p s = Done () (t :: 'a proc_state_scheme)"
  shows "\<exists>e u d. kmem_state.more u = kmem_state.more s \<and> slotptr e = p \<and>
           int d = p_dpri (pof u p) - 100 \<and> d < length (rdy_q_dy u) \<and>
           t = u\<lparr>rdy_q_dy := (rdy_q_dy u)[d := rdy_q_dy u ! d @ [e]]\<rparr>"
proof -
  obtain e u where e: "new_entry p s = Done e u" and
    r: "0 \<le> p_dpri (pof u p) - 100" "nat (p_dpri (pof u p) - 100) < length (rdy_q_dy u)"
    "t = u\<lparr>rdy_q_dy := (rdy_q_dy u)[nat (p_dpri (pof u p) - 100) :=
            rdy_q_dy u ! nat (p_dpri (pof u p) - 100) @ [e]]\<rparr>"
    using assms
    by (cases "new_entry p s") (auto simp: sched_priority_enqueue_def pri_index_def lq_insert_tail_def
        kop_simps Let_def split: if_splits)
  with new_entryD [OF e] show ?thesis
    by (intro exI [of _ e] exI [of _ u] exI [of _ "nat (p_dpri (pof u p) - 100)"]) simp
qed

text \<open>What putting a process on the ready list of the current class does.\<close>

lemma sched_enqueueD:
  assumes "sched_enqueue p s = Done () (t :: 'a proc_state_scheme)"
  shows "ptable t = ptable s \<and> cur t = cur s \<and> cpu_scheme t = cpu_scheme s \<and>
    length (rdy_q_dy t) = length (rdy_q_dy s) \<and>
    fifo_slots t = fifo_slots s @ (if cpu_scheme s = 0 then [p] else []) \<and>
    (\<forall>d < length (rdy_q_dy s). pri_slots t d = pri_slots s d @
       (if cpu_scheme s = 2 \<and> int d = p_dpri (pof s p) - 100 then [p] else [])) \<and>
    (cpu_scheme s = 2 \<longrightarrow> 100 \<le> p_dpri (pof s p) \<and> p_dpri (pof s p) < 100 + int (length (rdy_q_dy s)))"
proof -
  consider "cpu_scheme s = 0" "sched_fifo_enqueue p s = Done () t"
    | "cpu_scheme s = 1" "t = s"
    | "cpu_scheme s = 2" "sched_priority_enqueue p s = Done () t"
    using assms
    by (auto simp: sched_enqueue_def by_scheme_def sched_rr_enqueue_def kop_simps split: if_splits)
  then show ?thesis
  proof cases
    case 1
    then obtain e u where "kmem_state.more u = kmem_state.more s" and e: "slotptr e = p"
      and t: "t = u\<lparr>rdyqueue := rdyqueue u @ [e]\<rparr>" using fifo_enqueueD by blast
    from more_proc [OF this(1)] 1(1) e show ?thesis by (simp add: t slots_defs)
  next
    case 2
    then show ?thesis by simp
  next
    case 3
    then obtain e u d where "kmem_state.more u = kmem_state.more s" and e: "slotptr e = p"
      and d: "int d = p_dpri (pof u p) - 100" "d < length (rdy_q_dy u)"
      and t: "t = u\<lparr>rdy_q_dy := (rdy_q_dy u)[d := rdy_q_dy u ! d @ [e]]\<rparr>"
      using priority_enqueueD by blast
    have "int x = p_dpri (pof u p) - 100 \<longleftrightarrow> x = d" for x using d(1) by auto
    moreover have "100 \<le> p_dpri (pof u p)" "p_dpri (pof u p) < 100 + int (length (rdy_q_dy u))" using d by auto
    ultimately show ?thesis using more_proc [OF \<open>kmem_state.more u = _\<close>] 3(1) e d(2)
      by (auto simp: t slots_defs nth_list_update)
  qed
qed

lemma woken_other: "\<not> sleeps_on c s i \<Longrightarrow> woken c (pof s i) = pof s i"
  by (auto simp: sleeps_on_def woken_def)

lemma wakeup_oneD:
  assumes "wakeup_one c i s = Done () t" and "i < length (ptable s)"
  shows "ptable t = (ptable s)[i := woken c (pof s i)] \<and> cur t = cur s \<and> cpu_scheme t = cpu_scheme s \<and>
    length (rdy_q_dy t) = length (rdy_q_dy s) \<and>
    fifo_slots t = fifo_slots s @ (if cpu_scheme s = 0 \<and> sleeps_on c s i then [i] else []) \<and>
    (\<forall>d < length (rdy_q_dy s). pri_slots t d = pri_slots s d @
       (if cpu_scheme s = 2 \<and> int d = p_dpri (pof s i) - 100 \<and> sleeps_on c s i then [i] else []))"
proof (cases "sleeps_on c s i")
  case True
  let ?u = "upd_proc i (p_stat_update (\<lambda>_. READY)) s"
  have "sched_enqueue i ?u = Done () t"
    using assms True by (simp add: wakeup_one_def sleeps_on_def pget_def kproc_def kop_simps)
  from sched_enqueueD [OF this] True assms(2) show ?thesis
    by (simp add: slots_defs sleeps_on_def woken_def)
next
  case False
  then have "t = s"
    using assms by (auto simp: wakeup_one_def sleeps_on_def pget_def kop_simps)
  with False show ?thesis by (simp add: woken_other)
qed

text \<open>The loop over the first \<open>n\<close> entries of the table.\<close>

lemma wakeup_prefix:
  assumes "kfor [0..<n] (wakeup_one c) s = Done () t" and "n \<le> length (ptable s)"
  shows "ptable t = map (woken c) (take n (ptable s)) @ drop n (ptable s) \<and>
    cur t = cur s \<and> cpu_scheme t = cpu_scheme s \<and> length (rdy_q_dy t) = length (rdy_q_dy s) \<and>
    fifo_slots t = fifo_slots s @ (if cpu_scheme s = 0 then filter (sleeps_on c s) [0..<n] else []) \<and>
    (\<forall>d < length (rdy_q_dy s). pri_slots t d = pri_slots s d @
       (if cpu_scheme s = 2 then filter (\<lambda>i. int d = p_dpri (pof s i) - 100 \<and> sleeps_on c s i) [0..<n] else []))"
  using assms
proof (induction n arbitrary: t)
  case 0
  then show ?case by (simp add: kop_simps)
next
  case (Suc n)
  then obtain u where u: "kfor [0..<n] (wakeup_one c) s = Done () u" and t: "wakeup_one c n u = Done () t"
    by (auto simp: kfor_append kop_simps split: outcome.splits)
  note IH = Suc.IH [OF u Suc_leD [OF Suc.prems(2)]]
  from IH Suc.prems(2) have pn: "pof u n = pof s n" and len: "length (ptable u) = length (ptable s)"
    by (simp_all add: nth_append)
  have n: "n < length (ptable u)" using len Suc.prems(2) by simp
  have step: "(map (woken c) (take n xs) @ drop n xs)[n := woken c (xs ! n)] =
      map (woken c) (take (Suc n) xs) @ drop (Suc n) xs" if "n < length xs" for xs
    using that by (simp add: list_update_append take_Suc_conv_app_nth Cons_nth_drop_Suc [symmetric])
  have sl: "sleeps_on c u n = sleeps_on c s n" using pn by (simp add: sleeps_on_def)
  from wakeup_oneD [OF t n, unfolded pn sl] IH Suc.prems(2) show ?case
    by (simp add: step)
qed

text \<open>
  C25 (waking up): \<^verbatim>\<open>wakeup\<close> makes exactly the processes that sleep on the channel ready, leaves
  every other entry of the process table as it is, and puts the woken processes, in the order
  of the table, at the end of the ready queue of the current scheduling class.
\<close>

theorem wakeup_exact:
  assumes "wakeup c s = Done () t" and "length (ptable s) = NPROC" and "length (rdy_q_dy s) = 40"
  shows "ptable t = map (woken c) (ptable s) \<and> no_sleeper c t \<and> cur t = cur s \<and>
    fifo_slots t = fifo_slots s @ (if cpu_scheme s = 0 then filter (sleeps_on c s) [0..<NPROC] else []) \<and>
    (\<forall>d < 40. pri_slots t d = pri_slots s d @
       (if cpu_scheme s = 2
        then filter (\<lambda>i. int d = p_dpri (pof s i) - 100 \<and> sleeps_on c s i) [0..<NPROC] else []))"
proof -
  have pt: "ptable t = map (woken c) (ptable s)"
    using wakeup_prefix [OF assms(1) [unfolded wakeup_def]] assms(2) by simp
  then have "no_sleeper c t"
    using assms(2) by (auto simp: no_sleeper_def woken_def)
  with pt wakeup_prefix [OF assms(1) [unfolded wakeup_def]] assms(2,3) show ?thesis by simp
qed

lemma wakeup_rr_total: "cpu_scheme s = 1 \<Longrightarrow> \<exists>t. kfor xs (wakeup_one c) s = Done () t \<and> cpu_scheme t = 1"
proof (induction xs arbitrary: s)
  case (Cons i xs)
  then have "\<exists>t. wakeup_one c i s = Done () t \<and> cpu_scheme t = 1"
    by (simp add: wakeup_one_def pget_def kproc_def sched_enqueue_def by_scheme_def sched_rr_enqueue_def kop_simps)
  with Cons.IH show ?case by (auto simp: kop_simps)
qed (simp add: kop_simps)

text \<open>A machine with a second process, asleep on the clock, and one whose second process is ready.\<close>

definition second_proc :: proc where
  "second_proc = demo_proc\<lparr>p_stat := SSLEEPING, p_pid := 2, p_chan := ChTicks, p_page := 0x80400000\<rparr>"

definition sleepy_state :: fs_state where
  "sleepy_state = upd_proc 1 (\<lambda>_. second_proc) demo_state"

definition ready_state :: fs_state where
  "ready_state = upd_proc 1 (\<lambda>_. second_proc\<lparr>p_stat := READY\<rparr>) demo_state"

lemma demo_tables [simp]:
  "length (ptable demo_state) = NPROC" "length (rdy_q_dy demo_state) = 40" "rr_p demo_state = 0" "pgqueue demo_state = []"
  by (simp_all add: demo_state_def NPROC_def)

theorem wakeup_exact_witness:
  "\<exists>t. wakeup ChTicks sleepy_state = Done () t \<and> no_sleeper ChTicks t \<and>
       p_stat (pof t 1) = READY \<and> p_stat (pof t 0) = SRUN"
proof -
  obtain t where t: "wakeup ChTicks sleepy_state = Done () t"
    using wakeup_rr_total [of sleepy_state "[0..<NPROC]" ChTicks] by (auto simp: wakeup_def sleepy_state_def)
  have l: "length (ptable sleepy_state) = NPROC" "length (rdy_q_dy sleepy_state) = 40"
    by (simp_all add: sleepy_state_def)
  have "pof sleepy_state 1 = second_proc" "p_stat (pof sleepy_state 0) = SRUN"
    using demo_stat [of 0] by (simp_all add: sleepy_state_def NPROC_def)
  with wakeup_exact [OF t l] t l show ?thesis
    by (auto simp: woken_def second_proc_def NPROC_def)
qed

section \<open>Round robin\<close>

lemma walkpgdir_frame [frames]: "keeps kmem_state.more (walkpgdir pg va al)"
  unfolding walkpgdir_def page_zero_def by (intro frames keeps_kmod; simp)

lemma ref_frame [frames]: "keeps kmem_state.more write_ref" "keeps kmem_state.more read_ref"
  unfolding write_ref_def read_ref_def write_ref_entry_def read_ref_entry_def ref_pte_def
  by (intro frames keeps_kmod; simp)+

lemma switch_toD:
  assumes "switch_to p s = Done () (t :: 'a proc_state_scheme)"
  shows "ptable t = (ptable s)[p := (pof s p)\<lparr>p_stat := SRUN\<rparr>]" "cur t = Some p" "rr_p t = rr_p s"
    "rdyqueue t = rdyqueue s" "rdy_q_dy t = rdy_q_dy s" "cpu_scheme t = cpu_scheme s"
proof -
  let ?s = "s\<lparr>cur := Some p\<rparr>"
  obtain u where u: "write_ref ?s = Done () u" and
    t: "t = upd_proc p (p_stat_update (\<lambda>_. SRUN)) (u\<lparr>ts_esp0 := p_kstack (pof u p) + K_STACKSZ, cr3 := V2P (p_page (pof u p))\<rparr>)"
    using assms by (auto simp: switch_to_def switchuvm_def pget_def kproc_def kop_simps split: outcome.splits if_splits)
  note m = more_proc [OF keepsD [OF ref_frame(1) u]]
  show "ptable t = (ptable s)[p := (pof s p)\<lparr>p_stat := SRUN\<rparr>]" "cur t = Some p" "rr_p t = rr_p s"
    "rdyqueue t = rdyqueue s" "rdy_q_dy t = rdy_q_dy s" "cpu_scheme t = cpu_scheme s"
    using m by (simp_all add: t)
qed

lemma run_fromD:
  assumes "run_from k p s = Done b (t :: 'a proc_state_scheme)"
  shows "b" "ptable t = (ptable s)[p := (pof s p)\<lparr>p_stat := SRUN\<rparr>]" "cur t = Some p" "rr_p t = rr_p s"
    "rdyqueue t = rdyqueue s" "rdy_q_dy t = rdy_q_dy s" "cpu_scheme t = cpu_scheme s" "sched_k t = Some k"
proof -
  obtain u where u: "switch_to p s = Done () u" and t: "b" "t = u\<lparr>sched_k := Some k\<rparr>"
    using assms by (auto simp: run_from_def kop_simps split: outcome.splits)
  show "b" by fact
  show "ptable t = (ptable s)[p := (pof s p)\<lparr>p_stat := SRUN\<rparr>]" "cur t = Some p" "rr_p t = rr_p s"
    "rdyqueue t = rdyqueue s" "rdy_q_dy t = rdy_q_dy s" "cpu_scheme t = cpu_scheme s" "sched_k t = Some k"
    using switch_toD [OF u] by (simp_all add: t)
qed

lemma sched_rr_TrueD:
  assumes "sched_rr s = Done True (t :: 'a proc_state_scheme)"
  shows "\<exists>j. rr_p s \<le> j \<and> j < NPROC \<and> p_stat (pof s j) = READY \<and>
    (\<forall>k. rr_p s \<le> k \<and> k < j \<longrightarrow> p_stat (pof s k) \<noteq> READY) \<and> cur t = Some j \<and> rr_p t = j \<and>
    sched_k t = Some RRFrame \<and> ptable t = (ptable s)[j := (pof s j)\<lparr>p_stat := SRUN\<rparr>]"
proof -
  obtain j where f: "find_from (\<lambda>i. p_stat (pof s i) = READY) (rr_p s) (NPROC - rr_p s) = Some j"
    and r: "run_from RRFrame j (s\<lparr>rr_p := j\<rparr>) = Done True t"
    using assms by (auto simp: sched_rr_def split: option.splits)
  from find_from_SomeD [OF f] run_fromD [OF r] show ?thesis by (intro exI [of _ j]) auto
qed

lemma sched_rr_FalseD:
  assumes "sched_rr s = Done False (t :: 'a proc_state_scheme)"
  shows "(\<forall>k. rr_p s \<le> k \<and> k < NPROC \<longrightarrow> p_stat (pof s k) \<noteq> READY) \<and> t = s\<lparr>rr_p := 0\<rparr>"
proof (cases "find_from (\<lambda>i. p_stat (pof s i) = READY) (rr_p s) (NPROC - rr_p s)")
  case None
  with assms have "t = s\<lparr>rr_p := 0\<rparr>" by (simp add: sched_rr_def)
  with None show ?thesis unfolding find_from_None by auto
next
  case (Some j)
  with assms run_fromD(1) show ?thesis by (fastforce simp: sched_rr_def)
qed

lemma scheduler_finishD:
  assumes "scheduler_finish s = Done () (t :: 'a proc_state_scheme)"
  shows "ptable t = ptable s" "rr_p t = rr_p s" "cur t = None" "sched_k t = None" "rdyqueue t = rdyqueue s"
    "rdy_q_dy t = rdy_q_dy s"
proof -
  let ?s = "s\<lparr>sched_k := None\<rparr>"
  obtain u where u: "kmem_state.more u = kmem_state.more ?s" and t: "t = u\<lparr>cr3 := V2P (kpgdir u), cur := None\<rparr>"
    using assms keepsD [OF ref_frame(2), of ?s]
    by (auto simp: scheduler_finish_def switchkvm_def kop_simps split: outcome.splits if_splits)
  show "ptable t = ptable s" "rr_p t = rr_p s" "cur t = None" "sched_k t = None" "rdyqueue t = rdyqueue s"
    "rdy_q_dy t = rdy_q_dy s"
    using more_proc [OF u] by (simp_all add: t)
qed

text \<open>
  A sequence of scheduler rounds during which process \<open>i\<close> is ready at the start of every round and
  is not the one chosen. Between the choice of a process and its switch back to the scheduler
  the process runs: its system calls and the interrupts may change everything except the
  scheduler's own cursor and suspended frame. While the machine idles, interrupts may change
  everything but the cursor.
\<close>

inductive rr_rounds :: "nat \<Rightarrow> nat \<Rightarrow> 'a proc_state_scheme \<Rightarrow> 'a proc_state_scheme \<Rightarrow> bool" for i where
  rr_start: "rr_rounds i 0 s s"
| rr_idle: "rr_rounds i n s t \<Longrightarrow> cpu_scheme t = 1 \<Longrightarrow> p_stat (pof t i) = READY \<Longrightarrow>
    scheduler_round t = Done False u \<Longrightarrow> rr_p v = rr_p u \<Longrightarrow> rr_rounds i (Suc n) s v"
| rr_other: "rr_rounds i n s t \<Longrightarrow> cpu_scheme t = 1 \<Longrightarrow> p_stat (pof t i) = READY \<Longrightarrow>
    scheduler_round t = Done True u \<Longrightarrow> cur u \<noteq> Some i \<Longrightarrow>
    rr_p v = rr_p u \<Longrightarrow> sched_k v = sched_k u \<Longrightarrow> scheduler_resume v = Done () w \<Longrightarrow>
    rr_rounds i (Suc n) s w"

inductive_cases rr_rounds_SucE: "rr_rounds i (Suc n) s t"

text \<open>How many rounds process \<open>i\<close> can still be passed over with the cursor at \<open>r\<close>.\<close>

definition rr_distance :: "nat \<Rightarrow> nat \<Rightarrow> nat" where
  "rr_distance i r = (if r \<le> i then i - r else NPROC - r + 1 + i)"

lemma scheduler_round_rr: "cpu_scheme s = 1 \<Longrightarrow> scheduler_round s = sched_rr s"
  by (simp add: scheduler_round_def by_scheme_def kop_simps)

lemma scheduler_resume_rr:
  assumes "scheduler_resume s = Done () (t :: 'a proc_state_scheme)" "sched_k s = Some RRFrame"
  shows "rr_p t = rr_p s + 1"
proof -
  have "scheduler_finish (s\<lparr>rr_p := rr_p s + 1\<rparr>) = Done () t"
    using assms by (simp add: scheduler_resume_def kop_simps)
  from scheduler_finishD(2) [OF this] show ?thesis by simp
qed

lemma rr_rounds_distance:
  "rr_rounds i n s t \<Longrightarrow> i < NPROC \<Longrightarrow> rr_p s \<le> NPROC \<Longrightarrow>
   rr_p t \<le> NPROC \<and> n + rr_distance i (rr_p t) \<le> rr_distance i (rr_p s)"
proof (induction rule: rr_rounds.induct)
  case (rr_idle n s t u v)
  from rr_idle.hyps have r: "sched_rr t = Done False u" by (simp add: scheduler_round_rr)
  with rr_idle.hyps(3) rr_idle.prems(1) have "i < rr_p t"
    using sched_rr_FalseD [OF r] by (meson not_le_imp_less)
  with rr_idle sched_rr_FalseD [OF r] show ?case by (simp add: rr_distance_def)
next
  case (rr_other n s t u v w)
  from rr_other.hyps have r: "sched_rr t = Done True u" by (simp add: scheduler_round_rr)
  then obtain j where j: "rr_p t \<le> j" "j < NPROC" "cur u = Some j" "rr_p u = j" "sched_k u = Some RRFrame"
    and skip: "\<forall>k. rr_p t \<le> k \<and> k < j \<longrightarrow> p_stat (pof t k) \<noteq> READY"
    using sched_rr_TrueD by blast
  have w: "rr_p w = j + 1" using scheduler_resume_rr rr_other.hyps j by fastforce
  have "j < i \<or> i < rr_p t" using skip rr_other.hyps(3,5) j(1,3)
    by (metis linorder_neqE_nat not_le_imp_less)
  with rr_other.IH [OF rr_other.prems] j(1,2) w show ?case by (auto simp: rr_distance_def)
qed simp

text \<open>
  C23 (round robin): a ready process is passed over by at most \<open>NPROC\<close> = 64 scheduler rounds, whatever the other
  processes and the interrupts do meanwhile; when it has been passed over 64 times and is still ready, the next round,
  if it switches to a process, switches to this one, and it does not find that there is nothing to run.
\<close>

theorem rr_bounded_waiting:
  assumes "rr_rounds i n s t" and "i < NPROC" and "rr_p s \<le> NPROC"
  shows "n \<le> NPROC \<and>
    (n = NPROC \<and> cpu_scheme t = 1 \<and> p_stat (pof t i) = READY \<longrightarrow>
       (\<forall>b u. scheduler_round t = Done b u \<longrightarrow> b \<and> cur u = Some i))"
proof -
  have "rr_distance i (rr_p s) \<le> NPROC" using assms(2,3) by (auto simp: rr_distance_def)
  with rr_rounds_distance [OF assms] have n: "n \<le> NPROC" "n = NPROC \<Longrightarrow> rr_distance i (rr_p t) = 0" by simp_all
  have "b \<and> cur u = Some i"
    if t: "n = NPROC" "cpu_scheme t = 1" "p_stat (pof t i) = READY" and r: "scheduler_round t = Done b u" for b u
  proof -
    have p: "rr_p t = i" using n(2) [OF t(1)] rr_rounds_distance [OF assms] assms(2) by (auto simp: rr_distance_def split: if_splits)
    have s: "sched_rr t = Done b u" using r scheduler_round_rr [OF t(2)] by simp
    show ?thesis
    proof (cases b)
      case True
      then show ?thesis using sched_rr_TrueD [of t u] s p t(3) by (metis order_refl le_neq_implies_less)
    next
      case False
      then show ?thesis using sched_rr_FalseD [of t u] s p t(3) assms(2) by auto
    qed
  qed
  with n(1) show ?thesis by blast
qed

theorem rr_bounded_waiting_witness:
  "rr_rounds 1 1 (ready_state\<lparr>rr_p := 2\<rparr>) (ready_state\<lparr>rr_p := 0\<rparr>) \<and> (1 :: nat) \<le> NPROC"
proof -
  let ?s = "ready_state\<lparr>rr_p := 2\<rparr>"
  have "find_from (\<lambda>i. p_stat (pof ?s i) = READY) 2 62 = None"
    unfolding find_from_None by (auto simp: ready_state_def demo_stat NPROC_def nth_list_update)
  then have "scheduler_round ?s = Done False (?s\<lparr>rr_p := 0\<rparr>)"
    by (simp add: scheduler_round_rr ready_state_def sched_rr_def NPROC_def)
  moreover have "p_stat (pof ?s 1) = READY" "cpu_scheme ?s = 1"
    by (simp_all add: ready_state_def NPROC_def)
  ultimately have "rr_rounds 1 (Suc 0) ?s (ready_state\<lparr>rr_p := 0\<rparr>)"
    using rr_idle [OF rr_start, of ?s 1] by simp
  with rr_bounded_waiting [OF this] show ?thesis by (simp add: NPROC_def)
qed

section \<open>Priorities\<close>

text \<open>
  The ready queues of the priority class: a process that is ready has a dynamic priority between 100 and 139, and queue
  \<open>d\<close> lists the ready processes of priority \<open>100 + d\<close>, each once.
\<close>

definition pri_inv :: "'a proc_state_scheme \<Rightarrow> bool" where
  "pri_inv s \<longleftrightarrow> length (ptable s) = NPROC \<and> length (rdy_q_dy s) = 40 \<and>
     (\<forall>p < NPROC. p_stat (pof s p) = READY \<longrightarrow> 100 \<le> p_dpri (pof s p) \<and> p_dpri (pof s p) < 140) \<and>
     (\<forall>d < 40. distinct (pri_slots s d) \<and>
        set (pri_slots s d) = {p. p < NPROC \<and> p_stat (pof s p) = READY \<and> p_dpri (pof s p) = 100 + int d})"

lemma pri_invD:
  assumes "pri_inv s"
  shows "length (ptable s) = NPROC" "length (rdy_q_dy s) = 40"
    "\<And>p. p < NPROC \<Longrightarrow> p_stat (pof s p) = READY \<Longrightarrow> 100 \<le> p_dpri (pof s p) \<and> p_dpri (pof s p) < 140"
    "\<And>d. d < 40 \<Longrightarrow> distinct (pri_slots s d)"
    "\<And>d p. d < 40 \<Longrightarrow> p \<in> set (pri_slots s d) \<longleftrightarrow> p < NPROC \<and> p_stat (pof s p) = READY \<and> p_dpri (pof s p) = 100 + int d"
  using assms by (auto simp: pri_inv_def)

lemma pri_invI:
  assumes "length (ptable s) = NPROC" "length (rdy_q_dy s) = 40"
    "\<And>p. p < NPROC \<Longrightarrow> p_stat (pof s p) = READY \<Longrightarrow> 100 \<le> p_dpri (pof s p) \<and> p_dpri (pof s p) < 140"
    "\<And>d. d < 40 \<Longrightarrow> distinct (pri_slots s d)"
    "\<And>d p. d < 40 \<Longrightarrow> p \<in> set (pri_slots s d) \<longleftrightarrow> p < NPROC \<and> p_stat (pof s p) = READY \<and> p_dpri (pof s p) = 100 + int d"
  shows "pri_inv s"
  using assms by (auto simp: pri_inv_def)

text \<open>A process that becomes ready and is put on its queue, as in waking up, keeps the queues right.\<close>

lemma ready_enqueue_inv:
  assumes inv: "pri_inv s" and p: "p < NPROC" "p_stat (pof s p) \<noteq> READY" and c: "cpu_scheme s = 2"
    and run: "sched_enqueue p (upd_proc p (p_stat_update (\<lambda>_. READY)) s) = Done () t"
  shows "pri_inv t"
proof -
  note I = pri_invD [OF inv]
  have ps: "pri_slots (upd_proc p f s) d = pri_slots s d" for f d by (simp add: pri_slots_def)
  note E = sched_enqueueD [OF run, simplified ps, simplified, unfolded I(1,2)]
  have pt: "pof t q = (if q = p then (pof s p)\<lparr>p_stat := READY\<rparr> else pof s q)" for q
    using E p(1) I(1) by (simp add: nth_list_update)
  have d: "100 \<le> p_dpri (pof s p) \<and> p_dpri (pof s p) < 140" using E c p(1) I(1) by simp
  have sl: "pri_slots t d = pri_slots s d @ (if int d = p_dpri (pof s p) - 100 then [p] else [])" if "d < 40" for d
    using E that c p(1) I(1) by auto
  have "p \<notin> set (pri_slots s d)" if "d < 40" for d using I(5) [OF that] p(2) by blast
  then have "distinct (pri_slots t d)" "q \<in> set (pri_slots t d) \<longleftrightarrow> q < NPROC \<and> p_stat (pof t q) = READY \<and> p_dpri (pof t q) = 100 + int d"
    if "d < 40" for d q
    using that I(4,5) p d by (auto simp: sl pt)
  moreover have "length (ptable t) = NPROC" "length (rdy_q_dy t) = 40" using E I(1,2) by simp_all
  moreover have "100 \<le> p_dpri (pof t q) \<and> p_dpri (pof t q) < 140" if "q < NPROC" "p_stat (pof t q) = READY" for q
    using that I(3) d by (auto simp: pt split: if_splits)
  ultimately show ?thesis by (intro pri_invI)
qed

lemma wakeup_one_inv:
  assumes "pri_inv s" "i < NPROC" "cpu_scheme s = 2" "wakeup_one c i s = Done () t"
  shows "pri_inv t \<and> cpu_scheme t = 2"
proof (cases "sleeps_on c s i")
  case True
  then have "sched_enqueue i (upd_proc i (p_stat_update (\<lambda>_. READY)) s) = Done () t" "p_stat (pof s i) \<noteq> READY"
    using assms(4) by (simp_all add: wakeup_one_def sleeps_on_def pget_def kproc_def kop_simps)
  with ready_enqueue_inv [OF assms(1,2) _ assms(3)] show ?thesis
    using wakeup_oneD [OF assms(4)] pri_invD(1) [OF assms(1)] assms(2,3) by simp
next
  case False
  then have "t = s" using assms(4) by (auto simp: wakeup_one_def sleeps_on_def pget_def kop_simps)
  then show ?thesis using assms by simp
qed

lemma wakeup_pri_inv:
  assumes "pri_inv s" "cpu_scheme s = 2" "wakeup c s = Done () t"
  shows "pri_inv t"
proof -
  have "pri_inv t" if "kfor xs (wakeup_one c) s = Done () t" "\<forall>i \<in> set xs. i < NPROC" "pri_inv s" "cpu_scheme s = 2" for xs s
    using that
  proof (induction xs arbitrary: s)
    case (Cons i xs)
    then obtain u where u: "wakeup_one c i s = Done () u" "kfor xs (wakeup_one c) u = Done () t"
      by (auto simp: kop_simps split: outcome.splits)
    then show ?case using wakeup_one_inv [OF Cons.prems(3) _ Cons.prems(4) u(1)] Cons.IH [OF u(2)] Cons.prems(2) by simp
  qed (simp add: kop_simps)
  with assms show ?thesis by (simp add: wakeup_def)
qed

text \<open>The move to the queue of the new priority at the end of a time slice.\<close>

lemma find_slot_entry:
  assumes "distinct (map slotptr q)" "find (\<lambda>e. slotptr e = c) q = Some e"
  shows "slotptr e = c" "e \<in> set q" "distinct (map slotptr (remove1 e q))" "set (map slotptr (remove1 e q)) = set (map slotptr q) - {c}"
proof -
  show e: "slotptr e = c" "e \<in> set q" using assms(2) by (auto simp: find_Some_iff)
  have i: "inj_on slotptr (set q)" "distinct q" using assms(1) by (auto simp: distinct_map)
  show "distinct (map slotptr (remove1 e q))" using i by (simp add: distinct_map distinct_remove1 inj_on_diff)
  show "set (map slotptr (remove1 e q)) = set (map slotptr q) - {c}"
    using i e by (auto dest: inj_onD)
qed

lemma sched_after_inv:
  assumes inv: "pri_inv s" and c: "cur s = Some c" "c < NPROC" "p_stat (pof s c) = READY" "cpu_scheme s = 2"
    and run: "sched_after s = Done () t"
  shows "pri_inv t"
proof -
  note I = pri_invD [OF inv]
  define d where "d = nat (p_dpri (pof s c) - 100)"
  have d: "d < 40" "p_dpri (pof s c) = 100 + int d" using I(3) [OF c(2,3)] by (auto simp: d_def)
  have after: "sched_priority_after s = Done () t" using run c(4) by (simp add: sched_after_def by_scheme_def kop_simps)
  define f :: "proc \<Rightarrow> proc" where "f p = p\<lparr>p_spri := STATIC_PRI (p_nice p), p_time_slice := TIME_SLICE (STATIC_PRI (p_nice p)),
      p_dpri := DYNAMIC_PRI (STATIC_PRI (p_nice p)) (BONUS (p_avgslp p))\<rparr>" for p
  obtain e where e: "find (\<lambda>e. slotptr e = c) (rdy_q_dy s ! d) = Some e"
    using after c(1) d I(2)
    by (cases "find (\<lambda>e. slotptr e = c) (rdy_q_dy s ! d)")
      (simp_all add: sched_priority_after_def pri_index_def curproc_def kop_simps d_def [symmetric])
  note F = find_slot_entry [OF _ e] 
  define q where "q = (rdy_q_dy s)[d := remove1 e (rdy_q_dy s ! d)]"
  define d' where "d' = nat (p_dpri (f (pof s c)) - 100)"
  have t: "t = (upd_proc c f s)\<lparr>rdy_q_dy := q[d' := q ! d' @ [e]]\<rparr> \<and> 100 \<le> p_dpri (f (pof s c)) \<and> d' < 40"
    using after c d(1) I(1,2) e
    by (auto simp: sched_priority_after_def pri_index_def curproc_def kop_simps d_def [symmetric] d'_def q_def lq_remove_def
        lq_insert_tail_def sched_priority_timeslice_def kproc_def upd_proc_def f_def Let_def d(2) split: if_splits)
  have dist: "distinct (map slotptr (rdy_q_dy s ! d))" using I(4) [OF d(1)] by (simp add: pri_slots_def)
  have q: "map slotptr (q ! k) = pri_slots s k" if "k \<noteq> d" for k using that by (simp add: q_def pri_slots_def)
  have qd: "distinct (map slotptr (q ! d))" "set (map slotptr (q ! d)) = set (pri_slots s d) - {c}"
    using F(3,4) [OF dist] d(1) I(2) by (simp_all add: q_def pri_slots_def)
  have noc: "c \<notin> set (map slotptr (q ! k))" if "k < 40" for k
    using that qd(2) q I(5) [OF that] d(2) by (cases "k = d") auto
  have sl: "pri_slots t k = map slotptr (q ! k) @ (if k = d' then [c] else [])" if "k < 40" for k
    using that t F(1) [OF dist] I(2) by (auto simp: pri_slots_def q_def nth_list_update)
  have pt: "pof t p = (if p = c then f (pof s c) else pof s p)" for p using t c(2) I(1) by (auto simp: nth_list_update)
  have fs: "p_stat (f x) = p_stat x" for x by (simp add: f_def)
  have dd: "p_dpri (f (pof s c)) = 100 + int d'" using t by (simp add: d'_def)
  have "set (map slotptr (q ! k)) = set (pri_slots s k) - {c}" if "k < 40" for k
    using that qd(2) q I(5) [OF that] d(2) by (cases "k = d") auto
  then have "distinct (pri_slots t k)" "p \<in> set (pri_slots t k) \<longleftrightarrow> p < NPROC \<and> p_stat (pof t p) = READY \<and> p_dpri (pof t p) = 100 + int k"
    if "k < 40" for k p
    using that noc [OF that] qd(1) q I(4,5) [OF that] c(2,3) fs dd by (cases "k = d"; auto simp: sl pt)+
  moreover have "length (ptable t) = NPROC" "length (rdy_q_dy t) = 40" using t I(1,2) by (auto simp: q_def)
  moreover have "100 \<le> p_dpri (pof t p) \<and> p_dpri (pof t p) < 140" if "p < NPROC" "p_stat (pof t p) = READY" for p
    using that I(3) [of p] dd conjunct2 [OF conjunct2 [OF t]] unfolding pt by (cases "p = c") simp_all
  ultimately show ?thesis by (intro pri_invI)
qed

text \<open>
  So the queues are right again when a process gives up the processor: \<^verbatim>\<open>giveup_cpu\<close> makes it ready, puts it on the
  queue of its old priority and moves it to that of the new one.
\<close>

lemma giveup_pri_inv:
  assumes inv: "pri_inv s" and c: "cur s = Some c" "c < NPROC" "p_stat (pof s c) = SRUN" "cpu_scheme s = 2"
    and run: "kseq (kproc c (p_stat_update (\<lambda>_. READY))) (kseq (sched_enqueue c) sched_after) s = Done () t"
  shows "pri_inv t"
proof -
  obtain u where u: "sched_enqueue c (upd_proc c (p_stat_update (\<lambda>_. READY)) s) = Done () u" "sched_after u = Done () t"
    using run by (auto simp: kproc_def kop_simps split: outcome.splits)
  have "pri_inv u" using ready_enqueue_inv [OF inv c(2) _ c(4) u(1)] c(3) by simp
  moreover have "cur u = Some c" "p_stat (pof u c) = READY" "cpu_scheme u = 2"
    using sched_enqueueD [OF u(1)] c pri_invD(1) [OF inv] by simp_all
  ultimately show ?thesis using sched_after_inv [OF _ _ c(2) _ _ u(2)] by blast
qed

text \<open>Taking the head of a queue and switching to it.\<close>

lemma run_head_inv:
  assumes inv: "pri_inv s" and d: "d < 40" "rdy_q_dy s ! d = e # es"
    and run: "run_from (PriEntry e) (slotptr e) (s\<lparr>rdy_q_dy := (rdy_q_dy s)[d := es]\<rparr>) = Done b t"
  shows "pri_inv t"
proof -
  note I = pri_invD [OF inv] and R = run_fromD [OF run]
  define p where "p = slotptr e"
  have "p \<in> set (pri_slots s d)" using d by (simp add: pri_slots_def p_def)
  then have p: "p < NPROC" "p_stat (pof s p) = READY" "p_dpri (pof s p) = 100 + int d" using I(5) [OF d(1)] by auto
  have pt: "pof t q = (if q = p then (pof s p)\<lparr>p_stat := SRUN\<rparr> else pof s q)" for q
    using R(2) p(1) I(1) by (simp add: nth_list_update p_def)
  have sl: "pri_slots t k = (if k = d then tl (pri_slots s d) else pri_slots s k)" for k
    using R(6) d I(2) by (simp add: pri_slots_def)
  have sd: "pri_slots s d = p # tl (pri_slots s d)" using d(2) by (simp add: pri_slots_def p_def)
  have dist: "distinct (pri_slots t k)" if "k < 40" for k using I(4) [OF that] by (auto simp: sl distinct_tl)
  have "p \<notin> set (tl (pri_slots s d))" using I(4) [OF d(1)] sd by (metis distinct.simps(2))
  then have tl: "q \<in> set (tl (pri_slots s d)) \<longleftrightarrow> q \<in> set (pri_slots s d) \<and> q \<noteq> p" for q
    using arg_cong [OF sd, of set] by auto
  have "q \<in> set (pri_slots t k) \<longleftrightarrow> q \<in> set (pri_slots s k) \<and> q \<noteq> p" if "k < 40" for k q
    using I(5) [OF that, of p] p(3) by (auto simp: sl tl)
  then have "q \<in> set (pri_slots t k) \<longleftrightarrow> q < NPROC \<and> p_stat (pof t q) = READY \<and> p_dpri (pof t q) = 100 + int k" if "k < 40" for k q
    using that I(5) [OF that, of q] by (simp add: pt)
  moreover have "100 \<le> p_dpri (pof t q) \<and> p_dpri (pof t q) < 140" if "q < NPROC" "p_stat (pof t q) = READY" for q
    using that I(3) [of q] by (simp add: pt split: if_splits)
  moreover have "length (ptable t) = NPROC" "length (rdy_q_dy t) = 40" using R(2,6) I(1,2) by simp_all
  ultimately show ?thesis using dist by (intro pri_invI)
qed

text \<open>Where a ready process is queued.\<close>

lemma ready_queued:
  assumes "pri_inv s" "q < NPROC" "p_stat (pof s q) = READY"
  shows "\<exists>k < 40. p_dpri (pof s q) = 100 + int k \<and> rdy_q_dy s ! k \<noteq> []"
proof -
  let ?k = "nat (p_dpri (pof s q) - 100)"
  have k: "?k < 40" "p_dpri (pof s q) = 100 + int ?k" using pri_invD(3) [OF assms] by auto
  then have "q \<in> set (pri_slots s ?k)" using pri_invD(5) [OF assms(1) k(1)] assms(2,3) by blast
  then have "rdy_q_dy s ! ?k \<noteq> []" by (auto simp: pri_slots_def)
  with k show ?thesis by blast
qed

text \<open>
  C24 (priority scheduling): when the queues of the priority class list the ready processes under their priorities (\<open>pri_inv\<close>),
  \<^verbatim>\<open>sched_priority\<close> reports that there is nothing to run exactly when no process is ready; otherwise it switches to
  a ready process whose dynamic priority no ready process beats, the one that has been longest in its queue, takes
  exactly its entry off, and when the switch succeeds the queues are right again.
\<close>

theorem sched_priority_highest:
  assumes "pri_inv s"
  shows "if \<exists>p < NPROC. p_stat (pof s p) = READY
    then \<exists>p e es. p < NPROC \<and> p_stat (pof s p) = READY \<and>
      (\<forall>q < NPROC. p_stat (pof s q) = READY \<longrightarrow> p_dpri (pof s p) \<le> p_dpri (pof s q)) \<and>
      rdy_q_dy s ! nat (p_dpri (pof s p) - 100) = e # es \<and> slotptr e = p \<and>
      sched_priority s = run_from (PriEntry e) p (s\<lparr>rdy_q_dy := (rdy_q_dy s)[nat (p_dpri (pof s p) - 100) := es]\<rparr>) \<and>
      (\<forall>b t. sched_priority s = Done b t \<longrightarrow>
         b \<and> cur t = Some p \<and> ptable t = (ptable s)[p := (pof s p)\<lparr>p_stat := SRUN\<rparr>] \<and> pri_inv t)
    else sched_priority s = Done False s"
proof (cases "find_from (\<lambda>d. rdy_q_dy s ! d \<noteq> []) 0 40")
  case None
  then have "p_stat (pof s p) \<noteq> READY" if "p < NPROC" for p
    using ready_queued [OF assms that] unfolding find_from_None by auto
  with None show ?thesis by (auto simp: sched_priority_def)
next
  case (Some d)
  from find_from_SomeD [OF Some] have d: "d < 40" "\<forall>k < d. rdy_q_dy s ! k = []" "rdy_q_dy s ! d \<noteq> []" by auto
  then obtain e es where e: "rdy_q_dy s ! d = e # es" by (meson list.exhaust)
  define p where "p = slotptr e"
  have "p \<in> set (pri_slots s d)" using e by (simp add: pri_slots_def p_def)
  then have p: "p < NPROC" "p_stat (pof s p) = READY" "p_dpri (pof s p) = 100 + int d" using pri_invD(5) [OF assms d(1)] by auto
  have best: "p_dpri (pof s p) \<le> p_dpri (pof s q)" if q: "q < NPROC" "p_stat (pof s q) = READY" for q
  proof -
    obtain k where "p_dpri (pof s q) = 100 + int k" "rdy_q_dy s ! k \<noteq> []" using ready_queued [OF assms q] by blast
    moreover have "\<not> k < d" using calculation(2) d(2) by blast
    ultimately show ?thesis using p(3) by simp
  qed
  let ?s = "s\<lparr>rdy_q_dy := (rdy_q_dy s)[d := es]\<rparr>"
  have run: "sched_priority s = run_from (PriEntry e) p ?s" using Some e by (simp add: sched_priority_def lq_remove_def p_def)
  have "b \<and> cur t = Some p \<and> ptable t = (ptable s)[p := (pof s p)\<lparr>p_stat := SRUN\<rparr>] \<and> pri_inv t" if "sched_priority s = Done b t" for b t
    using run_fromD(1-3) [OF that [unfolded run]] run_head_inv [OF assms d(1) e, of b t] that run by (simp add: p_def)
  moreover have "nat (p_dpri (pof s p) - 100) = d" using p(3) by simp
  ultimately have "p < NPROC \<and> p_stat (pof s p) = READY \<and>
      (\<forall>q < NPROC. p_stat (pof s q) = READY \<longrightarrow> p_dpri (pof s p) \<le> p_dpri (pof s q)) \<and>
      rdy_q_dy s ! nat (p_dpri (pof s p) - 100) = e # es \<and> slotptr e = p \<and>
      sched_priority s = run_from (PriEntry e) p (s\<lparr>rdy_q_dy := (rdy_q_dy s)[nat (p_dpri (pof s p) - 100) := es]\<rparr>) \<and>
      (\<forall>b t. sched_priority s = Done b t \<longrightarrow>
         b \<and> cur t = Some p \<and> ptable t = (ptable s)[p := (pof s p)\<lparr>p_stat := SRUN\<rparr>] \<and> pri_inv t)"
    using p best e run p_def by auto
  moreover have "\<exists>p < NPROC. p_stat (pof s p) = READY" using p by blast
  ultimately show ?thesis by (subst if_P) blast+
qed

definition two_ready :: fs_state where
  "two_ready = ready_state\<lparr>ptable := (ptable ready_state)[0 := (pof ready_state 0)\<lparr>p_stat := READY, p_dpri := 130\<rparr>, 1 := (pof ready_state 1)\<lparr>p_dpri := 120\<rparr>],
     rdy_q_dy := (replicate 40 [])[30 := [\<lparr>se_slab = 0x80600000, slotptr = 0\<rparr>], 20 := [\<lparr>se_slab = 0x80600020, slotptr = 1\<rparr>]]\<rparr>"

lemma two_ready_inv: "pri_inv two_ready"
proof -
  have pt: "p_stat (pof two_ready q) = (if q = 0 \<or> q = 1 then READY else SUNUSED)" if "q < NPROC" for q
    using that demo_stat [of q] by (auto simp: two_ready_def ready_state_def second_proc_def nth_list_update NPROC_def)
  have dp: "p_dpri (pof two_ready 0) = 130" "p_dpri (pof two_ready 1) = 120" by (simp_all add: two_ready_def ready_state_def NPROC_def)
  have sl: "pri_slots two_ready d = (if d = 30 then [0] else if d = 20 then [1] else [])" if "d < 40" for d
    using that by (auto simp: pri_slots_def two_ready_def nth_list_update)
  have n: "(0 :: nat) < NPROC" "1 < NPROC" by (simp_all add: NPROC_def)
  have l: "length (ptable two_ready) = NPROC" "length (rdy_q_dy two_ready) = 40" by (simp_all add: two_ready_def ready_state_def)
  have "p = 0 \<or> p = 1" if "p < NPROC" "p_stat (pof two_ready p) = READY" for p using pt [OF that(1)] that(2) by (auto split: if_splits)
  then have r: "p < NPROC \<and> p_stat (pof two_ready p) = READY \<longleftrightarrow> p = 0 \<or> p = 1" for p using n pt [of 0] pt [of 1] by metis
  show ?thesis
  proof (rule pri_invI [OF l])
    fix p assume "p < NPROC" "p_stat (pof two_ready p) = READY"
    then have "p = 0 \<or> p = 1" using r by blast
    then show "100 \<le> p_dpri (pof two_ready p) \<and> p_dpri (pof two_ready p) < 140" using dp by auto
  next
    fix d p :: nat assume d: "d < 40"
    have "p < NPROC \<and> p_stat (pof two_ready p) = READY \<and> p_dpri (pof two_ready p) = 100 + int d \<longleftrightarrow> p = 0 \<and> d = 30 \<or> p = 1 \<and> d = 20"
      using r [of p] dp by auto
    then show "p \<in> set (pri_slots two_ready d) \<longleftrightarrow> p < NPROC \<and> p_stat (pof two_ready p) = READY \<and> p_dpri (pof two_ready p) = 100 + int d"
      by (simp add: sl [OF d])
  qed (simp add: sl)
qed

theorem sched_priority_highest_witness:
  "\<exists>t. sched_priority two_ready = Done True t \<and> cur t = Some 1"
proof -
  have "find_from (\<lambda>d. rdy_q_dy two_ready ! d \<noteq> []) 0 40 = Some 20" by code_simp
  then obtain t where t: "sched_priority two_ready = Done True t"
    by (auto simp: sched_priority_def run_from_def switch_to_def switchuvm_def write_ref_def pget_def kproc_def two_ready_def
        ready_state_def second_proc_def NPROC_def kop_simps Let_def)
  have r: "0 < NPROC" "1 < NPROC" "p_stat (pof two_ready 0) = READY" "p_stat (pof two_ready 1) = READY"
    "p_dpri (pof two_ready 0) = 130" "p_dpri (pof two_ready 1) = 120"
    by (simp_all add: two_ready_def ready_state_def second_proc_def NPROC_def)
  then have ex: "\<exists>p < NPROC. p_stat (pof two_ready p) = READY" by blast
  obtain p where p: "p < NPROC" "p_stat (pof two_ready p) = READY" "p_dpri (pof two_ready p) \<le> 120" "cur t = Some p"
    using sched_priority_highest [OF two_ready_inv] ex t r by (auto simp del: r)
  have "p = 0 \<or> p = 1"
    using p(1,2) demo_stat [of p] by (auto simp: two_ready_def ready_state_def second_proc_def nth_list_update NPROC_def split: if_splits)
  with p r t show ?thesis by auto
qed

end
