(* ===== verification/Lock_Protocol.thy ===== *)
theory Lock_Protocol
  imports Fs Demo
begin

text \<open>
  Mutual exclusion of sleep locks (\<^verbatim>\<open>sleeplock.c\<close>): the operations of all processes on one lock,
  interleaved in any order with each other and with code that leaves the lock alone, as a step
  relation. The test of the lock word and the store to it are separate steps, since the timer can take the
  processor away between them: at most one process holds the lock as long as no process tests it in
  such a window of another one, and two processes can hold it when one does.
\<close>

section \<open>The steps of the processes on a lock\<close>

abbreviation lock_get :: "'s lockref \<Rightarrow> 's \<Rightarrow> sleeplock" where
  "lock_get l \<equiv> fst l"

text \<open>
  \<open>H\<close> is the set of processes that have returned from \<^verbatim>\<open>acquiresleep\<close> and have not called
  \<^verbatim>\<open>releasesleep\<close> since, \<open>W\<close> the set of those that have found the lock free and have not stored to it yet.
  Only a holder releases. A process that finds the lock taken goes to sleep, and tests again when it is woken. Everything
  else (other code, context switches) keeps the lock; \<open>ok\<close> says that the object
  the lock belongs to exists. With \<open>calm\<close> no process tests the lock while another one is in its window.
\<close>

inductive lock_step ::
    "bool \<Rightarrow> ('a proc_state_scheme \<Rightarrow> bool) \<Rightarrow> 'a proc_state_scheme lockref \<Rightarrow>
     'a proc_state_scheme \<times> nat set \<times> nat set \<Rightarrow> 'a proc_state_scheme \<times> nat set \<times> nat set \<Rightarrow> bool" for calm ok l where
  test: "cur s = Some c \<Longrightarrow> lk_locked (lock_get l s) = 0 \<Longrightarrow> calm \<longrightarrow> W = {} \<Longrightarrow>
    lock_step calm ok l (s, H, W) (s, H, insert c W)"
| blocked: "lk_locked (lock_get l s) \<noteq> 0 \<Longrightarrow> acquiresleep l s = Slept ch t \<Longrightarrow> lock_step calm ok l (s, H, W) (t, H, W)"
| take: "cur s = Some c \<Longrightarrow> c \<in> W \<Longrightarrow> acquire_take l s = Done () t \<Longrightarrow>
    lock_step calm ok l (s, H, W) (t, insert c H, W - {c})"
| release: "cur s = Some c \<Longrightarrow> c \<in> H \<Longrightarrow> releasesleep l s = Done () t \<Longrightarrow> lock_step calm ok l (s, H, W) (t, H - {c}, W)"
| elsewhere: "lock_get l t = lock_get l s \<Longrightarrow> ok t \<Longrightarrow> lock_step calm ok l (s, H, W) (t, H, W)"

section \<open>The contract of a lock\<close>

locale sleep_lock =
  fixes l :: "'a proc_state_scheme lockref" and ok :: "'a proc_state_scheme \<Rightarrow> bool"
  assumes get_upd: "ok s \<Longrightarrow> lock_get l (fst (snd l) f s) = f (lock_get l s)"
    and upd_ok: "ok s \<Longrightarrow> ok (fst (snd l) f s)"
    and upd_cur: "cur (fst (snd l) f s) = cur s" "ptable (fst (snd l) f s) = ptable s"
    and above: "proc_state.more t = proc_state.more s \<Longrightarrow> lock_get l t = lock_get l s"
      "proc_state.more t = proc_state.more s \<Longrightarrow> ok t = ok s"
begin

lemma take_run:
  assumes "ok s" "cur s = Some c"
  shows "\<exists>t. acquire_take l s = Done () t \<and> ok t \<and> cur t = Some c \<and> ptable t = ptable s \<and>
    lock_get l t = (lock_get l s)\<lparr>lk_locked := 1, lk_pid := p_pid (pof s c)\<rparr>"
proof -
  obtain get upd ch where l: "l = (get, upd, ch)" by (cases l) auto
  let ?u = "upd (\<lambda>lk. lk\<lparr>lk_locked := 1\<rparr>) s"
  let ?t = "upd (\<lambda>lk. lk\<lparr>lk_pid := p_pid (pof s c)\<rparr>) ?u"
  have u: "ok ?u" "cur ?u = Some c" "ptable ?u = ptable s"
    using upd_ok [OF assms(1)] upd_cur assms(2) by (simp_all add: l)
  have t: "ok ?t" "cur ?t = Some c" "ptable ?t = ptable s" using upd_ok [OF u(1)] upd_cur u by (simp_all add: l)
  have "get ?t = (get s)\<lparr>lk_locked := 1, lk_pid := p_pid (pof s c)\<rparr>"
    using get_upd [OF assms(1)] get_upd [OF u(1)] by (simp add: l)
  moreover have "acquire_take l s = Done () ?t" using u by (simp add: l kop_simps curproc_def pget_def)
  ultimately show ?thesis using t by (auto simp: l)
qed

text \<open>The call without an interruption is the test followed by the stores.\<close>

lemma acquire_parts:
  "acquiresleep l s = (if lk_locked (lock_get l s) \<noteq> 0 then Slept (snd (snd l)) s else acquire_take l s)"
  by (cases l) (simp add: kop_simps)

lemma release_run:
  assumes "ok s" "releasesleep l s = Done () t"
  shows "ok t \<and> lock_get l t = (lock_get l s)\<lparr>lk_locked := 0, lk_pid := 0\<rparr>"
proof -
  obtain get upd ch where l: "l = (get, upd, ch)" by (cases l) auto
  let ?u = "upd (\<lambda>lk. lk\<lparr>lk_locked := 0\<rparr>) s"
  let ?v = "upd (\<lambda>lk. lk\<lparr>lk_pid := 0\<rparr>) ?u"
  have u: "ok ?u" using upd_ok [OF assms(1)] by (simp add: l)
  have v: "ok ?v" using upd_ok [OF u] by (simp add: l)
  have g: "get ?v = (get s)\<lparr>lk_locked := 0, lk_pid := 0\<rparr>" using get_upd [OF assms(1)] get_upd [OF u] by (simp add: l)
  have "wakeup ch ?v = Done () t" using assms(2) by (simp add: l kop_simps)
  then have m: "proc_state.more t = proc_state.more ?v" by (rule keepsD [OF enq_frame(3)])
  show ?thesis using above(1) [OF m] above(2) [OF m] v g by (simp add: l)
qed

text \<open>
  In a calm run at most one process is in its window, and then nobody holds the lock; the lock word tells whether there is
  a holder, and there is at most one.
\<close>

definition lock_inv :: "'a proc_state_scheme \<times> nat set \<times> nat set \<Rightarrow> bool" where
  "lock_inv = (\<lambda>(s, H, W). ok s \<and> (W = {} \<or> (\<exists>c. W = {c}) \<and> H = {}) \<and>
     (if lk_locked (lock_get l s) = 0 then H = {} else \<exists>c. H = {c}))"

lemma lock_inv_step:
  assumes "lock_step True ok l x y" "lock_inv x"
  shows "lock_inv y"
  using assms
proof (cases rule: lock_step.cases)
  case (test s c W H)
  then show ?thesis using assms(2) by (auto simp: lock_inv_def)
next
  case (blocked s ch t H W)
  then have "t = s" using acquire_parts [of s] by simp
  with blocked assms(2) show ?thesis by simp
next
  case (take s c W t H)
  then have "ok s" "W = {c}" "H = {}" using assms(2) by (auto simp: lock_inv_def)
  with take take_run [of s c] show ?thesis by (auto simp: lock_inv_def)
next
  case (release s c H t W)
  then show ?thesis
    using assms(2) release_run [of s t] by (auto simp: lock_inv_def split: if_splits)
next
  case (elsewhere t s H W)
  then show ?thesis using assms(2) by (auto simp: lock_inv_def)
qed

lemma exclusion:
  assumes "(lock_step True ok l)\<^sup>*\<^sup>* (s, {}, {}) (t, H, W)" "ok s" "lk_locked (lock_get l s) = 0"
  shows "(lk_locked (lock_get l t) = 0 \<longleftrightarrow> H = {}) \<and> (\<forall>a \<in> H. \<forall>b \<in> H. a = b)" "ok t"
proof -
  have "lock_inv (s, {}, {})" using assms(2,3) by (simp add: lock_inv_def)
  with assms(1) have "lock_inv (t, H, W)"
    by (induction rule: rtranclp_induct) (auto intro: lock_inv_step)
  then show "(lk_locked (lock_get l t) = 0 \<longleftrightarrow> H = {}) \<and> (\<forall>a \<in> H. \<forall>b \<in> H. a = b)" "ok t"
    by (auto simp: lock_inv_def split: if_splits)
qed

text \<open>
  The race: both processes test before either stores. \<open>s'\<close> is the state with the other process running.
\<close>

lemma race:
  assumes "ok s" "lk_locked (lock_get l s) = 0" "cur s = Some a"
    and sw: "\<And>u c. lock_get l (u\<lparr>cur := c\<rparr>) = lock_get l u" "\<And>u c. ok (u\<lparr>cur := c\<rparr>) = ok u"
  shows "\<exists>t. (lock_step False ok l)\<^sup>*\<^sup>* (s, {}, {}) (t, {a, b}, {})"
proof -
  let ?s1 = "s\<lparr>cur := Some b\<rparr>"
  have o1: "ok ?s1" using sw(2) assms(1) by simp
  obtain t where t: "acquire_take l ?s1 = Done () t" "ok t" using take_run [OF o1, of b] by auto
  let ?t1 = "t\<lparr>cur := Some a\<rparr>"
  have o2: "ok ?t1" using sw(2) t(2) by simp
  obtain u where u: "acquire_take l ?t1 = Done () u" using take_run [OF o2, of a] by auto
  have 1: "lock_step False ok l (s, {}, {}) (s, {}, {a})" using assms test [of s a l False "{}"] by simp
  have 2: "lock_step False ok l (s, {}, {a}) (?s1, {}, {a})" by (rule elsewhere) (rule sw(1), rule o1)
  have 3: "lock_step False ok l (?s1, {}, {a}) (?s1, {}, {a, b})"
    using test [of ?s1 b l False "{a}"] sw(1) assms(2) by (simp add: insert_commute)
  have 4: "lock_step False ok l (?s1, {}, {a, b}) (t, {b}, {a, b} - {b})" using take [of ?s1 b "{a, b}" l t] t(1) by simp
  have 5: "lock_step False ok l (t, {b}, {a, b} - {b}) (?t1, {b}, {a, b} - {b})" by (rule elsewhere) (rule sw(1), rule o2)
  show ?thesis
  proof (cases "a = b")
    case True
    with 1 2 3 4 5 show ?thesis by (intro exI [of _ t]) (auto intro: converse_rtranclp_into_rtranclp)
  next
    case False
    then have 6: "lock_step False ok l (?t1, {b}, {a, b} - {b}) (u, {a, b}, {})"
      using take [of ?t1 a "{a}" l u] u by (simp add: insert_Diff_if)
    from 1 2 3 4 5 6 show ?thesis by (intro exI [of _ u]) (meson converse_rtranclp_into_rtranclp rtranclp.rtrancl_refl)
  qed
qed

end

section \<open>Buffer locks and inode locks\<close>

interpretation buflock: sleep_lock "buf_lock b" "\<lambda>s. b < length (bufs s)"
proof unfold_locales
  fix s t :: "'a fs_state_scheme"
  assume "proc_state.more t = proc_state.more s"
  then have "bufs t = bufs s" by (rule fs_more)
  then show "lock_get (buf_lock b) t = lock_get (buf_lock b) s" "(b < length (bufs t)) = (b < length (bufs s))"
    by (simp_all add: buf_lock_def)
qed (simp_all add: buf_lock_def upd_buf_def)

interpretation inodelock: sleep_lock "inode_lock ip" "\<lambda>s. ip < length (inodes s)"
proof unfold_locales
  fix s t :: "'a fs_state_scheme"
  assume "proc_state.more t = proc_state.more s"
  then have "inodes t = inodes s" by (rule fs_more)
  then show "lock_get (inode_lock ip) t = lock_get (inode_lock ip) s" "(ip < length (inodes t)) = (ip < length (inodes s))"
    by (simp_all add: inode_lock_def)
qed (simp_all add: inode_lock_def upd_inode_def)

text \<open>
  In a calm run at most one process at a time holds the lock of a buffer, and the lock word says whether it is held.
\<close>

lemma buffer_lock_exclusion:
  assumes "(lock_step True (\<lambda>s. b < length (bufs s)) (buf_lock b))\<^sup>*\<^sup>* (s, {}, {}) (t, H, W)"
    and "b < length (bufs s)" "lk_locked (b_lock (bufs s ! b)) = 0"
  shows "(lk_locked (b_lock (bufs t ! b)) = 0 \<longleftrightarrow> H = {}) \<and> (\<forall>p \<in> H. \<forall>q \<in> H. p = q)"
  using buflock.exclusion [OF assms(1,2)] assms(3) by (simp add: buf_lock_def)

text \<open>
  Without that restriction two processes can hold the lock of an inode at once: a timer interrupt between the test and the store
  is enough.
\<close>

lemma inode_lock_race:
  fixes s :: "'a fs_state_scheme"
  assumes "ip < length (inodes s)" "lk_locked (i_lock (inodes s ! ip)) = 0" "cur s = Some a"
  shows "\<exists>t. (lock_step False (\<lambda>s. ip < length (inodes s)) (inode_lock ip))\<^sup>*\<^sup>* (s, {}, {}) (t, {a, b}, {})"
  using assms by (intro inodelock.race) (simp_all add: inode_lock_def)

text \<open>
  C39 (inode locks): in every interleaving of the tests, stores, sleeps and releases of all processes on the lock of an inode and of
  other code, in which no process tests the lock between the test and the store of another one, at most one process
  at a time is between \<^verbatim>\<open>acquiresleep\<close> and \<^verbatim>\<open>releasesleep\<close>; and an \<^verbatim>\<open>acquiresleep\<close> that is not interrupted then returns exactly
  when none is, and goes to sleep on the lock otherwise. The condition is needed (\<open>inode_lock_race\<close>): the code runs with interrupts on.
\<close>

theorem inode_lock_exclusion:
  fixes s :: "'a fs_state_scheme"
  assumes "(lock_step True (\<lambda>s. ip < length (inodes s)) (inode_lock ip))\<^sup>*\<^sup>* (s, {}, {}) (t, H, W)"
    and "ip < length (inodes s)" "lk_locked (i_lock (inodes s ! ip)) = 0" "cur t = Some c"
  shows "(\<forall>p \<in> H. \<forall>q \<in> H. p = q) \<and>
    (if H = {} then \<exists>u. acquiresleep (inode_lock ip) t = Done () u
     else acquiresleep (inode_lock ip) t = Slept (ChInodeLock ip) t)"
proof -
  have x: "(lk_locked (i_lock (inodes t ! ip)) = 0 \<longleftrightarrow> H = {}) \<and> (\<forall>p \<in> H. \<forall>q \<in> H. p = q)" "ip < length (inodes t)"
    using inodelock.exclusion [OF assms(1,2)] assms(3) by (simp_all add: inode_lock_def)
  have l: "fst (inode_lock ip) t = i_lock (inodes t ! ip)" "snd (snd (inode_lock ip)) = ChInodeLock ip" by (simp_all add: inode_lock_def)
  from inodelock.take_run [OF x(2) assms(4)] x(1) show ?thesis
    unfolding inodelock.acquire_parts l by auto
qed

text \<open>A run: process 0 tests and takes the lock of inode 2; then process 1 runs and has to wait.\<close>

theorem inode_lock_exclusion_witness:
  "\<exists>t. (lock_step True (\<lambda>s. 2 < length (inodes s)) (inode_lock 2))\<^sup>*\<^sup>* (demo_state, {}, {}) (t, {0}, {}) \<and>
     acquiresleep (inode_lock 2) t = Slept (ChInodeLock 2) t"
proof -
  let ?step = "lock_step True (\<lambda>s. 2 < length (inodes s)) (inode_lock 2)"
  have d: "2 < length (inodes demo_state)" "lk_locked (i_lock (inodes demo_state ! 2)) = 0" "cur demo_state = Some 0"
    by (simp_all add: demo_state_def demo_lock_def)
  obtain u where u: "acquire_take (inode_lock 2) demo_state = Done () u" "2 < length (inodes u)"
    using inodelock.take_run [OF d(1,3)] by blast
  let ?t = "u\<lparr>cur := Some 1\<rparr>"
  have 1: "?step (demo_state, {}, {}) (demo_state, {}, {0})"
    using d(2) by (intro test [OF d(3)]) (simp_all add: inode_lock_def)
  have 2: "?step (demo_state, {}, {0}) (u, {0}, {})" using take [OF d(3) _ u(1), of "{0}"] by simp
  have 3: "?step (u, {0}, {}) (?t, {0}, {})" using u(2) by (intro elsewhere) (simp_all add: inode_lock_def)
  from 1 2 3 have run: "?step\<^sup>*\<^sup>* (demo_state, {}, {}) (?t, {0}, {})" by (meson converse_rtranclp_into_rtranclp rtranclp.rtrancl_refl)
  from inode_lock_exclusion [OF run d(1,2), of 1] run show ?thesis by auto
qed

end
