(* ===== verification/Bcache.thy ===== *)
theory Bcache
  imports Log Demo
begin

unbundle bit_operations_syntax

text \<open>
  The block cache as an abstract store: the contract the log relies on (\<open>block_cache\<close>), the
  invariant of the buffers, and the proof that \<^verbatim>\<open>bread\<close>, \<^verbatim>\<open>bwrite\<close> and \<^verbatim>\<open>brelse\<close> on the disk of
  \<^verbatim>\<open>memide.c\<close> provide the contract.
\<close>

section \<open>Disk writes\<close>

definition apply_writes :: "(nat \<times> byte list) list \<Rightarrow> (nat \<Rightarrow> byte list) \<Rightarrow> nat \<Rightarrow> byte list" where
  "apply_writes ws d = fold (\<lambda>(k, v) d. d(k := v)) ws d"

lemma apply_writes_simps [simp]:
  "apply_writes [] d = d" "apply_writes ((k, v) # ws) d = apply_writes ws (d(k := v))"
  "apply_writes (vs @ ws) d = apply_writes ws (apply_writes vs d)"
  by (simp_all add: apply_writes_def)

lemma apply_writes_other: "k \<notin> fst ` set ws \<Longrightarrow> apply_writes ws d k = d k"
  by (induction ws arbitrary: d) auto

lemma apply_writes_distinct:
  "distinct (map fst ws) \<Longrightarrow> (k, v) \<in> set ws \<Longrightarrow> apply_writes ws d k = v"
proof (induction ws arbitrary: d)
  case (Cons w ws)
  then show ?case
    by (cases w) (auto simp: apply_writes_other image_iff)
qed simp

section \<open>The contract\<close>

text \<open>
  \<open>inv H s\<close>: the cache is consistent and the buffers in \<open>dom H\<close> are held, each for the block \<open>H\<close>
  gives. \<open>content\<close> is what a reader sees of a block, \<open>disk\<close> what the disk holds, \<open>trace\<close> the writes
  that reached the disk, \<open>frame\<close> the part of the state the cache does not touch.
\<close>

locale block_cache =
  fixes inv :: "(nat \<rightharpoonup> nat) \<Rightarrow> 's \<Rightarrow> bool"
    and content :: "'s \<Rightarrow> nat \<Rightarrow> byte list"
    and disk :: "'s \<Rightarrow> nat \<Rightarrow> byte list"
    and trace :: "'s \<Rightarrow> (nat \<times> byte list) list"
    and frame :: "'s \<Rightarrow> 'r"
    and dsize :: "'s \<Rightarrow> nat"
    and rd :: "nat \<Rightarrow> ('s, nat) kop"
    and dat :: "nat \<Rightarrow> ('s, byte list) kop"
    and wr :: "nat \<Rightarrow> byte list \<Rightarrow> ('s, unit) kop"
    and rl :: "nat \<Rightarrow> ('s, unit) kop"
  assumes rd: "inv H s \<Longrightarrow> k < dsize s \<Longrightarrow> k \<notin> ran H \<Longrightarrow> card (dom H) \<le> 1 \<Longrightarrow>
      \<exists>b t. rd k s = Done b t \<and> b \<notin> dom H \<and> inv (H(b \<mapsto> k)) t \<and> content t = content s \<and>
        disk t = disk s \<and> trace t = trace s \<and> frame t = frame s \<and> dsize t = dsize s"
    and dat: "inv H s \<Longrightarrow> H b = Some k \<Longrightarrow> dat b s = Done (content s k) s"
    and wr: "inv H s \<Longrightarrow> H b = Some k \<Longrightarrow> length d = 512 \<Longrightarrow>
      \<exists>t. wr b d s = Done () t \<and> inv H t \<and> content t = (content s)(k := d) \<and>
        disk t = (disk s)(k := d) \<and> trace t = trace s @ [(k, d)] \<and> frame t = frame s \<and> dsize t = dsize s"
    and rl: "inv H s \<Longrightarrow> H b = Some k \<Longrightarrow>
      \<exists>t. rl b s = Done () t \<and> inv (H(b := None)) t \<and> content t = content s \<and>
        disk t = disk s \<and> trace t = trace s \<and> frame t = frame s \<and> dsize t = dsize s"
    and len: "inv H s \<Longrightarrow> k < dsize s \<Longrightarrow> length (content s k) = 512"
    and dom: "inv H s \<Longrightarrow> finite (dom H)"
begin

text \<open>One step of the log: with no buffer held, block \<open>k\<close> gets the contents \<open>d\<close>.\<close>

definition wrote_block :: "'s \<Rightarrow> nat \<Rightarrow> byte list \<Rightarrow> 's \<Rightarrow> bool" where
  "wrote_block s k d t \<longleftrightarrow> inv Map.empty t \<and> content t = (content s)(k := d) \<and> disk t = (disk s)(k := d) \<and>
     trace t = trace s @ [(k, d)] \<and> frame t = frame s \<and> dsize t = dsize s"

text \<open>A sequence of such steps: the writes \<open>ws\<close> in order.\<close>

definition wrote_all :: "'s \<Rightarrow> (nat \<times> byte list) list \<Rightarrow> 's \<Rightarrow> bool" where
  "wrote_all s ws t \<longleftrightarrow> inv Map.empty t \<and> content t = apply_writes ws (content s) \<and>
     disk t = apply_writes ws (disk s) \<and> trace t = trace s @ ws \<and> frame t = frame s \<and> dsize t = dsize s"

lemma wrote_all_block: "wrote_block s k d t \<Longrightarrow> wrote_all s [(k, d)] t"
  by (simp add: wrote_block_def wrote_all_def)

lemma wrote_all_trans: "wrote_all s ws t \<Longrightarrow> wrote_all t vs u \<Longrightarrow> wrote_all s (ws @ vs) u"
  by (simp add: wrote_all_def)

text \<open>A loop whose \<open>i\<close>-th round makes the write \<open>w i\<close>.\<close>

lemma loop_writes:
  assumes "inv Map.empty s"
    and "\<And>i u. i < n \<Longrightarrow> wrote_all s (map w [0..<i]) u \<Longrightarrow> \<exists>v. step i u = Done () v \<and> wrote_all u [w i] v"
  shows "\<exists>t. kfor [0..<n] step s = Done () t \<and> wrote_all s (map w [0..<n]) t"
  using assms(2)
proof (induction n)
  case 0
  then show ?case using assms(1) by (simp add: kop_simps wrote_all_def)
next
  case (Suc n)
  have "\<exists>t. kfor [0..<n] step s = Done () t \<and> wrote_all s (map w [0..<n]) t"
    by (rule Suc.IH) (use Suc.prems in simp)
  then obtain t where t: "kfor [0..<n] step s = Done () t" "wrote_all s (map w [0..<n]) t" by blast
  from Suc.prems [OF _ t(2)] obtain u where "step n t = Done () u" "wrote_all t [w n] u" by auto
  with t wrote_all_trans [OF t(2)] show ?case by (auto simp: kfor_append kop_simps)
qed

text \<open>Reading a block and letting it go.\<close>

lemma peek:
  assumes "inv Map.empty s" "k < dsize s"
  shows "\<exists>b t u. rd k s = Done b t \<and> dat b t = Done (content s k) t \<and> rl b t = Done () u \<and>
    frame t = frame s \<and> inv [b \<mapsto> k] t \<and>
    inv Map.empty u \<and> content u = content s \<and> disk u = disk s \<and> trace u = trace s \<and>
    frame u = frame s \<and> dsize u = dsize s"
proof -
  obtain b t where t: "rd k s = Done b t" "inv [b \<mapsto> k] t" "content t = content s" "disk t = disk s"
    "trace t = trace s" "frame t = frame s" "dsize t = dsize s"
    using rd [OF assms] by auto
  moreover have "dat b t = Done (content s k) t" using dat [OF t(2), of b k] t(3) by simp
  moreover have "[b \<mapsto> k](b := None) = Map.empty" by simp
  ultimately show ?thesis using rl [OF t(2), of b k] by fastforce
qed

text \<open>Rewriting a block in place.\<close>

lemma rewrite:
  assumes "inv Map.empty s" "k < dsize s" "length (f (content s k)) = 512"
  shows "\<exists>t. kbind (rd k) (\<lambda>b. kbind (dat b) (\<lambda>d. kseq (wr b (f d)) (rl b))) s = Done () t \<and>
    wrote_block s k (f (content s k)) t"
proof -
  obtain b t where t: "rd k s = Done b t" "inv [b \<mapsto> k] t" "content t = content s" "disk t = disk s"
    "trace t = trace s" "frame t = frame s" "dsize t = dsize s"
    using rd [OF assms(1,2)] by auto
  have d: "dat b t = Done (content s k) t" using dat [OF t(2), of b k] t(3) by simp
  obtain u where u: "wr b (f (content s k)) t = Done () u" "inv [b \<mapsto> k] u"
    "content u = (content t)(k := f (content s k))" "disk u = (disk t)(k := f (content s k))"
    "trace u = trace t @ [(k, f (content s k))]" "frame u = frame t" "dsize u = dsize t"
    using wr [OF t(2) _ assms(3), of b] by auto
  obtain v where v: "rl b u = Done () v" "inv ([b \<mapsto> k](b := None)) v" "content v = content u"
    "disk v = disk u" "trace v = trace u" "frame v = frame u" "dsize v = dsize u"
    using rl [OF u(2), of b k] by auto
  have "kbind (rd k) (\<lambda>b. kbind (dat b) (\<lambda>d. kseq (wr b (f d)) (rl b))) s = Done () v"
    using t d u v by (simp add: kop_simps)
  moreover have "wrote_block s k (f (content s k)) v"
    using t u v by (simp add: wrote_block_def)
  ultimately show ?thesis by blast
qed

text \<open>Two blocks held at once.\<close>

lemma hold_two:
  assumes "inv Map.empty s" "j < dsize s" "k < dsize s" "j \<noteq> k"
  shows "\<exists>a t b u. rd j s = Done a t \<and> rd k t = Done b u \<and> a \<noteq> b \<and> inv [a \<mapsto> j, b \<mapsto> k] u \<and>
    content u = content s \<and> disk u = disk s \<and> trace u = trace s \<and> frame u = frame s \<and> dsize u = dsize s"
proof -
  obtain a t where t: "rd j s = Done a t" "inv [a \<mapsto> j] t" "content t = content s" "disk t = disk s"
    "trace t = trace s" "frame t = frame s" "dsize t = dsize s"
    using rd [OF assms(1,2)] by auto
  from rd [OF t(2), of k] obtain b u where "rd k t = Done b u" "b \<notin> dom [a \<mapsto> j]"
    "inv ([a \<mapsto> j](b \<mapsto> k)) u" "content u = content t" "disk u = disk t" "trace u = trace t"
    "frame u = frame t" "dsize u = dsize t"
    using assms(3,4) t(7) by auto
  with t show ?thesis by (metis domI fun_upd_same)
qed

text \<open>
  Writing one of two held blocks with the contents of the other and letting both go, in the
  order source first.
\<close>

lemma copy_held:
  assumes "inv [a \<mapsto> j, b \<mapsto> k] u" "a \<noteq> b" "j \<noteq> k" "src = a \<and> sk = j \<and> dst = b \<and> dk = k \<or> src = b \<and> sk = k \<and> dst = a \<and> dk = j"
    and "j < dsize u" "k < dsize u"
  shows "\<exists>t. kbind (dat src) (\<lambda>d. kseq (wr dst d) (kseq (rl src) (rl dst))) u = Done () t \<and>
    wrote_block u dk (content u sk) t"
proof -
  let ?H = "[a \<mapsto> j, b \<mapsto> k]"
  have h: "?H src = Some sk" "?H dst = Some dk" "sk < dsize u" "src \<noteq> dst"
    using assms by auto
  have d: "dat src u = Done (content u sk) u" by (rule dat [OF assms(1) h(1)])
  obtain v where v: "wr dst (content u sk) u = Done () v" "inv ?H v" "content v = (content u)(dk := content u sk)"
    "disk v = (disk u)(dk := content u sk)" "trace v = trace u @ [(dk, content u sk)]" "frame v = frame u"
    "dsize v = dsize u"
    using wr [OF assms(1) h(2) len [OF assms(1) h(3)]] by blast
  obtain w where w: "rl src v = Done () w" "inv (?H(src := None)) w" "content w = content v" "disk w = disk v"
    "trace w = trace v" "frame w = frame v" "dsize w = dsize v"
    using rl [OF v(2) h(1)] by blast
  have "(?H(src := None)) dst = Some dk" using h by auto
  from rl [OF w(2) this] obtain x where x: "rl dst w = Done () x" "inv (?H(src := None, dst := None)) x"
    "content x = content w" "disk x = disk w" "trace x = trace w" "frame x = frame w" "dsize x = dsize w"
    by blast
  have "?H(src := None, dst := None) = Map.empty" using assms(4) by auto
  then have "wrote_block u dk (content u sk) x" using v w x by (simp add: wrote_block_def)
  with d v(1) w(1) x(1) show ?thesis by (simp add: kop_simps)
qed

end

section \<open>The invariant of the buffers\<close>

text \<open>
  A buffer is unused (\<open>b_flags = 0\<close>), or valid (2), or valid and dirty (6). A clean valid buffer agrees with
  the disk. A held buffer is locked with one reference; every other is unlocked and unreferenced.
\<close>

definition buf_ok :: "(nat \<Rightarrow> byte list) \<Rightarrow> nat \<Rightarrow> nat option \<Rightarrow> buf \<Rightarrow> bool" where
  "buf_ok d n h bp \<longleftrightarrow>
     (b_flags bp = 0 \<and> b_dev bp \<noteq> 1 \<or>
      (b_flags bp = 2 \<or> b_flags bp = 6) \<and> b_dev bp = 1 \<and> unat (b_blockno bp) < n \<and>
      length (b_data bp) = 512 \<and> (b_flags bp = 2 \<longrightarrow> b_data bp = d (unat (b_blockno bp)))) \<and>
     (case h of
        None \<Rightarrow> lk_locked (b_lock bp) = 0 \<and> b_refcnt bp = 0
      | Some k \<Rightarrow> lk_locked (b_lock bp) \<noteq> 0 \<and> b_refcnt bp = 1 \<and> b_flags bp \<noteq> 0 \<and> unat (b_blockno bp) = k)"

definition holds_block :: "nat \<Rightarrow> buf \<Rightarrow> bool" where
  "holds_block k bp \<longleftrightarrow> b_flags bp \<noteq> 0 \<and> unat (b_blockno bp) = k"

text \<open>What a reader sees: the buffer that holds the block, or the disk.\<close>

definition bcontent :: "'a fs_state_scheme \<Rightarrow> nat \<Rightarrow> byte list" where
  "bcontent s k = (case find (holds_block k) (bufs s) of None \<Rightarrow> memdisk s k | Some bp \<Rightarrow> b_data bp)"

definition cache_inv :: "(nat \<rightharpoonup> nat) \<Rightarrow> 'a fs_state_scheme \<Rightarrow> bool" where
  "cache_inv H s \<longleftrightarrow>
     length (bufs s) = NBUF \<and> distinct (bhead s) \<and> set (bhead s) = {..<NBUF} \<and> dom H \<subseteq> {..<NBUF} \<and>
     (\<forall>b < NBUF. buf_ok (memdisk s) (disksize s) (H b) (bufs s ! b)) \<and>
     (\<forall>a < NBUF. \<forall>b < NBUF. \<forall>k. holds_block k (bufs s ! a) \<and> holds_block k (bufs s ! b) \<longrightarrow> a = b) \<and>
     card {b. b < NBUF \<and> b_flags (bufs s ! b) = 6} + 2 \<le> NBUF \<and>
     (\<forall>k < disksize s. length (memdisk s k) = 512) \<and> disksize s \<le> 2 ^ 31 \<and>
     cur s \<noteq> None \<and> (\<forall>b. no_sleeper (ChBufLock b) s)"

lemma cache_invD:
  assumes "cache_inv H s"
  shows "length (bufs s) = NBUF" "distinct (bhead s)" "set (bhead s) = {..<NBUF}" "dom H \<subseteq> {..<NBUF}"
    "\<And>b. b < NBUF \<Longrightarrow> buf_ok (memdisk s) (disksize s) (H b) (bufs s ! b)"
    "\<And>a b k. a < NBUF \<Longrightarrow> b < NBUF \<Longrightarrow> holds_block k (bufs s ! a) \<Longrightarrow> holds_block k (bufs s ! b) \<Longrightarrow> a = b"
    "card {b. b < NBUF \<and> b_flags (bufs s ! b) = 6} + 2 \<le> NBUF"
    "\<And>k. k < disksize s \<Longrightarrow> length (memdisk s k) = 512" "disksize s \<le> 2 ^ 31"
    "cur s \<noteq> None" "\<And>b. no_sleeper (ChBufLock b) s"
  using assms unfolding cache_inv_def by blast+

lemma bcontent_buf:
  assumes "cache_inv H s" "b < NBUF" "holds_block k (bufs s ! b)"
  shows "bcontent s k = b_data (bufs s ! b)"
proof (cases "find (holds_block k) (bufs s)")
  case None
  with assms cache_invD(1) [OF assms(1)] show ?thesis by (auto simp: find_None_iff in_set_conv_nth)
next
  case (Some bp)
  then obtain a where "a < NBUF" "bp = bufs s ! a" "holds_block k bp"
    using cache_invD(1) [OF assms(1)] by (auto simp: find_Some_iff)
  with cache_invD(6) [OF assms(1) _ assms(2) _ assms(3)] Some show ?thesis
    by (auto simp: bcontent_def)
qed

lemma bcontent_disk:
  assumes "cache_inv H s" "\<And>b. b < NBUF \<Longrightarrow> \<not> holds_block k (bufs s ! b)"
  shows "bcontent s k = memdisk s k"
proof -
  have "find (holds_block k) (bufs s) = None"
    using assms cache_invD(1) [OF assms(1)] by (auto simp: find_None_iff in_set_conv_nth)
  then show ?thesis by (simp add: bcontent_def)
qed

lemma bcontent_len:
  assumes "cache_inv H s" "k < disksize s"
  shows "length (bcontent s k) = 512"
proof (cases "\<exists>b < NBUF. holds_block k (bufs s ! b)")
  case True
  then obtain b where b: "b < NBUF" "holds_block k (bufs s ! b)" by blast
  with cache_invD(5) [OF assms(1) b(1)] show ?thesis
    by (auto simp: bcontent_buf [OF assms(1) b] buf_ok_def holds_block_def)
next
  case False
  then show ?thesis using bcontent_disk [OF assms(1)] cache_invD(8) [OF assms] by auto
qed

text \<open>Replacing one buffer, with the disk changed at most where no other buffer is affected.\<close>

lemma cache_inv_upd_gen:
  assumes inv: "cache_inv H s" and b: "b < NBUF"
    and bufs: "bufs t = (bufs s)[b := B]"
    and head: "distinct (bhead t)" "set (bhead t) = {..<NBUF}"
    and same: "disksize t = disksize s" "cur t = cur s" "ptable t = ptable s"
    and disk: "\<And>k. k < disksize s \<Longrightarrow> length (memdisk t k) = 512"
    and ok: "buf_ok (memdisk t) (disksize s) (H' b) B"
    and other: "\<And>a. a \<noteq> b \<Longrightarrow> H' a = H a"
    and others: "\<And>a. a < NBUF \<Longrightarrow> a \<noteq> b \<Longrightarrow> b_flags (bufs s ! a) = 2 \<Longrightarrow>
           memdisk t (unat (b_blockno (bufs s ! a))) = memdisk s (unat (b_blockno (bufs s ! a)))"
    and uniq: "\<And>a. a < NBUF \<Longrightarrow> a \<noteq> b \<Longrightarrow> b_flags B \<noteq> 0 \<Longrightarrow> \<not> holds_block (unat (b_blockno B)) (bufs s ! a)"
    and dirty: "card {x. x < NBUF \<and> b_flags (bufs t ! x) = 6} + 2 \<le> NBUF"
  shows "cache_inv H' t"
  unfolding cache_inv_def
proof (intro conjI allI impI)
  note I = cache_invD [OF inv]
  show "length (bufs t) = NBUF" using I bufs by simp
  show "dom H' \<subseteq> {..<NBUF}" using I(4) b other by (metis domIff in_mono lessThan_iff subsetI)
  show "buf_ok (memdisk t) (disksize t) (H' a) (bufs t ! a)" if "a < NBUF" for a
  proof (cases "a = b")
    case True
    with ok b I(1) show ?thesis by (simp add: bufs same)
  next
    case False
    with I(5) [OF that] others [OF that False] other [OF False] show ?thesis
      by (auto simp: bufs same buf_ok_def)
  qed
  show "a = c" if "a < NBUF" "c < NBUF" "holds_block k (bufs t ! a) \<and> holds_block k (bufs t ! c)" for a c k
  proof (rule ccontr)
    assume ne: "a \<noteq> c"
    have nb: "\<not> (holds_block k B \<and> holds_block k (bufs s ! x))" if "x < NBUF" "x \<noteq> b" for x
      using uniq [OF that] by (auto simp: holds_block_def)
    show False
      using that ne I(1) I(6) [OF that(1,2), of k] nb [of a] nb [of c] b
      by (cases "a = b"; cases "c = b") (auto simp: bufs)
  qed
qed (use head same disk cache_invD(8-11) [OF inv] dirty in \<open>simp_all add: no_sleeper_def\<close>)

text \<open>The same when the buffer does not become dirty.\<close>

lemma cache_inv_upd:
  assumes inv: "cache_inv H s" and b: "b < NBUF"
    and bufs: "bufs t = (bufs s)[b := B]"
    and head: "distinct (bhead t)" "set (bhead t) = {..<NBUF}"
    and same: "disksize t = disksize s" "cur t = cur s" "ptable t = ptable s"
    and disk: "\<And>k. k < disksize s \<Longrightarrow> length (memdisk t k) = 512"
    and ok: "buf_ok (memdisk t) (disksize s) (H' b) B"
    and other: "\<And>a. a \<noteq> b \<Longrightarrow> H' a = H a"
    and others: "\<And>a. a < NBUF \<Longrightarrow> a \<noteq> b \<Longrightarrow> b_flags (bufs s ! a) = 2 \<Longrightarrow>
           memdisk t (unat (b_blockno (bufs s ! a))) = memdisk s (unat (b_blockno (bufs s ! a)))"
    and uniq: "\<And>a. a < NBUF \<Longrightarrow> a \<noteq> b \<Longrightarrow> b_flags B \<noteq> 0 \<Longrightarrow> \<not> holds_block (unat (b_blockno B)) (bufs s ! a)"
    and dirty: "b_flags B = 6 \<Longrightarrow> b_flags (bufs s ! b) = 6"
  shows "cache_inv H' t"
proof (rule cache_inv_upd_gen [OF inv b bufs head same disk ok other others uniq])
  note I = cache_invD [OF inv]
  have "{x. x < NBUF \<and> b_flags (bufs t ! x) = 6} \<subseteq> {x. x < NBUF \<and> b_flags (bufs s ! x) = 6}"
  proof clarify
    fix x assume "x < NBUF" "b_flags (bufs t ! x) = 6"
    then show "b_flags (bufs s ! x) = 6" using dirty I(1) by (cases "x = b") (simp_all add: bufs)
  qed
  then have "card {x. x < NBUF \<and> b_flags (bufs t ! x) = 6} \<le> card {x. x < NBUF \<and> b_flags (bufs s ! x) = 6}"
    by (intro card_mono) simp_all
  with I(7) show "card {x. x < NBUF \<and> b_flags (bufs t ! x) = 6} + 2 \<le> NBUF" by simp
qed

text \<open>The effect on what readers see.\<close>

lemma bcontent_upd:
  assumes inv: "cache_inv H s" and inv': "cache_inv H' t" and b: "b < NBUF"
    and bufs: "bufs t = (bufs s)[b := B]"
    and disk: "\<And>k. \<not> holds_block k B \<Longrightarrow> memdisk t k = memdisk s k"
    and gone: "b_flags (bufs s ! b) \<noteq> 0 \<Longrightarrow> \<not> holds_block (unat (b_blockno (bufs s ! b))) B \<Longrightarrow> b_flags (bufs s ! b) = 2"
  shows "bcontent t k = (if holds_block k B then b_data B else bcontent s k)"
proof -
  have len: "length (bufs s) = NBUF" using cache_invD [OF inv] by simp
  show ?thesis
  proof (cases "holds_block k B")
    case True
    then show ?thesis using bcontent_buf [OF inv' b, of k] b len by (simp add: bufs)
  next
    case False
    show ?thesis
    proof (cases "\<exists>a < NBUF. a \<noteq> b \<and> holds_block k (bufs s ! a)")
      case True
      then obtain a where a: "a < NBUF" "a \<noteq> b" "holds_block k (bufs s ! a)" by blast
      then show ?thesis
        using False bcontent_buf [OF inv a(1,3)] bcontent_buf [OF inv' a(1), of k] by (simp add: bufs)
    next
      case none: False
      have "bcontent t k = memdisk t k"
      proof (rule bcontent_disk [OF inv'])
        fix a assume "a < NBUF"
        then show "\<not> holds_block k (bufs t ! a)"
          using none False len by (cases "a = b") (auto simp: bufs)
      qed
      also have "\<dots> = memdisk s k" by (rule disk [OF False])
      also have "\<dots> = bcontent s k"
      proof (cases "holds_block k (bufs s ! b)")
        case True
        then have "b_flags (bufs s ! b) = 2" using gone False by (auto simp: holds_block_def)
        with cache_invD(5) [OF inv b] True have "b_data (bufs s ! b) = memdisk s k"
          by (auto simp: buf_ok_def holds_block_def)
        with bcontent_buf [OF inv b True] show ?thesis by simp
      next
        case no: False
        have "\<not> holds_block k (bufs s ! a)" if "a < NBUF" for a
          using none no that by (cases "a = b") auto
        then show ?thesis using bcontent_disk [OF inv, of k] by simp
      qed
      finally show ?thesis using False by simp
    qed
  qed
qed

section \<open>The operations\<close>

definition take_lock :: "int \<Rightarrow> sleeplock \<Rightarrow> sleeplock" where
  "take_lock pid l = l\<lparr>lk_locked := 1, lk_pid := pid\<rparr>"

definition drop_lock :: "sleeplock \<Rightarrow> sleeplock" where
  "drop_lock l = l\<lparr>lk_locked := 0, lk_pid := 0\<rparr>"

lemma bufs_upd_buf [simp]: "bufs (upd_buf b f s) = (bufs s)[b := f (bufs s ! b)]"
  by (simp add: upd_buf_def)

lemma upd_buf_frame [simp]:
  "bhead (upd_buf b f s) = bhead s" "memdisk (upd_buf b f s) = memdisk s" "disksize (upd_buf b f s) = disksize s"
  "dwrites (upd_buf b f s) = dwrites s" "cur (upd_buf b f s) = cur s" "ptable (upd_buf b f s) = ptable s"
  "klog (upd_buf b f s) = klog s" "sb (upd_buf b f s) = sb s" "inodes (upd_buf b f s) = inodes s"
  by (simp_all add: upd_buf_def)

lemma upd_buf_upd_buf [simp]:
  "b < length (bufs s) \<Longrightarrow> upd_buf b f (upd_buf b g s) = upd_buf b (\<lambda>bp. f (g bp)) s"
  by (simp add: upd_buf_def)

lemma no_sleeper_upd_buf [simp]: "no_sleeper c (upd_buf b f s) = no_sleeper c s"
  by (simp add: no_sleeper_def)

lemma upd_buf_lock:
  "upd_buf b (b_lock_update f) s = upd_buf b (\<lambda>bp. bp\<lparr>b_lock := f (b_lock bp)\<rparr>) s"
  by (cases "bufs s ! b") (simp add: upd_buf_def)

lemma acquire_buf:
  assumes "b < length (bufs s)" "lk_locked (b_lock (bufs s ! b)) = 0" "cur s = Some c"
  shows "acquiresleep (buf_lock b) s =
    Done () (upd_buf b (\<lambda>bp. bp\<lparr>b_lock := take_lock (p_pid (pof s c)) (b_lock bp)\<rparr>) s)"
  using assms by (simp add: buf_lock_def kop_simps curproc_def pget_def take_lock_def upd_buf_lock comp_def)

lemma release_buf:
  assumes "b < length (bufs s)" "no_sleeper (ChBufLock b) s"
  shows "releasesleep (buf_lock b) s = Done () (upd_buf b (\<lambda>bp. bp\<lparr>b_lock := drop_lock (b_lock bp)\<rparr>) s)"
  using assms by (simp add: buf_lock_def kop_simps wakeup_quiet drop_lock_def upd_buf_lock comp_def)

lemma holding_buf: "holdingsleep (buf_lock b) s = Done (lk_locked (b_lock (bufs s ! b)) \<noteq> 0) s"
  by (simp add: buf_lock_def kop_simps)

lemma flag_values:
  "(2::u32) AND B_VALID \<noteq> 0" "(6::u32) AND B_VALID \<noteq> 0" "(2::u32) AND B_DIRTY = 0"
  "(6::u32) AND B_DIRTY \<noteq> 0" "(2::u32) OR B_DIRTY = 6" "(6::u32) OR B_DIRTY = 6"
  "(6::u32) AND NOT B_DIRTY = 2" "(2::u32) OR B_VALID = 2" "(0::u32) OR B_VALID = 2"
  "(0::u32) AND (B_VALID OR B_DIRTY) \<noteq> B_VALID" "(6::u32) AND (B_VALID OR B_DIRTY) \<noteq> B_VALID"
  by (simp_all add: B_VALID_def B_DIRTY_def)

text \<open>A hit: the buffer is referenced and locked.\<close>

lemma bread_hit:
  assumes "find (\<lambda>b. b_dev (bufs s ! b) = dev \<and> b_blockno (bufs s ! b) = bn) (bhead s) = Some b"
    and "b < length (bufs s)" "lk_locked (b_lock (bufs s ! b)) = 0" "cur s = Some c"
    and "b_flags (bufs s ! b) = 2 \<or> b_flags (bufs s ! b) = 6"
  shows "bread dev bn s = Done b (upd_buf b (\<lambda>bp. bp\<lparr>b_refcnt := b_refcnt bp + 1,
           b_lock := take_lock (p_pid (pof s c)) (b_lock bp)\<rparr>) s)"
  using assms by (auto simp: bread_def bget_def kop_simps acquire_buf bget_field_def flag_values)

text \<open>A miss: the least recently used free clean buffer is recycled and read from the disk.\<close>

lemma bread_miss:
  assumes "find (\<lambda>b. b_dev (bufs s ! b) = 1 \<and> b_blockno (bufs s ! b) = bn) (bhead s) = None"
    and "find (\<lambda>b. b_refcnt (bufs s ! b) = 0 \<and> b_flags (bufs s ! b) AND B_DIRTY = 0) (rev (bhead s)) = Some b"
    and "b < length (bufs s)" "lk_locked (b_lock (bufs s ! b)) = 0" "cur s = Some c" "unat bn < disksize s"
  shows "bread 1 bn s = Done b (upd_buf b (\<lambda>bp. bp\<lparr>b_dev := 1, b_blockno := bn, b_refcnt := 1,
           b_lock := take_lock (p_pid (pof s c)) (b_lock bp), b_data := memdisk s (unat bn), b_flags := 2\<rparr>) s)"
  using assms
  by (simp add: bread_def bget_def kop_simps acquire_buf bget_field_def iderw_def holding_buf take_lock_def
      B_VALID_def B_DIRTY_def)

lemma bwrite_eval:
  assumes "b < length (bufs s)" "lk_locked (b_lock (bufs s ! b)) \<noteq> 0" "b_dev (bufs s ! b) = 1"
    and "b_flags (bufs s ! b) = 2 \<or> b_flags (bufs s ! b) = 6" "unat (b_blockno (bufs s ! b)) < disksize s"
  shows "\<exists>t. kseq (set_bdata b d) (bwrite b) s = Done () t \<and>
    bufs t = (bufs s)[b := (bufs s ! b)\<lparr>b_data := d, b_flags := 2\<rparr>] \<and>
    memdisk t = (memdisk s)(unat (b_blockno (bufs s ! b)) := d) \<and>
    dwrites t = dwrites s @ [(unat (b_blockno (bufs s ! b)), d)] \<and>
    bhead t = bhead s \<and> disksize t = disksize s \<and> cur t = cur s \<and> ptable t = ptable s \<and>
    klog t = klog s \<and> sb t = sb s \<and> inodes t = inodes s"
  using assms
  by (auto simp: set_bdata_def bwrite_def kop_simps holding_buf bget_field_def iderw_def B_VALID_def B_DIRTY_def)

lemma brelse_eval:
  assumes "b < length (bufs s)" "lk_locked (b_lock (bufs s ! b)) \<noteq> 0" "no_sleeper (ChBufLock b) s"
    and "b_refcnt (bufs s ! b) = 1"
  shows "\<exists>t. brelse b s = Done () t \<and>
    bufs t = (bufs s)[b := (bufs s ! b)\<lparr>b_lock := drop_lock (b_lock (bufs s ! b)), b_refcnt := 0\<rparr>] \<and>
    bhead t = b # remove1 b (bhead s) \<and> memdisk t = memdisk s \<and> dwrites t = dwrites s \<and>
    disksize t = disksize s \<and> cur t = cur s \<and> ptable t = ptable s \<and>
    klog t = klog s \<and> sb t = sb s \<and> inodes t = inodes s"
  using assms by (simp add: brelse_def kop_simps holding_buf release_buf bget_field_def)

section \<open>The cache provides the contract\<close>

definition bframe :: "'a fs_state_scheme \<Rightarrow> log_t \<times> superblock \<times> inode list \<times> proc list" where
  "bframe s = (klog s, sb s, inodes s, ptable s)"

text \<open>A state that differs in one buffer, with the disk unchanged and the block seen as before.\<close>

definition dirty_blocks :: "'a fs_state_scheme \<Rightarrow> nat set" where
  "dirty_blocks s = {unat (b_blockno (bufs s ! b)) | b. b < NBUF \<and> b_flags (bufs s ! b) = 6}"

lemma dirty_blocks_upd:
  assumes "b < NBUF" "length (bufs s) = NBUF" "bufs t = (bufs s)[b := B]"
    and "b_flags B = b_flags (bufs s ! b) \<and> b_blockno B = b_blockno (bufs s ! b) \<or>
         b_flags B \<noteq> 6 \<and> b_flags (bufs s ! b) \<noteq> 6"
  shows "dirty_blocks t = dirty_blocks s"
  using assms unfolding dirty_blocks_def by (auto simp: nth_list_update split: if_splits)

lemma card_dirty:
  assumes "cache_inv H s"
  shows "card {b. b < NBUF \<and> b_flags (bufs s ! b) = 6} = card (dirty_blocks s)"
proof -
  let ?D = "{b. b < NBUF \<and> b_flags (bufs s ! b) = 6}" and ?f = "\<lambda>b. unat (b_blockno (bufs s ! b))"
  have "inj_on ?f ?D"
    using cache_invD(6) [OF assms] by (auto simp: inj_on_def holds_block_def)
  moreover have "dirty_blocks s = ?f ` ?D" by (auto simp: dirty_blocks_def)
  ultimately show ?thesis by (simp add: card_image)
qed

lemma cache_swap:
  assumes inv: "cache_inv H s" and b: "b < NBUF" and t: "t = upd_buf b g s"
    and ok: "buf_ok (memdisk s) (disksize s) (H' b) (g (bufs s ! b))"
    and other: "\<And>a. a \<noteq> b \<Longrightarrow> H' a = H a"
    and uniq: "\<And>a. a < NBUF \<Longrightarrow> a \<noteq> b \<Longrightarrow> b_flags (g (bufs s ! b)) \<noteq> 0 \<Longrightarrow>
           \<not> holds_block (unat (b_blockno (g (bufs s ! b)))) (bufs s ! a)"
    and dirty: "b_flags (g (bufs s ! b)) = 6 \<Longrightarrow> b_flags (bufs s ! b) = 6"
    and gone: "b_flags (bufs s ! b) \<noteq> 0 \<Longrightarrow>
           \<not> holds_block (unat (b_blockno (bufs s ! b))) (g (bufs s ! b)) \<Longrightarrow> b_flags (bufs s ! b) = 2"
    and seen: "\<And>k. holds_block k (g (bufs s ! b)) \<Longrightarrow> b_data (g (bufs s ! b)) = bcontent s k"
  shows "cache_inv H' t \<and> bcontent t = bcontent s"
proof -
  have inv': "cache_inv H' t"
    by (rule cache_inv_upd [OF inv b, of t "g (bufs s ! b)"])
      (use cache_invD [OF inv] assms in \<open>auto simp: t\<close>)
  have "bcontent t k = bcontent s k" for k
    using bcontent_upd [OF inv inv' b, of "g (bufs s ! b)" k] gone seen by (auto simp: t)
  with inv' show ?thesis by auto
qed

lemma unat_block: "k < disksize s \<Longrightarrow> disksize s \<le> 2 ^ 31 \<Longrightarrow> unat (of_nat k :: u32) = k"
  by (simp add: unat_of_nat)

lemma holds_block_iff:
  assumes "cache_inv H s" "a < NBUF" "k < disksize s"
  shows "holds_block k (bufs s ! a) \<longleftrightarrow> b_dev (bufs s ! a) = 1 \<and> b_blockno (bufs s ! a) = of_nat k"
proof -
  have u: "unat (of_nat k :: u32) = k" using unat_block assms cache_invD(9) by blast
  have "b_blockno (bufs s ! a) = of_nat k \<longleftrightarrow> unat (b_blockno (bufs s ! a)) = k"
    using u by (auto simp: word_unat_eq_iff)
  with cache_invD(5) [OF assms(1,2)] show ?thesis
    by (auto simp: holds_block_def buf_ok_def)
qed

lemma cache_rd_hit:
  assumes inv: "cache_inv H s" and k: "k < disksize s" "k \<notin> ran H"
    and f: "find (\<lambda>b. b_dev (bufs s ! b) = 1 \<and> b_blockno (bufs s ! b) = of_nat k) (bhead s) = Some b"
  shows "\<exists>t. bread 1 (of_nat k) s = Done b t \<and> b \<notin> dom H \<and> cache_inv (H(b \<mapsto> k)) t \<and>
    bcontent t = bcontent s \<and> memdisk t = memdisk s \<and> dwrites t = dwrites s \<and> bframe t = bframe s \<and>
    disksize t = disksize s \<and> dirty_blocks t = dirty_blocks s"
proof -
  note I = cache_invD [OF inv]
  have b: "b < NBUF" "b_dev (bufs s ! b) = 1" "b_blockno (bufs s ! b) = of_nat k"
    using f I(3) by (auto simp: find_Some_iff)
  have h: "holds_block k (bufs s ! b)" using holds_block_iff [OF inv b(1) k(1)] b by simp
  have free: "b \<notin> dom H"
  proof
    assume "b \<in> dom H"
    then obtain j where "H b = Some j" by blast
    with I(5) [OF b(1)] h have "H b = Some k" by (auto simp: buf_ok_def holds_block_def)
    with k(2) show False by (auto simp: ran_def)
  qed
  then have ok: "buf_ok (memdisk s) (disksize s) None (bufs s ! b)" using I(5) [OF b(1)] by (simp add: domIff)
  obtain c where c: "cur s = Some c" using I(10) by blast
  define g where "g = (\<lambda>bp :: buf. bp\<lparr>b_refcnt := b_refcnt bp + 1, b_lock := take_lock (p_pid (pof s c)) (b_lock bp)\<rparr>)"
  have run: "bread 1 (of_nat k) s = Done b (upd_buf b g s)"
    unfolding g_def using f b c ok h I(1) by (intro bread_hit) (auto simp: buf_ok_def holds_block_def)
  have "cache_inv (H(b \<mapsto> k)) (upd_buf b g s) \<and> bcontent (upd_buf b g s) = bcontent s"
  proof (rule cache_swap [OF inv b(1) refl])
    show "buf_ok (memdisk s) (disksize s) ((H(b \<mapsto> k)) b) (g (bufs s ! b))"
      using ok h by (auto simp: buf_ok_def g_def holds_block_def take_lock_def)
    show "\<not> holds_block (unat (b_blockno (g (bufs s ! b)))) (bufs s ! a)" if "a < NBUF" "a \<noteq> b" for a
      using I(6) [OF that(1) b(1)] that h by (auto simp: g_def holds_block_def)
    show "b_data (g (bufs s ! b)) = bcontent s j" if "holds_block j (g (bufs s ! b))" for j
      using bcontent_buf [OF inv b(1), of j] that by (simp add: g_def holds_block_def)
  qed (auto simp: g_def holds_block_def)
  moreover have "dirty_blocks (upd_buf b g s) = dirty_blocks s"
    by (rule dirty_blocks_upd [OF b(1) I(1) bufs_upd_buf]) (simp add: g_def)
  ultimately show ?thesis using run free by (auto simp: bframe_def)
qed

lemma cache_victim:
  assumes inv: "cache_inv H s" and "card (dom H) \<le> 1"
  shows "\<exists>b. find (\<lambda>b. b_refcnt (bufs s ! b) = 0 \<and> b_flags (bufs s ! b) AND B_DIRTY = 0) (rev (bhead s)) = Some b \<and>
    b < NBUF \<and> b \<notin> dom H \<and> b_flags (bufs s ! b) \<noteq> 6"
proof -
  note I = cache_invD [OF inv]
  let ?D = "{b. b < NBUF \<and> b_flags (bufs s ! b) = 6}" and ?P = "\<lambda>b. b_refcnt (bufs s ! b) = 0 \<and> b_flags (bufs s ! b) AND B_DIRTY = 0"
  have "card (?D \<union> dom H) \<le> card ?D + card (dom H)" by (rule card_Un_le)
  also have "\<dots> < NBUF" using I(7) assms(2) by simp
  finally have "\<not> {..<NBUF} \<subseteq> ?D \<union> dom H"
    using card_mono [of "?D \<union> dom H" "{..<NBUF}"] I(4) finite_subset [OF I(4)] by auto
  then obtain a where a: "a < NBUF" "a \<notin> ?D" "a \<notin> dom H" by blast
  then have "?P a" using I(5) [OF a(1)] by (auto simp: buf_ok_def domIff B_DIRTY_def)
  moreover have "a \<in> set (rev (bhead s))" using a I(3) by simp
  ultimately have "find ?P (rev (bhead s)) \<noteq> None" by (auto simp: find_None_iff)
  then obtain b where b: "find ?P (rev (bhead s)) = Some b" by blast
  then have pb: "?P b" "b \<in> set (rev (bhead s))" by (auto simp: find_Some_iff) (metis nth_mem length_rev set_rev)
  then have "b < NBUF" using I(3) by simp
  moreover from this I(5) [of b] pb(1) have "b \<notin> dom H" by (auto simp: buf_ok_def)
  moreover have "b_flags (bufs s ! b) \<noteq> 6" using pb(1) by (auto simp: B_DIRTY_def)
  ultimately show ?thesis using b by blast
qed

lemma cache_rd_miss:
  assumes inv: "cache_inv H s" and k: "k < disksize s" "card (dom H) \<le> 1"
    and f: "find (\<lambda>b. b_dev (bufs s ! b) = 1 \<and> b_blockno (bufs s ! b) = of_nat k) (bhead s) = None"
  shows "\<exists>b t. bread 1 (of_nat k) s = Done b t \<and> b \<notin> dom H \<and> cache_inv (H(b \<mapsto> k)) t \<and>
    bcontent t = bcontent s \<and> memdisk t = memdisk s \<and> dwrites t = dwrites s \<and> bframe t = bframe s \<and>
    disksize t = disksize s \<and> dirty_blocks t = dirty_blocks s"
proof -
  note I = cache_invD [OF inv]
  obtain b where b: "find (\<lambda>b. b_refcnt (bufs s ! b) = 0 \<and> b_flags (bufs s ! b) AND B_DIRTY = 0) (rev (bhead s)) = Some b"
    "b < NBUF" "b \<notin> dom H" "b_flags (bufs s ! b) \<noteq> 6"
    using cache_victim [OF inv k(2)] by blast
  have u: "unat (of_nat k :: u32) = k" using unat_block k(1) I(9) by blast
  have none: "\<not> holds_block k (bufs s ! a)" if "a < NBUF" for a
    using holds_block_iff [OF inv that k(1)] f I(3) that by (auto simp: find_None_iff)
  have ok: "buf_ok (memdisk s) (disksize s) None (bufs s ! b)" using I(5) [OF b(2)] b(3) by (simp add: domIff)
  obtain c where c: "cur s = Some c" using I(10) by blast
  define g where "g = (\<lambda>bp :: buf. bp\<lparr>b_dev := 1, b_blockno := of_nat k, b_refcnt := 1,
    b_lock := take_lock (p_pid (pof s c)) (b_lock bp), b_data := memdisk s k, b_flags := 2\<rparr>)"
  have run: "bread 1 (of_nat k) s = Done b (upd_buf b g s)"
    unfolding g_def using bread_miss [OF f b(1), of c] b(2) c ok I(1) k(1) by (simp add: u buf_ok_def)
  have "cache_inv (H(b \<mapsto> k)) (upd_buf b g s) \<and> bcontent (upd_buf b g s) = bcontent s"
  proof (rule cache_swap [OF inv b(2) refl])
    show "buf_ok (memdisk s) (disksize s) ((H(b \<mapsto> k)) b) (g (bufs s ! b))"
      using k(1) I(8) by (simp add: buf_ok_def g_def u take_lock_def)
    show "\<not> holds_block (unat (b_blockno (g (bufs s ! b)))) (bufs s ! a)" if "a < NBUF" for a
      using none [OF that] by (simp add: g_def u)
    show "b_flags (bufs s ! b) = 2" if "b_flags (bufs s ! b) \<noteq> 0" using ok b(4) that by (auto simp: buf_ok_def)
    show "b_data (g (bufs s ! b)) = bcontent s j" if "holds_block j (g (bufs s ! b))" for j
      using bcontent_disk [OF inv none] that by (auto simp: g_def holds_block_def u)
  qed (auto simp: g_def)
  moreover have "dirty_blocks (upd_buf b g s) = dirty_blocks s"
    by (rule dirty_blocks_upd [OF b(2) I(1) bufs_upd_buf]) (use b(4) in \<open>simp add: g_def\<close>)
  ultimately show ?thesis using run b(3) by (auto simp: bframe_def)
qed

lemma cache_wr:
  assumes inv: "cache_inv H s" and h: "H b = Some k" and d: "length d = 512"
  shows "\<exists>t. kseq (set_bdata b d) (bwrite b) s = Done () t \<and> cache_inv H t \<and> bcontent t = (bcontent s)(k := d) \<and>
    memdisk t = (memdisk s)(k := d) \<and> dwrites t = dwrites s @ [(k, d)] \<and> bframe t = bframe s \<and>
    disksize t = disksize s"
proof -
  note I = cache_invD [OF inv]
  have b: "b < NBUF" using I(4) h by blast
  let ?B = "(bufs s ! b)\<lparr>b_data := d, b_flags := 2\<rparr>"
  have ok: "buf_ok (memdisk s) (disksize s) (Some k) (bufs s ! b)" using I(5) [OF b] h by simp
  have kk: "unat (b_blockno (bufs s ! b)) = k" "holds_block k (bufs s ! b)" using ok
    by (auto simp: buf_ok_def holds_block_def)
  obtain t where run: "kseq (set_bdata b d) (bwrite b) s = Done () t" and t:
    "bufs t = (bufs s)[b := ?B]" "memdisk t = (memdisk s)(k := d)" "dwrites t = dwrites s @ [(k, d)]"
    "bhead t = bhead s" "disksize t = disksize s" "cur t = cur s" "ptable t = ptable s"
    "klog t = klog s" "sb t = sb s" "inodes t = inodes s"
    using bwrite_eval [of b s d] b I(1) ok unfolding kk(1) by (auto simp: buf_ok_def)
  have uniq: "\<not> holds_block k (bufs s ! a)" if "a < NBUF" "a \<noteq> b" for a
    using I(6) [OF that(1) b _ kk(2)] that by blast
  have inv': "cache_inv H t"
  proof (rule cache_inv_upd [OF inv b t(1)])
    show "buf_ok (memdisk t) (disksize s) (H b) ?B" using ok d h by (auto simp: buf_ok_def t kk)
    show "length (memdisk t j) = 512" if "j < disksize s" for j using I(8) [OF that] d by (simp add: t)
    show "memdisk t (unat (b_blockno (bufs s ! a))) = memdisk s (unat (b_blockno (bufs s ! a)))"
      if "a < NBUF" "a \<noteq> b" "b_flags (bufs s ! a) = 2" for a
      using uniq [OF that(1,2)] that(3) by (auto simp: t holds_block_def)
    show "\<not> holds_block (unat (b_blockno ?B)) (bufs s ! a)" if "a < NBUF" "a \<noteq> b" for a
      using uniq [OF that] by (simp add: kk)
  qed (use I t in simp_all)
  have "bcontent t j = (if j = k then d else bcontent s j)" for j
    using bcontent_upd [OF inv inv' b t(1), of j] kk by (auto simp: t holds_block_def)
  then have "bcontent t = (bcontent s)(k := d)" by auto
  with run inv' t show ?thesis by (auto simp: bframe_def)
qed

lemma cache_rl:
  assumes inv: "cache_inv H s" and h: "H b = Some k"
  shows "\<exists>t. brelse b s = Done () t \<and> cache_inv (H(b := None)) t \<and> bcontent t = bcontent s \<and>
    memdisk t = memdisk s \<and> dwrites t = dwrites s \<and> bframe t = bframe s \<and> disksize t = disksize s \<and>
    dirty_blocks t = dirty_blocks s"
proof -
  note I = cache_invD [OF inv]
  have b: "b < NBUF" using I(4) h by blast
  let ?B = "(bufs s ! b)\<lparr>b_lock := drop_lock (b_lock (bufs s ! b)), b_refcnt := 0\<rparr>"
  have ok: "buf_ok (memdisk s) (disksize s) (Some k) (bufs s ! b)" using I(5) [OF b] h by simp
  obtain t where run: "brelse b s = Done () t" and t: "bufs t = (bufs s)[b := ?B]"
    "bhead t = b # remove1 b (bhead s)" "memdisk t = memdisk s" "dwrites t = dwrites s" "disksize t = disksize s"
    "cur t = cur s" "ptable t = ptable s" "klog t = klog s" "sb t = sb s" "inodes t = inodes s"
    using brelse_eval [of b s] b I(1) I(11) ok by (auto simp: buf_ok_def)
  have same: "holds_block j ?B = holds_block j (bufs s ! b)" for j by (simp add: holds_block_def)
  have inv': "cache_inv (H(b := None)) t"
  proof (rule cache_inv_upd [OF inv b t(1)])
    show "buf_ok (memdisk t) (disksize s) ((H(b := None)) b) ?B"
      using ok by (auto simp: buf_ok_def t drop_lock_def)
    show "set (bhead t) = {..<NBUF}" using I(2,3) b by (auto simp: t set_remove1_eq)
    show "distinct (bhead t)" using I(2) by (simp add: t)
    show "\<not> holds_block (unat (b_blockno ?B)) (bufs s ! a)" if "a < NBUF" "a \<noteq> b" "b_flags ?B \<noteq> 0" for a
      using I(6) [OF that(1) b, of "unat (b_blockno (bufs s ! b))"] that by (auto simp: holds_block_def)
  qed (use I t in simp_all)
  have "bcontent t j = bcontent s j" for j
    using bcontent_upd [OF inv inv' b t(1), of j] bcontent_buf [OF inv b, of j]
    by (auto simp: t same) (simp add: holds_block_def)
  moreover have "dirty_blocks t = dirty_blocks s"
    by (rule dirty_blocks_upd [OF b I(1) t(1)]) simp
  ultimately show ?thesis using run inv' t by (auto simp: bframe_def)
qed

interpretation bcache: block_cache cache_inv bcontent memdisk dwrites bframe disksize "\<lambda>k. bread 1 (of_nat k)" bdata
  "\<lambda>b d. kseq (set_bdata b d) (bwrite b)" brelse
proof unfold_locales
  fix H and s :: "'a fs_state_scheme" and k
  assume a: "cache_inv H s" "k < disksize s" "k \<notin> ran H" "card (dom H) \<le> 1"
  show "\<exists>b t. bread 1 (of_nat k) s = Done b t \<and> b \<notin> dom H \<and> cache_inv (H(b \<mapsto> k)) t \<and>
    bcontent t = bcontent s \<and> memdisk t = memdisk s \<and> dwrites t = dwrites s \<and> bframe t = bframe s \<and>
    disksize t = disksize s"
    using cache_rd_hit [OF a(1-3)] cache_rd_miss [OF a(1,2,4)]
    by (cases "find (\<lambda>b. b_dev (bufs s ! b) = 1 \<and> b_blockno (bufs s ! b) = of_nat k) (bhead s)") blast+
next
  fix H and s :: "'a fs_state_scheme" and b k
  assume a: "cache_inv H s" "H b = Some k"
  then have b: "b < NBUF" using cache_invD(4) [OF a(1)] by blast
  then have "holds_block k (bufs s ! b)"
    using cache_invD(5) [OF a(1) b] a(2) by (auto simp: buf_ok_def holds_block_def)
  from bcontent_buf [OF a(1) b this] show "bdata b s = Done (bcontent s k) s"
    by (simp add: bdata_def bget_field_def kop_simps)
  show "\<exists>t. brelse b s = Done () t \<and> cache_inv (H(b := None)) t \<and> bcontent t = bcontent s \<and>
    memdisk t = memdisk s \<and> dwrites t = dwrites s \<and> bframe t = bframe s \<and> disksize t = disksize s"
    using cache_rl [OF a] by blast
next
  fix H and s :: "'a fs_state_scheme" and b k and d :: "byte list"
  assume "cache_inv H s" "H b = Some k" "length d = 512"
  then show "\<exists>t. kseq (set_bdata b d) (bwrite b) s = Done () t \<and> cache_inv H t \<and>
    bcontent t = (bcontent s)(k := d) \<and> memdisk t = (memdisk s)(k := d) \<and>
    dwrites t = dwrites s @ [(k, d)] \<and> bframe t = bframe s \<and> disksize t = disksize s"
    by (rule cache_wr)
next
  fix H and s :: "'a fs_state_scheme"
  assume a: "cache_inv H s"
  show "length (bcontent s k) = 512" if "k < disksize s" for k by (rule bcontent_len [OF a that])
  show "finite (dom H)" using cache_invD(4) [OF a] finite_subset by blast
qed

end
