(* ===== verification/Log_Recovery.thy ===== *)
theory Log_Recovery
  imports Bcache
begin

unbundle bit_operations_syntax

text \<open>
  Crash safety of the log. \<^verbatim>\<open>commit\<close> is proved to make a precise sequence of disk writes; a crash
  leaves the disk after some prefix of it; and \<^verbatim>\<open>recover_from_log\<close> on that disk gives either all of
  the transaction's blocks or none of them.
\<close>

section \<open>The header block\<close>

lemma sint_of_nat_small: "n < 2 ^ 31 \<Longrightarrow> sint (of_nat n :: u32) = int n"
  by (simp add: signed_of_nat signed_take_bit_int_eq_self)

lemma u32_of_nat [simp]: "u32_of (int n) = of_nat n"
  by (simp add: u32_of_def)

lemma length_put_blocks [simp]:
  "4 + 4 * (i + length xs) \<le> length d \<Longrightarrow> length (put_blocks d i xs) = length d"
  by (induction xs arbitrary: d i) simp_all

lemma put_blocks_before:
  "o' + 4 \<le> 4 + 4 * i \<Longrightarrow> 4 + 4 * (i + length xs) \<le> length d \<Longrightarrow> get32 (put_blocks d i xs) o' = get32 d o'"
  by (induction xs arbitrary: d i) (simp_all add: get32_put32_other)

lemma put_blocks_at:
  "j < length xs \<Longrightarrow> 4 + 4 * (i + length xs) \<le> length d \<Longrightarrow>
   get32 (put_blocks d i xs) (4 + 4 * (i + j)) = u32_of (xs ! j)"
proof (induction xs arbitrary: d i j)
  case (Cons x xs)
  show ?case
  proof (cases j)
    case 0
    with Cons.prems show ?thesis by (simp add: put_blocks_before)
  next
    case (Suc j')
    with Cons.IH [of j' "Suc i" "put32 d (4 + 4 * i) (u32_of x)"] Cons.prems show ?thesis by simp
  qed
qed simp

lemma encode_head_facts:
  assumes "lh_n lg = int n" "n \<le> LOGSIZE" "length (lh_block lg) = LOGSIZE" "length d = 512"
  shows "length (encode_head lg d) = 512" "get32 (encode_head lg d) 0 = of_nat n"
    "i < n \<Longrightarrow> get32 (encode_head lg d) (4 + 4 * i) = u32_of (lh_block lg ! i)"
proof -
  have n: "nat (lh_n lg) = n" "length (take n (lh_block lg)) = n" using assms by simp_all
  have b: "4 + 4 * (0 + length (take n (lh_block lg))) \<le> length (put32 d 0 (of_nat n))"
    using assms n by (simp add: LOGSIZE_def)
  show "length (encode_head lg d) = 512" using assms n b by (simp add: encode_head_def)
  show "get32 (encode_head lg d) 0 = of_nat n"
    using assms n b by (simp add: encode_head_def put_blocks_before)
  show "get32 (encode_head lg d) (4 + 4 * i) = u32_of (lh_block lg ! i)" if "i < n"
    using put_blocks_at [of i "take n (lh_block lg)" 0 "put32 d 0 (of_nat n)"] that assms n b
    by (simp add: encode_head_def)
qed

section \<open>Recovery on a disk\<close>

text \<open>
  The blocks of the log area: the header at \<open>st\<close> and the data blocks behind it. \<^verbatim>\<open>mkfs\<close> gives the log
  \<^verbatim>\<open>LOGSIZE\<close> blocks, so that it holds one block less, which \<^verbatim>\<open>log_write\<close> checks; the inodes start right behind it.
\<close>

lemma LOGSIZE_pos [simp]: "0 < LOGSIZE"
  by (simp add: LOGSIZE_def)

definition in_log :: "nat \<Rightarrow> nat \<Rightarrow> bool" where
  "in_log st k \<longleftrightarrow> st \<le> k \<and> k < st + LOGSIZE"

definition head_count :: "byte list \<Rightarrow> nat" where
  "head_count h = nat (sint (get32 h 0))"

definition head_home :: "byte list \<Rightarrow> nat \<Rightarrow> nat" where
  "head_home h i = unat (get32 h (4 + 4 * i))"

definition replay :: "nat \<Rightarrow> (nat \<Rightarrow> byte list) \<Rightarrow> (nat \<times> byte list) list" where
  "replay st d = map (\<lambda>i. (head_home (d st) i, d (st + 1 + i))) [0..<head_count (d st)]"

definition recovered :: "nat \<Rightarrow> (nat \<Rightarrow> byte list) \<Rightarrow> nat \<Rightarrow> byte list" where
  "recovered st d = apply_writes (replay st d) d"

lemma recovered_empty: "head_count (d st) = 0 \<Longrightarrow> recovered st d = d"
  by (simp add: recovered_def replay_def)

text \<open>
  The writes of a commit that moves the contents \<open>c\<close> of the blocks \<open>homes\<close>, with the two header
  blocks \<open>h1\<close> and \<open>h0\<close>.
\<close>

definition commit_writes ::
    "nat \<Rightarrow> nat list \<Rightarrow> (nat \<Rightarrow> byte list) \<Rightarrow> byte list \<Rightarrow> byte list \<Rightarrow> (nat \<times> byte list) list" where
  "commit_writes st homes c h1 h0 =
     map (\<lambda>i. (st + 1 + i, c (homes ! i))) [0..<length homes] @ [(st, h1)] @
     map (\<lambda>i. (homes ! i, c (homes ! i))) [0..<length homes] @ [(st, h0)]"

definition updated :: "nat list \<Rightarrow> (nat \<Rightarrow> byte list) \<Rightarrow> (nat \<Rightarrow> byte list) \<Rightarrow> nat \<Rightarrow> byte list" where
  "updated homes c d k = (if k \<in> set homes then c k else d k)"

text \<open>Where the log holds the blocks and the header names them, recovery installs them all.\<close>

lemma recovered_committed:
  assumes homes: "distinct homes" "\<And>h. h \<in> set homes \<Longrightarrow> \<not> in_log st h"
    and count: "head_count (d st) = length homes"
    and home: "\<And>i. i < length homes \<Longrightarrow> head_home (d st) i = homes ! i"
    and log: "\<And>i. i < length homes \<Longrightarrow> d (st + 1 + i) = c (homes ! i)"
    and old: "\<And>k. k \<notin> set homes \<Longrightarrow> \<not> in_log st k \<Longrightarrow> d k = d0 k"
    and k: "\<not> in_log st k"
  shows "recovered st d k = updated homes c d0 k"
proof -
  have rep: "replay st d = map (\<lambda>i. (homes ! i, c (homes ! i))) [0..<length homes]"
    unfolding replay_def count using home log by (intro map_cong) simp_all
  have fsts: "map fst (replay st d) = homes"
    unfolding rep by (simp add: comp_def map_nth)
  show ?thesis
  proof (cases "k \<in> set homes")
    case True
    then obtain i where i: "i < length homes" "homes ! i = k" by (auto simp: in_set_conv_nth)
    then have "(k, c k) \<in> set (replay st d)" by (auto simp: rep)
    with apply_writes_distinct [of "replay st d"] fsts homes(1) True show ?thesis
      by (simp add: recovered_def updated_def)
  next
    case False
    then have "k \<notin> fst ` set (replay st d)" using fsts by (metis list.set_map)
    then show ?thesis using False old k by (simp add: recovered_def updated_def apply_writes_other)
  qed
qed

lemma prefix_append_cases:
  assumes "ws = take n (xs @ ys)"
  shows "(\<exists>m. ws = take m xs) \<or> (\<exists>m. ws = xs @ take m ys)"
  using assms by (cases "n \<le> length xs") auto

lemma log_writes_fst:
  "k \<in> fst ` set (take m (map (\<lambda>i. (st + 1 + i, f i)) [0..<n])) \<Longrightarrow> n < LOGSIZE \<Longrightarrow> in_log st k \<and> k \<noteq> st"
  by (auto simp: in_log_def take_map dest!: in_set_takeD)

lemma apply_log_writes:
  assumes "i < n"
  shows "apply_writes (map (\<lambda>i. (st + 1 + i, f i)) [0..<n]) d (st + 1 + i) = f i"
  by (rule apply_writes_distinct) (use assms in \<open>auto simp: comp_def distinct_map inj_on_def\<close>)

text \<open>All the writes together.\<close>

lemma commit_writes_effect:
  assumes homes: "distinct homes" "\<And>h. h \<in> set homes \<Longrightarrow> \<not> in_log st h" "length homes < LOGSIZE"
    and k: "\<not> in_log st k"
  shows "apply_writes (commit_writes st homes c h1 h0) d0 k = updated homes c d0 k"
proof -
  let ?n = "length homes"
  let ?W1 = "map (\<lambda>i. (st + 1 + i, c (homes ! i))) [0..<?n]"
  let ?W3 = "map (\<lambda>i. (homes ! i, c (homes ! i))) [0..<?n]"
  have "k \<noteq> st" "k \<notin> fst ` set ?W1" using k homes(3) by (auto simp: in_log_def)
  then have d1: "((apply_writes ?W1 d0)(st := h1)) k = d0 k" by (simp add: apply_writes_other)
  have "apply_writes ?W3 ((apply_writes ?W1 d0)(st := h1)) k = updated homes c d0 k"
  proof (cases "k \<in> set homes")
    case True
    then obtain i where "i < ?n" "homes ! i = k" by (auto simp: in_set_conv_nth)
    then have "(k, c k) \<in> set ?W3" by auto
    with apply_writes_distinct [of ?W3] homes(1) True show ?thesis
      by (simp add: updated_def comp_def map_nth)
  next
    case False
    then have "k \<notin> fst ` set ?W3" by auto
    with d1 False show ?thesis by (simp add: apply_writes_other updated_def)
  qed
  with \<open>k \<noteq> st\<close> show ?thesis by (simp add: commit_writes_def)
qed

text \<open>
  The commit point is the write of the first header: a prefix without it recovers to the old
  blocks, a prefix with it to the new ones.
\<close>

lemma crash_prefix:
  assumes homes: "distinct homes" "\<And>h. h \<in> set homes \<Longrightarrow> \<not> in_log st h" "length homes < LOGSIZE"
    and d0: "head_count (d0 st) = 0"
    and h1: "head_count h1 = length homes" "\<And>i. i < length homes \<Longrightarrow> head_home h1 i = homes ! i"
    and h0: "head_count h0 = 0"
    and ws: "ws = take m (commit_writes st homes c h1 h0)"
  shows "(\<forall>k. \<not> in_log st k \<longrightarrow> recovered st (apply_writes ws d0) k = d0 k) \<or>
         (\<forall>k. \<not> in_log st k \<longrightarrow> recovered st (apply_writes ws d0) k = updated homes c d0 k)"
proof -
  let ?n = "length homes"
  let ?W1 = "map (\<lambda>i. (st + 1 + i, c (homes ! i))) [0..<?n]"
  let ?W3 = "map (\<lambda>i. (homes ! i, c (homes ! i))) [0..<?n]"
  let ?d1 = "(apply_writes ?W1 d0)(st := h1)"
  have in_st: "in_log st st" by (simp add: in_log_def)
  have old1: "?d1 k = d0 k" if "\<not> in_log st k" for k
  proof -
    have "k \<notin> fst ` set ?W1" using that homes(3) by (auto simp: in_log_def)
    with that in_st show ?thesis by (auto simp: apply_writes_other)
  qed
  have install: "recovered st d k = updated homes c d0 k"
    if d: "d = apply_writes (take j ?W3) ?d1" and k: "\<not> in_log st k" for d j k
  proof (rule recovered_committed [OF homes(1,2) _ _ _ _ k])
    have w3: "fst ` set (take j ?W3) \<subseteq> set homes" by (auto dest!: in_set_takeD)
    have inlog: "d x = ?d1 x" if "in_log st x" for x
      unfolding d by (rule apply_writes_other) (use w3 homes(2) that in blast)
    show "head_count (d st) = ?n" using inlog [OF in_st] h1(1) by simp
    show "head_home (d st) i = homes ! i" if "i < ?n" for i using inlog [OF in_st] h1(2) [OF that] by simp
    show "d (st + 1 + i) = c (homes ! i)" if "i < ?n" for i
      using inlog [of "st + 1 + i"] that homes(3) apply_log_writes [OF that, of st "\<lambda>i. c (homes ! i)"]
      by (simp add: in_log_def)
    show "d x = d0 x" if "x \<notin> set homes" "\<not> in_log st x" for x
      unfolding d using apply_writes_other [of x "take j ?W3" ?d1] w3 that old1 by auto
  qed
  consider (before) j where "ws = take j ?W1" | (mid) j where "ws = ?W1 @ (st, h1) # take j ?W3"
    | (after) "ws = ?W1 @ (st, h1) # ?W3 @ [(st, h0)]"
  proof -
    have "ws = take m (?W1 @ ((st, h1) # ?W3) @ [(st, h0)])" using ws by (simp add: commit_writes_def)
    from prefix_append_cases [OF this]
    show thesis
    proof (elim disjE exE)
      fix j assume "ws = take j ?W1" then show thesis by (rule before)
    next
      fix j assume j: "ws = ?W1 @ take j (((st, h1) # ?W3) @ [(st, h0)])"
      show thesis
      proof (cases j)
        case 0
        with j have "ws = take (length ?W1) ?W1" by simp
        then show thesis by (rule before)
      next
        case (Suc i)
        with j have "ws = ?W1 @ (st, h1) # take i (?W3 @ [(st, h0)])" by simp
        then show thesis using mid [of i] after by (cases "i \<le> length ?W3") auto
      qed
    qed
  qed
  then show ?thesis
  proof cases
    case before
    have same: "apply_writes ws d0 k = d0 k" if "\<not> in_log st k \<or> k = st" for k
      unfolding before
      by (rule apply_writes_other) (use log_writes_fst [of k j st "\<lambda>i. c (homes ! i)" ?n] that homes(3) in blast)
    then have "recovered st (apply_writes ws d0) = apply_writes ws d0"
      using d0 same [of st] by (intro recovered_empty) simp
    with same show ?thesis by simp
  next
    case mid
    then have "apply_writes ws d0 = apply_writes (take j ?W3) ?d1" by simp
    with install show ?thesis by simp
  next
    case after
    then have a: "apply_writes ws d0 = (apply_writes ?W3 ?d1)(st := h0)" by simp
    have "recovered st (apply_writes ws d0) = apply_writes ws d0"
      unfolding a using h0 by (intro recovered_empty) simp
    moreover have "apply_writes ws d0 k = updated homes c d0 k" if k: "\<not> in_log st k" for k
      using commit_writes_effect [OF homes k, of c h1 h0 d0] after by (simp add: commit_writes_def)
    ultimately show ?thesis by simp
  qed
qed

section \<open>What \<^verbatim>\<open>commit\<close> writes\<close>

text \<open>The in-memory log: \<open>homes\<close> are the blocks of the open transaction.\<close>

definition log_ok :: "nat \<Rightarrow> nat list \<Rightarrow> 'a fs_state_scheme \<Rightarrow> bool" where
  "log_ok st homes s \<longleftrightarrow>
     lg_dev (klog s) = 1 \<and> lg_start (klog s) = int st \<and> lh_n (klog s) = int (length homes) \<and>
     length (lh_block (klog s)) = LOGSIZE \<and> length homes < LOGSIZE \<and>
     take (length homes) (lh_block (klog s)) = map int homes \<and>
     (\<forall>h \<in> set homes. h < disksize s \<and> \<not> in_log st h) \<and> st + LOGSIZE < disksize s"

lemma log_okD:
  assumes "log_ok st homes s"
  shows "lg_dev (klog s) = 1" "lg_start (klog s) = int st" "lh_n (klog s) = int (length homes)"
    "length (lh_block (klog s)) = LOGSIZE" "length homes < LOGSIZE"
    "\<And>i. i < length homes \<Longrightarrow> lh_block (klog s) ! i = int (homes ! i)"
    "\<And>i. i < length homes \<Longrightarrow> homes ! i < disksize s"
    "\<And>i. i < length homes \<Longrightarrow> \<not> in_log st (homes ! i)" "st + LOGSIZE < disksize s"
    "\<And>h. h \<in> set homes \<Longrightarrow> \<not> in_log st h"
proof -
  show "lh_block (klog s) ! i = int (homes ! i)" if "i < length homes" for i
    using assms that unfolding log_ok_def by (metis nth_map nth_take)
qed (use assms in \<open>auto simp: log_ok_def\<close>)

lemma log_ok_same: "log_ok st homes s \<Longrightarrow> bcache.wrote_all s ws t \<Longrightarrow> log_ok st homes t"
  by (simp add: log_ok_def bcache.wrote_all_def bframe_def)

text \<open>The rounds of \<^verbatim>\<open>write_log\<close> and of \<^verbatim>\<open>install_trans\<close>.\<close>

lemma u32_of_sum [simp]: "u32_of (int a + int b + 1) = of_nat (a + b + 1)" "u32_of 1 = 1"
  by (simp_all add: u32_of_def)

lemma log_area: "i < length homes \<Longrightarrow> log_ok st homes s \<Longrightarrow> st + i + 1 < disksize s \<and> in_log st (st + i + 1)"
  using log_okD(5,9) [of st homes s] by (auto simp: in_log_def)

lemma log_block_writes:
  assumes "log_ok st homes s" "cache_inv Map.empty s" "i < length homes"
  shows "\<exists>t. log_block i s = Done () t \<and> bcache.wrote_all s [(st + i + 1, bcontent s (homes ! i))] t"
proof -
  note L = log_okD [OF assms(1)] and A = log_area [OF assms(3,1)]
  have ne: "st + i + 1 \<noteq> homes ! i" using A L(8) [OF assms(3)] by auto
  obtain a t b u where r: "bread 1 (of_nat (st + i + 1)) s = Done a t" "bread 1 (of_nat (homes ! i)) t = Done b u"
    "a \<noteq> b" "cache_inv [a \<mapsto> st + i + 1, b \<mapsto> homes ! i] u" "bcontent u = bcontent s" "memdisk u = memdisk s"
    "dwrites u = dwrites s" "bframe u = bframe s" "disksize u = disksize s"
    using bcache.hold_two [OF assms(2) conjunct1 [OF A] L(7) [OF assms(3)] ne] by auto
  obtain v where v: "kbind (bdata b) (\<lambda>d. kseq (kseq (set_bdata a d) (bwrite a)) (kseq (brelse b) (brelse a))) u = Done () v"
    "bcache.wrote_block u (st + i + 1) (bcontent u (homes ! i)) v"
    using bcache.copy_held [OF r(4,3) ne, of b "homes ! i" a "st + i + 1"] A L(7) [OF assms(3)] r(9) by auto
  have "log_block i s = Done () v"
    using r(1,2) v(1) by (simp add: log_block_def kop_simps L assms(3) kseq_assoc)
  moreover have "bcache.wrote_all s [(st + i + 1, bcontent s (homes ! i))] v"
    using bcache.wrote_all_block [OF v(2)] r by (simp add: bcache.wrote_all_def)
  ultimately show ?thesis by blast
qed

lemma install_block_writes:
  assumes "log_ok st homes s" "cache_inv Map.empty s" "i < length homes"
  shows "\<exists>t. install_block i s = Done () t \<and> bcache.wrote_all s [(homes ! i, bcontent s (st + i + 1))] t"
proof -
  note L = log_okD [OF assms(1)] and A = log_area [OF assms(3,1)]
  have ne: "st + i + 1 \<noteq> homes ! i" using A L(8) [OF assms(3)] by auto
  obtain a t b u where r: "bread 1 (of_nat (st + i + 1)) s = Done a t" "bread 1 (of_nat (homes ! i)) t = Done b u"
    "a \<noteq> b" "cache_inv [a \<mapsto> st + i + 1, b \<mapsto> homes ! i] u" "bcontent u = bcontent s" "memdisk u = memdisk s"
    "dwrites u = dwrites s" "bframe u = bframe s" "disksize u = disksize s"
    using bcache.hold_two [OF assms(2) conjunct1 [OF A] L(7) [OF assms(3)] ne] by auto
  obtain v where v: "kbind (bdata a) (\<lambda>d. kseq (kseq (set_bdata b d) (bwrite b)) (kseq (brelse a) (brelse b))) u = Done () v"
    "bcache.wrote_block u (homes ! i) (bcontent u (st + i + 1)) v"
    using bcache.copy_held [OF r(4,3) ne, of a "st + i + 1" b "homes ! i"] A L(7) [OF assms(3)] r(9) by auto
  have "install_block i s = Done () v"
    using r(1,2) v(1) by (simp add: install_block_def kop_simps L assms(3) kseq_assoc)
  moreover have "bcache.wrote_all s [(homes ! i, bcontent s (st + i + 1))] v"
    using bcache.wrote_all_block [OF v(2)] r by (simp add: bcache.wrote_all_def)
  ultimately show ?thesis by blast
qed

lemma write_head_writes:
  assumes "cache_inv Map.empty s" "lg_dev (klog s) = 1" "lg_start (klog s) = int st" "st < disksize s"
    and "lh_n (klog s) = int n" "n \<le> LOGSIZE" "length (lh_block (klog s)) = LOGSIZE"
  shows "\<exists>t. write_head s = Done () t \<and> bcache.wrote_all s [(st, encode_head (klog s) (bcontent s st))] t"
proof -
  have "length (bcontent s st) = 512" by (rule bcontent_len [OF assms(1,4)])
  then have "length (encode_head (klog s) (bcontent s st)) = 512"
    by (rule encode_head_facts(1) [OF assms(5-7)])
  with bcache.rewrite [OF assms(1,4), of "encode_head (klog s)"] obtain t where
    t: "kbind (bread 1 (of_nat st)) (\<lambda>b. kbind (bdata b) (\<lambda>d. kseq (kseq (set_bdata b (encode_head (klog s) d)) (bwrite b)) (brelse b))) s = Done () t"
    "bcache.wrote_block s st (encode_head (klog s) (bcontent s st)) t" by blast
  have "write_head s = Done () t"
    using t(1) assms(2,3) by (simp add: write_head_def kop_simps kseq_assoc)
  with bcache.wrote_all_block [OF t(2)] show ?thesis by blast
qed

lemma write_log_writes:
  assumes "log_ok st homes s" "cache_inv Map.empty s"
  shows "\<exists>t. write_log s = Done () t \<and>
    bcache.wrote_all s (map (\<lambda>i. (st + 1 + i, bcontent s (homes ! i))) [0..<length homes]) t"
proof -
  note L = log_okD [OF assms(1)]
  let ?w = "\<lambda>i. (st + 1 + i, bcontent s (homes ! i))"
  have "\<exists>t. kfor [0..<length homes] log_block s = Done () t \<and> bcache.wrote_all s (map ?w [0..<length homes]) t"
  proof (rule bcache.loop_writes [OF assms(2)])
    fix i u assume i: "i < length homes" and u: "bcache.wrote_all s (map ?w [0..<i]) u"
    have "bcontent u (homes ! i) = bcontent s (homes ! i)"
    proof -
      have "homes ! i \<notin> fst ` set (map ?w [0..<i])"
        using L(5) L(8) [OF i] i by (auto simp: in_log_def)
      with u show ?thesis by (simp add: bcache.wrote_all_def apply_writes_other)
    qed
    with log_block_writes [OF log_ok_same [OF assms(1) u] _ i] u
    show "\<exists>v. log_block i u = Done () v \<and> bcache.wrote_all u [?w i] v"
      by (auto simp: bcache.wrote_all_def ac_simps)
  qed
  then show ?thesis by (simp add: write_log_def kop_simps L)
qed

lemma install_trans_writes:
  assumes "log_ok st homes s" "cache_inv Map.empty s"
  shows "\<exists>t. install_trans s = Done () t \<and>
    bcache.wrote_all s (map (\<lambda>i. (homes ! i, bcontent s (st + 1 + i))) [0..<length homes]) t"
proof -
  note L = log_okD [OF assms(1)]
  let ?w = "\<lambda>i. (homes ! i, bcontent s (st + 1 + i))"
  have "\<exists>t. kfor [0..<length homes] install_block s = Done () t \<and> bcache.wrote_all s (map ?w [0..<length homes]) t"
  proof (rule bcache.loop_writes [OF assms(2)])
    fix i u assume i: "i < length homes" and u: "bcache.wrote_all s (map ?w [0..<i]) u"
    have "bcontent u (st + i + 1) = bcontent s (st + 1 + i)"
    proof -
      have "homes ! j \<noteq> st + i + 1" if "j < i" for j
        using log_area [OF i assms(1)] L(8) [of j] i that by auto
      then have "st + i + 1 \<notin> fst ` set (map ?w [0..<i])" by fastforce
      with u show ?thesis by (simp add: bcache.wrote_all_def apply_writes_other)
    qed
    with install_block_writes [OF log_ok_same [OF assms(1) u] _ i] u
    show "\<exists>v. install_block i u = Done () v \<and> bcache.wrote_all u [?w i] v"
      by (auto simp: bcache.wrote_all_def)
  qed
  then show ?thesis by (simp add: install_trans_def kop_simps L)
qed

lemma cache_inv_klog [simp]: "cache_inv H (s\<lparr>klog := x\<rparr>) = cache_inv H s"
  by (simp add: cache_inv_def no_sleeper_def)

lemma bcontent_klog [simp]: "bcontent (s\<lparr>klog := x\<rparr>) = bcontent s"
  by (simp add: bcontent_def fun_eq_iff split: option.split)

text \<open>
  A commit of a well-formed log returns and makes exactly these disk writes; its blocks then
  have their new contents on the disk and the log is empty.
\<close>

lemma commit_run:
  assumes "log_ok st homes s" "cache_inv Map.empty s" "homes \<noteq> []"
  shows "\<exists>t h1 h0. commit s = Done () t \<and> cache_inv Map.empty t \<and> lh_n (klog t) = 0 \<and>
    ptable t = ptable s \<and> klog t = (klog s)\<lparr>lh_n := 0\<rparr> \<and>
    dwrites t = dwrites s @ commit_writes st homes (bcontent s) h1 h0 \<and>
    memdisk t = apply_writes (commit_writes st homes (bcontent s) h1 h0) (memdisk s) \<and>
    bcontent t = apply_writes (commit_writes st homes (bcontent s) h1 h0) (bcontent s) \<and>
    get32 h1 0 = of_nat (length homes) \<and> (\<forall>i < length homes. head_home h1 i = homes ! i) \<and> get32 h0 0 = 0"
proof -
  note L = log_okD [OF assms(1)]
  let ?n = "length homes" and ?c = "bcontent s"
  let ?W1 = "map (\<lambda>i. (st + 1 + i, ?c (homes ! i))) [0..<?n]"
  let ?W3 = "map (\<lambda>i. (homes ! i, ?c (homes ! i))) [0..<?n]"
  have st: "st < disksize s" using L(9) by simp
  obtain t1 where t1: "write_log s = Done () t1" "bcache.wrote_all s ?W1 t1"
    using write_log_writes [OF assms(1,2)] by blast
  have l1: "log_ok st homes t1" by (rule log_ok_same [OF assms(1) t1(2)])
  have k1: "klog t1 = klog s" "cache_inv Map.empty t1" "disksize t1 = disksize s"
    using t1(2) by (auto simp: bcache.wrote_all_def bframe_def)
  define h1 where "h1 = encode_head (klog s) (bcontent t1 st)"
  have len1: "length (bcontent t1 st) = 512" using bcontent_len [OF k1(2)] st k1(3) by simp
  obtain t2 where t2: "write_head t1 = Done () t2" "bcache.wrote_all t1 [(st, h1)] t2"
    using write_head_writes [of t1 st ?n] k1 L st by (auto simp: h1_def)
  have w2: "bcache.wrote_all s (?W1 @ [(st, h1)]) t2" by (rule bcache.wrote_all_trans [OF t1(2) t2(2)])
  have l2: "log_ok st homes t2" by (rule log_ok_same [OF assms(1) w2])
  have "bcontent t2 (st + 1 + i) = ?c (homes ! i)" if "i < ?n" for i
    using w2 apply_log_writes [OF that, of st "\<lambda>i. ?c (homes ! i)" ?c] by (simp add: bcache.wrote_all_def)
  then have W3: "map (\<lambda>i. (homes ! i, bcontent t2 (st + 1 + i))) [0..<?n] = ?W3" by simp
  obtain t3 where t3: "install_trans t2 = Done () t3" "bcache.wrote_all t2 ?W3 t3"
    using install_trans_writes [OF l2] w2 unfolding W3 by (auto simp: bcache.wrote_all_def)
  have w3: "bcache.wrote_all s ((?W1 @ [(st, h1)]) @ ?W3) t3" by (rule bcache.wrote_all_trans [OF w2 t3(2)])
  let ?lg0 = "(klog s)\<lparr>lh_n := 0\<rparr>" and ?u = "t3\<lparr>klog := (klog t3)\<lparr>lh_n := 0\<rparr>\<rparr>"
  have k3: "klog t3 = klog s" "cache_inv Map.empty t3" "disksize t3 = disksize s"
    using w3 by (auto simp: bcache.wrote_all_def bframe_def)
  define h0 where "h0 = encode_head ?lg0 (bcontent t3 st)"
  have len3: "length (bcontent t3 st) = 512" using bcontent_len [OF k3(2)] st k3(3) by simp
  have "\<exists>t. write_head ?u = Done () t \<and> bcache.wrote_all ?u [(st, encode_head (klog ?u) (bcontent ?u st))] t"
    by (rule write_head_writes [where n = 0]) (use k3 L st in simp_all)
  then obtain t where t: "write_head ?u = Done () t" "bcache.wrote_all ?u [(st, h0)] t"
    using k3(1) by (auto simp: h0_def)
  have hc1: "get32 h1 0 = of_nat ?n" "\<forall>i < ?n. head_home h1 i = homes ! i"
  proof -
    note F = encode_head_facts [OF L(3) less_imp_le [OF L(5)] L(4) len1, folded h1_def]
    show "get32 h1 0 = of_nat ?n" by (rule F(2))
    show "\<forall>i < ?n. head_home h1 i = homes ! i"
    proof clarify
      fix i assume i: "i < ?n"
      have "homes ! i < 2 ^ 32" using L(7) [OF i] cache_invD(9) [OF assms(2)] by simp
      then show "head_home h1 i = homes ! i"
        using F(3) [OF i] L(6) [OF i] by (simp add: head_home_def unat_of_nat)
    qed
  qed
  have hc0: "get32 h0 0 = 0"
    using encode_head_facts(2) [of ?lg0 0 "bcontent t3 st"] L(4) len3 by (simp add: h0_def)
  have "commit s = Done () t"
    using t1(1) t2(1) t3(1) t(1) assms(3) L(3) by (simp add: commit_def kop_simps)
  then show ?thesis
    using t(2) w3 hc1 hc0 k3
    by (intro exI [of _ t] exI [of _ h1] exI [of _ h0])
      (simp add: bcache.wrote_all_def bframe_def commit_writes_def)
qed

section \<open>What \<^verbatim>\<open>recover_from_log\<close> does\<close>

text \<open>A machine that boots on the disk \<open>d\<close> with the log at block \<open>st\<close>: nothing cached differs from the disk.\<close>

definition boot_state :: "nat \<Rightarrow> (nat \<Rightarrow> byte list) \<Rightarrow> 'a fs_state_scheme \<Rightarrow> bool" where
  "boot_state st d s \<longleftrightarrow> cache_inv Map.empty s \<and> memdisk s = d \<and> bcontent s = d \<and> lg_dev (klog s) = 1 \<and>
     lg_start (klog s) = int st \<and> length (lh_block (klog s)) = LOGSIZE \<and> st + LOGSIZE < disksize s"

text \<open>A header the log code can have left: a small count, and homes outside the log.\<close>

definition head_ok :: "nat \<Rightarrow> nat \<Rightarrow> byte list \<Rightarrow> bool" where
  "head_ok st n h \<longleftrightarrow> 0 \<le> sint (get32 h 0) \<and> sint (get32 h 0) < int LOGSIZE \<and>
     (\<forall>i < head_count h. head_home h i < n \<and> \<not> in_log st (head_home h i))"

lemma sint_unat_small: "unat (w :: u32) < 2 ^ 31 \<Longrightarrow> sint w = int (unat w)"
  using sint_of_nat_small [of "unat w"] by simp

lemma read_head_run:
  assumes b: "boot_state st d s" and h: "head_ok st (disksize s) (d st)"
  shows "\<exists>t. read_head s = Done () t \<and> boot_state st d t \<and> disksize t = disksize s \<and>
    log_ok st (map (head_home (d st)) [0..<head_count (d st)]) t"
proof -
  let ?h = "d st" and ?n = "head_count (d st)"
  let ?lg = "(klog s)\<lparr>lh_n := sint (get32 ?h 0), lh_block := map (\<lambda>i. if i < ?n then sint (get32 ?h (4 + 4 * i))
    else lh_block (klog s) ! i) [0..<LOGSIZE]\<rparr>"
  have B: "cache_inv Map.empty s" "st < disksize s" "bcontent s = d" "memdisk s = d"
    using b by (auto simp: boot_state_def)
  obtain x t where t: "bread 1 (of_nat st) s = Done x t" "cache_inv [x \<mapsto> st] t" "bcontent t = d" "memdisk t = d"
    "bframe t = bframe s" "disksize t = disksize s"
    using bcache.rd [OF B(1,2)] B(3,4) by auto
  have dt: "bdata x t = Done ?h t" using bcache.dat [OF t(2), of x st] t(3) by simp
  have inv': "cache_inv [x \<mapsto> st] (t\<lparr>klog := ?lg\<rparr>)" using t(2) by simp
  from bcache.rl [OF inv', of x st] obtain u where u: "brelse x (t\<lparr>klog := ?lg\<rparr>) = Done () u"
    "cache_inv Map.empty u" "bcontent u = d" "memdisk u = d" "klog u = ?lg" "disksize u = disksize s"
    using t by (auto simp: bframe_def)
  have kt: "klog t = klog s" using t(5) by (simp add: bframe_def)
  have "read_head s = Done () u"
    using t(1) dt u(1) b h unfolding kt [symmetric]
    by (simp add: read_head_def kop_simps boot_state_def head_ok_def head_count_def Let_def kt)
  moreover have "boot_state st d u" using u b by (simp add: boot_state_def)
  moreover have "log_ok st (map (head_home ?h) [0..<?n]) u"
  proof -
    have n: "?n < LOGSIZE" "int ?n = sint (get32 ?h 0)" using h by (auto simp: head_ok_def head_count_def)
    have "sint (get32 ?h (4 + 4 * i)) = int (head_home ?h i)" if "i < ?n" for i
      unfolding head_home_def
      by (rule sint_unat_small) (use h that cache_invD(9) [OF B(1)] in \<open>fastforce simp: head_ok_def head_home_def\<close>)
    then have "take ?n (lh_block ?lg) = map int (map (head_home ?h) [0..<?n])"
      using n(1) by (intro nth_equalityI) (simp_all add: take_map)
    then show ?thesis using h b n u by (auto simp: log_ok_def boot_state_def head_ok_def)
  qed
  ultimately show ?thesis using u(6) by blast
qed

lemma recover_run:
  assumes b: "boot_state st d s" and h: "head_ok st (disksize s) (d st)"
  shows "\<exists>t. recover_from_log s = Done () t \<and> cache_inv Map.empty t \<and>
    (\<forall>k. \<not> in_log st k \<longrightarrow> memdisk t k = recovered st d k) \<and> get32 (memdisk t st) 0 = 0 \<and> lh_n (klog t) = 0"
proof -
  let ?homes = "map (head_home (d st)) [0..<head_count (d st)]"
  obtain s1 where s1: "read_head s = Done () s1" "boot_state st d s1" "disksize s1 = disksize s"
    "log_ok st ?homes s1" using read_head_run [OF b h] by blast
  have B1: "cache_inv Map.empty s1" "bcontent s1 = d" "memdisk s1 = d" using s1(2) by (auto simp: boot_state_def)
  have rep: "map (\<lambda>i. (?homes ! i, bcontent s1 (st + 1 + i))) [0..<length ?homes] = replay st d"
    by (simp add: replay_def B1)
  obtain s2 where s2: "install_trans s1 = Done () s2" "bcache.wrote_all s1 (replay st d) s2"
    using install_trans_writes [OF s1(4) B1(1)] unfolding rep by blast
  let ?u = "s2\<lparr>klog := (klog s2)\<lparr>lh_n := 0\<rparr>\<rparr>"
  have k2: "klog s2 = klog s1" "cache_inv Map.empty s2" "disksize s2 = disksize s" "memdisk s2 = recovered st d"
    using s2(2) s1(3) B1 by (auto simp: bcache.wrote_all_def bframe_def recovered_def)
  note L = log_okD [OF s1(4)]
  let ?h0 = "encode_head (klog ?u) (bcontent ?u st)"
  have st: "st < disksize s" using b by (simp add: boot_state_def)
  have "\<exists>t. write_head ?u = Done () t \<and> bcache.wrote_all ?u [(st, ?h0)] t"
    by (rule write_head_writes [where n = 0]) (use k2 L st in simp_all)
  then obtain t where t: "write_head ?u = Done () t" "bcache.wrote_all ?u [(st, ?h0)] t" by blast
  have "length (bcontent s2 st) = 512" using bcontent_len [OF k2(2)] st k2(3) by simp
  then have z: "get32 ?h0 0 = 0"
    using encode_head_facts(2) [of "klog ?u" 0 "bcontent ?u st"] L(4) k2(1) by simp
  have "recover_from_log s = Done () t" using s1(1) s2(1) t(1) by (simp add: recover_from_log_def kop_simps)
  moreover have "memdisk t k = recovered st d k" if "\<not> in_log st k" for k
    using t(2) k2(4) that by (auto simp: bcache.wrote_all_def in_log_def)
  moreover have "lh_n (klog t) = 0" using t(2) by (simp add: bcache.wrote_all_def bframe_def)
  ultimately show ?thesis using t(2) z by (auto simp: bcache.wrote_all_def)
qed

text \<open>The header of a disk that a crash leaves behind.\<close>

lemma apply_writes_cases: "apply_writes ws d k = d k \<or> (k, apply_writes ws d k) \<in> set ws"
proof (induction ws arbitrary: d)
  case (Cons w ws)
  then show ?case by (cases w) (metis apply_writes_simps(2) fun_upd_apply list.set_intros(1,2))
qed simp

lemma crash_header:
  assumes "\<And>h. h \<in> set homes \<Longrightarrow> \<not> in_log st h"
  shows "apply_writes (take m (commit_writes st homes c h1 h0)) d st \<in> {d st, h1, h0}"
proof -
  have "x \<in> {h1, h0}" if "(st, x) \<in> set (commit_writes st homes c h1 h0)" for x
  proof -
    have "st \<notin> set homes" using assms [of st] by (auto simp: in_log_def)
    then show ?thesis using that by (auto simp: commit_writes_def)
  qed
  then show ?thesis
    using apply_writes_cases [of "take m (commit_writes st homes c h1 h0)" d st] by (auto dest: in_set_takeD)
qed

lemma crash_head_ok:
  assumes "log_ok st homes s" "get32 (d st) 0 = 0" "get32 h1 0 = of_nat (length homes)"
    "\<forall>i < length homes. head_home h1 i = homes ! i" "get32 h0 0 = 0"
  shows "head_ok st (disksize s) (apply_writes (take m (commit_writes st homes c h1 h0)) d st)"
proof -
  note L = log_okD [OF assms(1)]
  have "length homes < 2 ^ 31" using L(5) by (simp add: LOGSIZE_def)
  then have "sint (of_nat (length homes) :: u32) = int (length homes)" by (rule sint_of_nat_small)
  then have "head_ok st (disksize s) x" if "x \<in> {d st, h1, h0}" for x
    using that assms L(5,7,8) by (auto simp: head_ok_def head_count_def)
  with crash_header [OF L(10)] show ?thesis by blast
qed

text \<open>A commit, together with what recovery makes of the disk after every prefix of its writes.\<close>

lemma commit_atomic:
  assumes "log_ok st homes s" "cache_inv Map.empty s" "homes \<noteq> []" "distinct homes"
    and "get32 (memdisk s st) 0 = 0"
  shows "\<exists>t ws. commit s = Done () t \<and> dwrites t = dwrites s @ ws \<and>
    ptable t = ptable s \<and> klog t = (klog s)\<lparr>lh_n := 0\<rparr> \<and>
    (\<forall>k. \<not> in_log st k \<longrightarrow> memdisk t k = updated homes (bcontent s) (memdisk s) k) \<and>
    (\<forall>m s'. boot_state st (apply_writes (take m ws) (memdisk s)) s' \<and> disksize s' = disksize s \<longrightarrow>
       (\<exists>t'. recover_from_log s' = Done () t' \<and>
          ((\<forall>k. \<not> in_log st k \<longrightarrow> memdisk t' k = memdisk s k) \<or>
           (\<forall>k. \<not> in_log st k \<longrightarrow> memdisk t' k = updated homes (bcontent s) (memdisk s) k))))"
proof -
  obtain t h1 h0 where t: "commit s = Done () t" "dwrites t = dwrites s @ commit_writes st homes (bcontent s) h1 h0"
    and m: "ptable t = ptable s" "klog t = (klog s)\<lparr>lh_n := 0\<rparr>"
    "memdisk t = apply_writes (commit_writes st homes (bcontent s) h1 h0) (memdisk s)"
    and h: "get32 h1 0 = of_nat (length homes)" "\<forall>i < length homes. head_home h1 i = homes ! i" "get32 h0 0 = 0"
    using commit_run [OF assms(1-3)] by blast
  note L = log_okD [OF assms(1)]
  let ?ws = "commit_writes st homes (bcontent s) h1 h0"
  have final: "memdisk t k = updated homes (bcontent s) (memdisk s) k" if k: "\<not> in_log st k" for k
    unfolding m(3) by (rule commit_writes_effect [OF assms(4) L(10,5) k])
  have "length homes < 2 ^ 31" using L(5) by (simp add: LOGSIZE_def)
  then have hc: "head_count h1 = length homes" "head_count h0 = 0" "head_count (memdisk s st) = 0"
    using h assms(5) sint_of_nat_small [of "length homes"] by (simp_all add: head_count_def)
  have "\<exists>t'. recover_from_log s' = Done () t' \<and>
          ((\<forall>k. \<not> in_log st k \<longrightarrow> memdisk t' k = memdisk s k) \<or>
           (\<forall>k. \<not> in_log st k \<longrightarrow> memdisk t' k = updated homes (bcontent s) (memdisk s) k))"
    if s': "boot_state st (apply_writes (take m ?ws) (memdisk s)) s'" "disksize s' = disksize s" for m s'
  proof -
    let ?d = "apply_writes (take m ?ws) (memdisk s)"
    have "head_ok st (disksize s') (?d st)" using crash_head_ok [OF assms(1), where d = "memdisk s", OF assms(5) h] s'(2) by simp
    from recover_run [OF s'(1) this] obtain t' where t': "recover_from_log s' = Done () t'"
      "\<forall>k. \<not> in_log st k \<longrightarrow> memdisk t' k = recovered st ?d k" by blast
    have "(\<forall>k. \<not> in_log st k \<longrightarrow> recovered st ?d k = memdisk s k) \<or>
        (\<forall>k. \<not> in_log st k \<longrightarrow> recovered st ?d k = updated homes (bcontent s) (memdisk s) k)"
      by (rule crash_prefix [OF assms(4) L(10,5), where ?d0.0 = "memdisk s"]) (use hc h(2) in auto)
    with t' show ?thesis by auto
  qed
  with t m final show ?thesis by blast
qed

section \<open>Properties\<close>

text \<open>
  C1 (log). Crash atomicity. From a consistent cache and a log whose on-disk header is empty, \<^verbatim>\<open>commit\<close>
  returns; and if the machine stops after any number \<open>m\<close> of the disk writes it makes and boots again,
  \<^verbatim>\<open>recover_from_log\<close> returns and every block outside the log has its old contents, or every block of
  the transaction has its new contents and all others their old ones.
\<close>

theorem commit_crash_atomic:
  assumes "log_ok st homes s" "cache_inv Map.empty s" "homes \<noteq> []" "distinct homes"
    and "get32 (memdisk s st) 0 = 0"
  shows "\<exists>t ws. commit s = Done () t \<and> dwrites t = dwrites s @ ws \<and>
    (\<forall>m s'. boot_state st (apply_writes (take m ws) (memdisk s)) s' \<and> disksize s' = disksize s \<longrightarrow>
       (\<exists>t'. recover_from_log s' = Done () t' \<and>
          ((\<forall>k. \<not> in_log st k \<longrightarrow> memdisk t' k = memdisk s k) \<or>
           (\<forall>k. \<not> in_log st k \<longrightarrow> memdisk t' k = updated homes (bcontent s) (memdisk s) k))))"
  using commit_atomic [OF assms] by blast

text \<open>The concrete machine with block 100 in the log: its cached copy is not on the disk yet.\<close>

definition demo_dirty :: buf where
  "demo_dirty = \<lparr>b_flags = 6, b_dev = 1, b_blockno = 100, b_lock = demo_lock, b_refcnt = 0,
     b_data = replicate 512 7\<rparr>"

definition demo_commit :: fs_state where
  "demo_commit = demo_state\<lparr>bufs := (bufs demo_state)[0 := demo_dirty],
     klog := (klog demo_state)\<lparr>lh_n := 1, lh_block := 100 # replicate 29 0\<rparr>\<rparr>"

lemma demo_bufs: "b < NBUF \<Longrightarrow> bufs demo_state ! b =
    \<lparr>b_flags = 0, b_dev = -1, b_blockno = 0, b_lock = demo_lock, b_refcnt = 0, b_data = replicate 512 0\<rparr>"
  "length (bufs demo_state) = NBUF" "bhead demo_state = rev [0..<30]" "memdisk demo_state = (\<lambda>_. replicate 512 0)"
  "disksize demo_state = 1000"
  by (simp_all add: demo_state_def NBUF_def)

lemma demo_cache_inv: "cache_inv Map.empty demo_state"
proof -
  have e: "{b. b < NBUF \<and> b_flags (bufs demo_state ! b) = 6} = {}" by (auto simp: demo_bufs)
  show ?thesis
    unfolding cache_inv_def e
    by (auto simp: demo_bufs buf_ok_def holds_block_def demo_lock_def demo_quiet) (auto simp: NBUF_def)
qed

lemma demo_commit_ok: "cache_inv Map.empty demo_commit" "log_ok 2 [100] demo_commit"
proof -
  have b: "bufs demo_commit ! b = (if b = 0 then demo_dirty else bufs demo_state ! b)" if "b < NBUF" for b
    using that demo_bufs(2) by (simp add: demo_commit_def)
  have "{b. b < NBUF \<and> b_flags (bufs demo_commit ! b) = 6} = {0}"
    using demo_bufs(1) by (auto simp: b demo_dirty_def NBUF_def split: if_splits)
  then have c: "card {b. b < NBUF \<and> b_flags (bufs demo_commit ! b) = 6} = 1" by simp
  have f: "length (bufs demo_commit) = NBUF" "bhead demo_commit = rev [0..<30]" "disksize demo_commit = 1000"
    "memdisk demo_commit = (\<lambda>_. replicate 512 0)" "cur demo_commit = Some 0" "ptable demo_commit = ptable demo_state"
    by (simp_all add: demo_commit_def demo_bufs)
  have ok: "buf_ok (memdisk demo_commit) (disksize demo_commit) None (bufs demo_commit ! b)" if "b < NBUF" for b
    using that by (simp add: b f demo_bufs(1) buf_ok_def demo_dirty_def demo_lock_def)
  show "cache_inv Map.empty demo_commit"
    unfolding cache_inv_def using c ok
    by (auto simp: b f demo_bufs(1) holds_block_def demo_dirty_def demo_quiet NBUF_def split: if_splits)
  show "log_ok 2 [100] demo_commit"
    by (simp add: log_ok_def demo_commit_def demo_state_def LOGSIZE_def in_log_def)
qed

lemma demo_boot: "boot_state 2 (memdisk demo_state) demo_state"
proof -
  have "bcontent demo_state k = memdisk demo_state k" for k
    by (rule bcontent_disk [OF demo_cache_inv]) (simp add: demo_bufs holds_block_def)
  then show ?thesis
    using demo_cache_inv by (auto simp: boot_state_def fun_eq_iff) (simp_all add: demo_state_def LOGSIZE_def)
qed

theorem commit_crash_atomic_witness:
  "\<exists>t t'. commit demo_commit = Done () t \<and> recover_from_log demo_state = Done () t' \<and>
     ((\<forall>k. \<not> in_log 2 k \<longrightarrow> memdisk t' k = memdisk demo_commit k) \<or>
      (\<forall>k. \<not> in_log 2 k \<longrightarrow> memdisk t' k = updated [100] (bcontent demo_commit) (memdisk demo_commit) k))"
proof -
  have d: "memdisk demo_commit = memdisk demo_state" "disksize demo_state = disksize demo_commit"
    by (simp_all add: demo_commit_def)
  have z: "get32 (memdisk demo_commit 2) 0 = 0"
    by (simp add: d demo_bufs get32_def slice_def word32_of_def word_of_bytes_def numeral_nat)
  obtain t ws where t: "commit demo_commit = Done () t" and
    all: "\<forall>m s'. boot_state 2 (apply_writes (take m ws) (memdisk demo_commit)) (s' :: fs_state) \<and>
        disksize s' = disksize demo_commit \<longrightarrow>
       (\<exists>t'. recover_from_log s' = Done () t' \<and>
          ((\<forall>k. \<not> in_log 2 k \<longrightarrow> memdisk t' k = memdisk demo_commit k) \<or>
           (\<forall>k. \<not> in_log 2 k \<longrightarrow> memdisk t' k = updated [100] (bcontent demo_commit) (memdisk demo_commit) k)))"
    using commit_crash_atomic [OF demo_commit_ok(2,1) _ _ z] by auto
  from all [rule_format, of 0 demo_state] demo_boot d t show ?thesis by auto
qed

text \<open>
  C2 (log). Durability. When \<^verbatim>\<open>commit\<close> returns, every block of the transaction is on the disk with its
  cached contents, every other block outside the log is as it was, and the log is empty, in memory and on the disk.
\<close>

theorem commit_durable:
  assumes "log_ok st homes s" "cache_inv Map.empty s" "homes \<noteq> []" "distinct homes"
  shows "\<exists>t. commit s = Done () t \<and> cache_inv Map.empty t \<and> lh_n (klog t) = 0 \<and> get32 (memdisk t st) 0 = 0 \<and>
    (\<forall>k. \<not> in_log st k \<longrightarrow> memdisk t k = updated homes (bcontent s) (memdisk s) k)"
proof -
  obtain t h1 h0 where t: "commit s = Done () t" "cache_inv Map.empty t" "lh_n (klog t) = 0"
    "memdisk t = apply_writes (commit_writes st homes (bcontent s) h1 h0) (memdisk s)" "get32 h0 0 = 0"
    using commit_run [OF assms(1-3)] by blast
  note L = log_okD [OF assms(1)]
  have "memdisk t st = h0" unfolding t(4) by (simp add: commit_writes_def)
  with t(5) have "get32 (memdisk t st) 0 = 0" by simp
  moreover have "memdisk t k = updated homes (bcontent s) (memdisk s) k" if k: "\<not> in_log st k" for k
    unfolding t(4) by (rule commit_writes_effect [OF assms(4) L(10,5) k])
  ultimately show ?thesis using t(1-3) by blast
qed

theorem commit_durable_witness:
  "\<exists>t. commit demo_commit = Done () t \<and> memdisk t 100 = replicate 512 7"
proof -
  obtain t where t: "commit demo_commit = Done () t" and
    all: "\<forall>k. \<not> in_log 2 k \<longrightarrow> memdisk t k = updated [100] (bcontent demo_commit) (memdisk demo_commit) k"
    using commit_durable [OF demo_commit_ok(2,1)] by auto
  have "holds_block 100 (bufs demo_commit ! 0)" "b_data (bufs demo_commit ! 0) = replicate 512 7"
    using demo_bufs(2) by (simp_all add: demo_commit_def demo_dirty_def holds_block_def NBUF_def)
  with bcontent_buf [OF demo_commit_ok(1), of 0 100] have "bcontent demo_commit 100 = replicate 512 7"
    by (simp add: NBUF_def)
  with all t show ?thesis by (simp add: in_log_def LOGSIZE_def updated_def)
qed

text \<open>
  C3 (log). Recovery. On a freshly booted machine whose log header is well formed, \<^verbatim>\<open>recover_from_log\<close>
  returns; the disk outside the log is the disk with the logged blocks installed, and the header
  is cleared on the disk and in memory, so that a second recovery changes nothing.
\<close>

theorem recover_from_log_correct:
  assumes "boot_state st d s" "head_ok st (disksize s) (d st)"
  shows "\<exists>t. recover_from_log s = Done () t \<and> cache_inv Map.empty t \<and>
    (\<forall>k. \<not> in_log st k \<longrightarrow> memdisk t k = recovered st d k) \<and>
    get32 (memdisk t st) 0 = 0 \<and> lh_n (klog t) = 0 \<and> recovered st (memdisk t) = memdisk t"
proof -
  obtain t where t: "recover_from_log s = Done () t" "cache_inv Map.empty t"
    "\<forall>k. \<not> in_log st k \<longrightarrow> memdisk t k = recovered st d k" "get32 (memdisk t st) 0 = 0" "lh_n (klog t) = 0"
    using recover_run [OF assms] by blast
  moreover have "recovered st (memdisk t) = memdisk t"
    using t(4) by (intro recovered_empty) (simp add: head_count_def)
  ultimately show ?thesis by blast
qed

text \<open>A disk after a crash: the log holds one block, for block 100, which is not installed yet.\<close>

definition demo_logged_disk :: "nat \<Rightarrow> byte list" where
  "demo_logged_disk = (\<lambda>_. replicate 512 0)(2 := put32 (put32 (replicate 512 0) 0 1) 4 100, 3 := replicate 512 7)"

definition demo_logged :: fs_state where
  "demo_logged = demo_state\<lparr>memdisk := demo_logged_disk\<rparr>"

lemma demo_logged_head:
  "length (demo_logged_disk k) = 512" "head_count (demo_logged_disk 2) = 1" "head_home (demo_logged_disk 2) 0 = 100"
  by (simp_all add: demo_logged_disk_def head_count_def head_home_def get32_put32_other)

lemma demo_logged_boot: "boot_state 2 demo_logged_disk demo_logged"
proof -
  have f: "bufs demo_logged = bufs demo_state" "memdisk demo_logged = demo_logged_disk" "cur demo_logged = cur demo_state"
    "ptable demo_logged = ptable demo_state" "bhead demo_logged = bhead demo_state" "disksize demo_logged = disksize demo_state"
    by (simp_all add: demo_logged_def)
  have e: "{b. b < NBUF \<and> b_flags (bufs demo_state ! b) = 6} = {}" by (auto simp: demo_bufs)
  have q: "no_sleeper x demo_logged = no_sleeper x demo_state" for x by (simp add: no_sleeper_def f)
  have c: "cache_inv Map.empty demo_logged"
    unfolding cache_inv_def f e
    by (auto simp: demo_bufs buf_ok_def holds_block_def demo_lock_def q demo_quiet demo_logged_head) (auto simp: NBUF_def)
  have "bcontent demo_logged k = memdisk demo_logged k" for k
    by (rule bcontent_disk [OF c]) (simp add: f demo_bufs holds_block_def)
  then show ?thesis
    using c by (auto simp: boot_state_def fun_eq_iff f) (simp_all add: demo_logged_def demo_state_def LOGSIZE_def)
qed

theorem recover_from_log_correct_witness:
  "\<exists>t. recover_from_log demo_logged = Done () t \<and> memdisk t 100 = replicate 512 7 \<and> get32 (memdisk t 2) 0 = 0"
proof -
  have "get32 (demo_logged_disk 2) 0 = 1" by (simp add: demo_logged_disk_def get32_put32_other)
  then have "head_ok 2 (disksize demo_logged) (demo_logged_disk 2)"
    by (simp add: head_ok_def demo_logged_head in_log_def LOGSIZE_def) (simp add: demo_logged_def demo_state_def)
  from recover_from_log_correct [OF demo_logged_boot this]
  obtain t where t: "recover_from_log demo_logged = Done () t" "memdisk t 100 = recovered 2 demo_logged_disk 100" "get32 (memdisk t 2) 0 = 0"
    by (auto simp: in_log_def LOGSIZE_def)
  have "recovered 2 demo_logged_disk 100 = demo_logged_disk 3"
    by (simp add: recovered_def replay_def demo_logged_head)
  then have "memdisk t 100 = replicate 512 7" using t(2) by (simp add: demo_logged_disk_def)
  then show ?thesis using t by blast
qed

end
