(* ===== verification/Transaction.thy ===== *)
theory Transaction
  imports Log_Recovery Fs
begin

unbundle bit_operations_syntax

text \<open>
  Open transactions: between \<^verbatim>\<open>begin_op\<close> and \<^verbatim>\<open>end_op\<close> the file system changes blocks in the cache
  and records them with \<^verbatim>\<open>log_write\<close>; nothing of it reaches the disk. The locale \<open>logged_store\<close>
  is the contract the file system routines are proved against; the cache with the log provides
  it. A whole transaction is proved to be atomic with respect to crashes.
\<close>

section \<open>The contract\<close>

text \<open>Recording a block in the log: a block that is there already is absorbed.\<close>

definition log_add :: "nat \<Rightarrow> nat list \<Rightarrow> nat list" where
  "log_add k hs = (if k \<in> set hs then hs else hs @ [k])"

lemma set_log_add [simp]: "set (log_add k hs) = insert k (set hs)"
  by (auto simp: log_add_def)

lemma length_log_add: "length (log_add k hs) \<le> Suc (length hs)" "length hs \<le> length (log_add k hs)"
  by (simp_all add: log_add_def)

lemma distinct_log_add: "distinct hs \<Longrightarrow> distinct (log_add k hs)"
  by (simp add: log_add_def)

text \<open>
  \<open>inv hs H s\<close>: a transaction is open that has logged the blocks \<open>hs\<close>, and the buffers of \<open>H\<close> are
  held. \<open>ok s k\<close>: block \<open>k\<close> may be logged. \<open>frame\<close>: what the store does not touch, the disk included.
\<close>

locale logged_store =
  fixes inv :: "nat list \<Rightarrow> (nat \<rightharpoonup> nat) \<Rightarrow> 's \<Rightarrow> bool"
    and content :: "'s \<Rightarrow> nat \<Rightarrow> byte list"
    and frame :: "'s \<Rightarrow> 'r"
    and dsize :: "'s \<Rightarrow> nat"
    and ok :: "'s \<Rightarrow> nat \<Rightarrow> bool"
    and limit :: nat
    and rd :: "nat \<Rightarrow> ('s, nat) kop"
    and dat :: "nat \<Rightarrow> ('s, byte list) kop"
    and lw :: "nat \<Rightarrow> byte list \<Rightarrow> ('s, unit) kop"
    and rl :: "nat \<Rightarrow> ('s, unit) kop"
  assumes rd: "inv hs H s \<Longrightarrow> k < dsize s \<Longrightarrow> k \<notin> ran H \<Longrightarrow> card (dom H) \<le> 1 \<Longrightarrow>
      \<exists>b t. rd k s = Done b t \<and> b \<notin> dom H \<and> inv hs (H(b \<mapsto> k)) t \<and> content t = content s \<and>
        frame t = frame s"
    and dat: "inv hs H s \<Longrightarrow> H b = Some k \<Longrightarrow> dat b s = Done (content s k) s"
    and lw: "inv hs H s \<Longrightarrow> H b = Some k \<Longrightarrow> length d = 512 \<Longrightarrow> ok s k \<Longrightarrow> length hs < limit \<Longrightarrow>
      \<exists>t. lw b d s = Done () t \<and> inv (log_add k hs) H t \<and> content t = (content s)(k := d) \<and>
        frame t = frame s"
    and rl: "inv hs H s \<Longrightarrow> H b = Some k \<Longrightarrow>
      \<exists>t. rl b s = Done () t \<and> inv hs (H(b := None)) t \<and> content t = content s \<and> frame t = frame s"
    and len: "inv hs H s \<Longrightarrow> k < dsize s \<Longrightarrow> length (content s k) = 512"
    and frame: "frame t = frame s \<Longrightarrow> dsize t = dsize s" "frame t = frame s \<Longrightarrow> ok t k = ok s k"
begin

text \<open>Changing a block in place inside the transaction.\<close>

lemma update:
  assumes "inv hs Map.empty s" "k < dsize s" "ok s k" "length hs < limit" "length (f (content s k)) = 512"
  shows "\<exists>t. kbind (rd k) (\<lambda>b. kbind (dat b) (\<lambda>d. kseq (lw b (f d)) (rl b))) s = Done () t \<and>
    inv (log_add k hs) Map.empty t \<and> content t = (content s)(k := f (content s k)) \<and> frame t = frame s"
proof -
  obtain b t where t: "rd k s = Done b t" "inv hs [b \<mapsto> k] t" "content t = content s" "frame t = frame s"
    using rd [OF assms(1,2)] by auto
  have d: "dat b t = Done (content s k) t" using dat [OF t(2), of b k] t(3) by simp
  obtain u where u: "lw b (f (content s k)) t = Done () u" "inv (log_add k hs) [b \<mapsto> k] u"
    "content u = (content t)(k := f (content s k))" "frame u = frame t"
    using lw [OF t(2) _ assms(5) _ assms(4), of b] frame(2) [OF t(4)] assms(3) by auto
  obtain v where v: "rl b u = Done () v" "inv (log_add k hs) ([b \<mapsto> k](b := None)) v" "content v = content u"
    "frame v = frame u"
    using rl [OF u(2), of b k] by auto
  show ?thesis using t d u v by (simp add: kop_simps)
qed

text \<open>Looking at a block inside the transaction.\<close>

lemma view:
  assumes "inv hs Map.empty s" "k < dsize s"
  shows "\<exists>b t u. rd k s = Done b t \<and> inv hs [b \<mapsto> k] t \<and> content t = content s \<and> frame t = frame s \<and>
    dat b t = Done (content s k) t \<and> rl b t = Done () u \<and> inv hs Map.empty u \<and> content u = content s \<and> frame u = frame s"
proof -
  obtain b t where t: "rd k s = Done b t" "inv hs [b \<mapsto> k] t" "content t = content s" "frame t = frame s"
    using rd [OF assms(1,2)] by auto
  have d: "dat b t = Done (content s k) t" using dat [OF t(2), of b k] t(3) by simp
  obtain v where v: "rl b t = Done () v" "inv hs ([b \<mapsto> k](b := None)) v" "content v = content t" "frame v = frame t"
    using rl [OF t(2), of b k] by auto
  with t d show ?thesis by simp
qed

end

section \<open>The cache with the log provides the contract\<close>

text \<open>
  The transaction invariant: the cache is consistent, the in-memory log names the blocks \<open>hs\<close>, every
  dirty buffer holds one of them, an operation is in progress and nobody commits, and the header
  on the disk is empty.
\<close>

definition txn_inv :: "nat \<Rightarrow> nat list \<Rightarrow> (nat \<rightharpoonup> nat) \<Rightarrow> 'a fs_state_scheme \<Rightarrow> bool" where
  "txn_inv st hs H s \<longleftrightarrow> cache_inv H s \<and> log_ok st hs s \<and> distinct hs \<and> dirty_blocks s \<subseteq> set hs \<and>
     lg_outstanding (klog s) \<ge> 1 \<and> lg_committing (klog s) = 0 \<and> lg_size (klog s) \<ge> int LOGSIZE \<and>
     get32 (memdisk s st) 0 = 0"

definition txn_frame :: "'a fs_state_scheme \<Rightarrow> _" where
  "txn_frame s = (memdisk s, dwrites s, sb s, inodes s, disksize s, ptable s, lg_outstanding (klog s))"

definition loggable :: "nat \<Rightarrow> 'a fs_state_scheme \<Rightarrow> nat \<Rightarrow> bool" where
  "loggable st s k \<longleftrightarrow> k < disksize s \<and> \<not> in_log st k"

text \<open>Blocks outside the log agree with the disk.\<close>

lemma txn_clean:
  assumes "txn_inv st hs H s" "k \<notin> set hs"
  shows "bcontent s k = memdisk s k"
proof (cases "\<exists>b < NBUF. holds_block k (bufs s ! b)")
  case True
  have inv: "cache_inv H s" using assms(1) by (simp add: txn_inv_def)
  from True obtain b where b: "b < NBUF" "holds_block k (bufs s ! b)" by blast
  then have "b_flags (bufs s ! b) \<noteq> 6"
    using assms by (auto simp: txn_inv_def dirty_blocks_def holds_block_def)
  with cache_invD(5) [OF inv b(1)] b show ?thesis
    by (auto simp: bcontent_buf [OF inv b] buf_ok_def holds_block_def)
next
  case False
  then show ?thesis using assms(1) by (intro bcontent_disk) (auto simp: txn_inv_def)
qed

text \<open>The search of \<^verbatim>\<open>log_write\<close> finds exactly the blocks of the log.\<close>

lemma log_index:
  assumes "log_ok st hs s" "disksize s \<le> 2 ^ 31" "k < disksize s"
  shows "k \<notin> set hs \<Longrightarrow> find_from (\<lambda>i. u32_of (lh_block (klog s) ! i) = of_nat k) 0 (length hs) = None"
    and "k \<in> set hs \<Longrightarrow> \<exists>i < length hs. hs ! i = k \<and>
           find_from (\<lambda>i. u32_of (lh_block (klog s) ! i) = of_nat k) 0 (length hs) = Some i"
proof -
  note L = log_okD [OF assms(1)]
  let ?p = "\<lambda>i. u32_of (lh_block (klog s) ! i) = of_nat k"
  have eq: "?p i \<longleftrightarrow> hs ! i = k" if "i < length hs" for i
  proof -
    have "hs ! i < 2 ^ 32" "k < 2 ^ 32" using L(7) [OF that] assms(2,3) by simp_all
    then show ?thesis using L(6) [OF that] by (auto simp: word_unat_eq_iff unat_of_nat)
  qed
  show "find_from ?p 0 (length hs) = None" if "k \<notin> set hs"
    unfolding find_from_None using eq that by (auto simp: in_set_conv_nth)
  show "\<exists>i < length hs. hs ! i = k \<and> find_from ?p 0 (length hs) = Some i" if "k \<in> set hs"
  proof -
    obtain j where j: "j < length hs" "hs ! j = k" using \<open>k \<in> set hs\<close> by (auto simp: in_set_conv_nth)
    then obtain i where i: "find_from ?p 0 (length hs) = Some i"
      using find_from_ex [of 0 j "length hs" ?p] eq [OF j(1)] by auto
    with find_from_SomeD [OF i] eq show ?thesis by auto
  qed
qed

text \<open>The log after \<^verbatim>\<open>log_write\<close> of a buffer that holds block \<open>k\<close>.\<close>

definition logged :: "nat \<Rightarrow> nat list \<Rightarrow> log_t \<Rightarrow> log_t" where
  "logged k hs lg = (if k \<in> set hs then lg
     else lg\<lparr>lh_block := (lh_block lg)[length hs := int k], lh_n := int (length hs) + 1\<rparr>)"

lemma log_write_run:
  assumes "log_ok st hs s" "disksize s \<le> 2 ^ 31" "k < disksize s" "length hs < LOGSIZE - 1"
    and "lg_outstanding (klog s) \<ge> 1" "lg_size (klog s) \<ge> int LOGSIZE"
    and "b_blockno (bufs s ! b) = of_nat k"
  shows "log_write b s = Done () (upd_buf b (\<lambda>bp. bp\<lparr>b_flags := b_flags bp OR B_DIRTY\<rparr>)
           (s\<lparr>klog := logged k hs (klog s)\<rparr>))"
proof -
  note L = log_okD [OF assms(1)]
  have small: "k < 2 ^ 31" using assms(2,3) by simp
  have room: "\<not> (lh_n (klog s) \<ge> int LOGSIZE \<or> lh_n (klog s) \<ge> lg_size (klog s) - 1)"
    using assms(4,6) L(3) by (auto simp: LOGSIZE_def)
  show ?thesis
  proof (cases "k \<in> set hs")
    case True
    then obtain i where i: "i < length hs" "hs ! i = k"
      "find_from (\<lambda>i. u32_of (lh_block (klog s) ! i) = of_nat k) 0 (length hs) = Some i"
      using log_index(2) [OF assms(1-3)] by blast
    have "(klog s)\<lparr>lh_block := (lh_block (klog s))[i := int k]\<rparr> = klog s"
      using L(6) [OF i(1)] i(2) by (metis list_update_id log_t.surjective log_t.update_convs(7))
    then show ?thesis
      using True i room assms(5,7) L(3) sint_of_nat_small [OF small]
      by (simp add: log_write_def kop_simps bget_field_def logged_def Let_def)
  next
    case False
    then show ?thesis
      using log_index(1) [OF assms(1-3)] room assms(5,7) L(3) sint_of_nat_small [OF small]
      by (simp add: log_write_def kop_simps bget_field_def logged_def Let_def)
  qed
qed

lemma log_ok_logged:
  assumes "log_ok st hs s" "loggable st s k" "Suc (length hs) < LOGSIZE"
  shows "log_ok st (log_add k hs) (s\<lparr>klog := logged k hs (klog s)\<rparr>)"
proof (cases "k \<in> set hs")
  case True
  then show ?thesis using assms by (simp add: log_ok_def logged_def log_add_def)
next
  case False
  have "take (Suc (length hs)) ((lh_block (klog s))[length hs := int k]) = take (length hs) (lh_block (klog s)) @ [int k]"
    using assms by (simp add: log_ok_def take_Suc_conv_app_nth)
  with False assms show ?thesis by (auto simp: log_ok_def logged_def log_add_def loggable_def)
qed

text \<open>Changing a held buffer and logging it.\<close>

lemma txn_lw:
  assumes inv: "txn_inv st hs H s" and h: "H b = Some k" and d: "length d = 512"
    and ok: "loggable st s k" and room: "length hs < 28"
  shows "\<exists>t. kseq (set_bdata b d) (log_write b) s = Done () t \<and> txn_inv st (log_add k hs) H t \<and>
    bcontent t = (bcontent s)(k := d) \<and> txn_frame t = txn_frame s"
proof -
  have ci: "cache_inv H s" and lo: "log_ok st hs s" and dist: "distinct hs" and dirty: "dirty_blocks s \<subseteq> set hs"
    and op: "lg_outstanding (klog s) \<ge> 1" "lg_size (klog s) \<ge> int LOGSIZE"
    using inv by (simp_all add: txn_inv_def)
  note I = cache_invD [OF ci]
  have b: "b < NBUF" using I(4) h by blast
  have bok: "buf_ok (memdisk s) (disksize s) (Some k) (bufs s ! b)" using I(5) [OF b] h by simp
  have kk: "unat (b_blockno (bufs s ! b)) = k" "b_blockno (bufs s ! b) = of_nat k" "holds_block k (bufs s ! b)"
    using bok by (auto simp: buf_ok_def holds_block_def)
  let ?B = "(bufs s ! b)\<lparr>b_data := d, b_flags := 6\<rparr>"
  let ?u = "upd_buf b (\<lambda>bp. bp\<lparr>b_data := d\<rparr>) s"
  let ?k = "s\<lparr>klog := logged k hs (klog s)\<rparr>"
  define t where "t = upd_buf b (\<lambda>bp. bp\<lparr>b_flags := b_flags bp OR B_DIRTY\<rparr>) (?u\<lparr>klog := logged k hs (klog s)\<rparr>)"
  have fl: "b_flags (bufs s ! b) OR B_DIRTY = 6" using bok by (auto simp: buf_ok_def B_DIRTY_def)
  have tb: "bufs t = (bufs s)[b := ?B]" "memdisk t = memdisk s" "disksize t = disksize s" "cur t = cur s"
    "ptable t = ptable s" "bhead t = bhead s" "klog t = logged k hs (klog s)" "dwrites t = dwrites s" "sb t = sb s"
    "inodes t = inodes s"
    using b I(1) fl by (simp_all add: t_def upd_buf_def)
  have uniq: "\<not> holds_block k (bufs s ! a)" if "a < NBUF" "a \<noteq> b" for a
    using I(6) [OF that(1) b _ kk(3)] that by blast
  have db: "dirty_blocks t \<subseteq> insert k (dirty_blocks s)"
    using b I(1) kk(1) by (auto simp: dirty_blocks_def tb nth_list_update split: if_splits)
  have inj: "inj_on (\<lambda>x. unat (b_blockno (bufs t ! x))) {x. x < NBUF \<and> b_flags (bufs t ! x) = 6}"
  proof (rule inj_onI, clarify)
    fix x y assume x: "x < NBUF" "b_flags (bufs t ! x) = 6" and y: "y < NBUF" "b_flags (bufs t ! y) = 6"
      and e: "unat (b_blockno (bufs t ! x)) = unat (b_blockno (bufs t ! y))"
    show "x = y"
      using x y e I(1) uniq [of x] uniq [of y] I(6) [OF x(1) y(1)] kk(1)
      by (cases "x = b"; cases "y = b") (auto simp: tb holds_block_def)
  qed
  have "card {x. x < NBUF \<and> b_flags (bufs t ! x) = 6} = card (dirty_blocks t)"
    using card_image [OF inj] by (simp add: dirty_blocks_def setcompr_eq_image Collect_conj_eq)
  also have "\<dots> \<le> card (set (log_add k hs))" using db dirty by (intro card_mono) auto
  also have "\<dots> \<le> length (log_add k hs)" by (rule card_length)
  also have "\<dots> \<le> 28" using length_log_add(1) [of k hs] room by simp
  finally have card: "card {x. x < NBUF \<and> b_flags (bufs t ! x) = 6} + 2 \<le> NBUF" by (simp add: NBUF_def)
  have ci': "cache_inv H t"
  proof (rule cache_inv_upd_gen [OF ci b tb(1)])
    show "buf_ok (memdisk t) (disksize s) (H b) ?B" using bok d h by (auto simp: buf_ok_def)
    show "\<not> holds_block (unat (b_blockno ?B)) (bufs s ! a)" if "a < NBUF" "a \<noteq> b" for a
      using uniq [OF that] by (simp add: kk(1))
  qed (use I tb card in simp_all)
  have "bcontent t j = (if j = k then d else bcontent s j)" for j
    using bcontent_upd [OF ci ci' b tb(1), of j] kk by (auto simp: tb holds_block_def)
  then have "bcontent t = (bcontent s)(k := d)" by auto
  moreover have "log_ok st (log_add k hs) t"
    using log_ok_logged [OF lo ok] room by (simp add: log_ok_def tb LOGSIZE_def)
  moreover have "lg_outstanding (klog t) = lg_outstanding (klog s)" "lg_committing (klog t) = lg_committing (klog s)"
    "lg_size (klog t) = lg_size (klog s)" by (simp_all add: tb logged_def)
  moreover have "kseq (set_bdata b d) (log_write b) s = Done () t"
  proof -
    have lo': "log_ok st hs ?u" using lo by (simp add: log_ok_def)
    have bb: "bufs ?u ! b = (bufs s ! b)\<lparr>b_data := d\<rparr>" using b I(1) by simp
    have "log_write b ?u = Done () t"
      using log_write_run [OF lo', of k b] I(9) ok room op kk(2) bb by (simp add: t_def loggable_def LOGSIZE_def)
    then show ?thesis by (simp add: set_bdata_def kop_simps)
  qed
  ultimately show ?thesis
    using ci' distinct_log_add [OF dist, of k] db dirty inv tb
    by (intro exI [of _ t]) (auto simp: txn_inv_def txn_frame_def)
qed

lemma txn_rd:
  assumes "txn_inv st hs H s" "k < disksize s" "k \<notin> ran H" "card (dom H) \<le> 1"
  shows "\<exists>b t. bread 1 (of_nat k) s = Done b t \<and> b \<notin> dom H \<and> txn_inv st hs (H(b \<mapsto> k)) t \<and>
    bcontent t = bcontent s \<and> txn_frame t = txn_frame s"
proof -
  have ci: "cache_inv H s" using assms(1) by (simp add: txn_inv_def)
  have "\<exists>b t. bread 1 (of_nat k) s = Done b t \<and> b \<notin> dom H \<and> cache_inv (H(b \<mapsto> k)) t \<and>
    bcontent t = bcontent s \<and> memdisk t = memdisk s \<and> dwrites t = dwrites s \<and> bframe t = bframe s \<and>
    disksize t = disksize s \<and> dirty_blocks t = dirty_blocks s"
    using cache_rd_hit [OF ci assms(2,3)] cache_rd_miss [OF ci assms(2,4)]
    by (cases "find (\<lambda>b. b_dev (bufs s ! b) = 1 \<and> b_blockno (bufs s ! b) = of_nat k) (bhead s)") blast+
  then show ?thesis using assms(1)
    by (auto simp: txn_inv_def txn_frame_def bframe_def log_ok_def)
qed

lemma txn_rl:
  assumes "txn_inv st hs H s" "H b = Some k"
  shows "\<exists>t. brelse b s = Done () t \<and> txn_inv st hs (H(b := None)) t \<and> bcontent t = bcontent s \<and>
    txn_frame t = txn_frame s"
proof -
  have ci: "cache_inv H s" using assms(1) by (simp add: txn_inv_def)
  show ?thesis using cache_rl [OF ci assms(2)] assms(1)
    by (auto simp: txn_inv_def txn_frame_def bframe_def log_ok_def)
qed

interpretation txn: logged_store "txn_inv st" bcontent txn_frame disksize "loggable st" 28
  "\<lambda>k. bread 1 (of_nat k)" bdata "\<lambda>b d. kseq (set_bdata b d) (log_write b)" brelse
proof unfold_locales
  fix hs H and s :: "'a fs_state_scheme" and k
  assume "txn_inv st hs H s" "k < disksize s" "k \<notin> ran H" "card (dom H) \<le> 1"
  then show "\<exists>b t. bread 1 (of_nat k) s = Done b t \<and> b \<notin> dom H \<and> txn_inv st hs (H(b \<mapsto> k)) t \<and>
    bcontent t = bcontent s \<and> txn_frame t = txn_frame s" by (rule txn_rd)
next
  fix hs H and s :: "'a fs_state_scheme" and b k
  assume a: "txn_inv st hs H s" "H b = Some k"
  then show "bdata b s = Done (bcontent s k) s" using bcache.dat by (auto simp: txn_inv_def)
  show "\<exists>t. brelse b s = Done () t \<and> txn_inv st hs (H(b := None)) t \<and> bcontent t = bcontent s \<and>
    txn_frame t = txn_frame s" by (rule txn_rl [OF a])
next
  fix hs H and s :: "'a fs_state_scheme" and b k and d :: "byte list"
  assume "txn_inv st hs H s" "H b = Some k" "length d = 512" "loggable st s k" "length hs < 28"
  then show "\<exists>t. kseq (set_bdata b d) (log_write b) s = Done () t \<and> txn_inv st (log_add k hs) H t \<and>
    bcontent t = (bcontent s)(k := d) \<and> txn_frame t = txn_frame s" by (rule txn_lw)
next
  fix hs H and s t :: "'a fs_state_scheme" and k
  show "length (bcontent s k) = 512" if "txn_inv st hs H s" "k < disksize s"
    using that bcontent_len by (auto simp: txn_inv_def)
  show "disksize t = disksize s" if "txn_frame t = txn_frame s" using that by (simp add: txn_frame_def)
  show "loggable st t k = loggable st s k" if "txn_frame t = txn_frame s"
    using that by (simp add: txn_frame_def loggable_def)
qed

section \<open>A whole transaction\<close>

text \<open>The pattern all file system updates follow: read a block, change it, log it, let it go.\<close>

definition block_update :: "nat \<times> (byte list \<Rightarrow> byte list) \<Rightarrow> ('a fs_state_scheme, unit) kop" where
  "block_update u = kbind (bread 1 (of_nat (fst u))) (\<lambda>b. kbind (bdata b) (\<lambda>d.
     kseq (set_bdata b (snd u d)) (kseq (log_write b) (brelse b))))"

definition apply_updates :: "(nat \<times> (byte list \<Rightarrow> byte list)) list \<Rightarrow> (nat \<Rightarrow> byte list) \<Rightarrow> nat \<Rightarrow> byte list" where
  "apply_updates us c = fold (\<lambda>(k, f) c. c(k := f (c k))) us c"

lemma txn_update:
  assumes "txn_inv st hs Map.empty s" "loggable st s k" "length hs < 28" "\<And>d. length d = 512 \<Longrightarrow> length (f d) = 512"
  shows "\<exists>t. block_update (k, f) s = Done () t \<and> txn_inv st (log_add k hs) Map.empty t \<and>
    bcontent t = (bcontent s)(k := f (bcontent s k)) \<and> txn_frame t = txn_frame s"
proof -
  have k: "k < disksize s" using assms(2) by (simp add: loggable_def)
  show ?thesis
    using txn.update [OF assms(1) k assms(2,3), of f] assms(4) [OF txn.len [OF assms(1) k]]
    by (simp add: block_update_def kseq_assoc)
qed

lemma txn_updates:
  assumes "txn_inv st hs Map.empty s" "length hs + length us \<le> 28"
    and "\<And>k f. (k, f) \<in> set us \<Longrightarrow> loggable st s k \<and> (\<forall>d. length d = 512 \<longrightarrow> length (f d) = 512)"
  shows "\<exists>t hs'. kfor us block_update s = Done () t \<and> txn_inv st hs' Map.empty t \<and>
    set hs' = set hs \<union> fst ` set us \<and> bcontent t = apply_updates us (bcontent s) \<and> txn_frame t = txn_frame s"
  using assms
proof (induction us arbitrary: s hs)
  case Nil
  then show ?case by (auto simp: kop_simps apply_updates_def)
next
  case (Cons u us)
  obtain k f where u: "u = (k, f)" by (cases u)
  have "length hs < 28" using Cons.prems(2) by simp
  then obtain t where t: "block_update (k, f) s = Done () t" "txn_inv st (log_add k hs) Map.empty t"
    "bcontent t = (bcontent s)(k := f (bcontent s k))" "txn_frame t = txn_frame s"
    using txn_update [OF Cons.prems(1), of k f] Cons.prems(3) [of k f] u by auto
  have l: "length (log_add k hs) + length us \<le> 28" using length_log_add(1) [of k hs] Cons.prems(2) by simp
  have ok: "loggable st t j \<and> (\<forall>d. length d = 512 \<longrightarrow> length (g d) = 512)" if "(j, g) \<in> set us" for j g
    using Cons.prems(3) [of j g] that txn.frame(2) [OF t(4)] by auto
  from Cons.IH [OF t(2) l ok] obtain v hs' where "kfor us block_update t = Done () v" "txn_inv st hs' Map.empty v"
    "set hs' = set (log_add k hs) \<union> fst ` set us" "bcontent v = apply_updates us (bcontent t)" "txn_frame v = txn_frame t"
    by blast
  with t u show ?case by (auto simp: kop_simps apply_updates_def)
qed

text \<open>Between transactions: nothing logged, nothing dirty, the header on the disk empty.\<close>

definition log_idle :: "nat \<Rightarrow> 'a fs_state_scheme \<Rightarrow> bool" where
  "log_idle st s \<longleftrightarrow> cache_inv Map.empty s \<and> log_ok st [] s \<and> dirty_blocks s = {} \<and>
     lg_outstanding (klog s) = 0 \<and> lg_committing (klog s) = 0 \<and> lg_size (klog s) \<ge> int LOGSIZE \<and>
     get32 (memdisk s st) 0 = 0 \<and> no_sleeper ChLog s"

lemma dirty_blocks_klog [simp]: "dirty_blocks (s\<lparr>klog := x\<rparr>) = dirty_blocks s"
  by (simp add: dirty_blocks_def)

lemma begin_op_idle:
  assumes "log_idle st s"
  shows "\<exists>t. begin_op s = Done () t \<and> txn_inv st [] Map.empty t \<and> bcontent t = memdisk s \<and> memdisk t = memdisk s \<and>
    dwrites t = dwrites s \<and> disksize t = disksize s \<and> ptable t = ptable s \<and> lg_outstanding (klog t) = 1"
proof -
  let ?t = "s\<lparr>klog := (klog s)\<lparr>lg_outstanding := 1\<rparr>\<rparr>"
  have t: "txn_inv st [] Map.empty ?t" using assms by (simp add: txn_inv_def log_idle_def log_ok_def)
  have "bcontent ?t k = memdisk ?t k" for k using txn_clean [OF t, of k] by simp
  then have "bcontent s = memdisk s" by (simp add: fun_eq_iff)
  moreover have "begin_op s = Done () ?t"
    using assms by (simp add: begin_op_def kop_simps log_idle_def log_ok_def MAXOPBLOCKS_def LOGSIZE_def)
  ultimately show ?thesis using t by simp
qed

lemma end_op_commits:
  assumes inv: "txn_inv st hs Map.empty s" and hs: "hs \<noteq> []" and one: "lg_outstanding (klog s) = 1"
    and quiet: "no_sleeper ChLog s"
  shows "\<exists>t ws. end_op s = Done () t \<and> dwrites t = dwrites s @ ws \<and>
    (\<forall>k. \<not> in_log st k \<longrightarrow> memdisk t k = bcontent s k) \<and>
    (\<forall>m (s' :: 'b fs_state_scheme). boot_state st (apply_writes (take m ws) (memdisk s)) s' \<and> disksize s' = disksize s \<longrightarrow>
       (\<exists>t'. recover_from_log s' = Done () t' \<and>
          ((\<forall>k. \<not> in_log st k \<longrightarrow> memdisk t' k = memdisk s k) \<or>
           (\<forall>k. \<not> in_log st k \<longrightarrow> memdisk t' k = bcontent s k))))"
proof -
  let ?c = "s\<lparr>klog := (klog s)\<lparr>lg_outstanding := 0, lg_committing := 1\<rparr>\<rparr>"
  have "log_ok st hs ?c" "cache_inv Map.empty ?c" "distinct hs" "get32 (memdisk ?c st) 0 = 0"
    using inv by (simp_all add: txn_inv_def log_ok_def)
  from commit_atomic [OF this(1,2) hs this(3,4)] obtain t ws where
    t: "commit ?c = Done () t" "dwrites t = dwrites s @ ws" "ptable t = ptable s"
      "\<forall>k. \<not> in_log st k \<longrightarrow> memdisk t k = updated hs (bcontent s) (memdisk s) k"
    and crash: "\<forall>m (s' :: 'b fs_state_scheme). boot_state st (apply_writes (take m ws) (memdisk s)) s' \<and> disksize s' = disksize s \<longrightarrow>
       (\<exists>t'. recover_from_log s' = Done () t' \<and>
          ((\<forall>k. \<not> in_log st k \<longrightarrow> memdisk t' k = memdisk s k) \<or>
           (\<forall>k. \<not> in_log st k \<longrightarrow> memdisk t' k = updated hs (bcontent s) (memdisk s) k)))"
    by auto
  have upd: "updated hs (bcontent s) (memdisk s) k = bcontent s k" for k
    using txn_clean [OF inv, of k] by (simp add: updated_def)
  let ?u = "t\<lparr>klog := (klog t)\<lparr>lg_committing := 0\<rparr>\<rparr>"
  have "wakeup ChLog ?u = Done () ?u"
    using quiet t(3) by (intro wakeup_quiet) (simp add: no_sleeper_def)
  then have "end_op s = Done () ?u"
    using t(1) one inv by (simp add: end_op_def kop_simps txn_inv_def)
  with t(2,4) crash show ?thesis by (intro exI [of _ ?u] exI [of _ ws]) (simp add: upd)
qed

text \<open>
  C4 (transactions): a transaction that changes up to 28 blocks, from an idle log, returns with
  every change on the disk; and wherever the machine stops during it, recovery after the next boot
  gives the disk with all the changes or with none of them.
\<close>

theorem transaction_atomic:
  assumes idle: "log_idle st s" and us: "us \<noteq> []" "length us \<le> 28"
    and ok: "\<And>k f. (k, f) \<in> set us \<Longrightarrow> loggable st s k \<and> (\<forall>d. length d = 512 \<longrightarrow> length (f d) = 512)"
  shows "\<exists>t ws. kseq begin_op (kseq (kfor us block_update) end_op) s = Done () t \<and> dwrites t = dwrites s @ ws \<and>
    (\<forall>k. \<not> in_log st k \<longrightarrow> memdisk t k = apply_updates us (memdisk s) k) \<and>
    (\<forall>m (s' :: 'b fs_state_scheme). boot_state st (apply_writes (take m ws) (memdisk s)) s' \<and> disksize s' = disksize s \<longrightarrow>
       (\<exists>t'. recover_from_log s' = Done () t' \<and>
          ((\<forall>k. \<not> in_log st k \<longrightarrow> memdisk t' k = memdisk s k) \<or>
           (\<forall>k. \<not> in_log st k \<longrightarrow> memdisk t' k = apply_updates us (memdisk s) k))))"
proof -
  obtain a where a: "begin_op s = Done () a" "txn_inv st [] Map.empty a" "bcontent a = memdisk s" "memdisk a = memdisk s"
    "dwrites a = dwrites s" "disksize a = disksize s" "ptable a = ptable s" "lg_outstanding (klog a) = 1"
    using begin_op_idle [OF idle] by blast
  have ok': "loggable st a k \<and> (\<forall>d. length d = 512 \<longrightarrow> length (f d) = 512)" if "(k, f) \<in> set us" for k f
    using ok [OF that] a(6) by (simp add: loggable_def)
  obtain b hs where b: "kfor us block_update a = Done () b" "txn_inv st hs Map.empty b" "set hs = fst ` set us"
    "bcontent b = apply_updates us (memdisk s)" "txn_frame b = txn_frame a"
    using txn_updates [OF a(2), of us] ok' us(2) a(3) by auto
  have f: "memdisk b = memdisk s" "dwrites b = dwrites s" "disksize b = disksize s" "ptable b = ptable s"
    "lg_outstanding (klog b) = 1" using b(5) a by (simp_all add: txn_frame_def)
  have "hs \<noteq> []" using b(3) us(1) by auto
  moreover have "no_sleeper ChLog b" using idle f(4) by (simp add: log_idle_def no_sleeper_def)
  ultimately show ?thesis
    using end_op_commits [OF b(2) _ f(5)] a(1) b(1) unfolding b(4) f(1-3) by (auto simp: kop_simps)
qed

lemma demo_idle: "log_idle 2 demo_state"
proof -
  have "get32 (memdisk demo_state 2) 0 = 0"
    by (simp add: demo_bufs get32_def slice_def word32_of_def word_of_bytes_def numeral_nat)
  moreover have "dirty_blocks demo_state = {}" by (auto simp: dirty_blocks_def demo_bufs)
  ultimately show ?thesis
    using demo_cache_inv by (simp add: log_idle_def demo_quiet log_ok_def) (simp add: demo_state_def LOGSIZE_def)
qed

theorem transaction_atomic_witness:
  "\<exists>t. kseq begin_op (kseq (kfor [(100, \<lambda>_. replicate 512 7), (101, \<lambda>d. d[3 := 9])] block_update) end_op)
         demo_state = Done () t \<and> memdisk t 100 = replicate 512 7 \<and> memdisk t 101 ! 3 = 9"
proof -
  have "loggable 2 demo_state k" if "k = 100 \<or> k = 101" for k
    using that by (auto simp: loggable_def demo_bufs in_log_def LOGSIZE_def)
  then have ok: "loggable 2 demo_state k \<and> (\<forall>d. length d = 512 \<longrightarrow> length (f d) = 512)"
    if "(k, f) \<in> set [(100, \<lambda>_. replicate 512 7), (101, \<lambda>d. d[3 := 9])]" for k f
    using that by auto
  obtain t where t: "kseq begin_op (kseq (kfor [(100, \<lambda>_. replicate 512 7), (101, \<lambda>d. d[3 := 9])] block_update) end_op)
      demo_state = Done () t" and
    m: "\<forall>k. \<not> in_log 2 k \<longrightarrow> memdisk t k =
          apply_updates [(100, \<lambda>_. replicate 512 7), (101, \<lambda>d. d[3 := 9])] (memdisk demo_state) k"
    using transaction_atomic [OF demo_idle _ _ ok, of "[(100, \<lambda>_. replicate 512 7), (101, \<lambda>d. d[3 := 9])]"]
    by (auto simp del: kfor.simps)
  have "\<not> in_log 2 100" "\<not> in_log 2 101" by (simp_all add: in_log_def LOGSIZE_def)
  with m t show ?thesis by (simp add: apply_updates_def demo_bufs)
qed

end
