(* ===== verification/Block_Alloc.thy ===== *)
theory Block_Alloc
  imports Transaction
begin

unbundle bit_operations_syntax

text \<open>
  The block allocator of \<^verbatim>\<open>fs.c\<close> inside a transaction: \<^verbatim>\<open>balloc\<close> returns a free block, marks it in the
  bitmap and clears it; \<^verbatim>\<open>bfree\<close> marks it free again. Both are proved against the contract of the
  logged store.
\<close>

section \<open>The bitmap\<close>

lemma bmap_bit_set:
  assumes "bi div 8 < length d"
  shows "bmap_bit (bmap_set d bi) bj \<longleftrightarrow> bi = bj \<or> bmap_bit d bj"
proof -
  have "bi = bj \<longleftrightarrow> bi div 8 = bj div 8 \<and> bi mod 8 = bj mod 8" by (metis div_mult_mod_eq)
  moreover have "bi mod 8 < 8" by simp
  ultimately show ?thesis
    using assms by (cases "bi div 8 = bj div 8") (auto simp: bmap_bit_def bmap_set_def bit_set_bit_iff)
qed

lemma bmap_bit_clear:
  assumes "bi div 8 < length d"
  shows "bmap_bit (bmap_clear d bi) bj \<longleftrightarrow> bi \<noteq> bj \<and> bmap_bit d bj"
proof -
  have "bi = bj \<longleftrightarrow> bi div 8 = bj div 8 \<and> bi mod 8 = bj mod 8" by (metis div_mult_mod_eq)
  then show ?thesis
    using assms by (cases "bi div 8 = bj div 8") (auto simp: bmap_bit_def bmap_clear_def bit_unset_bit_iff)
qed

lemma length_bmap [simp]: "length (bmap_set d bi) = length d" "length (bmap_clear d bi) = length d"
  by (simp_all add: bmap_set_def bmap_clear_def)

text \<open>The block of the bitmap that holds the bit of block \<open>k\<close>, and that bit.\<close>

definition bitmap_block :: "superblock \<Rightarrow> nat \<Rightarrow> nat" where
  "bitmap_block sbk k = k div BPB + unat (sb_bmapstart sbk)"

definition block_used :: "'a fs_state_scheme \<Rightarrow> nat \<Rightarrow> bool" where
  "block_used s k = bmap_bit (bcontent s (bitmap_block (sb s) k)) (k mod BPB)"

text \<open>
  A disk the allocator can work on: the blocks of the bitmap exist outside the log, and the
  bitmap itself and the log are marked used.
\<close>

definition layout_ok :: "nat \<Rightarrow> 'a fs_state_scheme \<Rightarrow> bool" where
  "layout_ok st s \<longleftrightarrow> unat (sb_size (sb s)) \<le> disksize s \<and> disksize s \<le> 2 ^ 31 \<and>
     (\<forall>k < unat (sb_size (sb s)). loggable st s (bitmap_block (sb s) k)) \<and>
     (\<forall>k < unat (sb_size (sb s)). \<not> block_used s k \<longrightarrow>
        \<not> in_log st k \<and> (\<forall>j < unat (sb_size (sb s)). k \<noteq> bitmap_block (sb s) j))"

lemma layout_okD:
  assumes "layout_ok st s" "k < unat (sb_size (sb s))"
  shows "loggable st s (bitmap_block (sb s) k)" "bitmap_block (sb s) k < disksize s" "k < disksize s" "disksize s \<le> 2 ^ 31"
    "\<not> block_used s k \<Longrightarrow> loggable st s k"
    "\<not> block_used s k \<Longrightarrow> j < unat (sb_size (sb s)) \<Longrightarrow> k \<noteq> bitmap_block (sb s) j"
  using assms by (auto simp: layout_ok_def loggable_def)

lemma BBLOCK_eq: "BBLOCK k sbk = of_nat (bitmap_block sbk k)"
  by (simp add: BBLOCK_def bitmap_block_def)

text \<open>Reading through \<^const>\<open>bdata\<close> is only a view of the state.\<close>

lemma bzero_update: "bzero 1 (of_nat k) = block_update (k, \<lambda>_. replicate BSIZE 0)"
  by (rule ext) (simp add: bzero_def block_update_def bdata_def bget_field_def kop_simps split: outcome.split)

section \<open>A concrete disk\<close>

text \<open>The demonstration machine inside a transaction, with blocks 0 to 63 in use and a superblock.\<close>

definition demo_bitmap :: "byte list" where
  "demo_bitmap = replicate 8 0xFF @ replicate 504 0"

definition demo_super :: "byte list" where
  "demo_super = concat (map bytes_of32 [1000, 941, 200, 30, 2, 32, 58]) @ replicate 484 0"

definition demo_txn :: fs_state where
  "demo_txn = demo_state\<lparr>memdisk := (\<lambda>_. replicate 512 0)(1 := demo_super, 58 := demo_bitmap),
     klog := (klog demo_state)\<lparr>lg_outstanding := 1\<rparr>\<rparr>"

lemma demo_txn_fields [simp]:
  "bufs demo_txn = bufs demo_state" "memdisk demo_txn = (\<lambda>_. replicate 512 0)(1 := demo_super, 58 := demo_bitmap)"
  "disksize demo_txn = 1000" "sb demo_txn = sb demo_state" "klog demo_txn = (klog demo_state)\<lparr>lg_outstanding := 1\<rparr>"
  by (simp_all add: demo_txn_def demo_bufs)

lemma demo_txn_inv: "txn_inv 2 [] Map.empty demo_txn"
proof -
  have ci: "cache_inv Map.empty demo_txn"
    using demo_cache_inv unfolding cache_inv_def
    by (auto simp: demo_txn_def demo_bufs buf_ok_def no_sleeper_def demo_super_def demo_bitmap_def)
  moreover have "get32 (memdisk demo_txn 2) 0 = 0"
    by (simp add: get32_def slice_def word32_of_def word_of_bytes_def numeral_nat)
  moreover have "dirty_blocks demo_txn = {}" by (auto simp: dirty_blocks_def demo_bufs)
  ultimately show ?thesis
    by (simp add: txn_inv_def log_ok_def) (simp add: demo_state_def LOGSIZE_def)
qed

lemma demo_txn_content [simp]: "bcontent demo_txn = memdisk demo_txn"
proof
  fix k
  have "cache_inv Map.empty demo_txn" using demo_txn_inv by (simp add: txn_inv_def)
  then show "bcontent demo_txn k = memdisk demo_txn k"
    by (rule bcontent_disk) (simp add: demo_bufs holds_block_def)
qed

lemma demo_sb: "sb demo_state = \<lparr>sb_size = 1000, sb_nblocks = 941, sb_ninodes = 200, sb_nlog = 30, sb_logstart = 2,
    sb_inodestart = 32, sb_bmapstart = 58\<rparr>"
  by (simp add: demo_state_def)

lemma demo_txn_used: "k < 1000 \<Longrightarrow> block_used demo_txn k \<longleftrightarrow> k < 64"
proof -
  assume k: "k < 1000"
  have all: "bit (0xFF :: byte) i \<longleftrightarrow> i < 8" for i
    using bit_mask_iff [of 8 i, where ?'a = byte] by (auto simp: mask_eq_exp_minus_1 bit_imp_le_length)
  have ff: "bit (0xFF :: byte) (k mod 8)" unfolding all by simp
  have "k div 8 < 8 \<longleftrightarrow> k < 64" by auto
  then show ?thesis
    using k ff by (auto simp: block_used_def bitmap_block_def demo_sb BPB_def bmap_bit_def demo_bitmap_def nth_append)
qed

lemma demo_layout: "layout_ok 2 demo_txn"
  using demo_txn_used
  by (auto simp: layout_ok_def loggable_def demo_sb bitmap_block_def BPB_def in_log_def LOGSIZE_def)

lemma demo_superblock: "decode_sb demo_super = sb demo_state"
  by code_simp

section \<open>Allocating\<close>

text \<open>What a state looks like after block \<open>b\<close> has been allocated in state \<open>s\<close>.\<close>

definition allocated :: "nat \<Rightarrow> nat list \<Rightarrow> 'a fs_state_scheme \<Rightarrow> nat \<Rightarrow> 'a fs_state_scheme \<Rightarrow> bool" where
  "allocated st hs s b t \<longleftrightarrow> b < unat (sb_size (sb s)) \<and> \<not> block_used s b \<and>
     txn_inv st (log_add b (log_add (bitmap_block (sb s) b) hs)) Map.empty t \<and> txn_frame t = txn_frame s \<and>
     bcontent t = (bcontent s)(bitmap_block (sb s) b := bmap_set (bcontent s (bitmap_block (sb s) b)) (b mod BPB),
                               b := replicate 512 0)"

lemma balloc_found:
  assumes inv: "txn_inv st hs Map.empty s" and room: "length hs + 2 \<le> 28" and lay: "layout_ok st s"
    and b: "b < unat (sb_size (sb s))" "\<not> block_used s b" and j: "BPB * j \<le> b" "b < BPB * j + BPB"
    and first: "find_from (\<lambda>bi. \<not> bmap_bit (bcontent s (bitmap_block (sb s) (BPB * j))) bi) 0
        (min BPB (unat (sb_size (sb s)) - BPB * j)) = Some (b - BPB * j)"
  shows "\<exists>t. balloc_loop (Suc k) (BPB * j) 1 s = Done (of_nat b) t \<and> allocated st hs s b t"
proof -
  note L = layout_okD [OF lay b(1)]
  have bp: "BPB > 0" by (simp add: BPB_def)
  have dj: "b div BPB = j" "b mod BPB = b - BPB * j"
  proof -
    show "b div BPB = j" using j bp by (metis add.commute div_nat_eqI mult.commute mult_Suc_right)
    then show "b mod BPB = b - BPB * j" by (metis minus_mult_div_eq_mod)
  qed
  let ?m = "bitmap_block (sb s) b"
  have m: "bitmap_block (sb s) (BPB * j) = ?m" using dj(1) bp by (simp add: bitmap_block_def)
  let ?f = "\<lambda>d. bmap_set d (b - BPB * j)"
  obtain t where t: "block_update (?m, ?f) s = Done () t" "txn_inv st (log_add ?m hs) Map.empty t"
    "bcontent t = (bcontent s)(?m := ?f (bcontent s ?m))" "txn_frame t = txn_frame s"
    using txn_update [OF inv L(1), of ?f] room by auto
  have "loggable st t b" using L(5) [OF b(2)] txn.frame(2) [OF t(4)] by simp
  moreover have "length (log_add ?m hs) < 28" using length_log_add(1) [of ?m hs] room by simp
  ultimately obtain u where u: "block_update (b, \<lambda>_. replicate BSIZE 0) t = Done () u"
    "txn_inv st (log_add b (log_add ?m hs)) Map.empty u" "bcontent u = (bcontent t)(b := replicate BSIZE 0)"
    "txn_frame u = txn_frame t"
    using txn_update [OF t(2), of b "\<lambda>_. replicate BSIZE 0"] by (auto simp: BSIZE_def)
  obtain p v where p: "bread 1 (of_nat ?m) s = Done p v" "bdata p v = Done (bcontent s ?m) v"
    using txn.view [OF inv L(2)] by blast
  have "kseq (set_bdata p (?f (bcontent s ?m))) (kseq (log_write p) (brelse p)) v = Done () t"
    using t(1) p by (simp add: block_update_def kop_simps)
  then have "balloc_loop (Suc k) (BPB * j) 1 s = Done (of_nat b) u"
    using p first u(1) j(1)
    by (auto simp: kop_simps BBLOCK_eq m bzero_update [symmetric] of_nat_diff split: outcome.splits)
  moreover have "allocated st hs s b u"
    using b u t dj by (simp add: allocated_def BSIZE_def)
  ultimately show ?thesis by blast
qed

text \<open>A bitmap block without a free block is passed over.\<close>

lemma balloc_skip:
  assumes inv: "txn_inv st hs Map.empty s" and m: "bitmap_block (sb s) (BPB * j) < disksize s"
    and none: "find_from (\<lambda>bi. \<not> bmap_bit (bcontent s (bitmap_block (sb s) (BPB * j))) bi) 0
        (min BPB (unat (sb_size (sb s)) - BPB * j)) = None"
  shows "\<exists>t. balloc_loop (Suc k) (BPB * j) 1 s = balloc_loop k (BPB * Suc j) 1 t \<and>
    txn_inv st hs Map.empty t \<and> bcontent t = bcontent s \<and> txn_frame t = txn_frame s"
proof -
  obtain p v u where p: "bread 1 (of_nat (bitmap_block (sb s) (BPB * j))) s = Done p v"
    "bdata p v = Done (bcontent s (bitmap_block (sb s) (BPB * j))) v" "brelse p v = Done () u"
    "txn_inv st hs Map.empty u" "bcontent u = bcontent s" "txn_frame u = txn_frame s"
    using txn.view [OF inv m] by blast
  then show ?thesis using none
    by (intro exI [of _ u]) (simp add: kop_simps BBLOCK_eq add.commute)
qed

lemma block_used_cong: "bcontent t = bcontent s \<Longrightarrow> txn_frame t = txn_frame s \<Longrightarrow> block_used t k = block_used s k"
  by (simp add: block_used_def txn_frame_def)

lemma layout_cong: "bcontent t = bcontent s \<Longrightarrow> txn_frame t = txn_frame s \<Longrightarrow> layout_ok st t = layout_ok st s"
  by (auto simp: layout_ok_def txn_frame_def loggable_def block_used_def)

lemma allocated_cong:
  "bcontent t = bcontent s \<Longrightarrow> txn_frame t = txn_frame s \<Longrightarrow> allocated st hs t b u = allocated st hs s b u"
  by (auto simp: allocated_def txn_frame_def block_used_def)

text \<open>
  The scan of the bitmap from block \<open>j\<close> on. Blocks \<open>BPB * j\<close> and later are searched in the order of
  their numbers.
\<close>

lemma balloc_scan:
  assumes "txn_inv st hs Map.empty s" "length hs + 2 \<le> 28" "layout_ok st s" "unat (sb_size (sb s)) \<le> BPB * (j + k)"
    and "\<And>i. i < k \<Longrightarrow> BPB * (j + i) < unat (sb_size (sb s))"
  shows "if \<exists>b \<ge> BPB * j. b < unat (sb_size (sb s)) \<and> \<not> block_used s b
         then \<exists>b t. balloc_loop k (BPB * j) 1 s = Done (of_nat b) t \<and> allocated st hs s b t \<and>
           (\<forall>i. BPB * j \<le> i \<and> i < b \<longrightarrow> block_used s i)
         else balloc_loop k (BPB * j) 1 s = Panicked ''balloc: out of blocks''"
  using assms
proof (induction k arbitrary: s j)
  case 0
  then show ?case by (auto simp: kop_simps)
next
  case (Suc k)
  let ?n = "unat (sb_size (sb s))"
  have bp: "BPB > 0" by (simp add: BPB_def)
  have lt: "BPB * j < ?n" using Suc.prems(5) [of 0] by simp
  note L = layout_okD [OF Suc.prems(3) lt]
  let ?p = "\<lambda>bi. \<not> bmap_bit (bcontent s (bitmap_block (sb s) (BPB * j))) bi"
  have used: "?p bi \<longleftrightarrow> \<not> block_used s (BPB * j + bi)" if "bi < BPB" for bi
  proof -
    have "(BPB * j + bi) div BPB = j" "(BPB * j + bi) mod BPB = bi" using that bp by auto
    then show ?thesis using bp by (simp add: block_used_def bitmap_block_def)
  qed
  show ?case
  proof (cases "find_from ?p 0 (min BPB (?n - BPB * j))")
    case (Some bi)
    from find_from_SomeD [OF Some] have bi: "bi < BPB" "BPB * j + bi < ?n" "?p bi" using lt by auto
    have "\<exists>t. balloc_loop (Suc k) (BPB * j) 1 s = Done (of_nat (BPB * j + bi)) t \<and> allocated st hs s (BPB * j + bi) t"
      by (rule balloc_found [OF Suc.prems(1-3) bi(2)]) (use used [OF bi(1)] bi Some in simp_all)
    moreover have "block_used s i" if "BPB * j \<le> i" "i < BPB * j + bi" for i
    proof -
      have "\<not> ?p (i - BPB * j)" using find_from_SomeD [OF Some] that by auto
      with used [of "i - BPB * j"] that bi(1) show ?thesis by auto
    qed
    moreover have "\<exists>b \<ge> BPB * j. b < ?n \<and> \<not> block_used s b"
      using used [OF bi(1)] bi by (intro exI [of _ "BPB * j + bi"]) simp
    ultimately show ?thesis by (simp only: if_True) blast
  next
    case None
    have full: "block_used s b" if "BPB * j \<le> b" "b < BPB * Suc j" "b < ?n" for b
    proof -
      have "b - BPB * j < min BPB (?n - BPB * j)" using that by auto
      with None have "\<not> ?p (b - BPB * j)" unfolding find_from_None by auto
      with used [of "b - BPB * j"] that show ?thesis by auto
    qed
    obtain t where t: "balloc_loop (Suc k) (BPB * j) 1 s = balloc_loop k (BPB * Suc j) 1 t"
      "txn_inv st hs Map.empty t" "bcontent t = bcontent s" "txn_frame t = txn_frame s"
      using balloc_skip [OF Suc.prems(1) L(2) None, of k] by blast
    have sb: "sb t = sb s" using t(4) by (simp add: txn_frame_def)
    have ex: "(\<exists>b \<ge> BPB * j. b < ?n \<and> \<not> block_used s b) = (\<exists>b \<ge> BPB * Suc j. b < ?n \<and> \<not> block_used s b)"
      using full by (metis (full_types) le_add2 le_trans mult_Suc_right not_le_imp_less)
    have n: "unat (sb_size (sb t)) \<le> BPB * (Suc j + k)" using Suc.prems(4) sb by simp
    have lay: "layout_ok st t" using Suc.prems(3) layout_cong [OF t(3,4)] by simp
    have rounds: "BPB * (Suc j + i) < unat (sb_size (sb t))" if "i < k" for i
      using Suc.prems(5) [of "Suc i"] that sb by simp
    have low: "(\<forall>i. BPB * j \<le> i \<and> i < b \<longrightarrow> block_used s i) = (\<forall>i. BPB * Suc j \<le> i \<and> i < b \<longrightarrow> block_used s i)"
      if "allocated st hs s b u" for b u
    proof -
      have b: "b < ?n" using that by (simp add: allocated_def)
      have "block_used s i" if "\<forall>i. BPB * Suc j \<le> i \<and> i < b \<longrightarrow> block_used s i" "BPB * j \<le> i" "i < b" for i
        using full [of i] that b by (cases "i < BPB * Suc j") auto
      then show ?thesis by auto
    qed
    then have eq: "(R b u \<and> allocated st hs s b u \<and> (\<forall>i. BPB * j \<le> i \<and> i < b \<longrightarrow> block_used s i)) =
        (R b u \<and> allocated st hs s b u \<and> (\<forall>i. BPB * Suc j \<le> i \<and> i < b \<longrightarrow> block_used s i))" for R b u
      by blast
    from Suc.IH [OF t(2) Suc.prems(2) lay n rounds] show ?thesis
      unfolding t(1) ex sb block_used_cong [OF t(3,4)] allocated_cong [OF t(3,4)]
        eq [of "\<lambda>b u. balloc_loop k (BPB * Suc j) 1 t = Done (of_nat b) u"] .
  qed
qed

lemma div_round_up: "n \<le> BPB * ((n + BPB - 1) div BPB)" "i < (n + BPB - 1) div BPB \<Longrightarrow> BPB * i < n"
  by (auto simp: BPB_def)

lemma used_after_alloc:
  assumes "allocated st hs s b t" "layout_ok st s" "txn_inv st hs Map.empty s" "k < unat (sb_size (sb s))"
  shows "block_used t k \<longleftrightarrow> k = b \<or> block_used s k"
proof -
  have a: "b < unat (sb_size (sb s))" "\<not> block_used s b" "sb t = sb s"
    using assms(1) by (simp_all add: allocated_def txn_frame_def)
  note L = layout_okD [OF assms(2) a(1)]
  have ne: "bitmap_block (sb s) k \<noteq> b" using L(6) [OF a(2) assms(4)] by simp
  have len: "length (bcontent s (bitmap_block (sb s) b)) = 512" by (rule txn.len [OF assms(3) L(2)])
  have small: "b mod BPB div 8 < 512" by (simp add: BPB_def)
  have eq: "k = b \<longleftrightarrow> k div BPB = b div BPB \<and> k mod BPB = b mod BPB" by (metis div_mult_mod_eq)
  show ?thesis
  proof (cases "k div BPB = b div BPB")
    case True
    then show ?thesis
      using assms(1) a(3) ne bmap_bit_set [of "b mod BPB" "bcontent s (bitmap_block (sb s) b)" "k mod BPB"] len small eq
      by (auto simp: allocated_def block_used_def bitmap_block_def)
  next
    case False
    then show ?thesis using assms(1) a(3) ne eq by (auto simp: allocated_def block_used_def bitmap_block_def)
  qed
qed

text \<open>
  C21 (block allocation): inside a transaction \<^verbatim>\<open>balloc\<close> panics when every block of the file
  system is in use; otherwise it returns the free block with the smallest number, marks exactly this block used,
  fills it with zeros and changes no other block but the bitmap; all of it only in the cache and
  the log.
\<close>

theorem balloc_correct:
  assumes "txn_inv st hs Map.empty s" "length hs + 2 \<le> 28" "layout_ok st s"
  shows "if \<forall>k < unat (sb_size (sb s)). block_used s k then balloc 1 s = Panicked ''balloc: out of blocks''
    else \<exists>b t hs'. balloc 1 s = Done (of_nat b) t \<and> b < unat (sb_size (sb s)) \<and> \<not> block_used s b \<and> (\<forall>i < b. block_used s i) \<and>
      (\<forall>k < unat (sb_size (sb s)). block_used t k \<longleftrightarrow> k = b \<or> block_used s k) \<and>
      bcontent t b = replicate 512 0 \<and>
      (\<forall>k. k \<noteq> b \<and> k \<noteq> bitmap_block (sb s) b \<longrightarrow> bcontent t k = bcontent s k) \<and>
      txn_inv st hs' Map.empty t \<and> memdisk t = memdisk s \<and> inodes t = inodes s"
proof -
  let ?n = "unat (sb_size (sb s))"
  let ?k = "(?n + BPB - 1) div BPB"
  have run: "balloc 1 s = balloc_loop ?k (BPB * 0) 1 s" by (simp add: balloc_def kop_simps)
  note scan = balloc_scan [OF assms, of 0 ?k, unfolded add_0, OF div_round_up]
  show ?thesis
  proof (cases "\<forall>k < ?n. block_used s k")
    case True
    then have "\<not> (\<exists>b \<ge> BPB * 0. b < ?n \<and> \<not> block_used s b)" by auto
    with scan have "balloc 1 s = Panicked ''balloc: out of blocks''" unfolding run by (simp only: if_False)
    with True show ?thesis by simp
  next
    case False
    then have "\<exists>b \<ge> BPB * 0. b < ?n \<and> \<not> block_used s b" by auto
    with scan obtain b t where t: "balloc 1 s = Done (of_nat b) t" "allocated st hs s b t" "\<forall>i < b. block_used s i"
      unfolding run by (simp only: if_True mult_0_right le0 simp_thms) blast
    note u = used_after_alloc [OF t(2) assms(3,1)]
    have "bcontent t b = replicate 512 0"
      "\<forall>k. k \<noteq> b \<and> k \<noteq> bitmap_block (sb s) b \<longrightarrow> bcontent t k = bcontent s k"
      "txn_inv st (log_add b (log_add (bitmap_block (sb s) b) hs)) Map.empty t" "memdisk t = memdisk s" "inodes t = inodes s"
      "b < ?n" "\<not> block_used s b"
      using t(2) by (auto simp: allocated_def txn_frame_def)
    with t(1,3) u False show ?thesis by auto
  qed
qed

theorem balloc_correct_witness:
  "\<exists>t. balloc 1 demo_txn = Done 64 t \<and> block_used t 64 \<and> bcontent t 64 = replicate 512 0"
proof -
  have n: "unat (sb_size (sb demo_txn)) = 1000" by (simp add: demo_sb)
  have "\<exists>k < 1000. \<not> block_used demo_txn k" using demo_txn_used [of 64] by (intro exI [of _ 64]) simp
  then have "\<not> (\<forall>k < 1000. block_used demo_txn k)" by blast
  then obtain b t where "balloc 1 demo_txn = Done (of_nat b) t" "b < 1000" "\<not> block_used demo_txn b"
    "\<forall>i < b. block_used demo_txn i" "block_used t b" "bcontent t b = replicate 512 0"
    using balloc_correct [OF demo_txn_inv _ demo_layout, unfolded n] by (auto split: if_splits)
  moreover have "b = 64"
    using calculation(2-4) demo_txn_used [of b] demo_txn_used [of 64] by (cases "64 < b") auto
  ultimately show ?thesis by auto
qed

section \<open>Freeing\<close>

lemma txn_inv_sb [simp]: "txn_inv st hs H (s\<lparr>sb := x\<rparr>) = txn_inv st hs H s"
  by (simp add: txn_inv_def cache_inv_def no_sleeper_def log_ok_def dirty_blocks_def)

lemma bcontent_sb [simp]: "bcontent (s\<lparr>sb := x\<rparr>) = bcontent s"
  by (simp add: bcontent_def fun_eq_iff split: option.split)

text \<open>\<^verbatim>\<open>bfree\<close> reads the superblock again; here it is the one in memory.\<close>

lemma readsb_run:
  assumes "txn_inv st hs Map.empty s" "1 < disksize s"
  shows "\<exists>t. readsb 1 s = Done (decode_sb (bcontent s 1)) t \<and> txn_inv st hs Map.empty t \<and>
    bcontent t = bcontent s \<and> txn_frame t = txn_frame s"
  using txn.view [OF assms] by (auto simp: readsb_def kop_simps)

text \<open>
  C22 (freeing a block): \<^verbatim>\<open>bfree\<close> of a block in use marks exactly this block free and changes no block
  but the bitmap; freeing a block that is already free panics.
\<close>

theorem bfree_correct:
  assumes inv: "txn_inv st hs Map.empty s" "length hs < 28" "layout_ok st s" "1 < disksize s"
    and sbk: "decode_sb (bcontent s 1) = sb s" and b: "unat b < unat (sb_size (sb s))"
  shows "if \<not> block_used s (unat b) then bfree 1 b s = Panicked ''freeing free block''
    else \<exists>t hs'. bfree 1 b s = Done () t \<and>
      (\<forall>k < unat (sb_size (sb s)). block_used t k \<longleftrightarrow> k \<noteq> unat b \<and> block_used s k) \<and>
      (\<forall>k. k \<noteq> bitmap_block (sb s) (unat b) \<longrightarrow> bcontent t k = bcontent s k) \<and>
      txn_inv st hs' Map.empty t \<and> memdisk t = memdisk s \<and> inodes t = inodes s"
proof -
  let ?m = "bitmap_block (sb s) (unat b)" and ?i = "unat b mod BPB"
  note L = layout_okD [OF inv(3) b]
  obtain r where r: "readsb 1 s = Done (sb s) r" "txn_inv st hs Map.empty r" "bcontent r = bcontent s"
    "txn_frame r = txn_frame s"
    using readsb_run [OF inv(1,4)] sbk by auto
  have sbr: "r\<lparr>sb := sb s\<rparr> = r" using r(4) by (simp add: txn_frame_def)
  have ds: "disksize r = disksize s" using r(4) by (simp add: txn_frame_def)
  obtain p v where p: "bread 1 (of_nat ?m) r = Done p v" "bdata p v = Done (bcontent s ?m) v"
    using txn.view [OF r(2), of ?m] L(2) ds r(3) by auto
  have used: "bmap_bit (bcontent s ?m) ?i \<longleftrightarrow> block_used s (unat b)" by (simp add: block_used_def)
  show ?thesis
  proof (cases "block_used s (unat b)")
    case False
    then show ?thesis using r(1) sbr p used by (simp add: bfree_def kop_simps BBLOCK_eq Let_def)
  next
    case True
    have ok: "loggable st r ?m" using L(1) txn.frame(2) [OF r(4)] by simp
    obtain t where t: "block_update (?m, \<lambda>d. bmap_clear d ?i) r = Done () t" "txn_inv st (log_add ?m hs) Map.empty t"
      "bcontent t = (bcontent r)(?m := bmap_clear (bcontent r ?m) ?i)" "txn_frame t = txn_frame r"
      using txn_update [OF r(2) ok inv(2), of "\<lambda>d. bmap_clear d ?i"] by auto
    have "kseq (set_bdata p (bmap_clear (bcontent s ?m) ?i)) (kseq (log_write p) (brelse p)) v = Done () t"
      using t(1) p by (simp add: block_update_def kop_simps)
    then have run: "bfree 1 b s = Done () t"
      using r(1) sbr p used True by (simp add: bfree_def kop_simps BBLOCK_eq Let_def)
    have f: "sb t = sb s" "memdisk t = memdisk s" "inodes t = inodes s"
      using t(4) r(4) by (simp_all add: txn_frame_def)
    have len: "length (bcontent s ?m) = 512" by (rule txn.len [OF inv(1) L(2)])
    have small: "?i div 8 < 512" by (simp add: BPB_def)
    have "block_used t k \<longleftrightarrow> k \<noteq> unat b \<and> block_used s k" for k
    proof -
      have "k = unat b \<longleftrightarrow> k div BPB = unat b div BPB \<and> k mod BPB = ?i" by (metis div_mult_mod_eq)
      then show ?thesis
        using f(1) t(3) r(3) bmap_bit_clear [of ?i "bcontent s ?m" "k mod BPB"] len small
        by (cases "k div BPB = unat b div BPB") (auto simp: block_used_def bitmap_block_def)
    qed
    with run t r f True show ?thesis by auto
  qed
qed

theorem bfree_correct_witness:
  "(\<exists>t. bfree 1 40 demo_txn = Done () t \<and> \<not> block_used t 40) \<and>
   bfree 1 70 demo_txn = Panicked ''freeing free block''"
proof -
  have n: "unat (sb_size (sb demo_txn)) = 1000" "1 < disksize demo_txn" "decode_sb (bcontent demo_txn 1) = sb demo_txn"
    by (simp_all add: demo_sb demo_superblock)
  note F = bfree_correct [OF demo_txn_inv _ demo_layout n(2,3)]
  show ?thesis
    using F [of 40] F [of 70] n(1) demo_txn_used [of 40] demo_txn_used [of 70] by auto
qed

end
