(* ===== verification/File_Data.thy ===== *)
theory File_Data
  imports Block_Alloc
begin

unbundle bit_operations_syntax

text \<open>
  The contents of files: the block map, \<^verbatim>\<open>readi\<close> and \<^verbatim>\<open>writei\<close> against the bytes a file consists of,
  the formats of inodes and directory entries, and the splitting of path names.
\<close>

section \<open>Looking at blocks\<close>

text \<open>Two states in which readers see the same and the log is the same; only the buffers may differ.\<close>

definition same_view :: "'a fs_state_scheme \<Rightarrow> 'a fs_state_scheme \<Rightarrow> bool" where
  "same_view s t \<longleftrightarrow> cache_inv Map.empty t \<and> bcontent t = bcontent s \<and> memdisk t = memdisk s \<and>
     dwrites t = dwrites s \<and> bframe t = bframe s \<and> disksize t = disksize s \<and> dirty_blocks t = dirty_blocks s"

lemma same_view_refl: "cache_inv Map.empty s \<Longrightarrow> same_view s s"
  by (simp add: same_view_def)

lemma same_view_trans: "same_view s t \<Longrightarrow> same_view t u \<Longrightarrow> same_view s u"
  by (simp add: same_view_def)

lemma same_viewD:
  assumes "same_view s t"
  shows "cache_inv Map.empty t" "bcontent t = bcontent s" "inodes t = inodes s" "disksize t = disksize s" "sb t = sb s"
    "klog t = klog s" "ptable t = ptable s" "memdisk t = memdisk s"
  using assms by (simp_all add: same_view_def bframe_def)

lemma same_view_txn: "txn_inv st hs Map.empty s \<Longrightarrow> same_view s t \<Longrightarrow> txn_inv st hs Map.empty t \<and> txn_frame t = txn_frame s"
  by (auto simp: txn_inv_def same_view_def bframe_def log_ok_def txn_frame_def)

lemma cache_peek:
  assumes "cache_inv Map.empty s" "k < disksize s"
  shows "\<exists>b t u. bread 1 (of_nat k) s = Done b t \<and> bdata b t = Done (bcontent s k) t \<and> brelse b t = Done () u \<and>
    same_view s u"
proof -
  obtain b t where t: "bread 1 (of_nat k) s = Done b t" "cache_inv [b \<mapsto> k] t" "bcontent t = bcontent s"
    "memdisk t = memdisk s" "dwrites t = dwrites s" "bframe t = bframe s" "disksize t = disksize s"
    "dirty_blocks t = dirty_blocks s"
    using cache_rd_hit [OF assms] cache_rd_miss [OF assms]
    by (cases "find (\<lambda>b. b_dev (bufs s ! b) = 1 \<and> b_blockno (bufs s ! b) = of_nat k) (bhead s)") fastforce+
  have d: "bdata b t = Done (bcontent s k) t" using bcache.dat [OF t(2), of b k] t(3) by simp
  have "[b \<mapsto> k](b := None) = Map.empty" by simp
  with cache_rl [OF t(2), of b k] obtain u where "brelse b t = Done () u" "same_view s u"
    using t by (auto simp: same_view_def)
  with t(1) d show ?thesis by blast
qed

section \<open>The bytes of a file\<close>

text \<open>The \<open>n\<close>-th block of a file, given what readers see of the blocks.\<close>

definition fblock :: "(nat \<Rightarrow> byte list) \<Rightarrow> inode \<Rightarrow> nat \<Rightarrow> u32" where
  "fblock c i n = (if n < NDIRECT then i_addrs i ! n else get32 (c (unat (i_addrs i ! NDIRECT))) (4 * (n - NDIRECT)))"

definition mapped :: "nat \<Rightarrow> (nat \<Rightarrow> byte list) \<Rightarrow> inode \<Rightarrow> nat \<Rightarrow> bool" where
  "mapped ds c i N \<longleftrightarrow> i_dev i = 1 \<and> N \<le> MAXFILE \<and> length (i_addrs i) = NDIRECT + 1 \<and>
     (\<forall>n < N. fblock c i n \<noteq> 0 \<and> unat (fblock c i n) < ds) \<and>
     (NDIRECT < N \<longrightarrow> i_addrs i ! NDIRECT \<noteq> 0 \<and> unat (i_addrs i ! NDIRECT) < ds)"

definition file_bytes :: "(nat \<Rightarrow> byte list) \<Rightarrow> inode \<Rightarrow> nat \<Rightarrow> byte list" where
  "file_bytes c i N = concat (map (\<lambda>n. c (unat (fblock c i n))) [0..<N])"

lemma bmap_mapped:
  assumes inv: "cache_inv Map.empty s" and m: "mapped (disksize s) (bcontent s) (inodes s ! ip) N" and n: "n < N"
  shows "\<exists>t. bmap ip n s = Done (fblock (bcontent s) (inodes s ! ip) n) t \<and> same_view s t"
proof (cases "n < NDIRECT")
  case True
  then show ?thesis
    using m n same_view_refl [OF inv] by (auto simp: bmap_def inode_field_def kop_simps mapped_def fblock_def)
next
  case False
  let ?i = "inodes s ! ip"
  have i: "i_dev ?i = 1" "i_addrs ?i ! NDIRECT \<noteq> 0" "unat (i_addrs ?i ! NDIRECT) < disksize s" "n - NDIRECT < NINDIRECT"
    "get32 (bcontent s (unat (i_addrs ?i ! NDIRECT))) (4 * (n - NDIRECT)) \<noteq> 0"
    using m n False by (auto simp: mapped_def fblock_def MAXFILE_def)
  obtain b t u where r: "bread 1 (i_addrs ?i ! NDIRECT) s = Done b t"
    "bdata b t = Done (bcontent s (unat (i_addrs ?i ! NDIRECT))) t" "brelse b t = Done () u" "same_view s u"
    using cache_peek [OF inv i(3)] by auto
  then show ?thesis
    using False i by (auto simp: bmap_def inode_field_def kop_simps fblock_def Let_def)
qed

text \<open>Slices of a sequence of equally long blocks.\<close>

lemma length_concat_blocks:
  "(\<And>n. n < N \<Longrightarrow> length (f n) = 512) \<Longrightarrow> length (concat (map f [0..<N])) = 512 * N"
  by (induction N) simp_all

lemma concat_split:
  "n < N \<Longrightarrow> concat (map f [0..<N]) = concat (map f [0..<n]) @ f n @ concat (map f [Suc n..<N])"
proof -
  assume "n < N"
  then have "[0..<N] = [0..<n] @ n # [Suc n..<N]"
    by (metis le_add_diff_inverse less_imp_le upt_add_eq_append upt_conv_Cons zero_le)
  then show ?thesis by simp
qed

lemma slice_concat:
  assumes len: "\<And>n. n < N \<Longrightarrow> length (f n) = 512" and n: "off div 512 < N" and m: "m \<le> 512 - off mod 512"
  shows "slice (concat (map f [0..<N])) off m = slice (f (off div 512)) (off mod 512) m"
proof -
  let ?n = "off div 512"
  have l: "length (concat (map f [0..<?n])) = 512 * ?n" by (rule length_concat_blocks) (use len n in simp)
  have o: "off = 512 * ?n + off mod 512" by simp
  have ln: "length (f ?n) = 512" by (rule len [OF n])
  have "drop off (concat (map f [0..<?n]) @ f ?n @ concat (map f [Suc ?n..<N])) =
        drop (off mod 512) (f ?n) @ concat (map f [Suc ?n..<N])"
    using l ln by (simp add: minus_mult_div_eq_mod)
  then show ?thesis
    using m ln concat_split [OF n, of f] by (simp add: slice_def)
qed

lemma slice_add: "slice xs off (a + b) = slice xs off a @ slice xs (off + a) b"
  by (simp add: slice_def take_add add.commute)

section \<open>Reading\<close>

lemma readi_loop_run:
  assumes "cache_inv Map.empty s" "mapped (disksize s) (bcontent s) (inodes s ! ip) N" "off + left \<le> 512 * N" "left \<le> k"
  shows "\<exists>t. readi_loop k ip off left acc s = Done (acc @ slice (file_bytes (bcontent s) (inodes s ! ip) N) off left) t \<and>
    same_view s t"
  using assms
proof (induction k arbitrary: off left acc s)
  case 0
  then show ?case using same_view_refl by (auto simp: kop_simps slice_def)
next
  case (Suc k)
  let ?i = "inodes s ! ip"
  show ?case
  proof (cases "left = 0")
    case True
    then show ?thesis using same_view_refl [OF Suc.prems(1)] by (auto simp: kop_simps slice_def)
  next
    case False
    let ?n = "off div BSIZE" and ?m = "min left (BSIZE - off mod BSIZE)"
    have n: "?n < N" using Suc.prems(3) False by (simp add: BSIZE_def less_mult_imp_div_less mult.commute)
    have m: "0 < ?m" "?m \<le> left" using False by (simp_all add: BSIZE_def)
    then have mk: "left - ?m \<le> k" "off + ?m + (left - ?m) \<le> 512 * N" using Suc.prems(3,4) by linarith+
    let ?a = "fblock (bcontent s) ?i ?n"
    have a: "unat ?a < disksize s" "i_dev ?i = 1" using Suc.prems(2) n by (auto simp: mapped_def)
    obtain t where t: "bmap ip ?n s = Done ?a t" "same_view s t" using bmap_mapped [OF Suc.prems(1,2) n] by blast
    note T = same_viewD [OF t(2)]
    obtain b u v where r: "bread 1 ?a t = Done b u" "bdata b u = Done (bcontent s (unat ?a)) u" "brelse b u = Done () v"
      "same_view t v" using cache_peek [OF T(1), of "unat ?a"] a T by auto
    have sv: "same_view s v" by (rule same_view_trans [OF t(2) r(4)])
    note V = same_viewD [OF sv]
    let ?acc = "acc @ slice (bcontent s (unat ?a)) (off mod BSIZE) ?m"
    obtain w where w: "readi_loop k ip (off + ?m) (left - ?m) ?acc v =
        Done (?acc @ slice (file_bytes (bcontent s) ?i N) (off + ?m) (left - ?m)) w" "same_view v w"
      using Suc.IH [OF V(1) _ mk(2,1), of ?acc] Suc.prems(2) V by auto
    have len: "length (bcontent s (unat (fblock (bcontent s) ?i j))) = 512" if "j < N" for j
      using Suc.prems(2) that by (intro bcontent_len [OF Suc.prems(1)]) (auto simp: mapped_def)
    have "slice (file_bytes (bcontent s) ?i N) off ?m = slice (bcontent s (unat ?a)) (off mod BSIZE) ?m"
      unfolding file_bytes_def BSIZE_def by (rule slice_concat [OF len]) (use n in \<open>simp_all add: BSIZE_def\<close>)
    then have "?acc @ slice (file_bytes (bcontent s) ?i N) (off + ?m) (left - ?m) =
        acc @ slice (file_bytes (bcontent s) ?i N) off left"
      using slice_add [of "file_bytes (bcontent s) ?i N" off ?m "left - ?m"] m(2) by simp
    moreover have "readi_loop (Suc k) ip off left acc s = readi_loop k ip (off + ?m) (left - ?m) ?acc v"
      using False t(1) r a by (simp add: kop_simps inode_field_def Let_def)
    ultimately show ?thesis using w same_view_trans [OF sv w(2)] by auto
  qed
qed

lemma readi_run:
  assumes inv: "cache_inv Map.empty s" and i: "i = inodes s ! ip" "i_type i \<noteq> T_DEV"
    and m: "mapped (disksize s) (bcontent s) i N" "unat (i_size i) \<le> 512 * N"
  shows "if off > i_size i \<or> off + n < off then readi ip off n s = Done (-1, []) s
    else \<exists>t. let k = min (unat n) (unat (i_size i) - unat off) in
      readi ip off n s = Done (int k, slice (file_bytes (bcontent s) i N) (unat off) k) t \<and> same_view s t"
proof (cases "off > i_size i \<or> off + n < off")
  case True
  then show ?thesis using i by (simp add: readi_def inode_field_def kop_simps)
next
  case False
  let ?n = "if off + n > i_size i then i_size i - off else n"
  let ?k = "min (unat n) (unat (i_size i) - unat off)"
  have nw: "unat (off + n) = unat off + unat n" using False by (auto simp: unat_plus_simple not_less)
  have le: "unat off \<le> unat (i_size i)" using False by (simp add: word_le_nat_alt not_less)
  have k: "unat ?n = ?k"
    using nw le by (auto simp: word_less_nat_alt unat_sub word_le_nat_alt)
  have "unat (i_size i) \<le> 71680" using m by (auto simp: mapped_def MAXFILE_def NDIRECT_def NINDIRECT_def)
  then have small: "unat ?n < 2 ^ 31" unfolding k by simp
  then have sn: "sint ?n = int ?k" using sint_unat_small [OF small] k by simp
  have "unat off + ?k \<le> 512 * N" using m(2) le by linarith
  from readi_loop_run [OF inv, of ip N "unat off" ?k ?k "[]"] this m(1) i(1) obtain t where
    "readi_loop ?k ip (unat off) ?k [] s = Done (slice (file_bytes (bcontent s) i N) (unat off) ?k) t" "same_view s t"
    by auto
  then show ?thesis
    using False i k sn by (auto simp: readi_def inode_field_def kop_simps Let_def)
qed

text \<open>
  C6 (reading a file): on a file whose blocks are all allocated, \<^verbatim>\<open>readi\<close> returns exactly the bytes of
  the file from the offset on, as many as were asked for or as the file has, and changes nothing
  a reader can see; an offset behind the end, or a length that wraps around, gives -1.
\<close>

theorem readi_correct:
  assumes inv: "cache_inv Map.empty s" and i: "i = inodes s ! ip" "i_type i \<noteq> T_DEV"
    and m: "mapped (disksize s) (bcontent s) i N" "unat (i_size i) \<le> 512 * N"
  shows "if off > i_size i \<or> off + n < off then readi ip off n s = Done (-1, []) s
    else \<exists>t. let k = min (unat n) (unat (i_size i) - unat off) in
      readi ip off n s = Done (int k, slice (file_bytes (bcontent s) i N) (unat off) k) t \<and> same_view s t"
  by (rule readi_run [OF assms])

section \<open>Writing\<close>

lemma splice_append:
  assumes "off + length xs + length ys \<le> length bs"
  shows "splice (splice bs off xs) (off + length xs) ys = splice bs off (xs @ ys)"
proof -
  have "off \<le> length bs" using assms by simp
  then show ?thesis using assms by (simp add: splice_def add.commute add.left_commute min_absorb2)
qed

lemma splice_middle: "r + length xs \<le> length b \<Longrightarrow> splice (a @ b @ c) (length a + r) xs = a @ splice b r xs @ c"
  by (simp add: splice_def)

definition own_blocks :: "(nat \<Rightarrow> byte list) \<Rightarrow> inode \<Rightarrow> nat \<Rightarrow> nat list" where
  "own_blocks c i N = map (\<lambda>n. unat (fblock c i n)) [0..<N]"

lemma own_blocks_cong:
  assumes "\<And>n. n < N \<Longrightarrow> fblock c' i' n = fblock c i n"
  shows "own_blocks c' i' N = own_blocks c i N"
  using assms by (simp add: own_blocks_def)

lemma file_bytes_cong:
  assumes "\<And>n. n < N \<Longrightarrow> fblock c' i' n = fblock c i n" "\<And>k. k \<in> set (own_blocks c i N) \<Longrightarrow> c' k = c k"
  shows "file_bytes c' i' N = file_bytes c i N"
  using assms unfolding file_bytes_def own_blocks_def by (intro arg_cong [where f = concat] map_cong) auto

text \<open>A file whose blocks exist, may be logged, are all different and are not its indirect block.\<close>

definition file_ok :: "nat \<Rightarrow> 'a fs_state_scheme \<Rightarrow> inode \<Rightarrow> nat \<Rightarrow> bool" where
  "file_ok st s i N \<longleftrightarrow> mapped (disksize s) (bcontent s) i N \<and> distinct (own_blocks (bcontent s) i N) \<and>
     (\<forall>k \<in> set (own_blocks (bcontent s) i N). loggable st s k) \<and>
     (NDIRECT < N \<longrightarrow> unat (i_addrs i ! NDIRECT) \<notin> set (own_blocks (bcontent s) i N))"

text \<open>Changing one data block of a file keeps the block map and splices the bytes of the file.\<close>

lemma fblock_upd:
  assumes "NDIRECT < N \<longrightarrow> unat (i_addrs i ! NDIRECT) \<notin> set (own_blocks c i N)" "n < N" "j < N"
  shows "fblock (c(unat (fblock c i n) := d)) i j = fblock c i j"
proof -
  have "unat (fblock c i n) \<in> set (own_blocks c i N)" using assms(2) by (simp add: own_blocks_def)
  with assms show ?thesis by (auto simp: fblock_def)
qed

lemma file_bytes_upd:
  assumes len: "\<And>j. j < N \<Longrightarrow> length (c (unat (fblock c i j))) = 512"
    and ex: "NDIRECT < N \<longrightarrow> unat (i_addrs i ! NDIRECT) \<notin> set (own_blocks c i N)" "distinct (own_blocks c i N)"
    and n: "n < N" and r: "r + length xs \<le> 512" and k: "k = unat (fblock c i n)"
  shows "file_bytes (c(k := splice (c k) r xs)) i N = splice (file_bytes c i N) (512 * n + r) xs"
proof -
  let ?c = "c(k := splice (c k) r xs)" and ?f = "\<lambda>j. c (unat (fblock c i j))"
  have f: "?c (unat (fblock ?c i j)) = (if j = n then splice (?f n) r xs else ?f j)" if j: "j < N" for j
  proof -
    have "unat (fblock c i j) = unat (fblock c i n) \<longleftrightarrow> j = n"
      using ex(2) j n by (auto simp: own_blocks_def distinct_conv_nth)
    then show ?thesis using fblock_upd [OF ex(1) n j] by (simp add: k)
  qed
  define g where "g = (\<lambda>j. ?c (unat (fblock ?c i j)))"
  have g: "g j = (if j = n then splice (?f n) r xs else ?f j)" if "j < N" for j using f [OF that] by (simp only: g_def)
  have "file_bytes ?c i N = concat (map g [0..<N])" by (simp only: file_bytes_def g_def)
  also have "\<dots> = concat (map g [0..<n]) @ g n @ concat (map g [Suc n..<N])" by (rule concat_split [OF n])
  also have "\<dots> = concat (map ?f [0..<n]) @ splice (?f n) r xs @ concat (map ?f [Suc n..<N])"
  proof -
    have "map g [0..<n] = map ?f [0..<n]" "map g [Suc n..<N] = map ?f [Suc n..<N]" "g n = splice (?f n) r xs"
      using g n by auto
    then show ?thesis by (simp only:)
  qed
  also have "\<dots> = splice (concat (map ?f [0..<n]) @ ?f n @ concat (map ?f [Suc n..<N])) (length (concat (map ?f [0..<n])) + r) xs"
    by (rule splice_middle [symmetric]) (use r len [OF n] in simp)
  also have "length (concat (map ?f [0..<n])) = 512 * n" by (rule length_concat_blocks) (use len n in simp)
  also have "concat (map ?f [0..<n]) @ ?f n @ concat (map ?f [Suc n..<N]) = file_bytes c i N"
    unfolding file_bytes_def by (rule concat_split [OF n, symmetric])
  finally show ?thesis .
qed

lemma file_ok_upd:
  assumes "file_ok st s i N" "n < N" "txn_frame t = txn_frame s"
    "bcontent t = (bcontent s)(unat (fblock (bcontent s) i n) := d)"
  shows "file_ok st t i N" "own_blocks (bcontent t) i N = own_blocks (bcontent s) i N"
proof -
  have ex: "NDIRECT < N \<longrightarrow> unat (i_addrs i ! NDIRECT) \<notin> set (own_blocks (bcontent s) i N)"
    using assms(1) by (simp add: file_ok_def)
  have f: "fblock (bcontent t) i j = fblock (bcontent s) i j" if "j < N" for j
    using fblock_upd [OF ex assms(2) that] by (simp add: assms(4))
  then show o: "own_blocks (bcontent t) i N = own_blocks (bcontent s) i N" by (simp add: own_blocks_def)
  show "file_ok st t i N"
    using assms(1,3) f o by (auto simp: file_ok_def mapped_def txn_frame_def loggable_def)
qed

text \<open>The blocks a write of \<open>n\<close> bytes at offset \<open>off\<close> touches.\<close>

definition blocks_touched :: "nat \<Rightarrow> nat \<Rightarrow> nat" where
  "blocks_touched off n = (if n = 0 then 0 else (off mod BSIZE + n + BSIZE - 1) div BSIZE)"

lemma blocks_touched_step:
  assumes "0 < n" and "m = min n (BSIZE - off mod BSIZE)"
  shows "blocks_touched off n = Suc (blocks_touched (off + m) (n - m))"
proof (cases "n \<le> BSIZE - off mod BSIZE")
  case True
  have "off mod BSIZE < BSIZE" by (simp add: BSIZE_def)
  with True assms have "(off mod BSIZE + n + BSIZE - 1) div BSIZE = 1"
    by (intro div_nat_eqI) auto
  with True assms show ?thesis by (simp add: blocks_touched_def)
next
  case False
  have lt: "off mod BSIZE < BSIZE" by (simp add: BSIZE_def)
  have m: "m = BSIZE - off mod BSIZE" using False assms by simp
  have "off mod BSIZE + m = BSIZE" using m lt by simp
  then have al: "(off + m) mod BSIZE = 0" by (metis mod_add_left_eq mod_self)
  have "off mod BSIZE + n + BSIZE - 1 = (n - m + BSIZE - 1) + BSIZE" using False m lt by auto
  moreover have "((n - m + BSIZE - 1) + BSIZE) div BSIZE = Suc ((n - m + BSIZE - 1) div BSIZE)" by (simp add: BSIZE_def)
  moreover have "n - m \<noteq> 0" "n \<noteq> 0" using False m by auto
  ultimately show ?thesis using al unfolding blocks_touched_def by (simp only: if_False add_0)
qed

lemma kbuf_splice:
  "kbind (bread 1 (of_nat k)) (\<lambda>b. kseq (kbuf b (\<lambda>bp. bp\<lparr>b_data := splice (b_data bp) r xs\<rparr>)) (kseq (log_write b) (brelse b))) =
   block_update (k, \<lambda>d. splice d r xs)"
  by (rule ext) (simp add: block_update_def bdata_def bget_field_def set_bdata_def upd_buf_def kop_simps split: outcome.split)

lemma writei_loop_run:
  assumes "txn_inv st hs Map.empty s" "file_ok st s (inodes s ! ip) N" "off + length src \<le> 512 * N" "length src \<le> k"
    and "length hs + blocks_touched off (length src) \<le> 28"
  shows "\<exists>t hs'. writei_loop k ip off src s = Done () t \<and> txn_inv st hs' Map.empty t \<and> txn_frame t = txn_frame s \<and>
    file_ok st t (inodes s ! ip) N \<and>
    file_bytes (bcontent t) (inodes s ! ip) N = splice (file_bytes (bcontent s) (inodes s ! ip) N) off src \<and>
    (\<forall>k. k \<notin> set (own_blocks (bcontent s) (inodes s ! ip) N) \<longrightarrow> bcontent t k = bcontent s k) \<and>
    length hs' \<le> length hs + blocks_touched off (length src)"
  using assms
proof (induction k arbitrary: off src s hs)
  case 0
  then show ?case by (auto simp: kop_simps splice_def)
next
  case (Suc k)
  let ?i = "inodes s ! ip"
  show ?case
  proof (cases "src = []")
    case True
    then show ?thesis using Suc.prems(1,2) by (auto simp: kop_simps splice_def)
  next
    case False
    let ?n = "off div BSIZE" and ?r = "off mod BSIZE" and ?m = "min (length src) (BSIZE - off mod BSIZE)"
    let ?a = "fblock (bcontent s) ?i ?n" and ?F = "file_bytes (bcontent s) ?i N"
    have "0 < length src" using False by simp
    then have "off < N * 512" using Suc.prems(3) by linarith
    then have n: "?n < N" by (simp add: BSIZE_def less_mult_imp_div_less)
    have r: "?r < 512" by (simp add: BSIZE_def)
    have m: "0 < ?m" "?m \<le> length src" "?r + ?m \<le> 512" using False r by (auto simp: BSIZE_def)
    note fo = Suc.prems(2) [unfolded file_ok_def]
    have mp: "mapped (disksize s) (bcontent s) ?i N" using fo by simp
    have ci: "cache_inv Map.empty s" using Suc.prems(1) by (simp add: txn_inv_def)
    have a: "unat ?a < disksize s" "i_dev ?i = 1" using mp n by (auto simp: mapped_def)
    have la: "loggable st s (unat ?a)" using fo n by (auto simp: own_blocks_def)
    have len: "length (bcontent s (unat (fblock (bcontent s) ?i j))) = 512" if "j < N" for j
      using mp that by (intro bcontent_len [OF ci]) (auto simp: mapped_def)
    obtain t where t: "bmap ip ?n s = Done ?a t" "same_view s t" using bmap_mapped [OF ci mp n] by blast
    note T = same_viewD [OF t(2)]
    have ti: "txn_inv st hs Map.empty t" "txn_frame t = txn_frame s" using same_view_txn [OF Suc.prems(1) t(2)] by auto
    have step: "blocks_touched off (length src) = Suc (blocks_touched (off + ?m) (length src - ?m))"
      by (rule blocks_touched_step) (use False in simp_all)
    have room: "length hs < 28" using Suc.prems(5) step by simp
    obtain u where u: "block_update (unat ?a, \<lambda>d. splice d ?r (take ?m src)) t = Done () u"
      "txn_inv st (log_add (unat ?a) hs) Map.empty u"
      "bcontent u = (bcontent s)(unat ?a := splice (bcontent s (unat ?a)) ?r (take ?m src))" "txn_frame u = txn_frame t"
      using txn_update [OF ti(1) _ room, of "unat ?a" "\<lambda>d. splice d ?r (take ?m src)"] la m(3) T by (auto simp: loggable_def)
    have fu: "txn_frame u = txn_frame s" using u(4) ti(2) by simp
    then have ui: "inodes u = inodes s" by (simp add: txn_frame_def)
    note F = file_ok_upd [OF Suc.prems(2) n fu u(3)]
    have bytes: "file_bytes (bcontent u) ?i N = splice ?F off (take ?m src)"
      using file_bytes_upd [where c = "bcontent s" and i = ?i and N = N and n = ?n and r = ?r and xs = "take ?m src" and k = "unat ?a"]
        len fo n m(3) u(3) by (simp add: BSIZE_def)
    have p: "off + ?m + length (drop ?m src) \<le> 512 * N" "length (drop ?m src) \<le> k"
      using Suc.prems(3,4) m by auto
    have h: "length (log_add (unat ?a) hs) + blocks_touched (off + ?m) (length (drop ?m src)) \<le> 28"
      using length_log_add(1) [of "unat ?a" hs] Suc.prems(5) step by simp
    obtain w hs' where w: "writei_loop k ip (off + ?m) (drop ?m src) u = Done () w" "txn_inv st hs' Map.empty w"
      "txn_frame w = txn_frame u" "file_ok st w ?i N"
      "file_bytes (bcontent w) ?i N = splice (file_bytes (bcontent u) ?i N) (off + ?m) (drop ?m src)"
      "\<forall>k. k \<notin> set (own_blocks (bcontent u) ?i N) \<longrightarrow> bcontent w k = bcontent u k"
      "length hs' \<le> length (log_add (unat ?a) hs) + blocks_touched (off + ?m) (length (drop ?m src))"
      using Suc.IH [OF u(2) _ p h] F(1) ui by auto
    have lenF: "length ?F = 512 * N" unfolding file_bytes_def by (rule length_concat_blocks [OF len])
    have "splice (file_bytes (bcontent u) ?i N) (off + ?m) (drop ?m src) = splice ?F off src"
      unfolding bytes using splice_append [of off "take ?m src" "drop ?m src" ?F] lenF Suc.prems(3) m by simp
    moreover have "bcontent w j = bcontent s j" if "j \<notin> set (own_blocks (bcontent s) ?i N)" for j
    proof -
      have "unat ?a \<in> set (own_blocks (bcontent s) ?i N)" using n by (simp add: own_blocks_def)
      then show ?thesis using w(6) that F(2) u(3) by auto
    qed
    moreover have "writei_loop (Suc k) ip off src s = writei_loop k ip (off + ?m) (drop ?m src) u"
    proof -
      have "kbind (bread 1 ?a) (\<lambda>b. kseq (kbuf b (\<lambda>bp. bp\<lparr>b_data := splice (b_data bp) ?r (take ?m src)\<rparr>))
          (kseq (log_write b) (brelse b))) t = Done () u"
        using u(1) unfolding kbuf_splice [symmetric] by simp
      then obtain b t1 t2 where "bread 1 ?a t = Done b t1"
        "log_write b (upd_buf b (\<lambda>bp. bp\<lparr>b_data := splice (b_data bp) ?r (take ?m src)\<rparr>) t1) = Done () t2"
        "brelse b t2 = Done () u"
        by (auto simp: kop_simps split: outcome.splits)
      then show ?thesis using False t(1) a by (simp add: kop_simps inode_field_def Let_def)
    qed
    moreover have "length hs' \<le> length hs + blocks_touched off (length src)"
      using w(7) length_log_add(1) [of "unat ?a" hs] step by simp
    ultimately show ?thesis using w(1-5) fu by (intro exI [of _ w] exI [of _ hs']) auto
  qed
qed

lemma txn_inv_inodes [simp]: "txn_inv st hs H (s\<lparr>inodes := x\<rparr>) = txn_inv st hs H s"
  by (simp add: txn_inv_def cache_inv_def no_sleeper_def log_ok_def dirty_blocks_def)

lemma bcontent_inodes [simp]: "bcontent (s\<lparr>inodes := x\<rparr>) = bcontent s"
  by (simp add: bcontent_def fun_eq_iff split: option.split)

lemma upd_inode_simps [simp]:
  "bcontent (upd_inode ip f s) = bcontent s" "memdisk (upd_inode ip f s) = memdisk s" "disksize (upd_inode ip f s) = disksize s"
  "sb (upd_inode ip f s) = sb s" "txn_inv st hs H (upd_inode ip f s) = txn_inv st hs H s"
  "inodes (upd_inode ip f s) = (inodes s)[ip := f (inodes s ! ip)]"
  by (simp_all add: upd_inode_def)

lemma length_words [simp]: "length (concat (map bytes_of32 ws)) = 4 * length ws"
  by (induction ws) simp_all

lemma iupdate_run:
  assumes "txn_inv st hs Map.empty s" "i = inodes s ! ip" "i_dev i = 1" "length (i_addrs i) = NDIRECT + 1"
    and b: "b = unat (IBLOCK (i_inum i) (sb s))" "loggable st s b" and "length hs < 28"
  shows "\<exists>t. iupdate ip s = Done () t \<and> txn_inv st (log_add b hs) Map.empty t \<and> txn_frame t = txn_frame s \<and>
    bcontent t = (bcontent s)(b := splice (bcontent s b) (dinode_off (i_inum i)) (encode_dinode i))"
proof -
  let ?f = "\<lambda>d. splice d (dinode_off (i_inum i)) (encode_dinode i)"
  have "dinode_off (i_inum i) + length (encode_dinode i) \<le> 512"
    using assms(4) mod_less_divisor [of IPB "unat (i_inum i)"] by (simp add: dinode_off_def encode_dinode_def NDIRECT_def IPB_def BSIZE_def)
  then have l: "length (?f d) = 512" if "length d = 512" for d using that by simp
  from txn_update [OF assms(1) b(2) assms(7), of ?f] l obtain t where
    t: "block_update (b, ?f) s = Done () t" "txn_inv st (log_add b hs) Map.empty t" "bcontent t = (bcontent s)(b := ?f (bcontent s b))"
      "txn_frame t = txn_frame s" by blast
  have "iupdate ip s = block_update (b, ?f) s"
    using assms(2,3) b(1) by (simp add: iupdate_def block_update_def inode_field_def kop_simps)
  then show ?thesis using t by auto
qed

text \<open>\<^verbatim>\<open>writei\<close> within the blocks of a file, also behind its end; then the inode is written back.\<close>

definition inode_apart :: "nat \<Rightarrow> 'a fs_state_scheme \<Rightarrow> inode \<Rightarrow> nat \<Rightarrow> bool" where
  "inode_apart st s i N \<longleftrightarrow> (let b = unat (IBLOCK (i_inum i) (sb s)) in
     loggable st s b \<and> b \<notin> set (own_blocks (bcontent s) i N) \<and> (NDIRECT < N \<longrightarrow> b \<noteq> unat (i_addrs i ! NDIRECT)))"

lemma file_grown:
  assumes f: "file_ok st s i N" and t: "bcontent t = (bcontent s)(b := d)" "disksize t = disksize s"
    and b: "b \<notin> set (own_blocks (bcontent s) i N)" "NDIRECT < N \<longrightarrow> b \<noteq> unat (i_addrs i ! NDIRECT)"
  shows "file_ok st t (i\<lparr>i_size := sz\<rparr>) N" "file_bytes (bcontent t) (i\<lparr>i_size := sz\<rparr>) N = file_bytes (bcontent s) i N"
proof -
  let ?i = "i\<lparr>i_size := sz\<rparr>"
  have fb: "fblock (bcontent t) ?i n = fblock (bcontent s) i n" if "n < N" for n
    using that b(2) by (auto simp: fblock_def t)
  then have o: "own_blocks (bcontent t) ?i N = own_blocks (bcontent s) i N" by (rule own_blocks_cong)
  show "file_ok st t ?i N" using f fb o t(2) by (simp add: file_ok_def mapped_def loggable_def)
  show "file_bytes (bcontent t) ?i N = file_bytes (bcontent s) i N"
    using fb b(1) t(1) by (intro file_bytes_cong) auto
qed

lemma writei_run:
  assumes inv: "txn_inv st hs Map.empty s" and i: "i = inodes s ! ip" "ip < length (inodes s)" "i_type i \<noteq> T_DEV"
    and f: "file_ok st s i N" and off: "unat off \<le> unat (i_size i)" "src \<noteq> []" "unat off + length src \<le> 512 * N"
    and room: "length hs + blocks_touched (unat off) (length src) < 28"
    and apart: "unat (i_size i) < unat off + length src \<longrightarrow> inode_apart st s i N"
    and i': "i' = i\<lparr>i_size := if unat (i_size i) < unat off + length src then off + of_nat (length src) else i_size i\<rparr>"
  shows "\<exists>t hs'. writei ip src off s = Done (int (length src)) t \<and> txn_inv st hs' Map.empty t \<and>
    memdisk t = memdisk s \<and> disksize t = disksize s \<and> inodes t = (inodes s)[ip := i'] \<and> file_ok st t i' N \<and>
    file_bytes (bcontent t) i' N = splice (file_bytes (bcontent s) i N) (unat off) src \<and>
    (\<forall>k. k \<notin> set (own_blocks (bcontent s) i N) \<and> (unat (i_size i) < unat off + length src \<longrightarrow> k \<noteq> unat (IBLOCK (i_inum i) (sb s))) \<longrightarrow>
       bcontent t k = bcontent s k)"
proof -
  have m: "mapped (disksize s) (bcontent s) i N" using f by (simp add: file_ok_def)
  have sz: "unat off + length src \<le> 71680" using off(3) m by (auto simp: mapped_def MAXFILE_def NDIRECT_def NINDIRECT_def)
  let ?n = "of_nat (length src) :: u32" and ?b = "unat (IBLOCK (i_inum i) (sb s))"
  have n: "unat ?n = length src" using sz by (simp add: unat_of_nat)
  have on: "unat (off + ?n) = unat off + length src" using sz n by (simp add: unat_add_small)
  have sn: "sint ?n = int (length src)" using sz by (intro sint_of_nat_small) simp
  have g: "\<not> (off > i_size i \<or> off + ?n < off)" "\<not> off + ?n > of_nat (MAXFILE * BSIZE)" "0 < ?n"
      "off + ?n > i_size i \<longleftrightarrow> unat (i_size i) < unat off + length src"
    using off on sz n by (auto simp: word_less_nat_alt MAXFILE_def NDIRECT_def NINDIRECT_def BSIZE_def)
  obtain t hs' where t: "writei_loop (length src) ip (unat off) src s = Done () t" "txn_inv st hs' Map.empty t"
    "txn_frame t = txn_frame s" "file_ok st t i N"
    "file_bytes (bcontent t) i N = splice (file_bytes (bcontent s) i N) (unat off) src" "length hs' < 28"
    "\<forall>k. k \<notin> set (own_blocks (bcontent s) i N) \<longrightarrow> bcontent t k = bcontent s k"
    using writei_loop_run [OF inv, of ip N "unat off" src "length src"] f room i(1) off(3) by auto
  have o: "own_blocks (bcontent t) i N = own_blocks (bcontent s) i N"
    using t(7) f by (intro own_blocks_cong) (auto simp: fblock_def file_ok_def)
  have ti: "inodes t = inodes s" "memdisk t = memdisk s" "disksize t = disksize s" "sb t = sb s"
    using t(3) by (simp_all add: txn_frame_def)
  show ?thesis
  proof (cases "unat (i_size i) < unat off + length src")
    case False
    then have "writei ip src off s = Done (int (length src)) t" "i' = i"
      using t(1) g i ti sn i' by (simp_all add: writei_def inode_field_def kop_simps Let_def)
    then show ?thesis using t ti i False by (intro exI [of _ t] exI [of _ hs']) auto
  next
    case True
    let ?t = "upd_inode ip (\<lambda>i. i\<lparr>i_size := off + ?n\<rparr>) t"
    have t': "inodes ?t ! ip = i'" "txn_inv st hs' Map.empty ?t" "inodes ?t = (inodes s)[ip := i']"
      using i ti i' True t(2) by simp_all
    have b: "loggable st ?t ?b" "?b \<notin> set (own_blocks (bcontent t) i N)" "NDIRECT < N \<longrightarrow> ?b \<noteq> unat (i_addrs i ! NDIRECT)"
      using apart True ti o by (auto simp: inode_apart_def Let_def loggable_def)
    have d: "i_dev i' = 1" "length (i_addrs i') = NDIRECT + 1" "?b = unat (IBLOCK (i_inum i') (sb ?t))"
      using m i' ti by (auto simp: mapped_def)
    obtain u where u: "iupdate ip ?t = Done () u" "txn_inv st (log_add ?b hs') Map.empty u" "txn_frame u = txn_frame ?t"
        "bcontent u = (bcontent t)(?b := splice (bcontent t ?b) (dinode_off (i_inum i')) (encode_dinode i'))"
      using iupdate_run [OF t'(2) t'(1) [symmetric] d b(1) t(6)] by auto
    have ui: "inodes u = (inodes s)[ip := i']" "memdisk u = memdisk s" "disksize u = disksize s"
      using u(3) t'(3) ti by (simp_all add: txn_frame_def)
    have "writei ip src off s = Done (int (length src)) u"
      using t(1) g True i ti sn u(1) by (simp add: writei_def inode_field_def kop_simps Let_def)
    moreover have "file_ok st u i' N" "file_bytes (bcontent u) i' N = file_bytes (bcontent t) i N"
      using file_grown [OF t(4) u(4) _ b(2,3), of "off + ?n"] i' True ui ti by simp_all
    ultimately show ?thesis using u(2,4) ui t(5,7) True by (intro exI [of _ u] exI [of _ "log_add ?b hs'"]) simp
  qed
qed

text \<open>
  C5 (writing a file): in an open transaction with room in the log, writing a range that starts inside the file or
  at its end and stays within its allocated blocks returns the count, replaces exactly the range in the
  contents of the file, moves the end of the file when the range passes it, leaves every block alone that is
  neither the file's nor, when the size changes, that of its inode, and writes nothing to the disk; reading the
  range back gives the bytes written.
\<close>

theorem writei_readi:
  assumes "txn_inv st hs Map.empty s" and i: "i = inodes s ! ip" "ip < length (inodes s)" "i_type i \<noteq> T_DEV"
    and f: "file_ok st s i N" and sz: "unat (i_size i) \<le> 512 * N"
    and off: "unat off \<le> unat (i_size i)" "src \<noteq> []" "unat off + length src \<le> 512 * N"
    and room: "length hs + blocks_touched (unat off) (length src) < 28"
    and apart: "unat (i_size i) < unat off + length src \<longrightarrow> inode_apart st s i N"
    and i': "i' = i\<lparr>i_size := if unat (i_size i) < unat off + length src then off + of_nat (length src) else i_size i\<rparr>"
  shows "\<exists>t hs'. writei ip src off s = Done (int (length src)) t \<and> txn_inv st hs' Map.empty t \<and>
    memdisk t = memdisk s \<and> inodes t = (inodes s)[ip := i'] \<and>
    file_bytes (bcontent t) i' N = splice (file_bytes (bcontent s) i N) (unat off) src \<and>
    (\<forall>k. k \<notin> set (own_blocks (bcontent s) i N) \<and> (unat (i_size i) < unat off + length src \<longrightarrow> k \<noteq> unat (IBLOCK (i_inum i) (sb s))) \<longrightarrow>
       bcontent t k = bcontent s k) \<and>
    (\<exists>u. readi ip off (of_nat (length src)) t = Done (int (length src), src) u)"
proof -
  obtain t hs' where t: "writei ip src off s = Done (int (length src)) t" "txn_inv st hs' Map.empty t"
      "memdisk t = memdisk s" "disksize t = disksize s" "inodes t = (inodes s)[ip := i']" "file_ok st t i' N"
      "file_bytes (bcontent t) i' N = splice (file_bytes (bcontent s) i N) (unat off) src"
      "\<forall>k. k \<notin> set (own_blocks (bcontent s) i N) \<and> (unat (i_size i) < unat off + length src \<longrightarrow> k \<noteq> unat (IBLOCK (i_inum i) (sb s))) \<longrightarrow>
         bcontent t k = bcontent s k"
    using writei_run [OF assms(1) i f off room apart i'] by blast
  have m: "mapped (disksize s) (bcontent s) i N" "mapped (disksize t) (bcontent t) i' N"
    using f t(6) by (simp_all add: file_ok_def)
  have small: "512 * N \<le> 71680" using m(1) by (simp add: mapped_def MAXFILE_def NDIRECT_def NINDIRECT_def)
  let ?n = "of_nat (length src) :: u32"
  have n: "unat ?n = length src" using off(3) small by (simp add: unat_of_nat)
  have on: "unat (off + ?n) = unat off + length src" using off(3) small n by (simp add: unat_add_small)
  have it: "inodes t ! ip = i'" "unat off + length src \<le> unat (i_size i')" "unat (i_size i') \<le> 512 * N" "i_type i' \<noteq> T_DEV"
    using i i' t(5) on off(3) sz by simp_all
  have ct: "cache_inv Map.empty t" using t(2) by (simp add: txn_inv_def)
  have g: "\<not> (off > i_size i' \<or> off + ?n < off)" using on it(2) by (auto simp: word_less_nat_alt)
  have "length (file_bytes (bcontent s) i N) = 512 * N"
    unfolding file_bytes_def using m(1) bcontent_len assms(1)
    by (intro length_concat_blocks) (auto simp: mapped_def txn_inv_def)
  then have "slice (file_bytes (bcontent t) i' N) (unat off) (length src) = src"
    unfolding t(7) using off(3) by (intro slice_splice_same) simp_all
  then have "\<exists>u. readi ip off ?n t = Done (int (length src), src) u"
    using readi_run [OF ct it(1) [symmetric] it(4) m(2) it(3), of off ?n] g n it(2) by (auto simp: Let_def min_def)
  with t show ?thesis by blast
qed

text \<open>A file of 600 bytes in the blocks 70 and 71 of the demonstration disk.\<close>

definition demo_inode :: inode where
  "demo_inode = \<lparr>i_dev = 1, i_inum = 5, i_ref = 1, i_lock = demo_lock, i_flags = 2, i_type = 2, i_major = 0,
     i_minor = 0, i_nlink = 1, i_size = 600, i_addrs = [70, 71] @ replicate 11 0\<rparr>"

definition demo_file :: fs_state where
  "demo_file = demo_txn\<lparr>inodes := [demo_inode]\<rparr>"

lemma demo_file_ok: "txn_inv 2 [] Map.empty demo_file" "inodes demo_file ! 0 = demo_inode" "file_ok 2 demo_file demo_inode 2"
  "bcontent demo_file k = (if k = 1 then demo_super else if k = 58 then demo_bitmap else replicate 512 0)"
proof -
  show "txn_inv 2 [] Map.empty demo_file" "inodes demo_file ! 0 = demo_inode"
    "bcontent demo_file k = (if k = 1 then demo_super else if k = 58 then demo_bitmap else replicate 512 0)"
    using demo_txn_inv by (simp_all add: demo_file_def)
  have "[0..<2] = [0, 1 :: nat]" by (simp add: numeral_2_eq_2)
  moreover have "n < 2 \<longleftrightarrow> n = 0 \<or> n = (1 :: nat)" for n by auto
  ultimately show "file_ok 2 demo_file demo_inode 2"
    by (auto simp: file_ok_def mapped_def own_blocks_def fblock_def demo_inode_def demo_file_def NDIRECT_def MAXFILE_def
        NINDIRECT_def loggable_def in_log_def LOGSIZE_def)
qed

theorem readi_correct_witness:
  "\<exists>t. readi 0 590 100 demo_file = Done (10, replicate 10 0) t"
proof -
  have ci: "cache_inv Map.empty demo_file" using demo_file_ok(1) by (simp add: txn_inv_def)
  have m: "mapped (disksize demo_file) (bcontent demo_file) demo_inode 2" using demo_file_ok(3) by (simp add: file_ok_def)
  have b: "file_bytes (bcontent demo_file) demo_inode 2 = replicate 1024 0"
  proof -
    have "[0..<2] = [0, 1 :: nat]" by (simp add: numeral_2_eq_2)
    then show ?thesis
      by (simp add: file_bytes_def fblock_def demo_inode_def NDIRECT_def demo_file_ok(4) replicate_add [symmetric])
  qed
  have "i_type demo_inode \<noteq> T_DEV" "unat (i_size demo_inode) \<le> 512 * 2" by (simp_all add: demo_inode_def T_DEV_def)
  from readi_correct [OF ci demo_file_ok(2) [symmetric] this(1) m this(2), of 590 100] show ?thesis
    unfolding b by (auto simp: demo_inode_def slice_def Let_def)
qed

theorem writei_readi_witness:
  "\<exists>t u. writei 0 [1, 2, 3] 600 demo_file = Done 3 t \<and> memdisk t = memdisk demo_file \<and>
         i_size (inodes t ! 0) = 603 \<and> readi 0 600 3 t = Done (3, [1, 2, 3]) u"
proof -
  have ip: "0 < length (inodes demo_file)" by (simp add: demo_file_def)
  have "i_type demo_inode \<noteq> T_DEV" "unat (i_size demo_inode) \<le> 512 * 2" "unat (600 :: u32) \<le> unat (i_size demo_inode)"
    "[1, 2, 3 :: byte] \<noteq> []" "unat (600 :: u32) + length [1, 2, 3 :: byte] \<le> 512 * 2"
    "length ([] :: nat list) + blocks_touched (unat (600 :: u32)) (length [1, 2, 3 :: byte]) < 28"
    by (simp_all add: demo_inode_def T_DEV_def blocks_touched_def BSIZE_def)
  note h = this
  have "unat (IBLOCK (i_inum demo_inode) (sb demo_file)) = 32"
    by (simp add: IBLOCK_def demo_inode_def demo_file_def IPB_def BSIZE_def demo_sb)
  moreover have "[0..<2] = [0, 1 :: nat]" by (simp add: numeral_2_eq_2)
  ultimately have "inode_apart 2 demo_file demo_inode 2"
    by (simp add: inode_apart_def own_blocks_def fblock_def NDIRECT_def loggable_def in_log_def LOGSIZE_def)
      (simp add: demo_inode_def demo_file_def)
  then show ?thesis
    using writei_readi [OF demo_file_ok(1) demo_file_ok(2) [symmetric] ip h(1) demo_file_ok(3) h(2-6) _ refl]
    by (fastforce simp: demo_inode_def demo_file_def)
qed

section \<open>On-disk formats\<close>

text \<open>Fields of a record laid out as a sequence of bytes.\<close>

lemma slice_skip: "length xs \<le> off \<Longrightarrow> slice (xs @ ys) off n = slice ys (off - length xs) n"
  by (simp add: slice_def)

lemma slice_inside:
  "off + length xs \<le> length d \<Longrightarrow> k + n \<le> length xs \<Longrightarrow> slice (splice d off xs) (off + k) n = slice xs k n"
  by (simp add: slice_def splice_def)

lemma get_field:
  "get16 (bytes_of16 w @ xs) 0 = w" "2 \<le> off \<Longrightarrow> get16 (bytes_of16 w @ xs) off = get16 xs (off - 2)"
  "2 \<le> off \<Longrightarrow> get32 (bytes_of16 w @ xs) off = get32 xs (off - 2)"
  "get32 (bytes_of32 v @ xs) 0 = v" "4 \<le> off \<Longrightarrow> get32 (bytes_of32 v @ xs) off = get32 xs (off - 4)"
  "4 \<le> off \<Longrightarrow> get16 (bytes_of32 v @ xs) off = get16 xs (off - 4)"
  by (simp_all add: get16_def get32_def slice_skip) (simp_all add: slice_def)

lemma get32_words: "k < length ws \<Longrightarrow> get32 (concat (map bytes_of32 ws) @ xs) (4 * k) = ws ! k"
proof (induction ws arbitrary: k)
  case (Cons w ws)
  then show ?case by (cases k) (simp_all add: get_field)
qed simp

lemma dinode_store:
  assumes "length (i_addrs i) = NDIRECT + 1" "off + 64 \<le> length d"
  shows "load_dinode (splice d off (encode_dinode i)) off j =
      j\<lparr>i_type := i_type i, i_major := i_major i, i_minor := i_minor i, i_nlink := i_nlink i, i_size := i_size i,
        i_addrs := i_addrs i\<rparr> \<and>
    (\<forall>o' n. o' + n \<le> off \<or> off + 64 \<le> o' \<longrightarrow> slice (splice d off (encode_dinode i)) o' n = slice d o' n)"
proof -
  let ?e = "encode_dinode i"
  have len: "length ?e = 64" using assms(1) by (simp add: encode_dinode_def NDIRECT_def)
  have g: "get16 (splice d off ?e) (off + k) = get16 ?e k" if "k + 2 \<le> 64" for k
    using slice_inside [of off ?e d k 2] assms(2) len that by (simp add: get16_def)
  have g': "get32 (splice d off ?e) (off + k) = get32 ?e k" if "k + 4 \<le> 64" for k
    using slice_inside [of off ?e d k 4] assms(2) len that by (simp add: get32_def)
  have a: "get32 ?e (12 + 4 * k) = i_addrs i ! k" if "k < NDIRECT + 1" for k
    using get32_words [of k "i_addrs i" "[]"] that assms(1) by (simp add: encode_dinode_def get_field)
  have "map (\<lambda>k. get32 (splice d off ?e) (off + 12 + 4 * k)) [0..<NDIRECT + 1] = i_addrs i"
    using g' [of "12 + 4 * k" for k] a assms(1) by (intro nth_equalityI) (simp_all add: NDIRECT_def add.assoc)
  moreover have "get16 (splice d off ?e) off = i_type i" using g [of 0] by (simp add: encode_dinode_def get_field)
  moreover have "get16 (splice d off ?e) (off + 2) = i_major i" "get16 (splice d off ?e) (off + 4) = i_minor i"
    "get16 (splice d off ?e) (off + 6) = i_nlink i" "get32 (splice d off ?e) (off + 8) = i_size i"
    using g [of 2] g [of 4] g [of 6] g' [of 8] by (simp_all add: encode_dinode_def get_field)
  ultimately have "load_dinode (splice d off ?e) off j =
      j\<lparr>i_type := i_type i, i_major := i_major i, i_minor := i_minor i, i_nlink := i_nlink i, i_size := i_size i,
        i_addrs := i_addrs i\<rparr>" by (simp add: load_dinode_def)
  with assms(2) len show ?thesis using slice_splice_other [of off ?e d] by auto
qed

lemma dirent_fields:
  "de_inum (encode_dirent n name) = n \<and> length (encode_dirent n name) = 16 \<and>
   (namecmp other (de_name (encode_dirent n name)) = 0 \<longleftrightarrow> take DIRSIZ (cstr other) = take DIRSIZ (cstr name))"
proof -
  have "de_name (encode_dirent n name) = strncpy name DIRSIZ"
    by (simp add: de_name_def encode_dirent_def slice_skip) (simp add: slice_def)
  moreover have "strncmp p q k = 0 \<longleftrightarrow> take k (cstr p) = take k (cstr q)" for p q k by (rule strncmp_zero)
  ultimately show ?thesis
    by (simp add: namecmp_def cstr_strncpy de_inum_def encode_dirent_def get_field DIRSIZ_def)
qed

section \<open>Path names\<close>

text \<open>The elements \<^verbatim>\<open>namex\<close> walks through, and the elements of a path read off its slashes.\<close>

lemma skipelem_shorter: "skipelem path = Some (e, rest) \<Longrightarrow> length rest < length path"
proof -
  assume a: "skipelem path = Some (e, rest)"
  let ?p = "dropWhile (\<lambda>c. c = slash) path"
  from a have p: "?p \<noteq> []" and rest: "rest = dropWhile (\<lambda>c. c = slash) (dropWhile (\<lambda>c. c \<noteq> slash) ?p)"
    by (auto simp: skipelem_def Let_def split: if_splits)
  have "hd ?p \<noteq> slash" using hd_dropWhile [OF p] by simp
  then have "length (dropWhile (\<lambda>c. c \<noteq> slash) ?p) < length ?p"
    using p by (cases ?p) (simp_all add: le_imp_less_Suc length_dropWhile_le)
  then show ?thesis
    using rest length_dropWhile_le [of "\<lambda>c. c = slash" path]
      length_dropWhile_le [of "\<lambda>c. c = slash" "dropWhile (\<lambda>c. c \<noteq> slash) ?p"] by (simp only:)
qed

function path_elems :: "byte list \<Rightarrow> byte list list" where
  "path_elems path = (case skipelem path of None \<Rightarrow> [] | Some (e, rest) \<Rightarrow> e # path_elems rest)"
  by auto
termination by (relation "measure length") (auto dest: skipelem_shorter)

declare path_elems.simps [simp del]

fun split_slashes :: "byte list \<Rightarrow> byte list list" where
  "split_slashes [] = [[]]"
| "split_slashes (c # cs) = (if c = slash then [] # split_slashes cs
     else (c # hd (split_slashes cs)) # tl (split_slashes cs))"

definition nonempty :: "byte list list \<Rightarrow> byte list list" where
  "nonempty es = filter (\<lambda>e. e \<noteq> []) es"

lemma split_leading: "nonempty (split_slashes (dropWhile (\<lambda>c. c = slash) path)) = nonempty (split_slashes path)"
  by (induction path) (simp_all add: nonempty_def)

lemma split_first:
  "split_slashes p = takeWhile (\<lambda>c. c \<noteq> slash) p #
     (if dropWhile (\<lambda>c. c \<noteq> slash) p = [] then [] else split_slashes (tl (dropWhile (\<lambda>c. c \<noteq> slash) p)))"
  by (induction p) auto

lemma nonempty_rest:
  assumes "rest = dropWhile (\<lambda>c. c \<noteq> slash) p"
  shows "nonempty (if rest = [] then [] else split_slashes (tl rest)) = nonempty (split_slashes (dropWhile (\<lambda>c. c = slash) rest))"
proof (cases rest)
  case Nil
  then show ?thesis by (simp add: nonempty_def)
next
  case (Cons c cs)
  then have "c = slash" using assms hd_dropWhile [of "\<lambda>c. c \<noteq> slash" p] by auto
  with Cons show ?thesis by (simp add: split_leading)
qed

text \<open>
  C40 (path names): iterating \<^verbatim>\<open>skipelem\<close> ends, and gives exactly the non-empty parts of the path
  between its slashes, each cut to the fourteen characters of a directory entry.
\<close>

theorem skipelem_elements: "path_elems path = map (take DIRSIZ) (nonempty (split_slashes path))"
proof (induction path rule: path_elems.induct)
  case (1 path)
  let ?p = "dropWhile (\<lambda>c. c = slash) path"
  let ?rest = "dropWhile (\<lambda>c. c \<noteq> slash) ?p"
  show ?case
  proof (cases "?p = []")
    case True
    then have "nonempty (split_slashes path) = []"
      using split_leading [of path] by (simp only: nonempty_def split_slashes.simps filter.simps) simp
    with True show ?thesis by (simp add: path_elems.simps skipelem_def)
  next
    case False
    then have sk: "skipelem path = Some (take DIRSIZ (takeWhile (\<lambda>c. c \<noteq> slash) ?p), dropWhile (\<lambda>c. c = slash) ?rest)"
      by (simp add: skipelem_def Let_def)
    have "takeWhile (\<lambda>c. c \<noteq> slash) ?p \<noteq> []" using hd_dropWhile [OF False] False by (cases ?p) auto
    then have "nonempty (split_slashes path) =
        takeWhile (\<lambda>c. c \<noteq> slash) ?p # nonempty (split_slashes (dropWhile (\<lambda>c. c = slash) ?rest))"
      using split_first [of ?p] nonempty_rest [OF refl, of ?p] split_leading [of path]
      by (simp add: nonempty_def)
    with "1.IH" [OF sk refl] sk show ?thesis by (simp add: path_elems.simps)
  qed
qed

end
