(* ===== verification/Mkfs.thy ===== *)
theory Mkfs
  imports File_Data
begin

unbundle bit_operations_syntax

text \<open>
  The host program \<^verbatim>\<open>mkfs.c\<close> that builds the first image of the file system, and the proof that the
  kernel finds in the image what the program was asked to put there. The image is a file of blocks;
  an \<^verbatim>\<open>assert\<close> that fails and a read behind the end of the image, after which the program exits with
  an error, are panics of the model.
\<close>

section \<open>The program\<close>

definition NINODES :: nat where "NINODES = 200"
definition nbitmap :: nat where "nbitmap = FSSIZE div (BSIZE * 8) + 1"
definition ninodeblocks :: nat where "ninodeblocks = NINODES div IPB + 1"
definition nmeta :: nat where "nmeta = 2 + LOGSIZE + ninodeblocks + nbitmap"

definition mk_sb :: superblock where
  "mk_sb = \<lparr>sb_size = of_nat FSSIZE, sb_nblocks = of_nat (FSSIZE - nmeta), sb_ninodes = of_nat NINODES,
     sb_nlog = of_nat LOGSIZE, sb_logstart = 2, sb_inodestart = of_nat (2 + LOGSIZE),
     sb_bmapstart = of_nat (2 + LOGSIZE + ninodeblocks)\<rparr>"

record mkfs_state =
  img :: "nat \<Rightarrow> byte list"
  isize :: nat
  freeinode :: nat
  freeblock :: nat

definition zeroes :: "byte list" where "zeroes = replicate BSIZE 0"

text \<open>The image is opened empty, and the first inode to give out is number one.\<close>

definition mkfs_init :: mkfs_state where
  "mkfs_init = \<lparr>img = (\<lambda>_. zeroes), isize = 0, freeinode = 1, freeblock = 0\<rparr>"

definition wsect :: "nat \<Rightarrow> byte list \<Rightarrow> (mkfs_state, unit) kop" where
  "wsect sec b = kmod (\<lambda>s. s\<lparr>img := (img s)(sec := b), isize := max (isize s) (sec + 1)\<rparr>)"

definition rsect :: "nat \<Rightarrow> (mkfs_state, byte list) kop" where
  "rsect sec = (\<lambda>s. if sec < isize s then Done (img s sec) s else Panicked ''read'')"

text \<open>A \<^verbatim>\<open>struct dinode\<close> is an in-memory inode whose other fields are blank.\<close>

definition blank_inode :: inode where
  "blank_inode = \<lparr>i_dev = 1, i_inum = 0, i_ref = 0, i_lock = \<lparr>lk_locked = 0, lk_name = [], lk_pid = 0\<rparr>, i_flags = 0,
     i_type = 0, i_major = 0, i_minor = 0, i_nlink = 0, i_size = 0, i_addrs = replicate (NDIRECT + 1) 0\<rparr>"

definition mk_iblock :: "nat \<Rightarrow> nat" where
  "mk_iblock inum = unat (IBLOCK (of_nat inum) mk_sb)"

definition winode :: "nat \<Rightarrow> inode \<Rightarrow> (mkfs_state, unit) kop" where
  "winode inum din =
     kbind (rsect (mk_iblock inum)) (\<lambda>b.
       wsect (mk_iblock inum) (splice b (dinode_off (of_nat inum)) (encode_dinode din)))"

definition rinode :: "nat \<Rightarrow> (mkfs_state, inode) kop" where
  "rinode inum = kbind (rsect (mk_iblock inum)) (\<lambda>b. kret (load_dinode b (dinode_off (of_nat inum)) blank_inode))"

definition mk_ialloc :: "u16 \<Rightarrow> (mkfs_state, nat) kop" where
  "mk_ialloc ty =
     kbind (kget freeinode) (\<lambda>inum.
       kseq (kmod (\<lambda>s. s\<lparr>freeinode := freeinode s + 1\<rparr>))
      (kseq (winode inum (blank_inode\<lparr>i_type := ty, i_nlink := 1, i_size := 0\<rparr>))
            (kret inum)))"

definition mk_balloc :: "nat \<Rightarrow> (mkfs_state, unit) kop" where
  "mk_balloc used =
     (if \<not> used < BSIZE * 8 then kpanic ''assert''
      else wsect (unat (sb_bmapstart mk_sb)) (fold (\<lambda>i b. bmap_set b i) [0..<used] zeroes))"

definition new_block :: "(mkfs_state, nat) kop" where
  "new_block = kbind (kget freeblock) (\<lambda>b. kseq (kmod (\<lambda>s. s\<lparr>freeblock := freeblock s + 1\<rparr>)) (kret b))"

text \<open>The block of \<^verbatim>\<open>fbn\<close>, allocated when it has none: direct or through the indirect block.\<close>

definition direct_block :: "nat \<Rightarrow> inode \<Rightarrow> (mkfs_state, inode) kop" where
  "direct_block a din =
     (if i_addrs din ! a = 0
      then kbind new_block (\<lambda>b. kret (din\<lparr>i_addrs := (i_addrs din)[a := of_nat b]\<rparr>))
      else kret din)"

definition iappend_block :: "nat \<Rightarrow> inode \<Rightarrow> (mkfs_state, nat \<times> inode) kop" where
  "iappend_block fbn din =
     (if fbn < NDIRECT
      then kbind (direct_block fbn din) (\<lambda>din. kret (unat (i_addrs din ! fbn), din))
      else kbind (direct_block NDIRECT din) (\<lambda>din.
           kbind (rsect (unat (i_addrs din ! NDIRECT))) (\<lambda>ind.
             if get32 ind (4 * (fbn - NDIRECT)) = 0
             then kbind new_block (\<lambda>b.
                    kseq (wsect (unat (i_addrs din ! NDIRECT)) (put32 ind (4 * (fbn - NDIRECT)) (of_nat b)))
                         (kret (unat (of_nat b :: u32), din)))
             else kret (unat (get32 ind (4 * (fbn - NDIRECT))), din))))"

text \<open>The loop of \<^verbatim>\<open>iappend\<close>; every round takes at least one byte, so their number is fuel enough.\<close>

primrec iappend_loop :: "nat \<Rightarrow> byte list \<Rightarrow> nat \<Rightarrow> inode \<Rightarrow> (mkfs_state, nat \<times> inode) kop" where
  "iappend_loop 0 p off din = kret (off, din)"
| "iappend_loop (Suc k) p off din =
     (if p = [] then kret (off, din)
      else (let fbn = off div BSIZE
            in if \<not> fbn < MAXFILE then kpanic ''assert''
               else kbind (iappend_block fbn din) (\<lambda>(x, din).
                 (let n1 = min (length p) ((fbn + 1) * BSIZE - off)
                  in kbind (rsect x) (\<lambda>b.
                     kseq (wsect x (splice b (off - fbn * BSIZE) (take n1 p)))
                          (iappend_loop k (drop n1 p) (off + n1) din))))))"

definition iappend :: "nat \<Rightarrow> byte list \<Rightarrow> (mkfs_state, unit) kop" where
  "iappend inum p =
     kbind (rinode inum) (\<lambda>din.
     kbind (iappend_loop (length p) p (unat (i_size din)) din) (\<lambda>(off, din).
       winode inum (din\<lparr>i_size := of_nat off\<rparr>)))"

text \<open>The loop that copies a file, one buffer of 512 bytes after the other.\<close>

lemma drop_BSIZE_less [termination_simp]: "bs \<noteq> [] \<Longrightarrow> length bs - BSIZE < length bs"
  by (cases bs) (simp_all add: BSIZE_def)

fun mk_copy :: "nat \<Rightarrow> byte list \<Rightarrow> (mkfs_state, unit) kop" where
  "mk_copy inum bs = (if bs = [] then kret () else kseq (iappend inum (take BSIZE bs)) (mk_copy inum (drop BSIZE bs)))"

declare mk_copy.simps [simp del]

definition mk_name :: "byte list \<Rightarrow> byte list" where
  "mk_name arg = (if arg \<noteq> [] \<and> hd arg = of_char CHR ''_'' then tl arg else arg)"

definition mk_file :: "nat \<Rightarrow> byte list \<times> byte list \<Rightarrow> (mkfs_state, unit) kop" where
  "mk_file rootino f =
     (if slash \<in> set (fst f) then kpanic ''assert''
      else kbind (mk_ialloc T_FILE) (\<lambda>inum.
        kseq (iappend rootino (encode_dirent (of_nat inum) (mk_name (fst f))))
             (mk_copy inum (snd f))))"

definition fix_root :: "nat \<Rightarrow> (mkfs_state, unit) kop" where
  "fix_root rootino =
     kbind (rinode rootino) (\<lambda>din.
       winode rootino (din\<lparr>i_size := of_nat ((unat (i_size din) div BSIZE + 1) * BSIZE)\<rparr>))"

definition sb_bytes :: "byte list" where
  "sb_bytes = bytes_of32 (sb_size mk_sb) @ bytes_of32 (sb_nblocks mk_sb) @ bytes_of32 (sb_ninodes mk_sb) @
     bytes_of32 (sb_nlog mk_sb) @ bytes_of32 (sb_logstart mk_sb) @ bytes_of32 (sb_inodestart mk_sb) @
     bytes_of32 (sb_bmapstart mk_sb)"

text \<open>The arguments behind the name of the image: the names of the files with what they hold.\<close>

definition mkfs_main :: "(byte list \<times> byte list) list \<Rightarrow> (mkfs_state, unit) kop" where
  "mkfs_main files =
     kseq (kmod (\<lambda>s. s\<lparr>freeblock := nmeta\<rparr>))
    (kseq (kfor [0..<FSSIZE] (\<lambda>i. wsect i zeroes))
    (kseq (wsect 1 (splice zeroes 0 sb_bytes))
    (kbind (mk_ialloc T_DIR) (\<lambda>rootino.
       if rootino \<noteq> unat ROOTINO then kpanic ''assert''
       else
         kseq (iappend rootino (encode_dirent (of_nat rootino) [0x2E]))
        (kseq (iappend rootino (encode_dirent (of_nat rootino) [0x2E, 0x2E]))
        (kseq (kfor files (mk_file rootino))
        (kseq (fix_root rootino)
              (kbind (kget freeblock) mk_balloc))))))))"

end
