(* ===== verification/Mkfs_Image.thy ===== *)
theory Mkfs_Image
  imports Mkfs
begin

unbundle bit_operations_syntax

text \<open>
  What \<^verbatim>\<open>mkfs\<close> leaves in the image, in the terms in which the kernel reads it: the block map of an
  inode and the bytes of a file are those of \<^verbatim>\<open>File_Data\<close>.
\<close>

section \<open>The blocks of a file\<close>

definition fown :: "(nat \<Rightarrow> byte list) \<Rightarrow> inode \<Rightarrow> nat \<Rightarrow> nat list" where
  "fown c i N = own_blocks c i N @ (if NDIRECT < N then [unat (i_addrs i ! NDIRECT)] else [])"

text \<open>
  An inode with \<open>N\<close> blocks, all below \<open>fb\<close> and outside the metadata, all different from each other and
  from the indirect block; the rest of the block map is zero.
\<close>

definition rep :: "(nat \<Rightarrow> byte list) \<Rightarrow> nat \<Rightarrow> inode \<Rightarrow> nat \<Rightarrow> bool" where
  "rep c fb i N \<longleftrightarrow> i_dev i = 1 \<and> length (i_addrs i) = NDIRECT + 1 \<and> N \<le> MAXFILE \<and> distinct (fown c i N) \<and>
     set (fown c i N) \<subseteq> {nmeta ..< fb} \<and> (\<forall>n \<le> NDIRECT. N \<le> n \<longrightarrow> i_addrs i ! n = 0) \<and>
     (NDIRECT < N \<longrightarrow> (\<forall>n. N \<le> n \<and> n < MAXFILE \<longrightarrow> fblock c i n = 0))"

definition cost :: "nat \<Rightarrow> nat" where
  "cost N = N + (if NDIRECT < N then 1 else 0)"

lemma file_bytes_Suc: "file_bytes c i (Suc N) = file_bytes c i N @ c (unat (fblock c i N))"
  by (simp add: file_bytes_def)

lemma own_blocks_Suc: "own_blocks c i (Suc N) = own_blocks c i N @ [unat (fblock c i N)]"
  by (simp add: own_blocks_def)

lemma fblock_mem: "n < N \<Longrightarrow> unat (fblock c i n) \<in> set (own_blocks c i N)"
  by (simp add: own_blocks_def)

text \<open>The file depends on the contents of its own blocks only.\<close>

lemma rep_frame:
  assumes r: "rep c fb i N" and same: "\<And>k. k \<in> set (fown c i N) \<Longrightarrow> c' k = c k" and "fb \<le> fb'"
  shows "rep c' fb' i N" "fown c' i N = fown c i N" "file_bytes c' i N = file_bytes c i N"
proof -
  have f: "fblock c' i n = fblock c i n" if "n < N \<or> NDIRECT < N" for n
    using same that by (auto simp: fblock_def fown_def)
  then have o: "own_blocks c' i N = own_blocks c i N" by (intro own_blocks_cong) simp
  then show w: "fown c' i N = fown c i N" by (simp add: fown_def)
  show "file_bytes c' i N = file_bytes c i N" using f same by (intro file_bytes_cong) (auto simp: fown_def)
  show "rep c' fb' i N" using r assms(3) f unfolding rep_def w by auto
qed

lemma unat_of_block: "b < 1000 \<Longrightarrow> unat (of_nat b :: u32) = b"
  by (simp add: unat_of_nat)

section \<open>Adding a block\<close>

text \<open>What adding block number \<open>N\<close> gives: the old file, an empty block behind it, and no other change.\<close>

definition grown :: "(nat \<Rightarrow> byte list) \<Rightarrow> nat \<Rightarrow> inode \<Rightarrow> nat \<Rightarrow> (nat \<Rightarrow> byte list) \<Rightarrow> nat \<Rightarrow> inode \<Rightarrow> bool" where
  "grown c fb i N c' fb' i' \<longleftrightarrow> rep c' fb' i' (Suc N) \<and> file_bytes c' i' (Suc N) = file_bytes c i N @ zeroes \<and>
     fb' = fb + (cost (Suc N) - cost N) \<and> set (fown c' i' (Suc N)) \<subseteq> set (fown c i N) \<union> {fb ..< fb'} \<and>
     (\<forall>k. k \<notin> set (fown c i N) \<union> {fb ..< fb'} \<longrightarrow> c' k = c k) \<and> (\<forall>k. length (c k) = 512 \<longrightarrow> length (c' k) = 512) \<and>
     (\<exists>a. i' = i\<lparr>i_addrs := a\<rparr>)"

lemma nmeta_eq: "nmeta = 59"
  by (simp add: nmeta_def LOGSIZE_def ninodeblocks_def nbitmap_def NINODES_def IPB_def FSSIZE_def BSIZE_def)

lemma grow_direct:
  assumes r: "rep c fb i N" and N: "N < NDIRECT" and fb: "nmeta \<le> fb" "fb < 1000" and z: "c fb = zeroes"
  shows "grown c fb i N c (fb + 1) (i\<lparr>i_addrs := (i_addrs i)[N := of_nat fb]\<rparr>)"
proof -
  let ?i = "i\<lparr>i_addrs := (i_addrs i)[N := of_nat fb]\<rparr>"
  have l: "length (i_addrs i) = NDIRECT + 1" using r by (simp add: rep_def)
  have f: "fblock c ?i n = fblock c i n" if "n < N" for n using that N by (simp add: fblock_def)
  have fN: "fblock c ?i N = of_nat fb" using N l by (simp add: fblock_def)
  have o: "own_blocks c ?i N = own_blocks c i N" using f by (rule own_blocks_cong)
  have w: "fown c ?i (Suc N) = own_blocks c i N @ [fb]" "fown c i N = own_blocks c i N"
    using N fN fb o by (simp_all add: fown_def own_blocks_Suc unat_of_block)
  have "fb \<notin> set (own_blocks c i N)" using r w(2) by (auto simp: rep_def)
  then have "rep c (fb + 1) ?i (Suc N)" using r N fb w l by (auto simp: rep_def MAXFILE_def)
  moreover have "file_bytes c ?i (Suc N) = file_bytes c i N @ zeroes"
    using file_bytes_cong [of N c ?i c i] f fN fb z by (simp add: file_bytes_Suc unat_of_block)
  ultimately show ?thesis using N w by (auto simp: grown_def cost_def)
qed

lemma get32_other_entry: "m \<noteq> n \<Longrightarrow> 4 * n + 4 \<le> length b \<Longrightarrow> get32 (put32 b (4 * n) w) (4 * m) = get32 b (4 * m)"
  by (intro get32_put32_other) auto

lemma get32_zeroes: "k + 4 \<le> 512 \<Longrightarrow> get32 zeroes k = 0"
  by (simp add: get32_def zeroes_def slice_def BSIZE_def word32_of_def word_of_bytes_def nth_append)

lemma grow_indirect:
  assumes r: "rep c fb i N" and N: "NDIRECT < N" "N < MAXFILE" and fb: "nmeta \<le> fb" "fb < 1000" and z: "c fb = zeroes"
    and ind: "ind = unat (i_addrs i ! NDIRECT)" "length (c ind) = 512"
  shows "grown c fb i N (c(ind := put32 (c ind) (4 * (N - NDIRECT)) (of_nat fb))) (fb + 1) i"
proof -
  let ?c = "c(ind := put32 (c ind) (4 * (N - NDIRECT)) (of_nat fb))"
  have e: "4 * (N - NDIRECT) + 4 \<le> 512" using N by (simp add: MAXFILE_def NDIRECT_def NINDIRECT_def)
  have own: "ind \<in> set (fown c i N)" "fown c i N = own_blocks c i N @ [ind]" using N ind by (simp_all add: fown_def)
  have f: "fblock ?c i n = (if n = N then of_nat fb else fblock c i n)" if "n < MAXFILE" for n
    using N e ind that get32_other_entry [of "n - NDIRECT" "N - NDIRECT" "c ind"] by (auto simp: fblock_def)
  have o: "own_blocks ?c i N = own_blocks c i N" using f N by (intro own_blocks_cong) simp
  have w: "fown ?c i (Suc N) = own_blocks c i N @ [fb, ind]"
    using N f fb o ind by (simp add: fown_def own_blocks_Suc unat_of_block)
  have sub: "set (fown c i N) \<subseteq> {nmeta ..< fb}" "distinct (fown c i N)" using r by (simp_all add: rep_def)
  have "rep ?c (fb + 1) i (Suc N)"
    using r N fb f w own sub by (auto simp: rep_def)
  moreover have n: "ind \<noteq> fb" "ind \<notin> set (own_blocks c i N)" using sub own by auto
  have "file_bytes ?c i N = file_bytes c i N" using f N n by (intro file_bytes_cong) auto
  then have "file_bytes ?c i (Suc N) = file_bytes c i N @ zeroes"
    using n f [of N] N fb z by (simp add: file_bytes_Suc unat_of_block)
  moreover have "\<exists>a. i = i\<lparr>i_addrs := a\<rparr>" by (rule exI [of _ "i_addrs i"]) simp
  ultimately show ?thesis using N w own ind e by (auto simp: grown_def cost_def)
qed

lemma grow_first:
  assumes r: "rep c fb i N" and N: "N = NDIRECT" and fb: "nmeta \<le> fb" "fb + 1 < 1000" and z: "c fb = zeroes" "c (fb + 1) = zeroes"
  shows "grown c fb i N (c(fb := put32 zeroes 0 (of_nat (fb + 1)))) (fb + 2) (i\<lparr>i_addrs := (i_addrs i)[NDIRECT := of_nat fb]\<rparr>)"
proof -
  let ?i = "i\<lparr>i_addrs := (i_addrs i)[NDIRECT := of_nat fb]\<rparr>" and ?c = "c(fb := put32 zeroes 0 (of_nat (fb + 1)))"
  have l: "length (i_addrs i) = NDIRECT + 1" using r by (simp add: rep_def)
  have z5: "length zeroes = 512" by (simp add: zeroes_def BSIZE_def)
  have f: "fblock ?c ?i n = fblock c i n" if "n < N" for n using that N by (simp add: fblock_def)
  have u: "unat (of_nat fb :: u32) = fb" "unat (of_nat (fb + 1) :: u32) = fb + 1" using fb by (simp_all only: unat_of_block)
  have fN: "fblock ?c ?i N = of_nat (fb + 1)" using N l u z5 get32_put32 [of 0 zeroes] by (simp add: fblock_def)
  have fz: "fblock ?c ?i n = 0" if n: "Suc N \<le> n" "n < MAXFILE" for n
  proof -
    have "fblock ?c ?i n = get32 (put32 zeroes (4 * 0) (of_nat (fb + 1))) (4 * (n - NDIRECT))"
      using n N l u by (simp add: fblock_def)
    also have "\<dots> = get32 zeroes (4 * (n - NDIRECT))" using n N z5 by (intro get32_other_entry) auto
    also have "\<dots> = 0" using n N by (intro get32_zeroes) (simp add: MAXFILE_def NDIRECT_def NINDIRECT_def)
    finally show ?thesis .
  qed
  have o: "own_blocks ?c ?i N = own_blocks c i N" using f by (rule own_blocks_cong)
  have w: "fown ?c ?i (Suc N) = own_blocks c i N @ [fb + 1, fb]" "fown c i N = own_blocks c i N"
    using N fN o l u by (simp_all add: fown_def own_blocks_Suc)
  have sub: "set (own_blocks c i N) \<subseteq> {nmeta ..< fb}" "distinct (own_blocks c i N)" using r w(2) by (simp_all add: rep_def)
  have "rep ?c (fb + 2) ?i (Suc N)"
    using r N fb w l sub fz by (auto simp: rep_def MAXFILE_def NINDIRECT_def)
  moreover have "file_bytes ?c ?i N = file_bytes c i N" using f sub by (intro file_bytes_cong) auto
  then have "file_bytes ?c ?i (Suc N) = file_bytes c i N @ zeroes"
    unfolding file_bytes_Suc fN u using z by simp
  ultimately show ?thesis using N w z5 by (auto simp: grown_def cost_def)
qed

section \<open>The loop of iappend\<close>

definition img_ok :: "mkfs_state \<Rightarrow> bool" where
  "img_ok s \<longleftrightarrow> isize s = FSSIZE \<and> (\<forall>k. length (img s k) = 512) \<and> (\<forall>k \<ge> freeblock s. img s k = zeroes) \<and>
     nmeta \<le> freeblock s \<and> freeblock s \<le> FSSIZE"

lemma wsect_run: "x < isize s \<Longrightarrow> wsect x b s = Done () (s\<lparr>img := (img s)(x := b)\<rparr>)"
  by (simp add: wsect_def kop_simps max_def)

lemma rsect_run: "x < isize s \<Longrightarrow> rsect x s = Done (img s x) s"
  by (simp add: rsect_def)

lemma new_block_run: "new_block s = Done (freeblock s) (s\<lparr>freeblock := freeblock s + 1\<rparr>)"
  by (simp add: new_block_def kop_simps)

text \<open>The block the loop works on: an old one, or a new one behind the last.\<close>

lemma iappend_block_old:
  assumes ok: "img_ok s" and r: "rep (img s) (freeblock s) i N" and n: "n < N"
  shows "iappend_block n i s = Done (unat (fblock (img s) i n), i) s"
proof -
  have sub: "set (fown (img s) i N) \<subseteq> {nmeta ..< freeblock s}" using r by (simp add: rep_def)
  have nz: "w \<noteq> 0" if "unat w \<in> set (fown (img s) i N)" for w :: u32
    using sub that by (auto simp: nmeta_eq)
  have m: "unat (fblock (img s) i n) \<in> set (fown (img s) i N)" using n by (simp add: fown_def fblock_mem)
  show ?thesis
  proof (cases "n < NDIRECT")
    case True
    then show ?thesis using nz [OF m] by (simp add: iappend_block_def direct_block_def kop_simps fblock_def)
  next
    case False
    then have im: "unat (i_addrs i ! NDIRECT) \<in> set (fown (img s) i N)" using n by (simp add: fown_def)
    then have "unat (i_addrs i ! NDIRECT) < isize s" using sub ok by (auto simp: img_ok_def)
    then show ?thesis using False nz [OF m] nz [OF im]
      by (simp add: iappend_block_def direct_block_def rsect_def kop_simps fblock_def)
  qed
qed

lemma iappend_block_new:
  assumes ok: "img_ok s" and r: "rep (img s) (freeblock s) i N" and N: "N < MAXFILE"
    and room: "freeblock s + (cost (Suc N) - cost N) \<le> FSSIZE"
  shows "\<exists>t i'. iappend_block N i s = Done (unat (fblock (img t) i' N), i') t \<and> img_ok t \<and>
    grown (img s) (freeblock s) i N (img t) (freeblock t) i' \<and> freeinode t = freeinode s"
proof -
  let ?c = "img s" and ?fb = "freeblock s"
  have o: "isize s = FSSIZE" "\<And>k. length (?c k) = 512" "\<And>k. ?fb \<le> k \<Longrightarrow> ?c k = zeroes" "nmeta \<le> ?fb" using ok by (simp_all add: img_ok_def)
  have l: "length (i_addrs i) = NDIRECT + 1" using r by (simp add: rep_def)
  consider "N < NDIRECT" | "N = NDIRECT" | "NDIRECT < N" by linarith
  then show ?thesis
  proof cases
    case 1
    have fb: "?fb < 1000" using room 1 by (simp add: cost_def FSSIZE_def)
    let ?i = "i\<lparr>i_addrs := (i_addrs i)[N := of_nat ?fb]\<rparr>"
    note g = grow_direct [OF r 1 o(4) fb o(3) [OF order_refl]]
    have z: "i_addrs i ! N = 0" using r 1 by (simp add: rep_def)
    have "iappend_block N i s = Done (unat (fblock ?c ?i N), ?i) (s\<lparr>freeblock := ?fb + 1\<rparr>)"
      using 1 z l by (simp add: iappend_block_def direct_block_def new_block_run kop_simps fblock_def)
    moreover have "img_ok (s\<lparr>freeblock := ?fb + 1\<rparr>)" using ok fb by (auto simp: img_ok_def FSSIZE_def)
    ultimately show ?thesis using g by (intro exI [of _ "s\<lparr>freeblock := ?fb + 1\<rparr>"] exI [of _ ?i]) simp
  next
    case 2
    have fb: "?fb + 1 < 1000" using room 2 by (simp add: cost_def FSSIZE_def)
    let ?i = "i\<lparr>i_addrs := (i_addrs i)[NDIRECT := of_nat ?fb]\<rparr>" and ?d = "?c(?fb := put32 zeroes 0 (of_nat (?fb + 1)))"
    let ?t = "s\<lparr>freeblock := ?fb + 2, img := ?d\<rparr>"
    note g = grow_first [OF r 2 o(4) fb o(3) [OF order_refl] o(3)]
    have z: "i_addrs i ! NDIRECT = 0" using r 2 by (simp add: rep_def)
    have u: "unat (of_nat ?fb :: u32) = ?fb" "unat (of_nat (?fb + 1) :: u32) = ?fb + 1" using fb by (simp_all only: unat_of_block)
    have z5: "length zeroes = 512" by (simp add: zeroes_def BSIZE_def)
    have "unat (fblock ?d ?i N) = ?fb + 1"
      using 2 l u z5 get32_put32 [of 0 zeroes] by (simp add: fblock_def)
    moreover have "iappend_block N i s = Done (?fb + 1, ?i) ?t"
      using 2 z l u fb o(1,3) get32_zeroes [of 0]
      by (simp add: iappend_block_def direct_block_def new_block_run rsect_def wsect_def kop_simps FSSIZE_def)
    moreover have "img_ok ?t" using ok fb z5 by (auto simp: img_ok_def FSSIZE_def)
    ultimately show ?thesis using g by (intro exI [of _ ?t] exI [of _ ?i]) simp
  next
    case 3
    have fb: "?fb < 1000" using room 3 by (simp add: cost_def FSSIZE_def)
    let ?ind = "unat (i_addrs i ! NDIRECT)"
    let ?d = "?c(?ind := put32 (?c ?ind) (4 * (N - NDIRECT)) (of_nat ?fb))"
    let ?t = "s\<lparr>freeblock := ?fb + 1, img := ?d\<rparr>"
    note g = grow_indirect [OF r 3 N o(4) fb o(3) [OF order_refl] refl o(2)]
    have e: "4 * (N - NDIRECT) + 4 \<le> 512" using N 3 by (simp add: MAXFILE_def NDIRECT_def NINDIRECT_def)
    have sub: "?ind \<in> {nmeta ..< ?fb}" using r 3 by (auto simp: rep_def fown_def)
    have z: "get32 (?c ?ind) (4 * (N - NDIRECT)) = 0" using r 3 N by (simp add: rep_def fblock_def)
    have "unat (fblock ?d i N) = unat (of_nat ?fb :: u32)" using 3 e o(2) by (simp add: fblock_def)
    moreover have "i_addrs i ! NDIRECT \<noteq> 0" using sub by (auto simp: nmeta_eq)
    then have "iappend_block N i s = Done (unat (of_nat ?fb :: u32), i) ?t"
      using 3 z l o(1) sub fb ok
      by (simp add: iappend_block_def direct_block_def new_block_run rsect_def wsect_def kop_simps img_ok_def)
    moreover have "img_ok ?t" using ok fb e sub by (auto simp: img_ok_def FSSIZE_def)
    ultimately show ?thesis using g by (intro exI [of _ ?t] exI [of _ i]) simp
  qed
qed

text \<open>A file with the bytes \<open>C\<close>, its last block filled up with zeros.\<close>

definition nblk :: "nat \<Rightarrow> nat" where
  "nblk n = (n + 511) div 512"

definition pad :: "byte list \<Rightarrow> byte list" where
  "pad C = C @ replicate (512 * nblk (length C) - length C) 0"

definition stores :: "(nat \<Rightarrow> byte list) \<Rightarrow> nat \<Rightarrow> inode \<Rightarrow> byte list \<Rightarrow> bool" where
  "stores c fb i C \<longleftrightarrow> rep c fb i (nblk (length C)) \<and> file_bytes c i (nblk (length C)) = pad C"

definition fblocks :: "(nat \<Rightarrow> byte list) \<Rightarrow> inode \<Rightarrow> byte list \<Rightarrow> nat set" where
  "fblocks c i C = set (fown c i (nblk (length C)))"

definition blocks_of :: "byte list \<Rightarrow> nat" where
  "blocks_of C = cost (nblk (length C))"

text \<open>Appending: the new file, made of the old blocks and of fresh ones, and nothing else touched.\<close>

definition appended :: "mkfs_state \<Rightarrow> inode \<Rightarrow> byte list \<Rightarrow> mkfs_state \<Rightarrow> inode \<Rightarrow> byte list \<Rightarrow> bool" where
  "appended s i C t j D \<longleftrightarrow> img_ok t \<and> stores (img t) (freeblock t) j D \<and> freeblock t + blocks_of C = freeblock s + blocks_of D \<and>
     freeblock s \<le> freeblock t \<and> fblocks (img t) j D \<subseteq> fblocks (img s) i C \<union> {freeblock s ..< freeblock t} \<and>
     (\<forall>k. k \<notin> fblocks (img s) i C \<union> {freeblock s ..< freeblock t} \<longrightarrow> img t k = img s k) \<and>
     (\<exists>a. j = i\<lparr>i_addrs := a\<rparr>) \<and> freeinode t = freeinode s"

lemma appended_refl: "img_ok s \<Longrightarrow> stores (img s) (freeblock s) i C \<Longrightarrow> appended s i C s i C"
  using exI [of "\<lambda>a. i = i\<lparr>i_addrs := a\<rparr>" "i_addrs i"] by (simp add: appended_def)

lemma appended_trans:
  assumes "appended s i C t j D" "appended t j D u l E"
  shows "appended s i C u l E"
proof -
  have "fblocks (img u) l E \<subseteq> fblocks (img s) i C \<union> {freeblock s ..< freeblock u}"
    using assms by (fastforce simp: appended_def)
  moreover have "img u k = img s k" if "k \<notin> fblocks (img s) i C \<union> {freeblock s ..< freeblock u}" for k
  proof -
    have "k \<notin> fblocks (img t) j D \<union> {freeblock t ..< freeblock u}" "k \<notin> fblocks (img s) i C \<union> {freeblock s ..< freeblock t}"
      using assms that by (auto simp: appended_def)
    then show ?thesis using assms by (simp add: appended_def)
  qed
  ultimately show ?thesis using assms by (auto simp: appended_def)
qed

lemma nblk_mono: "m \<le> n \<Longrightarrow> nblk m \<le> nblk n"
  by (simp add: nblk_def div_le_mono)

lemma cost_mono: "m \<le> n \<Longrightarrow> cost m \<le> cost n"
  by (simp add: cost_def)

lemma nblk_le: "n \<le> 512 * nblk n"
  by (simp add: nblk_def)

text \<open>The next bytes go into a block that is there.\<close>

lemma nblk_round:
  assumes "N = Suc (n div 512)" "n mod 512 + m \<le> 512" "0 < m"
  shows "nblk (n + m) = N"
proof -
  have "n = 512 * (n div 512) + n mod 512" by simp
  then have "n + m + 511 = 512 * N + (n mod 512 + m - 1)" "n mod 512 + m - 1 < 512" using assms by linarith+
  then show ?thesis by (simp add: nblk_def)
qed

lemma write_block:
  assumes ok: "img_ok s" and r: "rep (img s) (freeblock s) i N" and fb: "file_bytes (img s) i N = C @ replicate (512 * N - length C) 0"
    and n: "N = Suc (length C div 512)" and xs: "length C mod 512 + length xs \<le> 512" "xs \<noteq> []"
    and x: "x = unat (fblock (img s) i (length C div 512))"
    and t: "t = s\<lparr>img := (img s)(x := splice (img s x) (length C mod 512) xs)\<rparr>"
  shows "img_ok t \<and> stores (img t) (freeblock t) i (C @ xs) \<and> fblocks (img t) i (C @ xs) = set (fown (img s) i N) \<and>
    x \<in> set (fown (img s) i N) \<and> (\<forall>k. k \<notin> set (fown (img s) i N) \<longrightarrow> img t k = img s k)"
proof -
  have N: "nblk (length (C @ xs)) = N" using nblk_round [OF n xs(1)] xs(2) by simp
  have sub: "set (fown (img s) i N) \<subseteq> {nmeta ..< freeblock s}" "distinct (fown (img s) i N)" using r by (simp_all add: rep_def)
  have m: "x \<in> set (own_blocks (img s) i N)" using fblock_mem [of "length C div 512" N] n x by simp
  then have xm: "x \<in> set (fown (img s) i N)" by (simp add: fown_def)
  have len: "\<And>k. length (img s k) = 512" using ok by (simp add: img_ok_def)
  have ex: "NDIRECT < N \<longrightarrow> unat (i_addrs i ! NDIRECT) \<notin> set (own_blocks (img s) i N)" using sub(2) by (auto simp: fown_def)
  have d: "distinct (own_blocks (img s) i N)" using sub(2) by (simp add: fown_def)
  have f: "fblock (img t) i j = fblock (img s) i j" if "j < N \<or> NDIRECT < N" for j
    using that m ex unfolding t fblock_def by auto
  have o: "own_blocks (img t) i N = own_blocks (img s) i N" using f by (intro own_blocks_cong) simp
  then have w: "fown (img t) i N = fown (img s) i N" by (simp add: fown_def)
  have b: "file_bytes (img t) i N = splice (file_bytes (img s) i N) (512 * (length C div 512) + length C mod 512) xs"
    using file_bytes_upd [of N "img s" i "length C div 512" "length C mod 512" xs x] len ex d n xs(1) x by (simp add: t)
  have "length C + length xs \<le> 512 * N" using N nblk_le [of "length (C @ xs)"] by simp
  then have "file_bytes (img t) i N = pad (C @ xs)"
    unfolding b fb pad_def N by (simp add: splice_def)
  moreover have "rep (img t) (freeblock t) i N" using r f w unfolding rep_def t by simp
  moreover have "img_ok t" using ok xs(1) sub xm len unfolding img_ok_def t by auto
  ultimately show ?thesis using N w xm by (auto simp: stores_def fblocks_def t)
qed

text \<open>One round.\<close>

lemma iappend_block_ok:
  assumes ok: "img_ok s" and st: "stores (img s) (freeblock s) i C" and n: "N = Suc (length C div 512)" "N \<le> MAXFILE"
    and room: "freeblock s + cost N \<le> FSSIZE + blocks_of C"
  shows "\<exists>t j. iappend_block (length C div 512) i s = Done (unat (fblock (img t) j (length C div 512)), j) t \<and> img_ok t \<and>
    rep (img t) (freeblock t) j N \<and> file_bytes (img t) j N = C @ replicate (512 * N - length C) 0 \<and>
    freeblock t + blocks_of C = freeblock s + cost N \<and> freeblock s \<le> freeblock t \<and>
    set (fown (img t) j N) \<subseteq> fblocks (img s) i C \<union> {freeblock s ..< freeblock t} \<and>
    (\<forall>k. k \<notin> fblocks (img s) i C \<union> {freeblock s ..< freeblock t} \<longrightarrow> img t k = img s k) \<and>
    (\<exists>a. j = i\<lparr>i_addrs := a\<rparr>) \<and> freeinode t = freeinode s"
proof (cases "length C mod 512 = 0")
  case True
  then have nb: "nblk (length C) = length C div 512" "512 * (length C div 512) = length C" by (auto simp: nblk_def)
  then have r: "rep (img s) (freeblock s) i (length C div 512)" "file_bytes (img s) i (length C div 512) = C"
    using st by (simp_all add: stores_def pad_def)
  have c: "cost (Suc (length C div 512)) - cost (length C div 512) + blocks_of C = cost N"
    using n nb by (simp add: blocks_of_def cost_def)
  obtain t j where g: "iappend_block (length C div 512) i s = Done (unat (fblock (img t) j (length C div 512)), j) t" "img_ok t"
      "grown (img s) (freeblock s) i (length C div 512) (img t) (freeblock t) j" "freeinode t = freeinode s"
    using iappend_block_new [OF ok r(1)] n c room by auto
  have "512 * N - length C = BSIZE" using n nb by (simp add: BSIZE_def)
  then show ?thesis using g r(2) n c nb
    by (intro exI [of _ t] exI [of _ j]) (auto simp: grown_def fblocks_def zeroes_def)
next
  case False
  have nb: "nblk (length C) = N"
    using nblk_round [of N "length C - 1" 1] False n by (cases "length C") (auto simp: div_Suc mod_Suc split: if_splits)
  then have r: "rep (img s) (freeblock s) i N" "file_bytes (img s) i N = C @ replicate (512 * N - length C) 0"
    using st by (simp_all add: stores_def pad_def)
  have "iappend_block (length C div 512) i s = Done (unat (fblock (img s) i (length C div 512)), i) s"
    using n by (intro iappend_block_old [OF ok r(1)]) simp
  moreover have "\<exists>a. i = i\<lparr>i_addrs := a\<rparr>" by (rule exI [of _ "i_addrs i"]) simp
  ultimately show ?thesis using r ok nb
    by (intro exI [of _ s] exI [of _ i]) (auto simp: fblocks_def blocks_of_def)
qed

lemma iappend_loop_ok:
  assumes "img_ok s" "stores (img s) (freeblock s) i C" "nblk (length C + length p) \<le> MAXFILE"
    "freeblock s + blocks_of (C @ p) \<le> FSSIZE + blocks_of C" "length p \<le> k"
  shows "\<exists>t j. iappend_loop k p (length C) i s = Done (length C + length p, j) t \<and> appended s i C t j (C @ p)"
  using assms
proof (induction k arbitrary: s i C p)
  case 0
  then show ?case using appended_refl by (auto simp: kop_simps)
next
  case (Suc k)
  show ?case
  proof (cases "p = []")
    case True
    then show ?thesis using appended_refl Suc.prems by (auto simp: kop_simps)
  next
    case False
    define n where "n = length C div 512"
    define m where "m = min (length p) ((n + 1) * 512 - length C)"
    have C: "length C = 512 * n + length C mod 512" by (simp add: n_def)
    have m: "0 < m" "m \<le> length p" "length C mod 512 + m \<le> 512" "m = length (take m p)"
      using C False mod_less_divisor [of 512 "length C"] unfolding m_def by (auto simp: min_def)
    have m': "min (length p) (512 + n * 512 - length C) = m" by (simp add: m_def)
    have C': "length C - n * 512 = length C mod 512" using C by simp
    have N: "nblk (length C + m) = Suc n" using nblk_round [OF refl m(3,1)] by (simp add: n_def)
    have le: "Suc n \<le> nblk (length C + length p)" using nblk_mono [of "length C + m" "length C + length p"] N m(2) by simp
    have le': "Suc n \<le> MAXFILE" using le Suc.prems(3) by simp
    have b: "blocks_of (C @ take m p) = cost (Suc n)" using N m(2) by (simp add: blocks_of_def)
    have room: "freeblock s + cost (Suc n) \<le> FSSIZE + blocks_of C"
      using cost_mono [OF le] Suc.prems(4) by (simp add: blocks_of_def)
    obtain u j where u: "iappend_block n i s = Done (unat (fblock (img u) j n), j) u" "img_ok u"
      "rep (img u) (freeblock u) j (Suc n)" "file_bytes (img u) j (Suc n) = C @ replicate (512 * Suc n - length C) 0"
      "freeblock u + blocks_of C = freeblock s + cost (Suc n)" "freeblock s \<le> freeblock u"
      "set (fown (img u) j (Suc n)) \<subseteq> fblocks (img s) i C \<union> {freeblock s ..< freeblock u}"
      "\<forall>k. k \<notin> fblocks (img s) i C \<union> {freeblock s ..< freeblock u} \<longrightarrow> img u k = img s k"
      "\<exists>a. j = i\<lparr>i_addrs := a\<rparr>" "freeinode u = freeinode s"
      using iappend_block_ok [OF Suc.prems(1,2), of "Suc n", folded n_def, OF refl le' room] by (elim exE conjE) (rule that; (assumption | blast))
    define x where "x = unat (fblock (img u) j n)"
    define v where "v = u\<lparr>img := (img u)(x := splice (img u x) (length C mod 512) (take m p))\<rparr>"
    have w: "img_ok v \<and> stores (img v) (freeblock v) j (C @ take m p) \<and> fblocks (img v) j (C @ take m p) = set (fown (img u) j (Suc n)) \<and>
        x \<in> set (fown (img u) j (Suc n)) \<and> (\<forall>k. k \<notin> set (fown (img u) j (Suc n)) \<longrightarrow> img v k = img u k)"
      using m False by (intro write_block [OF u(2,3,4)]) (auto simp: n_def x_def v_def)
    have fr: "freeblock v = freeblock u" "freeinode v = freeinode u" by (simp_all add: v_def)
    have "img v k = img s k" if "k \<notin> fblocks (img s) i C \<union> {freeblock s ..< freeblock u}" for k
    proof -
      have "k \<notin> set (fown (img u) j (Suc n))" using that u(7) by blast
      then show ?thesis using w u(8) that by simp
    qed
    then have av: "appended s i C v j (C @ take m p)"
      unfolding appended_def fr b using w u(5-7,9,10) by (simp add: fr)
    have xs: "x < isize u" using w u(2,3) by (auto simp: rep_def img_ok_def)
    have "iappend_loop (Suc k) p (length C) i s = iappend_loop k (drop m p) (length C + m) j v"
      using False le' u(1) xs
      by (simp add: BSIZE_def n_def [symmetric] x_def [symmetric] m' C' v_def rsect_run wsect_run kop_simps Let_def)
    moreover have "\<exists>t l. iappend_loop k (drop m p) (length (C @ take m p)) j v = Done (length (C @ take m p) + length (drop m p), l) t \<and>
        appended v j (C @ take m p) t l ((C @ take m p) @ drop m p)"
      using w Suc.prems(3,4,5) m u(5) by (intro Suc.IH) (auto simp: fr b)
    ultimately show ?thesis using appended_trans [OF av] m(2) by fastforce
  qed
qed

end
