(* ===== verification/Mkfs_Files.thy ===== *)
theory Mkfs_Files
  imports Mkfs_Image
begin

unbundle bit_operations_syntax

text \<open>
  The whole image of \<^verbatim>\<open>mkfs\<close>: an invariant over the list of files made so far, kept by every operation
  of the program, and what the kernel reads from the finished image: the super block, the bitmap, the
  inodes and the bytes of the files.
\<close>

section \<open>Inodes of the image\<close>

definition dino :: "mkfs_state \<Rightarrow> nat \<Rightarrow> inode" where
  "dino s ino = load_dinode (img s (mk_iblock ino)) (dinode_off (of_nat ino)) blank_inode"

definition mk_dinode :: "u16 \<Rightarrow> nat \<Rightarrow> u32 list \<Rightarrow> inode" where
  "mk_dinode ty n a = blank_inode\<lparr>i_type := ty, i_nlink := 1, i_size := of_nat n, i_addrs := a\<rparr>"

lemma iblock_eq: "ino < 208 \<Longrightarrow> mk_iblock ino = 32 + ino div 8" "ino < 208 \<Longrightarrow> dinode_off (of_nat ino) = 64 * (ino mod 8)"
  by (simp_all add: mk_iblock_def IBLOCK_def mk_sb_def dinode_off_def LOGSIZE_def IPB_def unat_of_nat unat_word_ariths)

lemma iblock_range: "ino < 208 \<Longrightarrow> 32 \<le> mk_iblock ino \<and> mk_iblock ino < 58"
  by (simp add: iblock_eq less_mult_imp_div_less)

lemma load_slice:
  assumes "slice d off 64 = slice d' off 64" "off + 64 \<le> length d" "off + 64 \<le> length d'"
  shows "load_dinode d off j = load_dinode d' off j"
proof -
  have n: "slice d (off + k) n = slice d' (off + k) n" if "k + n \<le> 64" for k n
  proof -
    have "slice d (off + k) n = slice (slice d off 64) k n" "slice d' (off + k) n = slice (slice d' off 64) k n"
      using that by (simp_all add: slice_def drop_take min_def add.commute)
    then show ?thesis using assms(1) by simp
  qed
  have "get32 d (off + 12 + 4 * k) = get32 d' (off + 12 + 4 * k)" if "k < NDIRECT + 1" for k
    using n [of "12 + 4 * k" 4] that by (simp add: get32_def add.assoc NDIRECT_def)
  then show ?thesis using n [of 0 2] n [of 2 2] n [of 4 2] n [of 6 2] n [of 8 4]
    by (simp add: load_dinode_def get16_def get32_def)
qed

lemma winode_run:
  assumes ok: "img_ok s" and ino: "ino < 208" and l: "length (i_addrs i) = NDIRECT + 1"
  shows "\<exists>t. winode ino i s = Done () t \<and> img_ok t \<and> freeblock t = freeblock s \<and> freeinode t = freeinode s \<and>
    dino t ino = blank_inode\<lparr>i_type := i_type i, i_major := i_major i, i_minor := i_minor i, i_nlink := i_nlink i,
      i_size := i_size i, i_addrs := i_addrs i\<rparr> \<and>
    (\<forall>k < 208. k \<noteq> ino \<longrightarrow> dino t k = dino s k) \<and> (\<forall>k. k < 32 \<or> 58 \<le> k \<longrightarrow> img t k = img s k)"
proof -
  let ?b = "mk_iblock ino" and ?o = "dinode_off (of_nat ino)"
  let ?d = "splice (img s ?b) ?o (encode_dinode i)"
  let ?t = "s\<lparr>img := (img s)(?b := ?d)\<rparr>"
  have o: "isize s = FSSIZE" "\<And>k. length (img s k) = 512" "nmeta \<le> freeblock s" using ok by (simp_all add: img_ok_def)
  have off: "64 * (k mod 8) + 64 \<le> 512" for k :: nat using mod_less_divisor [of 8 k] by simp
  have e: "length (encode_dinode i) = 64" using l by (simp add: encode_dinode_def NDIRECT_def)
  note st = dinode_store [OF l, of ?o "img s ?b" blank_inode]
  have "winode ino i s = Done () ?t"
    using iblock_range [OF ino] o(1) by (simp add: winode_def kop_simps rsect_run wsect_run FSSIZE_def)
  moreover have "img_ok ?t" using ok iblock_range [OF ino] off [of ino] e ino by (auto simp: img_ok_def nmeta_eq iblock_eq)
  moreover have "dino ?t k = dino s k" if k: "k < 208" "k \<noteq> ino" for k
  proof (cases "mk_iblock k = ?b")
    case True
    then have q: "k div 8 = ino div 8" using k ino by (simp add: iblock_eq)
    then have "k mod 8 \<noteq> ino mod 8" using k(2) mod_div_mult_eq [of k 8] mod_div_mult_eq [of ino 8] by metis
    then have "64 * (k mod 8) + 64 \<le> ?o \<or> ?o + 64 \<le> 64 * (k mod 8)" using ino by (auto simp: iblock_eq)
    then have "slice ?d (64 * (k mod 8)) 64 = slice (img s ?b) (64 * (k mod 8)) 64"
      using o(2) off [of ino] ino e by (intro slice_splice_other) (simp_all add: iblock_eq)
    then show ?thesis using True o(2) off [of k] off [of ino] k ino e
      by (auto simp: dino_def iblock_eq intro!: load_slice)
  qed (simp add: dino_def)
  ultimately show ?thesis using st o(2) off [of ino] ino iblock_range [OF ino]
    by (intro exI [of _ ?t]) (auto simp: dino_def iblock_eq)
qed

lemma rinode_run: "img_ok s \<Longrightarrow> ino < 208 \<Longrightarrow> rinode ino s = Done (dino s ino) s"
  using iblock_range [of ino] by (simp add: rinode_def dino_def kop_simps rsect_run img_ok_def FSSIZE_def)

section \<open>The files of the image\<close>

lemma stores_frame:
  assumes "stores c fb i C" "\<And>k. k \<in> fblocks c i C \<Longrightarrow> c' k = c k" "fb \<le> fb'"
  shows "stores c' fb' i C" "fblocks c' i C = fblocks c i C"
  using rep_frame [of c fb i "nblk (length C)" c' fb'] assms by (simp_all add: stores_def fblocks_def)

lemma fblock_size [simp]: "fblock c (i\<lparr>i_size := z\<rparr>) = fblock c i"
  by (rule ext) (simp add: fblock_def)

lemma stores_size [simp]:
  "stores c fb (i\<lparr>i_size := z\<rparr>) C = stores c fb i C" "fblocks c (i\<lparr>i_size := z\<rparr>) C = fblocks c i C"
  by (simp_all add: stores_def fblocks_def rep_def fown_def own_blocks_def file_bytes_def)

lemma stores_range: "stores c fb i C \<Longrightarrow> fblocks c i C \<subseteq> {nmeta ..< fb}"
  by (simp add: stores_def fblocks_def rep_def)

definition holds :: "mkfs_state \<Rightarrow> nat \<Rightarrow> u16 \<times> byte list \<Rightarrow> bool" where
  "holds s ino f \<longleftrightarrow> (\<exists>a. dino s ino = mk_dinode (fst f) (length (snd f)) a) \<and> stores (img s) (freeblock s) (dino s ino) (snd f)"

definition area :: "mkfs_state \<Rightarrow> nat \<Rightarrow> u16 \<times> byte list \<Rightarrow> nat set" where
  "area s ino f = fblocks (img s) (dino s ino) (snd f)"

definition need :: "(u16 \<times> byte list) list \<Rightarrow> nat" where
  "need F = sum_list (map (blocks_of \<circ> snd) F)"

definition fits :: "(u16 \<times> byte list) list \<Rightarrow> bool" where
  "fits F \<longleftrightarrow> nmeta + need F \<le> FSSIZE \<and> (\<forall>f \<in> set F. nblk (length (snd f)) \<le> MAXFILE) \<and> length F < NINODES"

text \<open>Inode \<open>k + 1\<close> is the file number \<open>k\<close> of \<open>F\<close>; no two files share a block.\<close>

definition img_inv :: "mkfs_state \<Rightarrow> (u16 \<times> byte list) list \<Rightarrow> bool" where
  "img_inv s F \<longleftrightarrow> img_ok s \<and> freeinode s = Suc (length F) \<and> length F < NINODES \<and> img s 1 = splice zeroes 0 sb_bytes \<and>
     freeblock s = nmeta + need F \<and> (\<forall>k < length F. holds s (Suc k) (F ! k)) \<and>
     (\<forall>j < length F. \<forall>k < length F. j \<noteq> k \<longrightarrow> area s (Suc j) (F ! j) \<inter> area s (Suc k) (F ! k) = {})"

lemma need_update: "k < length F \<Longrightarrow> need (F[k := f]) + blocks_of (snd (F ! k)) = need F + blocks_of (snd f)"
  by (induction F arbitrary: k) (auto simp: need_def split: nat.split)

lemma blocks_of_mono: "length C \<le> length D \<Longrightarrow> blocks_of C \<le> blocks_of D"
  by (simp add: blocks_of_def cost_mono nblk_mono)

text \<open>A file whose inode and blocks a step leaves alone.\<close>

lemma holds_frame:
  assumes "holds s ino f" "dino t ino = dino s ino" "\<And>k. k \<in> area s ino f \<Longrightarrow> img t k = img s k" "freeblock s \<le> freeblock t"
  shows "holds t ino f" "area t ino f = area s ino f"
  using assms stores_frame [of "img s" "freeblock s" "dino s ino" "snd f" "img t" "freeblock t"]
  by (auto simp: holds_def area_def)

lemma inv_ino: "img_inv s F \<Longrightarrow> k < length F \<Longrightarrow> Suc k < 208"
  by (simp add: img_inv_def NINODES_def)

lemma inv_holds: "img_inv s F \<Longrightarrow> k < length F \<Longrightarrow> holds s (Suc k) (F ! k)"
  by (simp add: img_inv_def)

lemma inv_disjoint:
  "img_inv s F \<Longrightarrow> j < length F \<Longrightarrow> k < length F \<Longrightarrow> j \<noteq> k \<Longrightarrow> area s (Suc j) (F ! j) \<inter> area s (Suc k) (F ! k) = {}"
  by (simp add: img_inv_def)

lemma area_range: "img_inv s F \<Longrightarrow> k < length F \<Longrightarrow> area s (Suc k) (F ! k) \<subseteq> {nmeta ..< freeblock s}"
  using inv_holds [of s F k] by (simp add: holds_def area_def stores_range)

lemma iappend_run:
  assumes inv: "img_inv s F" and n: "n < length F" "F ! n = (ty, C)" and fit: "fits (F[n := (ty, C @ p)])"
  shows "\<exists>t a. iappend (Suc n) p s = Done () t \<and> img_ok t \<and> freeinode t = freeinode s \<and> freeblock t = nmeta + need (F[n := (ty, C @ p)]) \<and>
    freeblock s \<le> freeblock t \<and> dino t (Suc n) = mk_dinode ty (length (C @ p)) a \<and>
    stores (img t) (freeblock t) (dino t (Suc n)) (C @ p) \<and>
    area t (Suc n) (ty, C @ p) \<subseteq> area s (Suc n) (ty, C) \<union> {freeblock s ..< freeblock t} \<and>
    (\<forall>k < 208. k \<noteq> Suc n \<longrightarrow> dino t k = dino s k) \<and>
    (\<forall>k. k < 32 \<or> 58 \<le> k \<and> k \<notin> area s (Suc n) (ty, C) \<union> {freeblock s ..< freeblock t} \<longrightarrow> img t k = img s k)"
proof -
  let ?i = "dino s (Suc n)" and ?D = "C @ p"
  have ok: "img_ok s" and fb: "freeblock s = nmeta + need F" using inv by (simp_all add: img_inv_def)
  have "holds s (Suc n) (ty, C)" using inv_holds [OF inv n(1)] n(2) by simp
  then obtain a where a: "?i = mk_dinode ty (length C) a" and st: "stores (img s) (freeblock s) ?i C" by (auto simp: holds_def)
  have up: "need (F[n := (ty, ?D)]) + blocks_of C = need F + blocks_of ?D" using need_update [OF n(1), of "(ty, ?D)"] n(2) by simp
  have sz: "nblk (length C + length p) \<le> MAXFILE" using fit set_update_memI [OF n(1), of "(ty, ?D)"] by (auto simp: fits_def)
  then have "length C + length p < 2 ^ 32"
    using nblk_le [of "length C + length p"] by (simp add: MAXFILE_def NDIRECT_def NINDIRECT_def)
  then have u: "unat (i_size ?i) = length C" by (simp add: a mk_dinode_def unat_of_nat)
  have room: "freeblock s + blocks_of ?D \<le> FSSIZE + blocks_of C" using fit up fb by (simp add: fits_def)
  obtain t j where t: "iappend_loop (length p) p (length C) ?i s = Done (length C + length p, j) t" "appended s ?i C t j ?D"
    using iappend_loop_ok [OF ok st sz room order_refl] by auto
  then obtain b where b: "j = ?i\<lparr>i_addrs := b\<rparr>" by (auto simp: appended_def)
  have tok: "img_ok t" "stores (img t) (freeblock t) j ?D" "freeblock s \<le> freeblock t" "freeinode t = freeinode s"
    "fblocks (img t) j ?D \<subseteq> area s (Suc n) (ty, C) \<union> {freeblock s ..< freeblock t}"
    and fr: "\<And>k. k \<notin> area s (Suc n) (ty, C) \<union> {freeblock s ..< freeblock t} \<Longrightarrow> img t k = img s k"
    using t(2) by (simp_all add: appended_def area_def)
  have lb: "length b = NDIRECT + 1" using tok(2) b by (simp add: stores_def rep_def)
  have low: "img t k = img s k" if "k < 58" for k
    using that stores_range [OF st] ok by (intro fr) (auto simp: area_def nmeta_eq img_ok_def)
  let ?j = "j\<lparr>i_size := of_nat (length C + length p)\<rparr>"
  obtain v where v: "winode (Suc n) ?j t = Done () v" "img_ok v" "freeblock v = freeblock t" "freeinode v = freeinode t"
      "dino v (Suc n) = blank_inode\<lparr>i_type := i_type ?j, i_major := i_major ?j, i_minor := i_minor ?j, i_nlink := i_nlink ?j,
        i_size := i_size ?j, i_addrs := i_addrs ?j\<rparr>" "\<forall>k < 208. k \<noteq> Suc n \<longrightarrow> dino v k = dino t k"
      "\<forall>k. k < 32 \<or> 58 \<le> k \<longrightarrow> img v k = img t k"
    using winode_run [OF tok(1) inv_ino [OF inv n(1)], of ?j] lb b by auto
  have d: "dino v (Suc n) = mk_dinode ty (length ?D) b" "dino v (Suc n) = ?j"
    using v(5) by (simp_all add: b a mk_dinode_def blank_inode_def)
  have "58 \<le> k" if "k \<in> fblocks (img t) j ?D" for k using stores_range [OF tok(2)] that by (auto simp: nmeta_eq)
  then have sv: "stores (img v) (freeblock v) ?j ?D" "fblocks (img v) ?j ?D = fblocks (img t) j ?D"
    using stores_frame [OF tok(2), of "img v" "freeblock v"] v(3,7) by auto
  have "area v (Suc n) (ty, ?D) \<subseteq> area s (Suc n) (ty, C) \<union> {freeblock s ..< freeblock v}"
    using sv(2) tok(5) v(3) d(2) by (simp only: area_def snd_conv)
  moreover have "dino v k = dino s k" if "k < 208" "k \<noteq> Suc n" for k
    using low iblock_range [OF that(1)] v(6) that by (simp add: dino_def)
  moreover have "img v k = img s k" if "k < 32 \<or> 58 \<le> k \<and> k \<notin> area s (Suc n) (ty, C) \<union> {freeblock s ..< freeblock v}" for k
    using that v(3,7) fr [of k] low [of k] by auto
  moreover have "iappend (Suc n) p s = Done () v"
    using rinode_run [OF ok inv_ino [OF inv n(1)]] t(1) u v(1) by (simp add: iappend_def kop_simps)
  moreover have "freeblock v = nmeta + need (F[n := (ty, ?D)])" using t(2) up fb v(3) by (simp add: appended_def)
  moreover have "stores (img v) (freeblock v) (dino v (Suc n)) ?D" using sv(1) d(2) by simp
  moreover have "freeinode v = freeinode s" "freeblock s \<le> freeblock v" using v(3,4) tok by simp_all
  ultimately show ?thesis using v(2) d(1) by (intro exI [of _ v] exI [of _ b]) blast
qed

lemma iappend_inv:
  assumes inv: "img_inv s F" and n: "n < length F" "F ! n = (ty, C)" and fit: "fits (F[n := (ty, C @ p)])"
  shows "\<exists>t. iappend (Suc n) p s = Done () t \<and> img_inv t (F[n := (ty, C @ p)])"
proof -
  let ?F = "F[n := (ty, C @ p)]" and ?A = "area s (Suc n) (ty, C)"
  obtain t a where t: "iappend (Suc n) p s = Done () t" "img_ok t" "freeinode t = freeinode s" "freeblock t = nmeta + need ?F"
    "freeblock s \<le> freeblock t" "dino t (Suc n) = mk_dinode ty (length (C @ p)) a"
    "stores (img t) (freeblock t) (dino t (Suc n)) (C @ p)"
    "area t (Suc n) (ty, C @ p) \<subseteq> ?A \<union> {freeblock s ..< freeblock t}"
    "\<forall>k < 208. k \<noteq> Suc n \<longrightarrow> dino t k = dino s k"
    "\<forall>k. k < 32 \<or> 58 \<le> k \<and> k \<notin> ?A \<union> {freeblock s ..< freeblock t} \<longrightarrow> img t k = img s k"
    using iappend_run [OF assms] by blast
  have other: "holds t (Suc k) (F ! k)" "area t (Suc k) (F ! k) = area s (Suc k) (F ! k)" "area s (Suc k) (F ! k) \<inter> ?A = {}"
    if k: "k < length F" "k \<noteq> n" for k
  proof -
    show dj: "area s (Suc k) (F ! k) \<inter> ?A = {}" using inv_disjoint [OF inv k(1) n(1) k(2)] n(2) by simp
    have "img t m = img s m" if m: "m \<in> area s (Suc k) (F ! k)" for m
    proof -
      have "nmeta \<le> m" "m < freeblock s" "m \<notin> ?A" using area_range [OF inv k(1)] dj m by auto
      then show ?thesis using t(10) by (simp add: nmeta_eq)
    qed
    then show "holds t (Suc k) (F ! k)" "area t (Suc k) (F ! k) = area s (Suc k) (F ! k)"
      using holds_frame [of s "Suc k" "F ! k" t] inv k t(5,9) inv_ino [OF inv k(1)] by (auto simp: img_inv_def)
  qed
  have own: "holds t (Suc n) (ty, C @ p)" using t(6,7) by (auto simp: holds_def)
  have new: "area t (Suc k) (F ! k) \<inter> area t (Suc n) (ty, C @ p) = {}" if k: "k < length F" "k \<noteq> n" for k
    using other(2,3) [OF k] t(8) area_range [OF inv k(1)] by fastforce
  have "area t (Suc j) (?F ! j) \<inter> area t (Suc k) (?F ! k) = {}" if "j < length F" "k < length F" "j \<noteq> k" for j k
    using new [of j] new [of k] that inv other(2)
    by (cases "j = n"; cases "k = n") (auto simp: img_inv_def Int_commute)
  moreover have "holds t (Suc k) (?F ! k)" if "k < length F" for k
    using own other(1) that by (cases "k = n") simp_all
  moreover have "img t 1 = img s 1" using t(10) by simp
  ultimately show ?thesis using t(1-4) inv by (auto simp: img_inv_def)
qed

text \<open>A new inode is an empty file.\<close>

lemma stores_empty:
  "i_dev i = 1 \<Longrightarrow> i_addrs i = replicate (NDIRECT + 1) 0 \<Longrightarrow> stores c fb i [] \<and> fblocks c i [] = {}"
  by (auto simp: stores_def fblocks_def rep_def fown_def own_blocks_def file_bytes_def pad_def nblk_def nth_Cons split: nat.split)

lemma ialloc_inv:
  assumes inv: "img_inv s F" and fit: "Suc (length F) < NINODES"
  shows "\<exists>t. mk_ialloc ty s = Done (Suc (length F)) t \<and> img_inv t (F @ [(ty, [])])"
proof -
  let ?i = "blank_inode\<lparr>i_type := ty, i_nlink := 1, i_size := 0\<rparr>" and ?s = "s\<lparr>freeinode := Suc (Suc (length F))\<rparr>"
  have s: "img_ok ?s" "freeinode s = Suc (length F)" using inv by (simp_all add: img_inv_def img_ok_def)
  have n: "Suc (length F) < 208" "length (i_addrs ?i) = NDIRECT + 1" using fit by (simp_all add: NINODES_def blank_inode_def)
  obtain t where t: "winode (Suc (length F)) ?i ?s = Done () t" "img_ok t" "freeblock t = freeblock s" "freeinode t = Suc (Suc (length F))"
      "dino t (Suc (length F)) = mk_dinode ty 0 (replicate (NDIRECT + 1) 0)"
      "\<forall>k < 208. k \<noteq> Suc (length F) \<longrightarrow> dino t k = dino s k" "\<forall>k. k < 32 \<or> 58 \<le> k \<longrightarrow> img t k = img s k"
    using winode_run [OF s(1) n] by (auto simp: mk_dinode_def blank_inode_def dino_def)
  have h: "holds t (Suc k) (F ! k)" "area t (Suc k) (F ! k) = area s (Suc k) (F ! k)" if k: "k < length F" for k
  proof -
    have "img t m = img s m" if "m \<in> area s (Suc k) (F ! k)" for m
      using area_range [OF inv k] that t(7) by (auto simp: nmeta_eq)
    then show "holds t (Suc k) (F ! k)" "area t (Suc k) (F ! k) = area s (Suc k) (F ! k)"
      using holds_frame [OF inv_holds [OF inv k], of t] t(3,6) k n by simp_all
  qed
  have e: "stores c fb (dino t (Suc (length F))) []" "fblocks c (dino t (Suc (length F))) [] = {}" for c fb
    using stores_empty [of "dino t (Suc (length F))" c fb] unfolding t(5) by (simp_all add: mk_dinode_def blank_inode_def)
  have new: "holds t (Suc (length F)) (ty, [])" "area t (Suc (length F)) (ty, []) = {}"
    using e t(5) by (auto simp: holds_def area_def)
  have "holds t (Suc k) ((F @ [(ty, [])]) ! k)" if "k < Suc (length F)" for k
    using that h new by (cases "k = length F") (simp_all add: nth_append)
  moreover have "area t (Suc j) ((F @ [(ty, [])]) ! j) \<inter> area t (Suc k) ((F @ [(ty, [])]) ! k) = {}"
    if "j < Suc (length F)" "k < Suc (length F)" "j \<noteq> k" for j k
    using that h(2) new(2) inv_disjoint [OF inv, of j k] by (auto simp: nth_append less_Suc_eq)
  moreover have "need (F @ [(ty, [])]) = need F" by (simp add: need_def blocks_of_def cost_def nblk_def)
  ultimately have "img_inv t (F @ [(ty, [])])" using inv t(2-4,7) fit by (simp add: img_inv_def)
  moreover have "mk_ialloc ty s = Done (Suc (length F)) t" using s(2) t(1) by (simp add: mk_ialloc_def kop_simps)
  ultimately show ?thesis by blast
qed

text \<open>A list of longer files needs more room.\<close>

lemma fits_mono:
  assumes "fits G" "list_all2 (\<lambda>f g. length (snd f) \<le> length (snd g)) F G"
  shows "fits F"
proof -
  have "need F \<le> need G" using assms(2) by induction (simp_all add: need_def add_mono blocks_of_mono)
  moreover have "nblk (length (snd f)) \<le> MAXFILE" if "f \<in> set F" for f
  proof -
    obtain k where "k < length F" "f = F ! k" using \<open>f \<in> set F\<close> by (auto simp: in_set_conv_nth)
    then have "G ! k \<in> set G" "length (snd f) \<le> length (snd (G ! k))" using assms(2) by (auto simp: list_all2_conv_all_nth)
    then show ?thesis using assms(1) nblk_mono by (fastforce simp: fits_def)
  qed
  ultimately show ?thesis using assms list_all2_lengthD [OF assms(2)] by (simp add: fits_def)
qed

lemma nth_list_update_if: "i < length F \<Longrightarrow> F[n := x] ! i = (if n = i then x else F ! i)"
  by simp

lemma fits_update:
  assumes "fits (F[n := (ty, D)])" "length C \<le> length D"
  shows "fits (F[n := (ty, C)])"
  using assms by (elim fits_mono) (auto simp: list_all2_conv_all_nth nth_list_update_if)

lemma copy_inv:
  assumes "img_inv s F" "n < length F" "F ! n = (ty, C)" "fits (F[n := (ty, C @ bs)])"
  shows "\<exists>t. mk_copy (Suc n) bs s = Done () t \<and> img_inv t (F[n := (ty, C @ bs)])"
  using assms
proof (induction "Suc n" bs arbitrary: s F C rule: mk_copy.induct)
  case (1 bs)
  show ?case
  proof (cases "bs = []")
    case True
    then have "F[n := (ty, C @ bs)] = F" using 1(4) by (metis append_Nil2 list_update_id)
    then show ?thesis using True 1(2) by (simp add: mk_copy.simps [of "Suc n" "[]"] kop_simps)
  next
    case False
    let ?p = "take BSIZE bs"
    obtain t where t: "iappend (Suc n) ?p s = Done () t" "img_inv t (F[n := (ty, C @ ?p)])"
      using iappend_inv [OF 1(2-4)] fits_update [OF 1(5), of "C @ ?p"] by auto
    have "\<exists>u. mk_copy (Suc n) (drop BSIZE bs) t = Done () u \<and>
        img_inv u ((F[n := (ty, C @ ?p)])[n := (ty, (C @ ?p) @ drop BSIZE bs)])"
      using t(2) 1(3,5) by (intro 1(1) [OF False]) simp_all
    then show ?thesis using False t(1) by (simp add: mk_copy.simps [of "Suc n" bs] kop_simps)
  qed
qed

section \<open>The program as a whole\<close>

text \<open>The entries of the root directory and the list of all files, the root first.\<close>

primrec entries :: "nat \<Rightarrow> (byte list \<times> byte list) list \<Rightarrow> byte list" where
  "entries n [] = []"
| "entries n (f # fs) = encode_dirent (of_nat n) (mk_name (fst f)) @ entries (Suc n) fs"

definition root_dir :: "(byte list \<times> byte list) list \<Rightarrow> byte list" where
  "root_dir files = encode_dirent 1 [0x2E] @ encode_dirent 1 [0x2E, 0x2E] @ entries 2 files"

definition image_files :: "(byte list \<times> byte list) list \<Rightarrow> (u16 \<times> byte list) list" where
  "image_files files = (T_DIR, root_dir files) # map (\<lambda>f. (T_FILE, snd f)) files"

lemma mk_file_inv:
  assumes inv: "img_inv s ((T_DIR, R) # G)" and name: "slash \<notin> set (fst f)"
    and fit: "fits ((T_DIR, R @ encode_dirent (of_nat (length G + 2)) (mk_name (fst f))) # G @ [(T_FILE, snd f)])"
  shows "\<exists>t. mk_file 1 f s = Done () t \<and>
    img_inv t ((T_DIR, R @ encode_dirent (of_nat (length G + 2)) (mk_name (fst f))) # G @ [(T_FILE, snd f)])"
proof -
  let ?e = "encode_dirent (of_nat (length G + 2)) (mk_name (fst f))"
  let ?F = "((T_DIR, R) # G) @ [(T_FILE, [])]"
  obtain t where t: "mk_ialloc T_FILE s = Done (length G + 2) t" "img_inv t ?F"
    using ialloc_inv [OF inv, of T_FILE] fit by (auto simp: fits_def)
  have "fits (?F[0 := (T_DIR, R @ ?e)])"
    using fit by (elim fits_mono) (auto simp: list_all2_append list_all2_refl)
  then obtain u where u: "iappend 1 ?e t = Done () u" "img_inv u (?F[0 := (T_DIR, R @ ?e)])"
    using iappend_inv [OF t(2), of 0 T_DIR R ?e] by auto
  have n: "length G + 1 < length (?F[0 := (T_DIR, R @ ?e)])" "(?F[0 := (T_DIR, R @ ?e)]) ! (length G + 1) = (T_FILE, [])" by simp_all
  obtain v where "mk_copy (length G + 2) (snd f) u = Done () v"
      "img_inv v ((T_DIR, R @ ?e) # G @ [(T_FILE, snd f)])"
    using copy_inv [OF u(2) n, of "snd f"] fit by auto
  then show ?thesis using name t(1) u(1) by (auto simp: mk_file_def kop_simps)
qed

lemma mk_files_inv:
  assumes "img_inv s ((T_DIR, R) # G)" "\<forall>f \<in> set fs. slash \<notin> set (fst f)"
    "fits ((T_DIR, R @ entries (length G + 2) fs) # G @ map (\<lambda>f. (T_FILE, snd f)) fs)"
  shows "\<exists>t. kfor fs (mk_file 1) s = Done () t \<and>
    img_inv t ((T_DIR, R @ entries (length G + 2) fs) # G @ map (\<lambda>f. (T_FILE, snd f)) fs)"
  using assms
proof (induction fs arbitrary: s R G)
  case Nil
  then show ?case by (simp add: kop_simps)
next
  case (Cons f fs)
  let ?R = "R @ encode_dirent (of_nat (length G + 2)) (mk_name (fst f))" and ?G = "G @ [(T_FILE, snd f)]"
  let ?g = "\<lambda>f :: byte list \<times> byte list. (T_FILE, snd f)"
  have fit: "fits ((T_DIR, ?R @ entries (length ?G + 2) fs) # ?G @ map ?g fs)" using Cons.prems(3) by simp
  then have "fits ((T_DIR, ?R) # ?G @ map ?g fs)" by (elim fits_mono) (simp add: list_all2_refl)
  then have one: "fits ((T_DIR, ?R) # ?G)" by (simp add: fits_def need_def)
  have "slash \<notin> set (fst f)" using Cons.prems(2) by simp
  then obtain t where t: "mk_file 1 f s = Done () t" "img_inv t ((T_DIR, ?R) # ?G)"
    using mk_file_inv [OF Cons.prems(1) _ one] by blast
  then show ?case using Cons.IH [OF t(2)] Cons.prems(2) fit by (simp add: kop_simps)
qed

lemma zero_image:
  "kfor [0..<n] (\<lambda>i. wsect i zeroes) (s\<lparr>img := (\<lambda>_. zeroes), isize := 0\<rparr>) = Done () (s\<lparr>img := (\<lambda>_. zeroes), isize := n\<rparr>)"
proof (induction n)
  case 0
  show ?case by (simp add: kop_simps)
next
  case (Suc n)
  then show ?case by (simp add: kfor_append kop_simps wsect_def fun_upd_idem)
qed

lemma used_bits:
  assumes "length d = 512" "n \<le> 4096" "k < 4096"
  shows "bmap_bit (fold (\<lambda>i b. bmap_set b i) [0..<n] d) k \<longleftrightarrow> k < n \<or> bmap_bit d k"
    and "length (fold (\<lambda>i b. bmap_set b i) [0..<n] d) = 512"
  using assms(2)
proof (induction n)
  case 0
  { case 1 then show ?case by simp }
  { case 2 then show ?case using assms by simp }
next
  case (Suc n)
  { case 1 then show ?case using Suc assms by (auto simp: bmap_bit_set) }
  { case 2 then show ?case using Suc by simp }
qed

lemma super_block: "decode_sb (splice zeroes 0 sb_bytes) = mk_sb" "length (splice zeroes 0 sb_bytes) = 512"
proof -
  have l: "length sb_bytes = 28" by (simp add: sb_bytes_def)
  then have g: "get32 (splice zeroes 0 sb_bytes) k = get32 sb_bytes k" if "k + 4 \<le> 28" for k
    using slice_inside [of 0 sb_bytes zeroes k 4] that by (simp add: get32_def zeroes_def BSIZE_def)
  have "get32 sb_bytes (4 * k) = [sb_size mk_sb, sb_nblocks mk_sb, sb_ninodes mk_sb, sb_nlog mk_sb, sb_logstart mk_sb,
      sb_inodestart mk_sb, sb_bmapstart mk_sb] ! k" if "k < 7" for k
    using get32_words [of k "[sb_size mk_sb, sb_nblocks mk_sb, sb_ninodes mk_sb, sb_nlog mk_sb, sb_logstart mk_sb,
      sb_inodestart mk_sb, sb_bmapstart mk_sb]" "[]"] that by (simp add: sb_bytes_def)
  from this [of 0] this [of 1] this [of 2] this [of 3] this [of 4] this [of 5] this [of 6]
  show "decode_sb (splice zeroes 0 sb_bytes) = mk_sb" by (simp add: decode_sb_def g)
  show "length (splice zeroes 0 sb_bytes) = 512" using l by (simp add: zeroes_def BSIZE_def)
qed

text \<open>The empty image, the root directory with its two entries, and all files.\<close>

lemma start_inv:
  "\<exists>t. kseq (kmod (\<lambda>s. s\<lparr>freeblock := nmeta\<rparr>)) (kseq (kfor [0..<FSSIZE] (\<lambda>i. wsect i zeroes))
    (wsect 1 (splice zeroes 0 sb_bytes))) mkfs_init = Done () t \<and> img_inv t []"
proof -
  let ?s = "mkfs_init\<lparr>freeblock := nmeta, isize := FSSIZE\<rparr>"
  have "mkfs_init\<lparr>freeblock := nmeta, img := (\<lambda>_. zeroes), isize := n\<rparr> = mkfs_init\<lparr>freeblock := nmeta, isize := n\<rparr>" for n
    by (simp add: mkfs_init_def)
  then have "kfor [0..<FSSIZE] (\<lambda>i. wsect i zeroes) (mkfs_init\<lparr>freeblock := nmeta\<rparr>) = Done () ?s"
    using zero_image [of FSSIZE "mkfs_init\<lparr>freeblock := nmeta\<rparr>"] by (simp add: mkfs_init_def)
  moreover have "img_inv (?s\<lparr>img := (img ?s)(1 := splice zeroes 0 sb_bytes)\<rparr>) []"
    using super_block(2)
    by (simp add: img_inv_def img_ok_def mkfs_init_def need_def NINODES_def zeroes_def nmeta_eq FSSIZE_def BSIZE_def)
  ultimately show ?thesis by (simp add: kop_simps wsect_run FSSIZE_def)
qed

lemma files_inv:
  assumes "\<forall>f \<in> set files. slash \<notin> set (fst f)" "fits (image_files files)"
  shows "\<exists>t. mkfs_main files mkfs_init = kseq (fix_root 1) (kbind (kget freeblock) mk_balloc) t \<and> img_inv t (image_files files)"
proof -
  let ?d = "encode_dirent 1 [0x2E]" and ?dd = "encode_dirent 1 [0x2E, 0x2E]" and ?g = "\<lambda>f :: byte list \<times> byte list. (T_FILE, snd f)"
  obtain s where s: "kseq (kmod (\<lambda>s. s\<lparr>freeblock := nmeta\<rparr>)) (kseq (kfor [0..<FSSIZE] (\<lambda>i. wsect i zeroes))
      (wsect 1 (splice zeroes 0 sb_bytes))) mkfs_init = Done () s" "img_inv s []"
    using start_inv by auto
  have all: "fits ((T_DIR, (?d @ ?dd) @ entries (length [] + 2) files) # [] @ map ?g files)"
    using assms(2) by (simp add: image_files_def root_dir_def numeral_2_eq_2)
  then have "fits [(T_DIR, (?d @ ?dd) @ entries 2 files)]" by (simp add: fits_def need_def NINODES_def numeral_2_eq_2)
  then have part: "fits [(T_DIR, ?d @ ?dd)]" by (elim fits_mono) simp
  obtain a where a: "mk_ialloc T_DIR s = Done 1 a" "img_inv a [(T_DIR, [])]"
    using ialloc_inv [OF s(2), of T_DIR] by (auto simp: NINODES_def)
  obtain b where b: "iappend 1 ?d a = Done () b" "img_inv b [(T_DIR, ?d)]"
    using iappend_inv [OF a(2), of 0 T_DIR "[]" ?d] fits_update [of "[(T_DIR, [])]" 0 T_DIR "?d @ ?dd" ?d] part by auto
  obtain c where c: "iappend 1 ?dd b = Done () c" "img_inv c [(T_DIR, ?d @ ?dd)]"
    using iappend_inv [OF b(2), of 0 T_DIR ?d ?dd] part by auto
  obtain t where t: "kfor files (mk_file 1) c = Done () t" "img_inv t ((T_DIR, (?d @ ?dd) @ entries (length [] + 2) files) # [] @ map ?g files)"
    using mk_files_inv [OF c(2) assms(1) all] by auto
  have "mkfs_main files mkfs_init = kseq (fix_root 1) (kbind (kget freeblock) mk_balloc) t"
    using s(1) a(1) b(1) c(1) t(1)
    by (auto simp: mkfs_main_def kop_simps ROOTINO_def split: outcome.splits)
  then show ?thesis using t(2) by (auto simp: image_files_def root_dir_def numeral_2_eq_2)
qed

text \<open>The last two steps change the size of the root directory and the bitmap, and no file.\<close>

lemma finish_run:
  assumes inv: "img_inv s F" and n: "0 < length F" and C: "length (snd (F ! 0)) \<le> 512 * MAXFILE"
  shows "\<exists>t. kseq (fix_root 1) (kbind (kget freeblock) mk_balloc) s = Done () t \<and> freeblock t = freeblock s \<and>
    img t 1 = img s 1 \<and> (\<forall>k < 1000. bmap_bit (img t (unat (sb_bmapstart mk_sb))) k \<longleftrightarrow> k < freeblock s) \<and>
    (\<forall>k. nmeta \<le> k \<longrightarrow> img t k = img s k) \<and> (\<forall>k < 208. k \<noteq> 1 \<longrightarrow> dino t k = dino s k) \<and>
    dino t 1 = (dino s 1)\<lparr>i_size := of_nat ((length (snd (F ! 0)) div BSIZE + 1) * BSIZE)\<rparr>"
proof -
  let ?z = "(length (snd (F ! 0)) div BSIZE + 1) * BSIZE" and ?b = "fold (\<lambda>i b. bmap_set b i) [0..<freeblock s] zeroes"
  have ok: "img_ok s" using inv by (simp add: img_inv_def)
  obtain a where a: "dino s 1 = mk_dinode (fst (F ! 0)) (length (snd (F ! 0))) a" "stores (img s) (freeblock s) (dino s 1) (snd (F ! 0))"
    using inv_holds [OF inv n] by (auto simp: holds_def)
  have u: "unat (i_size (dino s 1)) = length (snd (F ! 0))"
    unfolding a(1) mk_dinode_def using C by (simp add: unat_of_nat MAXFILE_def NDIRECT_def NINDIRECT_def)
  have la: "length a = NDIRECT + 1" using a by (simp add: stores_def rep_def mk_dinode_def)
  obtain t where t: "winode 1 ((dino s 1)\<lparr>i_size := of_nat ?z\<rparr>) s = Done () t" "img_ok t" "freeblock t = freeblock s"
      "dino t 1 = (dino s 1)\<lparr>i_size := of_nat ?z\<rparr>" "\<forall>k < 208. k \<noteq> 1 \<longrightarrow> dino t k = dino s k"
      "\<forall>k. k < 32 \<or> 58 \<le> k \<longrightarrow> img t k = img s k"
    using winode_run [OF ok, of 1 "(dino s 1)\<lparr>i_size := of_nat ?z\<rparr>"] la unfolding a(1) by (auto simp: mk_dinode_def)
  have bm: "unat (sb_bmapstart mk_sb) = 58" by (simp add: mk_sb_def LOGSIZE_def ninodeblocks_def NINODES_def IPB_def)
  have fb: "freeblock s \<le> 1000" using ok by (simp add: img_ok_def FSSIZE_def)
  let ?t = "t\<lparr>img := (img t)(58 := ?b)\<rparr>"
  have "fix_root 1 s = Done () t" using rinode_run [OF ok, of 1] u t(1) by (simp add: fix_root_def kop_simps)
  moreover have "mk_balloc (freeblock t) t = Done () ?t"
    using fb t(2,3) bm by (simp add: mk_balloc_def BSIZE_def wsect_run img_ok_def FSSIZE_def)
  ultimately have "kseq (fix_root 1) (kbind (kget freeblock) mk_balloc) s = Done () ?t" by (simp add: kop_simps)
  moreover have "dino ?t k = dino t k" if "k < 208" for k using iblock_range [OF that] by (simp add: dino_def)
  moreover have "bmap_bit ?b k \<longleftrightarrow> k < freeblock s" if "k < 1000" for k
    using used_bits(1) [of zeroes "freeblock s" k] fb that
    by (simp add: zeroes_def BSIZE_def bmap_bit_def)
  ultimately show ?thesis using t(3-6) bm by (intro exI [of _ ?t]) (simp add: nmeta_eq)
qed

text \<open>
  C19 (the image of mkfs): when the files fit, \<^verbatim>\<open>mkfs\<close> succeeds, and in the finished image the kernel
  finds: the super block that describes the layout; a bitmap in which exactly the blocks that were given
  out are marked; for every file an inode of its type, with one link and its size (that of the root
  directory rounded up to the end of the next block), whose block map leads to exactly its bytes, filled
  up with zeros; all of this in data blocks that are marked as used and that no two files share. The
  root directory holds an entry for itself, one for its parent, and one per file with its name and inode
  number.
\<close>

theorem mkfs_kernel_view:
  assumes "\<forall>f \<in> set files. slash \<notin> set (fst f)" "fits (image_files files)"
  shows "\<exists>t. mkfs_main files mkfs_init = Done () t \<and> decode_sb (img t 1) = mk_sb \<and>
    freeblock t = nmeta + need (image_files files) \<and>
    (\<forall>b < FSSIZE. bmap_bit (img t (unat (sb_bmapstart mk_sb))) b \<longleftrightarrow> b < freeblock t) \<and>
    (\<forall>k \<le> length files. case image_files files ! k of (ty, C) \<Rightarrow>
       i_type (dino t (Suc k)) = ty \<and> i_nlink (dino t (Suc k)) = 1 \<and>
       unat (i_size (dino t (Suc k))) = (if k = 0 then (length C div BSIZE + 1) * BSIZE else length C) \<and>
       file_bytes (img t) (dino t (Suc k)) (nblk (length C)) = pad C \<and>
       area t (Suc k) (ty, C) \<subseteq> {nmeta ..< freeblock t}) \<and>
    (\<forall>j \<le> length files. \<forall>k \<le> length files. j \<noteq> k \<longrightarrow>
       area t (Suc j) (image_files files ! j) \<inter> area t (Suc k) (image_files files ! k) = {})"
proof -
  let ?F = "image_files files"
  obtain s where s: "mkfs_main files mkfs_init = kseq (fix_root 1) (kbind (kget freeblock) mk_balloc) s" "img_inv s ?F"
    using files_inv [OF assms] by auto
  have small: "length (snd (?F ! k)) \<le> 512 * MAXFILE" if "k < length ?F" for k
    using assms(2) nth_mem [OF that] nblk_le [of "length (snd (?F ! k))"] unfolding fits_def by fastforce
  have len: "length ?F = Suc (length files)" by (simp add: image_files_def)
  obtain t where t: "mkfs_main files mkfs_init = Done () t" "freeblock t = freeblock s" "img t 1 = img s 1"
      "\<forall>k < 1000. bmap_bit (img t (unat (sb_bmapstart mk_sb))) k \<longleftrightarrow> k < freeblock s"
      "\<forall>k. nmeta \<le> k \<longrightarrow> img t k = img s k" "\<forall>k < 208. k \<noteq> 1 \<longrightarrow> dino t k = dino s k"
      "dino t 1 = (dino s 1)\<lparr>i_size := of_nat ((length (snd (?F ! 0)) div BSIZE + 1) * BSIZE)\<rparr>"
    using finish_run [OF s(2)] small [of 0] len s(1) by auto
  have f: "stores (img t) (freeblock t) (dino t (Suc k)) (snd (?F ! k))" "area t (Suc k) (?F ! k) = area s (Suc k) (?F ! k)"
    if k: "k \<le> length files" for k
  proof -
    have kl: "k < length ?F" using k len by simp
    have "stores (img s) (freeblock s) (dino s (Suc k)) (snd (?F ! k))" using inv_holds [OF s(2) kl] by (simp add: holds_def)
    moreover have "img t m = img s m" if "m \<in> fblocks (img s) (dino s (Suc k)) (snd (?F ! k))" for m
      using area_range [OF s(2) kl] that t(5) by (auto simp: area_def)
    moreover have "dino t (Suc k) = dino s (Suc k) \<or> (\<exists>z. dino t (Suc k) = (dino s (Suc k))\<lparr>i_size := z\<rparr>)"
      using t(6,7) inv_ino [OF s(2) kl] by (cases k) auto
    ultimately show "stores (img t) (freeblock t) (dino t (Suc k)) (snd (?F ! k))" "area t (Suc k) (?F ! k) = area s (Suc k) (?F ! k)"
      using stores_frame [of "img s" "freeblock s" "dino s (Suc k)" "snd (?F ! k)" "img t" "freeblock t"] t(2) by (auto simp: area_def)
  qed
  have "case ?F ! k of (ty, C) \<Rightarrow> i_type (dino t (Suc k)) = ty \<and> i_nlink (dino t (Suc k)) = 1 \<and>
       unat (i_size (dino t (Suc k))) = (if k = 0 then (length C div BSIZE + 1) * BSIZE else length C) \<and>
       file_bytes (img t) (dino t (Suc k)) (nblk (length C)) = pad C \<and>
       area t (Suc k) (ty, C) \<subseteq> {nmeta ..< freeblock t}" if k: "k \<le> length files" for k
  proof -
    have kl: "k < length ?F" using k len by simp
    obtain ty C where F: "?F ! k = (ty, C)" by fastforce
    obtain a where a: "dino s (Suc k) = mk_dinode ty (length C) a" using inv_holds [OF s(2) kl] F by (auto simp: holds_def)
    have n: "length C \<le> 71680" using small [OF kl] F by (simp add: MAXFILE_def NDIRECT_def NINDIRECT_def)
    then have z: "(length C div BSIZE + 1) * BSIZE < 2 ^ 32" by (simp add: BSIZE_def)
    have d: "dino t (Suc k) = mk_dinode ty (if k = 0 then (length C div BSIZE + 1) * BSIZE else length C) a"
      using a t(6,7) inv_ino [OF s(2) kl] F by (cases k) (simp_all add: mk_dinode_def)
    have "unat (i_size (dino t (Suc k))) = (if k = 0 then (length C div BSIZE + 1) * BSIZE else length C)"
      unfolding d mk_dinode_def using n z by (simp add: unat_of_nat)
    then show ?thesis using F f(1) [OF k] stores_range [OF f(1) [OF k]] d
      by (simp add: stores_def area_def mk_dinode_def)
  qed
  moreover have "area t (Suc j) (?F ! j) \<inter> area t (Suc k) (?F ! k) = {}" if "j \<le> length files" "k \<le> length files" "j \<noteq> k" for j k
    using f(2) that inv_disjoint [OF s(2), of j k] len by simp
  moreover have "decode_sb (img t 1) = mk_sb" using s(2) t(3) super_block(1) by (simp add: img_inv_def)
  moreover have "freeblock t = nmeta + need ?F" using s(2) t(2) by (simp add: img_inv_def)
  ultimately show ?thesis using t(1,2,4) by (intro exI [of _ t]) (simp add: FSSIZE_def)
qed

theorem mkfs_kernel_view_witness:
  "\<exists>t. mkfs_main [([0x5F, 0x61], [1, 2, 3])] mkfs_init = Done () t \<and> freeblock t = 61 \<and>
     i_type (dino t 2) = T_FILE \<and> unat (i_size (dino t 2)) = 3 \<and> take 3 (file_bytes (img t) (dino t 2) 1) = [1, 2, 3] \<and>
     unat (i_size (dino t 1)) = 512 \<and>
     take 48 (file_bytes (img t) (dino t 1) 1) =
       encode_dirent 1 [0x2E] @ encode_dirent 1 [0x2E, 0x2E] @ encode_dirent 2 [0x61]"
proof -
  let ?f = "[([0x5F, 0x61], [1, 2, 3])] :: (byte list \<times> byte list) list"
  let ?R = "encode_dirent 1 [0x2E] @ encode_dirent 1 [0x2E, 0x2E] @ encode_dirent 2 [0x61]"
  have l: "length (encode_dirent n m) = 16" for n m
    by (simp add: encode_dirent_def DIRSIZ_def)
  have F: "image_files ?f = [(T_DIR, ?R), (T_FILE, [1, 2, 3])]"
    by (simp add: image_files_def root_dir_def mk_name_def)
  have fit: "fits (image_files ?f)" and nd: "need (image_files ?f) = 2"
    unfolding F fits_def need_def
    by (simp_all add: l nblk_def blocks_of_def cost_def MAXFILE_def NDIRECT_def NINDIRECT_def FSSIZE_def nmeta_eq NINODES_def)
  have "\<forall>f \<in> set ?f. slash \<notin> set (fst f)" by (simp add: slash_def)
  from mkfs_kernel_view [OF this fit] obtain t where
    t: "mkfs_main ?f mkfs_init = Done () t" "freeblock t = 61" and
    k: "\<forall>k \<le> 1. case image_files ?f ! k of (ty, C) \<Rightarrow>
       i_type (dino t (Suc k)) = ty \<and> i_nlink (dino t (Suc k)) = 1 \<and>
       unat (i_size (dino t (Suc k))) = (if k = 0 then (length C div BSIZE + 1) * BSIZE else length C) \<and>
       file_bytes (img t) (dino t (Suc k)) (nblk (length C)) = pad C"
    unfolding nd nmeta_eq by (auto split: prod.splits)
  have b: "nblk (Suc (Suc (Suc 0))) = 1" "nblk 48 = 1" by (simp_all add: nblk_def)
  show ?thesis using t k [rule_format, of 0] k [rule_format, of 1]
    unfolding F by (intro exI [of _ t]) (simp add: l b pad_def BSIZE_def numeral_2_eq_2)
qed

end
