(* ===== verification/Ulib.thy ===== *)
theory Ulib
  imports Cstring "HOL-Library.Monad_Syntax"
begin

text \<open>
  The user library: the string routines of \<^verbatim>\<open>ulib.c\<close>, \<^verbatim>\<open>printf.c\<close>, and the view a user program has
  of its open files. Strings are lists of bytes, read as NUL past their end, as in \<^verbatim>\<open>Cstring\<close>;
  what a program prints is the list of its \<^verbatim>\<open>write\<close> calls. Names that string.c has too carry the
  prefix \<open>u_\<close>.
\<close>

definition ascii :: "string \<Rightarrow> byte list" where
  "ascii s = map of_char s"

abbreviation newline :: byte where "newline \<equiv> 10"

section \<open>Strings\<close>

lemma hdz_length [termination_simp]: "hdz t \<noteq> 0 \<Longrightarrow> length t - Suc 0 < length t"
  by (cases t) simp_all

text \<open>The bytes \<^verbatim>\<open>strcpy\<close> stores: the string and its NUL.\<close>

fun u_strcpy :: "byte list \<Rightarrow> byte list" where
  "u_strcpy t = (if hdz t = 0 then [0] else hdz t # u_strcpy (tl t))"

declare u_strcpy.simps [simp del]

text \<open>\<^verbatim>\<open>strcmp\<close> ends, as a string ends.\<close>

fun u_strcmp :: "byte list \<Rightarrow> byte list \<Rightarrow> int" where
  "u_strcmp p q = (if hdz p \<noteq> 0 \<and> hdz p = hdz q then u_strcmp (tl p) (tl q) else uint (hdz p) - uint (hdz q))"

declare u_strcmp.simps [simp del]

text \<open>\<^verbatim>\<open>strchr\<close>: the place of the first occurrence before the NUL.\<close>

fun u_strchr :: "byte list \<Rightarrow> byte \<Rightarrow> nat option" where
  "u_strchr [] c = None"
| "u_strchr (x # xs) c = (if x = 0 then None else if x = c then Some 0 else map_option Suc (u_strchr xs c))"

text \<open>\<^verbatim>\<open>atoi\<close>; the sum wraps around as 32-bit arithmetic does.\<close>

fun atoi_loop :: "byte list \<Rightarrow> u32 \<Rightarrow> u32" where
  "atoi_loop [] n = n"
| "atoi_loop (c # cs) n = (if 48 \<le> c \<and> c \<le> 57 then atoi_loop cs (n * 10 + ucast c - 48) else n)"

definition atoi :: "byte list \<Rightarrow> u32" where
  "atoi s = atoi_loop s 0"

text \<open>The copy of \<^verbatim>\<open>ulib.c\<close> always goes forwards; a negative count copies nothing.\<close>

definition u_memmove :: "addr \<Rightarrow> addr \<Rightarrow> int \<Rightarrow> memory \<Rightarrow> memory" where
  "u_memmove vdst vsrc n m = memmove_fwd (nat n) vdst vsrc m"

definition u_memset :: "addr \<Rightarrow> u32 \<Rightarrow> u32 \<Rightarrow> memory \<Rightarrow> memory" where
  "u_memset dst c n m = stosb (unat n) dst (ucast c) m"

section \<open>Reading and writing\<close>

text \<open>
  What is left to read on a descriptor: the pieces in which it arrives, or a failing read.
  A \<^verbatim>\<open>read\<close> of at most \<open>k\<close> bytes returns the next piece or its first \<open>k\<close> bytes; at the end it
  returns no bytes. A file is one piece; a pipe or the console gives what has been written so far.
\<close>

datatype piece = Piece "byte list" | Bad_Read

type_synonym instream = "piece list"

fun uread :: "nat \<Rightarrow> instream \<Rightarrow> byte list option \<times> instream" where
  "uread k [] = (Some [], [])"
| "uread k (Bad_Read # ps) = (None, ps)"
| "uread k (Piece bs # ps) = (if length bs \<le> k then (Some bs, ps) else (Some (take k bs), Piece (drop k bs) # ps))"

primrec piece_size :: "piece \<Rightarrow> nat" where
  "piece_size (Piece bs) = Suc (length bs)"
| "piece_size Bad_Read = 1"

definition stream_size :: "instream \<Rightarrow> nat" where
  "stream_size ps = sum_list (map piece_size ps)"

lemma uread_decreases: "uread k ps = (Some bs, ps') \<Longrightarrow> bs \<noteq> [] \<Longrightarrow> stream_size ps' < stream_size ps"
  by (induction k ps rule: uread.induct) (auto simp: stream_size_def split: if_splits)

lemma uread_length: "uread k ps = (Some bs, ps') \<Longrightarrow> length bs \<le> k"
  by (induction k ps rule: uread.induct) (auto split: if_splits)

text \<open>\<^verbatim>\<open>gets\<close>: the characters stored before the NUL, at most \<open>max - 1\<close> of them.\<close>

primrec gets_loop :: "nat \<Rightarrow> instream \<Rightarrow> byte list \<times> instream" where
  "gets_loop 0 ps = ([], ps)"
| "gets_loop (Suc k) ps =
     (case uread 1 ps of
        (Some (c # _), ps') \<Rightarrow>
          if c = newline \<or> c = 13 then ([c], ps')
          else (let (cs, ps'') = gets_loop k ps' in (c # cs, ps''))
      | (_, ps') \<Rightarrow> ([], ps'))"

definition gets :: "int \<Rightarrow> instream \<Rightarrow> byte list \<times> instream" where
  "gets maxlen ps = gets_loop (nat (maxlen - 1)) ps"

type_synonym writes = "(int \<times> byte list) list"

section \<open>Formatted output\<close>

definition digit_byte :: "nat \<Rightarrow> byte" where
  "digit_byte d = ascii ''0123456789ABCDEF'' ! d"

text \<open>
  The digits in \<^verbatim>\<open>buf\<close>, lowest first; the fuel is the sixteen bytes of the buffer and \<open>None\<close> a
  store outside it.
\<close>

primrec printint_loop :: "nat \<Rightarrow> u32 \<Rightarrow> u32 \<Rightarrow> byte list option" where
  "printint_loop 0 x base = None"
| "printint_loop (Suc room) x base =
     (let d = digit_byte (unat (x mod base)); x' = x div base
      in if x' \<noteq> 0 then map_option ((#) d) (printint_loop room x' base) else Some [d])"

definition u_printint :: "u32 \<Rightarrow> u32 \<Rightarrow> bool \<Rightarrow> byte list option" where
  "u_printint xx base sg =
     do { let neg = (sg \<and> sint xx < 0);
          digs \<leftarrow> printint_loop 16 (if neg then - xx else xx) base;
          if neg then (if length digs < 16 then Some (rev (digs @ ascii ''-'')) else None)
          else Some (rev digs) }"

text \<open>
  The arguments behind the format: a number, or a pointer to a string (the null pointer is the
  number 0). \<open>None\<close> stands for an argument that is missing or of the wrong kind.
\<close>

datatype parg = PNum u32 | PStr "byte list"

fun printf_go :: "bool \<Rightarrow> byte list \<Rightarrow> parg list \<Rightarrow> byte list option" where
  "printf_go st [] ap = Some []"
| "printf_go st (c # fmt) ap =
     (if c = 0 then Some []
      else if \<not> st then
        (if c = of_char CHR ''%'' then printf_go True fmt ap
         else map_option ((#) c) (printf_go False fmt ap))
      else if c = of_char CHR ''d'' then
        (case ap of PNum x # ap' \<Rightarrow>
           do { ds \<leftarrow> u_printint x 10 True; r \<leftarrow> printf_go False fmt ap'; Some (ds @ r) } | _ \<Rightarrow> None)
      else if c = of_char CHR ''x'' \<or> c = of_char CHR ''p'' then
        (case ap of PNum x # ap' \<Rightarrow>
           do { ds \<leftarrow> u_printint x 16 False; r \<leftarrow> printf_go False fmt ap'; Some (ds @ r) } | _ \<Rightarrow> None)
      else if c = of_char CHR ''s'' then
        (case ap of PStr s # ap' \<Rightarrow> map_option ((@) (cstr s)) (printf_go False fmt ap')
         | PNum x # ap' \<Rightarrow>
             if x = 0 then map_option ((@) (ascii ''(null)'')) (printf_go False fmt ap') else None
         | [] \<Rightarrow> None)
      else if c = of_char CHR ''c'' then
        (case ap of PNum x # ap' \<Rightarrow> map_option ((#) (ucast x)) (printf_go False fmt ap') | _ \<Rightarrow> None)
      else if c = of_char CHR ''%'' then map_option ((#) c) (printf_go False fmt ap)
      else map_option ((@) [of_char CHR ''%'', c]) (printf_go False fmt ap))"

text \<open>Each character is a \<^verbatim>\<open>write\<close> of its own.\<close>

definition u_printf :: "int \<Rightarrow> string \<Rightarrow> parg list \<Rightarrow> writes option" where
  "u_printf fd fmt args = map_option (map (\<lambda>c. (fd, [c]))) (printf_go False (ascii fmt) args)"

section \<open>Properties\<close>

lemma u_strcmp_zero: "u_strcmp p q = 0 \<longleftrightarrow> cstr p = cstr q"
proof (induction p q rule: u_strcmp.induct)
  case (1 p q)
  have "uint (hdz p) - uint (hdz q) = 0 \<longleftrightarrow> hdz p = hdz q" by (simp add: word_uint_eq_iff)
  with 1 show ?case
    by (subst u_strcmp.simps, subst (1 2) cstr_step) auto
qed

lemma u_strcpy_cstr: "u_strcpy t = cstr t @ [0]"
  by (induction t rule: u_strcpy.induct) (subst u_strcpy.simps, subst cstr_step, simp)

lemma u_strchr_Some:
  "u_strchr s c = Some i \<Longrightarrow> i < length s \<and> s ! i = c \<and> c \<noteq> 0 \<and> (\<forall>j \<le> i. s ! j \<noteq> 0) \<and> c \<notin> set (take i s)"
proof (induction s arbitrary: i)
  case (Cons x s)
  then show ?case by (cases i) (auto simp: less_Suc_eq_0_disj le_Suc_eq nth_Cons split: if_splits nat.splits)
qed simp

lemma u_strchr_None: "u_strchr s c = None \<longleftrightarrow> c \<notin> set (cstr s) "
  by (induction s) (auto simp: cstr_def)

subsection \<open>Numbers\<close>

lemma digit_byte_less10: "d < 10 \<Longrightarrow> digit_byte d = of_nat (48 + d)"
  by (simp add: digit_byte_def ascii_def less_Suc_eq numeral_eq_Suc) (elim disjE; simp)

abbreviation is_digit :: "byte \<Rightarrow> bool" where "is_digit c \<equiv> 48 \<le> c \<and> c \<le> 57"

lemma atoi_loop_append:
  "list_all is_digit xs \<Longrightarrow> atoi_loop (xs @ ys) n = atoi_loop ys (atoi_loop xs n)"
  by (induction xs arbitrary: n) simp_all

lemma digit_byte_value:
  assumes "(x :: u32) < 10"
  shows "is_digit (digit_byte (unat x)) \<and> n * 10 + ucast (digit_byte (unat x)) - 48 = n * 10 + x"
proof -
  have "unat x < 10" using assms by (simp add: word_less_nat_alt)
  then have d: "digit_byte (unat x) = of_nat (48 + unat x)" and "48 + unat x < 256"
    by (simp_all add: digit_byte_less10)
  then have u: "unat (digit_byte (unat x)) = 48 + unat x" by (simp only: unat_of_nat) simp
  then have "ucast (digit_byte (unat x)) = 48 + x"
    by (intro word_unat_eq_iff [THEN iffD2]) (use \<open>unat x < 10\<close> in \<open>simp add: unsigned_ucast_eq unat_add_small take_bit_nat_eq_self\<close>)
  with u \<open>unat x < 10\<close> show ?thesis by (simp add: word_le_nat_alt)
qed

lemma printint_loop_mono: "printint_loop k x b = Some ds \<Longrightarrow> printint_loop (Suc k) x b = Some ds"
proof (induction k arbitrary: x ds)
  case (Suc k)
  from Suc.prems have "case x div b = 0 of True \<Rightarrow> ds = [digit_byte (unat (x mod b))]
      | False \<Rightarrow> \<exists>z. printint_loop k (x div b) b = Some z \<and> ds = digit_byte (unat (x mod b)) # z"
    by (auto simp: Let_def split: if_splits)
  then show ?case using Suc.IH [of "x div b"]
    by (cases "x div b = 0") (auto simp: printint_loop.simps(2) [of "Suc k"] Let_def simp del: printint_loop.simps(2))
qed simp

lemma printint_loop_decimal:
  "room > 0 \<Longrightarrow> unat x < 10 ^ room \<Longrightarrow>
   \<exists>ds. printint_loop room x 10 = Some ds \<and> ds \<noteq> [] \<and> length ds \<le> room \<and> list_all is_digit (rev ds) \<and>
        atoi_loop (rev ds) 0 = x"
proof (induction room arbitrary: x)
  case (Suc room)
  let ?d = "digit_byte (unat (x mod 10))"
  have m: "x mod 10 < 10" by (simp add: word_mod_less_divisor)
  have d: "is_digit ?d" "n * 10 + ucast ?d - 48 = n * 10 + x mod 10" for n
    using digit_byte_value [OF m] by blast+
  have x: "x div 10 * 10 + x mod 10 = x" by (rule div_mult_mod_eq)
  show ?case
  proof (cases "x div 10 = 0")
    case True
    then show ?thesis using d(1) d(2) [of 0] x by (simp add: Let_def)
  next
    case False
    then have "unat x div 10 \<noteq> 0" by (auto simp: unat_div word_unat_eq_iff)
    moreover have "unat x div 10 < 10 ^ room" using Suc.prems(2) by (simp add: less_mult_imp_div_less mult.commute)
    ultimately have "room > 0" "unat (x div 10) < 10 ^ room" by (auto simp: unat_div intro: gr0I)
    with Suc.IH obtain ds where "printint_loop room (x div 10) 10 = Some ds" "length ds \<le> room"
      "list_all is_digit (rev ds)" "atoi_loop (rev ds) 0 = x div 10" by blast
    with False d(1) d(2) [of "x div 10"] x show ?thesis by (simp add: Let_def atoi_loop_append)
  qed
qed simp

text \<open>
  C38 (printing and reading numbers): \<^verbatim>\<open>printint\<close> in base 10 never runs over its sixteen-byte buffer
  for any 32-bit number, it prints a minus sign exactly for negative numbers, and \<^verbatim>\<open>atoi\<close> reads the
  digits back as the number (its absolute value behind a minus sign).
\<close>

theorem printint_atoi:
  "\<exists>ds. u_printint x 10 True = Some ds \<and> length ds \<le> 16 \<and>
     (if sint x < 0 then hd ds = of_char CHR ''-'' \<and> atoi (tl ds) = - x else atoi ds = x)"
proof -
  have lt: "unat y < 10 ^ 15" for y :: u32 using unsigned_less [of y, where ?'a = nat] by simp
  have len: "\<exists>ds. printint_loop 16 y 10 = Some ds \<and> length ds \<le> 15 \<and> atoi (rev ds) = y" for y
  proof -
    obtain ds where "printint_loop 15 y 10 = Some ds" "length ds \<le> 15" "atoi_loop (rev ds) 0 = y"
      using printint_loop_decimal [of 15 y] lt [of y] by auto
    then show ?thesis using printint_loop_mono [of 15 y 10 ds] by (auto simp: atoi_def)
  qed
  show ?thesis using len [of x] len [of "- x"]
    by (auto simp: u_printint_def ascii_def Let_def)
qed

end
