(* ===== verification/Grep.thy ===== *)
theory Grep
  imports Ulib
begin

text \<open>
  The program \<^verbatim>\<open>grep.c\<close>: its regular-expression matcher, with the language of a pattern as the
  specification, and its loop over the lines of a file.
\<close>

section \<open>The matcher\<close>

abbreviation caret :: byte where "caret \<equiv> 0x5E"
abbreviation star :: byte where "star \<equiv> 0x2A"
abbreviation dollar :: byte where "dollar \<equiv> 0x24"
abbreviation dot :: byte where "dot \<equiv> 0x2E"

function (sequential) matchhere :: "byte list \<Rightarrow> byte list \<Rightarrow> bool"
  and matchstar :: "byte \<Rightarrow> byte list \<Rightarrow> byte list \<Rightarrow> bool" where
  "matchhere re tx =
     (if hdz re = 0 then True
      else if hdz (tl re) = star then matchstar (hdz re) (tl (tl re)) tx
      else if hdz re = dollar \<and> hdz (tl re) = 0 then hdz tx = 0
      else if hdz tx \<noteq> 0 \<and> (hdz re = dot \<or> hdz re = hdz tx) then matchhere (tl re) (tl tx)
      else False)"
| "matchstar c re tx =
     (if matchhere re tx then True
      else if hdz tx \<noteq> 0 \<and> (hdz tx = c \<or> c = dot) then matchstar c re (tl tx)
      else False)"
  by pat_completeness auto

termination
  by (relation "measure (\<lambda>x. case x of Inl (re, tx) \<Rightarrow> 2 * length re + length tx
                                     | Inr (c, re, tx) \<Rightarrow> 2 * length re + length tx + 1)")
     (auto simp: hdz_def split: list.splits)

declare matchhere.simps [simp del] matchstar.simps [simp del]

fun match_loop :: "byte list \<Rightarrow> byte list \<Rightarrow> bool" where
  "match_loop re tx = (if matchhere re tx then True else if hdz tx \<noteq> 0 then match_loop re (tl tx) else False)"

declare match_loop.simps [simp del]

definition match :: "byte list \<Rightarrow> byte list \<Rightarrow> bool" where
  "match re tx = (if hdz re = caret then matchhere (tl re) tx else match_loop re tx)"

section \<open>Reading and printing lines\<close>

text \<open>
  The inner loop from \<^verbatim>\<open>p\<close> on: the lines written and the rest of the buffer behind the last newline.
\<close>

function grep_lines :: "byte list \<Rightarrow> byte list \<Rightarrow> writes \<times> byte list" where
  "grep_lines pattern p =
     (case u_strchr p newline of
        None \<Rightarrow> ([], p)
      | Some q \<Rightarrow>
          (let (ws, r) = grep_lines pattern (drop (q + 1) p)
           in (if match pattern (take q p) then (1, take (q + 1) p) # ws else ws, r)))"
  by pat_completeness auto

termination
  by (relation "measure (\<lambda>(_, p). length p)") (auto dest: u_strchr_Some)

declare grep_lines.simps [simp del]

text \<open>
  The outer loop; \<open>b\<close> is the start of \<^verbatim>\<open>buf\<close> up to \<^verbatim>\<open>m\<close>. The buffer is given up when it holds no
  newline.
\<close>

function grep :: "byte list \<Rightarrow> byte list \<Rightarrow> instream \<Rightarrow> writes" where
  "grep pattern b ps =
     (case uread (1024 - length b - 1) ps of
        (Some (c # cs), ps') \<Rightarrow>
          (let b' = b @ c # cs; (ws, r) = grep_lines pattern b'
           in ws @ grep pattern (if length r = length b' then [] else r) ps')
      | _ \<Rightarrow> [])"
  by pat_completeness auto

termination
  by (relation "measure (\<lambda>(_, _, ps). stream_size ps)") (auto dest!: sym [of _ "uread _ _"] uread_decreases)

declare grep.simps [simp del]

text \<open>
  The program: its arguments behind the program name, standard input, and what opening a name
  leads to.
\<close>

primrec grep_files :: "byte list \<Rightarrow> (byte list \<Rightarrow> instream option) \<Rightarrow> byte list list \<Rightarrow> writes option" where
  "grep_files pattern fs [] = Some []"
| "grep_files pattern fs (f # args) =
     (case fs f of
        None \<Rightarrow> u_printf 1 (''grep: cannot open %s'' @ [CHR 0x0A]) [PStr f]
      | Some ps \<Rightarrow> map_option ((@) (grep pattern [] ps)) (grep_files pattern fs args))"

definition grep_main :: "byte list list \<Rightarrow> instream \<Rightarrow> (byte list \<Rightarrow> instream option) \<Rightarrow> writes option" where
  "grep_main args stdin fs =
     (case args of
        [] \<Rightarrow> u_printf 2 (''usage: grep pattern [file ...]'' @ [CHR 0x0A]) []
      | [pattern] \<Rightarrow> Some (grep pattern [] stdin)
      | pattern # files \<Rightarrow> grep_files pattern fs files)"

section \<open>The language of a pattern\<close>

text \<open>
  A pattern is a sequence of single and starred characters, where a dot stands for any character,
  with an optional dollar sign at its end.
\<close>

datatype item = One byte | Many byte

fun items :: "byte list \<Rightarrow> item list \<times> bool" where
  "items [] = ([], False)"
| "items [c] = (if c = dollar then ([], True) else ([One c], False))"
| "items (c # d # re) =
     (if d = star then (let (is, e) = items re in (Many c # is, e))
      else (let (is, e) = items (d # re) in (One c # is, e)))"

definition fits :: "byte \<Rightarrow> byte \<Rightarrow> bool" where
  "fits c x \<longleftrightarrow> c = dot \<or> c = x"

fun item_lang :: "item \<Rightarrow> byte list set" where
  "item_lang (One c) = {[x] | x. fits c x}"
| "item_lang (Many c) = {w. \<forall>x \<in> set w. fits c x}"

primrec items_lang :: "item list \<Rightarrow> byte list set" where
  "items_lang [] = {[]}"
| "items_lang (i # is) = {u @ v | u v. u \<in> item_lang i \<and> v \<in> items_lang is}"

definition prefix_matches :: "item list \<times> bool \<Rightarrow> byte list \<Rightarrow> bool" where
  "prefix_matches p w \<longleftrightarrow> (\<exists>u v. w = u @ v \<and> u \<in> items_lang (fst p) \<and> (snd p \<longrightarrow> v = []))"

text \<open>A text matches when some part of it does: its start behind a caret, any part otherwise.\<close>

definition text_matches :: "byte list \<Rightarrow> byte list \<Rightarrow> bool" where
  "text_matches re w \<longleftrightarrow>
     (if re \<noteq> [] \<and> hd re = caret then prefix_matches (items (tl re)) w
      else \<exists>u v. w = u @ v \<and> prefix_matches (items re) v)"

lemma prefix_matches_Cons:
  "prefix_matches (i # is, e) w \<longleftrightarrow> (\<exists>x y. w = x @ y \<and> x \<in> item_lang i \<and> prefix_matches (is, e) y)"
proof -
  have "prefix_matches (i # is, e) w \<longleftrightarrow>
        (\<exists>x u v. w = (x @ u) @ v \<and> x \<in> item_lang i \<and> u \<in> items_lang is \<and> (e \<longrightarrow> v = []))"
    unfolding prefix_matches_def fst_conv snd_conv items_lang.simps mem_Collect_eq by blast
  also have "\<dots> \<longleftrightarrow> (\<exists>x y. w = x @ y \<and> x \<in> item_lang i \<and> prefix_matches (is, e) y)"
    unfolding prefix_matches_def fst_conv snd_conv append_assoc by blast
  finally show ?thesis .
qed

lemma prefix_matches_One:
  "prefix_matches (One c # is, e) w \<longleftrightarrow> w \<noteq> [] \<and> fits c (hd w) \<and> prefix_matches (is, e) (tl w)"
proof -
  have "prefix_matches (One c # is, e) w \<longleftrightarrow> (\<exists>a y. w = [a] @ y \<and> fits c a \<and> prefix_matches (is, e) y)"
    unfolding prefix_matches_Cons item_lang.simps mem_Collect_eq by blast
  then show ?thesis by (cases w) auto
qed

lemma prefix_matches_Many:
  "prefix_matches (Many c # is, e) w \<longleftrightarrow>
   prefix_matches (is, e) w \<or> (w \<noteq> [] \<and> fits c (hd w) \<and> prefix_matches (Many c # is, e) (tl w))"
  (is "?l \<longleftrightarrow> ?n \<or> ?m")
proof (intro iffI)
  assume ?l
  then obtain x y where w: "w = x @ y" "\<forall>b \<in> set x. fits c b" "prefix_matches (is, e) y"
    by (auto simp: prefix_matches_Cons)
  show "?n \<or> ?m"
  proof (cases x)
    case (Cons b z)
    then have "\<exists>z y. tl w = z @ y \<and> (\<forall>b \<in> set z. fits c b) \<and> prefix_matches (is, e) y"
      using w by (intro exI [of _ z] exI [of _ y]) simp
    with Cons w show ?thesis by (simp add: prefix_matches_Cons)
  qed (use w in simp)
next
  assume "?n \<or> ?m"
  then show ?l
  proof
    assume ?n
    then show ?l unfolding prefix_matches_Cons by (intro exI [of _ "[]"] exI [of _ w]) simp
  next
    assume ?m
    then obtain x y where "w \<noteq> []" "fits c (hd w)" "tl w = x @ y" "\<forall>b \<in> set x. fits c b" "prefix_matches (is, e) y"
      by (auto simp: prefix_matches_Cons)
    then show ?l unfolding prefix_matches_Cons
      by (intro exI [of _ "hd w # x"] exI [of _ y]) (cases w; simp)
  qed
qed

lemma prefix_matches_Nil: "prefix_matches ([], e) w \<longleftrightarrow> (e \<longrightarrow> w = [])"
  by (auto simp: prefix_matches_def)

lemmas prefix_matches_simps = prefix_matches_One prefix_matches_Many prefix_matches_Nil

text \<open>On texts and patterns without NUL the two routines decide these sets.\<close>

lemma hdz_zero: "0 \<notin> set w \<Longrightarrow> hdz w = 0 \<longleftrightarrow> w = []"
  by (cases w) auto

lemma notin_set_tl: "x \<notin> set w \<Longrightarrow> x \<notin> set (tl w)"
  by (cases w) auto

lemma items_Many: "hdz (tl re) = star \<Longrightarrow> items re = (Many (hdz re) # fst (items (tl (tl re))), snd (items (tl (tl re))))"
  by (induction re rule: items.induct) (auto split: prod.splits)

lemma items_One:
  "re \<noteq> [] \<Longrightarrow> hdz (tl re) \<noteq> star \<Longrightarrow> \<not> (hdz re = dollar \<and> tl re = []) \<Longrightarrow>
   items re = (One (hdz re) # fst (items (tl re)), snd (items (tl re)))"
  by (induction re rule: items.induct) (auto split: prod.splits)

lemma matchhere_matchstar:
  "0 \<notin> set re \<Longrightarrow> 0 \<notin> set tx \<Longrightarrow> matchhere re tx \<longleftrightarrow> prefix_matches (items re) tx"
  "0 \<notin> set re \<Longrightarrow> 0 \<notin> set tx \<Longrightarrow>
   matchstar c re tx \<longleftrightarrow> prefix_matches (Many c # fst (items re), snd (items re)) tx"
proof (induction re tx and c re tx rule: matchhere_matchstar.induct)
  case (1 re tx)
  note z = hdz_zero [OF 1(3)] hdz_zero [OF notin_set_tl [OF 1(3)]] hdz_zero [OF 1(4)]
  consider "re = []" | "re \<noteq> []" "hdz (tl re) = star" | "hdz re = dollar" "re \<noteq> []" "tl re = []"
    | "re \<noteq> []" "hdz (tl re) \<noteq> star" "\<not> (hdz re = dollar \<and> tl re = [])" by blast
  then show ?case
  proof cases
    case 2
    then have "matchhere re tx = matchstar (hdz re) (tl (tl re)) tx" using z by (simp add: matchhere.simps)
    also have "\<dots> = prefix_matches (items re) tx"
      using 1(1) [OF _ 2(2)] 2 z 1(3,4) by (simp add: items_Many notin_set_tl)
    finally show ?thesis .
  next
    case 3
    then have "re = [dollar]" by (cases re) auto
    then show ?thesis using z by (simp add: matchhere.simps prefix_matches_Nil)
  next
    case 4
    then have "matchhere re tx \<longleftrightarrow> tx \<noteq> [] \<and> fits (hdz re) (hdz tx) \<and> matchhere (tl re) (tl tx)"
      using z by (auto simp: matchhere.simps [of re tx] fits_def)
    also have "\<dots> \<longleftrightarrow> tx \<noteq> [] \<and> fits (hdz re) (hd tx) \<and> prefix_matches (items (tl re)) (tl tx)"
      using 1(2) 4 z 1(3,4) by (cases tx) (auto simp: fits_def notin_set_tl)
    also have "\<dots> \<longleftrightarrow> prefix_matches (items re) tx"
      unfolding items_One [OF 4] prefix_matches_One by simp
    finally show ?thesis .
  qed (simp add: matchhere.simps prefix_matches_Nil)
next
  case (2 c re tx)
  have "matchstar c re tx \<longleftrightarrow> matchhere re tx \<or> (tx \<noteq> [] \<and> fits c (hd tx) \<and> matchstar c re (tl tx))"
    using hdz_zero [OF 2(4)] by (cases tx) (auto simp: matchstar.simps [of c re tx] matchstar.simps [of c re] fits_def)
  then show ?case using 2 by (subst prefix_matches_Many) (cases tx; auto simp: fits_def)
qed

lemma match_loop_spec:
  "0 \<notin> set re \<Longrightarrow> 0 \<notin> set tx \<Longrightarrow> match_loop re tx \<longleftrightarrow> (\<exists>u v. tx = u @ v \<and> prefix_matches (items re) v)"
proof (induction tx)
  case Nil
  then show ?case by (subst match_loop.simps) (simp add: matchhere_matchstar)
next
  case (Cons a tx)
  then show ?case
    by (subst match_loop.simps) (auto simp: matchhere_matchstar Cons_eq_append_conv)
qed

lemma match_spec:
  assumes "0 \<notin> set re" "0 \<notin> set tx"
  shows "match re tx \<longleftrightarrow> text_matches re tx"
  using assms match_loop_spec [of re tx] matchhere_matchstar(1) [of "tl re" tx]
  by (cases re) (auto simp: match_def text_matches_def)

text \<open>
  C32 (the matcher): \<^verbatim>\<open>match\<close>, \<^verbatim>\<open>matchhere\<close> and \<^verbatim>\<open>matchstar\<close> end on every pattern and text, and they
  accept exactly the texts some part of which is in the language of the pattern, from the start
  of the text behind a caret and up to its end before a dollar sign.
\<close>

theorem match_language:
  assumes "0 \<notin> set re" "0 \<notin> set tx"
  shows "match re tx \<longleftrightarrow> text_matches re tx"
  using assms by (rule match_spec)

theorem match_language_witness:
  "text_matches (ascii ''^a.*b$'') (ascii ''axyb'') \<and> \<not> text_matches (ascii ''^a.*b$'') (ascii ''cab'')"
proof -
  have "match (ascii ''^a.*b$'') (ascii ''axyb'')" "\<not> match (ascii ''^a.*b$'') (ascii ''cab'')"
    by (simp_all add: ascii_def match_def matchhere.simps matchstar.simps)
  moreover have "0 \<notin> set (ascii ''^a.*b$'')" "0 \<notin> set (ascii ''axyb'')" "0 \<notin> set (ascii ''cab'')"
    by (simp_all add: ascii_def)
  ultimately show ?thesis using match_language by blast
qed

section \<open>Filtering a file\<close>

definition nl :: "byte list \<Rightarrow> byte list" where
  "nl l = l @ [newline]"

definition plain :: "byte list \<Rightarrow> bool" where
  "plain l \<longleftrightarrow> newline \<notin> set l \<and> 0 \<notin> set l"

lemma u_strchr_plain_nl: "plain l \<Longrightarrow> u_strchr (nl l @ r) newline = Some (length l)"
  by (induction l) (auto simp: plain_def nl_def)

lemma u_strchr_plain_None: "plain r \<Longrightarrow> u_strchr r newline = None"
  by (auto simp: plain_def u_strchr_None cstr_def dest: set_takeWhileD)

lemma grep_lines_spec:
  "list_all plain ls \<Longrightarrow> plain r \<Longrightarrow> 
   grep_lines pattern (concat (map nl ls) @ r) = (map (\<lambda>l. (1, nl l)) (filter (match pattern) ls), r)"
proof (induction ls)
  case Nil
  then show ?case by (subst grep_lines.simps) (simp add: u_strchr_plain_None)
next
  case (Cons l ls)
  let ?r = "concat (map nl ls) @ r"
  have "u_strchr (nl l @ ?r) newline = Some (length l)" using Cons.prems by (intro u_strchr_plain_nl) simp
  moreover have "take (length l) (nl l @ ?r) = l" "take (length l + 1) (nl l @ ?r) = nl l" "drop (length l + 1) (nl l @ ?r) = ?r"
    by (simp_all add: nl_def)
  ultimately have "grep_lines pattern (nl l @ ?r) =
      (let (ws, q) = grep_lines pattern ?r in (if match pattern l then (1, nl l) # ws else ws, q))"
    by (subst grep_lines.simps) (simp only: option.case)
  with Cons show ?case by simp
qed

text \<open>A prefix of the file is some of its lines and the start of the next one.\<close>

lemma split_prefix:
  "x @ y = concat (map nl ls) @ rest \<Longrightarrow> list_all plain ls \<Longrightarrow> plain rest \<Longrightarrow>
   \<exists>ls1 ls2 r. ls = ls1 @ ls2 \<and> x = concat (map nl ls1) @ r \<and> r @ y = concat (map nl ls2) @ rest \<and> plain r"
proof (induction ls arbitrary: x)
  case Nil
  then have "plain x" by (metis plain_def Un_iff append_Nil concat.simps(1) list.simps(8) set_append)
  with Nil show ?case by simp
next
  case (Cons l ls)
  show ?case
  proof (cases "length x \<le> length l")
    case True
    with Cons.prems(1) have "x = take (length x) l"
      by (metis append.assoc append_eq_append_conv_if concat.simps(2) list.simps(9) nl_def)
    then have "set x \<subseteq> set l" by (metis set_take_subset)
    then have "plain x" using Cons.prems(2) by (auto simp: plain_def)
    with Cons.prems(1) show ?thesis by (intro exI [of _ "[]"] exI [of _ "l # ls"] exI [of _ x]) simp
  next
    case False
    then have "nl l = take (length (nl l)) (x @ y)" "length (nl l) \<le> length x"
      using Cons.prems(1) by (simp_all add: nl_def)
    then have "nl l = take (length (nl l)) x" by simp
    then obtain x' where x: "x = nl l @ x'" by (metis append_take_drop_id)
    with Cons.prems have "x' @ y = concat (map nl ls) @ rest" "list_all plain ls" by simp_all
    from Cons.IH [OF this Cons.prems(3)] obtain ls1 ls2 r where
      "ls = ls1 @ ls2" "x' = concat (map nl ls1) @ r" "r @ y = concat (map nl ls2) @ rest" "plain r" by blast
    with x show ?thesis by (intro exI [of _ "l # ls1"] exI [of _ ls2] exI [of _ r]) simp
  qed
qed

lemma concat_nl_length: "length (concat (map nl ls)) = sum_list (map length ls) + length ls"
  by (induction ls) (simp_all add: nl_def)

text \<open>A full buffer has a newline in it, when the lines are short enough.\<close>

lemma long_prefix:
  assumes "r @ y = concat (map nl ls) @ rest" "plain r" "\<forall>l \<in> set ls. length l < 1023" "length rest < 1023"
  shows "length r < 1023"
proof (cases ls)
  case Nil
  then show ?thesis using assms(1,4) by (metis append_Nil concat.simps(1) le_add1 length_append list.simps(8) order_le_less_trans)
next
  case (Cons l ls')
  have "length r \<le> length l"
  proof (rule ccontr)
    assume "\<not> ?thesis"
    then have "length l < length r" by simp
    then have "(r @ y) ! length l = r ! length l" by (simp add: nth_append)
    moreover have "(r @ y) ! length l = newline" using assms(1) Cons by (simp add: nl_def)
    ultimately show False using \<open>length l < length r\<close> assms(2) nth_mem [of "length l" r] by (simp add: plain_def)
  qed
  then show ?thesis using assms(3) Cons by auto
qed

lemma grep_spec:
  "b @ y = concat (map nl ls) @ rest \<Longrightarrow> list_all plain ls \<Longrightarrow> plain rest \<Longrightarrow> plain b \<Longrightarrow>
   \<forall>l \<in> set ls. length l < 1023 \<Longrightarrow> length rest < 1023 \<Longrightarrow>
   grep pattern b [Piece y] = map (\<lambda>l. (1, nl l)) (filter (match pattern) ls)"
proof (induction "length y" arbitrary: b y ls rule: less_induct)
  case less
  have b: "length b < 1023" using long_prefix [OF less.prems(1,4,5,6)] .
  let ?k = "1024 - length b - 1"
  show ?case
  proof (cases "length y \<le> ?k")
    case True
    then have "uread ?k [Piece y] = (Some y, [])" by simp
    moreover have "grep_lines pattern (b @ y) = (map (\<lambda>l. (1, nl l)) (filter (match pattern) ls), rest)"
      using less.prems by (simp add: grep_lines_spec)
    moreover have "grep pattern b' [] = []" for b' by (simp add: grep.simps)
    moreover have "ls = []" if "y = []"
    proof (cases ls)
      case (Cons l ls')
      then have "newline \<in> set b" using less.prems(1) that by (simp add: nl_def)
      then show ?thesis using less.prems(4) by (simp add: plain_def)
    qed
    ultimately show ?thesis by (subst grep.simps) (cases y; simp)
  next
    case False
    define b' where "b' = b @ take ?k y"
    have len: "length b' = 1023" using False b by (simp add: b'_def)
    have "b' @ drop ?k y = concat (map nl ls) @ rest" using less.prems(1) by (simp add: b'_def)
    from split_prefix [OF this less.prems(2,3)] obtain ls1 ls2 r where
      s: "ls = ls1 @ ls2" "b' = concat (map nl ls1) @ r" "r @ drop ?k y = concat (map nl ls2) @ rest" "plain r" by blast
    have r: "length r < 1023" using long_prefix [OF s(3,4)] less.prems(5,6) s(1) by simp
    obtain c cs where c: "take ?k y = c # cs" using False b by (cases "take ?k y") auto
    moreover have "uread ?k [Piece y] = (Some (take ?k y), [Piece (drop ?k y)])" using False by simp
    moreover have "grep_lines pattern b' = (map (\<lambda>l. (1, nl l)) (filter (match pattern) ls1), r)"
      using less.prems s by (simp add: grep_lines_spec)
    ultimately have "grep pattern b [Piece y] =
        map (\<lambda>l. (1, nl l)) (filter (match pattern) ls1) @ grep pattern r [Piece (drop ?k y)]"
      using len r by (subst grep.simps) (simp only: b'_def, simp)
    also have "grep pattern r [Piece (drop ?k y)] = map (\<lambda>l. (1, nl l)) (filter (match pattern) ls2)"
      using less.prems s False b by (intro less.hyps) auto
    finally show ?thesis using s(1) by simp
  qed
qed

text \<open>
  C33 (filtering a file): reading a file in pieces of the size of its buffer, \<^verbatim>\<open>grep\<close> ends and prints,
  in order and each by one \<^verbatim>\<open>write\<close>, exactly the lines that match, provided no line is longer than
  1022 bytes and the file holds no NUL; a last line without its newline is never printed.
\<close>

theorem grep_filters:
  assumes "list_all plain ls" "plain rest" "\<forall>l \<in> set ls. length l < 1023" "length rest < 1023" "0 \<notin> set pattern"
  shows "grep pattern [] [Piece (concat (map nl ls) @ rest)] =
         map (\<lambda>l. (1, nl l)) (filter (text_matches pattern) ls)"
proof -
  have "filter (match pattern) ls = filter (text_matches pattern) ls"
    using assms(1,5) by (intro filter_cong) (auto simp: list_all_iff plain_def match_spec)
  with grep_spec [of "[]" _ ls rest pattern] assms(1-4) show ?thesis by (simp add: plain_def)
qed

theorem grep_filters_witness:
  "grep (ascii ''b$'') [] [Piece (concat (map nl [ascii ''ab'', ascii ''ba'', ascii ''b'']) @ ascii ''xb'')] =
     [(1, nl (ascii ''ab'')), (1, nl (ascii ''b''))]"
proof -
  have p: "list_all plain [ascii ''ab'', ascii ''ba'', ascii ''b'']" "plain (ascii ''xb'')" "0 \<notin> set (ascii ''b$'')"
    "\<forall>l \<in> set [ascii ''ab'', ascii ''ba'', ascii ''b'']. length l < 1023" "length (ascii ''xb'') < 1023"
    by (simp_all add: plain_def ascii_def)
  have m: "text_matches (ascii ''b$'') w \<longleftrightarrow> match (ascii ''b$'') w" if "0 \<notin> set w" for w
    using match_spec [OF p(3) that] by simp
  have "text_matches (ascii ''b$'') (ascii ''ab'')" "\<not> text_matches (ascii ''b$'') (ascii ''ba'')"
    "text_matches (ascii ''b$'') (ascii ''b'')"
    by (subst m; simp add: ascii_def match_def match_loop.simps matchhere.simps)+
  with grep_filters [OF p(1,2,4,5,3)] show ?thesis by simp
qed

end
