(* ===== verification/Coreutils.thy ===== *)
theory Coreutils
  imports Ulib
begin

text \<open>
  The small user programs \<^verbatim>\<open>wc.c\<close>, \<^verbatim>\<open>cat.c\<close>, \<^verbatim>\<open>ls.c\<close>, \<^verbatim>\<open>echo.c\<close>, \<^verbatim>\<open>rm.c\<close>, \<^verbatim>\<open>mkdir.c\<close>, \<^verbatim>\<open>ln.c\<close> and
  \<^verbatim>\<open>kill.c\<close>. A program is the list of the \<^verbatim>\<open>write\<close> calls it makes (and of the other system calls
  that are its purpose), given its arguments and what its files hold.
\<close>

abbreviation line :: "string \<Rightarrow> string" where "line s \<equiv> s @ [CHR 0x0A]"

section \<open>wc\<close>

record counts =
  wc_l :: u32
  wc_w :: u32
  wc_c :: u32
  wc_inword :: bool

definition blank :: "byte \<Rightarrow> bool" where
  "blank b \<longleftrightarrow> u_strchr [0x20, 0x0D, 0x09, 0x0A, 0x0B, 0] b \<noteq> None"

definition wc_byte :: "byte \<Rightarrow> counts \<Rightarrow> counts" where
  "wc_byte b n =
     (let n1 = n\<lparr>wc_c := wc_c n + 1\<rparr>;
          n2 = (if b = newline then n1\<lparr>wc_l := wc_l n1 + 1\<rparr> else n1)
      in if blank b then n2\<lparr>wc_inword := False\<rparr>
         else if \<not> wc_inword n2 then n2\<lparr>wc_w := wc_w n2 + 1, wc_inword := True\<rparr>
         else n2)"

text \<open>The reading loop; \<open>None\<close> is a read that failed.\<close>

function wc_loop :: "counts \<Rightarrow> instream \<Rightarrow> counts option" where
  "wc_loop n ps =
     (case uread 512 ps of
        (None, _) \<Rightarrow> None
      | (Some [], _) \<Rightarrow> Some n
      | (Some (b # bs), ps') \<Rightarrow> wc_loop (fold wc_byte (b # bs) n) ps')"
  by pat_completeness auto

termination
  by (relation "measure (\<lambda>(_, ps). stream_size ps)") (auto dest!: sym [of _ "uread _ _"] uread_decreases)

declare wc_loop.simps [simp del]

text \<open>\<^verbatim>\<open>wc\<close> and whether the program goes on behind it.\<close>

definition wc :: "instream \<Rightarrow> byte list \<Rightarrow> (writes \<times> bool) option" where
  "wc ps name =
     (case wc_loop \<lparr>wc_l = 0, wc_w = 0, wc_c = 0, wc_inword = False\<rparr> ps of
        None \<Rightarrow> do { ws \<leftarrow> u_printf 1 (line ''wc: read error'') []; Some (ws, False) }
      | Some n \<Rightarrow>
          do { ws \<leftarrow> u_printf 1 (line ''%d %d %d %s'') [PNum (wc_l n), PNum (wc_w n), PNum (wc_c n), PStr name];
               Some (ws, True) })"

primrec wc_files :: "(byte list \<Rightarrow> instream option) \<Rightarrow> byte list list \<Rightarrow> writes option" where
  "wc_files fs [] = Some []"
| "wc_files fs (f # args) =
     (case fs f of
        None \<Rightarrow> u_printf 1 (line ''wc: cannot open %s'') [PStr f]
      | Some ps \<Rightarrow>
          do { (ws, go) \<leftarrow> wc ps f;
               if go then map_option ((@) ws) (wc_files fs args) else Some ws })"

definition wc_main :: "byte list list \<Rightarrow> instream \<Rightarrow> (byte list \<Rightarrow> instream option) \<Rightarrow> writes option" where
  "wc_main args stdin fs = (if args = [] then map_option fst (wc stdin []) else wc_files fs args)"

section \<open>cat\<close>

text \<open>
  \<open>wr ws bs\<close> is the result of writing \<open>bs\<close> after the calls \<open>ws\<close>. The result is the calls made and
  whether the program goes on.
\<close>

function cat :: "(writes \<Rightarrow> byte list \<Rightarrow> int) \<Rightarrow> writes \<Rightarrow> instream \<Rightarrow> (writes \<times> bool) option" where
  "cat wr ws ps =
     (case uread 512 ps of
        (None, _) \<Rightarrow> do { e \<leftarrow> u_printf 1 (line ''cat: read error'') []; Some (ws @ e, False) }
      | (Some [], _) \<Rightarrow> Some (ws, True)
      | (Some (b # bs), ps') \<Rightarrow>
          if wr ws (b # bs) \<noteq> int (length (b # bs))
          then do { e \<leftarrow> u_printf 1 (line ''cat: write error'') []; Some (ws @ (1, b # bs) # e, False) }
          else cat wr (ws @ [(1, b # bs)]) ps')"
  by pat_completeness auto

termination
  by (relation "measure (\<lambda>(_, _, ps). stream_size ps)") (auto dest!: sym [of _ "uread _ _"] uread_decreases)

declare cat.simps [simp del]

primrec cat_files :: "(writes \<Rightarrow> byte list \<Rightarrow> int) \<Rightarrow> (byte list \<Rightarrow> instream option) \<Rightarrow> byte list list \<Rightarrow> writes \<Rightarrow> writes option" where
  "cat_files wr fs [] ws = Some ws"
| "cat_files wr fs (f # args) ws =
     (case fs f of
        None \<Rightarrow> do { e \<leftarrow> u_printf 1 (line ''cat: cannot open %s'') [PStr f]; Some (ws @ e) }
      | Some ps \<Rightarrow>
          do { (ws', go) \<leftarrow> cat wr ws ps;
               if go then cat_files wr fs args ws' else Some ws' })"

definition cat_main ::
  "(writes \<Rightarrow> byte list \<Rightarrow> int) \<Rightarrow> byte list list \<Rightarrow> instream \<Rightarrow> (byte list \<Rightarrow> instream option) \<Rightarrow> writes option" where
  "cat_main wr args stdin fs = (if args = [] then map_option fst (cat wr [] stdin) else cat_files wr fs args [])"

section \<open>ls\<close>

record ustat =
  us_type :: int
  us_ino :: u32
  us_size :: u32

text \<open>What opening a path leads to: the answer of \<^verbatim>\<open>fstat\<close>, and what reading gives.\<close>

type_synonym opener = "byte list \<Rightarrow> (ustat option \<times> instream) option"

definition u_stat :: "opener \<Rightarrow> byte list \<Rightarrow> ustat option" where
  "u_stat fs n = (case fs n of None \<Rightarrow> None | Some (st, _) \<Rightarrow> st)"

text \<open>The part behind the last slash, padded with blanks to fourteen characters.\<close>

definition fmtname :: "byte list \<Rightarrow> byte list" where
  "fmtname path =
     (let p = rev (takeWhile (\<lambda>c. c \<noteq> 0x2F) (rev (cstr path)))
      in if length p \<ge> 14 then p else p @ replicate (14 - length p) 0x20)"

definition ls_line :: "byte list \<Rightarrow> ustat \<Rightarrow> writes option" where
  "ls_line name st =
     u_printf 1 (line ''%s %d %d %d'')
       [PStr (fmtname name), PNum (word_of_int (us_type st)), PNum (us_ino st), PNum (us_size st)]"

text \<open>The loop over the sixteen-byte entries of a directory; \<open>p\<close> is the path with its slash.\<close>

function ls_dir :: "opener \<Rightarrow> byte list \<Rightarrow> instream \<Rightarrow> writes option" where
  "ls_dir fs p ps =
     (case uread 16 ps of
        (Some de, ps') \<Rightarrow>
          if length de = 16 then
            (if de ! 0 = 0 \<and> de ! 1 = 0 then ls_dir fs p ps'
             else (let b = p @ take 14 (drop 2 de) in
               do { ws \<leftarrow> (case u_stat fs (cstr b) of
                            None \<Rightarrow> u_printf 1 (line ''ls: cannot stat %s'') [PStr b]
                          | Some st \<Rightarrow> ls_line b st);
                    map_option ((@) ws) (ls_dir fs p ps') }))
          else Some []
      | (None, _) \<Rightarrow> Some [])"
  by pat_completeness auto

termination
  by (relation "measure (\<lambda>(_, _, ps). stream_size ps)") (auto dest!: sym [of _ "uread _ _"] uread_decreases)

declare ls_dir.simps [simp del]

definition ls :: "opener \<Rightarrow> byte list \<Rightarrow> writes option" where
  "ls fs path =
     (case fs path of
        None \<Rightarrow> u_printf 2 (line ''ls: cannot open %s'') [PStr path]
      | Some (None, _) \<Rightarrow> u_printf 2 (line ''ls: cannot stat %s'') [PStr path]
      | Some (Some st, ps) \<Rightarrow>
          if us_type st = 2 then ls_line path st
          else if us_type st = 1 then
            (if length (cstr path) + 1 + 14 + 1 > 512 then u_printf 1 (line ''ls: path too long'') []
             else ls_dir fs (cstr path @ [0x2F]) ps)
          else Some [])"

primrec ls_all :: "opener \<Rightarrow> byte list list \<Rightarrow> writes option" where
  "ls_all fs [] = Some []"
| "ls_all fs (a # args) = do { ws \<leftarrow> ls fs a; map_option ((@) ws) (ls_all fs args) }"

definition ls_main :: "opener \<Rightarrow> byte list list \<Rightarrow> writes option" where
  "ls_main fs args = (if args = [] then ls fs (ascii ''.'') else ls_all fs args)"

section \<open>echo, rm, mkdir, ln, kill\<close>

fun echo_main :: "byte list list \<Rightarrow> writes option" where
  "echo_main [] = Some []"
| "echo_main (a # args) =
     do { ws \<leftarrow> u_printf 1 ''%s%s'' [PStr a, PStr (if args \<noteq> [] then ascii '' '' else [newline])];
          map_option ((@) ws) (echo_main args) }"

text \<open>
  \<^verbatim>\<open>rm\<close> and \<^verbatim>\<open>mkdir\<close> call \<^verbatim>\<open>unlink\<close> and \<^verbatim>\<open>mkdir\<close> on their arguments until a call fails; \<open>op\<close> is the call, on
  a state of the file system. The result is that state and what is printed.
\<close>

primrec each_arg :: "('fs \<Rightarrow> byte list \<Rightarrow> int \<times> 'fs) \<Rightarrow> string \<Rightarrow> byte list list \<Rightarrow> 'fs \<Rightarrow> ('fs \<times> writes) option" where
  "each_arg op msg [] s = Some (s, [])"
| "each_arg op msg (a # args) s =
     (let (r, s') = op s a
      in if r < 0 then map_option (Pair s') (u_printf 2 msg [PStr a]) else each_arg op msg args s')"

definition rm_main :: "('fs \<Rightarrow> byte list \<Rightarrow> int \<times> 'fs) \<Rightarrow> byte list list \<Rightarrow> 'fs \<Rightarrow> ('fs \<times> writes) option" where
  "rm_main unlink args s =
     (if args = [] then map_option (Pair s) (u_printf 2 (line ''Usage: rm files...'') [])
      else each_arg unlink (line ''rm: %s failed to delete'') args s)"

definition mkdir_main :: "('fs \<Rightarrow> byte list \<Rightarrow> int \<times> 'fs) \<Rightarrow> byte list list \<Rightarrow> 'fs \<Rightarrow> ('fs \<times> writes) option" where
  "mkdir_main mkdir args s =
     (if args = [] then map_option (Pair s) (u_printf 2 (line ''Usage: mkdir files...'') [])
      else each_arg mkdir (line ''mkdir: %s failed to create'') args s)"

definition ln_main :: "('fs \<Rightarrow> byte list \<Rightarrow> byte list \<Rightarrow> int \<times> 'fs) \<Rightarrow> byte list list \<Rightarrow> 'fs \<Rightarrow> ('fs \<times> writes) option" where
  "ln_main link args s =
     (case args of
        [old, new] \<Rightarrow>
          (let (r, s') = link s old new
           in if r < 0 then map_option (Pair s') (u_printf 2 (line ''link %s %s: failed'') [PStr old, PStr new])
              else Some (s', []))
      | _ \<Rightarrow> map_option (Pair s) (u_printf 2 (line ''Usage: ln old new'') []))"

definition kill_main :: "(u32 \<Rightarrow> 'k \<Rightarrow> 'k) \<Rightarrow> byte list list \<Rightarrow> 'k \<Rightarrow> ('k \<times> writes) option" where
  "kill_main kill args s =
     (if args = [] then map_option (Pair s) (u_printf 2 (line ''usage: kill pid...'') [])
      else Some (fold (\<lambda>a. kill (atoi a)) args s, []))"

section \<open>Properties\<close>

text \<open>What a sequence of reads delivers in all: the pieces up to an empty one.\<close>

fun delivered :: "instream \<Rightarrow> byte list" where
  "delivered (Piece bs # ps) = (if bs = [] then [] else bs @ delivered ps)"
| "delivered _ = []"

fun readable :: "instream \<Rightarrow> bool" where
  "readable (Piece bs # ps) = (bs = [] \<or> readable ps)"
| "readable (Bad_Read # ps) = False"
| "readable [] = True"

lemma uread_readable:
  assumes "readable ps" "0 < k"
  shows "\<exists>bs ps'. uread k ps = (Some bs, ps') \<and> (bs = [] \<longrightarrow> delivered ps = []) \<and>
    (bs \<noteq> [] \<longrightarrow> delivered ps = bs @ delivered ps' \<and> readable ps')"
proof (cases ps)
  case (Cons p ps')
  with assms obtain bs where "p = Piece bs" by (cases p) auto
  then show ?thesis using assms Cons
    by (auto simp: append_assoc [symmetric] simp del: append_assoc)
qed simp

lemma wc_loop_fold:
  "readable ps \<Longrightarrow> wc_loop n ps = Some (fold wc_byte (delivered ps) n)"
proof (induction n ps rule: wc_loop.induct)
  case (1 n ps)
  obtain bs ps' where r: "uread 512 ps = (Some bs, ps')" "bs = [] \<longrightarrow> delivered ps = []"
    "bs \<noteq> [] \<longrightarrow> delivered ps = bs @ delivered ps' \<and> readable ps'"
    using uread_readable [OF 1(2), of 512] by auto
  show ?case
  proof (cases bs)
    case (Cons b bs')
    with 1(1) [OF r(1) [symmetric] refl Cons] r show ?thesis by (subst wc_loop.simps) simp
  qed (use r in \<open>simp add: wc_loop.simps [of n ps]\<close>)
qed

text \<open>A word starts at each character that is not blank and has a blank or nothing before it.\<close>

definition word_starts :: "byte list \<Rightarrow> nat set" where
  "word_starts w = {i. i < length w \<and> \<not> blank (w ! i) \<and> (i = 0 \<or> blank (w ! (i - 1)))}"

lemma finite_word_starts [simp]: "finite (word_starts w)"
  by (rule finite_subset [of _ "{..<length w}"]) (auto simp: word_starts_def)

lemma word_starts_snoc:
  "word_starts (w @ [b]) =
     (if \<not> blank b \<and> (w = [] \<or> blank (last w)) then insert (length w) (word_starts w) else word_starts w)"
proof -
  have l: "(w @ [b]) ! (length w - 1) = last w" if "w \<noteq> []" using that by (simp add: nth_append last_conv_nth)
  have "i \<in> word_starts (w @ [b]) \<longleftrightarrow> (i \<in> word_starts w \<or> i = length w \<and> \<not> blank b \<and> (w = [] \<or> blank (last w)))" for i
    using l by (cases "w = []"; cases "i < length w") (auto simp: word_starts_def nth_append less_Suc_eq)
  then show ?thesis by auto
qed

lemma wc_fold:
  "fold wc_byte w \<lparr>wc_l = 0, wc_w = 0, wc_c = 0, wc_inword = False\<rparr> =
     \<lparr>wc_l = of_nat (count_list w newline), wc_w = of_nat (card (word_starts w)), wc_c = of_nat (length w),
      wc_inword = (w \<noteq> [] \<and> \<not> blank (last w))\<rparr>"
proof (induction w rule: rev_induct)
  case (snoc b w)
  have "length w \<notin> word_starts w" by (simp add: word_starts_def)
  with snoc show ?case by (simp add: wc_byte_def Let_def word_starts_snoc)
qed (simp add: word_starts_def)

text \<open>
  C34 (counting): however its input arrives in pieces, \<^verbatim>\<open>wc\<close> ends, and counts the newlines, the
  places where a word starts, and the bytes of the whole input, modulo \<open>2^32\<close>.
\<close>

theorem wc_counts:
  assumes "readable ps"
  shows "\<exists>i. wc_loop \<lparr>wc_l = 0, wc_w = 0, wc_c = 0, wc_inword = False\<rparr> ps =
    Some \<lparr>wc_l = of_nat (count_list (delivered ps) newline), wc_w = of_nat (card (word_starts (delivered ps))),
          wc_c = of_nat (length (delivered ps)), wc_inword = i\<rparr>"
  using wc_loop_fold [OF assms] wc_fold by auto

theorem wc_counts_witness:
  "\<exists>n. wc_loop \<lparr>wc_l = 0, wc_w = 0, wc_c = 0, wc_inword = False\<rparr>
      [Piece (ascii ''a b''), Piece (ascii ''c d'' @ [newline])] = Some n \<and> wc_l n = 1 \<and> wc_c n = 7"
  using wc_counts [of "[Piece (ascii ''a b''), Piece (ascii ''c d'' @ [newline])]"]
  by (auto simp: ascii_def)

text \<open>\<^verbatim>\<open>cat\<close> copies its input: when every write succeeds the bytes written are the bytes delivered.\<close>

lemma cat_copies:
  assumes "\<And>ws bs. wr ws bs = int (length bs)"
  shows "readable ps \<Longrightarrow> \<exists>ws'. cat wr ws ps = Some (ws @ ws', True) \<and> concat (map snd ws') = delivered ps \<and>
    (\<forall>w \<in> set ws'. fst w = 1 \<and> snd w \<noteq> [])"
proof (induction "stream_size ps" arbitrary: ws ps rule: less_induct)
  case less
  obtain bs ps' where r: "uread 512 ps = (Some bs, ps')" "bs = [] \<longrightarrow> delivered ps = []"
    "bs \<noteq> [] \<longrightarrow> delivered ps = bs @ delivered ps' \<and> readable ps'"
    using uread_readable [OF less.prems, of 512] by auto
  show ?case
  proof (cases bs)
    case (Cons b bs')
    then have "cat wr ws ps = cat wr (ws @ [(1, bs)]) ps'"
      using r(1) assms by (subst cat.simps) simp
    have ne: "bs \<noteq> []" "readable ps'" using Cons r(3) by simp_all
    obtain ws' where "cat wr (ws @ [(1, bs)]) ps' = Some ((ws @ [(1, bs)]) @ ws', True)"
      "concat (map snd ws') = delivered ps'" "\<forall>w \<in> set ws'. fst w = 1 \<and> snd w \<noteq> []"
      using less.hyps [OF uread_decreases [OF r(1) ne(1)] ne(2), of "ws @ [(1, bs)]"] by blast
    with \<open>cat wr ws ps = _\<close> show ?thesis using r(3) Cons by (intro exI [of _ "(1, bs) # ws'"]) simp
  qed (use r in \<open>simp add: cat.simps [of wr ws ps]\<close>)
qed

end
