(* ===== verification/Umalloc.thy ===== *)
theory Umalloc
  imports Yonix_Prelude
begin

text \<open>
  The storage allocator of user programs, \<^verbatim>\<open>umalloc.c\<close>: a circular list of free blocks in the order
  of their addresses, first fit, with neighbouring blocks joined. A header is found at its
  address; the loops are partial functions whose value is \<open>None\<close> when they never end.
\<close>

section \<open>The code\<close>

text \<open>
  The fields of the headers by their address, \<^verbatim>\<open>freep\<close>, and the end of the image that \<^verbatim>\<open>sbrk\<close> moves.
\<close>

record uheap =
  hd_ptr :: "addr \<Rightarrow> addr"
  hd_size :: "addr \<Rightarrow> u32"
  freep :: addr
  u_brk :: addr

definition set_ptr :: "addr \<Rightarrow> addr \<Rightarrow> uheap \<Rightarrow> uheap" where
  "set_ptr a v h = h\<lparr>hd_ptr := (hd_ptr h)(a := v)\<rparr>"

definition set_size :: "addr \<Rightarrow> u32 \<Rightarrow> uheap \<Rightarrow> uheap" where
  "set_size a v h = h\<lparr>hd_size := (hd_size h)(a := v)\<rparr>"

text \<open>Pointer arithmetic on headers, which have eight bytes.\<close>

definition hdr_plus :: "addr \<Rightarrow> u32 \<Rightarrow> addr" where
  "hdr_plus p n = p + 8 * n"

text \<open>The loop of \<^verbatim>\<open>free\<close> that finds the place of the block.\<close>

partial_function (option) free_find :: "addr \<Rightarrow> uheap \<Rightarrow> addr \<Rightarrow> addr option" where
  "free_find bp h p =
     (if bp > p \<and> bp < hd_ptr h p then Some p
      else if p \<ge> hd_ptr h p \<and> (bp > p \<or> bp < hd_ptr h p) then Some p
      else free_find bp h (hd_ptr h p))"

definition free_join_up :: "addr \<Rightarrow> addr \<Rightarrow> uheap \<Rightarrow> uheap" where
  "free_join_up bp p h =
     (let n = hd_ptr h p
      in if hdr_plus bp (hd_size h bp) = n
         then set_ptr bp (hd_ptr h n) (set_size bp (hd_size h bp + hd_size h n) h)
         else set_ptr bp n h)"

definition free_join_down :: "addr \<Rightarrow> addr \<Rightarrow> uheap \<Rightarrow> uheap" where
  "free_join_down bp p h =
     (if hdr_plus p (hd_size h p) = bp
      then set_ptr p (hd_ptr h bp) (set_size p (hd_size h p + hd_size h bp) h)
      else set_ptr p bp h)"

definition free :: "addr \<Rightarrow> uheap \<Rightarrow> uheap option" where
  "free ap h =
     (let bp = ap - 8
      in map_option (\<lambda>p. (free_join_down bp p (free_join_up bp p h))\<lparr>freep := p\<rparr>)
           (free_find bp h (freep h)))"

text \<open>
  \<open>grow b n\<close> tells whether the kernel moves the end of the image from \<open>b\<close> to \<open>b + n\<close>; then \<^verbatim>\<open>sbrk\<close>
  returns \<open>b\<close>. The null pointer is 0.
\<close>

definition morecore :: "(addr \<Rightarrow> u32 \<Rightarrow> bool) \<Rightarrow> u32 \<Rightarrow> uheap \<Rightarrow> (addr \<times> uheap) option" where
  "morecore grow nu h =
     (let nu = (if nu < 4096 then 4096 else nu); p = u_brk h
      in if \<not> grow p (nu * 8) then Some (0, h)
         else map_option (\<lambda>h'. (freep h', h')) (free (hdr_plus p 1) (set_size p nu (h\<lparr>u_brk := p + nu * 8\<rparr>))))"

text \<open>The block found: all of it, or its upper end.\<close>

definition malloc_take :: "u32 \<Rightarrow> addr \<Rightarrow> addr \<Rightarrow> uheap \<Rightarrow> addr \<times> uheap" where
  "malloc_take nunits prevp p h =
     (if hd_size h p = nunits then (hdr_plus p 1, (set_ptr prevp (hd_ptr h p) h)\<lparr>freep := prevp\<rparr>)
      else (let q = hdr_plus p (hd_size h p - nunits)
            in (hdr_plus q 1, (set_size q nunits (set_size p (hd_size h p - nunits) h))\<lparr>freep := prevp\<rparr>)))"

partial_function (option) malloc_loop ::
  "(addr \<Rightarrow> u32 \<Rightarrow> bool) \<Rightarrow> u32 \<Rightarrow> addr \<Rightarrow> addr \<Rightarrow> uheap \<Rightarrow> (addr \<times> uheap) option" where
  "malloc_loop grow nunits prevp p h =
     (if hd_size h p \<ge> nunits then Some (malloc_take nunits prevp p h)
      else if p = freep h then
        Option.bind (morecore grow nunits h)
          (\<lambda>(q, h'). if q = 0 then Some (0, h') else malloc_loop grow nunits q (hd_ptr h' q) h')
      else malloc_loop grow nunits p (hd_ptr h p) h)"

declare free_find.simps [code] malloc_loop.simps [code]

definition units :: "u32 \<Rightarrow> u32" where
  "units nbytes = (nbytes + 8 - 1) div 8 + 1"

definition malloc_init :: "addr \<Rightarrow> uheap \<Rightarrow> uheap" where
  "malloc_init base h =
     (if freep h = 0 then (set_size base 0 (set_ptr base base h))\<lparr>freep := base\<rparr> else h)"

text \<open>\<open>base\<close> is the address of the header of the empty list.\<close>

definition malloc :: "addr \<Rightarrow> (addr \<Rightarrow> u32 \<Rightarrow> bool) \<Rightarrow> u32 \<Rightarrow> uheap \<Rightarrow> (addr \<times> uheap) option" where
  "malloc base grow nbytes h =
     (let h = malloc_init base h
      in malloc_loop grow (units nbytes) (freep h) (hd_ptr h (freep h)) h)"

section \<open>The free list\<close>

text \<open>
  \<open>seg h ns z lim\<close>: the headers \<open>ns\<close> are linked in this order, the last one to \<open>z\<close>, and their blocks
  lie one above the other, the last one below \<open>lim\<close>.
\<close>

abbreviation bsize :: "uheap \<Rightarrow> addr \<Rightarrow> nat" where "bsize h a \<equiv> 8 * unat (hd_size h a)"

definition room :: "uheap \<Rightarrow> addr \<Rightarrow> nat" where
  "room h a = max 8 (bsize h a)"

fun seg :: "uheap \<Rightarrow> addr list \<Rightarrow> addr \<Rightarrow> addr \<Rightarrow> bool" where
  "seg h [] z lim = True"
| "seg h (a # r) z lim \<longleftrightarrow> hd_ptr h a = hd (r @ [z]) \<and> unat a + room h a \<le> unat (hd (r @ [lim])) \<and> seg h r z lim"

definition cells :: "uheap \<Rightarrow> addr list \<Rightarrow> nat set" where
  "cells h ns = (\<Union>a \<in> set ns. {unat a ..< unat a + bsize h a})"

definition free_list :: "addr \<Rightarrow> uheap \<Rightarrow> addr list \<Rightarrow> bool" where
  "free_list base h ns \<longleftrightarrow>
     ns \<noteq> [] \<and> hd ns = base \<and> seg h ns base (u_brk h) \<and> hd_size h base = 0 \<and>
     (\<forall>a \<in> set (tl ns). hd_size h a \<noteq> 0) \<and> freep h \<in> set ns"

lemma cells_simps:
  "cells h [] = {}" "cells h (a # ns) = {unat a ..< unat a + bsize h a} \<union> cells h ns"
  "cells h (xs @ ys) = cells h xs \<union> cells h ys"
  by (auto simp: cells_def)

lemma cells_cong: "(\<And>a. a \<in> set ns \<Longrightarrow> hd_size h' a = hd_size h a) \<Longrightarrow> cells h' ns = cells h ns"
  by (simp add: cells_def)

lemma room_pos: "8 \<le> room h a" "bsize h a \<le> room h a"
  by (simp_all add: room_def)

lemma hd_append_snoc: "hd ((xs @ ys) @ [z]) = hd (xs @ [hd (ys @ [z])])"
  by (cases xs) simp_all

lemma seg_append:
  "seg h (xs @ ys) z lim \<longleftrightarrow> seg h xs (hd (ys @ [z])) (hd (ys @ [lim])) \<and> seg h ys z lim"
  by (induction xs) (simp_all add: hd_append_snoc [simplified])

lemma seg_cong:
  "(\<And>a. a \<in> set ns \<Longrightarrow> hd_ptr h' a = hd_ptr h a \<and> hd_size h' a = hd_size h a) \<Longrightarrow> seg h' ns z lim = seg h ns z lim"
  by (induction ns) (simp_all add: room_def)

lemma seg_bounds: "seg h ns z lim \<Longrightarrow> a \<in> set ns \<Longrightarrow> unat (hd ns) \<le> unat a \<and> unat a + room h a \<le> unat lim"
proof (induction ns arbitrary: a)
  case (Cons b r)
  note IH = Cons.IH and prems = Cons.prems
  show ?case
  proof (cases r)
    case (Cons c r')
    have "unat (hd r) \<le> unat x \<and> unat x + room h x \<le> unat lim" if "x \<in> set r" for x
      using IH prems(1) that by simp
    from this [of c] this [of a] show ?thesis using Cons prems room_pos(1) [of h b] by auto
  qed (use prems in simp)
qed simp

lemma seg_distinct: "seg h ns z lim \<Longrightarrow> distinct ns"
proof (induction ns)
  case (Cons b r)
  have "b \<notin> set r"
  proof
    assume "b \<in> set r"
    with Cons.prems seg_bounds [of h r z lim b] room_pos(1) [of h b] show False by (cases r) auto
  qed
  with Cons show ?case by simp
qed simp

subsection \<open>Finding the place of a block\<close>

text \<open>Below the block the loop follows the list upwards, above it up to the end and round to the start.\<close>

lemma free_find_low:
  "seg h xs p lim \<Longrightarrow> lim = p \<Longrightarrow> p < bp \<Longrightarrow> free_find bp h (hd (xs @ [p])) = free_find bp h p"
proof (induction xs)
  case (Cons a xs)
  have n: "hd_ptr h a = hd (xs @ [p])" "unat a + room h a \<le> unat (hd (xs @ [p]))" using Cons.prems by simp_all
  have "unat (hd (xs @ [p])) \<le> unat p"
    using Cons.prems seg_bounds [of h xs p lim "hd xs"] by (cases xs) auto
  with n Cons.prems room_pos(1) [of h a] have "a < hd_ptr h a" "hd_ptr h a < bp"
    by (auto simp: word_less_nat_alt)
  then have "free_find bp h a = free_find bp h (hd_ptr h a)" by (subst free_find.simps) auto
  with n Cons show ?case by simp
qed simp

lemma free_find_high:
  "seg h ys base lim \<Longrightarrow> \<forall>a \<in> set ys. bp < a \<Longrightarrow> base < bp \<Longrightarrow> free_find bp h (hd (ys @ [base])) = free_find bp h base"
proof (induction ys)
  case (Cons a ys)
  have n: "hd_ptr h a = hd (ys @ [base])" using Cons.prems by simp
  have "bp < a" using Cons.prems by simp
  have "a < hd_ptr h a \<or> hd_ptr h a = base"
    using Cons.prems n room_pos(1) [of h a] by (cases ys) (auto simp: word_less_nat_alt)
  then have "free_find bp h a = free_find bp h (hd_ptr h a)"
    using \<open>bp < a\<close> Cons.prems(3) by (subst free_find.simps) auto
  with n Cons show ?case by simp
qed simp

lemma seg_split_mem:
  "seg h xs z lim \<Longrightarrow> a \<in> set xs \<Longrightarrow> \<exists>us vs. xs = us @ a # vs \<and> seg h (a # vs) z lim"
  by (metis seg_append split_list)

lemma free_find_place:
  assumes seg: "seg h (xs @ p # ys) base lim" and base: "hd (xs @ [p]) = base" and start: "q \<in> set (xs @ p # ys)"
    and bp: "p < bp" "\<forall>a \<in> set ys. bp < a"
  shows "free_find bp h q = Some p"
proof -
  have s: "seg h xs p p" "seg h (p # ys) base lim" using seg by (simp_all add: seg_append)
  have le: "unat base \<le> unat p" using seg_bounds [OF seg, of p] base by (cases xs) auto
  have stop: "free_find bp h p = Some p"
    using s(2) bp le by (cases ys) (auto simp: free_find.simps [of bp h p] word_le_nat_alt)
  have low: "free_find bp h a = Some p" if a: "a \<in> set xs" for a
  proof -
    obtain us vs where "xs = us @ a # vs" "seg h (a # vs) p p" using seg_split_mem [OF s(1) a] by blast
    with free_find_low [of h "a # vs" p p bp] bp(1) stop show ?thesis by simp
  qed
  have start_base: "free_find bp h base = Some p" using base low stop by (cases xs) auto
  have "base < bp" using le bp(1) by (auto simp: word_less_nat_alt)
  have high: "free_find bp h a = Some p" if a: "a \<in> set ys" for a
  proof -
    have "seg h ys base lim" using s(2) by simp
    from seg_split_mem [OF this a] obtain us vs where "ys = us @ a # vs" "seg h (a # vs) base lim" by blast
    with free_find_high [of h "a # vs" base lim bp] bp(2) \<open>base < bp\<close> start_base show ?thesis by simp
  qed
  show ?thesis using start low stop high by auto
qed

text \<open>Every address above the start has its place in the list.\<close>

lemma seg_place:
  "seg h ns z lim \<Longrightarrow> ns \<noteq> [] \<Longrightarrow> hd ns < bp \<Longrightarrow> bp \<notin> set ns \<Longrightarrow>
   \<exists>xs p ys. ns = xs @ p # ys \<and> p < bp \<and> (\<forall>a \<in> set ys. bp < a)"
proof (induction ns)
  case (Cons a r)
  show ?case
  proof (cases "r \<noteq> [] \<and> hd r < bp")
    case True
    with Cons obtain xs p ys where "r = xs @ p # ys" "p < bp" "\<forall>a \<in> set ys. bp < a" by auto
    then show ?thesis by (intro exI [of _ "a # xs"]) auto
  next
    case False
    have "bp < x" if x: "x \<in> set r" for x
    proof -
      have "unat (hd r) \<le> unat x" using seg_bounds [of h r z lim x] Cons.prems(1) x by simp
      moreover have "hd r \<noteq> bp" using Cons.prems(4) x by (cases r) auto
      ultimately show ?thesis using False x by (cases r) (auto simp: word_less_nat_alt word_unat_eq_iff)
    qed
    with Cons.prems show ?thesis by (intro exI [of _ "[]"] exI [of _ a] exI [of _ r]) simp
  qed
qed simp

subsection \<open>Giving a block back\<close>

lemma unat_mult8: "8 * unat (n :: u32) < 2 ^ 32 \<Longrightarrow> unat (8 * n) = 8 * unat n"
  by (simp add: unat_word_ariths)

lemma unat_hdr_plus: "unat p + 8 * unat n < 2 ^ 32 \<Longrightarrow> unat (hdr_plus p n) = unat p + 8 * unat n"
  by (simp add: hdr_plus_def unat_add_small unat_mult8)

lemma set_simps [simp]:
  "hd_ptr (set_ptr a v h) = (hd_ptr h)(a := v)" "hd_size (set_ptr a v h) = hd_size h"
  "freep (set_ptr a v h) = freep h" "u_brk (set_ptr a v h) = u_brk h"
  "hd_size (set_size a n h) = (hd_size h)(a := n)" "hd_ptr (set_size a n h) = hd_ptr h"
  "freep (set_size a n h) = freep h" "u_brk (set_size a n h) = u_brk h"
  by (simp_all add: set_ptr_def set_size_def)

text \<open>
  A block to be freed between \<open>p\<close> and what follows it: the upper join gives the list behind \<open>p\<close>,
  starting at the block.
\<close>

lemma free_join_up_seg:
  assumes seg: "seg h (p # ys) base lim" and "unat base < unat bp"
    and gap: "unat bp + bsize h bp \<le> unat (hd (ys @ [lim]))" and pos: "hd_size h bp \<noteq> 0"
    and sz: "\<forall>a \<in> set ys. hd_size h a \<noteq> 0" and h': "h' = free_join_up bp p h"
  shows "\<exists>zs. seg h' (bp # zs) base lim \<and> set zs \<subseteq> set ys \<and> (\<forall>a \<in> set zs. hd_size h' a \<noteq> 0) \<and>
    cells h' (bp # zs) = cells h ys \<union> {unat bp ..< unat bp + bsize h bp} \<and>
    unat (hd_size h bp) \<le> unat (hd_size h' bp) \<and> (\<forall>a. a \<noteq> bp \<longrightarrow> hd_ptr h' a = hd_ptr h a \<and> hd_size h' a = hd_size h a) \<and>
    u_brk h' = u_brk h \<and> freep h' = freep h"
proof -
  have ys: "seg h ys base lim" "hd_ptr h p = hd (ys @ [base])" using seg by simp_all
  have room: "room h bp = bsize h bp" using pos by (simp add: room_def unat_eq_zero [symmetric] max_def)
  have lt: "unat bp + bsize h bp < 2 ^ 32" using gap unsigned_less [of "hd (ys @ [lim])", where ?'a = nat] by simp
  note e = unat_hdr_plus [OF lt]
  have nin: "bp \<notin> set ys"
  proof
    assume b: "bp \<in> set ys"
    then show False using seg_bounds [OF ys(1) b] gap pos by (cases ys) (auto simp: unat_eq_zero [symmetric])
  qed
  show ?thesis
  proof (cases "ys \<noteq> [] \<and> hdr_plus bp (hd_size h bp) = hd ys")
    case True
    then obtain q zs where q: "ys = q # zs" by (cases ys) auto
    have uq: "unat q = unat bp + bsize h bp" using True q e by simp
    have b: "unat q + room h q \<le> unat (hd (zs @ [lim]))" "seg h zs base lim" "hd_ptr h q = hd (zs @ [base])"
      using ys q by simp_all
    have "unat (hd_size h bp + hd_size h q) = unat (hd_size h bp) + unat (hd_size h q)"
      using uq b(1) room_pos(2) [of h q] unsigned_less [of "hd (zs @ [lim])", where ?'a = nat] by (intro unat_add_small) simp
    note sum = this
    have h'1: "h' = set_ptr bp (hd_ptr h q) (set_size bp (hd_size h bp + hd_size h q) h)"
      using True q ys(2) by (simp add: h' free_join_up_def Let_def)
    have fr: "seg h' zs base lim" using b(2) nin q by (subst seg_cong [of _ _ h]) (auto simp: h'1)
    have "room h' bp = bsize h bp + bsize h q" using sum pos by (simp add: h'1 room_def unat_eq_zero [symmetric])
    with fr b uq room_pos(2) [of h q] have "seg h' (bp # zs) base lim" by (simp add: h'1)
    have "{unat bp ..< unat bp + bsize h' bp} = {unat bp ..< unat bp + bsize h bp} \<union> {unat q ..< unat q + bsize h q}"
      using sum uq by (auto simp: h'1)
    moreover have "cells h' zs = cells h zs" using nin q by (intro cells_cong) (auto simp: h'1)
    ultimately have "cells h' (bp # zs) = cells h ys \<union> {unat bp ..< unat bp + bsize h bp}"
      by (simp only: cells_simps q Un_ac)
    with \<open>seg h' (bp # zs) base lim\<close> show ?thesis using sum nin q sz by (intro exI [of _ zs]) (auto simp: h'1)
  next
    case False
    have ne: "hdr_plus bp (hd_size h bp) \<noteq> base" using e assms(2) by auto
    have h'1: "h' = set_ptr bp (hd (ys @ [base])) h"
      using False ys(2) ne by (cases ys) (auto simp: h' free_join_up_def Let_def)
    have fr: "seg h' ys base lim" using ys(1) nin by (subst seg_cong [of _ _ h]) (auto simp: h'1)
    then have "seg h' (bp # ys) base lim" using gap room by (simp add: h'1 room_def)
    moreover have "cells h' (bp # ys) = cells h ys \<union> {unat bp ..< unat bp + bsize h bp}"
      using cells_cong [of ys h' h] nin by (simp add: cells_simps h'1 Un_commute)
    ultimately show ?thesis using sz nin by (intro exI [of _ ys]) (auto simp: h'1)
  qed
qed

lemma free_join_down_seg:
  assumes seg: "seg h (bp # zs) base lim" and p: "unat p + bsize h p \<le> unat bp" "unat p + 8 \<le> unat bp"
    and h': "h' = free_join_down bp p h" and nin: "p \<notin> set zs" "bp \<noteq> p"
    and sz: "hd_size h bp \<noteq> 0" "\<forall>a \<in> set zs. hd_size h a \<noteq> 0"
  shows "\<exists>ws. seg h' (p # ws) base lim \<and> set ws \<subseteq> insert bp (set zs) \<and> (\<forall>a \<in> set ws. hd_size h' a \<noteq> 0) \<and>
    cells h' (p # ws) = {unat p ..< unat p + bsize h p} \<union> cells h (bp # zs) \<and>
    (\<exists>a \<in> set (p # ws). unat (hd_size h bp) \<le> unat (hd_size h' a)) \<and>
    (hd_size h p = 0 \<longrightarrow> hd_size h' p = 0) \<and> (hd_size h p \<noteq> 0 \<longrightarrow> hd_size h' p \<noteq> 0) \<and>
    (\<forall>a. a \<noteq> p \<longrightarrow> hd_ptr h' a = hd_ptr h a \<and> hd_size h' a = hd_size h a) \<and> u_brk h' = u_brk h"
proof -
  have b: "unat bp + bsize h bp \<le> unat (hd (zs @ [lim]))" "seg h zs base lim" "hd_ptr h bp = hd (zs @ [base])"
    using seg room_pos(2) [of h bp] by auto
  have lt: "unat bp + bsize h bp < 2 ^ 32" using b(1) unsigned_less [of "hd (zs @ [lim])", where ?'a = nat] by simp
  have e: "unat (hdr_plus p (hd_size h p)) = unat p + bsize h p" using p(1) lt by (intro unat_hdr_plus) simp
  show ?thesis
  proof (cases "hdr_plus p (hd_size h p) = bp")
    case True
    have ub: "unat bp = unat p + bsize h p" using True e by simp
    have sum: "unat (hd_size h p + hd_size h bp) = unat (hd_size h p) + unat (hd_size h bp)"
      using ub lt by (intro unat_add_small) simp
    have h'1: "h' = set_ptr p (hd_ptr h bp) (set_size p (hd_size h p + hd_size h bp) h)"
      using True by (simp add: h' free_join_down_def)
    have pz: "hd_size h p \<noteq> 0" using ub nin(2) by (auto simp: word_unat_eq_iff)
    have "seg h' zs base lim" using b(2) nin by (subst seg_cong [of _ _ h]) (auto simp: h'1)
    moreover have "room h' p = bsize h p + bsize h bp" using sum pz by (simp add: h'1 room_def unat_eq_zero [symmetric])
    ultimately have "seg h' (p # zs) base lim" using b ub by (simp add: h'1)
    have "{unat p ..< unat p + bsize h' p} = {unat p ..< unat p + bsize h p} \<union> {unat bp ..< unat bp + bsize h bp}"
      using sum ub by (auto simp: h'1)
    moreover have "cells h' zs = cells h zs" using nin by (intro cells_cong) (auto simp: h'1)
    ultimately have "cells h' (p # zs) = {unat p ..< unat p + bsize h p} \<union> cells h (bp # zs)"
      by (simp only: cells_simps Un_ac)
    moreover have "hd_size h' p \<noteq> 0" using sum pz by (auto simp: h'1 unat_eq_zero [symmetric])
    ultimately show ?thesis using \<open>seg h' (p # zs) base lim\<close> sum nin sz pz by (intro exI [of _ zs]) (auto simp: h'1)
  next
    case False
    then have h'1: "h' = set_ptr p bp h" by (simp add: h' free_join_down_def)
    have "seg h' (bp # zs) base lim" using seg nin by (subst seg_cong [of _ _ h]) (auto simp: h'1)
    then have "seg h' (p # bp # zs) base lim" using p by (simp add: h'1 room_def)
    moreover have "cells h' (p # bp # zs) = {unat p ..< unat p + bsize h p} \<union> cells h (bp # zs)"
      by (simp add: cells_def h'1)
    ultimately show ?thesis using sz by (intro exI [of _ "bp # zs"]) (auto simp: h'1)
  qed
qed

text \<open>A block that is neither free nor part of the list, inside the image and above its start.\<close>

definition outside :: "addr \<Rightarrow> uheap \<Rightarrow> addr list \<Rightarrow> addr \<Rightarrow> bool" where
  "outside base h ns bp \<longleftrightarrow> unat base + 8 \<le> unat bp \<and> unat bp + bsize h bp \<le> unat (u_brk h) \<and> hd_size h bp \<noteq> 0 \<and>
     {unat bp ..< unat bp + bsize h bp} \<inter> cells h ns = {}"

lemma ivl_disjoint:
  "{a ..< a + m} \<inter> {b ..< b + n} = {} \<longleftrightarrow> m = 0 \<or> n = 0 \<or> a + m \<le> b \<or> b + n \<le> (a :: nat)"
proof -
  have "max a b \<in> {a ..< a + m} \<inter> {b ..< b + n}" if "m \<noteq> 0" "n \<noteq> 0" "\<not> a + m \<le> b" "\<not> b + n \<le> a"
    using that by (auto simp: max_def)
  then show ?thesis by (auto simp: disjoint_iff)
qed

lemma room_eq: "hd_size h a \<noteq> 0 \<Longrightarrow> room h a = bsize h a"
  by (simp add: room_def unat_eq_zero [symmetric])

lemma free_list_node:
  assumes "free_list base h ns" "a \<in> set ns" "a \<noteq> base"
  shows "hd_size h a \<noteq> 0" "{unat a ..< unat a + bsize h a} \<subseteq> cells h ns" "unat base + 8 \<le> unat a"
proof -
  obtain as where ns: "ns = base # as" using assms(1) by (cases ns) (auto simp: free_list_def)
  with assms show "hd_size h a \<noteq> 0" by (auto simp: free_list_def)
  show "{unat a ..< unat a + bsize h a} \<subseteq> cells h ns" using assms(2) by (auto simp: cells_def)
  have s: "seg h ns base (u_brk h)" using assms(1) by (simp add: free_list_def)
  then have "unat base + 8 \<le> unat (hd as)" "unat (hd as) \<le> unat a"
    using ns assms(2,3) room_pos(1) [of h base] seg_bounds [of h as base "u_brk h" a]
    by (cases as; auto)+
  then show "unat base + 8 \<le> unat a" by simp
qed

lemma free_list_brk:
  assumes "free_list base h ns" "a \<in> set ns"
  shows "unat a + bsize h a \<le> unat (u_brk h)" "unat a + 8 \<le> unat (u_brk h)"
  using seg_bounds [of h ns base "u_brk h" a] room_pos [of h a] assms by (auto simp: free_list_def)

lemma free_spec:
  assumes fl: "free_list base h ns" and out: "outside base h ns bp"
  shows "\<exists>h' ns'. free (bp + 8) h = Some h' \<and> free_list base h' ns' \<and> u_brk h' = u_brk h \<and>
    cells h' ns' = cells h ns \<union> {unat bp ..< unat bp + bsize h bp} \<and>
    (\<exists>a \<in> set ns'. unat (hd_size h bp) \<le> unat (hd_size h' a)) \<and>
    (\<forall>a. a \<notin> set ns \<and> a \<noteq> bp \<longrightarrow> hd_size h' a = hd_size h a)"
proof -
  have s: "seg h ns base (u_brk h)" "ns \<noteq> []" "hd ns = base" using fl by (simp_all add: free_list_def)
  have o: "unat base + 8 \<le> unat bp" "unat bp + bsize h bp \<le> unat (u_brk h)" "hd_size h bp \<noteq> 0"
    "{unat bp ..< unat bp + bsize h bp} \<inter> cells h ns = {}" using out by (simp_all add: outside_def)
  have pos: "0 < bsize h bp" using o(3) by (simp add: unat_gt_0)
  have sep: "unat a + bsize h a \<le> unat bp \<or> unat bp + bsize h bp \<le> unat a" if "a \<in> set ns" for a
  proof (cases "a = base")
    case True
    then show ?thesis using fl o(1) by (simp add: free_list_def)
  next
    case False
    have "{unat a ..< unat a + bsize h a} \<inter> {unat bp ..< unat bp + bsize h bp} = {}"
      using free_list_node(2) [OF fl that False] o(4) by blast
    then show ?thesis using pos free_list_node(1) [OF fl that False]
      by (auto simp: unat_eq_zero [symmetric] ivl_disjoint)
  qed
  have nin: "bp \<notin> set ns" using o(1,3) sep [of bp] pos by auto
  obtain xs p ys where ns: "ns = xs @ p # ys" "p < bp" "\<forall>a \<in> set ys. bp < a"
    using seg_place [OF s(1,2), of bp] s(3) o(1) nin by (auto simp: word_less_nat_alt)
  have find: "free_find bp h (freep h) = Some p"
    using free_find_place [of h xs p ys base "u_brk h" "freep h" bp] s ns fl by (cases xs) (auto simp: free_list_def)
  have dist: "distinct ns" using s(1) by (rule seg_distinct)
  have segs: "seg h xs p p" "seg h (p # ys) base (u_brk h)" using s(1) ns(1) by (simp_all add: seg_append)
  have gap: "unat bp + bsize h bp \<le> unat (hd (ys @ [u_brk h]))"
    using o(2) sep [of "hd ys"] ns by (cases ys) (auto simp: word_less_nat_alt)
  have below: "unat p + bsize h p \<le> unat bp" using sep [of p] ns by (auto simp: word_less_nat_alt)
  have below8: "unat p + 8 \<le> unat bp"
    using o(1) below free_list_node(1) [OF fl, of p] ns(1) by (cases "p = base") (auto simp: unat_eq_zero [symmetric])
  have sz: "\<forall>a \<in> set ys. hd_size h a \<noteq> 0" using fl ns(1) by (cases xs) (auto simp: free_list_def)
  define h1 where "h1 = free_join_up bp p h"
  obtain zs where zs: "seg h1 (bp # zs) base (u_brk h)" "set zs \<subseteq> set ys" "\<forall>a \<in> set zs. hd_size h1 a \<noteq> 0"
    "cells h1 (bp # zs) = cells h ys \<union> {unat bp ..< unat bp + bsize h bp}" "unat (hd_size h bp) \<le> unat (hd_size h1 bp)"
    "\<And>a. a \<noteq> bp \<Longrightarrow> hd_ptr h1 a = hd_ptr h a \<and> hd_size h1 a = hd_size h a" "u_brk h1 = u_brk h"
    using free_join_up_seg [OF segs(2) _ gap o(3) sz h1_def] o(1) by auto
  define h2 where "h2 = free_join_down bp p h1"
  have pbp: "bp \<noteq> p" "p \<notin> set zs" using ns zs(2) dist by auto
  note hp = zs(6) [OF pbp(1) [symmetric]]
  have bp1: "hd_size h1 bp \<noteq> 0" using zs(5) o(3) by (auto simp: unat_eq_zero [symmetric])
  obtain ws where ws: "seg h2 (p # ws) base (u_brk h)" "set ws \<subseteq> insert bp (set zs)" "\<forall>a \<in> set ws. hd_size h2 a \<noteq> 0"
    "cells h2 (p # ws) = {unat p ..< unat p + bsize h p} \<union> cells h1 (bp # zs)"
    "\<exists>a \<in> set (p # ws). unat (hd_size h1 bp) \<le> unat (hd_size h2 a)"
    "hd_size h p = 0 \<longrightarrow> hd_size h2 p = 0" "hd_size h p \<noteq> 0 \<longrightarrow> hd_size h2 p \<noteq> 0"
    "\<And>a. a \<noteq> p \<Longrightarrow> hd_ptr h2 a = hd_ptr h1 a \<and> hd_size h2 a = hd_size h1 a" "u_brk h2 = u_brk h1"
    using free_join_down_seg [OF zs(1) _ below8 h2_def pbp(2,1) bp1 zs(3)] below hp by auto
  let ?h = "h2\<lparr>freep := p\<rparr>" and ?ns = "xs @ p # ws"
  have fr: "hd_ptr h2 a = hd_ptr h a \<and> hd_size h2 a = hd_size h a" if "a \<noteq> p" "a \<noteq> bp" for a
    using ws(8) [OF that(1)] zs(6) [OF that(2)] by simp
  have xs: "a \<noteq> p" "a \<noteq> bp" if "a \<in> set xs" for a using that ns nin dist by auto
  have "seg h2 ?ns base (u_brk h)" using segs(1) ws(1) seg_cong [of xs h2 h p p] fr xs by (simp add: seg_append)
  then have "seg ?h ?ns base (u_brk h)" by (subst seg_cong [of _ _ h2]) simp_all
  moreover have "free (bp + 8) h = Some ?h" using find by (simp add: free_def Let_def h1_def h2_def)
  moreover have "cells ?h ?ns = cells h2 xs \<union> cells h2 (p # ws)" by (auto simp: cells_def)
  moreover have "cells h2 xs = cells h xs" using fr xs by (intro cells_cong) auto
  moreover have "hd ?ns = base" "hd_size h2 base = 0"
    using s(3) ns(1) fl ws(6) fr [of base] xs [of base] by (cases xs; auto simp: free_list_def)+
  moreover have "\<forall>a \<in> set (tl ?ns). hd_size h2 a \<noteq> 0"
  proof
    fix a assume "a \<in> set (tl ?ns)"
    then have "a \<in> set ws \<or> (xs \<noteq> [] \<and> a = p) \<or> a \<in> set (tl xs)" by (cases xs) auto
    then show "hd_size h2 a \<noteq> 0" using ws(3,7) fr [of a] xs [of a] fl ns(1)
      by (cases xs) (auto simp: free_list_def)
  qed
  moreover have "\<exists>a \<in> set ?ns. unat (hd_size h bp) \<le> unat (hd_size ?h a)"
    using ws(5) zs(5) by (fastforce dest: order_trans)
  ultimately show ?thesis using ws(4) zs(4,7) ws(9) ns(1) fr
    by (intro exI [of _ ?h] exI [of _ ?ns]) (auto simp: free_list_def cells_simps)
qed

subsection \<open>Searching a block\<close>

fun path :: "uheap \<Rightarrow> addr \<Rightarrow> addr list \<Rightarrow> bool" where
  "path h p [] = True"
| "path h p (a # r) \<longleftrightarrow> hd_ptr h p = a \<and> path h a r"

lemma path_append: "path h p (xs @ q # ys) \<longleftrightarrow> path h p (xs @ [q]) \<and> path h q ys"
  by (induction xs arbitrary: p) auto

lemma path_last: "path h p (us @ [a]) \<Longrightarrow> hd_ptr h (last (p # us)) = a"
  by (induction us arbitrary: p) auto

lemma seg_path: "seg h (a # r) z lim \<Longrightarrow> path h a (r @ [z])"
  by (induction r arbitrary: a) auto

text \<open>From \<^verbatim>\<open>freep\<close> the links lead through the whole list and back.\<close>

lemma free_list_round:
  assumes "free_list base h (xs @ f # ys)"
  shows "path h f (ys @ xs @ [f])"
proof -
  have "seg h (xs @ f # ys) base (u_brk h)" "hd (xs @ f # ys) = base" using assms by (simp_all only: free_list_def)
  then have s: "seg h xs f f" "seg h (f # ys) base (u_brk h)" and b: "hd (xs @ [f]) = base"
    by (simp_all only: seg_append append_Cons list.sel) (cases xs; simp)
  have "path h f (ys @ [base])" using seg_path [OF s(2)] .
  then show ?thesis
  proof (cases xs)
    case (Cons c xs')
    then have "path h c (xs' @ [f])" "c = base" using seg_path [of h c xs' f f] s(1) b by auto
    then show ?thesis using \<open>path h f (ys @ [base])\<close> Cons path_append [of h f ys c "xs' @ [f]"] by simp
  qed (use b in simp)
qed

lemma malloc_walk:
  "path h p (us @ [a]) \<Longrightarrow> \<forall>u \<in> set us. hd_size h u < n \<and> u \<noteq> freep h \<Longrightarrow>
   malloc_loop grow n p (hd_ptr h p) h = malloc_loop grow n (last (p # us)) a h"
proof (induction us arbitrary: p)
  case (Cons u us)
  then have "malloc_loop grow n p (hd_ptr h p) h = malloc_loop grow n u (hd_ptr h u) h"
    by (subst malloc_loop.simps) auto
  with Cons show ?case by simp
qed simp

lemma free_list_pred:
  assumes "free_list base h ns" "q \<in> set ns" "hd_ptr h q = a" "a \<noteq> base"
  shows "\<exists>xs ys. ns = xs @ q # a # ys"
proof -
  obtain xs ys where ns: "ns = xs @ q # ys" using assms(2) by (meson split_list)
  then have "a = hd (ys @ [base])" using assms(1,3) by (simp add: free_list_def seg_append)
  with assms(4) ns show ?thesis by (cases ys) auto
qed

lemma path_mem: "path h p (us @ [a]) \<Longrightarrow> last (p # us) \<in> insert p (set us)"
  by (cases us rule: rev_cases) auto

lemma free_list_distinct: "free_list base h ns \<Longrightarrow> distinct ns"
  unfolding free_list_def by (blast dest: seg_distinct)

lemma free_list_split: "free_list base h ns \<Longrightarrow> \<exists>xs ys. ns = xs @ freep h # ys"
  unfolding free_list_def by (blast dest: split_list)

lemma search_found:
  assumes fl: "free_list base h ns" and ex: "\<exists>a \<in> set ns. n \<le> hd_size h a" and "n \<noteq> 0"
  shows "\<exists>xs q a ys. ns = xs @ q # a # ys \<and> n \<le> hd_size h a \<and>
    malloc_loop grow n (freep h) (hd_ptr h (freep h)) h = Some (malloc_take n q a h)"
proof -
  let ?f = "freep h"
  obtain xs ys where ns: "ns = xs @ ?f # ys" using free_list_split [OF fl] by blast
  have dist: "distinct ns" using fl by (rule free_list_distinct)
  have "\<exists>x \<in> set (ys @ xs @ [?f]). n \<le> hd_size h x" using ex ns by auto
  then obtain us a vs where v: "ys @ xs @ [?f] = us @ a # vs" "n \<le> hd_size h a" "\<forall>u \<in> set us. \<not> n \<le> hd_size h u"
    by (rule split_list_first_propE) blast
  have "path h ?f (us @ a # vs)" using free_list_round [of base h xs ?f ys] fl unfolding ns v(1) by blast
  then have p: "path h ?f (us @ [a])" using path_append by blast
  have "distinct (ys @ xs @ [?f])" using dist unfolding ns by auto
  then have d: "distinct (us @ a # vs)" unfolding v(1) .
  have "last (us @ a # vs) = ?f" unfolding v(1) [symmetric] by simp
  then have "?f \<in> set (a # vs)" using last_in_set [of "a # vs"] by (metis last_appendR list.discI)
  then have nf: "?f \<notin> set us" using d by auto
  have "malloc_loop grow n ?f (hd_ptr h ?f) h = malloc_loop grow n (last (?f # us)) a h"
    using v(3) nf by (intro malloc_walk [OF p]) (auto simp: not_le)
  also have "\<dots> = Some (malloc_take n (last (?f # us)) a h)" by (subst malloc_loop.simps) (simp only: v(2) if_True)
  finally have "malloc_loop grow n ?f (hd_ptr h ?f) h = Some (malloc_take n (last (?f # us)) a h)" .
  moreover have "set (us @ a # vs) \<subseteq> set ns" unfolding v(1) [symmetric] ns by auto
  then have "last (?f # us) \<in> set ns" using path_mem [OF p] ns by auto
  moreover have "a \<noteq> base" using v(2) fl assms(3) by (auto simp: free_list_def)
  ultimately show ?thesis using free_list_pred [OF fl _ path_last [OF p]] v(2) by blast
qed

lemma search_fails:
  assumes fl: "free_list base h ns" and all: "\<forall>a \<in> set ns. hd_size h a < n"
  shows "malloc_loop grow n (freep h) (hd_ptr h (freep h)) h =
    Option.bind (morecore grow n h)
      (\<lambda>(q, h'). if q = 0 then Some (0, h') else malloc_loop grow n q (hd_ptr h' q) h')"
proof -
  let ?f = "freep h"
  obtain xs ys where ns: "ns = xs @ ?f # ys" using free_list_split [OF fl] by blast
  have "distinct ns" using fl by (rule free_list_distinct)
  then have "\<forall>u \<in> set (ys @ xs). hd_size h u < n \<and> u \<noteq> ?f" using ns all by auto
  moreover have "path h ?f ((ys @ xs) @ [?f])" using free_list_round [of base h xs ?f ys] fl ns by simp
  ultimately have "malloc_loop grow n ?f (hd_ptr h ?f) h = malloc_loop grow n (last (?f # ys @ xs)) ?f h"
    by (intro malloc_walk)
  moreover have "\<not> n \<le> hd_size h ?f" using all ns by auto
  ultimately show ?thesis by (simp only: malloc_loop.simps [of grow n "last (?f # ys @ xs)" ?f h] if_False if_True refl)
qed

subsection \<open>Taking a block\<close>

lemma seg_below: "seg h ns z lim \<Longrightarrow> cells h ns \<subseteq> {..< unat lim} \<and> (\<forall>a \<in> set ns. unat a < unat lim)"
proof -
  assume s: "seg h ns z lim"
  have "unat a + bsize h a \<le> unat lim \<and> unat a < unat lim" if "a \<in> set ns" for a
    using seg_bounds [OF s that] room_pos [of h a] by simp
  then show ?thesis by (fastforce simp: cells_def)
qed

lemma seg_above:
  assumes "seg h ns z lim" "k \<le> unat (hd (ns @ [lim]))"
  shows "cells h ns \<subseteq> {k ..} \<and> (\<forall>a \<in> set ns. k \<le> unat a)"
proof -
  have "k \<le> unat a" if a: "a \<in> set ns" for a
    using seg_bounds [OF assms(1) a] assms(2) a by (cases ns) auto
  then show ?thesis by (fastforce simp: cells_def)
qed

lemma take_spec:
  assumes fl: "free_list base h (xs @ q # a # ys)" and n: "n \<le> hd_size h a" "n \<noteq> 0"
    and take: "malloc_take n q a h = (r, h')"
  shows "\<exists>b ns'. r = b + 8 \<and> free_list base h' ns' \<and> u_brk h' = u_brk h \<and> hd_size h' b = n \<and>
    {unat b ..< unat b + 8 * unat n} \<subseteq> cells h (xs @ q # a # ys) \<and>
    cells h' ns' = cells h (xs @ q # a # ys) - {unat b ..< unat b + 8 * unat n} \<and>
    (\<forall>x. unat x \<notin> cells h (xs @ q # a # ys) \<longrightarrow> hd_size h' x = hd_size h x)"
proof -
  let ?ns = "xs @ q # a # ys"
  have s: "seg h (xs @ [q]) a a" "seg h (a # ys) base (u_brk h)" "seg h xs q q"
    using fl seg_append [of h "xs @ [q]" "a # ys"] by (simp_all add: free_list_def seg_append)
  have above: "unat a + room h a \<le> unat (hd (ys @ [u_brk h]))" "seg h ys base (u_brk h)" "hd_ptr h a = hd (ys @ [base])"
    using s(2) by simp_all
  note lo = seg_below [OF s(1)] and hi = seg_above [OF above(2,1)]
  have dist: "distinct ?ns" using fl by (rule free_list_distinct)
  have an: "a \<noteq> base" using dist fl by (cases xs) (auto simp: free_list_def)
  have ra: "room h a = bsize h a" using free_list_node(1) [OF fl, of a] an by (intro room_eq) simp
  have lt: "unat a + bsize h a < 2 ^ 32" using above(1) ra unsigned_less [of "hd (ys @ [u_brk h])", where ?'a = nat] by simp
  have cn: "cells h ?ns = cells h (xs @ [q]) \<union> {unat a ..< unat a + bsize h a} \<union> cells h ys"
    by (auto simp: cells_simps)
  have base: "hd ?ns = base" "hd_size h base = 0" "\<forall>x \<in> set (tl ?ns). hd_size h x \<noteq> 0" using fl by (simp_all add: free_list_def)
  have split: "0 < m \<Longrightarrow> m < k \<Longrightarrow> A \<subseteq> {..< u} \<Longrightarrow> B \<subseteq> {u + k ..} \<Longrightarrow>
      A \<union> {u ..< u + k} \<union> B - {u + m ..< u + k} = A \<union> {u ..< u + m} \<union> B" for A B :: "nat set" and u k m :: nat
    by (auto simp: subset_iff)
  show ?thesis
  proof (cases "hd_size h a = n")
    case True
    have r: "r = a + 8" and h': "h' = (set_ptr q (hd_ptr h a) h)\<lparr>freep := q\<rparr>"
      using take True by (simp_all add: malloc_take_def hdr_plus_def)
    have "seg h' xs q q" "seg h' ys base (u_brk h)"
      using s(3) above(2) dist by (subst seg_cong [of _ _ h]; auto simp: h')+
    moreover have "unat q + room h q \<le> unat (hd (ys @ [u_brk h]))" using s(1) above(1) by (simp add: seg_append)
    ultimately have "seg h' (xs @ q # ys) base (u_brk h)" using above(3) by (simp add: seg_append h' room_def)
    moreover have "hd (xs @ q # ys) = base" "set (tl (xs @ q # ys)) \<subseteq> set (tl ?ns)" using base(1) by (cases xs; auto)+
    ultimately have "free_list base h' (xs @ q # ys)" using base(2,3) by (auto simp: free_list_def h')
    moreover have "cells h' (xs @ q # ys) = cells h (xs @ [q]) \<union> cells h ys" by (auto simp: cells_def h')
    then have "cells h' (xs @ q # ys) = cells h ?ns - {unat a ..< unat a + bsize h a}"
      using lo hi ra unfolding cn by (auto simp: subset_iff)
    moreover have "{unat a ..< unat a + bsize h a} \<subseteq> cells h ?ns" unfolding cn by blast
    ultimately show ?thesis using True r by (intro exI [of _ a] exI [of _ "xs @ q # ys"]) (auto simp: h')
  next
    case False
    define m where "m = hd_size h a - n"
    define b where "b = hdr_plus a m"
    have um: "unat m = unat (hd_size h a) - unat n" using n(1) by (simp add: m_def unat_sub)
    have nn: "0 < unat n" "unat n < unat (hd_size h a)" 
      using n(2) order.not_eq_order_implies_strict [OF False [symmetric] n(1)] by (simp_all add: unat_gt_0 word_less_nat_alt)
    have ub: "unat b = unat a + 8 * unat m" unfolding b_def using lt um by (intro unat_hdr_plus) simp
    have r: "r = b + 8" and h': "h' = (set_size b n (set_size a m h))\<lparr>freep := q\<rparr>"
      using take False by (simp_all add: malloc_take_def b_def m_def Let_def hdr_plus_def)
    have bn: "b \<noteq> x" if x: "x \<in> set ?ns" for x
    proof -
      consider "x \<in> set (xs @ [q])" | "x = a" | "x \<in> set ys" using x by auto
      then have "unat x < unat a \<or> unat x = unat a \<or> unat a + bsize h a \<le> unat x"
        by cases (use lo hi ra in auto)
      then show ?thesis using ub um nn by auto
    qed
    have sz: "hd_size h' x = (if x = a then m else hd_size h x)" "hd_ptr h' x = hd_ptr h x" if "x \<in> set ?ns" for x
      using bn [OF that] by (simp_all add: h')
    have sz': "hd_size h' x = hd_size h x \<and> hd_ptr h' x = hd_ptr h x" if "x \<in> set (xs @ [q]) \<or> x \<in> set ys" for x
      using that sz [of x] dist by auto
    have "seg h' (xs @ [q]) a a = seg h (xs @ [q]) a a" "seg h' ys base (u_brk h) = seg h ys base (u_brk h)"
      by (rule seg_cong, use sz' in blast)+
    then have "seg h' (xs @ [q]) a a" "seg h' ys base (u_brk h)" using s(1) above(2) by simp_all
    moreover have "room h' a = 8 * unat m" using sz [of a] um nn by (simp add: room_def)
    ultimately have "seg h' ?ns base (u_brk h)"
      using above ra um sz [of a] seg_append [of h' "xs @ [q]" "a # ys"] by simp
    have "m \<noteq> 0" using um nn by auto
    have "\<forall>x \<in> set (tl ?ns). hd_size h' x \<noteq> 0"
    proof
      fix x assume x: "x \<in> set (tl ?ns)"
      then have "x \<in> set ?ns" by (metis list.set_sel(2) append_is_Nil_conv list.discI)
      then show "hd_size h' x \<noteq> 0" using x base(3) sz(1) [of x] \<open>m \<noteq> 0\<close> by simp
    qed
    moreover have "base \<in> set ?ns" using base(1) by (cases xs) auto
    then have "hd_size h' base = 0" using base(2) sz(1) [of base] an by simp
    ultimately have "free_list base h' ?ns" using base(1) \<open>seg h' ?ns base (u_brk h)\<close> by (simp add: free_list_def h')
    moreover have "cells h' ?ns = cells h (xs @ [q]) \<union> {unat a ..< unat a + 8 * unat m} \<union> cells h ys"
    proof -
      have "cells h' (xs @ [q]) = cells h (xs @ [q])" "cells h' ys = cells h ys" by (rule cells_cong, use sz' in blast)+
      moreover have "cells h' ?ns = cells h' (xs @ [q]) \<union> {unat a ..< unat a + bsize h' a} \<union> cells h' ys" by (auto simp: cells_simps)
      ultimately show ?thesis using sz(1) [of a] by simp
    qed
    then have "cells h' ?ns = cells h ?ns - {unat b ..< unat b + 8 * unat n}"
      using split [of "8 * unat m" "bsize h a" "cells h (xs @ [q])" "unat a" "cells h ys"] lo hi ra um nn
      unfolding cn ub by (simp add: algebra_simps)
    moreover have "{unat b ..< unat b + 8 * unat n} \<subseteq> cells h ?ns" unfolding cn using ub um nn by auto
    moreover have "hd_size h' x = hd_size h x" if "unat x \<notin> cells h ?ns" for x
      using that ub um nn unfolding cn by (auto simp: h')
    ultimately show ?thesis using r by (intro exI [of _ b] exI [of _ ?ns]) (auto simp: h')
  qed
qed

subsection \<open>Growing and the whole of malloc\<close>

text \<open>What the kernel promises: a non-negative request is granted only below \<^verbatim>\<open>KERNBASE\<close>.\<close>

definition sbrk_ok :: "(addr \<Rightarrow> u32 \<Rightarrow> bool) \<Rightarrow> bool" where
  "sbrk_ok grow \<longleftrightarrow> (\<forall>b m. unat m < 2 ^ 31 \<and> grow b m \<longrightarrow> unat b + unat m < 2 ^ 31)"

lemma seg_lim_mono: "seg h ns z lim \<Longrightarrow> unat lim \<le> unat lim' \<Longrightarrow> seg h ns z lim'"
  by (induction ns) (auto simp: hd_append split: if_splits)

lemma free_list_cells: "free_list base h ns \<Longrightarrow> cells h ns \<subseteq> {..< unat (u_brk h)}"
  unfolding free_list_def using seg_below by blast

lemma free_list_mem_cell:
  assumes "free_list base h ns" "a \<in> set ns" "a \<noteq> base"
  shows "unat a \<in> cells h ns"
proof -
  have "0 < bsize h a" using free_list_node(1) [OF assms] by (simp add: unat_gt_0)
  then show ?thesis using free_list_node(2) [OF assms] by auto
qed

lemma free_list_freep: "free_list base h ns \<Longrightarrow> base \<noteq> 0 \<Longrightarrow> freep h \<noteq> 0"
  using free_list_node(3) [of base h ns "freep h"] by (force simp: free_list_def)

lemma units_small:
  assumes "unat n + 16 \<le> 2 ^ 31"
  shows "unat (units n) = (unat n + 7) div 8 + 1" "unat n \<le> 8 * (unat (units n) - 1)" "units n \<noteq> 0"
    "8 * max 4096 (unat (units n)) < 2 ^ 31"
proof -
  have "unat (n + 7) = unat n + 7" using assms by (simp add: unat_add_small)
  then have "unat ((n + 7) div 8) = (unat n + 7) div 8" by (simp add: unat_div)
  then show u: "unat (units n) = (unat n + 7) div 8 + 1"
    using assms by (simp add: units_def unat_add_small add.commute [of 7])
  show "unat n \<le> 8 * (unat (units n) - 1)" using u by simp
  show "units n \<noteq> 0" using u by auto
  show "8 * max 4096 (unat (units n)) < 2 ^ 31" using u assms by (simp add: max_def div_less_iff_less_mult)
qed

lemma morecore_spec:
  assumes fl: "free_list base h ns" and "base \<noteq> 0" and ok: "sbrk_ok grow" and n: "8 * max 4096 (unat n) < 2 ^ 31"
  shows "morecore grow n h = Some (0, h) \<or>
    (\<exists>h' ns'. morecore grow n h = Some (freep h', h') \<and> free_list base h' ns' \<and> freep h' \<noteq> 0 \<and>
       unat (u_brk h) \<le> unat (u_brk h') \<and> cells h' ns' = cells h ns \<union> {unat (u_brk h) ..< unat (u_brk h')} \<and>
       (\<exists>a \<in> set ns'. n \<le> hd_size h' a) \<and>
       (\<forall>x. unat x < unat (u_brk h) \<and> x \<notin> set ns \<longrightarrow> hd_size h' x = hd_size h x))"
proof (cases "grow (u_brk h) ((if n < 4096 then 4096 else n) * 8)")
  case True
  define nu where "nu = (if n < 4096 then 4096 else n)"
  have un: "unat nu = max 4096 (unat n)" by (auto simp: nu_def word_less_nat_alt max_def)
  have u8: "unat (nu * 8) = 8 * unat nu" using n un unat_mult8 [of nu] by (simp only: mult.commute [of nu]) simp
  let ?p = "u_brk h" and ?e = "u_brk h + nu * 8"
  have lt: "unat ?p + 8 * unat nu < 2 ^ 31"
    using ok True n un u8 unfolding nu_def [symmetric] sbrk_ok_def by metis
  then have ue: "unat ?e = unat ?p + 8 * unat nu" using u8 by (simp add: unat_add_small)
  define h1 where "h1 = set_size ?p nu (h\<lparr>u_brk := ?e\<rparr>)"
  have pn: "?p \<noteq> a" if "a \<in> set ns" for a using free_list_brk(2) [OF fl that] by auto
  have "seg h1 ns base ?e"
    using fl seg_lim_mono [of h ns base ?p ?e] ue pn
    by (subst seg_cong [of _ _ h]) (auto simp: h1_def free_list_def)
  have sz: "hd_size h1 a = hd_size h a" if "a \<noteq> ?p" for a using that by (simp add: h1_def)
  have f0: "ns \<noteq> []" "hd ns = base" "hd_size h base = 0" "\<forall>a \<in> set (tl ns). hd_size h a \<noteq> 0" "freep h1 \<in> set ns"
    using fl by (simp_all add: free_list_def h1_def)
  then have "base \<in> set ns" "set (tl ns) \<subseteq> set ns" by (cases ns; auto)+
  moreover have "hd_size h1 base = 0" using sz [of base] pn [OF \<open>base \<in> set ns\<close>] f0(3) by simp
  moreover have "hd_size h1 a \<noteq> 0" if a: "a \<in> set (tl ns)" for a
    using sz [of a] pn [of a] a f0(4) \<open>set (tl ns) \<subseteq> set ns\<close> by auto
  ultimately have fl1: "free_list base h1 ns"
    using f0 \<open>seg h1 ns base ?e\<close> unfolding free_list_def by (simp add: h1_def)
  have c1: "cells h1 ns = cells h ns" using pn by (intro cells_cong sz) blast
  have "cells h ns \<subseteq> {..< unat ?p}" using fl by (rule free_list_cells)
  then have out: "outside base h1 ns ?p"
    using free_list_brk(2) [OF fl \<open>base \<in> set ns\<close>] un ue c1
    by (auto simp: outside_def h1_def unat_eq_zero [symmetric])
  have bs: "bsize h1 ?p = 8 * unat nu" by (simp add: h1_def)
  have "hd_size h1 ?p = nu" by (simp add: h1_def)
  with free_spec [OF fl1 out] obtain h' ns' where
    f: "free (?p + 8) h1 = Some h'" "free_list base h' ns'" "u_brk h' = u_brk h1"
      "cells h' ns' = cells h1 ns \<union> {unat ?p ..< unat ?p + 8 * unat nu}" "\<exists>a \<in> set ns'. unat nu \<le> unat (hd_size h' a)"
      "\<forall>a. a \<notin> set ns \<and> a \<noteq> ?p \<longrightarrow> hd_size h' a = hd_size h1 a" by auto
  have "morecore grow n h = Some (freep h', h')"
    using True f(1) by (simp add: morecore_def Let_def nu_def [symmetric] hdr_plus_def h1_def)
  moreover have "\<exists>a \<in> set ns'. n \<le> hd_size h' a" using f(5) un by (force simp: word_le_nat_alt)
  moreover have "hd_size h' x = hd_size h x" if "unat x < unat ?p" "x \<notin> set ns" for x
  proof -
    have "x \<noteq> ?p" using that(1) by auto
    then show ?thesis using f(6) sz that(2) by simp
  qed
  moreover have "u_brk h' = ?e" using f(3) by (simp add: h1_def)
  ultimately show ?thesis
    using f(2,4) free_list_freep [OF f(2) assms(2)] c1 ue by (intro disjI2 exI [of _ h'] exI [of _ ns']) simp
qed (simp add: morecore_def Let_def)

definition blk :: "uheap \<Rightarrow> addr \<Rightarrow> nat set" where
  "blk h b = {unat b ..< unat b + bsize h b}"

definition new_cells :: "uheap \<Rightarrow> uheap \<Rightarrow> nat set" where
  "new_cells h h' = {unat (u_brk h) ..< unat (u_brk h')}"

definition gives :: "addr \<Rightarrow> u32 \<Rightarrow> uheap \<Rightarrow> addr list \<Rightarrow> addr \<times> uheap \<Rightarrow> bool" where
  "gives base n h ns ph \<longleftrightarrow> (case ph of (p, h') \<Rightarrow>
     if p = 0 then h' = h
     else \<exists>b ns'. p = b + 8 \<and> hd_size h' b = n \<and> free_list base h' ns' \<and> unat (u_brk h) \<le> unat (u_brk h') \<and>
       unat b + 8 * unat n \<le> unat (u_brk h') \<and> blk h' b \<subseteq> cells h ns \<union> new_cells h h' \<and>
       cells h' ns' = (cells h ns \<union> new_cells h h') - blk h' b \<and>
       (\<forall>x. unat x < unat (u_brk h) \<and> x \<noteq> base \<and> unat x \<notin> cells h ns \<longrightarrow> hd_size h' x = hd_size h x))"

lemma take_gives:
  assumes fl: "free_list base h ns" and ns: "ns = xs @ q # a # ys" and n: "n \<le> hd_size h a" "n \<noteq> 0"
    and h0: "unat (u_brk h0) \<le> unat (u_brk h)" "cells h ns = cells h0 ns0 \<union> new_cells h0 h"
    and fr: "\<And>x. unat x < unat (u_brk h0) \<Longrightarrow> x \<noteq> base \<Longrightarrow> unat x \<notin> cells h0 ns0 \<Longrightarrow> hd_size h x = hd_size h0 x"
  shows "gives base n h0 ns0 (malloc_take n q a h)"
proof -
  obtain r h' where take: "malloc_take n q a h = (r, h')" by fastforce
  from take_spec [OF fl [unfolded ns] n take] obtain b ns' where
    t: "r = b + 8" "free_list base h' ns'" "u_brk h' = u_brk h" "hd_size h' b = n"
      "{unat b ..< unat b + 8 * unat n} \<subseteq> cells h ns" "cells h' ns' = cells h ns - {unat b ..< unat b + 8 * unat n}"
      "\<And>x. unat x \<notin> cells h ns \<Longrightarrow> hd_size h' x = hd_size h x" unfolding ns by blast
  have nc: "new_cells h0 h' = new_cells h0 h" by (simp add: new_cells_def t(3))
  have bb: "blk h' b = {unat b ..< unat b + 8 * unat n}" by (simp add: blk_def t(4))
  have n0: "0 < unat n" using n(2) by (simp add: unat_gt_0)
  have "cells h ns \<subseteq> {..< unat (u_brk h)}" using fl by (rule free_list_cells)
  moreover have "unat b + 8 * unat n - 1 \<in> {unat b ..< unat b + 8 * unat n}" using n0 by simp
  ultimately have "unat b + 8 * unat n - 1 < unat (u_brk h)" using t(5) by blast
  then have le: "unat b + 8 * unat n \<le> unat (u_brk h')" using n0 t(3) by simp
  have "unat (b + 8) = unat b + 8" using le n0 unsigned_less [of "u_brk h'", where ?'a = nat] by (intro unat_add_small [of b 8, simplified]) simp
  then have "r \<noteq> 0" using t(1) by auto
  moreover have "hd_size h' x = hd_size h0 x" if "unat x < unat (u_brk h0)" "x \<noteq> base" "unat x \<notin> cells h0 ns0" for x
    using t(7) [of x] fr [OF that] that h0(2) by (simp add: new_cells_def)
  ultimately show ?thesis unfolding gives_def take prod.case
    using t h0 le nc bb by (simp only: if_False) blast
qed

lemma malloc_spec:
  assumes fl: "free_list base h ns" and "base \<noteq> 0" and ok: "sbrk_ok grow" and n: "unat nbytes + 16 \<le> 2 ^ 31"
  shows "\<exists>r. malloc base grow nbytes h = Some r \<and> gives base (units nbytes) h ns r"
proof -
  let ?n = "units nbytes"
  have init: "malloc_init base h = h" using free_list_freep [OF fl assms(2)] by (simp add: malloc_init_def)
  have m: "malloc base grow nbytes h = malloc_loop grow ?n (freep h) (hd_ptr h (freep h)) h"
    by (simp add: malloc_def init)
  show ?thesis
  proof (cases "\<exists>a \<in> set ns. ?n \<le> hd_size h a")
    case True
    from search_found [OF fl True units_small(3) [OF n], of grow] obtain xs q a ys where
      s: "ns = xs @ q # a # ys" "?n \<le> hd_size h a"
        "malloc_loop grow ?n (freep h) (hd_ptr h (freep h)) h = Some (malloc_take ?n q a h)" by blast
    then show ?thesis using take_gives [OF fl s(1,2) units_small(3) [OF n], of h ns] m by (simp add: new_cells_def)
  next
    case False
    then have "\<forall>a \<in> set ns. hd_size h a < ?n" by (simp add: not_le)
    note f = search_fails [OF fl this, of grow]
    from morecore_spec [OF fl assms(2) ok units_small(4) [OF n]]
    show ?thesis
    proof
      assume "morecore grow ?n h = Some (0, h)"
      then show ?thesis using f m by (simp add: gives_def)
    next
      assume "\<exists>h' ns'. morecore grow ?n h = Some (freep h', h') \<and> free_list base h' ns' \<and> freep h' \<noteq> 0 \<and>
       unat (u_brk h) \<le> unat (u_brk h') \<and> cells h' ns' = cells h ns \<union> {unat (u_brk h) ..< unat (u_brk h')} \<and>
       (\<exists>a \<in> set ns'. ?n \<le> hd_size h' a) \<and>
       (\<forall>x. unat x < unat (u_brk h) \<and> x \<notin> set ns \<longrightarrow> hd_size h' x = hd_size h x)"
      then obtain h' ns' where g: "morecore grow ?n h = Some (freep h', h')" "free_list base h' ns'" "freep h' \<noteq> 0"
        "unat (u_brk h) \<le> unat (u_brk h')" "cells h' ns' = cells h ns \<union> new_cells h h'" "\<exists>a \<in> set ns'. ?n \<le> hd_size h' a"
        "\<And>x. unat x < unat (u_brk h) \<Longrightarrow> x \<notin> set ns \<Longrightarrow> hd_size h' x = hd_size h x" by (auto simp: new_cells_def)
      from search_found [OF g(2,6) units_small(3) [OF n], of grow] obtain xs q a ys where
        s: "ns' = xs @ q # a # ys" "?n \<le> hd_size h' a"
          "malloc_loop grow ?n (freep h') (hd_ptr h' (freep h')) h' = Some (malloc_take ?n q a h')" by blast
      have fr: "hd_size h' x = hd_size h x" if x: "unat x < unat (u_brk h)" "x \<noteq> base" "unat x \<notin> cells h ns" for x
      proof -
        have "x \<notin> set ns" using free_list_mem_cell [OF fl _ x(2)] x(3) by blast
        with g(7) x(1) show ?thesis by blast
      qed
      show ?thesis using take_gives [OF g(2) s(1,2) units_small(3) [OF n] g(4,5) fr] m f g(1,3) s(3) by simp
    qed
  qed
qed

section \<open>Sequences of calls\<close>

text \<open>
  A program that calls \<^verbatim>\<open>malloc\<close> and frees blocks it holds; the map gives the blocks it holds with
  the numbers of bytes it asked for.
\<close>

inductive alloc_step :: "addr \<Rightarrow> (addr \<Rightarrow> u32 \<Rightarrow> bool) \<Rightarrow> uheap \<times> (addr \<Rightarrow> u32 option) \<Rightarrow> uheap \<times> (addr \<Rightarrow> u32 option) \<Rightarrow> bool"
  for base grow where
  malloc: "malloc base grow n h = Some (p, h') \<Longrightarrow> unat n + 16 \<le> 2 ^ 31 \<Longrightarrow>
           alloc_step base grow (h, L) (h', if p = 0 then L else L(p \<mapsto> n))"
| free: "L p = Some n \<Longrightarrow> free p h = Some h' \<Longrightarrow> alloc_step base grow (h, L) (h', L(p := None))"

inductive_cases alloc_stepE: "alloc_step base grow (h, L) (h', L')"

definition held :: "addr \<Rightarrow> uheap \<Rightarrow> addr list \<Rightarrow> addr \<Rightarrow> u32 \<Rightarrow> bool" where
  "held base h ns p n \<longleftrightarrow> outside base h ns (p - 8) \<and> hd_size h (p - 8) = units n \<and> unat n + 16 \<le> 2 ^ 31"

definition all_held :: "addr \<Rightarrow> uheap \<Rightarrow> addr list \<Rightarrow> (addr \<Rightarrow> u32 option) \<Rightarrow> bool" where
  "all_held base h ns L \<longleftrightarrow> (\<forall>p n. L p = Some n \<longrightarrow> held base h ns p n) \<and>
     (\<forall>p q. p \<in> dom L \<and> q \<in> dom L \<and> p \<noteq> q \<longrightarrow> blk h (p - 8) \<inter> blk h (q - 8) = {})"

text \<open>Either nothing has been allocated yet, or there is a free list and the blocks held lie outside it.\<close>

definition heap_inv :: "addr \<Rightarrow> uheap \<times> (addr \<Rightarrow> u32 option) \<Rightarrow> bool" where
  "heap_inv base s \<longleftrightarrow> (case s of (h, L) \<Rightarrow>
     (freep h = 0 \<and> L = Map.empty \<and> unat base + 8 \<le> unat (u_brk h)) \<or>
     (\<exists>ns. free_list base h ns \<and> all_held base h ns L))"

lemma outside_facts:
  assumes "outside base h ns b"
  shows "unat b \<in> blk h b" "blk h b \<subseteq> {..< unat (u_brk h)}" "b \<noteq> base" "unat b \<notin> cells h ns" "b \<notin> set ns \<or> \<not> free_list base h ns"
proof -
  have o: "unat base + 8 \<le> unat b" "unat b + bsize h b \<le> unat (u_brk h)" "hd_size h b \<noteq> 0" "blk h b \<inter> cells h ns = {}"
    using assms by (simp_all add: outside_def blk_def)
  show b: "unat b \<in> blk h b" using o(3) by (simp add: blk_def unat_gt_0)
  show "blk h b \<subseteq> {..< unat (u_brk h)}" using o(2) by (auto simp: blk_def)
  show "b \<noteq> base" using o(1) by auto
  show "unat b \<notin> cells h ns" using b o(4) by blast
  then show "b \<notin> set ns \<or> \<not> free_list base h ns" using free_list_mem_cell \<open>b \<noteq> base\<close> by blast
qed

text \<open>A block stays as it is when its header is not touched and the free cells do not reach it.\<close>

lemma outside_keep:
  assumes "outside base h ns b" "hd_size h' b = hd_size h b" "unat (u_brk h) \<le> unat (u_brk h')"
    "cells h' ns' \<subseteq> cells h ns \<union> X" "blk h b \<inter> X = {}"
  shows "outside base h' ns' b" "blk h' b = blk h b"
  using assms by (auto simp: outside_def blk_def)

lemma all_held_step:
  assumes L: "all_held base h ns L" and sub: "L' \<subseteq>\<^sub>m L" and brk: "unat (u_brk h) \<le> unat (u_brk h')"
    and cells: "cells h' ns' \<subseteq> cells h ns \<union> X"
    and keep: "\<And>p n. L' p = Some n \<Longrightarrow> hd_size h' (p - 8) = hd_size h (p - 8) \<and> blk h (p - 8) \<inter> X = {}"
  shows "all_held base h' ns' L'"
proof -
  have o: "outside base h' ns' (p - 8) \<and> blk h' (p - 8) = blk h (p - 8) \<and> held base h' ns' p n" if p: "L' p = Some n" for p n
  proof -
    have "L p = Some n" using sub p by (metis domI map_le_def)
    then have "held base h ns p n" using L by (simp add: all_held_def)
    with outside_keep [of base h ns "p - 8" h' ns' X] brk cells keep [OF p] show ?thesis by (simp add: held_def)
  qed
  have d: "p \<in> dom L" if "p \<in> dom L'" for p using sub that by (auto dest: map_le_implies_dom_le)
  have "blk h' (p - 8) \<inter> blk h' (q - 8) = {}" if "p \<in> dom L'" "q \<in> dom L'" "p \<noteq> q" for p q
  proof -
    have "blk h' (p - 8) = blk h (p - 8)" "blk h' (q - 8) = blk h (q - 8)" using that o by blast+
    then show ?thesis using L d that unfolding all_held_def by blast
  qed
  with o show ?thesis unfolding all_held_def by blast
qed

lemma all_held_insert:
  assumes L: "all_held base h ns L" and p: "held base h ns p n" "\<And>q. q \<in> dom L \<Longrightarrow> blk h (p - 8) \<inter> blk h (q - 8) = {}"
  shows "all_held base h ns (L(p \<mapsto> n))"
proof -
  have "blk h (a - 8) \<inter> blk h (b - 8) = {}" if ab: "a \<in> insert p (dom L)" "b \<in> insert p (dom L)" "a \<noteq> b" for a b
  proof -
    consider "a = p" "b \<in> dom L" | "b = p" "a \<in> dom L" | "a \<in> dom L" "b \<in> dom L" using ab by blast
    then show ?thesis using p(2) [of a] p(2) [of b] L ab(3) unfolding all_held_def by cases blast+
  qed
  then show ?thesis using L p(1) unfolding all_held_def by simp
qed

lemma malloc_keeps:
  assumes fl: "free_list base h ns" and L: "all_held base h ns L" and base: "base \<noteq> 0" and ok: "sbrk_ok grow"
    and n: "unat n + 16 \<le> 2 ^ 31" and m: "malloc base grow n h = Some (p, h')"
  shows "heap_inv base (h', if p = 0 then L else L(p \<mapsto> n))"
proof -
  have g: "gives base (units n) h ns (p, h')" using malloc_spec [OF fl base ok n] m by auto
  show ?thesis
  proof (cases "p = 0")
    case True
    then show ?thesis using g fl L by (auto simp: gives_def heap_inv_def)
  next
    case False
    then obtain b ns' where b: "p = b + 8" "hd_size h' b = units n" "free_list base h' ns'" "unat (u_brk h) \<le> unat (u_brk h')"
      "unat b + 8 * unat (units n) \<le> unat (u_brk h')" "blk h' b \<subseteq> cells h ns \<union> new_cells h h'"
      "cells h' ns' = (cells h ns \<union> new_cells h h') - blk h' b"
      "\<And>x. unat x < unat (u_brk h) \<Longrightarrow> x \<noteq> base \<Longrightarrow> unat x \<notin> cells h ns \<Longrightarrow> hd_size h' x = hd_size h x"
      using g unfolding gives_def prod.case by (simp only: if_False) blast
    have old: "hd_size h' (q - 8) = hd_size h (q - 8) \<and> blk h (q - 8) \<inter> (cells h ns \<union> new_cells h h') = {}" if "L q = Some k" for q k
    proof -
      have o: "outside base h ns (q - 8)" using L that by (simp add: all_held_def held_def)
      note f = outside_facts [OF o]
      have "blk h (q - 8) \<inter> cells h ns = {}" using o by (simp add: outside_def blk_def)
      moreover have "blk h (q - 8) \<inter> new_cells h h' = {}" using f(2) by (auto simp: new_cells_def)
      moreover have "unat (q - 8) < unat (u_brk h)" using f(1,2) by blast
      ultimately show ?thesis using b(8) f(3,4) by blast
    qed
    have "unat b \<in> blk h' b" using units_small(3) [OF n] b(2) by (simp add: blk_def unat_gt_0)
    have "base \<in> set ns" using fl by (cases ns) (auto simp: free_list_def)
    have "unat base + 8 \<le> unat b"
    proof (cases "unat b \<in> cells h ns")
      case True
      then obtain a where a: "a \<in> set ns" "unat a \<le> unat b" "unat b < unat a + bsize h a" by (auto simp: cells_def)
      then have "a \<noteq> base" using fl by (auto simp: free_list_def)
      then show ?thesis using free_list_node(3) [OF fl a(1)] a(2) by simp
    next
      case False
      then have "unat (u_brk h) \<le> unat b" using b(6) \<open>unat b \<in> blk h' b\<close> by (auto simp: new_cells_def)
      then show ?thesis using free_list_brk(2) [OF fl \<open>base \<in> set ns\<close>] by simp
    qed
    then have new: "held base h' ns' p n"
      using b(1,2,5,7) units_small(3) [OF n] n by (auto simp: held_def outside_def blk_def)
    have "all_held base h' ns' L"
      using old b(4,7) by (intro all_held_step [OF L map_le_refl, where X = "new_cells h h'"]) auto
    moreover have "blk h' (p - 8) \<inter> blk h' (q - 8) = {}" if q: "q \<in> dom L" for q
    proof -
      obtain k where "L q = Some k" using q by auto
      from old [OF this] have "blk h' (q - 8) \<inter> (cells h ns \<union> new_cells h h') = {}" by (simp add: blk_def)
      then show ?thesis using b(1,6) by auto
    qed
    ultimately have "all_held base h' ns' (L(p \<mapsto> n))" using new by (intro all_held_insert)
    then show ?thesis using b(3) False by (auto simp: heap_inv_def)
  qed
qed

lemma free_keeps:
  assumes fl: "free_list base h ns" and L: "all_held base h ns L" and p: "L p = Some n"
  shows "\<exists>h'. free p h = Some h' \<and> heap_inv base (h', L(p := None))"
proof -
  have out: "outside base h ns (p - 8)" using L p by (simp add: all_held_def held_def)
  from free_spec [OF fl out] obtain h' ns' where f: "free p h = Some h'" "free_list base h' ns'" "u_brk h' = u_brk h"
    "cells h' ns' = cells h ns \<union> blk h (p - 8)" "\<And>a. a \<notin> set ns \<Longrightarrow> a \<noteq> p - 8 \<Longrightarrow> hd_size h' a = hd_size h a"
    by (auto simp: blk_def)
  have "hd_size h' (q - 8) = hd_size h (q - 8) \<and> blk h (q - 8) \<inter> blk h (p - 8) = {}" if q: "(L(p := None)) q = Some k" for q k
  proof -
    have "q \<noteq> p" "L q = Some k" using q by (auto split: if_splits)
    moreover from this have "outside base h ns (q - 8)" using L by (simp add: all_held_def held_def)
    then have "q - 8 \<notin> set ns" using outside_facts(5) fl by blast
    moreover have "q - 8 \<noteq> p - 8" using \<open>q \<noteq> p\<close> by simp
    ultimately show ?thesis using f(5) [of "q - 8"] L p unfolding all_held_def by blast
  qed
  then have "all_held base h' ns' (L(p := None))"
    using f(3,4) by (intro all_held_step [OF L, where X = "blk h (p - 8)"]) (auto simp: map_le_def)
  with f show ?thesis by (auto simp: heap_inv_def)
qed

lemma malloc_init_spec:
  assumes "freep h = 0" "unat base + 8 \<le> unat (u_brk h)" "base \<noteq> 0"
  shows "free_list base (malloc_init base h) [base]" "malloc base grow n (malloc_init base h) = malloc base grow n h"
  using assms by (simp_all add: malloc_init_def free_list_def room_def malloc_def Let_def)

lemma heap_inv_step:
  assumes inv: "heap_inv base s" and base: "base \<noteq> 0" and ok: "sbrk_ok grow" and step: "alloc_step base grow s t"
  shows "heap_inv base t"
  using step
proof cases
  case (malloc n h p h' L)
  show ?thesis
  proof (cases "freep h = 0")
    case True
    then have e: "L = Map.empty" "unat base + 8 \<le> unat (u_brk h)"
      using inv free_list_freep base malloc(1) by (auto simp: heap_inv_def)
    note i = malloc_init_spec [OF True e(2) base]
    have "all_held base (malloc_init base h) [base] L" using e(1) by (simp add: all_held_def)
    from malloc_keeps [OF i(1) this base ok malloc(4)] malloc(2,3) i(2) show ?thesis by auto
  next
    case False
    then obtain ns where "free_list base h ns" "all_held base h ns L" using inv malloc(1) by (auto simp: heap_inv_def)
    from malloc_keeps [OF this base ok malloc(4,3)] malloc(2) show ?thesis by simp
  qed
next
  case (free L p n h h')
  then obtain ns where "free_list base h ns" "all_held base h ns L" using inv by (auto simp: heap_inv_def)
  from free_keeps [OF this free(3)] free show ?thesis by auto
qed

lemma heap_inv_reach:
  assumes "(alloc_step base grow)\<^sup>*\<^sup>* s t" "heap_inv base s" "base \<noteq> 0" "sbrk_ok grow"
  shows "heap_inv base t"
  using assms(1) by (induction rule: rtranclp_induct) (use assms heap_inv_step in \<open>blast+\<close>)

lemma heap_inv_serves:
  assumes inv: "heap_inv base (h, L)" and base: "base \<noteq> 0" and ok: "sbrk_ok grow"
  shows "unat n + 16 \<le> 2 ^ 31 \<Longrightarrow> \<exists>r. malloc base grow n h = Some r" "p \<in> dom L \<Longrightarrow> \<exists>h'. free p h = Some h'"
proof -
  show "\<exists>r. malloc base grow n h = Some r" if n: "unat n + 16 \<le> 2 ^ 31"
  proof (cases "freep h = 0")
    case True
    then have "unat base + 8 \<le> unat (u_brk h)"
      using inv free_list_freep base by (auto simp: heap_inv_def)
    note i = malloc_init_spec [OF True this base]
    from malloc_spec [OF i(1) base ok n] i(2) show ?thesis by auto
  next
    case False
    then show ?thesis using inv malloc_spec [OF _ base ok n] by (fastforce simp: heap_inv_def)
  qed
  show "\<exists>h'. free p h = Some h'" if "p \<in> dom L"
    using inv that free_keeps by (fastforce simp: heap_inv_def)
qed

lemma held_payload:
  assumes "held base h ns p n"
  shows "{unat p ..< unat p + unat n} \<subseteq> blk h (p - 8)" "unat base < unat p" "unat p + unat n \<le> unat (u_brk h)"
proof -
  have o: "unat base + 8 \<le> unat (p - 8)" "unat (p - 8) + 8 * unat (units n) \<le> unat (u_brk h)" and n: "unat n + 16 \<le> 2 ^ 31"
    and s: "hd_size h (p - 8) = units n" using assms by (auto simp: held_def outside_def)
  have "unat (p - 8 + 8) = unat (p - 8) + 8"
    using o(2) units_small(1) [OF n] unsigned_less [of "u_brk h", where ?'a = nat] by (intro unat_add_small [of _ 8, simplified]) simp
  then have "unat p = unat (p - 8) + 8" by simp
  with o s units_small(1,2) [OF n] show "{unat p ..< unat p + unat n} \<subseteq> blk h (p - 8)" "unat base < unat p" "unat p + unat n \<le> unat (u_brk h)"
    by (auto simp: blk_def)
qed

text \<open>
  C20 (dynamic storage): whatever sequence of \<^verbatim>\<open>malloc\<close> calls and of \<^verbatim>\<open>free\<close> calls on blocks it holds a
  program makes, the loops of the next \<^verbatim>\<open>malloc\<close> and \<^verbatim>\<open>free\<close> end, every block it holds has the bytes it
  asked for inside its memory, and no two of its blocks overlap, if the requests stay below two
  gigabytes and the kernel grants memory below \<^verbatim>\<open>KERNBASE\<close> only.
\<close>

theorem malloc_blocks_disjoint:
  assumes "(alloc_step base grow)\<^sup>*\<^sup>* (h0, Map.empty) (h, L)"
    and "freep h0 = 0" "base \<noteq> 0" "unat base + 8 \<le> unat (u_brk h0)" "sbrk_ok grow"
  shows "(\<forall>n. unat n + 16 \<le> 2 ^ 31 \<longrightarrow> (\<exists>r. malloc base grow n h = Some r)) \<and>
    (\<forall>p n. L p = Some n \<longrightarrow> unat base < unat p \<and> unat p + unat n \<le> unat (u_brk h) \<and> (\<exists>h'. free p h = Some h')) \<and>
    (\<forall>p q m n. L p = Some m \<and> L q = Some n \<and> p \<noteq> q \<longrightarrow>
       {unat p ..< unat p + unat m} \<inter> {unat q ..< unat q + unat n} = {})"
proof -
  have "heap_inv base (h0, Map.empty)" using assms(2,4) by (simp add: heap_inv_def)
  then have inv: "heap_inv base (h, L)" using heap_inv_reach [OF assms(1)] assms(3,5) by blast
  have serves: "\<exists>r. malloc base grow n h = Some r" if "unat n + 16 \<le> 2 ^ 31" for n
    using heap_inv_serves(1) [OF inv assms(3,5) that] .
  have frees: "\<exists>h'. free p h = Some h'" if "L p = Some n" for p n
    using heap_inv_serves(2) [OF inv assms(3,5), of p] that by blast
  show ?thesis
  proof (cases "L = Map.empty")
    case False
    then obtain ns where "all_held base h ns L" using inv by (auto simp: heap_inv_def)
    then have held: "held base h ns p n" if "L p = Some n" for p n using that by (simp add: all_held_def)
    have "{unat p ..< unat p + unat m} \<inter> {unat q ..< unat q + unat n} = {}" if "L p = Some m" "L q = Some n" "p \<noteq> q" for p q m n
      using held_payload(1) [OF held [OF that(1)]] held_payload(1) [OF held [OF that(2)]] that \<open>all_held base h ns L\<close>
      unfolding all_held_def by blast
    then show ?thesis using serves frees held_payload(2,3) [OF held] by blast
  qed (use serves in simp)
qed

definition demo_grow :: "addr \<Rightarrow> u32 \<Rightarrow> bool" where
  "demo_grow b m \<longleftrightarrow> uint b + uint m < 0x80000000"

definition demo_heap :: uheap where
  "demo_heap = \<lparr>hd_ptr = (\<lambda>_. 0), hd_size = (\<lambda>_. 0), freep = 0, u_brk = 0x5000\<rparr>"

lemma demo_malloc: "map_option fst (malloc 0x3000 demo_grow 100 demo_heap) = Some 0xCF98"
  by code_simp

theorem malloc_blocks_disjoint_witness:
  "\<exists>h. (alloc_step 0x3000 demo_grow)\<^sup>*\<^sup>* (demo_heap, Map.empty) (h, [0xCF98 \<mapsto> 100]) \<and>
     unat (0xCF98 :: addr) + unat (100 :: u32) \<le> unat (u_brk h) \<and> (\<exists>h'. free 0xCF98 h = Some h') \<and>
     (\<exists>r. malloc 0x3000 demo_grow 20 h = Some r)"
proof -
  obtain h where "malloc 0x3000 demo_grow 100 demo_heap = Some (0xCF98, h)" using demo_malloc by auto
  then have "alloc_step 0x3000 demo_grow (demo_heap, Map.empty) (h, [0xCF98 \<mapsto> 100])"
    using alloc_step.malloc [of "0x3000" demo_grow 100 demo_heap "0xCF98" h Map.empty] by simp
  then have run: "(alloc_step 0x3000 demo_grow)\<^sup>*\<^sup>* (demo_heap, Map.empty) (h, [0xCF98 \<mapsto> 100])"
    by (rule r_into_rtranclp)
  have "unat b + unat m < 2 ^ 31" if "demo_grow b m" for b m
  proof -
    have "int (unat b + unat m) < int (2 ^ 31)" using that by (simp add: demo_grow_def)
    then show ?thesis by (simp only: of_nat_less_iff)
  qed
  then have ok: "sbrk_ok demo_grow" by (simp add: sbrk_ok_def)
  have f: "freep demo_heap = 0" "(0x3000 :: addr) \<noteq> 0" "unat (0x3000 :: addr) + 8 \<le> unat (u_brk demo_heap)"
    by (simp_all add: demo_heap_def)
  note all = malloc_blocks_disjoint [OF run f ok]
  have "\<exists>r. malloc 0x3000 demo_grow 20 h = Some r"
    using conjunct1 [OF all, THEN spec, of 20] by simp
  moreover have "unat (0xCF98 :: addr) + unat (100 :: u32) \<le> unat (u_brk h) \<and> (\<exists>h'. free 0xCF98 h = Some h')"
    using conjunct1 [OF conjunct2 [OF all], THEN spec, of "0xCF98", THEN spec, of 100] by simp
  ultimately show ?thesis using run by blast
qed

end
