(* ===== verification/Shell.thy ===== *)
theory Shell
  imports Ulib
begin

text \<open>
  The shell \<^verbatim>\<open>sh.c\<close>: the recursive-descent parser over the bytes of a line, the tree it builds with
  pointers into the line, the pass that ends every word with a NUL, and the system calls a command
  makes. A pointer into the line is the index of a byte; a byte behind the end reads as NUL.
\<close>

section \<open>Commands\<close>

definition MAXARGS :: nat where "MAXARGS = 10"
definition O_RDONLY :: int where "O_RDONLY = 0"
definition O_WRONLY :: int where "O_WRONLY = 1"
definition O_RDWR :: int where "O_RDWR = 2"
definition O_CREATE :: int where "O_CREATE = 0x200"

text \<open>A word is the pair of its \<^verbatim>\<open>q\<close> and \<^verbatim>\<open>eq\<close> pointers.\<close>

type_synonym word_ref = "nat \<times> nat"

datatype cmd =
    Exec "word_ref list"
  | Redir cmd word_ref int int
  | Pipe cmd cmd
  | List cmd cmd
  | Back cmd

text \<open>
  The parser panics with a message, or because of what is left of the line; \<open>No_Fuel\<close> is not a result
  of the program.
\<close>

datatype parse_error = Panic string | Leftovers "byte list" | No_Fuel

section \<open>Tokens\<close>

definition at :: "byte list \<Rightarrow> nat \<Rightarrow> byte" where
  "at line s = (if s < length line then line ! s else 0)"

definition whitespace :: "byte list" where "whitespace = [0x20, 0x09, 0x0D, 0x0A, 0x0B]"
definition symbols :: "byte list" where "symbols = ascii ''<|>&;()''"

function skip_ws :: "byte list \<Rightarrow> nat \<Rightarrow> nat \<Rightarrow> nat" where
  "skip_ws line es s = (if s < es \<and> u_strchr whitespace (at line s) \<noteq> None then skip_ws line es (s + 1) else s)"
  by pat_completeness auto

termination
  by (relation "measure (\<lambda>(_, es, s). es - s)") auto

declare skip_ws.simps [simp del]

function skip_word :: "byte list \<Rightarrow> nat \<Rightarrow> nat \<Rightarrow> nat" where
  "skip_word line es s =
     (if s < es \<and> u_strchr whitespace (at line s) = None \<and> u_strchr symbols (at line s) = None
      then skip_word line es (s + 1) else s)"
  by pat_completeness auto

termination
  by (relation "measure (\<lambda>(_, es, s). es - s)") auto

declare skip_word.simps [simp del]

text \<open>The token, where it starts and ends, and the place behind it and the blanks that follow.\<close>

definition gettoken :: "byte list \<Rightarrow> nat \<Rightarrow> nat \<Rightarrow> byte \<times> nat \<times> nat \<times> nat" where
  "gettoken line es s =
     (let q = skip_ws line es s; c = at line q;
          (ret, eq) =
            (if c = 0 then (c, q)
             else if c \<in> set (ascii ''|();&<'') then (c, q + 1)
             else if c = of_char CHR ''>'' then
               (if at line (q + 1) = of_char CHR ''>'' then (of_char CHR ''+'', q + 2) else (c, q + 1))
             else (of_char CHR ''a'', skip_word line es q))
      in (ret, q, eq, skip_ws line es eq))"

definition peek :: "byte list \<Rightarrow> nat \<Rightarrow> nat \<Rightarrow> string \<Rightarrow> bool \<times> nat" where
  "peek line es s toks =
     (let s' = skip_ws line es s
      in (at line s' \<noteq> 0 \<and> u_strchr (ascii toks) (at line s') \<noteq> None, s'))"

section \<open>The parser\<close>

text \<open>
  \<^verbatim>\<open>parseredirs\<close>: the redirections found, each wrapped around the command so far. The fuel bounds the
  number of redirections.
\<close>

definition redir_of :: "byte \<Rightarrow> word_ref \<Rightarrow> cmd \<Rightarrow> cmd" where
  "redir_of tok w c =
     (if tok = of_char CHR ''<'' then Redir c w O_RDONLY 0
      else if tok = of_char CHR ''>'' then Redir c w (O_WRONLY + O_CREATE) 1
      else if tok = of_char CHR ''+'' then Redir c w (O_WRONLY + O_CREATE) 1
      else c)"

primrec parseredirs :: "nat \<Rightarrow> byte list \<Rightarrow> nat \<Rightarrow> nat \<Rightarrow> (cmd \<Rightarrow> cmd) \<Rightarrow> parse_error + ((cmd \<Rightarrow> cmd) \<times> nat)" where
  "parseredirs 0 line es s wrap = Inl No_Fuel"
| "parseredirs (Suc k) line es s wrap =
     (let (more, s1) = peek line es s ''<>''
      in if \<not> more then Inr (wrap, s1)
         else (let (tok, _, _, s2) = gettoken line es s1; (t2, q, eq, s3) = gettoken line es s2
               in if t2 \<noteq> of_char CHR ''a'' then Inl (Panic ''missing file for redirection'')
                  else parseredirs k line es s3 (redir_of tok (q, eq) \<circ> wrap)))"

text \<open>
  The loop of \<^verbatim>\<open>parseexec\<close> over the words of a simple command. The words go to the command the
  redirections are wrapped around.
\<close>

primrec parseargs :: "nat \<Rightarrow> byte list \<Rightarrow> nat \<Rightarrow> nat \<Rightarrow> word_ref list \<Rightarrow> (cmd \<Rightarrow> cmd) \<Rightarrow> parse_error + (cmd \<times> nat)" where
  "parseargs 0 line es s argv wrap = Inl No_Fuel"
| "parseargs (Suc k) line es s argv wrap =
     (let (stop, s1) = peek line es s ''|)&;''
      in if stop then Inr (wrap (Exec argv), s1)
         else (let (tok, q, eq, s2) = gettoken line es s1
               in if tok = 0 then Inr (wrap (Exec argv), s2)
                  else if tok \<noteq> of_char CHR ''a'' then Inl (Panic ''syntax'')
                  else if length (argv @ [(q, eq)]) \<ge> MAXARGS then Inl (Panic ''too many args'')
                  else (case parseredirs k line es s2 wrap of
                          Inl e \<Rightarrow> Inl e
                        | Inr (wrap', s3) \<Rightarrow> parseargs k line es s3 (argv @ [(q, eq)]) wrap')))"

text \<open>The loop of \<^verbatim>\<open>parseline\<close> over the ampersands.\<close>

primrec parsebacks :: "nat \<Rightarrow> byte list \<Rightarrow> nat \<Rightarrow> nat \<Rightarrow> cmd \<Rightarrow> parse_error + (cmd \<times> nat)" where
  "parsebacks 0 line es s c = Inl No_Fuel"
| "parsebacks (Suc k) line es s c =
     (let (more, s1) = peek line es s ''&''
      in if more then (let (_, _, _, s2) = gettoken line es s1 in parsebacks k line es s2 (Back c))
         else Inr (c, s1))"

text \<open>
  \<^verbatim>\<open>parseblock\<close>, \<^verbatim>\<open>parseexec\<close> and \<^verbatim>\<open>parsepipe\<close> call \<^verbatim>\<open>parseline\<close> back for what is inside parentheses: it is
  their first argument.
\<close>

type_synonym 'a parser = "byte list \<Rightarrow> nat \<Rightarrow> nat \<Rightarrow> parse_error + ('a \<times> nat)"

definition parseblock :: "cmd parser \<Rightarrow> nat \<Rightarrow> cmd parser" where
  "parseblock parseline k line es s =
     (let (paren, s1) = peek line es s ''(''
      in if \<not> paren then Inl (Panic ''parseblock'')
         else (let (_, _, _, s2) = gettoken line es s1
               in case parseline line es s2 of
                    Inl e \<Rightarrow> Inl e
                  | Inr (c, s3) \<Rightarrow>
                      (let (close, s4) = peek line es s3 '')''
                       in if \<not> close then Inl (Panic ''syntax - missing )'')
                          else (let (_, _, _, s5) = gettoken line es s4
                                in case parseredirs k line es s5 id of
                                     Inl e \<Rightarrow> Inl e
                                   | Inr (wrap, s6) \<Rightarrow> Inr (wrap c, s6)))))"

definition parseexec :: "cmd parser \<Rightarrow> nat \<Rightarrow> cmd parser" where
  "parseexec parseline k line es s =
     (let (paren, s1) = peek line es s ''(''
      in if paren then parseblock parseline k line es s1
         else (case parseredirs k line es s1 id of
                 Inl e \<Rightarrow> Inl e
               | Inr (wrap, s2) \<Rightarrow> parseargs k line es s2 [] wrap))"

primrec parsepipe :: "nat \<Rightarrow> cmd parser \<Rightarrow> cmd parser" where
  "parsepipe 0 parseline line es s = Inl No_Fuel"
| "parsepipe (Suc k) parseline line es s =
     (case parseexec parseline k line es s of
        Inl e \<Rightarrow> Inl e
      | Inr (c, s1) \<Rightarrow>
          (let (more, s2) = peek line es s1 ''|''
           in if more then
                (let (_, _, _, s3) = gettoken line es s2
                 in case parsepipe k parseline line es s3 of
                      Inl e \<Rightarrow> Inl e
                    | Inr (d, s4) \<Rightarrow> Inr (Pipe c d, s4))
              else Inr (c, s2)))"

primrec parseline :: "nat \<Rightarrow> cmd parser" where
  "parseline 0 line es s = Inl No_Fuel"
| "parseline (Suc k) line es s =
     (case parsepipe k (parseline k) line es s of
        Inl e \<Rightarrow> Inl e
      | Inr (c, s1) \<Rightarrow>
          (case parsebacks k line es s1 c of
             Inl e \<Rightarrow> Inl e
           | Inr (c, s2) \<Rightarrow>
               (let (more, s3) = peek line es s2 '';''
                in if more then
                     (let (_, _, _, s4) = gettoken line es s3
                      in case parseline k line es s4 of
                           Inl e \<Rightarrow> Inl e
                         | Inr (d, s5) \<Rightarrow> Inr (List c d, s5))
                   else Inr (c, s3))))"

text \<open>
  \<^verbatim>\<open>nulterminate\<close>: a NUL at the end of every word of the tree. The pointers stay inside the buffer of
  the line, which has a byte for the final NUL.
\<close>

definition put_nul :: "nat \<Rightarrow> byte list \<Rightarrow> byte list" where
  "put_nul e line = line[e := 0]"

primrec nulterminate :: "cmd \<Rightarrow> byte list \<Rightarrow> byte list" where
  "nulterminate (Exec argv) line = fold (\<lambda>(q, eq). put_nul eq) argv line"
| "nulterminate (Redir c w m fd) line = put_nul (snd w) (nulterminate c line)"
| "nulterminate (Pipe l r) line = nulterminate r (nulterminate l line)"
| "nulterminate (List l r) line = nulterminate r (nulterminate l line)"
| "nulterminate (Back c) line = nulterminate c line"

definition parse_fuel :: "nat \<Rightarrow> nat" where
  "parse_fuel n = n + 3"

definition parsecmd :: "byte list \<Rightarrow> parse_error + (cmd \<times> byte list)" where
  "parsecmd line =
     (let es = strlen line
      in case parseline (parse_fuel es) line es 0 of
           Inl e \<Rightarrow> Inl e
         | Inr (c, s) \<Rightarrow>
             (let (_, s') = peek line es s []
              in if s' \<noteq> es then Inl (Leftovers (drop s' line)) else Inr (c, nulterminate c line)))"

section \<open>Running commands\<close>

text \<open>
  The system calls of a process, in order; a fork carries those of the child. \<open>P0\<close> and \<open>P1\<close> are the
  ends of the pipe the process has made last.
\<close>

datatype fdref = Fd int | P0 | P1

datatype act =
    AOpen "byte list" int
  | AClose fdref
  | ADup fdref
  | APipe
  | AFork "act list"
  | AWait
  | AExec "byte list" "byte list list"
  | AChdir "byte list"
  | APrint int "byte list"
  | AExit

text \<open>What the kernel answers: to opening a file, to \<^verbatim>\<open>exec\<close>, \<^verbatim>\<open>pipe\<close> and \<^verbatim>\<open>chdir\<close>, and to the forks of a command.\<close>

record answers =
  ok_open :: "byte list \<Rightarrow> int \<Rightarrow> bool"
  ok_exec :: "byte list \<Rightarrow> bool"
  ok_pipe :: bool
  ok_fork :: "nat \<Rightarrow> bool"
  ok_chdir :: "byte list \<Rightarrow> bool"

definition say :: "int \<Rightarrow> string \<Rightarrow> parg list \<Rightarrow> act list" where
  "say fd fmt args = (case printf_go False (ascii fmt) args of Some bs \<Rightarrow> map (\<lambda>b. APrint fd [b]) bs | None \<Rightarrow> [])"

definition sh_panic :: "string \<Rightarrow> act list" where
  "sh_panic m = say 2 (''%s'' @ [CHR 0x0A]) [PStr (ascii m)] @ [AExit]"

text \<open>\<^verbatim>\<open>fork1\<close>: the parent goes on only when the fork succeeds.\<close>

definition fork1 :: "bool \<Rightarrow> act list \<Rightarrow> act list \<Rightarrow> act list" where
  "fork1 ok child parent = (if ok then AFork child # parent else sh_panic ''fork'')"

definition word_at :: "byte list \<Rightarrow> word_ref \<Rightarrow> byte list" where
  "word_at line w = cstr (drop (fst w) line)"

primrec runcmd :: "answers \<Rightarrow> byte list \<Rightarrow> cmd \<Rightarrow> act list" where
  "runcmd w line (Exec argv) =
     (if argv = [] then [AExit]
      else (let f = word_at line (hd argv)
            in AExec f (map (word_at line) argv) #
               (if ok_exec w f then [] else say 2 (''exec %s failed'' @ [CHR 0x0A]) [PStr f] @ [AExit])))"
| "runcmd w line (Redir c fl mode fd) =
     (let f = word_at line fl
      in AClose (Fd fd) # AOpen f mode #
         (if ok_open w f mode then runcmd w line c
          else say 2 (''open %s failed'' @ [CHR 0x0A]) [PStr f] @ [AExit]))"
| "runcmd w line (List l r) = fork1 (ok_fork w 0) (runcmd w line l) (AWait # runcmd w line r)"
| "runcmd w line (Pipe l r) =
     APipe #
     (if \<not> ok_pipe w then sh_panic ''pipe''
      else fork1 (ok_fork w 0) ([AClose (Fd 1), ADup P1, AClose P0, AClose P1] @ runcmd w line l)
          (fork1 (ok_fork w 1) ([AClose (Fd 0), ADup P0, AClose P0, AClose P1] @ runcmd w line r)
             [AClose P0, AClose P1, AWait, AWait, AExit]))"
| "runcmd w line (Back c) = fork1 (ok_fork w 0) (runcmd w line c) [AExit]"

text \<open>Opening the console until descriptor 3 is reached; the results of the calls are given.\<close>

primrec ensure_fds :: "int list \<Rightarrow> act list" where
  "ensure_fds [] = []"
| "ensure_fds (fd # fds) =
     AOpen (ascii ''console'') O_RDWR #
     (if fd < 0 then [] else if fd \<ge> 3 then [AClose (Fd fd)] else ensure_fds fds)"

definition getcmd :: "instream \<Rightarrow> (byte list \<times> instream) option" where
  "getcmd ps = (let (buf, ps') = gets 100 ps in if hdz buf = 0 then None else Some (buf, ps'))"

definition run_line :: "answers \<Rightarrow> byte list \<Rightarrow> act list" where
  "run_line w buf =
     (case parsecmd (buf @ [0]) of
        Inl (Panic m) \<Rightarrow> sh_panic m
      | Inl (Leftovers r) \<Rightarrow> say 2 (''leftovers: %s'' @ [CHR 0x0A]) [PStr r] @ sh_panic ''syntax''
      | Inl No_Fuel \<Rightarrow> []
      | Inr (c, line) \<Rightarrow> runcmd w line c)"

lemma uread_le: "uread k ps = (r, ps') \<Longrightarrow> stream_size ps' \<le> stream_size ps"
  by (induction k ps rule: uread.induct) (auto simp: stream_size_def split: if_splits)

lemma gets_loop_Nil: "gets_loop k ps = ([], ps') \<Longrightarrow> stream_size ps' \<le> stream_size ps"
proof (cases k)
  case (Suc k')
  assume g: "gets_loop k ps = ([], ps')"
  obtain r ps1 where u: "uread 1 ps = (r, ps1)" by fastforce
  then have "ps' = ps1" using g Suc by (auto split: option.splits list.splits if_splits prod.splits)
  then show ?thesis using uread_le [OF u] by simp
qed simp

lemma gets_loop_decreases:
  "gets_loop k ps = (c # cs, ps') \<Longrightarrow> stream_size ps' < stream_size ps"
proof (induction k arbitrary: ps c cs ps')
  case (Suc k)
  obtain r ps1 where u: "uread 1 ps = (r, ps1)" by fastforce
  show ?case
  proof (cases r)
    case None
    then show ?thesis using Suc.prems u by simp
  next
    case (Some bs)
    show ?thesis
    proof (cases bs)
      case Nil
      then show ?thesis using Suc.prems u Some by simp
    next
      case (Cons b bs')
      then have d: "stream_size ps1 < stream_size ps" using uread_decreases u Some by blast
      obtain xs ps2 where g: "gets_loop k ps1 = (xs, ps2)" by fastforce
      have "stream_size ps2 \<le> stream_size ps1"
        using Suc.IH [of ps1] g gets_loop_Nil [of k ps1] by (cases xs) (auto simp: less_imp_le)
      then show ?thesis using Suc.prems u Some Cons d g by (auto split: if_splits)
    qed
  qed
qed simp

lemma getcmd_decreases: "getcmd ps = Some (buf, ps') \<Longrightarrow> stream_size ps' < stream_size ps"
  using gets_loop_decreases [of "nat (100 - 1)" ps]
  by (cases buf) (auto simp: getcmd_def gets_def Let_def split: prod.splits if_splits)

function sh_loop :: "answers \<Rightarrow> instream \<Rightarrow> act list" where
  "sh_loop w ps =
     (case getcmd ps of
        None \<Rightarrow> [AExit]
      | Some (buf, ps') \<Rightarrow>
          if take 3 buf = ascii ''cd '' then
            (let dir = drop 3 (butlast (cstr buf))
             in AChdir dir #
                (if ok_chdir w dir then [] else say 2 (''cannot cd %s'' @ [CHR 0x0A]) [PStr dir]) @ sh_loop w ps')
          else fork1 (ok_fork w 0) (run_line w buf) (AWait # sh_loop w ps'))"
  by pat_completeness auto

termination
  by (relation "measure (\<lambda>(_, ps). stream_size ps)") (auto dest: getcmd_decreases)

declare sh_loop.simps [simp del]

definition sh_main :: "answers \<Rightarrow> int list \<Rightarrow> instream \<Rightarrow> act list" where
  "sh_main w fds ps = ensure_fds fds @ sh_loop w ps"

section \<open>Tokens advance\<close>

definition ws :: "byte \<Rightarrow> bool" where "ws c \<longleftrightarrow> u_strchr whitespace c \<noteq> None"
definition sym :: "byte \<Rightarrow> bool" where "sym c \<longleftrightarrow> u_strchr symbols c \<noteq> None"
definition wordchar :: "byte \<Rightarrow> bool" where "wordchar c \<longleftrightarrow> c \<noteq> 0 \<and> \<not> ws c \<and> \<not> sym c"

text \<open>\<open>es\<close> is the end of the string in the line.\<close>

definition ends :: "byte list \<Rightarrow> nat \<Rightarrow> bool" where
  "ends line es \<longleftrightarrow> (\<forall>i < es. at line i \<noteq> 0) \<and> at line es = 0"

lemma ends_strlen: "ends line (strlen line)"
proof -
  have c: "length (cstr line) \<le> length line" by (simp add: cstr_def length_takeWhile_le)
  have "at line i \<noteq> 0" if "i < length (cstr line)" for i
  proof -
    have "cstr line ! i \<in> set (cstr line)" using that by simp
    then have "cstr line ! i \<noteq> 0" by (auto simp: cstr_def dest: set_takeWhileD)
    moreover have "cstr line ! i = line ! i" using that by (simp add: cstr_def takeWhile_nth)
    ultimately show ?thesis using that c by (simp add: at_def)
  qed
  moreover have "at line (length (cstr line)) = 0"
    using nth_length_takeWhile [of "\<lambda>c. c \<noteq> 0" line] by (auto simp: at_def cstr_def)
  ultimately show ?thesis by (simp add: ends_def strlen_cstr)
qed

lemma ends_less: "ends line es \<Longrightarrow> s \<le> es \<Longrightarrow> at line s \<noteq> 0 \<Longrightarrow> s < es"
  by (auto simp: ends_def le_less)

lemma skip_ws_le: "s \<le> es \<Longrightarrow> s \<le> skip_ws line es s \<and> skip_ws line es s \<le> es"
proof (induction line es s rule: skip_ws.induct)
  case (1 line es s)
  then show ?case by (subst (1 2) skip_ws.simps) auto
qed

lemma skip_ws_stop: "skip_ws line es s < es \<Longrightarrow> \<not> ws (at line (skip_ws line es s))"
proof (induction line es s rule: skip_ws.induct)
  case (1 line es s)
  show ?case
  proof (cases "s < es \<and> ws (at line s)")
    case True
    then have "skip_ws line es s = skip_ws line es (s + 1)" by (subst skip_ws.simps) (simp add: ws_def)
    with 1 True show ?thesis by (simp add: ws_def)
  next
    case False
    then have "skip_ws line es s = s" by (subst skip_ws.simps) (auto simp: ws_def)
    with 1(2) False show ?thesis by auto
  qed
qed

lemma skip_word_spec:
  "s \<le> es \<Longrightarrow> s \<le> skip_word line es s \<and> skip_word line es s \<le> es \<and>
   (\<forall>i. s \<le> i \<and> i < skip_word line es s \<longrightarrow> \<not> ws (at line i) \<and> \<not> sym (at line i)) \<and>
   (skip_word line es s < es \<longrightarrow> ws (at line (skip_word line es s)) \<or> sym (at line (skip_word line es s)))"
proof (induction line es s rule: skip_word.induct)
  case (1 line es s)
  show ?case
  proof (cases "s < es \<and> \<not> ws (at line s) \<and> \<not> sym (at line s)")
    case True
    then have c: "s < es \<and> u_strchr whitespace (at line s) = None \<and> u_strchr symbols (at line s) = None"
      by (simp add: ws_def sym_def)
    then have e: "skip_word line es s = skip_word line es (s + 1)" by (subst skip_word.simps) simp
    let ?w = "skip_word line es s"
    have w: "s + 1 \<le> ?w" "?w \<le> es" "\<forall>i. s + 1 \<le> i \<and> i < ?w \<longrightarrow> \<not> ws (at line i) \<and> \<not> sym (at line i)"
      "?w < es \<longrightarrow> ws (at line ?w) \<or> sym (at line ?w)"
      using 1(1) [OF c] True unfolding e by simp_all
    have "\<not> ws (at line i) \<and> \<not> sym (at line i)" if "s \<le> i" "i < ?w" for i
      using w(3) that True by (cases "i = s") auto
    then show ?thesis using w(1,2,4) by simp
  next
    case False
    then have "skip_word line es s = s" by (subst skip_word.simps) (auto simp: ws_def sym_def)
    with False 1 show ?thesis by auto
  qed
qed

text \<open>A word of the line that cannot be extended to the right.\<close>

definition is_word :: "byte list \<Rightarrow> nat \<Rightarrow> word_ref \<Rightarrow> bool" where
  "is_word line es = (\<lambda>(q, e). q < e \<and> e \<le> es \<and> (\<forall>i. q \<le> i \<and> i < e \<longrightarrow> wordchar (at line i)) \<and> \<not> wordchar (at line e))"

lemma gettoken_spec:
  assumes E: "ends line es" and s: "s \<le> es" and g: "gettoken line es s = (tok, q, e, s')"
  shows "s \<le> s'" "s' \<le> es" "tok \<noteq> 0 \<Longrightarrow> s < s'" "tok = of_char CHR ''a'' \<Longrightarrow> is_word line es (q, e)"
proof -
  let ?c = "at line (skip_ws line es s)"
  have q: "q = skip_ws line es s" "s' = skip_ws line es e" using g by (auto simp: gettoken_def Let_def split: if_splits)
  have sq: "s \<le> q" "q \<le> es" using skip_ws_le [OF s, of line] q by auto
  have lt: "q < es" if "?c \<noteq> 0" using ends_less [OF E sq(2)] that q by simp
  consider (nul) "?c = 0" "tok = 0" "e = q"
    | (op) "?c \<noteq> 0" "tok \<noteq> of_char CHR ''a''" "e = q + 1 \<or> (e = q + 2 \<and> at line (q + 1) \<noteq> 0)"
    | (word) "?c \<noteq> 0" "tok = of_char CHR ''a''" "e = skip_word line es q" "\<not> sym ?c"
  proof (cases "?c = 0 \<or> ?c \<in> set (ascii ''|();&<'') \<or> ?c = of_char CHR ''>''")
    case True
    then show ?thesis using g q(1) that(1,2) by (auto simp: gettoken_def Let_def ascii_def split: if_splits)
  next
    case False
    then have "\<not> sym ?c" by (auto simp: sym_def symbols_def ascii_def)
    with False show ?thesis using g q(1) that(3) by (auto simp: gettoken_def Let_def)
  qed
  then have r: "s \<le> s' \<and> s' \<le> es \<and> (tok \<noteq> 0 \<longrightarrow> s < s') \<and> (tok = of_char CHR ''a'' \<longrightarrow> is_word line es (q, e))"
  proof cases
    case nul
    then show ?thesis using sq q(2) skip_ws_le [of q es line] by auto
  next
    case op
    have "e \<le> es" using op(3) lt [OF op(1)] ends_less [OF E, of "q + 1"] by auto
    then show ?thesis using op sq q(2) skip_ws_le [of e es line] by auto
  next
    case word
    have ws: "\<not> ws ?c" using skip_ws_stop [of line es s] lt [OF word(1)] q(1) by simp
    have "skip_word line es q = skip_word line es (q + 1)"
      using ws word(4) lt [OF word(1)] q(1) by (subst skip_word.simps) (simp add: ws_def sym_def)
    then have gt: "q < e" using skip_word_spec [of "q + 1" es line] lt [OF word(1)] word(3) by simp
    note w = skip_word_spec [OF sq(2), of line, folded word(3)]
    have "wordchar (at line i)" if "q \<le> i" "i < e" for i
      using w that E by (auto simp: wordchar_def ends_def)
    moreover have "\<not> wordchar (at line e)" using w E by (cases "e = es") (auto simp: wordchar_def ends_def)
    ultimately have "is_word line es (q, e)" using gt w by (simp add: is_word_def)
    then show ?thesis using gt w sq q(2) skip_ws_le [of e es line] by auto
  qed
  then show "s \<le> s'" "s' \<le> es" "tok \<noteq> 0 \<Longrightarrow> s < s'" "tok = of_char CHR ''a'' \<Longrightarrow> is_word line es (q, e)" by simp_all
qed

lemma skip_ws_idem: "s \<le> es \<Longrightarrow> skip_ws line es (skip_ws line es s) = skip_ws line es s"
  using skip_ws_stop [of line es s] skip_ws_le [of s es line] by (subst skip_ws.simps) (auto simp: ws_def)

lemma peek_spec:
  assumes "s \<le> es" "peek line es s toks = (b, s')"
  shows "s \<le> s'" "s' \<le> es" "b \<Longrightarrow> gettoken line es s' = (tok, x) \<Longrightarrow> tok \<noteq> 0"
  using assms skip_ws_le [OF assms(1), of line]
  by (auto simp: peek_def gettoken_def Let_def skip_ws_idem split: if_splits)

section \<open>The parser ends and finds words\<close>

primrec words :: "cmd \<Rightarrow> word_ref set" where
  "words (Exec argv) = set argv"
| "words (Redir c w m fd) = insert w (words c)"
| "words (Pipe l r) = words l \<union> words r"
| "words (List l r) = words l \<union> words r"
| "words (Back c) = words c"

primrec args_fit :: "cmd \<Rightarrow> bool" where
  "args_fit (Exec argv) = (length argv < MAXARGS)"
| "args_fit (Redir c w m fd) = args_fit c"
| "args_fit (Pipe l r) = (args_fit l \<and> args_fit r)"
| "args_fit (List l r) = (args_fit l \<and> args_fit r)"
| "args_fit (Back c) = args_fit c"

definition cmd_ok :: "byte list \<Rightarrow> nat \<Rightarrow> cmd \<Rightarrow> bool" where
  "cmd_ok line es c \<longleftrightarrow> (\<forall>w \<in> words c. is_word line es w) \<and> args_fit c"

definition wrap_ok :: "byte list \<Rightarrow> nat \<Rightarrow> (cmd \<Rightarrow> cmd) \<Rightarrow> bool" where
  "wrap_ok line es f \<longleftrightarrow> (\<forall>c. cmd_ok line es c \<longrightarrow> cmd_ok line es (f c))"

text \<open>A parser's result: no lack of fuel, a position that has not gone back, and a tree with the property.\<close>

definition good :: "('a \<Rightarrow> bool) \<Rightarrow> nat \<Rightarrow> nat \<Rightarrow> parse_error + ('a \<times> nat) \<Rightarrow> bool" where
  "good P es s r \<longleftrightarrow> (case r of Inl e \<Rightarrow> e \<noteq> No_Fuel | Inr (c, s') \<Rightarrow> s \<le> s' \<and> s' \<le> es \<and> P c)"

lemma good_simps [simp]:
  "good P es s (Inl (Panic m))" "good P es s (Inr (c, s')) \<longleftrightarrow> s \<le> s' \<and> s' \<le> es \<and> P c"
  by (simp_all add: good_def)

lemma good_mono: "good P es s r \<Longrightarrow> s0 \<le> s \<Longrightarrow> good P es s0 r"
  by (auto simp: good_def split: sum.splits)

lemma good_Inl: "good P es s (Inl e) \<Longrightarrow> good Q es s' (Inl e)"
  by (simp add: good_def)

lemma good_bind:
  assumes "good P es s r" "\<And>c s'. s \<le> s' \<Longrightarrow> s' \<le> es \<Longrightarrow> P c \<Longrightarrow> good Q es s0 (f c s')"
  shows "good Q es s0 (case r of Inl e \<Rightarrow> Inl e | Inr (c, s') \<Rightarrow> f c s')"
proof (cases r)
  case (Inl e)
  then show ?thesis using assms(1) by (simp add: good_def)
next
  case (Inr x)
  then show ?thesis using assms by (cases x) simp
qed

lemma redir_ok: "is_word line es w \<Longrightarrow> cmd_ok line es c \<Longrightarrow> cmd_ok line es (redir_of tok w c)"
  by (auto simp: redir_of_def cmd_ok_def)

lemma parseredirs_good:
  "ends line es \<Longrightarrow> s \<le> es \<Longrightarrow> es - s < k \<Longrightarrow> wrap_ok line es wrap \<Longrightarrow> good (wrap_ok line es) es s (parseredirs k line es s wrap)"
proof (induction k arbitrary: s wrap)
  case (Suc k)
  obtain more s1 where p: "peek line es s ''<>'' = (more, s1)" by fastforce
  obtain tok x y s2 where g1: "gettoken line es s1 = (tok, x, y, s2)" by (metis prod_cases4)
  obtain t2 q e s3 where g2: "gettoken line es s2 = (t2, q, e, s3)" by (metis prod_cases4)
  note pp = peek_spec [OF Suc.prems(2) p]
  note gs = gettoken_spec [OF Suc.prems(1) pp(2) g1]
  note gt = gettoken_spec [OF Suc.prems(1) gs(2) g2]
  show ?case
  proof (cases "more \<and> t2 = of_char CHR ''a''")
    case True
    have "s1 < s2" using pp(3) [OF _ g1] gs(3) True by blast
    then have "s < s3" using pp(1) gt(1) by simp
    moreover have "wrap_ok line es (redir_of tok (q, e) \<circ> wrap)"
      using Suc.prems(4) gt(4) True redir_ok by (auto simp: wrap_ok_def)
    ultimately have "good (wrap_ok line es) es s3 (parseredirs k line es s3 (redir_of tok (q, e) \<circ> wrap))"
      using Suc.prems(1-3) gt(2) by (intro Suc.IH) (assumption | simp)+
    from good_mono [OF this, of s] show ?thesis using p g1 g2 True \<open>s < s3\<close> by simp
  next
    case False
    then show ?thesis using p g1 g2 pp Suc.prems(4) by auto
  qed
qed simp

lemma parseargs_good:
  "ends line es \<Longrightarrow> s \<le> es \<Longrightarrow> es - s < k \<Longrightarrow> wrap_ok line es wrap \<Longrightarrow> cmd_ok line es (Exec argv) \<Longrightarrow>
   good (cmd_ok line es) es s (parseargs k line es s argv wrap)"
proof (induction k arbitrary: s argv wrap)
  case (Suc k)
  obtain stop s1 where p: "peek line es s ''|)&;'' = (stop, s1)" by fastforce
  obtain tok q e s2 where g: "gettoken line es s1 = (tok, q, e, s2)" by (metis prod_cases4)
  note pp = peek_spec [OF Suc.prems(2) p]
  note gs = gettoken_spec [OF Suc.prems(1) pp(2) g]
  have w: "cmd_ok line es (wrap (Exec argv))" using Suc.prems(4,5) by (simp add: wrap_ok_def)
  show ?case
  proof (cases "stop \<or> tok = 0 \<or> tok \<noteq> of_char CHR ''a'' \<or> length (argv @ [(q, e)]) \<ge> MAXARGS")
    case True
    then show ?thesis using p g pp gs w by (auto simp: Let_def)
  next
    case False
    then have "s1 < s2" using gs(3) by simp
    then have lt: "s < s2" using pp(1) by simp
    let ?r = "parseredirs k line es s2 wrap"
    have r: "good (wrap_ok line es) es s2 ?r"
      using Suc.prems gs(2) lt by (intro parseredirs_good) auto
    have c: "cmd_ok line es (Exec (argv @ [(q, e)]))"
      using Suc.prems(5) gs(4) False by (auto simp: cmd_ok_def)
    have "good (cmd_ok line es) es s (case ?r of Inl e \<Rightarrow> Inl e | Inr (wrap', s3) \<Rightarrow> parseargs k line es s3 (argv @ [(q, e)]) wrap')"
    proof (rule good_bind [OF r])
      fix wrap' s3 assume s3: "s2 \<le> s3" "s3 \<le> es" "wrap_ok line es wrap'"
      then have "good (cmd_ok line es) es s3 (parseargs k line es s3 (argv @ [(q, e)]) wrap')"
        using Suc.prems(1-3) lt c by (intro Suc.IH) auto
      from good_mono [OF this, of s] show "good (cmd_ok line es) es s (parseargs k line es s3 (argv @ [(q, e)]) wrap')"
        using s3(1) lt by simp
    qed
    then show ?thesis using p g False by (simp add: Let_def)
  qed
qed simp

lemma parsebacks_good:
  "ends line es \<Longrightarrow> s \<le> es \<Longrightarrow> es - s < k \<Longrightarrow> cmd_ok line es c \<Longrightarrow> good (cmd_ok line es) es s (parsebacks k line es s c)"
proof (induction k arbitrary: s c)
  case (Suc k)
  obtain more s1 where p: "peek line es s ''&'' = (more, s1)" by fastforce
  obtain tok q e s2 where g: "gettoken line es s1 = (tok, q, e, s2)" by (metis prod_cases4)
  note pp = peek_spec [OF Suc.prems(2) p]
  note gs = gettoken_spec [OF Suc.prems(1) pp(2) g]
  show ?case
  proof (cases more)
    case True
    have lt: "s < s2" using pp(3) [OF True g] gs(3) pp(1) by simp
    have "good (cmd_ok line es) es s2 (parsebacks k line es s2 (Back c))"
      using Suc.prems gs(2) lt by (intro Suc.IH) (auto simp: cmd_ok_def)
    from good_mono [OF this, of s] show ?thesis using p g True lt by simp
  qed (use p pp Suc.prems in simp)
qed simp

lemma parseexec_good:
  assumes E: "ends line es" and s: "s \<le> es" "es - s < k"
    and pl: "\<And>s'. s < s' \<Longrightarrow> s' \<le> es \<Longrightarrow> good (cmd_ok line es) es s' (pl line es s')"
  shows "good (cmd_ok line es) es s (parseexec pl k line es s)"
proof -
  obtain paren s1 where p: "peek line es s ''('' = (paren, s1)" by fastforce
  obtain tok q e s2 where g: "gettoken line es s1 = (tok, q, e, s2)" by (metis prod_cases4)
  note pp = peek_spec [OF s(1) p]
  note gs = gettoken_spec [OF E pp(2) g]
  have idw: "wrap_ok line es id" by (simp add: wrap_ok_def)
  show ?thesis
  proof (cases paren)
    case False
    have r: "good (wrap_ok line es) es s1 (parseredirs k line es s1 id)"
      using s pp by (intro parseredirs_good [OF E _ _ idw]) auto
    have "good (cmd_ok line es) es s
        (case parseredirs k line es s1 id of Inl e \<Rightarrow> Inl e | Inr (wrap, s2) \<Rightarrow> parseargs k line es s2 [] wrap)"
    proof (rule good_bind [OF r])
      fix wrap s2 assume s2: "s1 \<le> s2" "s2 \<le> es" "wrap_ok line es wrap"
      then have "good (cmd_ok line es) es s2 (parseargs k line es s2 [] wrap)"
        using s pp(1) by (intro parseargs_good [OF E]) (auto simp: cmd_ok_def MAXARGS_def)
      from good_mono [OF this, of s] show "good (cmd_ok line es) es s (parseargs k line es s2 [] wrap)" using s2(1) pp(1) by simp
    qed
    then show ?thesis using p False by (simp add: parseexec_def Let_def)
  next
    case True
    have lt: "s < s2" using pp(3) [OF True g] gs(3) pp(1) by simp
    have p': "peek line es s1 ''('' = (True, s1)" using p True skip_ws_idem [OF s(1), of line] by (auto simp: peek_def Let_def)
    let ?f = "\<lambda>c s3. let (close, s4) = peek line es s3 '')''
        in if \<not> close then Inl (Panic ''syntax - missing )'')
           else (let (_, _, _, s5) = gettoken line es s4
                 in case parseredirs k line es s5 id of Inl e \<Rightarrow> Inl e | Inr (wrap, s6) \<Rightarrow> Inr (wrap c, s6))"
    have "good (cmd_ok line es) es s (case pl line es s2 of Inl e \<Rightarrow> Inl e | Inr (c, s3) \<Rightarrow> ?f c s3)"
    proof (rule good_bind [OF pl [OF lt gs(2)]])
      fix c s3 assume s3: "s2 \<le> s3" "s3 \<le> es" "cmd_ok line es c"
      obtain close s4 where p4: "peek line es s3 '')'' = (close, s4)" by fastforce
      obtain tk q5 e5 s5 where g5: "gettoken line es s4 = (tk, q5, e5, s5)" by (metis prod_cases4)
      note p4' = peek_spec [OF s3(2) p4]
      note g5' = gettoken_spec [OF E p4'(2) g5]
      have le: "s < s5" using lt s3(1) p4'(1) g5'(1) by simp
      have r5: "good (wrap_ok line es) es s5 (parseredirs k line es s5 id)"
        using s le g5'(2) by (intro parseredirs_good [OF E _ _ idw]) auto
      have "good (cmd_ok line es) es s
          (case parseredirs k line es s5 id of Inl e \<Rightarrow> Inl e | Inr (wrap, s6) \<Rightarrow> Inr (wrap c, s6))"
        using le s3(3) by (intro good_bind [OF r5]) (auto simp: wrap_ok_def)
      then show "good (cmd_ok line es) es s (?f c s3)" using p4 g5 by (cases close) simp_all
    qed
    then show ?thesis using p p' g True by (simp add: parseexec_def parseblock_def)
  qed
qed

lemma parsepipe_good:
  assumes E: "ends line es" and pl: "\<And>s'. s0 < s' \<Longrightarrow> s' \<le> es \<Longrightarrow> good (cmd_ok line es) es s' (pl line es s')"
  shows "s0 \<le> s \<Longrightarrow> s \<le> es \<Longrightarrow> es - s + 1 < k \<Longrightarrow> good (cmd_ok line es) es s (parsepipe k pl line es s)"
proof (induction k arbitrary: s)
  case (Suc k)
  let ?f = "\<lambda>c s1. let (more, s2) = peek line es s1 ''|''
     in if more then (let (_, _, _, s3) = gettoken line es s2
          in case parsepipe k pl line es s3 of Inl e \<Rightarrow> Inl e | Inr (d, s4) \<Rightarrow> Inr (Pipe c d, s4))
        else Inr (c, s2)"
  have x: "good (cmd_ok line es) es s (parseexec pl k line es s)"
    using Suc.prems pl by (intro parseexec_good [OF E]) auto
  have "good (cmd_ok line es) es s (case parseexec pl k line es s of Inl e \<Rightarrow> Inl e | Inr (c, s1) \<Rightarrow> ?f c s1)"
  proof (rule good_bind [OF x])
    fix c s1 assume s1: "s \<le> s1" "s1 \<le> es" "cmd_ok line es c"
    obtain more s2 where p: "peek line es s1 ''|'' = (more, s2)" by fastforce
    obtain tok q e s3 where g: "gettoken line es s2 = (tok, q, e, s3)" by (metis prod_cases4)
    note pp = peek_spec [OF s1(2) p]
    note gs = gettoken_spec [OF E pp(2) g]
    show "good (cmd_ok line es) es s (?f c s1)"
    proof (cases more)
      case True
      have lt: "s < s3" using pp(3) [OF True g] gs(3) pp(1) s1(1) by simp
      have r3: "good (cmd_ok line es) es s3 (parsepipe k pl line es s3)"
        using Suc.prems gs(2) lt by (intro Suc.IH) auto
      have "good (cmd_ok line es) es s (case parsepipe k pl line es s3 of Inl e \<Rightarrow> Inl e | Inr (d, s4) \<Rightarrow> Inr (Pipe c d, s4))"
        using lt s1(3) by (intro good_bind [OF r3]) (auto simp: cmd_ok_def)
      then show ?thesis using p g True by simp
    qed (use p pp s1 in simp)
  qed
  then show ?case by simp
qed simp

lemma parseline_good:
  "ends line es \<Longrightarrow> s \<le> es \<Longrightarrow> es - s + 2 < k \<Longrightarrow> good (cmd_ok line es) es s (parseline k line es s)"
proof (induction k arbitrary: s)
  case (Suc k)
  note E = Suc.prems(1)
  have pl: "good (cmd_ok line es) es s' (parseline k line es s')" if "s < s'" "s' \<le> es" for s'
    using Suc.prems that by (intro Suc.IH) auto
  let ?g = "\<lambda>c s2. let (more, s3) = peek line es s2 '';''
     in if more then (let (_, _, _, s4) = gettoken line es s3
          in case parseline k line es s4 of Inl e \<Rightarrow> Inl e | Inr (d, s5) \<Rightarrow> Inr (List c d, s5))
        else Inr (c, s3)"
  let ?f = "\<lambda>c s1. case parsebacks k line es s1 c of Inl e \<Rightarrow> Inl e | Inr (c, s2) \<Rightarrow> ?g c s2"
  have x: "good (cmd_ok line es) es s (parsepipe k (parseline k) line es s)"
    using Suc.prems(2,3) pl by (intro parsepipe_good [OF E, where s0 = s]) auto
  have "good (cmd_ok line es) es s (case parsepipe k (parseline k) line es s of Inl e \<Rightarrow> Inl e | Inr (c, s1) \<Rightarrow> ?f c s1)"
  proof (rule good_bind [OF x])
    fix c s1 assume s1: "s \<le> s1" "s1 \<le> es" "cmd_ok line es c"
    have b: "good (cmd_ok line es) es s1 (parsebacks k line es s1 c)"
      using Suc.prems s1 by (intro parsebacks_good [OF E]) auto
    show "good (cmd_ok line es) es s (?f c s1)"
    proof (rule good_bind [OF b])
      fix c s2 assume s2: "s1 \<le> s2" "s2 \<le> es" "cmd_ok line es c"
      obtain more s3 where p: "peek line es s2 '';'' = (more, s3)" by fastforce
      obtain tok q e s4 where g: "gettoken line es s3 = (tok, q, e, s4)" by (metis prod_cases4)
      note pp = peek_spec [OF s2(2) p]
      note gs = gettoken_spec [OF E pp(2) g]
      show "good (cmd_ok line es) es s (?g c s2)"
      proof (cases more)
        case True
        have lt: "s < s4" using pp(3) [OF True g] gs(3) pp(1) s1(1) s2(1) by simp
        have "good (cmd_ok line es) es s (case parseline k line es s4 of Inl e \<Rightarrow> Inl e | Inr (d, s5) \<Rightarrow> Inr (List c d, s5))"
          using lt s2(3) by (intro good_bind [OF pl [OF lt gs(2)]]) (auto simp: cmd_ok_def)
        then show ?thesis using p g True by simp
      qed (use p pp s1 s2 in simp)
    qed
  qed
  then show ?case by simp
qed simp

section \<open>Words after nulterminate\<close>

lemma at_put_nul: "at (put_nul e line) i = (if i = e then 0 else at line i)"
  by (auto simp: at_def put_nul_def)

lemma at_nulterminate: "at (nulterminate c line) i = (if i \<in> snd ` words c then 0 else at line i)"
proof (induction c arbitrary: line)
  case (Exec argv)
  have "at (fold (\<lambda>(q, eq). put_nul eq) argv line) i = (if i \<in> snd ` set argv then 0 else at line i)" for line
    by (induction argv arbitrary: line) (auto simp: at_put_nul split: prod.splits)
  then show ?case by simp
qed (auto simp: at_put_nul)

lemma cstr_at:
  assumes "q \<le> e" "\<And>i. q \<le> i \<Longrightarrow> i < e \<Longrightarrow> at l i \<noteq> 0" "at l e = 0"
  shows "cstr (drop q l) = map (at l) [q..<e]"
  using assms
proof (induction "e - q" arbitrary: q)
  case 0
  then have "hdz (drop q l) = 0" by (auto simp: at_def hdz_def drop_eq_Nil split: list.splits if_splits) (metis hd_drop_conv_nth list.sel(1) not_le drop_eq_Nil list.distinct(1))
  with 0 show ?case by (subst cstr_step) simp
next
  case (Suc n)
  have "q < e" using Suc.hyps(2) by simp
  moreover have "q < length l" using Suc.prems(2) [of q] \<open>q < e\<close> by (simp add: at_def split: if_splits)
  ultimately have q: "q < e" "q < length l" .
  have "hdz (drop q l) = at l q" "tl (drop q l) = drop (q + 1) l"
    using q by (simp_all add: at_def hdz_def Cons_nth_drop_Suc [symmetric] tl_drop)
  moreover have "cstr (drop (q + 1) l) = map (at l) [q + 1..<e]"
    using Suc by (intro Suc.hyps(1)) auto
  moreover have "[q..<e] = q # [q + 1..<e]" using q by (simp add: upt_conv_Cons)
  ultimately show ?case using Suc.prems(2) [of q] q by (subst cstr_step) simp
qed

lemma word_survives:
  assumes c: "cmd_ok line es c" and w: "(q, e) \<in> words c"
  shows "cstr (drop q (nulterminate c line)) = map (at line) [q..<e]"
proof -
  have iw: "is_word line es (q, e)" using c w by (auto simp: cmd_ok_def)
  have keep: "at (nulterminate c line) i = at line i" if i: "q \<le> i" "i < e" for i
  proof -
    have "wordchar (at line i)" using iw i by (simp add: is_word_def)
    then have "i \<notin> snd ` words c" using c by (auto simp: cmd_ok_def is_word_def)
    then show ?thesis by (simp add: at_nulterminate)
  qed
  have "at (nulterminate c line) e = 0" using w by (auto simp: at_nulterminate intro: rev_image_eqI)
  moreover have "at line i \<noteq> 0" if "q \<le> i" "i < e" for i using iw that by (simp add: is_word_def wordchar_def)
  ultimately have "cstr (drop q (nulterminate c line)) = map (at (nulterminate c line)) [q..<e]"
    using iw keep by (intro cstr_at) (auto simp: is_word_def)
  with keep show ?thesis by simp
qed

text \<open>
  The parser does not run out of fuel, its simple commands fit their argument slots, and after \<^verbatim>\<open>nulterminate\<close> every argument
  and file name reads as the word of the line it points to.
\<close>

lemma parsecmd_tree_ok:
  "case parsecmd line of
     Inl err \<Rightarrow> err \<noteq> No_Fuel
   | Inr (c, line') \<Rightarrow> args_fit c \<and> (\<forall>(q, e) \<in> words c.
       is_word line (strlen line) (q, e) \<and> cstr (drop q line') = map (at line) [q..<e])"
proof -
  let ?es = "strlen line"
  have g: "good (cmd_ok line ?es) ?es 0 (parseline (parse_fuel ?es) line ?es 0)"
    by (intro parseline_good ends_strlen) (simp_all add: parse_fuel_def)
  show ?thesis
  proof (cases "parseline (parse_fuel ?es) line ?es 0")
    case (Inl err)
    then show ?thesis using g by (simp add: parsecmd_def good_def)
  next
    case (Inr x)
    then obtain c s where x: "x = (c, s)" "cmd_ok line ?es c" using g by (cases x) simp
    obtain b s' where p: "peek line ?es s [] = (b, s')" by fastforce
    show ?thesis
      using Inr x p word_survives [OF x(2)] by (auto simp: parsecmd_def cmd_ok_def)
  qed
qed

end
