(* ===== verification/Shell_Grammar.thy ===== *)
theory Shell_Grammar
  imports Shell
begin

text \<open>
  What a command line means: the tokens of a line, described by where they begin and end, and a grammar that says which trees a
  sequence of tokens stands for. The recursive-descent parser of \<^verbatim>\<open>sh.c\<close> accepts exactly the lines the grammar derives, with
  the derived tree.
\<close>

section \<open>The tokens of a line\<close>

text \<open>A word with its two ends, or an operator: its character, or \<open>+\<close> for two greater-than signs, as \<^verbatim>\<open>gettoken\<close> returns it.\<close>

datatype token = Word word_ref | Op byte

definition blanks :: "byte list \<Rightarrow> nat \<Rightarrow> nat \<Rightarrow> bool" where
  "blanks line s q \<longleftrightarrow> s \<le> q \<and> (\<forall>i. s \<le> i \<and> i < q \<longrightarrow> ws (at line i))"

abbreviation gt :: byte where "gt \<equiv> of_char CHR ''>''"

text \<open>
  \<open>lexes line es s ts\<close>: from \<open>s\<close> to the end \<open>es\<close> the line consists of the tokens \<open>ts\<close> with nothing but blanks between them. A word is
  a run of word characters that no word character follows; as a blank or an operator ends before it, none precedes it either.
\<close>

inductive lexes :: "byte list \<Rightarrow> nat \<Rightarrow> nat \<Rightarrow> token list \<Rightarrow> bool" for line es where
  lex_end: "blanks line s es \<Longrightarrow> lexes line es s []"
| lex_word: "blanks line s q \<Longrightarrow> is_word line es (q, e) \<Longrightarrow> lexes line es e ts \<Longrightarrow> lexes line es s (Word (q, e) # ts)"
| lex_op: "blanks line s q \<Longrightarrow> q < es \<Longrightarrow> at line q = c \<Longrightarrow>
    c \<in> set (ascii ''|();&<'') \<or> c = gt \<and> at line (q + 1) \<noteq> gt \<Longrightarrow> lexes line es (q + 1) ts \<Longrightarrow> lexes line es s (Op c # ts)"
| lex_append: "blanks line s q \<Longrightarrow> q + 1 < es \<Longrightarrow> at line q = gt \<Longrightarrow> at line (q + 1) = gt \<Longrightarrow>
    lexes line es (q + 2) ts \<Longrightarrow> lexes line es s (Op (of_char CHR ''+'') # ts)"

inductive_cases lexes_NilE: "lexes line es s []"
inductive_cases lexes_OpE: "lexes line es s (Op c # ts)"

section \<open>The grammar\<close>

definition is_redir :: "byte \<Rightarrow> bool" where
  "is_redir c \<longleftrightarrow> c \<in> set (ascii ''<>+'')"


text \<open>Each redirection is wrapped around the command with the redirections before it.\<close>

definition wrap_redirs :: "(byte \<times> word_ref) list \<Rightarrow> cmd \<Rightarrow> cmd" where
  "wrap_redirs rs = fold (\<lambda>(c, w). redir_of c w) rs"


section \<open>The lexer\<close>












text \<open>\<^verbatim>\<open>peek\<close> tells whether the first token is one of the given operators, and skips blanks.\<close>

definition starts :: "string \<Rightarrow> token list \<Rightarrow> bool" where
  "starts toks ts \<longleftrightarrow> (case ts of Op c # _ \<Rightarrow> (if c = of_char CHR ''+'' then gt else c) \<in> set (ascii toks) | _ \<Rightarrow> False)"

lemma starts_simps [simp]:
  "\<not> starts toks []" "\<not> starts toks (Word w # ts)"
  "starts toks (Op c # ts) \<longleftrightarrow> (if c = of_char CHR ''+'' then gt else c) \<in> set (ascii toks)"
  by (simp_all add: starts_def)






section \<open>Redirections and simple commands\<close>

definition rtoks :: "(byte \<times> word_ref) list \<Rightarrow> token list" where
  "rtoks rs = concat (map (\<lambda>(c, w). [Op c, Word w]) rs)"

definition redirs_ok :: "(byte \<times> word_ref) list \<Rightarrow> bool" where
  "redirs_ok rs \<longleftrightarrow> (\<forall>(c, w) \<in> set rs. is_redir c)"

lemma rtoks_simps [simp]: "rtoks [] = []" "rtoks ((c, w) # rs) = Op c # Word w # rtoks rs" "rtoks (rs @ qs) = rtoks rs @ rtoks qs"
  by (simp_all add: rtoks_def)

lemma redirs_ok_simps [simp]: "redirs_ok []" "redirs_ok ((c, w) # rs) \<longleftrightarrow> is_redir c \<and> redirs_ok rs"
  by (simp_all add: redirs_ok_def)

lemma wrap_redirs_simps [simp]:
  "wrap_redirs [] c = c" "wrap_redirs ((t, w) # rs) c = wrap_redirs rs (redir_of t w c)"
  "wrap_redirs (rs @ qs) c = wrap_redirs qs (wrap_redirs rs c)"
  by (simp_all add: wrap_redirs_def)

lemma toks_sub [simp]:
  "set (ascii ''<>'') \<subseteq> set symbols" "set (ascii ''|)&;'') \<subseteq> set symbols" "set (ascii ''&'') \<subseteq> set symbols"
  "set (ascii ''('') \<subseteq> set symbols" "set (ascii '')'') \<subseteq> set symbols" "set (ascii ''|'') \<subseteq> set symbols" "set (ascii '';'') \<subseteq> set symbols"
  "set (ascii []) \<subseteq> set symbols"
  by (auto simp: symbols_def ascii_def)






text \<open>The loop of \<^verbatim>\<open>parseexec\<close> takes words and redirections up to a bar, a closing parenthesis, an ampersand, a semicolon or the end.\<close>

definition stops :: "string \<Rightarrow> token list \<Rightarrow> bool" where
  "stops toks ts \<longleftrightarrow> ts = [] \<or> starts toks ts"




section \<open>Every tree the parser returns is derived by the grammar\<close>




text \<open>
  \<open>derives G line es ts r\<close>: a result \<open>r\<close> of a parser that began where the tokens \<open>ts\<close> are left is a tree that \<open>G\<close> derives from the
  tokens taken, and a place where the other tokens are left.
\<close>

definition derives :: "(token list \<Rightarrow> cmd \<Rightarrow> bool) \<Rightarrow> byte list \<Rightarrow> nat \<Rightarrow> token list \<Rightarrow> parse_error + (cmd \<times> nat) \<Rightarrow> bool" where
  "derives G line es ts r \<longleftrightarrow> (case r of Inl _ \<Rightarrow> True
     | Inr (c, s') \<Rightarrow> \<exists>us vs. ts = us @ vs \<and> G us c \<and> s' \<le> es \<and> lexes line es s' vs)"

lemma derives_Inl [simp]: "derives G line es ts (Inl e)"
  by (simp add: derives_def)







section \<open>Every tree the grammar derives is found by the parser\<close>




text \<open>What may follow a command, a pipeline and a line.\<close>

lemma stops_Nil [simp]: "stops toks []"
  by (simp add: stops_def)










section \<open>The parser of the shell\<close>



lemma blanks_exec [code]: "blanks line s q \<longleftrightarrow> s \<le> q \<and> list_all (\<lambda>i. ws (at line i)) [s..<q]"
  by (auto simp: blanks_def list_all_iff)

lemma is_word_exec [code]:
  "is_word line es (q, e) \<longleftrightarrow> q < e \<and> e \<le> es \<and> list_all (\<lambda>i. wordchar (at line i)) [q..<e] \<and> \<not> wordchar (at line e)"
  by (auto simp: is_word_def list_all_iff)



end
