(* ===== verification/Ide.thy ===== *)
theory Ide
  imports Demo
begin

unbundle bit_operations_syntax

text \<open>
  The IDE driver \<^verbatim>\<open>ide.c\<close>: requests wait in a queue linked through the buffers, the first one is
  being carried out by the drive, and the interrupt at its end completes it and starts the next.
  The properties show that the driver does what the synchronous driver of \<^verbatim>\<open>memide.c\<close> does to the
  requests in the order in which they arrive.
\<close>

section \<open>State\<close>

text \<open>
  The registers of the primary channel as the driver sets them, and the data it has sent. The
  second disk of the channel is \<open>memdisk\<close>, the first one \<open>disk0\<close>; \<open>ide_busy\<close> tells that the drive
  has a command to carry out, \<open>ide_err\<close> is the error bit of its status register afterwards.
\<close>

record ide_regs =
  r_count :: byte
  r_lo :: byte
  r_mid :: byte
  r_hi :: byte
  r_head :: byte
  r_command :: byte

record ide_state = fs_state +
  idequeue :: "nat option"
  qnext :: "nat \<Rightarrow> nat option"
  havedisk1 :: bool
  disk0 :: "nat \<Rightarrow> byte list"
  regs :: ide_regs
  sent :: "byte list"
  ide_busy :: bool
  ide_err :: bool

definition IDE_CMD_READ :: byte where "IDE_CMD_READ = 0x20"
definition IDE_CMD_WRITE :: byte where "IDE_CMD_WRITE = 0x30"

section \<open>The driver\<close>

text \<open>The drive becomes ready in the end; then the error bits decide.\<close>

definition idewait :: "bool \<Rightarrow> ('a ide_state_scheme, int) kop" where
  "idewait check_error = kget (\<lambda>s. if check_error \<and> ide_err s then -1 else 0)"

definition request_regs :: "u32 \<Rightarrow> u32 \<Rightarrow> byte \<Rightarrow> ide_regs" where
  "request_regs dev sector command =
     \<lparr>r_count = 1, r_lo = ucast (sector AND 0xFF), r_mid = ucast (drop_bit 8 sector AND 0xFF),
      r_hi = ucast (drop_bit 16 sector AND 0xFF),
      r_head = ucast (0xE0 OR push_bit 4 (dev AND 1) OR (drop_bit 24 sector AND 0x0F)), r_command = command\<rparr>"

definition idestart :: "nat option \<Rightarrow> ('a ide_state_scheme, unit) kop" where
  "idestart r =
     (case r of
        None \<Rightarrow> kpanic ''idestart''
      | Some b \<Rightarrow> kbind (bget_field b id) (\<lambda>bp.
          if FSSIZE \<le> unat (b_blockno bp) then kpanic ''incorrect blockno''
          else kseq (kbind (idewait False) (\<lambda>_. kret ()))
            (if b_flags bp AND B_DIRTY \<noteq> 0
             then kmod (\<lambda>s. s\<lparr>regs := request_regs (b_dev bp) (b_blockno bp) IDE_CMD_WRITE, sent := b_data bp, ide_busy := True\<rparr>)
             else kmod (\<lambda>s. s\<lparr>regs := request_regs (b_dev bp) (b_blockno bp) IDE_CMD_READ, ide_busy := True\<rparr>))))"

text \<open>What the drive reads from its registers: the disk and the sector.\<close>

definition drive_lba :: "ide_regs \<Rightarrow> nat" where
  "drive_lba r = unat (ucast (r_lo r) OR push_bit 8 (ucast (r_mid r)) OR push_bit 16 (ucast (r_hi r)) OR
                       push_bit 24 (ucast (r_head r) AND 0x0F) :: u32)"

definition drive_second :: "ide_regs \<Rightarrow> bool" where
  "drive_second r \<longleftrightarrow> bit (r_head r) 4"

definition drive_read :: "'a ide_state_scheme \<Rightarrow> byte list" where
  "drive_read s = (if drive_second (regs s) then memdisk s else disk0 s) (drive_lba (regs s))"

text \<open>The drive carries out a write command before it raises the interrupt.\<close>

definition drive_finish :: "'a ide_state_scheme \<Rightarrow> 'a ide_state_scheme" where
  "drive_finish s =
     (let s' = s\<lparr>ide_busy := False\<rparr>
      in if ide_busy s \<and> r_command (regs s) = IDE_CMD_WRITE then
           (if drive_second (regs s) then s'\<lparr>memdisk := (memdisk s)(drive_lba (regs s) := sent s)\<rparr>
            else s'\<lparr>disk0 := (disk0 s)(drive_lba (regs s) := sent s)\<rparr>)
         else s')"

definition ideintr :: "('a ide_state_scheme, unit) kop" where
  "ideintr =
     kbind (kget idequeue) (\<lambda>r. case r of
        None \<Rightarrow> kret ()
      | Some b \<Rightarrow>
          kseq (kmod (\<lambda>s. s\<lparr>idequeue := qnext s b\<rparr>))
         (kseq (kbind (bget_field b b_flags) (\<lambda>fl.
                  kwhen (fl AND B_DIRTY = 0)
                    (kbind (idewait True) (\<lambda>w.
                       kwhen (w \<ge> 0) (kbind (kget drive_read) (\<lambda>d. kbuf b (\<lambda>bp. bp\<lparr>b_data := d\<rparr>)))))))
         (kseq (kbuf b (\<lambda>bp. bp\<lparr>b_flags := b_flags bp OR B_VALID\<rparr>))
         (kseq (kbuf b (\<lambda>bp. bp\<lparr>b_flags := b_flags bp AND NOT B_DIRTY\<rparr>))
         (kseq (wakeup (ChBuf b))
               (kbind (kget idequeue) (\<lambda>r. kwhen (r \<noteq> None) (idestart r))))))))"

text \<open>The walk along the queue to its last request; \<open>None\<close> when it never ends.\<close>

partial_function (option) ide_tail :: "(nat \<Rightarrow> nat option) \<Rightarrow> nat \<Rightarrow> nat option" where
  "ide_tail qn b = (case qn b of None \<Rightarrow> Some b | Some c \<Rightarrow> ide_tail qn c)"

definition ide_append :: "nat \<Rightarrow> ('a ide_state_scheme, unit) kop" where
  "ide_append b =
     kseq (kmod (\<lambda>s. s\<lparr>qnext := (qnext s)(b := None)\<rparr>))
       (kbind (kget idequeue) (\<lambda>r. case r of
          None \<Rightarrow> kmod (\<lambda>s. s\<lparr>idequeue := Some b\<rparr>)
        | Some h \<Rightarrow> kbind (kget (\<lambda>s. ide_tail (qnext s) h)) (\<lambda>l. case l of
            None \<Rightarrow> kfault
          | Some l \<Rightarrow> kmod (\<lambda>s. s\<lparr>qnext := (qnext s)(l := Some b)\<rparr>))))"

text \<open>\<^verbatim>\<open>iderw\<close> up to its wait loop, and the loop.\<close>

definition ide_submit :: "nat \<Rightarrow> ('a ide_state_scheme, unit) kop" where
  "ide_submit b =
     kbind (holdingsleep (buf_lock b)) (\<lambda>held.
       if \<not> held then kpanic ''iderw: buf not locked''
       else kbind (bget_field b id) (\<lambda>bp.
         if b_flags bp AND (B_VALID OR B_DIRTY) = B_VALID then kpanic ''iderw: nothing to do''
         else kbind (kget havedisk1) (\<lambda>hd1.
           if b_dev bp \<noteq> 0 \<and> \<not> hd1 then kpanic ''iderw: ide disk 1 not present''
           else kseq (ide_append b)
             (kbind (kget idequeue) (\<lambda>r. kwhen (r = Some b) (idestart (Some b)))))))"

definition ide_wait :: "nat \<Rightarrow> ('a ide_state_scheme, unit) kop" where
  "ide_wait b =
     kbind (bget_field b b_flags) (\<lambda>fl.
       if fl AND (B_VALID OR B_DIRTY) \<noteq> B_VALID then ksleep (ChBuf b) else kret ())"

definition ide_rw :: "nat \<Rightarrow> ('a ide_state_scheme, unit) kop" where
  "ide_rw b = kseq (ide_submit b) (ide_wait b)"

section \<open>The registers\<close>

lemma lba_roundtrip:
  assumes "unat sector < 2 ^ 28"
  shows "drive_lba (request_regs dev sector c) = unat sector" "drive_second (request_regs dev sector c) \<longleftrightarrow> bit dev 0"
proof -
  have hi: "\<not> bit sector n" if "28 \<le> n" for n
  proof -
    have "unat (take_bit 28 sector) = unat sector"
      using assms by (simp add: unsigned_take_bit_eq take_bit_nat_eq_self)
    then have "take_bit 28 sector = sector" by (rule unsigned_word_eqI)
    then show ?thesis using that by (metis bit_take_bit_iff not_le)
  qed
  let ?w = "ucast (ucast (sector AND 0xFF) :: byte) OR push_bit 8 (ucast (ucast (drop_bit 8 sector AND 0xFF) :: byte)) OR
    push_bit 16 (ucast (ucast (drop_bit 16 sector AND 0xFF) :: byte)) OR
    push_bit 24 (ucast (ucast (0xE0 OR push_bit 4 (dev AND 1) OR (drop_bit 24 sector AND 0x0F)) :: byte) AND 0x0F) :: u32"
  have m: "(0xFF :: u32) = mask 8" "(0x0F :: u32) = mask 4" by (simp_all add: mask_eq_exp_minus_1)
  have e: "\<not> bit (0xE0 :: u32) k" if "k < 5" for k
    using that by (auto simp: less_Suc_eq numeral_eq_Suc) 
  have "?w = sector"
  proof (rule bit_word_eqI)
    fix n assume "n < LENGTH(32)"
    then consider "n < 8" | k where "n = 8 + k" "k < 8" | k where "n = 16 + k" "k < 8" | k where "n = 24 + k" "k < 4"
      | k where "n = 28 + k" "k < 4"
      using le_Suc_ex [of 8 n] le_Suc_ex [of 16 n] le_Suc_ex [of 24 n] le_Suc_ex [of 28 n]
      by (cases "n < 8"; cases "n < 16"; cases "n < 24"; cases "n < 28") (auto simp: not_less)
    then show "bit ?w n = bit sector n"
    proof cases
      case 4
      then have "\<not> bit (0xE0 :: u32) k" by (intro e) simp
      with 4 show ?thesis unfolding m by (simp add: bit_simps)
    next
      case 5
      then show ?thesis unfolding m using hi [of n] by (simp add: bit_simps)
    qed (simp_all add: m bit_simps)
  qed
  then show "drive_lba (request_regs dev sector c) = unat sector" by (simp add: drive_lba_def request_regs_def)
  show "drive_second (request_regs dev sector c) \<longleftrightarrow> bit dev 0"
    unfolding drive_second_def request_regs_def by (simp add: m bit_simps)
qed

section \<open>The queue\<close>

fun linked :: "(nat \<Rightarrow> nat option) \<Rightarrow> nat option \<Rightarrow> nat list \<Rightarrow> bool" where
  "linked qn r [] \<longleftrightarrow> r = None"
| "linked qn r (b # q) \<longleftrightarrow> r = Some b \<and> linked qn (qn b) q"

lemma linked_unique: "linked qn r q \<Longrightarrow> linked qn r q' \<Longrightarrow> q = q'"
proof (induction q arbitrary: r q')
  case Nil
  then show ?case by (cases q') auto
next
  case (Cons b q)
  then show ?case by (cases q') auto
qed

lemma ide_tail_linked: "linked qn (Some h) q \<Longrightarrow> ide_tail qn h = Some (last q)"
proof (induction q arbitrary: h)
  case (Cons b q)
  then show ?case by (subst ide_tail.simps) (cases "qn h"; cases q; auto)
qed simp

lemma linked_cong: "(\<And>b. b \<in> set q \<Longrightarrow> qn' b = qn b) \<Longrightarrow> linked qn' r q = linked qn r q"
  by (induction q arbitrary: r) auto

lemma linked_append:
  "linked qn r q \<Longrightarrow> q \<noteq> [] \<Longrightarrow> distinct q \<Longrightarrow> b \<notin> set q \<Longrightarrow> linked (qn(b := None, last q := Some b)) r (q @ [b])"
proof (induction q arbitrary: r)
  case (Cons a q)
  show ?case
  proof (cases "q = []")
    case False
    then have "a \<noteq> last q" using Cons.prems by auto
    with False Cons show ?thesis by auto
  qed (use Cons in auto)
qed simp

section \<open>Agreement with the synchronous driver\<close>

type_synonym disks = "(nat \<Rightarrow> byte list) \<times> (nat \<Rightarrow> byte list) \<times> buf list"

definition disks :: "'a ide_state_scheme \<Rightarrow> disks" where
  "disks s = (memdisk s, disk0 s, bufs s)"

abbreviation b_dirty :: "buf \<Rightarrow> bool" where "b_dirty bp \<equiv> b_flags bp AND B_DIRTY \<noteq> 0"

definition completed :: "buf \<Rightarrow> buf" where
  "completed bp = bp\<lparr>b_flags := (b_flags bp OR B_VALID) AND NOT B_DIRTY\<rparr>"

text \<open>One request carried out at once: the block to the disk, or from the disk to the buffer.\<close>

definition sync_rw :: "nat \<Rightarrow> disks \<Rightarrow> disks" where
  "sync_rw b = (\<lambda>(d1, d0, bs).
     let bp = bs ! b; k = unat (b_blockno bp)
     in if b_dirty bp then
          (if bit (b_dev bp) 0 then (d1(k := b_data bp), d0, bs[b := completed bp])
           else (d1, d0(k := b_data bp), bs[b := completed bp]))
        else (d1, d0, bs[b := completed (bp\<lparr>b_data := (if bit (b_dev bp) 0 then d1 k else d0 k)\<rparr>)]))"

definition started :: "'a ide_state_scheme \<Rightarrow> nat \<Rightarrow> bool" where
  "started s b \<longleftrightarrow> (let bp = bufs s ! b in ide_busy s \<and>
     regs s = request_regs (b_dev bp) (b_blockno bp) (if b_dirty bp then IDE_CMD_WRITE else IDE_CMD_READ) \<and>
     (b_dirty bp \<longrightarrow> sent s = b_data bp))"

definition ide_inv :: "'a ide_state_scheme \<Rightarrow> nat list \<Rightarrow> bool" where
  "ide_inv s q \<longleftrightarrow> linked (qnext s) (idequeue s) q \<and> distinct q \<and> \<not> ide_err s \<and>
     (\<forall>b \<in> set q. b < length (bufs s) \<and> unat (b_blockno (bufs s ! b)) < FSSIZE) \<and>
     (if q = [] then \<not> ide_busy s else started s (hd q))"

lemma disks_sync_frame:
  "(\<lambda>(_, _, bs). bs ! c) (sync_rw b ds) = (\<lambda>(_, _, bs). bs ! c) ds" if "c \<noteq> b"
  using that by (auto simp: sync_rw_def Let_def split: prod.splits)

lemma idestart_run:
  assumes "unat (b_blockno (bufs s ! b)) < FSSIZE"
  shows "\<exists>t. idestart (Some b) s = Done () t \<and> disks t = disks s \<and> started t b \<and> idequeue t = idequeue s \<and>
    qnext t = qnext s \<and> ide_err t = ide_err s"
  using assms by (auto simp: idestart_def bget_field_def idewait_def kop_simps disks_def started_def Let_def)

lemma submit_step:
  assumes inv: "ide_inv s q" and run: "ide_submit b s = Done () t" and b: "b < length (bufs s)" "b \<notin> set q"
    and blk: "unat (b_blockno (bufs s ! b)) < FSSIZE"
  shows "ide_inv t (q @ [b]) \<and> disks t = disks s"
proof -
  let ?s = "s\<lparr>qnext := (qnext s)(b := None)\<rparr>"
  have l: "linked (qnext s) (idequeue s) q" "distinct q" using inv by (simp_all add: ide_inv_def)
  have l': "linked ((qnext s)(b := None)) (idequeue s) q" using l(1) b(2) by (subst linked_cong [of _ _ "qnext s"]) auto
  show ?thesis
  proof (cases q)
    case Nil
    then have e: "idequeue s = None" using l(1) by simp
    obtain u where u: "idestart (Some b) (s\<lparr>qnext := (qnext s)(b := None), idequeue := Some b\<rparr>) = Done () u"
      "disks u = disks (s\<lparr>qnext := (qnext s)(b := None), idequeue := Some b\<rparr>)" "started u b" "idequeue u = Some b"
      "qnext u = (qnext s)(b := None)" "ide_err u = ide_err s"
      using idestart_run [of "s\<lparr>qnext := (qnext s)(b := None), idequeue := Some b\<rparr>" b] blk by auto
    have "t = u" using run e u(1)
      by (simp add: ide_submit_def ide_append_def buf_lock_def bget_field_def kop_simps split: if_splits)
    then show ?thesis using u inv b blk Nil by (simp add: ide_inv_def disks_def)
  next
    case (Cons h q')
    then have e: "idequeue s = Some h" using l(1) by simp
    have tl: "ide_tail ((qnext s)(b := None)) h = Some (last q)" using l' e ide_tail_linked by metis
    have t: "t = s\<lparr>qnext := (qnext s)(b := None, last q := Some b)\<rparr>"
      using run e tl b(2) Cons
      by (simp add: ide_submit_def ide_append_def buf_lock_def bget_field_def kop_simps split: if_splits)
    have "linked (qnext t) (idequeue t) (q @ [b])" using linked_append [OF l(1) _ l(2) b(2)] Cons t by simp
    then show ?thesis using inv b blk Cons by (simp add: ide_inv_def t disks_def started_def)
  qed
qed

lemma ide_more:
  fixes s t :: "'a ide_state_scheme"
  assumes "proc_state.more s = proc_state.more t"
  shows "memdisk s = memdisk t" "bufs s = bufs t" "idequeue s = idequeue t" "qnext s = qnext t" "disk0 s = disk0 t"
    "regs s = regs t" "sent s = sent t" "ide_busy s = ide_busy t" "ide_err s = ide_err t"
  using assms by (cases s, cases t, simp)+

text \<open>The part of the interrupt handler before it wakes the waiting process up.\<close>

definition intr_done :: "nat \<Rightarrow> 'a ide_state_scheme \<Rightarrow> 'a ide_state_scheme" where
  "intr_done b s =
     (let s1 = s\<lparr>idequeue := qnext s b\<rparr>;
          s2 = (if b_dirty (bufs s ! b) then s1 else upd_buf b (\<lambda>bp. bp\<lparr>b_data := drive_read s\<rparr>) s1)
      in upd_buf b completed s2)"

lemma ideintr_eval:
  assumes "idequeue s = Some b" "\<not> ide_err s" "b < length (bufs s)"
  shows "ideintr s = kseq (wakeup (ChBuf b)) (kbind (kget idequeue) (\<lambda>r. kwhen (r \<noteq> None) (idestart r))) (intr_done b s)"
proof -
  have "drive_read (s\<lparr>idequeue := x\<rparr>) = drive_read s" for x by (simp add: drive_read_def)
  then show ?thesis using assms
    by (simp add: ideintr_def intr_done_def bget_field_def idewait_def kop_simps Let_def upd_buf_def completed_def)
qed

lemma drive_finish_started:
  assumes "started s b" "unat (b_blockno (bufs s ! b)) < FSSIZE" "b < length (bufs s)"
  shows "disks (intr_done b (drive_finish s)) = sync_rw b (disks s)" "\<not> ide_busy (drive_finish s)"
proof -
  let ?bp = "bufs s ! b"
  have k: "unat (b_blockno ?bp) < 2 ^ 28" using assms(2) by (simp add: FSSIZE_def)
  note lba = lba_roundtrip [OF k]
  have r: "ide_busy s" "regs s = request_regs (b_dev ?bp) (b_blockno ?bp) (if b_dirty ?bp then IDE_CMD_WRITE else IDE_CMD_READ)"
    "b_dirty ?bp \<longrightarrow> sent s = b_data ?bp" using assms(1) by (simp_all add: started_def Let_def)
  have c: "r_command (regs s) = IDE_CMD_WRITE \<longleftrightarrow> b_dirty ?bp"
    using r(2) by (simp add: request_regs_def IDE_CMD_READ_def IDE_CMD_WRITE_def)
  have d: "drive_lba (regs s) = unat (b_blockno ?bp)" "drive_second (regs s) \<longleftrightarrow> bit (b_dev ?bp) 0"
    using lba r(2) by simp_all
  show "\<not> ide_busy (drive_finish s)" by (simp add: drive_finish_def Let_def)
  show "disks (intr_done b (drive_finish s)) = sync_rw b (disks s)"
    using r(1,3) c d assms(3)
    by (cases "b_dirty ?bp"; cases "bit (b_dev ?bp) 0")
       (simp_all add: drive_finish_def intr_done_def disks_def sync_rw_def drive_read_def upd_buf_def Let_def)
qed

lemma intr_step:
  assumes inv: "ide_inv s q" and run: "ideintr (drive_finish s) = Done () t"
  shows "ide_inv t (tl q) \<and> disks t = (if q = [] then disks s else sync_rw (hd q) (disks s))"
proof (cases q)
  case Nil
  then have "idequeue s = None" "\<not> ide_busy s" "\<not> ide_err s" using inv by (simp_all add: ide_inv_def)
  then have "t = s\<lparr>ide_busy := False\<rparr>" using run by (simp add: ideintr_def drive_finish_def Let_def kop_simps)
  then show ?thesis using inv Nil by (simp add: ide_inv_def disks_def)
next
  case (Cons b q')
  let ?f = "drive_finish s" and ?g = "intr_done b (drive_finish s)"
  have i: "linked (qnext s) (qnext s b) q'" "idequeue s = Some b" "\<not> ide_err s" "b < length (bufs s)" "started s b"
    "unat (b_blockno (bufs s ! b)) < FSSIZE" "distinct (b # q')"
    "\<forall>c \<in> set q'. c < length (bufs s) \<and> unat (b_blockno (bufs s ! c)) < FSSIZE"
    using inv Cons by (simp_all add: ide_inv_def)
  have f: "idequeue ?f = Some b" "\<not> ide_err ?f" "bufs ?f = bufs s" "qnext ?f = qnext s"
    using i(2,3) by (simp_all add: drive_finish_def Let_def)
  have g: "idequeue ?g = qnext s b" "qnext ?g = qnext s" "\<not> ide_err ?g" "length (bufs ?g) = length (bufs s)"
    "\<not> ide_busy ?g" "\<And>c. c \<noteq> b \<Longrightarrow> bufs ?g ! c = bufs s ! c"
    using f drive_finish_started(2) [OF i(5,6,4)] by (simp_all add: intr_done_def upd_buf_def Let_def)
  have d: "disks ?g = sync_rw b (disks s)" using drive_finish_started(1) [OF i(5,6,4)] .
  obtain v where v: "wakeup (ChBuf b) ?g = Done () v" "kbind (kget idequeue) (\<lambda>r. kwhen (r \<noteq> None) (idestart r)) v = Done () t"
    using run ideintr_eval [OF f(1,2)] f(3) i(4) by (auto simp: kop_simps split: outcome.splits)
  have "proc_state.more v = proc_state.more ?g" using keepsD [OF enq_frame(3) v(1)] .
  note m = ide_more [OF this]
  have dv: "disks v = disks ?g" using m by (simp add: disks_def)
  show ?thesis
  proof (cases q')
    case Nil
    then have "idequeue v = None" using i(1) g(1) m by simp
    then have "t = v" using v(2) by (simp add: kop_simps)
    then show ?thesis using Cons Nil m g d dv by (simp add: ide_inv_def \<open>idequeue v = None\<close>)
  next
    case (Cons c q'')
    then have q: "idequeue v = Some c" using i(1) g(1) m by simp
    have c: "c \<noteq> b" "unat (b_blockno (bufs v ! c)) < FSSIZE" using i(7,8) Cons g(6) [of c] m by auto
    from idestart_run [OF c(2)] obtain u where u: "idestart (Some c) v = Done () u" "disks u = disks v" "started u c"
      "idequeue u = idequeue v" "qnext u = qnext v" "ide_err u = ide_err v" by blast
    then have "t = u" using v(2) q by (simp add: kop_simps)
    have bu: "bufs u = bufs ?g" using u(2) dv by (simp add: disks_def)
    have "linked (qnext u) (idequeue u) q'" using i(1) u g m by simp
    moreover have "\<forall>x \<in> set q'. x < length (bufs u) \<and> unat (b_blockno (bufs u ! x)) < FSSIZE"
    proof
      fix x assume x: "x \<in> set q'"
      then have "x \<noteq> b" using i(7) by auto
      with x i(8) g(4,6) bu show "x < length (bufs u) \<and> unat (b_blockno (bufs u ! x)) < FSSIZE" by simp
    qed
    ultimately have "ide_inv u q'" using u i(7) g m Cons by (simp add: ide_inv_def)
    then show ?thesis using \<open>q = b # q'\<close> \<open>t = u\<close> u(2) dv d by simp
  qed
qed

text \<open>
  Any interleaving of requests and interrupts: the requests submitted so far, in order. The
  process that submits a buffer holds its lock, so the buffer is not waiting already.
\<close>

inductive ide_run :: "'a ide_state_scheme \<Rightarrow> nat list \<Rightarrow> 'a ide_state_scheme \<Rightarrow> bool" for s where
  start: "ide_run s [] s"
| submit: "ide_run s bs t \<Longrightarrow> ide_submit b t = Done () u \<Longrightarrow> (\<And>q. linked (qnext t) (idequeue t) q \<Longrightarrow> b \<notin> set q) \<Longrightarrow>
           ide_run s (bs @ [b]) u"
| interrupt: "ide_run s bs t \<Longrightarrow> ideintr (drive_finish t) = Done () u \<Longrightarrow> ide_run s bs u"

lemma sync_rw_same:
  "length (snd (snd (sync_rw b ds))) = length (snd (snd ds))"
  "b_blockno (snd (snd (sync_rw b ds)) ! c) = b_blockno (snd (snd ds) ! c)"
proof -
  obtain d1 d0 bs where ds: "ds = (d1, d0, bs)" by (cases ds)
  show "length (snd (snd (sync_rw b ds))) = length (snd (snd ds))" by (simp add: ds sync_rw_def Let_def)
  have "b_blockno (bs[b := bp] ! c) = b_blockno (bs ! c)" if "b_blockno bp = b_blockno (bs ! b)" for bp
    using that by (cases "c = b"; cases "b < length bs") (simp_all add: list_update_beyond)
  then show "b_blockno (snd (snd (sync_rw b ds)) ! c) = b_blockno (snd (snd ds) ! c)"
    by (simp add: ds sync_rw_def Let_def completed_def)
qed

lemma exI2: "P a b \<Longrightarrow> \<exists>x y. P x y"
  by blast

lemma ide_run_inv:
  assumes "ide_run s bs t" "ide_inv s []" "\<forall>b \<in> set bs. b < length (bufs s) \<and> unat (b_blockno (bufs s ! b)) < FSSIZE"
  shows "\<exists>done q. bs = done @ q \<and> ide_inv t q \<and> disks t = fold sync_rw done (disks s) \<and>
    length (bufs t) = length (bufs s) \<and> (\<forall>c. b_blockno (bufs t ! c) = b_blockno (bufs s ! c))"
  using assms
proof (induction rule: ide_run.induct)
  case start
  then show ?case by simp
next
  case (submit bs t b u)
  then obtain dn q where q: "bs = dn @ q" "ide_inv t q" "disks t = fold sync_rw dn (disks s)"
    "length (bufs t) = length (bufs s)" "\<forall>c. b_blockno (bufs t ! c) = b_blockno (bufs s ! c)" by auto
  have "ide_inv u (q @ [b]) \<and> disks u = disks t"
    using submit.prems q submit.hyps(3) [of q]
    by (intro submit_step [OF q(2) submit.hyps(2)]) (auto simp: ide_inv_def)
  then show ?case using q by (intro exI2 [of _ dn "q @ [b]"]) (simp add: disks_def)
next
  case (interrupt bs t u)
  then obtain dn q where q: "bs = dn @ q" "ide_inv t q" "disks t = fold sync_rw dn (disks s)"
    "length (bufs t) = length (bufs s)" "\<forall>c. b_blockno (bufs t ! c) = b_blockno (bufs s ! c)" by auto
  from intr_step [OF q(2) interrupt.hyps(2)]
  have u: "ide_inv u (tl q)" "disks u = (if q = [] then disks t else sync_rw (hd q) (disks t))" by simp_all
  show ?case
  proof (cases q)
    case Nil
    then have "bufs u = bufs t" using u(2) by (simp add: disks_def)
    then show ?thesis using q u Nil by (intro exI2 [of _ dn "[]"]) simp
  next
    case (Cons b q')
    have "snd (snd (disks u)) = snd (snd (sync_rw b (disks t)))" using u(2) Cons by simp
    then have "length (bufs u) = length (bufs t)" "\<forall>c. b_blockno (bufs u ! c) = b_blockno (bufs t ! c)"
      using sync_rw_same [of b "disks t"] by (simp_all add: disks_def)
    then show ?thesis using q u Cons by (intro exI [of _ "dn @ [b]"] exI [of _ q']) simp
  qed
qed

text \<open>\<open>sync_rw\<close> is what the driver of \<^verbatim>\<open>memide.c\<close> does to a buffer of the file system's disk.\<close>

lemma memide_sync:
  assumes "iderw b s = Done () t" "b < length (bufs s)"
  shows "disks t = sync_rw b (disks s)"
proof -
  have d: "b_dev (bufs s ! b) = 1" using assms by (auto simp: iderw_def buf_lock_def bget_field_def kop_simps split: if_splits)
  then have bit: "bit (b_dev (bufs s ! b)) 0" by simp
  have fl: "b_flags bp AND NOT B_DIRTY OR B_VALID = (b_flags bp OR B_VALID) AND NOT B_DIRTY" for bp :: buf
    by (rule bit_word_eqI) (auto simp: bit_simps B_VALID_def B_DIRTY_def)
  show ?thesis
  proof (cases "b_dirty (bufs s ! b)")
    case True
    then show ?thesis using assms bit fl
      by (auto simp: iderw_def buf_lock_def bget_field_def kop_simps disks_def sync_rw_def Let_def completed_def
          upd_buf_def split: if_splits)
  next
    case False
    then have "b_flags (bufs s ! b) AND B_DIRTY = 0" by simp
    then have "\<not> (bit (b_flags (bufs s ! b)) n \<and> bit B_DIRTY n)" for n
      by (metis bit_and_iff bit_0_eq bot_apply bot_bool_def)
    then have "b_flags (bufs s ! b) AND NOT B_DIRTY = b_flags (bufs s ! b)"
      by (intro bit_word_eqI) (auto simp: bit_simps)
    moreover have "B_VALID AND NOT B_DIRTY = B_VALID" by (simp add: B_VALID_def B_DIRTY_def)
    ultimately have "(b_flags (bufs s ! b) OR B_VALID) AND NOT B_DIRTY = b_flags (bufs s ! b) OR B_VALID"
      by (simp only: bit.conj_disj_distrib2)
    then show ?thesis using assms bit False
      by (auto simp: iderw_def buf_lock_def bget_field_def kop_simps disks_def sync_rw_def Let_def completed_def
          upd_buf_def split: if_splits)
  qed
qed

text \<open>
  C28 (the disk driver): in every interleaving of requests and interrupts from an idle driver whose
  disk reports no error, the requests are completed in the order they were made; the disks and
  buffers are at every moment as if the completed ones had been carried out one after the other
  by the synchronous driver, and the others wait untouched in the queue, in order. An interrupt
  completes the first of them.
\<close>

theorem ide_fifo:
  assumes "ide_run s bs t" "idequeue s = None" "\<not> ide_busy s" "\<not> ide_err s"
    and "\<forall>b \<in> set bs. b < length (bufs s) \<and> unat (b_blockno (bufs s ! b)) < FSSIZE"
  shows "\<exists>done q. bs = done @ q \<and> linked (qnext t) (idequeue t) q \<and> disks t = fold sync_rw done (disks s) \<and>
    (\<forall>u. q \<noteq> [] \<and> ideintr (drive_finish t) = Done () u \<longrightarrow>
       linked (qnext u) (idequeue u) (tl q) \<and> disks u = sync_rw (hd q) (disks t))"
proof -
  have "ide_inv s []" using assms(2-4) by (simp add: ide_inv_def)
  from ide_run_inv [OF assms(1) this assms(5)] obtain dn q where
    q: "bs = dn @ q" "ide_inv t q" "disks t = fold sync_rw dn (disks s)" by blast
  have "linked (qnext u) (idequeue u) (tl q) \<and> disks u = sync_rw (hd q) (disks t)"
    if "q \<noteq> []" "ideintr (drive_finish t) = Done () u" for u
    using intr_step [OF q(2) that(2)] that(1) by (simp add: ide_inv_def)
  then show ?thesis using q by (intro exI2 [of _ dn q]) (simp add: ide_inv_def)
qed

definition demo_ide :: ide_state where
  "demo_ide = fs_state.extend (demo_state\<lparr>bufs := (bufs demo_state)
       [0 := \<lparr>b_flags = B_DIRTY, b_dev = 1, b_blockno = 5, b_lock = demo_lock\<lparr>lk_locked := 1\<rparr>, b_refcnt = 1, b_data = replicate 512 7\<rparr>,
        1 := \<lparr>b_flags = 0, b_dev = 1, b_blockno = 5, b_lock = demo_lock\<lparr>lk_locked := 1\<rparr>, b_refcnt = 1, b_data = []\<rparr>]\<rparr>)
     \<lparr>idequeue = None, qnext = (\<lambda>_. None), havedisk1 = True, disk0 = (\<lambda>_. []),
      regs = request_regs 0 0 0, sent = [], ide_busy = False, ide_err = False\<rparr>"

theorem ide_fifo_witness:
  "\<exists>t done q. ide_run demo_ide [0, 1] t \<and> [0, 1] = done @ q \<and> linked (qnext t) (idequeue t) q \<and>
     disks t = fold sync_rw done (disks demo_ide)"
proof -
  have l: "length (bufs demo_ide) = 30" by (simp add: demo_ide_def fs_state.defs demo_state_def)
  have b: "bufs demo_ide ! 0 = \<lparr>b_flags = B_DIRTY, b_dev = 1, b_blockno = 5, b_lock = demo_lock\<lparr>lk_locked := 1\<rparr>, b_refcnt = 1, b_data = replicate 512 7\<rparr>"
    "bufs demo_ide ! 1 = \<lparr>b_flags = 0, b_dev = 1, b_blockno = 5, b_lock = demo_lock\<lparr>lk_locked := 1\<rparr>, b_refcnt = 1, b_data = []\<rparr>"
    by (simp_all add: demo_ide_def fs_state.defs demo_state_def)
  have e: "idequeue demo_ide = None" "qnext demo_ide = (\<lambda>_. None)" "havedisk1 demo_ide" "\<not> ide_busy demo_ide" "\<not> ide_err demo_ide"
    by (simp_all add: demo_ide_def fs_state.defs)
  have f: "(B_DIRTY AND (B_VALID OR B_DIRTY)) \<noteq> B_VALID" "(0 AND (B_VALID OR B_DIRTY)) \<noteq> B_VALID"
    by (simp_all add: B_DIRTY_def B_VALID_def)
  obtain t1 where t1: "ide_submit 0 demo_ide = Done () t1" "idequeue t1 = Some 0" "qnext t1 = (\<lambda>_. None)" "bufs t1 = bufs demo_ide" "havedisk1 t1"
    using b e f idestart_run [of "demo_ide\<lparr>qnext := \<lambda>_. None, idequeue := Some 0\<rparr>" 0]
    by (auto simp: ide_submit_def ide_append_def buf_lock_def bget_field_def kop_simps FSSIZE_def demo_lock_def idestart_def idewait_def
        fun_upd_idem split: if_splits)
  obtain t2 where t2: "ide_submit 1 t1 = Done () t2"
    using b t1 f by (simp add: ide_submit_def ide_append_def buf_lock_def bget_field_def kop_simps demo_lock_def ide_tail.simps)
  have run: "ide_run demo_ide [0, 1] t2"
  proof -
    have "ide_run demo_ide ([] @ [0]) t1"
      using ide_run.submit [OF ide_run.start t1(1)] e linked_unique [of _ None "[]"] by fastforce
    moreover have "1 \<notin> set q" if "linked (qnext t1) (idequeue t1) q" for q
      using that t1(2,3) by (cases q; cases "tl q") auto
    ultimately show ?thesis using ide_run.submit [OF _ t2, of demo_ide "[0]"] by simp
  qed
  have "\<forall>b \<in> set [0, 1]. b < length (bufs demo_ide) \<and> unat (b_blockno (bufs demo_ide ! b)) < FSSIZE"
    using l b by (simp add: FSSIZE_def)
  from ide_fifo [OF run e(1,4,5) this] run show ?thesis by blast
qed

end
