(* ===== verification/Boot.thy ===== *)
theory Boot
  imports Ide Exec
begin

unbundle bit_operations_syntax

text \<open>
  The boot loader \<^verbatim>\<open>bootmain.c\<close>: it reads the headers of the kernel from the disk, loads every segment at
  its physical address and calls the entry point. The first disk of the channel is \<open>disk\<close>, its status
  register at the \<open>n\<close>-th time it is read is \<open>status n\<close>; both belong to the machine. The state is
  the number of status reads so far and the memory.
\<close>

section \<open>The program\<close>

definition SECTSIZE :: u32 where "SECTSIZE = 512"

type_synonym boot_state = "nat \<times> memory"

partial_function (option) waitdisk :: "(nat \<Rightarrow> byte) \<Rightarrow> nat \<Rightarrow> nat option" where
  "waitdisk status n = (if status n AND 0xC0 \<noteq> 0x40 then waitdisk status (n + 1) else Some (n + 1))"

definition boot_regs :: "u32 \<Rightarrow> ide_regs" where
  "boot_regs offset = \<lparr>r_count = 1, r_lo = ucast offset, r_mid = ucast (drop_bit 8 offset), r_hi = ucast (drop_bit 16 offset),
     r_head = ucast (drop_bit 24 offset OR 0xE0), r_command = 0x20\<rparr>"

definition readsect ::
    "(nat \<Rightarrow> byte) \<Rightarrow> (nat \<Rightarrow> byte list) \<Rightarrow> addr \<Rightarrow> u32 \<Rightarrow> boot_state \<Rightarrow> boot_state option" where
  "readsect status disk dst offset s =
     (case waitdisk status (fst s) of
        None \<Rightarrow> None
      | Some n \<Rightarrow>
          (let r = boot_regs offset in
           case waitdisk status n of
             None \<Rightarrow> None
           | Some n' \<Rightarrow> Some (n', mem_write (snd s) dst (take 512 (disk (drive_lba r))))))"

partial_function (option) readseg_loop ::
    "(nat \<Rightarrow> byte) \<Rightarrow> (nat \<Rightarrow> byte list) \<Rightarrow> addr \<Rightarrow> addr \<Rightarrow> u32 \<Rightarrow> boot_state \<Rightarrow> boot_state option" where
  "readseg_loop status disk pa epa offset s =
     (if pa < epa then
        (case readsect status disk pa offset s of
           None \<Rightarrow> None
         | Some s \<Rightarrow> readseg_loop status disk (pa + SECTSIZE) epa (offset + 1) s)
      else Some s)"

definition readseg ::
    "(nat \<Rightarrow> byte) \<Rightarrow> (nat \<Rightarrow> byte list) \<Rightarrow> addr \<Rightarrow> u32 \<Rightarrow> u32 \<Rightarrow> boot_state \<Rightarrow> boot_state option" where
  "readseg status disk pa count offset s =
     (let epa = pa + count;
          pa = pa - offset mod SECTSIZE;
          offset = offset div SECTSIZE + 1
      in readseg_loop status disk pa epa offset s)"

definition boot_elf :: addr where "boot_elf = 0x10000"

text \<open>The headers are read from memory, the program headers again in every round; a round moves \<open>ph\<close> by one header, so their number bounds the rounds.\<close>

definition read_ph :: "memory \<Rightarrow> addr \<Rightarrow> proghdr" where
  "read_ph m p = decode_ph (mem_read m p 32)"

primrec load_segments ::
    "nat \<Rightarrow> (nat \<Rightarrow> byte) \<Rightarrow> (nat \<Rightarrow> byte list) \<Rightarrow> addr \<Rightarrow> addr \<Rightarrow> boot_state \<Rightarrow> boot_state option" where
  "load_segments 0 status disk ph eph s = Some s"
| "load_segments (Suc k) status disk ph eph s =
     (if \<not> ph < eph then Some s
      else let pa = ph_paddr (read_ph (snd s) ph) in
        case readseg status disk pa (ph_filesz (read_ph (snd s) ph)) (ph_off (read_ph (snd s) ph)) s of
          None \<Rightarrow> None
        | Some (n, m) \<Rightarrow>
            (let h = read_ph m ph;
                 m' = (if ph_memsz h > ph_filesz h
                       then stosb (unat (ph_memsz h - ph_filesz h)) (pa + ph_filesz h) 0 m else m)
             in load_segments k status disk (ph + 32) eph (n, m')))"

text \<open>The result: the address that is called, and none when the image is not an ELF file.\<close>

definition bootmain :: "(nat \<Rightarrow> byte) \<Rightarrow> (nat \<Rightarrow> byte list) \<Rightarrow> memory \<Rightarrow> (addr option \<times> memory) option" where
  "bootmain status disk m =
     (case readseg status disk boot_elf 4096 0 (0, m) of
        None \<Rightarrow> None
      | Some (n, m) \<Rightarrow>
          (let elf = decode_elf (mem_read m boot_elf 52) in
           if elf_magic elf \<noteq> ELF_MAGIC then Some (None, m)
           else
             (case load_segments (unat (elf_phnum elf)) status disk (boot_elf + elf_phoff elf)
                     (boot_elf + elf_phoff elf + 32 * ucast (elf_phnum elf)) (n, m) of
                None \<Rightarrow> None
              | Some (n, m) \<Rightarrow> Some (Some (elf_entry (decode_elf (mem_read m boot_elf 52))), m))))"

section \<open>Reading sectors\<close>

definition ready :: "(nat \<Rightarrow> byte) \<Rightarrow> bool" where
  "ready status \<longleftrightarrow> (\<forall>n. \<exists>k \<ge> n. status k AND 0xC0 = 0x40)"

text \<open>The bytes of the kernel image, which starts at the second sector.\<close>

definition kbyte :: "(nat \<Rightarrow> byte list) \<Rightarrow> nat \<Rightarrow> byte" where
  "kbyte disk n = disk (n div 512 + 1) ! (n mod 512)"

definition kbytes :: "(nat \<Rightarrow> byte list) \<Rightarrow> nat \<Rightarrow> nat \<Rightarrow> byte list" where
  "kbytes disk off n = map (\<lambda>i. kbyte disk (off + i)) [0..<n]"

lemma waitdisk_ends:
  assumes "ready status"
  shows "\<exists>n'. waitdisk status n = Some n'"
proof -
  obtain k where "n \<le> k" "status k AND 0xC0 = 0x40" using assms by (auto simp: ready_def)
  then show ?thesis
  proof (induction "k - n" arbitrary: n)
    case 0
    then show ?case by (subst waitdisk.simps) simp
  next
    case (Suc d)
    show ?case
    proof (cases "status n AND 0xC0 = 0x40")
      case False
      have "\<exists>n'. waitdisk status (n + 1) = Some n'"
        using Suc.hyps(2) Suc.prems by (intro Suc.hyps(1)) auto
      then show ?thesis using False by (subst waitdisk.simps) simp
    qed (subst waitdisk.simps, simp)
  qed
qed

lemma boot_regs_eq:
  assumes "unat offset < 2 ^ 28"
  shows "drive_lba (boot_regs offset) = unat offset"
proof -
  have m: "(0xFF :: u32) = mask 8" "(0x0F :: u32) = mask 4" "(0x0F :: byte) = mask 4" by (simp_all add: mask_eq_exp_minus_1)
  have r: "drive_lba (boot_regs offset) = drive_lba (request_regs 0 offset 0x20)"
    unfolding drive_lba_def boot_regs_def request_regs_def ide_regs.simps m
    by (intro arg_cong [where f = unat] arg_cong2 [where f = "(OR)"] arg_cong [where f = "push_bit _"])
       (simp_all add: bit_eq_iff bit_simps; fastforce)+
  show ?thesis unfolding r by (rule lba_roundtrip(1) [OF assms])
qed

lemma readsect_run:
  assumes "ready status" "unat sec < 2 ^ 28" "length (disk (unat sec)) = 512"
  shows "\<exists>n'. readsect status disk dst sec (n, m) = Some (n', mem_write m dst (disk (unat sec)))"
proof -
  obtain n1 where "waitdisk status n = Some n1" using waitdisk_ends [OF assms(1)] by blast
  moreover obtain n2 where "waitdisk status n1 = Some n2" using waitdisk_ends [OF assms(1)] by blast
  ultimately show ?thesis using assms(2,3) by (simp add: readsect_def boot_regs_eq)
qed

lemma unat_sub: "unat b \<le> unat a \<Longrightarrow> unat (a - b :: u32) = unat a - unat b"
  by (simp add: unat_sub_if' word_le_nat_alt)

lemma mem_write_at:
  assumes "unat a + length bs \<le> 2 ^ 32"
  shows "mem_write m a bs x = (if unat a \<le> unat x \<and> unat x < unat a + length bs then bs ! (unat x - unat a) else m x)"
proof (cases "unat a \<le> unat x")
  case True
  then show ?thesis by (auto simp: mem_write_def unat_sub Let_def)
next
  case False
  then have "unat (x - a) = unat x + 2 ^ 32 - unat a" by (simp add: unat_sub_if' word_le_nat_alt)
  then show ?thesis using False assms by (auto simp: mem_write_def Let_def)
qed

text \<open>The loop reads the bytes up to the end, and at most one sector more.\<close>

lemma readseg_loop_run:
  assumes rd: "ready status" and len: "\<And>k. length (disk k) = 512"
    and "unat epa + 512 \<le> 2 ^ 32" "unat sec + (unat epa - unat pa + 511) div 512 < 2 ^ 28"
  shows "\<exists>n' m'. readseg_loop status disk pa epa sec (n, m) = Some (n', m') \<and>
    (\<forall>x. unat pa \<le> unat x \<and> unat x < unat epa \<longrightarrow> m' x = disk (unat sec + (unat x - unat pa) div 512) ! ((unat x - unat pa) mod 512)) \<and>
    (\<forall>x. unat x < unat pa \<or> unat epa + 512 \<le> unat x \<longrightarrow> m' x = m x)"
  using assms(3,4)
proof (induction "unat epa - unat pa" arbitrary: pa sec n m rule: less_induct)
  case less
  show ?case
  proof (cases "pa < epa")
    case False
    then show ?thesis by (subst readseg_loop.simps) (auto simp: word_less_nat_alt)
  next
    case True
    then have lt: "unat pa < unat epa" by (simp add: word_less_nat_alt)
    let ?m = "mem_write m pa (disk (unat sec))"
    obtain n1 where n1: "readsect status disk pa sec (n, m) = Some (n1, ?m)"
      using readsect_run [OF rd add_lessD1 [OF less.prems(2)], where disk = disk] len by blast
    have p: "unat (pa + SECTSIZE) = unat pa + 512" using lt less.prems(1) by (simp add: SECTSIZE_def unat_word_ariths)
    have s: "unat (sec + 1) = unat sec + 1" using add_lessD1 [OF less.prems(2)] by (simp add: unat_word_ariths)
    have at: "?m x = (if unat pa \<le> unat x \<and> unat x < unat pa + 512 then disk (unat sec) ! (unat x - unat pa) else m x)" for x
      using mem_write_at [of pa "disk (unat sec)" m x] len lt less.prems(1) by simp
    have "(unat epa - unat pa + 511) div 512 = Suc ((unat epa - unat (pa + SECTSIZE) + 511) div 512)"
      using lt by (cases "unat epa - unat pa < 512") (simp_all add: p le_div_geq)
    then have "unat (sec + 1) + (unat epa - unat (pa + SECTSIZE) + 511) div 512 < 2 ^ 28" using less.prems(2) s by simp
    moreover have "unat epa - unat (pa + SECTSIZE) < unat epa - unat pa" using lt p by simp
    ultimately obtain n' m' where r: "readseg_loop status disk (pa + SECTSIZE) epa (sec + 1) (n1, ?m) = Some (n', m')"
      and i: "\<And>x. unat pa + 512 \<le> unat x \<and> unat x < unat epa \<Longrightarrow>
          m' x = disk (unat sec + 1 + (unat x - (unat pa + 512)) div 512) ! ((unat x - (unat pa + 512)) mod 512)"
      and o: "\<And>x. unat x < unat pa + 512 \<or> unat epa + 512 \<le> unat x \<Longrightarrow> m' x = ?m x"
      using less.hyps [of "pa + SECTSIZE" "sec + 1" n1 ?m] less.prems(1) unfolding p s by blast
    have "m' x = disk (unat sec + (unat x - unat pa) div 512) ! ((unat x - unat pa) mod 512)"
      if x: "unat pa \<le> unat x" "unat x < unat epa" for x
    proof (cases "unat x < unat pa + 512")
      case True
      then show ?thesis using o [of x] at [of x] x by simp
    next
      case False
      then have "(unat x - unat pa) div 512 = Suc ((unat x - (unat pa + 512)) div 512)"
        "(unat x - unat pa) mod 512 = (unat x - (unat pa + 512)) mod 512"
        by (simp_all add: le_div_geq le_mod_geq)
      then show ?thesis using i [of x] False x by simp
    qed
    moreover have "m' x = m x" if "unat x < unat pa \<or> unat epa + 512 \<le> unat x" for x
      using o [of x] at [of x] that lt by auto
    ultimately show ?thesis using r n1 True by (subst readseg_loop.simps) auto
  qed
qed

lemma readseg_run:
  assumes rd: "ready status" and len: "\<And>k. length (disk k) = 512"
    and lo: "unat off mod 512 \<le> unat pa" and hi: "unat pa + unat count + 512 \<le> 2 ^ 32"
  shows "\<exists>n' m'. readseg status disk pa count off (n, m) = Some (n', m') \<and>
    (\<forall>i < unat count. m' (pa + of_nat i) = kbyte disk (unat off + i)) \<and>
    (\<forall>x. unat x < unat pa - unat off mod 512 \<or> unat pa + unat count + 512 \<le> unat x \<longrightarrow> m' x = m x)"
proof -
  let ?pa = "pa - off mod SECTSIZE" and ?sec = "off div SECTSIZE + 1"
  have mod: "unat (off mod SECTSIZE) = unat off mod 512" by (simp add: SECTSIZE_def unat_mod)
  have p: "unat ?pa = unat pa - unat off mod 512" using lo mod by (simp add: unat_sub)
  have e: "unat (pa + count) = unat pa + unat count" using hi by (simp add: unat_word_ariths)
  have dv: "unat (off div SECTSIZE) = unat off div 512" by (simp add: SECTSIZE_def unat_div)
  have small: "unat w < 2 ^ 32" for w :: u32
  proof -
    have "unat w < 2 ^ LENGTH(32)" by (rule unsigned_less)
    then show ?thesis by simp
  qed
  have sm: "unat off div 512 < 2 ^ 23" using small [of off] by (simp add: less_mult_imp_div_less)
  then have s: "unat ?sec = unat off div 512 + 1" using dv by (simp add: unat_word_ariths)
  have "(unat (pa + count) - unat ?pa + 511) div 512 < 2 ^ 24"
    using small [of "pa + count"] by (simp add: less_mult_imp_div_less)
  then have "unat ?sec + (unat (pa + count) - unat ?pa + 511) div 512 < 2 ^ 28" using sm s by simp
  moreover have "unat (pa + count) + 512 \<le> 2 ^ 32" using e hi by simp
  ultimately obtain n' m' where r: "readseg_loop status disk ?pa (pa + count) ?sec (n, m) = Some (n', m')"
    and i: "\<And>x. unat ?pa \<le> unat x \<and> unat x < unat (pa + count) \<Longrightarrow>
        m' x = disk (unat ?sec + (unat x - unat ?pa) div 512) ! ((unat x - unat ?pa) mod 512)"
    and o: "\<And>x. unat x < unat ?pa \<or> unat (pa + count) + 512 \<le> unat x \<Longrightarrow> m' x = m x"
    using readseg_loop_run [OF rd, of disk "pa + count" ?sec ?pa n m] len by blast
  have "m' (pa + of_nat k) = kbyte disk (unat off + k)" if k: "k < unat count" for k
  proof -
    have u: "unat (pa + of_nat k) = unat pa + k" using k hi by (simp add: unat_word_ariths unat_of_nat)
    have x: "unat pa + k - (unat pa - unat off mod 512) = unat off mod 512 + k" using lo by simp
    have q: "a + k = (a mod 512 + k) + 512 * (a div 512)" for a :: nat by simp
    have "(unat off + k) div 512 = unat off div 512 + (unat off mod 512 + k) div 512"
      by (subst q) (rule div_mult_self2, simp)
    moreover have "(unat off + k) mod 512 = (unat off mod 512 + k) mod 512" by (simp add: mod_add_left_eq)
    moreover have "unat pa - unat off mod 512 \<le> unat pa + k" by (rule le_trans [of _ "unat pa"]) simp_all
    ultimately show ?thesis using i [of "pa + of_nat k"] k u p e s x by (simp add: kbyte_def)
  qed
  then show ?thesis using r o p e by (auto simp: readseg_def)
qed

section \<open>Loading the kernel\<close>

definition khdr :: "(nat \<Rightarrow> byte list) \<Rightarrow> elfhdr" where
  "khdr disk = decode_elf (kbytes disk 0 52)"

definition kph :: "(nat \<Rightarrow> byte list) \<Rightarrow> nat \<Rightarrow> proghdr" where
  "kph disk k = decode_ph (kbytes disk (unat (elf_phoff (khdr disk)) + 32 * k) 32)"

text \<open>
  The layout the loader relies on: headers in the first page of the image, segments above the
  scratch page, in increasing order, a segment far enough above the one before that reading from
  the start of its first sector does no harm.
\<close>

definition seg_fits :: "proghdr \<Rightarrow> bool" where
  "seg_fits h \<longleftrightarrow> 0x11000 + unat (ph_off h) mod 512 \<le> unat (ph_paddr h) \<and> ph_filesz h \<le> ph_memsz h \<and>
     unat (ph_paddr h) + unat (ph_memsz h) + 512 \<le> 2 ^ 32"

definition bootable :: "(nat \<Rightarrow> byte list) \<Rightarrow> bool" where
  "bootable disk \<longleftrightarrow> (\<forall>k. length (disk k) = 512) \<and> elf_magic (khdr disk) = ELF_MAGIC \<and>
     unat (elf_phoff (khdr disk)) + 32 * unat (elf_phnum (khdr disk)) \<le> 4096 \<and>
     (\<forall>k < unat (elf_phnum (khdr disk)). seg_fits (kph disk k) \<and>
        (\<forall>j < k. unat (ph_paddr (kph disk j)) + unat (ph_memsz (kph disk j)) + unat (ph_off (kph disk k)) mod 512
                 \<le> unat (ph_paddr (kph disk k))))"

definition seg_loaded :: "(nat \<Rightarrow> byte list) \<Rightarrow> memory \<Rightarrow> proghdr \<Rightarrow> bool" where
  "seg_loaded disk m h \<longleftrightarrow> (\<forall>i < unat (ph_memsz h). m (ph_paddr h + of_nat i) =
     (if i < unat (ph_filesz h) then kbyte disk (unat (ph_off h) + i) else 0))"

definition headers_in :: "(nat \<Rightarrow> byte list) \<Rightarrow> memory \<Rightarrow> bool" where
  "headers_in disk m \<longleftrightarrow> (\<forall>i < 4096. m (boot_elf + of_nat i) = kbyte disk i)"

lemma headers_read:
  assumes "headers_in disk m" "off + n \<le> 4096" "a = boot_elf + of_nat off"
  shows "mem_read m a n = kbytes disk off n"
  using assms by (auto simp: headers_in_def mem_read_def kbytes_def add.assoc simp flip: of_nat_add)

lemma below_headers:
  assumes "\<And>x. unat x < 0x11000 \<Longrightarrow> m' x = m x" "headers_in disk m"
  shows "headers_in disk m'"
  unfolding headers_in_def
proof (intro allI impI)
  fix i :: nat assume i: "i < 4096"
  then have "unat (boot_elf + of_nat i) < 0x11000" by (simp add: boot_elf_def unat_word_ariths unat_of_nat)
  then show "m' (boot_elf + of_nat i) = kbyte disk i" using assms i by (simp add: headers_in_def)
qed

lemma seg_frame:
  assumes "\<And>x. unat x < lim \<Longrightarrow> m' x = m x" "seg_loaded disk m h" "seg_fits h" "unat (ph_paddr h) + unat (ph_memsz h) \<le> lim"
  shows "seg_loaded disk m' h"
  unfolding seg_loaded_def
proof (intro allI impI)
  fix i assume i: "i < unat (ph_memsz h)"
  then have "unat (ph_paddr h + of_nat i) < lim" using assms(3,4) by (simp add: seg_fits_def unat_word_ariths unat_of_nat)
  then show "m' (ph_paddr h + of_nat i) = (if i < unat (ph_filesz h) then kbyte disk (unat (ph_off h) + i) else 0)"
    using assms(1,2) i by (simp add: seg_loaded_def)
qed

text \<open>One round of the loop.\<close>

lemma load_segment:
  assumes rd: "ready status" and len: "\<And>k. length (disk k) = 512" and h: "seg_fits h" and hd: "headers_in disk m"
  shows "\<exists>n' m1. readseg status disk (ph_paddr h) (ph_filesz h) (ph_off h) (n, m) = Some (n', m1) \<and> headers_in disk m1 \<and>
    (let m' = (if ph_memsz h > ph_filesz h
               then stosb (unat (ph_memsz h - ph_filesz h)) (ph_paddr h + ph_filesz h) 0 m1 else m1)
     in seg_loaded disk m' h \<and> headers_in disk m' \<and> (\<forall>x. unat x < unat (ph_paddr h) - unat (ph_off h) mod 512 \<longrightarrow> m' x = m x))"
proof -
  let ?pa = "ph_paddr h" and ?fs = "ph_filesz h" and ?ms = "ph_memsz h"
  let ?lo = "unat ?pa - unat (ph_off h) mod 512"
  have f: "0x11000 \<le> ?lo" "unat ?fs \<le> unat ?ms" "unat ?pa + unat ?ms + 512 \<le> 2 ^ 32" "unat (ph_off h) mod 512 \<le> unat ?pa"
    using h by (auto simp: seg_fits_def word_le_nat_alt)
  obtain n' m1 where r: "readseg status disk ?pa ?fs (ph_off h) (n, m) = Some (n', m1)"
    and b: "\<And>i. i < unat ?fs \<Longrightarrow> m1 (?pa + of_nat i) = kbyte disk (unat (ph_off h) + i)"
    and o: "\<And>x. unat x < ?lo \<Longrightarrow> m1 x = m x"
    using readseg_run [OF rd, of disk "ph_off h" ?pa ?fs n m] len f by auto
  define m' where "m' = (if ?ms > ?fs then stosb (unat (?ms - ?fs)) (?pa + ?fs) 0 m1 else m1)"
  have u: "unat (?pa + ?fs) = unat ?pa + unat ?fs" "unat (?ms - ?fs) = unat ?ms - unat ?fs"
    using f(2,3) by (simp_all add: unat_word_ariths unat_sub)
  have m': "m' x = (if unat ?pa + unat ?fs \<le> unat x \<and> unat x < unat ?pa + unat ?ms then 0 else m1 x)" for x
  proof (cases "?ms > ?fs")
    case True
    then have "m' x = mem_write m1 (?pa + ?fs) (replicate (unat ?ms - unat ?fs) 0) x"
      using f(3) u by (simp add: m'_def stosb_eq)
    then show ?thesis using f(2,3) u(1) by (subst (asm) mem_write_at) auto
  next
    case False
    then show ?thesis by (auto simp: m'_def word_less_nat_alt)
  qed
  have low: "m' x = m x" if "unat x < ?lo" for x
    using m' [of x] o [OF that] that by auto
  have "seg_loaded disk m' h" unfolding seg_loaded_def
  proof (intro allI impI)
    fix i assume i: "i < unat ?ms"
    then have "unat (?pa + of_nat i) = unat ?pa + i" using f(3) by (simp add: unat_word_ariths unat_of_nat)
    then show "m' (?pa + of_nat i) = (if i < unat ?fs then kbyte disk (unat (ph_off h) + i) else 0)"
      using i b m' [of "?pa + of_nat i"] by simp
  qed
  moreover have "headers_in disk m'" using below_headers [OF _ hd, of m'] low f(1) by simp
  moreover have "headers_in disk m1" using below_headers [OF _ hd, of m1] o f(1) by simp
  ultimately show ?thesis using r low by (auto simp: m'_def [symmetric] Let_def)
qed

lemma load_segments_run:
  assumes rd: "ready status" and bt: "bootable disk" and N: "N = unat (elf_phnum (khdr disk))"
    and "k + r = N" "headers_in disk m" "\<forall>j < k. seg_loaded disk m (kph disk j)"
  shows "\<exists>n' m'. load_segments r status disk (boot_elf + elf_phoff (khdr disk) + 32 * of_nat k)
      (boot_elf + elf_phoff (khdr disk) + 32 * of_nat N) (n, m) = Some (n', m') \<and> headers_in disk m' \<and>
    (\<forall>j < N. seg_loaded disk m' (kph disk j))"
  using assms(4-)
proof (induction r arbitrary: k n m)
  case 0
  then show ?case by simp
next
  case (Suc r)
  let ?o = "elf_phoff (khdr disk)" and ?h = "kph disk k"
  let ?ph = "boot_elf + ?o + 32 * of_nat k" and ?eph = "boot_elf + ?o + 32 * of_nat N"
  have k: "k < N" using Suc.prems(1) by simp
  have len: "\<And>k. length (disk k) = 512" and tab: "unat ?o + 32 * N \<le> 4096" and fit: "\<And>k. k < N \<Longrightarrow> seg_fits (kph disk k)"
    and ord: "\<And>j. j < k \<Longrightarrow> unat (ph_paddr (kph disk j)) + unat (ph_memsz (kph disk j)) \<le> unat (ph_paddr ?h) - unat (ph_off ?h) mod 512"
    using bt k N by (fastforce simp: bootable_def)+
  have a: "boot_elf + ?o + 32 * of_nat i = boot_elf + of_nat (unat ?o + 32 * i)" for i by simp
  have u: "unat (boot_elf + ?o + 32 * of_nat i) = 0x10000 + unat ?o + 32 * i" if "i \<le> N" for i
  proof -
    have w: "unat (of_nat (unat ?o + 32 * i) :: u32) = unat ?o + 32 * i"
      using tab that by (simp only: unat_of_nat) simp
    show ?thesis unfolding a unat_word_ariths w using tab that by (simp add: boot_elf_def)
  qed
  have lt: "?ph < ?eph" using k u [of k] u [of N] by (simp add: word_less_nat_alt)
  have hdr: "read_ph m' ?ph = ?h" if "headers_in disk m'" for m'
  proof -
    have "mem_read m' ?ph 32 = kbytes disk (unat ?o + 32 * k) 32"
      using that tab k a by (intro headers_read) auto
    then show ?thesis by (simp add: read_ph_def kph_def)
  qed
  let ?z = "\<lambda>m1. if ph_memsz ?h > ph_filesz ?h then stosb (unat (ph_memsz ?h - ph_filesz ?h)) (ph_paddr ?h + ph_filesz ?h) 0 m1 else m1"
  obtain n' m1 where s: "readseg status disk (ph_paddr ?h) (ph_filesz ?h) (ph_off ?h) (n, m) = Some (n', m1)" "headers_in disk m1"
      "seg_loaded disk (?z m1) ?h" "headers_in disk (?z m1)" "\<And>x. unat x < unat (ph_paddr ?h) - unat (ph_off ?h) mod 512 \<Longrightarrow> ?z m1 x = m x"
    using load_segment [OF rd _ fit [OF k] Suc.prems(2), where n = n] len unfolding Let_def by blast
  define m' where "m' = ?z m1"
  note s = s(1,2) s(3-5) [folded m'_def]
  have "seg_loaded disk m' (kph disk j)" if "j < Suc k" for j
  proof (cases "j = k")
    case False
    then have j: "j < k" using that by simp
    then have "seg_loaded disk m (kph disk j)" "seg_fits (kph disk j)" using Suc.prems(3) fit k by simp_all
    then show ?thesis using seg_frame [OF s(5) _ _ ord [OF j]] by simp
  qed (use s(3) in simp)
  then have "\<exists>n'' m''. load_segments r status disk (boot_elf + ?o + 32 * of_nat (Suc k)) ?eph (n', m') = Some (n'', m'') \<and>
      headers_in disk m'' \<and> (\<forall>j < N. seg_loaded disk m'' (kph disk j))"
    using Suc.prems(1) s(4) by (intro Suc.IH) simp_all
  moreover have "?ph + 32 = boot_elf + ?o + 32 * of_nat (Suc k)" by (simp add: algebra_simps)
  moreover have "load_segments (Suc r) status disk ?ph ?eph (n, m) = load_segments r status disk (?ph + 32) ?eph (n', m')"
    using lt s(1) hdr [OF Suc.prems(2)] hdr [OF s(2)] by (simp add: Let_def m'_def)
  ultimately show ?case by (simp only:)
qed

text \<open>
  C26 (booting): from a disk that holds a kernel image of the expected layout and that is always ready
  again in the end, the boot loader ends: it calls the entry point of the image, and every segment is
  then in memory at its physical address, its bytes from the file followed by zeros.
\<close>

theorem bootmain_loads:
  assumes "ready status" "bootable disk"
  shows "\<exists>m'. bootmain status disk m = Some (Some (elf_entry (khdr disk)), m') \<and>
    (\<forall>k < unat (elf_phnum (khdr disk)). mem_read m' (ph_paddr (kph disk k)) (unat (ph_memsz (kph disk k))) =
       kbytes disk (unat (ph_off (kph disk k))) (unat (ph_filesz (kph disk k))) @
       replicate (unat (ph_memsz (kph disk k)) - unat (ph_filesz (kph disk k))) 0)"
proof -
  have len: "\<And>k. length (disk k) = 512" and mg: "elf_magic (khdr disk) = ELF_MAGIC" using assms(2) by (simp_all add: bootable_def)
  obtain n1 m1 where r: "readseg status disk boot_elf 4096 0 (0, m) = Some (n1, m1)" and h: "headers_in disk m1"
    using readseg_run [OF assms(1), of disk 0 boot_elf 4096 0 m] len by (auto simp: boot_elf_def headers_in_def)
  have e: "decode_elf (mem_read m' boot_elf 52) = khdr disk" if "headers_in disk m'" for m'
    using headers_read [OF that, of 0 52 boot_elf] by (simp add: khdr_def)
  obtain n2 m2 where l: "load_segments (unat (elf_phnum (khdr disk))) status disk (boot_elf + elf_phoff (khdr disk))
      (boot_elf + elf_phoff (khdr disk) + 32 * ucast (elf_phnum (khdr disk))) (n1, m1) = Some (n2, m2)" "headers_in disk m2"
      "\<And>j. j < unat (elf_phnum (khdr disk)) \<Longrightarrow> seg_loaded disk m2 (kph disk j)"
    using load_segments_run [OF assms refl, of 0 _ m1 n1] h by auto
  have "mem_read m2 (ph_paddr (kph disk k)) (unat (ph_memsz (kph disk k))) =
      kbytes disk (unat (ph_off (kph disk k))) (unat (ph_filesz (kph disk k))) @
      replicate (unat (ph_memsz (kph disk k)) - unat (ph_filesz (kph disk k))) 0"
    if k: "k < unat (elf_phnum (khdr disk))" for k
  proof (rule nth_equalityI)
    have "unat (ph_filesz (kph disk k)) \<le> unat (ph_memsz (kph disk k))"
      using assms(2) k by (auto simp: bootable_def seg_fits_def word_le_nat_alt)
    then show "length (mem_read m2 (ph_paddr (kph disk k)) (unat (ph_memsz (kph disk k)))) =
      length (kbytes disk (unat (ph_off (kph disk k))) (unat (ph_filesz (kph disk k))) @
      replicate (unat (ph_memsz (kph disk k)) - unat (ph_filesz (kph disk k))) 0)" by (simp add: kbytes_def)
  qed (use l(3) [OF k] in \<open>auto simp: seg_loaded_def mem_read_def kbytes_def nth_append\<close>)
  moreover have "bootmain status disk m = Some (Some (elf_entry (khdr disk)), m2)"
    using r l(1) mg e [OF h] e [OF l(2)] by (simp add: bootmain_def Let_def)
  ultimately show ?thesis by blast
qed

text \<open>An image with one segment of three bytes, of which two are in the file.\<close>

definition demo_kernel :: "nat \<Rightarrow> byte list" where
  "demo_kernel k =
     (if k = 1 then [0x7F, 0x45, 0x4C, 0x46] @ replicate 20 0 @ [0x0C, 0, 0x10, 0] @ [52, 0, 0, 0] @ replicate 12 0 @ [1, 0] @
        replicate 6 0 @ [1, 0, 0, 0, 0, 2, 0, 0, 0, 0, 0x10, 0x80, 0, 0, 0x10, 0, 2, 0, 0, 0, 3, 0, 0, 0] @ replicate 436 0
      else [0xFA, 0xF4] @ replicate 510 7)"

theorem bootmain_loads_witness:
  "\<exists>m'. bootmain (\<lambda>n. if even n then 0x80 else 0x50) demo_kernel (\<lambda>_. 0xFF) = Some (Some 0x10000C, m') \<and>
     mem_read m' 0x100000 3 = [0xFA, 0xF4, 0]"
proof -
  let ?s = "\<lambda>n :: nat. if even n then 0x80 else 0x50 :: byte"
  have rd: "ready ?s" unfolding ready_def
  proof
    fix n :: nat
    show "\<exists>k \<ge> n. ?s k AND 0xC0 = 0x40" by (rule exI [of _ "2 * n + 1"]) simp
  qed
  have h: "khdr demo_kernel = \<lparr>elf_magic = ELF_MAGIC, elf_entry = 0x10000C, elf_phoff = 52, elf_phnum = 1\<rparr>" by code_simp
  have p: "kph demo_kernel 0 = \<lparr>ph_type = 1, ph_off = 512, ph_vaddr = 0x80100000, ph_paddr = 0x100000, ph_filesz = 2, ph_memsz = 3\<rparr>"
    by code_simp
  have b: "kbytes demo_kernel 512 2 = [0xFA, 0xF4]" by code_simp
  have "bootable demo_kernel"
    unfolding bootable_def h using p by (simp add: seg_fits_def demo_kernel_def word_le_nat_alt)
  from bootmain_loads [OF rd this, of "\<lambda>_. 0xFF"] show ?thesis
    unfolding h by (simp add: p b)
qed

end
