(* ===== verification/Page_Tables.thy ===== *)
theory Page_Tables
  imports Vm
begin

unbundle bit_operations_syntax

text \<open>
  What the processor makes of a page table, and the proof that \<^verbatim>\<open>mappages\<close> changes the translation of
  exactly the addresses it is asked to map. The page directory, the page tables and the free list share
  the memory of the kernel; the invariant keeps them apart.
\<close>

section \<open>Indices\<close>

definition page_no :: "addr \<Rightarrow> nat" where
  "page_no va = unat va div 4096"

lemma index_bits: "w AND 0x3FF = take_bit 10 (w :: u32)"
  by (simp add: take_bit_eq_mask mask_eq_exp_minus_1)

lemma unat_bound: "unat (w :: u32) < 4294967296"
  using unsigned_less [of w, where ?'a = nat] by simp

lemma PDX_unat: "unat (PDX va) = page_no va div 1024"
proof -
  have "unat va div 4194304 < 1024" using unat_bound [of va] by (simp add: less_mult_imp_div_less)
  then show ?thesis
    by (simp add: PDX_def index_bits page_no_def unsigned_take_bit_eq unsigned_drop_bit_eq drop_bit_eq_div take_bit_eq_mod
          div_mult2_eq [symmetric] unat_div unat_mod)
qed

lemma PTX_unat: "unat (PTX va) = page_no va mod 1024"
  by (simp add: PTX_def index_bits page_no_def unsigned_take_bit_eq unsigned_drop_bit_eq drop_bit_eq_div take_bit_eq_mod
        unat_div unat_mod)

lemma page_no_less: "page_no va < 2 ^ 20"
  using unat_bound [of va] by (simp add: page_no_def less_mult_imp_div_less)

lemma index_less: "unat (PDX va) < 1024" "unat (PTX va) < 1024"
  using page_no_less [of va] by (simp_all add: PDX_unat PTX_unat less_mult_imp_div_less)

lemma same_entry: "PDX a = PDX b \<and> PTX a = PTX b \<longleftrightarrow> page_no a = page_no b"
proof -
  have "PDX a = PDX b \<longleftrightarrow> page_no a div 1024 = page_no b div 1024" "PTX a = PTX b \<longleftrightarrow> page_no a mod 1024 = page_no b mod 1024"
    by (simp_all add: word_unat_eq_iff PDX_unat PTX_unat)
  then show ?thesis by (metis div_mult_mod_eq)
qed

section \<open>Words of a page\<close>

definition page_aligned :: "addr \<Rightarrow> bool" where
  "page_aligned p \<longleftrightarrow> unat p mod 4096 = 0"

lemma page_alignedE:
  assumes "page_aligned p"
  obtains a where "unat p = 4096 * a"
  using assms by (auto simp: page_aligned_def)

lemma cell_unat:
  assumes "page_aligned p" "unat k < 1024"
  shows "unat (p + 4 * k) = unat p + 4 * unat k"
proof -
  have "unat p < 4294967296" by (rule unat_bound)
  moreover obtain q where q: "unat p = 4096 * q" using assms(1) by (rule page_alignedE)
  ultimately have "q < 1048576" by simp
  then have "unat p + 4 * unat k < 4294967296" using assms(2) q by linarith
  then show ?thesis by (simp add: unat_word_ariths)
qed

lemma cell_aligned:
  assumes "page_aligned p" "unat k < 1024"
  shows "aligned4 (p + 4 * k)"
proof -
  obtain a where "unat p = 4096 * a" using assms(1) by (rule page_alignedE)
  then show ?thesis using cell_unat [OF assms] by (simp add: aligned4_def)
qed

lemma cell_eq:
  assumes "page_aligned p" "page_aligned q" "unat k < 1024" "unat l < 1024"
  shows "p + 4 * k = q + 4 * l \<longleftrightarrow> p = q \<and> k = l"
proof
  assume "p + 4 * k = q + 4 * l"
  then have e: "unat p + 4 * unat k = unat q + 4 * unat l" using assms by (metis cell_unat)
  obtain a where a: "unat p = 4096 * a" using assms(1) by (rule page_alignedE)
  obtain b where b: "unat q = 4096 * b" using assms(2) by (rule page_alignedE)
  note ab = a b
  have "a = b" using assms(3,4) e ab by linarith
  then have "unat p = unat q" "unat k = unat l" using e ab by simp_all
  then show "p = q \<and> k = l" by (simp add: word_unat_eq_iff)
qed simp

lemma ld_cell:
  assumes "page_aligned p" "page_aligned q" "unat k < 1024" "unat l < 1024"
  shows "ld32 (st32 m (p + 4 * k) v) (q + 4 * l) = (if p = q \<and> k = l then v else ld32 m (q + 4 * l))"
  using assms by (simp add: cell_aligned cell_eq)

lemma ld_zeroed:
  assumes p: "page_aligned p" and q: "page_aligned q" and l: "unat l < 1024"
  shows "ld32 (mem_write m p (replicate 4096 0)) (q + 4 * l) = (if p = q then 0 else ld32 m (q + 4 * l))"
proof -
  obtain a where a: "unat p = 4096 * a" using p by (rule page_alignedE)
  obtain b where b: "unat q = 4096 * b" using q by (rule page_alignedE)
  note ab = a b
  have lt: "unat q + 4 * unat l + j < 2 ^ 32" if "j < 4" for j
  proof -
    have "unat q < 4294967296" by (rule unat_bound)
    then have "b < 1048576" using ab by simp
    then show ?thesis using ab l that by simp
  qed
  have u: "unat (q + 4 * l + of_nat j) = unat q + 4 * unat l + j" if "j < 4" for j
    using lt [OF that] that cell_unat [OF q l] by (simp add: unat_word_ariths unat_of_nat)
  have byte: "mem_write m p (replicate 4096 0) (q + 4 * l + of_nat j) = (if p = q then 0 else m (q + 4 * l + of_nat j))" if "j < 4" for j
  proof (cases "p = q")
    case True
    have "unat (q + 4 * l + of_nat j - q) = 4 * unat l + j"
      using u [OF that] by (subst unat_sub) (auto simp: word_le_nat_alt)
    then show ?thesis using True l that by (simp add: mem_write_def)
  next
    case False
    then have ne: "a \<noteq> b" using ab by (auto simp: word_unat_eq_iff)
    have "4096 \<le> unat (q + 4 * l + of_nat j - p)"
    proof (cases "a < b")
      case True
      then show ?thesis using u [OF that] ab l that by (subst unat_sub) (auto simp: word_le_nat_alt)
    next
      case False
      then have "b < a" using ne by simp
      moreover have "unat p < 4294967296" by (rule unat_bound)
      ultimately show ?thesis using u [OF that] ab l that lt [OF that] by (simp add: unat_sub_if' word_le_nat_alt)
    qed
    then show ?thesis using False by (simp add: mem_write_other)
  qed
  show ?thesis using byte [of 0] byte [of 1] byte [of 2] byte [of 3] by (simp add: ld32_def word_of_bytes_def)
qed

section \<open>Translation\<close>

abbreviation present :: "u32 \<Rightarrow> bool" where "present w \<equiv> w AND PTE_P \<noteq> 0"

definition pde :: "memory \<Rightarrow> addr \<Rightarrow> u32 \<Rightarrow> u32" where
  "pde m pg d = ld32 m (pg + 4 * d)"

definition ptab :: "memory \<Rightarrow> addr \<Rightarrow> u32 \<Rightarrow> addr" where
  "ptab m pg d = P2V (PTE_ADDR (pde m pg d))"

definition entry :: "memory \<Rightarrow> addr \<Rightarrow> u32 \<Rightarrow> u32 \<Rightarrow> u32 option" where
  "entry m pg d k =
     (if present (pde m pg d) \<and> present (ld32 m (ptab m pg d + 4 * k)) then Some (ld32 m (ptab m pg d + 4 * k)) else None)"

text \<open>The entry the processor finds for an address: its frame and its permissions; none means a page fault.\<close>

definition translate :: "memory \<Rightarrow> addr \<Rightarrow> addr \<Rightarrow> u32 option" where
  "translate m pg va = entry m pg (PDX va) (PTX va)"

text \<open>The directory and its tables are pages of the allocator that are in use, all of them different.\<close>

definition pt_inv :: "'a kmem_state_scheme \<Rightarrow> addr \<Rightarrow> addr list \<Rightarrow> bool" where
  "pt_inv s pg xs \<longleftrightarrow> 0 < kend s \<and> kmem_rep s xs \<and> page_valid (kend s) pg \<and> pg \<notin> set xs \<and>
     (\<forall>d. unat d < 1024 \<and> present (pde (mem s) pg d) \<longrightarrow>
        page_valid (kend s) (ptab (mem s) pg d) \<and> ptab (mem s) pg d \<noteq> pg \<and> ptab (mem s) pg d \<notin> set xs) \<and>
     (\<forall>d e. unat d < 1024 \<and> unat e < 1024 \<and> d \<noteq> e \<and> present (pde (mem s) pg d) \<and> present (pde (mem s) pg e) \<longrightarrow>
        ptab (mem s) pg d \<noteq> ptab (mem s) pg e)"

lemma page_valid_page [simp]: "page_valid e v \<Longrightarrow> page_aligned v"
  by (simp add: page_valid_def page_aligned_def)

lemma kmem_rep_mem:
  assumes "kmem_rep s xs" "\<And>x. x \<in> set xs \<Longrightarrow> ld32 m (x + 4) = ld32 (mem s) (x + 4)"
  shows "kmem_rep (set_mem m s) xs"
  using assms flist_cong [of xs m "mem s"] by (simp add: kmem_rep_def)

lemma free_link: "x + 4 = x + 4 * (1 :: u32)" "unat (1 :: u32) < 1024"
  by simp_all

text \<open>A page table entry for a page gives the page back.\<close>

lemma aligned_bits: "page_aligned p \<longleftrightarrow> take_bit 12 p = 0"
proof -
  have "unat (take_bit 12 p) = unat p mod 4096" by (simp add: take_bit_eq_mod unat_mod)
  then show ?thesis by (simp add: page_aligned_def word_unat_eq_iff)
qed

lemma present_bit: "present w \<longleftrightarrow> bit w 0"
  by (simp add: PTE_P_def and_one_eq bit_0 odd_iff_mod_2_eq_one)

lemma V2P_bits:
  assumes "page_aligned p" "n < 12"
  shows "\<not> bit (V2P p) n"
proof -
  obtain a where a: "unat p = 4096 * a" using assms(1) by (rule page_alignedE)
  have "unat p < 4294967296" by (rule unat_bound)
  then have "unat (V2P p) = 4096 * (if 524288 \<le> a then a - 524288 else a + 524288)"
    using a by (simp add: V2P_def KERNBASE_def unat_sub_if' word_le_nat_alt diff_mult_distrib2)
  then have "unat (V2P p) mod 4096 = 0" by (simp only: mod_mult_self1_is_0)
  then show ?thesis
    using assms(2) aligned_bits [of "V2P p"] by (metis bit_0_eq bit_take_bit_iff bot_apply bot_bool_def page_aligned_def)
qed

lemma table_entry:
  assumes "page_aligned p"
  shows "P2V (PTE_ADDR (V2P p OR PTE_P OR PTE_W OR PTE_U)) = p" "present (V2P p OR PTE_P OR PTE_W OR PTE_U)"
proof -
  note z = V2P_bits [OF assms]
  have m: "(0xFFF :: u32) = mask 12" "PTE_P OR PTE_W OR PTE_U = mask 3"
    by (simp_all add: mask_eq_exp_minus_1 PTE_P_def PTE_W_def PTE_U_def)
  have "PTE_ADDR (V2P p OR mask 3) = V2P p" unfolding PTE_ADDR_def m(1)
    by (rule bit_word_eqI) (use z in \<open>auto simp: bit_simps\<close>)
  then show "P2V (PTE_ADDR (V2P p OR PTE_P OR PTE_W OR PTE_U)) = p" using m(2) by (simp add: or.assoc P2V_def V2P_def)
  show "present (V2P p OR PTE_P OR PTE_W OR PTE_U)" unfolding present_bit by (simp add: bit_or_iff PTE_P_def)
qed

section \<open>Finding an entry\<close>

lemma walk_present:
  assumes "present (pde (mem s) pg (PDX va))"
  shows "walkpgdir pg va al s = Done (ptab (mem s) pg (PDX va) + 4 * PTX va) s"
  using assms by (simp add: walkpgdir_def kop_simps pde_def ptab_def)

lemma walk_absent:
  assumes inv: "pt_inv s pg (x # xs)" and ab: "\<not> present (pde (mem s) pg (PDX va))"
  shows "\<exists>t. walkpgdir pg va True s = Done (x + 4 * PTX va) t \<and> pt_inv t pg xs \<and> kend t = kend s \<and>
    ptab (mem t) pg (PDX va) = x \<and> present (pde (mem t) pg (PDX va)) \<and>
    (\<forall>d. unat d < 1024 \<and> d \<noteq> PDX va \<longrightarrow> pde (mem t) pg d = pde (mem s) pg d) \<and>
    (\<forall>d k. unat d < 1024 \<and> unat k < 1024 \<longrightarrow> entry (mem t) pg d k = entry (mem s) pg d k)"
proof -
  let ?d = "PDX va" and ?w = "V2P x OR PTE_P OR PTE_W OR PTE_U"
  have rep: "kmem_rep s (x # xs)" and pgv: "page_valid (kend s) pg" "pg \<noteq> x" "pg \<notin> set xs" "0 < kend s"
    using inv by (auto simp: pt_inv_def)
  have xv: "page_valid (kend s) x" "x \<notin> set xs" "x \<noteq> 0" and xsv: "\<And>y. y \<in> set xs \<Longrightarrow> page_valid (kend s) y"
    using rep pgv(4) by (auto simp: kmem_rep_def page_valid_nonzero)
  have al: "page_aligned pg" "page_aligned x" using pgv xv by simp_all
  obtain u where u: "kalloc s = Done x u" "kmem_rep u xs" "mem u = mem s" "kend u = kend s" using kalloc_rep [OF rep] by blast
  define w where "w = ?w"
  define m where "m = st32 (mem_write (mem s) x (replicate 4096 0)) (pg + 4 * ?d) w"
  let ?t = "set_mem m u"
  have run: "walkpgdir pg va True s = Done (x + 4 * PTX va) ?t"
    using ab u xv(3) by (simp add: walkpgdir_def kop_simps pde_def page_zero_def m_def w_def)
  have cell: "ld32 m (q + 4 * l) = (if q = pg \<and> l = ?d then w else if q = x then 0 else ld32 (mem s) (q + 4 * l))"
    if "page_aligned q" "unat l < 1024" for q l
    using that al pgv(2) index_less(1) [of va] by (auto simp: ld_cell ld_zeroed m_def)
  have pd: "pde m pg d = (if d = ?d then w else pde (mem s) pg d)" if "unat d < 1024" for d
    using cell [OF al(1) that] pgv(2) by (simp add: pde_def)
  have pt: "ptab m pg d = (if d = ?d then x else ptab (mem s) pg d)" if "unat d < 1024" for d
    using pd [OF that] table_entry(1) [OF al(2)] by (simp add: ptab_def w_def)
  have pw: "present w" using table_entry(2) [OF al(2)] by (simp add: w_def)
  have old: "page_valid (kend s) (ptab (mem s) pg d)" "ptab (mem s) pg d \<noteq> pg" "ptab (mem s) pg d \<noteq> x" "ptab (mem s) pg d \<notin> set xs"
    if "unat d < 1024" "present (pde (mem s) pg d)" for d
    using inv that by (auto simp: pt_inv_def)
  have en: "entry m pg d k = entry (mem s) pg d k" if "unat d < 1024" "unat k < 1024" for d k
  proof (cases "d = ?d")
    case True
    then show ?thesis using that pd [OF that(1)] pt [OF that(1)] cell [OF al(2) that(2)] ab pgv(2) by (simp add: entry_def)
  next
    case False
    show ?thesis
    proof (cases "present (pde (mem s) pg d)")
      case True
      have "ld32 m (ptab (mem s) pg d + 4 * k) = ld32 (mem s) (ptab (mem s) pg d + 4 * k)"
        using cell [of "ptab (mem s) pg d" k] old [OF that(1) True] that(2) by simp
      then show ?thesis using False pd [OF that(1)] pt [OF that(1)] by (simp add: entry_def)
    qed (use False pd [OF that(1)] in \<open>simp add: entry_def\<close>)
  qed
  have "kmem_rep ?t xs"
  proof (rule kmem_rep_mem [OF u(2)])
    fix y assume "y \<in> set xs"
    then have "page_aligned y" "y \<noteq> x" "y \<noteq> pg" using page_valid_page [OF xsv] xv(2) pgv(3) by auto
    then show "ld32 m (y + 4) = ld32 (mem u) (y + 4)" using cell [of y 1] u(3) by simp
  qed
  moreover have "page_valid (kend s) (ptab m pg d) \<and> ptab m pg d \<noteq> pg \<and> ptab m pg d \<notin> set xs"
    if d: "unat d < 1024" "present (pde m pg d)" for d
  proof (cases "d = ?d")
    case True
    then show ?thesis using pt [OF d(1)] xv(1,2) pgv(2) by simp
  next
    case False
    then show ?thesis using d pd [OF d(1)] pt [OF d(1)] old [OF d(1)] by simp
  qed
  moreover have "ptab m pg d \<noteq> ptab m pg e"
    if d: "unat d < 1024" "unat e < 1024" "d \<noteq> e" "present (pde m pg d)" "present (pde m pg e)" for d e
  proof -
    have sd: "present (pde (mem s) pg d)" if "d \<noteq> ?d" using pd [OF d(1)] d(4) that by simp
    have se: "present (pde (mem s) pg e)" if "e \<noteq> ?d" using pd [OF d(2)] d(5) that by simp
    consider "d = ?d" "e \<noteq> ?d" | "d \<noteq> ?d" "e = ?d" | "d \<noteq> ?d" "e \<noteq> ?d" using d(3) by blast
    then show ?thesis
    proof cases
      case 1
      then show ?thesis using pt [OF d(1)] pt [OF d(2)] old(3) [OF d(2) se] by simp
    next
      case 2
      then show ?thesis using pt [OF d(1)] pt [OF d(2)] old(3) [OF d(1) sd] by simp
    next
      case 3
      then have "ptab (mem s) pg d \<noteq> ptab (mem s) pg e" using inv d(1-3) sd se by (simp add: pt_inv_def)
      then show ?thesis using 3 pt [OF d(1)] pt [OF d(2)] by simp
    qed
  qed
  ultimately have "pt_inv ?t pg xs" using pgv u(4) by (simp add: pt_inv_def)
  moreover have "ptab m pg ?d = x" "pde m pg ?d = w" using pd [OF index_less(1)] pt [OF index_less(1)] by simp_all
  ultimately show ?thesis using run pd en u(4) pw by (intro exI [of _ ?t]) simp
qed

lemma set_entry:
  assumes inv: "pt_inv s pg xs" and pr: "present (pde (mem s) pg d)" and ix: "unat d < 1024" "unat k < 1024" and v: "present v"
    and m: "m = st32 (mem s) (ptab (mem s) pg d + 4 * k) v"
  shows "pt_inv (set_mem m s) pg xs" "\<And>e. unat e < 1024 \<Longrightarrow> pde m pg e = pde (mem s) pg e"
    "\<And>e l. unat e < 1024 \<Longrightarrow> unat l < 1024 \<Longrightarrow> entry m pg e l = (if e = d \<and> l = k then Some v else entry (mem s) pg e l)"
proof -
  let ?p = "ptab (mem s) pg d"
  have tab: "page_valid (kend s) (ptab (mem s) pg e)" "ptab (mem s) pg e \<noteq> pg" "ptab (mem s) pg e \<notin> set xs"
    if "unat e < 1024" "present (pde (mem s) pg e)" for e using inv that by (auto simp: pt_inv_def)
  have al: "page_aligned pg" "page_aligned ?p" using inv tab [OF ix(1) pr] by (auto simp: pt_inv_def)
  have cell: "ld32 m (q + 4 * l) = (if q = ?p \<and> l = k then v else ld32 (mem s) (q + 4 * l))"
    if "page_aligned q" "unat l < 1024" for q l
    using that al ix(2) by (auto simp: m ld_cell)
  show pd: "pde m pg e = pde (mem s) pg e" if "unat e < 1024" for e
    using cell [OF al(1) that] tab(2) [OF ix(1) pr] by (simp add: pde_def)
  then have pt: "ptab m pg e = ptab (mem s) pg e" if "unat e < 1024" for e using that by (simp add: ptab_def)
  have "kmem_rep (set_mem m s) xs"
  proof (rule kmem_rep_mem)
    show "kmem_rep s xs" using inv by (simp add: pt_inv_def)
    fix y assume "y \<in> set xs"
    then have "page_valid (kend s) y" "y \<noteq> ?p" using inv tab(3) [OF ix(1) pr] by (auto simp: pt_inv_def kmem_rep_def)
    then show "ld32 m (y + 4) = ld32 (mem s) (y + 4)" using cell [of y 1] page_valid_page by simp
  qed
  then show "pt_inv (set_mem m s) pg xs" using inv pd pt unfolding pt_inv_def by (auto simp: pd pt)
  show "entry m pg e l = (if e = d \<and> l = k then Some v else entry (mem s) pg e l)" if "unat e < 1024" "unat l < 1024" for e l
  proof (cases "present (pde (mem s) pg e)")
    case True
    have "ptab (mem s) pg e = ?p \<longleftrightarrow> e = d" using inv ix(1) pr True that(1) by (auto simp: pt_inv_def)
    then show ?thesis using True v pd [OF that(1)] pt [OF that(1)] cell [OF page_valid_page [OF tab(1) [OF that(1) True]] that(2)]
      by (auto simp: entry_def)
  next
    case False
    then show ?thesis using pr pd [OF that(1)] by (auto simp: entry_def)
  qed
qed

section \<open>Mapping a range\<close>

text \<open>The page tables a range still lacks.\<close>

definition lacking :: "memory \<Rightarrow> addr \<Rightarrow> nat \<Rightarrow> nat \<Rightarrow> u32 set" where
  "lacking m pg p n = {d. \<exists>a. d = PDX a \<and> p \<le> page_no a \<and> page_no a < p + n \<and> \<not> present (pde m pg d)}"

lemma finite_lacking [simp]: "finite (lacking m pg p n)"
  by (rule finite_subset [of _ UNIV]) simp_all

text \<open>One page: the walk and the store.\<close>

lemma map_one:
  assumes inv: "pt_inv s pg xs" and un: "translate (mem s) pg va = None" and v: "present v"
    and room: "card (lacking (mem s) pg (page_no va) n) \<le> length xs" "0 < n"
  shows "\<exists>pte u t ys. walkpgdir pg va True s = Done pte u \<and> pte \<noteq> 0 \<and> \<not> present (ld32 (mem u) pte) \<and>
    t = set_mem (st32 (mem u) pte v) u \<and> pt_inv t pg ys \<and> kend t = kend s \<and>
    card (lacking (mem t) pg (page_no va + 1) (n - 1)) \<le> length ys \<and>
    (\<forall>a. translate (mem t) pg a = (if page_no a = page_no va then Some v else translate (mem s) pg a))"
proof -
  let ?d = "PDX va" and ?L = "lacking (mem s) pg (page_no va) n"
  have "\<exists>u ys. walkpgdir pg va True s = Done (ptab (mem u) pg ?d + 4 * PTX va) u \<and> pt_inv u pg ys \<and> kend u = kend s \<and>
      present (pde (mem u) pg ?d) \<and> (\<forall>d. unat d < 1024 \<and> d \<noteq> ?d \<longrightarrow> pde (mem u) pg d = pde (mem s) pg d) \<and>
      (\<forall>d k. unat d < 1024 \<and> unat k < 1024 \<longrightarrow> entry (mem u) pg d k = entry (mem s) pg d k) \<and> card (?L - {?d}) \<le> length ys"
  proof (cases "present (pde (mem s) pg ?d)")
    case True
    then have "?d \<notin> ?L" by (auto simp: lacking_def)
    then show ?thesis using True inv room(1) walk_present [OF True] by (intro exI [of _ s] exI [of _ xs]) simp
  next
    case False
    then have "?d \<in> ?L" using room(2) by (auto simp: lacking_def intro!: exI [of _ va])
    then have "card (?L - {?d}) < card ?L" by (intro card_Diff1_less) simp_all
    then obtain x ys where xs: "xs = x # ys" "card (?L - {?d}) \<le> length ys" using room(1) by (cases xs) auto
    obtain u where "walkpgdir pg va True s = Done (x + 4 * PTX va) u" "pt_inv u pg ys" "kend u = kend s"
        "ptab (mem u) pg ?d = x" "present (pde (mem u) pg ?d)" "\<forall>d. unat d < 1024 \<and> d \<noteq> ?d \<longrightarrow> pde (mem u) pg d = pde (mem s) pg d"
        "\<forall>d k. unat d < 1024 \<and> unat k < 1024 \<longrightarrow> entry (mem u) pg d k = entry (mem s) pg d k"
      using walk_absent [OF inv [unfolded xs(1)] False] by blast
    then show ?thesis using xs(2) by (intro exI [of _ u] exI [of _ ys]) simp
  qed
  then obtain u ys where u: "walkpgdir pg va True s = Done (ptab (mem u) pg ?d + 4 * PTX va) u" "pt_inv u pg ys" "kend u = kend s"
      "present (pde (mem u) pg ?d)" "\<And>d. unat d < 1024 \<Longrightarrow> d \<noteq> ?d \<Longrightarrow> pde (mem u) pg d = pde (mem s) pg d"
      "\<And>d k. unat d < 1024 \<Longrightarrow> unat k < 1024 \<Longrightarrow> entry (mem u) pg d k = entry (mem s) pg d k" "card (?L - {?d}) \<le> length ys"
    by blast
  let ?pte = "ptab (mem u) pg ?d + 4 * PTX va" and ?t = "set_mem (st32 (mem u) (ptab (mem u) pg ?d + 4 * PTX va) v) u"
  note se = set_entry [OF u(2,4) index_less(1) [of va] index_less(2) [of va] v refl]
  have tv: "page_valid (kend u) (ptab (mem u) pg ?d)" "0 < kend u" using u(2,4) index_less(1) by (auto simp: pt_inv_def)
  then have "ptab (mem u) pg ?d \<noteq> 0" by (rule page_valid_nonzero)
  then have nz: "?pte \<noteq> 0" using cell_unat [OF page_valid_page [OF tv(1)] index_less(2)] by (auto simp: word_unat_eq_iff)
  have "entry (mem u) pg ?d (PTX va) = None" using un u(6) index_less by (simp add: translate_def)
  then have np: "\<not> present (ld32 (mem u) ?pte)" using u(4) by (auto simp: entry_def split: if_splits)
  have tr: "translate (mem ?t) pg a = (if page_no a = page_no va then Some v else translate (mem s) pg a)" for a
    using se(3) [OF index_less, of a a] u(6) [OF index_less, of a a] same_entry [of a va] by (simp add: translate_def)
  have "lacking (mem ?t) pg (page_no va + 1) (n - 1) \<subseteq> ?L - {?d}"
  proof
    fix d assume "d \<in> lacking (mem ?t) pg (page_no va + 1) (n - 1)"
    then obtain a where a: "d = PDX a" "page_no va \<le> page_no a" "page_no a < page_no va + n" "\<not> present (pde (mem u) pg d)"
      using se(2) [OF index_less(1)] by (auto simp: lacking_def)
    then have "d \<noteq> ?d" using u(4) by auto
    then show "d \<in> ?L - {?d}" using a u(5) [OF index_less(1), of a] by (auto simp: lacking_def)
  qed
  then have "card (lacking (mem ?t) pg (page_no va + 1) (n - 1)) \<le> length ys"
    using u(7) card_mono [of "?L - {?d}" "lacking (mem ?t) pg (page_no va + 1) (n - 1)"] by simp
  then show ?thesis using u(1,3) nz np se(1) tr by (intro exI [of _ ?pte] exI [of _ u] exI [of _ ?t] exI [of _ ys]) simp
qed

text \<open>The loop of \<^verbatim>\<open>mappages\<close> over \<open>n\<close> pages.\<close>

lemma page_no_next: "page_no va + 1 < 2 ^ 20 \<Longrightarrow> page_aligned va \<Longrightarrow> page_no (va + PGSIZE) = page_no va + 1 \<and> page_aligned (va + PGSIZE)"
proof -
  assume a: "page_no va + 1 < 2 ^ 20" "page_aligned va"
  then obtain k where k: "unat va = 4096 * k" by (auto elim: page_alignedE)
  then have "unat (va + PGSIZE) = 4096 * (k + 1)" using a(1) by (simp add: page_no_def PGSIZE_def unat_word_ariths)
  then show ?thesis using k by (simp add: page_no_def page_aligned_def)
qed

lemma present_or: "present (w OR perm OR PTE_P)"
  unfolding present_bit by (simp add: bit_or_iff PTE_P_def)

lemma mappages_loop_run:
  assumes "pt_inv s pg xs" "page_aligned bottom" "page_aligned topva" "page_no topva + 1 = page_no bottom + n" "0 < n" "n \<le> fuel"
    "\<forall>a. page_no bottom \<le> page_no a \<and> page_no a < page_no bottom + n \<longrightarrow> translate (mem s) pg a = None"
    "card (lacking (mem s) pg (page_no bottom) n) \<le> length xs"
  shows "\<exists>t ys. mappages_loop fuel pg bottom topva pa perm s = Done 0 t \<and> pt_inv t pg ys \<and> kend t = kend s \<and>
    (\<forall>a. translate (mem t) pg a =
       (if page_no bottom \<le> page_no a \<and> page_no a < page_no bottom + n
        then Some ((pa + PGSIZE * of_nat (page_no a - page_no bottom)) OR perm OR PTE_P) else translate (mem s) pg a))"
  using assms
proof (induction fuel arbitrary: n s xs bottom pa)
  case 0
  then show ?case by simp
next
  case (Suc fuel)
  let ?v = "pa OR perm OR PTE_P"
  have un: "translate (mem s) pg bottom = None" using Suc.prems(5,7) by simp
  obtain pte u t ys where w: "walkpgdir pg bottom True s = Done pte u" "pte \<noteq> 0" "\<not> present (ld32 (mem u) pte)"
      "t = set_mem (st32 (mem u) pte ?v) u" "pt_inv t pg ys" "kend t = kend s"
      "card (lacking (mem t) pg (page_no bottom + 1) (n - 1)) \<le> length ys"
      "\<And>a. translate (mem t) pg a = (if page_no a = page_no bottom then Some ?v else translate (mem s) pg a)"
    using map_one [OF Suc.prems(1) un present_or Suc.prems(8,5)] by blast
  have run: "mappages_loop (Suc fuel) pg bottom topva pa perm s =
      (if bottom = topva then Done 0 t else mappages_loop fuel pg (bottom + PGSIZE) topva (pa + PGSIZE) perm t)"
    using w(1-4) by (simp add: kop_simps)
  show ?case
  proof (cases "n = 1")
    case True
    have "unat bottom = unat topva" using Suc.prems(2-4) True by (auto simp: page_no_def elim!: page_alignedE)
    then have "bottom = topva" by (simp add: word_unat_eq_iff)
    then show ?thesis using run w(5,6,8) True by (intro exI [of _ t] exI [of _ ys]) (auto simp: le_less_Suc_eq)
  next
    case False
    then have n: "n = Suc (n - 1)" "0 < n - 1" using Suc.prems(5) by simp_all
    have ne: "bottom \<noteq> topva" using Suc.prems(4) n(2) by auto
    have nx: "page_no (bottom + PGSIZE) = page_no bottom + 1" "page_aligned (bottom + PGSIZE)"
      using page_no_next [of bottom] Suc.prems(2,4) n(2) page_no_less [of topva] by auto
    have "\<exists>t' ys'. mappages_loop fuel pg (bottom + PGSIZE) topva (pa + PGSIZE) perm t = Done 0 t' \<and> pt_inv t' pg ys' \<and> kend t' = kend t \<and>
      (\<forall>a. translate (mem t') pg a =
         (if page_no (bottom + PGSIZE) \<le> page_no a \<and> page_no a < page_no (bottom + PGSIZE) + (n - 1)
          then Some ((pa + PGSIZE + PGSIZE * of_nat (page_no a - page_no (bottom + PGSIZE))) OR perm OR PTE_P) else translate (mem t) pg a))"
      using w(5,7,8) nx Suc.prems(3,4,6,7) n by (intro Suc.IH [of t ys "bottom + PGSIZE" "n - 1"]) auto
    then obtain t' ys' where t': "mappages_loop fuel pg (bottom + PGSIZE) topva (pa + PGSIZE) perm t = Done 0 t'" "pt_inv t' pg ys'" "kend t' = kend t"
      and tr: "\<And>a. translate (mem t') pg a =
         (if page_no bottom + 1 \<le> page_no a \<and> page_no a < page_no bottom + n
          then Some ((pa + PGSIZE + PGSIZE * of_nat (page_no a - (page_no bottom + 1))) OR perm OR PTE_P) else translate (mem t) pg a)"
      unfolding nx(1) using n by (metis (no_types, lifting) add.assoc plus_1_eq_Suc)
    have "translate (mem t') pg a =
       (if page_no bottom \<le> page_no a \<and> page_no a < page_no bottom + n
        then Some ((pa + PGSIZE * of_nat (page_no a - page_no bottom)) OR perm OR PTE_P) else translate (mem s) pg a)" for a
    proof (cases "page_no bottom + 1 \<le> page_no a \<and> page_no a < page_no bottom + n")
      case True
      then have "page_no a - page_no bottom = Suc (page_no a - (page_no bottom + 1))" by arith
      then have "pa + PGSIZE + PGSIZE * of_nat (page_no a - (page_no bottom + 1)) = pa + PGSIZE * of_nat (page_no a - page_no bottom)"
        by (simp add: algebra_simps)
      moreover have "page_no bottom \<le> page_no a \<and> page_no a < page_no bottom + n" using True by simp
      ultimately show ?thesis using tr [of a] True by (simp only: if_True simp_thms)
    next
      case False
      then have "page_no bottom \<le> page_no a \<and> page_no a < page_no bottom + n \<longleftrightarrow> page_no a = page_no bottom"
        using Suc.prems(5) by linarith
      then show ?thesis using tr [of a] w(8) [of a] False by (simp only: if_False) simp
    qed
    then show ?thesis using run ne t' w(6) by (intro exI [of _ t'] exI [of _ ys']) simp
  qed
qed

lemma page_no_bits: "page_no a = unat (drop_bit 12 a)"
  by (simp add: page_no_def drop_bit_eq_div unat_div)

lemma round_down: "page_aligned (PGROUNDDOWN a)" "page_no (PGROUNDDOWN a) = page_no a"
proof -
  have m: "PGSIZE - 1 = mask 12" by (simp add: PGSIZE_def mask_eq_exp_minus_1)
  have "take_bit 12 (PGROUNDDOWN a) = 0" unfolding PGROUNDDOWN_def m by (rule bit_word_eqI) (simp add: bit_simps)
  then show "page_aligned (PGROUNDDOWN a)" by (simp add: aligned_bits)
  have "drop_bit 12 (PGROUNDDOWN a) = drop_bit 12 a" unfolding PGROUNDDOWN_def m
    by (rule bit_word_eqI) (auto simp: bit_simps dest: bit_imp_le_length)
  then show "page_no (PGROUNDDOWN a) = page_no a" by (simp add: page_no_bits)
qed

text \<open>
  C16 (mapping pages): when the pages from \<open>va\<close> to the last byte of the range are unmapped and enough
  pages are free for the page tables they lack, \<^verbatim>\<open>mappages\<close> returns 0, the processor then translates the
  \<open>k\<close>-th page of the range to the \<open>k\<close>-th page frame from \<open>pa\<close> on with the permissions asked for, every other
  address is translated as before, and directory, tables and free list are still apart.
\<close>

theorem mappages_translates:
  assumes "pt_inv s pg xs" "0 < sz" "unat va + unat sz \<le> 2 ^ 32"
    and "\<forall>a. page_no va \<le> page_no a \<and> page_no a \<le> page_no (va + sz - 1) \<longrightarrow> translate (mem s) pg a = None"
    and "card (lacking (mem s) pg (page_no va) (page_no (va + sz - 1) + 1 - page_no va)) \<le> length xs"
  shows "\<exists>t ys. mappages pg va sz pa perm s = Done 0 t \<and> pt_inv t pg ys \<and>
    (\<forall>a. translate (mem t) pg a =
       (if page_no va \<le> page_no a \<and> page_no a \<le> page_no (va + sz - 1)
        then Some ((pa + PGSIZE * of_nat (page_no a - page_no va)) OR perm OR PTE_P) else translate (mem s) pg a))"
proof -
  let ?n = "page_no (va + sz - 1) + 1 - page_no va"
  have "0 < unat sz" using assms(2) by (simp add: word_less_nat_alt)
  then have "unat (va + (sz - 1)) = unat va + (unat sz - 1)" using assms(3) by (simp add: unat_word_ariths unat_sub_if' word_le_nat_alt)
  then have le: "page_no va \<le> page_no (va + sz - 1)" by (simp add: page_no_def div_le_mono diff_add_eq add_diff_eq)
  then have n: "page_no (va + sz - 1) + 1 = page_no va + ?n" "0 < ?n" by simp_all
  have "?n \<le> 2 ^ 20" using page_no_less [of "va + sz - 1"] by simp
  then obtain t ys where t: "mappages_loop (2 ^ 20) pg (PGROUNDDOWN va) (PGROUNDDOWN (va + sz - 1)) pa perm s = Done 0 t" "pt_inv t pg ys"
      "\<And>a. translate (mem t) pg a =
       (if page_no va \<le> page_no a \<and> page_no a < page_no va + ?n
        then Some ((pa + PGSIZE * of_nat (page_no a - page_no va)) OR perm OR PTE_P) else translate (mem s) pg a)"
    using mappages_loop_run [of s pg xs "PGROUNDDOWN va" "PGROUNDDOWN (va + sz - 1)" ?n "2 ^ 20" pa perm] assms(1,4,5) n
    unfolding round_down(2) by (fastforce simp: round_down)
  have "page_no a < page_no va + ?n \<longleftrightarrow> page_no a \<le> page_no (va + sz - 1)" for a using n by linarith
  then show ?thesis using t by (intro exI [of _ t] exI [of _ ys]) (simp add: mappages_def)
qed

definition demo_pt :: kmem_state where
  "demo_pt = demo_kmem\<lparr>kmem_free := 0x80300000, kmem_nfree := 1\<rparr>"

theorem mappages_translates_witness:
  "\<exists>t. mappages 0x80301000 0x1000 0x1800 0x400000 (PTE_W OR PTE_U) demo_pt = Done 0 t \<and>
     translate (mem t) 0x80301000 0x2ABC = Some 0x401007 \<and> translate (mem t) 0x80301000 0x3000 = None"
proof -
  have z: "ld32 (mem demo_pt) a = 0" for a by (simp add: demo_pt_def demo_kmem_def ld32_def word_of_bytes_def)
  have inv: "pt_inv demo_pt 0x80301000 [0x80300000]"
    using z by (simp add: pt_inv_def kmem_rep_def pde_def page_valid_def layout_defs) (simp add: demo_pt_def)
  have un: "translate (mem demo_pt) pg a = None" for pg a using z by (simp add: translate_def entry_def pde_def)
  have "lacking (mem demo_pt) 0x80301000 1 2 \<subseteq> {0}" by (auto simp: lacking_def word_unat_eq_iff PDX_unat)
  then have "card (lacking (mem demo_pt) 0x80301000 1 2) \<le> 1" using card_mono [of "{0 :: u32}" "lacking (mem demo_pt) 0x80301000 1 2"] by simp
  with mappages_translates [OF inv, where sz = "0x1800" and va = "0x1000" and pa = "0x400000" and perm = "PTE_W OR PTE_U"] un
  obtain t where t: "mappages 0x80301000 0x1000 0x1800 0x400000 (PTE_W OR PTE_U) demo_pt = Done 0 t"
    "\<forall>a. translate (mem t) 0x80301000 a = (if 1 \<le> page_no a \<and> page_no a \<le> 2
       then Some ((0x400000 + PGSIZE * of_nat (page_no a - 1)) OR (PTE_W OR PTE_U) OR PTE_P) else None)"
    by (auto simp: page_no_def)
  then show ?thesis by (intro exI [of _ t]) (simp add: page_no_def PGSIZE_def PTE_W_def PTE_U_def PTE_P_def)
qed

end
