(* ===== verification/Init.thy ===== *)
theory Init
  imports Shell
begin

text \<open>
  The first user program (\<^verbatim>\<open>init.c\<close>) and three small ones (\<^verbatim>\<open>zombie.c\<close>, \<^verbatim>\<open>setsched.c\<close>, \<^verbatim>\<open>toggle_debug.c\<close>) as the
  system calls they make, in order, on given answers of the kernel. \<^verbatim>\<open>init\<close> runs for ever; its model ends
  where the answers do, in the call that waits for the next one.
\<close>

datatype iact =
    IOpen "byte list" int
  | IMknod "byte list" int int
  | IDup int
  | IFork
  | IExec "byte list" "byte list list"
  | IWait
  | ISleep int
  | ISched u32
  | ISchedName
  | IToggleDebug
  | IPrint "byte list"
  | IExit

definition iprint :: "string \<Rightarrow> parg list \<Rightarrow> iact list" where
  "iprint fmt ap = (case u_printf 1 fmt ap of None \<Rightarrow> [] | Some rs \<Rightarrow> [IPrint (concat (map snd rs))])"

definition nlc :: string where "nlc = [CHR 0x0A]"

section \<open>init\<close>

definition init_start :: "int \<Rightarrow> iact list" where
  "init_start fd =
     IOpen (ascii ''console'') O_RDWR #
     (if fd < 0 then [IMknod (ascii ''console'') 1 1, IOpen (ascii ''console'') O_RDWR] else []) @ [IDup 0, IDup 0]"

definition init_child :: "iact list" where
  "init_child = IExec (ascii ''sh'') [ascii ''sh''] # iprint (''init: exec sh failed'' @ nlc) [] @ [IExit]"

text \<open>The inner loop: what it does, and the answers left for the next round of the outer one.\<close>

primrec init_wait :: "int \<Rightarrow> int list \<Rightarrow> iact list \<times> int list option" where
  "init_wait pid [] = ([IWait], None)"
| "init_wait pid (w # rs) =
     (if w \<ge> 0 \<and> w \<noteq> pid then
        (case init_wait pid rs of (as, r) \<Rightarrow>
           (IWait # iprint (''YONIX: I caught a zombie! PID: %d'' @ nlc) [PNum (word_of_int w)] @ as, r))
      else ([IWait], Some rs))"

primrec init_loop :: "int list \<Rightarrow> int list \<Rightarrow> iact list" where
  "init_loop [] rs = iprint (''YONIX: starting shell...'' @ nlc) [] @ [IFork]"
| "init_loop (pid # ps) rs =
     iprint (''YONIX: starting shell...'' @ nlc) [] @ IFork #
     (if pid < 0 then iprint (''init: fork failed'' @ nlc) [] @ [IExit]
      else iprint (''YONIX: shell ready on PID %d'' @ nlc) [PNum (word_of_int pid)] @
           (case init_wait pid rs of
              (as, None) \<Rightarrow> as
            | (as, Some rs') \<Rightarrow> as @ init_loop ps rs'))"

definition init_main :: "int \<Rightarrow> int list \<Rightarrow> int list \<Rightarrow> iact list" where
  "init_main fd forks waits = init_start fd @ init_loop forks waits"

section \<open>zombie, setsched, toggle\_debug\<close>

definition zombie_main :: "int \<Rightarrow> iact list" where
  "zombie_main pid = IFork # (if pid > 0 then [ISleep 5] else []) @ [IExit]"

definition setsched_main :: "byte list list \<Rightarrow> int \<Rightarrow> byte list \<Rightarrow> iact list" where
  "setsched_main args r name =
     (case args of
        [] \<Rightarrow> [IExit]
      | a # _ \<Rightarrow> ISched (atoi a) #
          (if r < 0 then iprint (''Operation refused by yonix.'' @ nlc) [] @ [IExit]
           else ISchedName # iprint (''Set sched method: %s'' @ nlc) [PStr name] @ [IExit]))"

definition toggle_debug_main :: "int \<Rightarrow> iact list" where
  "toggle_debug_main r = IToggleDebug # (if r \<noteq> 0 then iprint (''failed!'' @ nlc) [] else []) @ [IExit]"

section \<open>init reaps every child and restarts the shell\<close>

lemma init_wait_reaps:
  "\<forall>z \<in> set zs. z \<ge> 0 \<and> z \<noteq> pid \<Longrightarrow>
   init_wait pid (zs @ pid # rest) =
     (concat (map (\<lambda>z. IWait # iprint (''YONIX: I caught a zombie! PID: %d'' @ nlc) [PNum (word_of_int z)]) zs) @ [IWait], Some rest)"
  by (induction zs) auto

lemma init_restarts:
  assumes "pid \<ge> 0" "\<forall>z \<in> set zs. z \<ge> 0 \<and> z \<noteq> pid"
  shows "init_loop (pid # ps) (zs @ pid # rest) =
    iprint (''YONIX: starting shell...'' @ nlc) [] @ IFork # iprint (''YONIX: shell ready on PID %d'' @ nlc) [PNum (word_of_int pid)] @
    concat (map (\<lambda>z. IWait # iprint (''YONIX: I caught a zombie! PID: %d'' @ nlc) [PNum (word_of_int z)]) zs) @ IWait #
    init_loop ps rest"
  using assms by (simp add: init_wait_reaps del: init_wait.simps)

end
