(* ===== verification/Devices.thy ===== *)
theory Devices
  imports Trap
begin

unbundle bit_operations_syntax

text \<open>
  The set-up of the devices and of the processor's tables: the interrupt controllers (\<^verbatim>\<open>picirq.c\<close>), the
  timer (\<^verbatim>\<open>timer.c\<close>), the serial line (\<^verbatim>\<open>uart.c\<close>), the segment descriptors (\<^verbatim>\<open>seginit\<close> of \<^verbatim>\<open>vm.c\<close>) and the
  interrupt descriptors (\<^verbatim>\<open>trapvecinit\<close> of \<^verbatim>\<open>trap.c\<close>, the macros of \<^verbatim>\<open>mmu.h\<close>). What the machine sees is the
  sequence of the port writes; what it answers is a parameter, the value of the \<open>n\<close>-th port read.
\<close>

section \<open>Ports\<close>

record port_state =
  outs :: "(u16 \<times> byte) list"
  reads :: nat
  irqmask :: u16
  has_uart :: bool
  disk1_seen :: bool

type_synonym dev_answers = "nat \<Rightarrow> u16 \<Rightarrow> byte"

definition outb :: "u16 \<Rightarrow> byte \<Rightarrow> port_state \<Rightarrow> port_state" where
  "outb p b s = s\<lparr>outs := outs s @ [(p, b)]\<rparr>"

definition inb :: "dev_answers \<Rightarrow> u16 \<Rightarrow> port_state \<Rightarrow> byte \<times> port_state" where
  "inb dev p s = (dev (reads s) p, s\<lparr>reads := reads s + 1\<rparr>)"

definition outbs :: "(u16 \<times> byte) list \<Rightarrow> port_state \<Rightarrow> port_state" where
  "outbs ws s = fold (\<lambda>(p, b). outb p b) ws s"

section \<open>The interrupt controllers\<close>

definition IO_PIC1 :: u16 where "IO_PIC1 = 0x20"
definition IO_PIC2 :: u16 where "IO_PIC2 = 0xA0"
definition IRQ_SLAVE :: nat where "IRQ_SLAVE = 2"

definition irqmask_init :: u16 where
  "irqmask_init = 0xFFFF AND NOT (push_bit IRQ_SLAVE 1)"

definition picsetmask :: "u16 \<Rightarrow> port_state \<Rightarrow> port_state" where
  "picsetmask m s = outb (IO_PIC2 + 1) (ucast (drop_bit 8 m)) (outb (IO_PIC1 + 1) (ucast m) (s\<lparr>irqmask := m\<rparr>))"

definition picenable :: "nat \<Rightarrow> port_state \<Rightarrow> port_state" where
  "picenable irq s = picsetmask (irqmask s AND NOT (push_bit irq 1)) s"

definition picinit :: "port_state \<Rightarrow> port_state" where
  "picinit s =
     (let s = outbs [(IO_PIC1 + 1, 0xFF), (IO_PIC2 + 1, 0xFF),
                (IO_PIC1, 0x11), (IO_PIC1 + 1, ucast T_IRQ0), (IO_PIC1 + 1, push_bit IRQ_SLAVE 1), (IO_PIC1 + 1, 0x3),
                (IO_PIC2, 0x11), (IO_PIC2 + 1, ucast T_IRQ0 + 8), (IO_PIC2 + 1, of_nat IRQ_SLAVE), (IO_PIC2 + 1, 0x3),
                (IO_PIC1, 0x68), (IO_PIC1, 0x0A), (IO_PIC2, 0x68), (IO_PIC2, 0x0A)] s
      in if irqmask s \<noteq> 0xFFFF then picsetmask (irqmask s) s else s)"

section \<open>The timer and the serial line\<close>

definition TIMER_DIV :: "nat \<Rightarrow> nat" where "TIMER_DIV x = (1193182 + x div 2) div x"

definition timerinit :: "port_state \<Rightarrow> port_state" where
  "timerinit s = picenable 0 (outbs [(0x43, 0x00 OR 0x04 OR 0x30),
     (0x40, of_nat (TIMER_DIV 100 mod 256)), (0x40, of_nat (TIMER_DIV 100 div 256))] s)"

definition COM1 :: u16 where "COM1 = 0x3F8"

definition uartputc :: "byte \<Rightarrow> port_state \<Rightarrow> port_state" where
  "uartputc c s = (if \<not> has_uart s then s else outb COM1 c s)"

definition uartinit :: "dev_answers \<Rightarrow> port_state \<Rightarrow> port_state" where
  "uartinit dev s =
     (let s = outbs [(COM1 + 2, 0), (COM1 + 3, 0x80), (COM1, of_nat (115200 div 9600)), (COM1 + 1, 0),
                (COM1 + 3, 0x03), (COM1 + 4, 0), (COM1 + 1, 0x01)] s;
          (st, s) = inb dev (COM1 + 5) s
      in if st = 0xFF then s
         else (let s = s\<lparr>has_uart := True\<rparr>;
                   (_, s) = inb dev (COM1 + 2) s;
                   (_, s) = inb dev COM1 s;
                   s = picenable 4 s
               in fold uartputc (map of_char ''xv6...'' @ [10]) s))"

definition uartgetc :: "dev_answers \<Rightarrow> port_state \<Rightarrow> int \<times> port_state" where
  "uartgetc dev s =
     (if \<not> has_uart s then (-1, s)
      else (let (st, s) = inb dev (COM1 + 5) s in
            if st AND 0x01 = 0 then (-1, s)
            else (let (c, s) = inb dev COM1 s in (uint c, s))))"

text \<open>\<^verbatim>\<open>consoleintr\<close> calls \<^verbatim>\<open>uartgetc\<close> until it returns a negative value; \<open>None\<close> when it never does.\<close>

partial_function (option) uart_chars :: "dev_answers \<Rightarrow> port_state \<Rightarrow> (int list \<times> port_state) option" where
  "uart_chars dev s =
     (case uartgetc dev s of (c, s) \<Rightarrow>
        if c < 0 then Some ([], s)
        else Option.bind (uart_chars dev s) (\<lambda>(cs, s). Some (c # cs, s)))"

definition uartintr :: "dev_answers \<Rightarrow> port_state \<Rightarrow> (('a cons_state_scheme, unit) kop \<times> port_state) option" where
  "uartintr dev s = map_option (\<lambda>(cs, s). (consoleintr cs, s)) (uart_chars dev s)"

section \<open>The disk and the order of initialisation\<close>

text \<open>
  \<^verbatim>\<open>idewait\<close> reads the status port while the busy bit is set (\<open>None\<close> when it always is) and then, if asked to, looks at the
  error bits. \<^verbatim>\<open>ideinit\<close> waits for the first drive without that check, then looks a thousand times for a second one.
\<close>

definition IO_BASE0 :: u16 where "IO_BASE0 = 0x1F0"
definition ATA_STATUS :: u16 where "ATA_STATUS = 7"
definition ATA_SR_BSY :: byte where "ATA_SR_BSY = 0x80"

partial_function (option) ide_ready :: "dev_answers \<Rightarrow> u16 \<Rightarrow> bool \<Rightarrow> port_state \<Rightarrow> (int \<times> port_state) option" where
  "ide_ready dev iobase check_error s =
     (case inb dev (iobase + ATA_STATUS) s of (r, s) \<Rightarrow>
        if r AND ATA_SR_BSY \<noteq> 0 then ide_ready dev iobase check_error s
        else Some (if check_error \<and> r AND (ATA_SR_DF OR ATA_SR_ERR) \<noteq> 0 then -1 else 0, s))"

primrec find_disk1 :: "nat \<Rightarrow> dev_answers \<Rightarrow> port_state \<Rightarrow> port_state" where
  "find_disk1 0 dev s = s"
| "find_disk1 (Suc k) dev s =
     (case inb dev 0x1F7 s of (r, s) \<Rightarrow> if r \<noteq> 0 then s\<lparr>disk1_seen := True\<rparr> else find_disk1 k dev s)"

definition ideinit :: "dev_answers \<Rightarrow> port_state \<Rightarrow> port_state option" where
  "ideinit dev s =
     map_option (\<lambda>(_, s). outb 0x1F6 0xE0 (find_disk1 1000 dev (outb 0x1F6 (0xE0 OR push_bit 4 1) s)))
       (ide_ready dev IO_BASE0 False (picenable 14 s))"

definition consoleinit :: "port_state \<Rightarrow> port_state" where
  "consoleinit s = picenable 1 s"

definition init_devices :: "dev_answers \<Rightarrow> port_state \<Rightarrow> port_state option" where
  "init_devices dev s =
     (let s = picinit s;
          s = consoleinit s;
          s = uartinit dev s
      in map_option timerinit (ideinit dev s))"

definition ports_init :: port_state where
  "ports_init = \<lparr>outs = [], reads = 0, irqmask = irqmask_init, has_uart = False, disk1_seen = False\<rparr>"

section \<open>Segment descriptors\<close>

record segdesc =
  lim_15_0 :: "16 word"
  base_15_0 :: "16 word"
  base_23_16 :: "8 word"
  sd_type :: "4 word"
  sd_s :: "1 word"
  sd_dpl :: "2 word"
  sd_p :: "1 word"
  lim_19_16 :: "4 word"
  sd_avl :: "1 word"
  sd_rsv1 :: "1 word"
  sd_db :: "1 word"
  sd_g :: "1 word"
  base_31_24 :: "8 word"

definition SEG :: "4 word \<Rightarrow> u32 \<Rightarrow> u32 \<Rightarrow> 2 word \<Rightarrow> segdesc" where
  "SEG type base lim dpl =
     \<lparr>lim_15_0 = ucast (drop_bit 12 lim AND 0xFFFF), base_15_0 = ucast (base AND 0xFFFF),
      base_23_16 = ucast (drop_bit 16 base AND 0xFF), sd_type = type, sd_s = 1, sd_dpl = dpl, sd_p = 1,
      lim_19_16 = ucast (drop_bit 28 lim), sd_avl = 0, sd_rsv1 = 0, sd_db = 1, sd_g = 1,
      base_31_24 = ucast (drop_bit 24 base)\<rparr>"

definition SEG_KCODE :: nat where "SEG_KCODE = 1"
definition SEG_KDATA :: nat where "SEG_KDATA = 2"
definition SEG_KCPU :: nat where "SEG_KCPU = 3"
definition SEG_UCODE :: nat where "SEG_UCODE = 4"
definition SEG_UDATA :: nat where "SEG_UDATA = 5"
definition DPL_USER :: "2 word" where "DPL_USER = 3"
definition STA_X :: "4 word" where "STA_X = 8"
definition STA_W :: "4 word" where "STA_W = 2"
definition STA_R :: "4 word" where "STA_R = 2"

text \<open>The operand of \<^verbatim>\<open>lgdt\<close> and \<^verbatim>\<open>lidt\<close>: the limit and the two halves of the address.\<close>

definition table_reg :: "u32 \<Rightarrow> nat \<Rightarrow> u16 list" where
  "table_reg p sz = [of_nat sz - 1, ucast p, ucast (drop_bit 16 p)]"

text \<open>
  The descriptor table of the processor, the operand of \<^verbatim>\<open>lgdt\<close> and the selector put into \<^verbatim>\<open>gs\<close>; \<open>gdt\<close> and
  \<open>cpuvar\<close> are the addresses of \<^verbatim>\<open>c->gdt\<close> and \<^verbatim>\<open>c->cpu\<close>.
\<close>

definition seginit :: "u32 \<Rightarrow> u32 \<Rightarrow> segdesc list \<Rightarrow> segdesc list \<times> u16 list \<times> u16" where
  "seginit gdt cpuvar d =
     (let d = d[SEG_KCODE := SEG (STA_X OR STA_R) 0 0xFFFFFFFF 0];
          d = d[SEG_KDATA := SEG STA_W 0 0xFFFFFFFF 0];
          d = d[SEG_UCODE := SEG (STA_X OR STA_R) 0 0xFFFFFFFF DPL_USER];
          d = d[SEG_UDATA := SEG STA_W 0 0xFFFFFFFF DPL_USER];
          d = d[SEG_KCPU := SEG STA_W cpuvar 8 0]
      in (d, table_reg gdt (8 * length d), of_nat (8 * SEG_KCPU)))"

section \<open>Gate descriptors\<close>

record gatedesc =
  off_15_0 :: "16 word"
  gd_cs :: "16 word"
  gd_args :: "5 word"
  gd_rsv1 :: "3 word"
  gd_type :: "4 word"
  gd_s :: "1 word"
  gd_dpl :: "2 word"
  gd_p :: "1 word"
  off_31_16 :: "16 word"

definition STS_IG32 :: "4 word" where "STS_IG32 = 0xE"
definition STS_TG32 :: "4 word" where "STS_TG32 = 0xF"
definition TV_ENTRIES :: nat where "TV_ENTRIES = 256"

definition SETGATE :: "gatedesc \<Rightarrow> bool \<Rightarrow> u16 \<Rightarrow> u32 \<Rightarrow> 2 word \<Rightarrow> gatedesc" where
  "SETGATE gate istrap sel off d =
     gate\<lparr>off_15_0 := ucast (off AND 0xFFFF), gd_cs := sel, gd_args := 0, gd_rsv1 := 0,
          gd_type := (if istrap then STS_TG32 else STS_IG32), gd_s := 0, gd_dpl := d, gd_p := 1,
          off_31_16 := ucast (drop_bit 16 off)\<rparr>"

definition trapvecinit :: "(nat \<Rightarrow> u32) \<Rightarrow> gatedesc list \<Rightarrow> gatedesc list" where
  "trapvecinit vectors idt =
     (let idt = fold (\<lambda>i idt. idt[i := SETGATE (idt ! i) False (of_nat (8 * SEG_KCODE)) (vectors i) 0]) [0..<TV_ENTRIES] idt;
          n = unat T_SYSCALL
      in idt[n := SETGATE (idt ! n) True (of_nat (8 * SEG_KCODE)) (vectors n) DPL_USER])"

definition idtinit :: "u32 \<Rightarrow> gatedesc list \<Rightarrow> u16 list" where
  "idtinit p idt = table_reg p (8 * length idt)"

section \<open>What the processor reads from the descriptors\<close>

definition seg_base :: "segdesc \<Rightarrow> u32" where
  "seg_base d = ucast (base_15_0 d) OR push_bit 16 (ucast (base_23_16 d)) OR push_bit 24 (ucast (base_31_24 d))"

definition seg_limit :: "segdesc \<Rightarrow> u32" where
  "seg_limit d = (let l = ucast (lim_15_0 d) OR push_bit 16 (ucast (lim_19_16 d))
     in if sd_g d = 1 then push_bit 12 l OR 0xFFF else l)"

definition gate_entry :: "gatedesc \<Rightarrow> u32" where
  "gate_entry g = ucast (off_15_0 g) OR push_bit 16 (ucast (off_31_16 g))"

lemma low_half: "ucast (ucast (w AND 0xFFFF) :: u16) OR push_bit 16 (ucast (ucast (drop_bit 16 w) :: u16)) = (w :: u32)"
proof -
  have m: "(0xFFFF :: u32) = mask 16" by (simp add: mask_eq_exp_minus_1)
  show ?thesis unfolding m by (rule bit_word_eqI) (auto simp: bit_simps)
qed

lemma seg_base_SEG: "seg_base (SEG ty base lim dpl) = base"
proof -
  have m: "(0xFFFF :: u32) = mask 16" "(0xFF :: u32) = mask 8" by (simp_all add: mask_eq_exp_minus_1)
  have "ucast (ucast (base AND mask 16) :: u16) OR push_bit 16 (ucast (ucast (drop_bit 16 base AND mask 8) :: byte)) OR
      push_bit 24 (ucast (ucast (drop_bit 24 base) :: byte)) = base"
    by (rule bit_word_eqI) (auto simp: bit_simps; rule ccontr; simp)
  then show ?thesis by (simp add: seg_base_def SEG_def m)
qed

lemma seg_limit_SEG: "seg_limit (SEG ty base lim dpl) = lim OR 0xFFF"
proof -
  have m: "(0xFFFF :: u32) = mask 16" "(0xFFF :: u32) = mask 12" by (simp_all add: mask_eq_exp_minus_1)
  have "push_bit 12 (ucast (ucast (drop_bit 12 lim AND mask 16) :: u16) OR push_bit 16 (ucast (ucast (drop_bit 28 lim) :: 4 word))) OR
      mask 12 = lim OR mask 12"
    by (rule bit_word_eqI) (auto simp: bit_simps; rule ccontr; simp)
  then show ?thesis by (simp add: seg_limit_def SEG_def Let_def m)
qed

lemma gate_entry_SETGATE: "gate_entry (SETGATE g tr sel off d) = off"
  by (simp add: gate_entry_def SETGATE_def low_half)

section \<open>The tables\<close>

lemma gates_upto:
  "length idt = TV_ENTRIES \<Longrightarrow> n \<le> TV_ENTRIES \<Longrightarrow>
   fold (\<lambda>i idt. idt[i := SETGATE (idt ! i) False sel (vectors i) 0]) [0..<n] idt =
   map (\<lambda>i. SETGATE (idt ! i) False sel (vectors i) 0) [0..<n] @ drop n idt"
proof (induction n)
  case (Suc n)
  then have "drop n idt = idt ! n # drop (Suc n) idt" by (simp add: Cons_nth_drop_Suc)
  then show ?case using Suc by (simp add: nth_append list_update_append)
qed simp

text \<open>A gate the kernel may use: present, a 32-bit interrupt or trap gate into the kernel code segment, nothing reserved set.\<close>

definition gate_ok :: "gatedesc \<Rightarrow> bool" where
  "gate_ok g \<longleftrightarrow> gd_p g = 1 \<and> gd_s g = 0 \<and> gd_args g = 0 \<and> gd_rsv1 g = 0 \<and> gd_cs g = of_nat (8 * SEG_KCODE) \<and>
     (gd_type g = STS_IG32 \<or> gd_type g = STS_TG32)"

lemma gate_ok_SETGATE: "gate_ok (SETGATE g tr (of_nat (8 * SEG_KCODE)) off d)"
  by (simp add: gate_ok_def SETGATE_def)

text \<open>
  C35 (the interrupt table): whatever the table held, after \<^verbatim>\<open>trapvecinit\<close> every one of its 256 entries is
  a well-formed gate that leads to its own vector in the kernel's code segment; user code can raise
  exactly one of them with an \<^verbatim>\<open>int\<close> instruction, the system call, which is also the only one that leaves
  interrupts enabled.
\<close>

theorem trapvecinit_gates:
  assumes "length idt = TV_ENTRIES"
  shows "length (trapvecinit vectors idt) = TV_ENTRIES \<and>
    (\<forall>i < TV_ENTRIES. gate_ok (trapvecinit vectors idt ! i) \<and> gate_entry (trapvecinit vectors idt ! i) = vectors i \<and>
       (gd_dpl (trapvecinit vectors idt ! i) = DPL_USER \<longleftrightarrow> i = unat T_SYSCALL) \<and>
       (gd_type (trapvecinit vectors idt ! i) = STS_TG32 \<longleftrightarrow> i = unat T_SYSCALL))"
proof -
  let ?sel = "of_nat (8 * SEG_KCODE) :: u16"
  let ?t = "map (\<lambda>i. SETGATE (idt ! i) False ?sel (vectors i) 0) [0..<TV_ENTRIES]"
  have t: "trapvecinit vectors idt = ?t[64 := SETGATE (?t ! 64) True ?sel (vectors 64) DPL_USER]"
    using assms gates_upto [OF assms order_refl] by (simp add: trapvecinit_def T_SYSCALL_def Let_def)
  have "gate_ok (trapvecinit vectors idt ! i) \<and> gate_entry (trapvecinit vectors idt ! i) = vectors i \<and>
      (gd_dpl (trapvecinit vectors idt ! i) = DPL_USER \<longleftrightarrow> i = 64) \<and> (gd_type (trapvecinit vectors idt ! i) = STS_TG32 \<longleftrightarrow> i = 64)"
    if "i < TV_ENTRIES" for i
    using that by (cases "i = 64") (simp_all add: t gate_ok_SETGATE gate_entry_SETGATE, simp_all add: SETGATE_def gate_ok_def DPL_USER_def STS_IG32_def STS_TG32_def TV_ENTRIES_def)
  then show ?thesis by (simp add: t T_SYSCALL_def)
qed

definition zero_gate :: gatedesc where
  "zero_gate = \<lparr>off_15_0 = 0, gd_cs = 0, gd_args = 0, gd_rsv1 = 0, gd_type = 0, gd_s = 0, gd_dpl = 0, gd_p = 0, off_31_16 = 0\<rparr>"

theorem trapvecinit_gates_witness:
  "gate_entry (trapvecinit (\<lambda>i. 0x80105000 + of_nat (10 * i)) (replicate 256 zero_gate) ! 64) = 0x80105280 \<and>
   gd_dpl (trapvecinit (\<lambda>i. 0x80105000 + of_nat (10 * i)) (replicate 256 zero_gate) ! 14) \<noteq> DPL_USER"
  using trapvecinit_gates [of "replicate 256 zero_gate" "\<lambda>i. 0x80105000 + of_nat (10 * i)"]
  by (simp add: TV_ENTRIES_def T_SYSCALL_def)

text \<open>The segments are flat, and the one of the processor's variables starts where they are.\<close>

lemma seginit_segments:
  assumes "length d = 7"
  shows "(let (d', reg, gs) = seginit gdt v d in length d' = 7 \<and> gs = 24 \<and> reg ! 0 = 55 \<and>
    (\<forall>k \<in> {SEG_KCODE, SEG_KDATA, SEG_UCODE, SEG_UDATA}. seg_base (d' ! k) = 0 \<and> seg_limit (d' ! k) = 0xFFFFFFFF \<and>
       (sd_dpl (d' ! k) = DPL_USER \<longleftrightarrow> k = SEG_UCODE \<or> k = SEG_UDATA)) \<and>
    seg_base (d' ! SEG_KCPU) = v \<and> 8 \<le> seg_limit (d' ! SEG_KCPU))"
  using assms
  by (simp add: seginit_def Let_def SEG_KCODE_def SEG_KDATA_def SEG_KCPU_def SEG_UCODE_def SEG_UDATA_def
        seg_base_SEG seg_limit_SEG table_reg_def) (simp add: SEG_def DPL_USER_def)

section \<open>The interrupt lines\<close>

text \<open>The last byte written to a port.\<close>

definition port_value :: "u16 \<Rightarrow> port_state \<Rightarrow> byte option" where
  "port_value p s = map_of (rev (outs s)) p"

lemma port_value_outb: "port_value p (outb q b s) = (if p = q then Some b else port_value p s)"
  by (simp add: port_value_def outb_def)

lemma port_value_outbs: "port_value p (outbs ws s) = (case map_of (rev ws) p of None \<Rightarrow> port_value p s | Some b \<Rightarrow> Some b)"
  by (induction ws arbitrary: s) (auto simp: outbs_def port_value_outb map_add_def split: option.split)

text \<open>The controllers let a line through when its bit in their mask registers is clear.\<close>

definition line_open :: "nat \<Rightarrow> port_state \<Rightarrow> bool" where
  "line_open irq s \<longleftrightarrow>
     (if irq < 8 then \<exists>b. port_value 0x21 s = Some b \<and> \<not> bit b irq
      else \<exists>b. port_value 0xA1 s = Some b \<and> \<not> bit b (irq - 8))"

text \<open>The mask in memory is the one the controllers have.\<close>

definition masked :: "port_state \<Rightarrow> bool" where
  "masked s \<longleftrightarrow> port_value 0x21 s = Some (ucast (irqmask s)) \<and> port_value 0xA1 s = Some (ucast (drop_bit 8 (irqmask s)))"

lemma masked_line: "masked s \<Longrightarrow> irq < 16 \<Longrightarrow> line_open irq s \<longleftrightarrow> \<not> bit (irqmask s) irq"
  by (auto simp: masked_def line_open_def bit_simps)

definition mask_port :: "u16 \<Rightarrow> bool" where
  "mask_port p \<longleftrightarrow> p = 0x21 \<or> p = 0xA1"

lemma frame_outb [simp]:
  "irqmask (outb q b s) = irqmask s" "reads (outb q b s) = reads s" "has_uart (outb q b s) = has_uart s"
  by (simp_all add: outb_def)

lemma frame_outbs [simp]:
  "irqmask (outbs ws s) = irqmask s" "reads (outbs ws s) = reads s" "has_uart (outbs ws s) = has_uart s"
  by (induction ws arbitrary: s) (auto simp: outbs_def)

lemma masked_outb [simp]: "\<not> mask_port q \<Longrightarrow> masked (outb q b s) = masked s"
  by (auto simp: masked_def mask_port_def port_value_outb)

lemma masked_outbs [simp]: "\<forall>(q, b) \<in> set ws. \<not> mask_port q \<Longrightarrow> masked (outbs ws s) = masked s"
  by (induction ws arbitrary: s) (auto simp: outbs_def)

lemma masked_fields [simp]:
  "masked (s\<lparr>reads := n\<rparr>) = masked s" "masked (s\<lparr>has_uart := u\<rparr>) = masked s" "masked (s\<lparr>disk1_seen := v\<rparr>) = masked s"
  by (simp_all add: masked_def port_value_def)

lemma picsetmask_run: "masked (picsetmask m s)" "irqmask (picsetmask m s) = m" "reads (picsetmask m s) = reads s" "has_uart (picsetmask m s) = has_uart s"
  by (simp_all add: picsetmask_def masked_def port_value_outb IO_PIC1_def IO_PIC2_def)

lemma picenable_run:
  "masked (picenable irq s)" "bit (irqmask (picenable irq s)) i \<longleftrightarrow> bit (irqmask s) i \<and> i \<noteq> irq"
  "reads (picenable irq s) = reads s" "has_uart (picenable irq s) = has_uart s"
  using bit_imp_le_length [of "irqmask s" i] by (auto simp: picenable_def picsetmask_run bit_simps)

lemma picinit_run:
  assumes "irqmask s \<noteq> 0xFFFF"
  shows "masked (picinit s)" "irqmask (picinit s) = irqmask s" "reads (picinit s) = reads s" "has_uart (picinit s) = has_uart s"
  using assms by (simp_all add: picinit_def Let_def picsetmask_run)

lemma ports_COM1: "\<not> mask_port COM1" "\<not> mask_port (COM1 + 1)" "\<not> mask_port (COM1 + 2)" "\<not> mask_port (COM1 + 3)" "\<not> mask_port (COM1 + 4)"
  by (simp_all add: mask_port_def COM1_def)

lemma uartputc_frame [simp]:
  "masked (uartputc c s) = masked s" "irqmask (uartputc c s) = irqmask s" "has_uart (uartputc c s) = has_uart s"
  using ports_COM1(1) by (auto simp: uartputc_def)

lemma uartinit_run:
  assumes "masked s" "\<not> has_uart s"
  shows "masked (uartinit dev s) \<and>
    (bit (irqmask (uartinit dev s)) i \<longleftrightarrow> bit (irqmask s) i \<and> \<not> (has_uart (uartinit dev s) \<and> i = 4))"
  using assms ports_COM1 by (simp add: uartinit_def inb_def Let_def picenable_run)

lemma find_disk1_run [simp]: "masked (find_disk1 k dev s) = masked s" "irqmask (find_disk1 k dev s) = irqmask s" "has_uart (find_disk1 k dev s) = has_uart s"
  by (induction k arbitrary: s) (auto simp: inb_def)

text \<open>The drive is not busy for ever.\<close>

definition drive_ready :: "dev_answers \<Rightarrow> u16 \<Rightarrow> bool" where
  "drive_ready dev iobase \<longleftrightarrow> (\<forall>n. \<exists>k \<ge> n. dev k (iobase + ATA_STATUS) AND ATA_SR_BSY = 0)"

text \<open>Then the wait ends, at the first read that finds the busy bit clear; the error bits of that read decide the answer.\<close>

lemma ide_ready_run:
  assumes "drive_ready dev iobase"
  shows "\<exists>n \<ge> reads s. dev n (iobase + ATA_STATUS) AND ATA_SR_BSY = 0 \<and>
    (\<forall>k. reads s \<le> k \<and> k < n \<longrightarrow> dev k (iobase + ATA_STATUS) AND ATA_SR_BSY \<noteq> 0) \<and>
    ide_ready dev iobase c s =
      Some (if c \<and> dev n (iobase + ATA_STATUS) AND (ATA_SR_DF OR ATA_SR_ERR) \<noteq> 0 then -1 else 0, s\<lparr>reads := n + 1\<rparr>)"
proof -
  let ?d = "\<lambda>k. dev k (iobase + ATA_STATUS)"
  obtain k where "reads s \<le> k" "?d k AND ATA_SR_BSY = 0" using assms by (auto simp: drive_ready_def)
  then show ?thesis
  proof (induction "k - reads s" arbitrary: s)
    case 0
    then have "?d (reads s) AND ATA_SR_BSY = 0" by simp
    then show ?case by (intro exI [of _ "reads s"]) (subst ide_ready.simps, auto simp: inb_def)
  next
    case (Suc d)
    show ?case
    proof (cases "?d (reads s) AND ATA_SR_BSY = 0")
      case False
      let ?s = "s\<lparr>reads := reads s + 1\<rparr>"
      have step: "ide_ready dev iobase c s = ide_ready dev iobase c ?s" using False by (subst ide_ready.simps) (simp add: inb_def)
      have "d = k - reads ?s" "reads ?s \<le> k" using Suc.hyps(2) Suc.prems(1) by simp_all
      from Suc.hyps(1) [OF this Suc.prems(2)] obtain n where n: "n \<ge> reads ?s" "?d n AND ATA_SR_BSY = 0"
        "\<forall>k. reads ?s \<le> k \<and> k < n \<longrightarrow> ?d k AND ATA_SR_BSY \<noteq> 0"
        "ide_ready dev iobase c ?s = Some (if c \<and> ?d n AND (ATA_SR_DF OR ATA_SR_ERR) \<noteq> 0 then -1 else 0, ?s\<lparr>reads := n + 1\<rparr>)"
        by blast
      have "?d j AND ATA_SR_BSY \<noteq> 0" if "reads s \<le> j" "j < n" for j
        using n(3) False that by (cases "j = reads s") auto
      then show ?thesis using n step by (intro exI [of _ n]) auto
    next
      case True
      then show ?thesis by (intro exI [of _ "reads s"]) (subst ide_ready.simps, auto simp: inb_def)
    qed
  qed
qed

text \<open>
  C36 (interrupt lines): when the first drive is not busy for ever, the set-up of the devices ends, and the interrupt
  controllers then let through exactly the lines of the timer, the keyboard, the second controller and the
  disk, and that of the serial line when there is one.
\<close>

theorem init_devices_lines:
  assumes "drive_ready dev IO_BASE0"
  shows "\<exists>t. init_devices dev ports_init = Some t \<and>
    (\<forall>irq < 16. line_open irq t \<longleftrightarrow> irq \<in> {0, 1, 2, 14} \<or> irq = 4 \<and> has_uart t)"
proof -
  have m: "bit irqmask_init i \<longleftrightarrow> i < 16 \<and> i \<noteq> 2" for i
  proof -
    have e: "irqmask_init = mask 16 AND NOT (push_bit 2 1)" by (simp add: irqmask_init_def IRQ_SLAVE_def mask_eq_exp_minus_1)
    show ?thesis unfolding e bit_and_iff bit_mask_iff bit_not_iff bit_push_bit_iff bit_1_iff by auto
  qed
  have i0: "irqmask ports_init = irqmask_init" "\<not> has_uart ports_init" "irqmask_init \<noteq> 0xFFFF"
    by (simp_all add: ports_init_def irqmask_init_def IRQ_SLAVE_def)
  define u where "u = uartinit dev (consoleinit (picinit ports_init))"
  have u: "masked u" "\<And>i. bit (irqmask u) i \<longleftrightarrow> i < 16 \<and> i \<noteq> 2 \<and> i \<noteq> 1 \<and> \<not> (has_uart u \<and> i = 4)"
    using uartinit_run [of "consoleinit (picinit ports_init)" dev] picinit_run [of ports_init] i0
    by (auto simp: u_def consoleinit_def picenable_run m)
  obtain n where n: "ide_ready dev IO_BASE0 False (picenable 14 u) = Some (0, (picenable 14 u)\<lparr>reads := n\<rparr>)"
    using ide_ready_run [OF assms, of "picenable 14 u" False] by auto
  let ?v = "outb 0x1F6 0xE0 (find_disk1 1000 dev (outb 0x1F6 (0xE0 OR push_bit 4 1) ((picenable 14 u)\<lparr>reads := n\<rparr>)))"
  have "init_devices dev ports_init = Some (timerinit ?v)"
    using n by (simp add: init_devices_def ideinit_def u_def [symmetric])
  moreover have "masked (timerinit ?v)" "has_uart (timerinit ?v) = has_uart u"
    by (simp_all add: timerinit_def picenable_run)
  moreover have "bit (irqmask (timerinit ?v)) i \<longleftrightarrow> bit (irqmask u) i \<and> i \<noteq> 14 \<and> i \<noteq> 0" for i
    by (auto simp: timerinit_def picenable_run)
  ultimately show ?thesis using u(2) by (intro exI [of _ "timerinit ?v"]) (auto simp: masked_line)
qed

theorem init_devices_lines_witness:
  "\<exists>t. init_devices (\<lambda>n p. if p = COM1 + 5 \<or> n < 10 then 0xFF else 0x50) ports_init = Some t \<and> line_open 0 t \<and> line_open 14 t \<and> \<not> line_open 7 t"
proof -
  have "\<exists>k \<ge> n. (if IO_BASE0 + ATA_STATUS = COM1 + 5 \<or> k < 10 then 0xFF else 0x50 :: byte) AND ATA_SR_BSY = 0" for n :: nat
    by (intro exI [of _ "n + 10"]) (simp add: COM1_def IO_BASE0_def ATA_STATUS_def ATA_SR_BSY_def)
  then have "drive_ready (\<lambda>n p. if p = COM1 + 5 \<or> n < 10 then 0xFF else 0x50) IO_BASE0" by (simp add: drive_ready_def)
  from init_devices_lines [OF this] show ?thesis by auto
qed

end
