(* ===== verification/Console_Out.thy ===== *)
theory Console_Out
  imports Devices
begin

unbundle bit_operations_syntax

text \<open>
  Output of the console (\<^verbatim>\<open>console.c\<close>, \<^verbatim>\<open>procutils.c\<close>): every character goes to the serial line and to the CGA
  screen; \<^verbatim>\<open>cprintf\<close> formats for it, \<^verbatim>\<open>panic\<close> reports the call stack. The properties show that the cursor
  never leaves the screen, so that printing does not panic.
\<close>

section \<open>Characters\<close>

text \<open>\<open>None\<close>: the kernel has stopped, by a panic or in the loop of a processor that finds \<^verbatim>\<open>panicked\<close> set.\<close>

record screen =
  ports :: port_state
  cga_pos :: nat
  crt :: "u16 list"
  panicked :: bool

definition consputc :: "int \<Rightarrow> screen \<Rightarrow> screen option" where
  "consputc c s =
     (if panicked s then None
      else
        (let s = (if c = BACKSPACE then s\<lparr>ports := uartputc 8 (uartputc 32 (uartputc 8 (ports s)))\<rparr>
                  else s\<lparr>ports := uartputc (word_of_int c) (ports s)\<rparr>)
         in case cgaputc c (cga_pos s) (crt s) of
              None \<Rightarrow> None
            | Some (p, t) \<Rightarrow> Some (s\<lparr>cga_pos := p, crt := t\<rparr>)))"

fun consputs :: "int list \<Rightarrow> screen \<Rightarrow> screen option" where
  "consputs [] s = Some s"
| "consputs (c # cs) s = Option.bind (consputc c s) (consputs cs)"

section \<open>Formatted output\<close>

datatype karg = KNum u32 | KStr "byte list"

definition chars :: "string \<Rightarrow> int list" where
  "chars cs = map of_char cs"

text \<open>The characters printed; \<open>None\<close> when the arguments do not fit the format.\<close>

fun cprintf_chars :: "byte list \<Rightarrow> karg list \<Rightarrow> int list option" where
  "cprintf_chars [] ap = Some []"
| "cprintf_chars (c # fmt) ap =
     (if c = 0 then Some []
      else if c \<noteq> of_char CHR ''%'' then map_option ((#) (uint c)) (cprintf_chars fmt ap)
      else (case fmt of
          [] \<Rightarrow> Some []
        | d # fmt \<Rightarrow>
            if d = 0 then Some []
            else if d = of_char CHR ''d'' then
              (case ap of KNum x # ap \<Rightarrow> map_option ((@) (chars (printint x 10 True))) (cprintf_chars fmt ap) | _ \<Rightarrow> None)
            else if d = of_char CHR ''x'' \<or> d = of_char CHR ''p'' then
              (case ap of KNum x # ap \<Rightarrow> map_option ((@) (chars (printint x 16 False))) (cprintf_chars fmt ap) | _ \<Rightarrow> None)
            else if d = of_char CHR ''s'' then
              (case ap of
                 KStr bs # ap \<Rightarrow> map_option ((@) (map uint (cstr bs))) (cprintf_chars fmt ap)
               | KNum x # ap \<Rightarrow>
                   if x = 0 then map_option ((@) (chars ''(null)'')) (cprintf_chars fmt ap) else None
               | [] \<Rightarrow> None)
            else if d = of_char CHR ''%'' then map_option ((#) (uint d)) (cprintf_chars fmt ap)
            else map_option ((@) [of_char CHR ''%'', uint d]) (cprintf_chars fmt ap)))"

definition cprintf :: "byte list \<Rightarrow> karg list \<Rightarrow> screen \<Rightarrow> screen option" where
  "cprintf fmt ap s = Option.bind (cprintf_chars fmt ap) (\<lambda>cs. consputs cs s)"

section \<open>The call stack and panic\<close>

primrec callerpcs_loop :: "nat \<Rightarrow> memory \<Rightarrow> addr \<Rightarrow> u32 list" where
  "callerpcs_loop 0 m ebp = []"
| "callerpcs_loop (Suc k) m ebp =
     (if ebp = 0 \<or> ebp < KERNBASE \<or> ebp = 0xFFFFFFFF then replicate (Suc k) 0
      else ld32 m (ebp + 4) # callerpcs_loop k m (ld32 m ebp))"

definition getcallerpcs :: "memory \<Rightarrow> addr \<Rightarrow> u32 list" where
  "getcallerpcs m v = callerpcs_loop 10 m (v - 8)"

text \<open>What \<^verbatim>\<open>panic\<close> leaves on the screen; its argument is a format without arguments. It does not return.\<close>

definition panic_screen :: "memory \<Rightarrow> addr \<Rightarrow> byte list \<Rightarrow> screen \<Rightarrow> screen option" where
  "panic_screen m v msg s =
     Option.bind (cprintf (map of_char ''cpu panic: '') [] s) (\<lambda>s.
     Option.bind (cprintf msg [] s) (\<lambda>s.
     Option.bind (cprintf [10] [] s) (\<lambda>s.
     Option.bind (fold (\<lambda>pc r. Option.bind r (cprintf (map of_char '' %p'') [KNum pc])) (getcallerpcs m v) (Some s)) (\<lambda>s.
       Some (s\<lparr>panicked := True\<rparr>)))))"

section \<open>The cursor stays on the screen\<close>

definition screen_ok :: "screen \<Rightarrow> bool" where
  "screen_ok s \<longleftrightarrow> cga_pos s < 24 * 80 \<and> length (crt s) = 25 * 80 \<and> \<not> panicked s"

lemma newline_pos: "p < 1920 \<Longrightarrow> p + (80 - p mod 80) \<le> (1920 :: nat)"
proof -
  assume p: "p < 1920"
  have "p = 80 * (p div 80) + p mod 80" by simp
  moreover have "p div 80 < 24" using p by (simp add: less_mult_imp_div_less)
  ultimately show ?thesis using mod_less_divisor [of 80 p] by linarith
qed

lemma cgaputc_ok:
  assumes p: "p < 1920" and l: "length t = 2000"
  shows "\<exists>q u. cgaputc c p t = Some (q, u) \<and> q < 1920 \<and> length u = 2000"
proof -
  have "\<exists>q u. cga_move c p t = Some (q, u) \<and> q \<le> 1920 \<and> length u = 2000"
    using p l newline_pos [OF p] by (simp add: cga_move_def) linarith
  then obtain q u where m: "cga_move c p t = Some (q, u)" "q \<le> 1920" "length u = 2000" by blast
  show ?thesis
  proof (cases "q div 80 \<ge> 24")
    case True
    then have "q = 1920" using m(2) div_times_less_eq_dividend [of q 80] by linarith
    then show ?thesis using m by (simp add: cgaputc_def cga_scroll_def Let_def splice_def)
  next
    case False
    then have "q \<noteq> 1920" by auto
    then show ?thesis using m False by (simp add: cgaputc_def cga_scroll_def)
  qed
qed

text \<open>What a character sends over the serial line.\<close>

definition wire :: "int \<Rightarrow> (u16 \<times> byte) list" where
  "wire c = (if c = BACKSPACE then [(COM1, 8), (COM1, 32), (COM1, 8)] else [(COM1, word_of_int c)])"

lemma uart_log [simp]:
  "outs (uartputc b q) = outs q @ (if has_uart q then [(COM1, b)] else [])"
  by (simp add: uartputc_def outb_def)

lemma consputc_ok:
  assumes "screen_ok s"
  shows "\<exists>t. consputc c s = Some t \<and> screen_ok t \<and> has_uart (ports t) = has_uart (ports s) \<and>
    outs (ports t) = outs (ports s) @ (if has_uart (ports s) then wire c else [])"
proof -
  obtain q u where q: "cgaputc c (cga_pos s) (crt s) = Some (q, u)" "q < 1920" "length u = 2000"
    using cgaputc_ok [of "cga_pos s" "crt s" c] assms by (auto simp: screen_ok_def)
  then show ?thesis using assms by (cases "c = BACKSPACE") (simp_all add: consputc_def screen_ok_def wire_def)
qed

lemma consputs_ok:
  "screen_ok s \<Longrightarrow> \<exists>t. consputs cs s = Some t \<and> screen_ok t \<and>
    outs (ports t) = outs (ports s) @ (if has_uart (ports s) then concat (map wire cs) else [])"
proof (induction cs arbitrary: s)
  case (Cons c cs)
  obtain t where t: "consputc c s = Some t" "screen_ok t" "has_uart (ports t) = has_uart (ports s)"
      "outs (ports t) = outs (ports s) @ (if has_uart (ports s) then wire c else [])"
    using consputc_ok [OF Cons.prems] by blast
  then show ?case using Cons.IH [OF t(2)] by auto
qed simp

text \<open>Plain characters that fit on the screen are shown one after the other, from the cursor on.\<close>

lemma consputc_plain:
  assumes "screen_ok s" "c \<noteq> 10" "c \<noteq> BACKSPACE" "cga_pos s + 1 < 1920"
  shows "\<exists>t. consputc c s = Some t \<and> cga_pos t = cga_pos s + 1 \<and>
    crt t = (crt s)[cga_pos s := word_of_int c AND 0xFF OR 0x0700, cga_pos s + 1 := 0x0720]"
proof -
  have "\<not> 24 \<le> (cga_pos s + 1) div 80" using assms(4) by (simp add: not_le less_mult_imp_div_less)
  then show ?thesis using assms by (simp add: consputc_def screen_ok_def cgaputc_def cga_move_def cga_scroll_def)
qed

lemma consputs_plain:
  "screen_ok s \<Longrightarrow> \<forall>c \<in> set cs. c \<noteq> 10 \<and> c \<noteq> BACKSPACE \<Longrightarrow> cga_pos s + length cs < 1920 \<Longrightarrow> consputs cs s = Some t \<Longrightarrow>
   cga_pos t = cga_pos s + length cs \<and> (\<forall>k < cga_pos s. crt t ! k = crt s ! k) \<and>
   (\<forall>k < length cs. crt t ! (cga_pos s + k) = word_of_int (cs ! k) AND 0xFF OR 0x0700)"
proof (induction cs arbitrary: s)
  case (Cons c cs)
  obtain u where u: "consputc c s = Some u" "cga_pos u = cga_pos s + 1"
      "crt u = (crt s)[cga_pos s := word_of_int c AND 0xFF OR 0x0700, cga_pos s + 1 := 0x0720]"
    using consputc_plain [OF Cons.prems(1), of c] Cons.prems(2,3) by auto
  have ok: "screen_ok u" using consputc_ok [OF Cons.prems(1), of c] u(1) by auto
  have pos: "cga_pos s < length (crt s)" using Cons.prems(1) by (simp add: screen_ok_def)
  have IH: "cga_pos t = cga_pos u + length cs" "\<And>k. k < cga_pos u \<Longrightarrow> crt t ! k = crt u ! k"
      "\<And>k. k < length cs \<Longrightarrow> crt t ! (cga_pos u + k) = word_of_int (cs ! k) AND 0xFF OR 0x0700"
    using Cons.IH [OF ok] Cons.prems u(1,2) by auto
  have "crt t ! (cga_pos s + k) = word_of_int ((c # cs) ! k) AND 0xFF OR 0x0700" if "k < length (c # cs)" for k
    using that IH(2) [of "cga_pos s"] IH(3) [of "k - 1"] u(2,3) pos by (cases k) simp_all
  then show ?case using IH(1,2) u(2,3) by simp
qed simp

text \<open>
  C37 (console output): from a cursor above the last line of the screen any sequence of characters, newlines
  and backspaces can be printed: the kernel does not panic, the cursor stays above the last line, and
  the serial line, when there is one, carries every character in order (a backspace as one that wipes the
  character out); characters that need no newline and no scrolling appear on the screen one after the other.
\<close>

theorem console_output:
  assumes "screen_ok s"
  shows "\<exists>t. consputs cs s = Some t \<and> screen_ok t \<and>
    outs (ports t) = outs (ports s) @ (if has_uart (ports s) then concat (map wire cs) else []) \<and>
    ((\<forall>c \<in> set cs. c \<noteq> 10 \<and> c \<noteq> BACKSPACE) \<and> cga_pos s + length cs < 24 * 80 \<longrightarrow>
       cga_pos t = cga_pos s + length cs \<and>
       (\<forall>k < length cs. crt t ! (cga_pos s + k) = word_of_int (cs ! k) AND 0xFF OR 0x0700))"
proof -
  obtain t where t: "consputs cs s = Some t" "screen_ok t"
      "outs (ports t) = outs (ports s) @ (if has_uart (ports s) then concat (map wire cs) else [])"
    using consputs_ok [OF assms] by blast
  then show ?thesis using consputs_plain [OF assms _ _ t(1)] by (intro exI [of _ t]) auto
qed

definition demo_screen :: screen where
  "demo_screen = \<lparr>ports = ports_init\<lparr>has_uart := True\<rparr>, cga_pos = 1919, crt = replicate 2000 0, panicked = False\<rparr>"

theorem console_output_witness:
  "\<exists>t. consputs [72, 10, BACKSPACE] demo_screen = Some t \<and> cga_pos t < 24 * 80 \<and>
     outs (ports t) = [(COM1, 72), (COM1, 10), (COM1, 8), (COM1, 32), (COM1, 8)]"
proof -
  have "screen_ok demo_screen" by (simp add: screen_ok_def demo_screen_def)
  from console_output [OF this, of "[72, 10, BACKSPACE]"] show ?thesis
    by (auto simp: screen_ok_def demo_screen_def ports_init_def wire_def BACKSPACE_def)
qed

lemma length_getcallerpcs: "length (getcallerpcs m v) = 10"
proof -
  have "length (callerpcs_loop k m e) = k" for k e by (induction k arbitrary: e) simp_all
  then show ?thesis by (simp add: getcallerpcs_def)
qed

end
