(* ===== verification/Proc_List.thy ===== *)
theory Proc_List
  imports Console_Out
begin

text \<open>
  The process listings of the console (\<^verbatim>\<open>dbg_procdump\<close>, \<^verbatim>\<open>dbg_lstprocs\<close>, \<^verbatim>\<open>dbg_lstslp\<close>, \<^verbatim>\<open>dbg_lstrdy\<close> of \<^verbatim>\<open>process.c\<close>),
  as what they print. The address of the object a process sleeps on and the frame pointer in its saved
  context are given as functions, since the model has no addresses for them.
\<close>

section \<open>The listings\<close>

definition stat_name :: "procstat \<Rightarrow> string" where
  "stat_name st = (case st of SUNUSED \<Rightarrow> ''SUNUSED'' | SEMBRYO \<Rightarrow> ''SEMBRYO'' | SWAIT \<Rightarrow> ''SWAIT'' |
     SSLEEPING \<Rightarrow> ''SSLEEPING'' | READY \<Rightarrow> ''READY'' | SRUN \<Rightarrow> ''SRUN'' | SZOMB \<Rightarrow> ''SZOMB'')"

definition kstr :: "string \<Rightarrow> karg" where "kstr cs = KStr (map of_char cs)"

definition kint :: "int \<Rightarrow> karg" where "kint n = KNum (word_of_int n)"

definition kind_name :: "proc \<Rightarrow> karg" where
  "kind_name p = kstr (if p_procp p \<noteq> 0 then ''proc'' else ''thread'')"

definition nlf :: string where "nlf = [CHR 0x0A]"

definition put :: "string \<Rightarrow> karg list \<Rightarrow> screen option \<Rightarrow> screen option" where
  "put fmt ap r = Option.bind r (cprintf (map of_char fmt) ap)"

definition dbg_procdump :: "(nat \<Rightarrow> addr) \<Rightarrow> 'a proc_state_scheme \<Rightarrow> screen \<Rightarrow> screen option" where
  "dbg_procdump ebp s scr =
     fold (\<lambda>i r.
       (let p = pof s i in
        if p_stat p = SUNUSED then r
        else put nlf []
          ((if p_stat p = SSLEEPING
            then fold (\<lambda>pc. put '' %p'' [KNum pc]) (takeWhile (\<lambda>pc. pc \<noteq> 0) (getcallerpcs (mem s) (ebp i + 8)))
            else id)
           (put ''%d %s %s'' [kint (p_pid p), kstr (stat_name (p_stat p)), KStr (p_name p)] r))))
       [0..<NPROC] (Some scr)"

definition dbg_lstprocs :: "(chan \<Rightarrow> u32) \<Rightarrow> 'a proc_state_scheme \<Rightarrow> screen \<Rightarrow> screen option" where
  "dbg_lstprocs ca s scr =
     fold (\<lambda>i r.
       (let p = pof s i in
        if p_stat p = SUNUSED then r
        else put (''%d %s %s %s ts:%d avgslp:%d dpri:%d nice:%d chan:%p psz:%d msz: %d vsz: %d'' @ nlf)
          [kint (p_pid p), KStr (p_name p), kstr (stat_name (p_stat p)), kind_name p, kint (p_time_slice p),
           kint (p_avgslp p), kint (p_dpri p), kint (p_nice p), KNum (ca (p_chan p)), KNum (p_size p),
           KNum (procmemsz i s), KNum (procvmsz i s)] r))
       [0..<NPROC] (put nlf [] (Some scr))"

definition dbg_lstslp :: "(chan \<Rightarrow> u32) \<Rightarrow> 'a proc_state_scheme \<Rightarrow> screen \<Rightarrow> screen option" where
  "dbg_lstslp ca s scr =
     fold (\<lambda>i r.
       (let p = pof s i in
        if p_stat p \<noteq> SSLEEPING then r
        else put (''Sleeping %s PID: %d, chan: %p'' @ nlf) [kind_name p, kint (p_pid p), KNum (ca (p_chan p))] r))
       [0..<NPROC] (Some scr)"

definition dbg_lstrdy :: "(chan \<Rightarrow> u32) \<Rightarrow> 'a proc_state_scheme \<Rightarrow> screen \<Rightarrow> screen option" where
  "dbg_lstrdy ca s scr =
     (let r = fold (\<lambda>i r.
                (let p = pof s i in
                 if p_stat p \<noteq> READY then r
                 else put (''%d %s %s %s ts:%d avgslp:%d dpri:%d chan:%p'' @ nlf)
                   [kint (p_pid p), KStr (p_name p), kstr ''READY'', kind_name p, kint (p_time_slice p),
                    kint (p_avgslp p), kint (p_dpri p), KNum (ca (p_chan p))] r))
                [0..<NPROC] (Some scr)
      in if \<forall>i \<in> set [0..<NPROC]. p_stat (pof s i) \<noteq> READY
         then put (''No process is currently in READY status.'' @ nlf) [] r else r)"

section \<open>A listing never stops the kernel\<close>

definition shown :: "screen option \<Rightarrow> bool" where
  "shown r \<longleftrightarrow> (\<exists>t. r = Some t \<and> screen_ok t)"

lemma put_shown: "shown r \<Longrightarrow> cprintf_chars (map of_char fmt) ap \<noteq> None \<Longrightarrow> shown (put fmt ap r)"
  using consputs_ok by (fastforce simp: shown_def put_def cprintf_def)

lemma fold_shown: "(\<And>x r. shown r \<Longrightarrow> shown (f x r)) \<Longrightarrow> shown r \<Longrightarrow> shown (fold f xs r)"
  by (induction xs arbitrary: r) simp_all

lemma dbg_shown:
  assumes "screen_ok scr"
  shows "shown (dbg_procdump ebp s scr)" "shown (dbg_lstprocs ca s scr)" "shown (dbg_lstslp ca s scr)" "shown (dbg_lstrdy ca s scr)"
proof -
  have s: "shown (Some scr)" using assms by (simp add: shown_def)
  note fmt = put_shown nlf_def kint_def kstr_def kind_name_def
  show "shown (dbg_procdump ebp s scr)" unfolding dbg_procdump_def Let_def
    by (rule fold_shown [OF _ s]) (auto intro!: put_shown fold_shown simp: nlf_def kint_def kstr_def)
  show "shown (dbg_lstprocs ca s scr)" unfolding dbg_lstprocs_def Let_def
    by (rule fold_shown) (auto intro!: put_shown s simp: nlf_def kint_def kstr_def kind_name_def)
  show "shown (dbg_lstslp ca s scr)" unfolding dbg_lstslp_def Let_def
    by (rule fold_shown [OF _ s]) (auto intro!: put_shown simp: nlf_def kint_def kstr_def kind_name_def)
  show "shown (dbg_lstrdy ca s scr)" unfolding dbg_lstrdy_def Let_def
    by (auto intro!: put_shown fold_shown s simp: nlf_def kint_def kstr_def kind_name_def)
qed

end
