(* ===== verification/Directory.thy ===== *)
theory Directory
  imports File_Data
begin

text \<open>
  Directories (\<^verbatim>\<open>dirlookup\<close> and \<^verbatim>\<open>dirlink\<close> of \<^verbatim>\<open>fs.c\<close>) as finite maps from names to inode numbers: the entries
  in the blocks of a directory are the bindings, the first one of a name counts, and names are compared
  on their first \<^verbatim>\<open>DIRSIZ\<close> characters.
\<close>

section \<open>A directory as a map\<close>

definition dname :: "byte list \<Rightarrow> byte list" where
  "dname n = take DIRSIZ (cstr n)"

definition dir_entry :: "(nat \<Rightarrow> byte list) \<Rightarrow> inode \<Rightarrow> nat \<Rightarrow> nat \<Rightarrow> byte list" where
  "dir_entry c i N k = slice (file_bytes c i N) (16 * k) 16"

definition dir_entries :: "(nat \<Rightarrow> byte list) \<Rightarrow> inode \<Rightarrow> nat \<Rightarrow> byte list list" where
  "dir_entries c i N = map (dir_entry c i N) [0..<unat (i_size i) div 16]"

definition dir_map :: "byte list list \<Rightarrow> byte list \<rightharpoonup> u16" where
  "dir_map es = map_of (map (\<lambda>e. (dname (de_name e), de_inum e)) (filter (\<lambda>e. de_inum e \<noteq> 0) es))"

text \<open>An inode that is a directory of whole entries in \<open>N\<close> allocated blocks.\<close>

definition is_dir :: "inode \<Rightarrow> nat \<Rightarrow> bool" where
  "is_dir i N \<longleftrightarrow> i_type i = T_DIR \<and> unat (i_size i) mod 16 = 0 \<and> unat (i_size i) \<le> 512 * N"

definition matches :: "byte list \<Rightarrow> byte list \<Rightarrow> bool" where
  "matches name e \<longleftrightarrow> de_inum e \<noteq> 0 \<and> dname (de_name e) = dname name"

lemma namecmp_dname: "namecmp name other = 0 \<longleftrightarrow> dname other = dname name"
  using strncmp_zero [of name other DIRSIZ] by (auto simp: namecmp_def dname_def)

lemma dir_map_Nil [simp]: "dir_map [] = Map.empty"
  by (simp add: dir_map_def)

lemma dir_map_append: "dir_map (as @ bs) = dir_map bs ++ dir_map as"
  by (simp add: dir_map_def)

lemma dir_map_Cons [simp]:
  "dir_map (e # es) = (if de_inum e = 0 then dir_map es else (dir_map es)(dname (de_name e) \<mapsto> de_inum e))"
  by (simp add: dir_map_def)

lemma dir_map_None: "dir_map es (dname name) = None \<longleftrightarrow> (\<forall>e \<in> set es. \<not> matches name e)"
  by (induction es) (auto simp: matches_def)

text \<open>The first match decides.\<close>

lemma dir_map_first:
  assumes "k < length es" "matches name (es ! k)" "\<And>j. j < k \<Longrightarrow> \<not> matches name (es ! j)"
  shows "dir_map es (dname name) = Some (de_inum (es ! k))"
  using assms
proof (induction es arbitrary: k)
  case (Cons e es)
  show ?case
  proof (cases k)
    case 0
    then show ?thesis using Cons.prems by (auto simp: matches_def)
  next
    case (Suc m)
    have "\<not> matches name (es ! j)" if "j < m" for j using Cons.prems(3) [of "Suc j"] that Suc by simp
    then have "dir_map es (dname name) = Some (de_inum (es ! m))" using Cons Suc by simp
    then show ?thesis using Cons.prems(3) [of 0] Suc by (auto simp: matches_def)
  qed
qed simp

text \<open>Binding a new name in place of a free entry.\<close>

lemma dir_map_bind:
  assumes "k < length es" "de_inum (es ! k) = 0" "dir_map es (dname name) = None" "n \<noteq> 0"
  shows "dir_map (es[k := encode_dirent n name]) = (dir_map es)(dname name \<mapsto> n)"
proof -
  let ?e = "encode_dirent n name"
  have e: "de_inum ?e = n" "dname (de_name ?e) = dname name"
    using dirent_fields [of n name name] namecmp_dname [of name "de_name ?e"] by simp_all
  have es: "es = take k es @ es ! k # drop (Suc k) es" using assms(1) by (simp add: id_take_nth_drop)
  have m: "dir_map es = dir_map (drop (Suc k) es) ++ dir_map (take k es)"
    using assms(2) by (subst es) (simp add: dir_map_append)
  have "dir_map (es[k := ?e]) = (dir_map (drop (Suc k) es))(dname name \<mapsto> n) ++ dir_map (take k es)"
    using assms(1,4) e by (simp add: upd_conv_take_nth_drop dir_map_append)
  then show ?thesis using assms(3) unfolding m by (auto simp: fun_eq_iff map_add_def split: option.splits)
qed

section \<open>Looking a name up\<close>

lemma length_dir_entries [simp]: "length (dir_entries c i N) = unat (i_size i) div 16"
  by (simp add: dir_entries_def)

lemma nth_dir_entries [simp]: "k < unat (i_size i) div 16 \<Longrightarrow> dir_entries c i N ! k = dir_entry c i N k"
  by (simp add: dir_entries_def)

lemma dir_size:
  assumes "is_dir i N" "mapped ds c i N"
  shows "unat (i_size i) = 16 * (unat (i_size i) div 16)" "unat (i_size i) \<le> 71680"
  using assms by (auto simp: is_dir_def mapped_def MAXFILE_def NDIRECT_def NINDIRECT_def)

lemma whole_entry: "n = 16 * m \<Longrightarrow> 16 * k < n \<Longrightarrow> 16 * k + 16 \<le> (n :: nat)"
  by simp

lemma read_dirent_run:
  assumes "cache_inv Map.empty s" "i = inodes s ! dp" "is_dir i N" "mapped (disksize s) (bcontent s) i N"
    and k: "16 * k < unat (i_size i)"
  shows "\<exists>t. read_dirent dp (16 * k) msg s = Done (dir_entry (bcontent s) i N k) t \<and> same_view s t"
proof -
  note sz = dir_size [OF assms(3,4)]
  have k16: "16 * k + 16 \<le> unat (i_size i)" using whole_entry [OF sz(1) k] .
  let ?o = "of_nat (16 * k) :: u32"
  have o: "unat ?o = 16 * k" using k sz(2) by (intro unat_of_nat_small) simp
  have "unat (?o + 16) = 16 * k + 16" using o k16 sz(2) by (simp add: unat_word_ariths del: of_nat_mult)
  then have g: "\<not> (?o > i_size i \<or> ?o + 16 < ?o)" using o k by (auto simp: word_less_nat_alt)
  have "i_type i \<noteq> T_DEV" "unat (i_size i) \<le> 512 * N" using assms(3) by (auto simp: is_dir_def T_DIR_def T_DEV_def)
  from readi_run [OF assms(1,2) this(1) assms(4) this(2), of ?o 16] g o k16
  show ?thesis by (auto simp: read_dirent_def kop_simps dir_entry_def Let_def min_def simp del: of_nat_mult)
qed

text \<open>What \<^verbatim>\<open>dirlookup\<close> does with the number of the entry it has found, and the scan from entry \<open>j\<close> on.\<close>

definition take_entry :: "byte list \<Rightarrow> nat \<Rightarrow> ('a fs_state_scheme, (nat \<times> u32) option) kop" where
  "take_entry e m = kbind (iget 1 (ucast (de_inum e))) (\<lambda>ip. kret (Some (ip, of_nat (16 * m))))"

definition found :: "(nat \<Rightarrow> byte list) \<Rightarrow> nat option \<Rightarrow> ('a fs_state_scheme, (nat \<times> u32) option) kop" where
  "found e r = (case r of None \<Rightarrow> kret None | Some m \<Rightarrow> take_entry (e m) m)"

definition first_match :: "byte list \<Rightarrow> (nat \<Rightarrow> byte list) \<Rightarrow> nat \<Rightarrow> nat \<Rightarrow> nat option" where
  "first_match name e = find_from (\<lambda>k. matches name (e k))"

lemma dirlookup_scan:
  assumes "cache_inv Map.empty s" "i = inodes s ! dp" "is_dir i N" "mapped (disksize s) (bcontent s) i N"
    and "e = dir_entry (bcontent s) i N" "unat (i_size i) div 16 \<le> j + k"
  shows "\<exists>t. same_view s t \<and>
    dirlookup_loop k dp name (16 * j) s = found e (first_match name e j (unat (i_size i) div 16 - j)) t"
  using assms
proof (induction k arbitrary: j s)
  case 0
  then show ?case using same_view_refl by (auto simp: kop_simps found_def first_match_def)
next
  case (Suc k)
  let ?n = "unat (i_size i) div 16"
  note sz = dir_size [OF Suc.prems(3,4)]
  show ?case
  proof (cases "j < ?n")
    case False
    then have "\<not> 16 * j < unat (i_size i)" using sz(1) by linarith
    then show ?thesis
      using False same_view_refl [OF Suc.prems(1)] Suc.prems(2) by (auto simp: kop_simps inode_field_def found_def first_match_def)
  next
    case True
    then have j: "16 * j < unat (i_size i)" using sz(1) by linarith
    obtain t where t: "read_dirent dp (16 * j) ''dirlink read'' s = Done (e j) t" "same_view s t"
      using read_dirent_run [OF Suc.prems(1-4) j] Suc.prems(5) by blast
    note T = same_viewD [OF t(2)]
    have d: "i_dev i = 1" using Suc.prems(4) by (simp add: mapped_def)
    have n: "?n - j = Suc (?n - Suc j)" using True by simp
    show ?thesis
    proof (cases "matches name (e j)")
      case m: True
      then have "de_inum (e j) \<noteq> 0" "namecmp name (de_name (e j)) = 0" by (simp_all add: matches_def namecmp_dname)
      then show ?thesis using j t d m Suc.prems(2) unfolding n
        by (intro exI [of _ t]) (auto simp: kop_simps inode_field_def found_def take_entry_def first_match_def)
    next
      case False
      have "dirlookup_loop (Suc k) dp name (16 * j) s = dirlookup_loop k dp name (16 * Suc j) t"
        using j t(1) False Suc.prems(2) by (auto simp: kop_simps inode_field_def matches_def namecmp_dname add.commute)
      moreover have "first_match name e j (?n - j) = first_match name e (Suc j) (?n - Suc j)"
        using False unfolding n first_match_def by simp
      moreover obtain u where "same_view t u"
          "dirlookup_loop k dp name (16 * Suc j) t = found e (first_match name e (Suc j) (?n - Suc j)) u"
        using Suc.IH [of t "Suc j"] Suc.prems T by auto
      ultimately show ?thesis using same_view_trans [OF t(2)] by (intro exI [of _ u]) simp
    qed
  qed
qed

lemma dirlookup_run:
  assumes "cache_inv Map.empty s" "i = inodes s ! dp" "is_dir i N" "mapped (disksize s) (bcontent s) i N"
    and es: "es = dir_entries (bcontent s) i N"
  shows "\<exists>t. same_view s t \<and>
    (case dir_map es (dname name) of
       None \<Rightarrow> dirlookup dp name s = Done None t
     | Some n \<Rightarrow> \<exists>k < length es. matches name (es ! k) \<and> (\<forall>j < k. \<not> matches name (es ! j)) \<and> de_inum (es ! k) = n \<and>
         dirlookup dp name s = take_entry (es ! k) k t)"
proof -
  define e where "e = dir_entry (bcontent s) i N"
  let ?n = "unat (i_size i) div 16"
  have e: "es = map e [0..<?n]" by (simp add: es e_def dir_entries_def)
  obtain t where t: "same_view s t" "dirlookup_loop (?n + 1) dp name 0 s = found e (first_match name e 0 ?n) t"
    using dirlookup_scan [OF assms(1-4) e_def, of 0 "?n + 1" name] by auto
  have d: "dirlookup dp name s = dirlookup_loop (?n + 1) dp name 0 s"
    using assms(2,3) by (simp add: dirlookup_def dir_rounds_def inode_field_def kop_simps is_dir_def)
  show ?thesis
  proof (cases "first_match name e 0 ?n")
    case None
    then have "dir_map es (dname name) = None"
      unfolding dir_map_None e by (auto simp: first_match_def find_from_None)
    then show ?thesis using t d None by (auto simp: found_def kop_simps)
  next
    case (Some m)
    then have m: "m < ?n" "matches name (e m)" "\<forall>j < m. \<not> matches name (e j)"
      using find_from_SomeD [OF Some [unfolded first_match_def]] by auto
    then have "dir_map es (dname name) = Some (de_inum (es ! m))" unfolding e by (intro dir_map_first) auto
    then show ?thesis using t d Some m by (intro exI [of _ t]) (auto simp: e found_def intro!: exI [of _ m])
  qed
qed

section \<open>The inode of an entry\<close>

lemma iget_run:
  assumes "length (inodes s) = NINODE" "\<exists>ip < NINODE. i_ref (inodes s ! ip) = 0"
  shows "\<exists>ip f. iget dev inum s = Done ip (upd_inode ip f s) \<and> ip < NINODE \<and>
    i_dev (f (inodes s ! ip)) = dev \<and> i_inum (f (inodes s ! ip)) = inum \<and> 0 < i_ref (f (inodes s ! ip))"
proof (cases "find_from (\<lambda>i. i_ref (inodes s ! i) > 0 \<and> i_dev (inodes s ! i) = dev \<and> i_inum (inodes s ! i) = inum) 0 NINODE")
  case None
  obtain ip where ip: "find_from (\<lambda>i. i_ref (inodes s ! i) = 0) 0 NINODE = Some ip"
    using assms(2) find_from_None [of "\<lambda>i. i_ref (inodes s ! i) = 0" 0 NINODE] by auto
  show ?thesis
    using None ip find_from_SomeD [OF ip]
    by (intro exI [of _ ip] exI [of _ "\<lambda>i. i\<lparr>i_dev := dev, i_inum := inum, i_ref := 1, i_flags := 0\<rparr>"])
      (simp add: iget_def kop_simps)
next
  case (Some ip)
  then show ?thesis
    using find_from_SomeD [OF Some]
    by (intro exI [of _ ip] exI [of _ "\<lambda>i. i\<lparr>i_ref := i_ref i + 1\<rparr>"]) (simp add: iget_def kop_simps)
qed

text \<open>
  C8 (looking up a name): a directory is the map from names to inode numbers that its entries make, the first
  entry of a name counting. \<^verbatim>\<open>dirlookup\<close> returns nothing when the name is unbound, and otherwise a
  reference to the inode it is bound to, with the offset of the entry; it changes nothing a reader can see.
\<close>

theorem dirlookup_correct:
  assumes "cache_inv Map.empty s" "i = inodes s ! dp" "is_dir i N" "mapped (disksize s) (bcontent s) i N"
    and "es = dir_entries (bcontent s) i N"
    and slot: "length (inodes s) = NINODE" "\<exists>ip < NINODE. i_ref (inodes s ! ip) = 0"
  shows "case dir_map es (dname name) of
      None \<Rightarrow> \<exists>t. dirlookup dp name s = Done None t \<and> same_view s t
    | Some n \<Rightarrow> \<exists>ip k t. dirlookup dp name s = Done (Some (ip, of_nat (16 * k))) t \<and>
        k < length es \<and> matches name (es ! k) \<and> (\<forall>j < k. \<not> matches name (es ! j)) \<and>
        i_dev (inodes t ! ip) = 1 \<and> i_inum (inodes t ! ip) = ucast n \<and> 0 < i_ref (inodes t ! ip) \<and>
        bcontent t = bcontent s \<and> memdisk t = memdisk s"
proof (cases "dir_map es (dname name)")
  case None
  then show ?thesis using dirlookup_run [OF assms(1-5), of name] by auto
next
  case (Some n)
  then obtain t k where t: "same_view s t" "k < length es" "matches name (es ! k)" "\<forall>j < k. \<not> matches name (es ! j)"
      "de_inum (es ! k) = n" "dirlookup dp name s = take_entry (es ! k) k t"
    using dirlookup_run [OF assms(1-5), of name] by auto
  note T = same_viewD [OF t(1)]
  obtain ip f where g: "iget 1 (ucast n) t = Done ip (upd_inode ip f t)" "ip < NINODE"
      "i_dev (f (inodes s ! ip)) = 1" "i_inum (f (inodes s ! ip)) = ucast n" "0 < i_ref (f (inodes s ! ip))"
    using iget_run [of t 1 "ucast n"] slot T(3) by auto
  have "dirlookup dp name s = Done (Some (ip, of_nat (16 * k))) (upd_inode ip f t)"
    unfolding t(6) take_entry_def t(5) using g(1) by (simp add: kop_simps)
  then show ?thesis unfolding Some using t(2-4) g(2-5) T slot(1) by auto
qed

section \<open>Adding an entry\<close>

definition free_no :: "(nat \<Rightarrow> byte list) \<Rightarrow> nat \<Rightarrow> nat \<Rightarrow> nat" where
  "free_no e j n = (case find_from (\<lambda>k. de_inum (e k) = 0) j (n - j) of None \<Rightarrow> n | Some m \<Rightarrow> m)"

lemma free_dirent_run:
  assumes "cache_inv Map.empty s" "i = inodes s ! dp" "is_dir i N" "mapped (disksize s) (bcontent s) i N"
    and "e = dir_entry (bcontent s) i N" "unat (i_size i) div 16 \<le> j + k" "j \<le> unat (i_size i) div 16"
  shows "\<exists>t. same_view s t \<and> free_dirent k dp (16 * j) s = Done (16 * free_no e j (unat (i_size i) div 16)) t"
  using assms
proof (induction k arbitrary: j s)
  case 0
  then show ?case using same_view_refl by (auto simp: kop_simps free_no_def)
next
  case (Suc k)
  let ?n = "unat (i_size i) div 16"
  note sz = dir_size [OF Suc.prems(3,4)]
  show ?case
  proof (cases "j < ?n")
    case False
    then have "\<not> 16 * j < unat (i_size i)" using sz(1) by linarith
    then show ?thesis
      using False same_view_refl [OF Suc.prems(1)] Suc.prems(2,7) by (auto simp: kop_simps inode_field_def free_no_def)
  next
    case True
    then have j: "16 * j < unat (i_size i)" using sz(1) by linarith
    obtain t where t: "read_dirent dp (16 * j) ''dirlink read'' s = Done (e j) t" "same_view s t"
      using read_dirent_run [OF Suc.prems(1-4) j] Suc.prems(5) by blast
    note T = same_viewD [OF t(2)]
    have n: "?n - j = Suc (?n - Suc j)" using True by simp
    show ?thesis
    proof (cases "de_inum (e j) = 0")
      case z: True
      then have "free_no e j ?n = j" unfolding free_no_def n by simp
      then show ?thesis using z j t Suc.prems(2) by (intro exI [of _ t]) (simp add: kop_simps inode_field_def)
    next
      case False
      have "free_dirent (Suc k) dp (16 * j) s = free_dirent k dp (16 * Suc j) t"
        using j t(1) False Suc.prems(2) by (auto simp: kop_simps inode_field_def add.commute)
      moreover have "free_no e j ?n = free_no e (Suc j) ?n" using False by (simp add: free_no_def n)
      moreover obtain u where "same_view t u" "free_dirent k dp (16 * Suc j) t = Done (16 * free_no e (Suc j) ?n) u"
        using Suc.IH [of t "Suc j"] Suc.prems T True by auto
      ultimately show ?thesis using same_view_trans [OF t(2)] by (intro exI [of _ u]) simp
    qed
  qed
qed

lemma slot_spliced:
  assumes "length bs = 512 * N" "length x = 16" "16 * m + 16 \<le> 512 * N"
  shows "slice (splice bs (16 * m) x) (16 * k) 16 = (if k = m then x else slice bs (16 * k) 16)"
  using assms by (cases k m rule: linorder_cases) (auto intro!: slice_splice_other)

text \<open>The entries of a directory after a new one has been stored at place \<open>m\<close>, which may be the end.\<close>

lemma entries_stored:
  assumes "length (file_bytes c i N) = 512 * N" "length x = 16" "file_bytes c' i' N = splice (file_bytes c i N) (16 * m) x"
    and "unat (i_size i) = 16 * n" "m \<le> n" "16 * m + 16 \<le> 512 * N" "unat (i_size i') = 16 * max n (Suc m)"
  shows "dir_entries c' i' N = (if m < n then (dir_entries c i N)[m := x] else dir_entries c i N @ [x])"
proof (rule nth_equalityI)
  show "length (dir_entries c' i' N) = length (if m < n then (dir_entries c i N)[m := x] else dir_entries c i N @ [x])"
    using assms(4,5,7) by simp
  show "dir_entries c' i' N ! k = (if m < n then (dir_entries c i N)[m := x] else dir_entries c i N @ [x]) ! k"
    if "k < length (dir_entries c' i' N)" for k
    using that assms(4,5,7) slot_spliced [OF assms(1,2,6), of k] by (auto simp: dir_entry_def assms(3) nth_append nth_list_update)
qed

lemma dir_map_stored:
  assumes "m \<le> length es" "m < length es \<longrightarrow> de_inum (es ! m) = 0" "dir_map es (dname name) = None" "n \<noteq> 0"
  shows "dir_map (if m < length es then es[m := encode_dirent n name] else es @ [encode_dirent n name]) =
    (dir_map es)(dname name \<mapsto> n)"
proof (cases "m < length es")
  case False
  have "de_inum (encode_dirent n name) = n" "dname (de_name (encode_dirent n name)) = dname name"
    using dirent_fields [of n name name] namecmp_dname [of name "de_name (encode_dirent n name)"] by simp_all
  then show ?thesis using False assms(3,4) by (auto simp: dir_map_append map_add_def fun_eq_iff split: option.split)
qed (use dir_map_bind assms in auto)

lemma free_no_spec:
  "free_no e 0 n \<le> n \<and> (free_no e 0 n < n \<longrightarrow> de_inum (e (free_no e 0 n)) = 0) \<and>
   (free_no e 0 n = n \<longrightarrow> (\<forall>k < n. de_inum (e k) \<noteq> 0))"
proof (cases "find_from (\<lambda>k. de_inum (e k) = 0) 0 n")
  case None
  then show ?thesis using find_from_None [of "\<lambda>k. de_inum (e k) = 0" 0 n] by (simp add: free_no_def)
next
  case (Some m)
  then show ?thesis using find_from_SomeD [OF Some] by (simp add: free_no_def)
qed

lemma one_block: "blocks_touched (16 * m) 16 = 1"
proof -
  have "16 * m mod 512 = 16 * (m mod 32)" using mult_mod_right [of 16 m 32] by simp
  moreover have "m mod 32 < 32" by simp
  ultimately show ?thesis by (simp add: blocks_touched_def BSIZE_def)
qed

lemma dirent_store:
  assumes inv: "txn_inv st hs Map.empty s" "length hs < 27" and i: "i = inodes s ! dp" "dp < length (inodes s)"
    and d: "is_dir i N" "file_ok st s i N" and es: "es = dir_entries (bcontent s) i N"
    and k: "k \<le> length es" "k < length es \<longrightarrow> de_inum (es ! k) = 0" "16 * k + 16 \<le> 512 * N"
      "k = length es \<longrightarrow> inode_apart st s i N"
    and new: "dir_map es (dname name) = None" "c \<noteq> 0"
  shows "\<exists>t hs' i'. writei dp (encode_dirent c name) (of_nat (16 * k)) s = Done 16 t \<and> txn_inv st hs' Map.empty t \<and>
    inodes t = (inodes s)[dp := i'] \<and> is_dir i' N \<and> file_ok st t i' N \<and> memdisk t = memdisk s \<and>
    dir_map (dir_entries (bcontent t) i' N) = (dir_map es)(dname name \<mapsto> c)"
proof -
  have m: "mapped (disksize s) (bcontent s) i N" using d(2) by (simp add: file_ok_def)
  have ci: "cache_inv Map.empty s" using inv(1) by (simp add: txn_inv_def)
  define n where "n = unat (i_size i) div 16"
  define x where "x = encode_dirent c name"
  define off where "off = (of_nat (16 * k) :: u32)"
  have n: "length es = n" by (simp add: es n_def)
  have x: "length x = 16" "x \<noteq> []" using dirent_fields [of c name] by (auto simp: x_def)
  have sz: "unat (i_size i) = 16 * n" "16 * n \<le> 71680" "16 * n \<le> 512 * N"
    using dir_size [OF d(1) m] d(1) unfolding n_def is_dir_def by simp_all
  have off: "unat off = 16 * k" unfolding off_def using k(1) sz(2) n by (intro unat_of_nat_small) simp
  define i' where "i' = i\<lparr>i_size := if unat (i_size i) < unat off + length x then off + of_nat (length x) else i_size i\<rparr>"
  have pre: "i_type i \<noteq> T_DEV" "unat off \<le> unat (i_size i)" "unat off + length x \<le> 512 * N"
      "length hs + blocks_touched (unat off) (length x) < 28" "unat (i_size i) < unat off + length x \<longrightarrow> inode_apart st s i N"
    using d(1) k n sz(1) off x(1) one_block inv(2) by (auto simp: is_dir_def T_DIR_def T_DEV_def)
  obtain t hs' where t: "writei dp x off s = Done 16 t" "txn_inv st hs' Map.empty t" "memdisk t = memdisk s"
      "inodes t = (inodes s)[dp := i']" "file_ok st t i' N"
      "file_bytes (bcontent t) i' N = splice (file_bytes (bcontent s) i N) (16 * k) x"
    using writei_run [OF inv(1) i pre(1) d(2) pre(2) x(2) pre(3-5) i'_def] unfolding x(1) off by auto
  have "unat (off + 16) = 16 * k + 16" using off k(1) n sz(2) by (simp add: unat_add_small)
  then have sz': "unat (i_size i') = 16 * max n (Suc k)" using k(1) n sz(1) off x(1) by (auto simp: i'_def max_def)
  then have "is_dir i' N" using d(1) k(3) sz(3) by (auto simp: is_dir_def i'_def)
  moreover have "length (file_bytes (bcontent s) i N) = 512 * N"
    unfolding file_bytes_def using m bcontent_len [OF ci] by (intro length_concat_blocks) (auto simp: mapped_def)
  then have "dir_entries (bcontent t) i' N = (if k < n then es[k := x] else es @ [x])"
    using entries_stored [of "bcontent s" i N x "bcontent t" i' k n] x(1) t(6) sz(1) k(1,3) n sz' by (simp add: es)
  then have "dir_map (dir_entries (bcontent t) i' N) = (dir_map es)(dname name \<mapsto> c)"
    using dir_map_stored [OF k(1,2) new, folded x_def, unfolded n] by (simp only:)
  ultimately show ?thesis using t unfolding x_def off_def by blast
qed

text \<open>
  C7 (adding a name): in an open transaction with room in the log, \<^verbatim>\<open>dirlink\<close> of an unbound name returns 0, and the
  directory is then the same map with the name bound to the inode number. The entry goes to
  the first free place, or behind the last one within the blocks of the directory, whose size grows then.
\<close>

theorem dirlink_binds:
  assumes inv: "txn_inv st hs Map.empty s" "length hs < 27" and i: "i = inodes s ! dp" "dp < length (inodes s)"
    and d: "is_dir i N" "file_ok st s i N" and es: "es = dir_entries (bcontent s) i N"
    and new: "dir_map es (dname name) = None" "(ucast inum :: u16) \<noteq> 0"
    and room: "(\<exists>e \<in> set es. de_inum e = 0) \<or> unat (i_size i) + 16 \<le> 512 * N \<and> inode_apart st s i N"
  shows "\<exists>t hs' i'. dirlink dp name inum s = Done 0 t \<and> txn_inv st hs' Map.empty t \<and> inodes t = (inodes s)[dp := i'] \<and>
    is_dir i' N \<and> file_ok st t i' N \<and> memdisk t = memdisk s \<and>
    dir_map (dir_entries (bcontent t) i' N) = (dir_map es)(dname name \<mapsto> ucast inum)"
proof -
  have m: "mapped (disksize s) (bcontent s) i N" using d(2) by (simp add: file_ok_def)
  have ci: "cache_inv Map.empty s" using inv(1) by (simp add: txn_inv_def)
  define e where "e = dir_entry (bcontent s) i N"
  define n where "n = unat (i_size i) div 16"
  define k where "k = free_no e 0 n"
  have n: "length es = n" "unat (i_size i) = 16 * n" "unat (i_size i) \<le> 512 * N"
    using dir_size [OF d(1) m] d(1) by (simp_all add: es n_def is_dir_def)
  have k: "k \<le> n" "k < n \<longrightarrow> de_inum (es ! k) = 0" "k = n \<longrightarrow> (\<forall>j < n. de_inum (es ! j) \<noteq> 0)"
    using free_no_spec [of e n] by (auto simp: k_def es n_def e_def)
  obtain t where t: "same_view s t" "dirlookup dp name s = Done None t"
    using dirlookup_run [OF ci i(1) d(1) m es, of name] new(1) by auto
  note T = same_viewD [OF t(1)]
  have r: "dir_rounds dp t = Done (n + 1) t" using i(1) T by (simp add: dir_rounds_def inode_field_def kop_simps n_def)
  obtain u where u: "same_view t u" "free_dirent (n + 1) dp 0 t = Done (16 * k) u"
    using free_dirent_run [OF T(1), of i dp N e 0 "n + 1"] i(1) d(1) m T by (auto simp: e_def n_def k_def)
  have su: "same_view s u" using same_view_trans [OF t(1) u(1)] .
  note U = same_viewD [OF su]
  have fu: "file_ok st u i N" "inode_apart st u i N \<longleftrightarrow> inode_apart st s i N"
    using d(2) U by (simp_all add: file_ok_def loggable_def inode_apart_def)
  have fit: "16 * k + 16 \<le> 512 * N" "k = length es \<longrightarrow> inode_apart st u i N"
    using room k n fu(2) by (auto simp: in_set_conv_nth)
  have uu: "txn_inv st hs Map.empty u" "i = inodes u ! dp" "dp < length (inodes u)" "es = dir_entries (bcontent u) i N"
    using same_view_txn [OF inv(1) su] i U es by simp_all
  have kk: "k \<le> length es" "k < length es \<longrightarrow> de_inum (es ! k) = 0" using k n by simp_all
  obtain v hs' i' where v: "writei dp (encode_dirent (ucast inum) name) (of_nat (16 * k)) u = Done 16 v"
      "txn_inv st hs' Map.empty v" "inodes v = (inodes u)[dp := i']" "is_dir i' N" "file_ok st v i' N" "memdisk v = memdisk u"
      "dir_map (dir_entries (bcontent v) i' N) = (dir_map es)(dname name \<mapsto> ucast inum)"
    using dirent_store [OF uu(1) inv(2) uu(2,3) d(1) fu(1) uu(4) kk fit new] by blast
  have "dirlink dp name inum s = Done 0 v" using t(2) r u(2) v(1) by (simp add: dirlink_def kop_simps)
  then show ?thesis using v(2-7) U by (intro exI [of _ v] exI [of _ hs'] exI [of _ i']) simp
qed

section \<open>A concrete directory\<close>

text \<open>A directory of two places in block 70: the name \<^verbatim>\<open>a\<close> is bound to inode 7, the second place is free.\<close>

definition demo_names :: "byte list" where
  "demo_names = encode_dirent 7 [0x61] @ replicate 496 0"

definition demo_dir_inode :: inode where
  "demo_dir_inode = demo_inode\<lparr>i_type := 1, i_size := 32, i_addrs := 70 # replicate 12 0\<rparr>"

definition demo_dir :: fs_state where
  "demo_dir = demo_txn\<lparr>memdisk := (memdisk demo_txn)(70 := demo_names),
     inodes := demo_dir_inode # replicate 49 (demo_inode\<lparr>i_ref := 0\<rparr>)\<rparr>"

lemma demo_dir_inv: "txn_inv 2 [] Map.empty demo_dir" and demo_dir_content: "bcontent demo_dir = memdisk demo_dir"
proof -
  have "cache_inv Map.empty demo_dir"
    using demo_cache_inv dirent_fields [of 7 "[0x61]"] unfolding cache_inv_def
    by (auto simp: demo_dir_def demo_txn_def demo_bufs buf_ok_def no_sleeper_def demo_super_def demo_bitmap_def demo_names_def)
  moreover have "dirty_blocks demo_dir = {}" by (auto simp: dirty_blocks_def demo_dir_def demo_bufs)
  ultimately show "txn_inv 2 [] Map.empty demo_dir" using demo_txn_inv by (simp add: txn_inv_def log_ok_def demo_dir_def)
  show "bcontent demo_dir = memdisk demo_dir"
    by (rule ext, rule bcontent_disk [OF \<open>cache_inv Map.empty demo_dir\<close>]) (simp add: demo_dir_def demo_bufs holds_block_def)
qed

lemma demo_dir_facts: "inodes demo_dir ! 0 = demo_dir_inode" "length (inodes demo_dir) = NINODE" "is_dir demo_dir_inode 1"
  "file_ok 2 demo_dir demo_dir_inode 1" "i_ref (inodes demo_dir ! 1) = 0"
  by (simp_all add: demo_dir_def NINODE_def is_dir_def demo_dir_inode_def demo_inode_def T_DIR_def file_ok_def mapped_def
      own_blocks_def fblock_def NDIRECT_def NINDIRECT_def MAXFILE_def loggable_def in_log_def LOGSIZE_def)

lemma demo_dir_entries:
  "dir_entries (bcontent demo_dir) demo_dir_inode 1 = [encode_dirent 7 [0x61], replicate 16 0]"
proof -
  have "file_bytes (bcontent demo_dir) demo_dir_inode 1 = demo_names"
    by (simp add: file_bytes_def fblock_def demo_dir_content) (simp add: demo_dir_def demo_dir_inode_def NDIRECT_def)
  moreover have "[0..<2] = [0, 1 :: nat]" by (simp add: numeral_2_eq_2)
  moreover have "length (encode_dirent 7 [0x61]) = 16" using dirent_fields [of 7 "[0x61]"] by blast
  ultimately show ?thesis
    by (simp add: dir_entries_def dir_entry_def demo_dir_inode_def demo_names_def slice_def)
qed

lemma demo_dir_map: "dir_map (dir_entries (bcontent demo_dir) demo_dir_inode 1) = [[0x61] \<mapsto> 7]"
proof -
  have "de_inum (encode_dirent 7 [0x61]) = 7" "dname (de_name (encode_dirent 7 [0x61])) = [0x61]" "de_inum (replicate 16 0) = 0"
    by code_simp+
  then show ?thesis unfolding demo_dir_entries by simp
qed

theorem dirlookup_correct_witness:
  "\<exists>ip t. dirlookup 0 [0x61] demo_dir = Done (Some (ip, 0)) t \<and> i_inum (inodes t ! ip) = 7"
proof -
  have ci: "cache_inv Map.empty demo_dir" using demo_dir_inv by (simp add: txn_inv_def)
  have m: "mapped (disksize demo_dir) (bcontent demo_dir) demo_dir_inode 1" using demo_dir_facts(4) by (simp add: file_ok_def)
  have s: "\<exists>ip < NINODE. i_ref (inodes demo_dir ! ip) = 0" using demo_dir_facts(5) by (intro exI [of _ 1]) (simp add: NINODE_def)
  have n: "dname [0x61] = [0x61]" by code_simp
  have z: "\<not> matches [0x61] (replicate 16 0)" by code_simp
  obtain ip k t where t: "dirlookup 0 [0x61] demo_dir = Done (Some (ip, of_nat (16 * k))) t" "k < 2"
      "matches [0x61] ([encode_dirent 7 [0x61], replicate 16 0] ! k)" "i_inum (inodes t ! ip) = ucast (7 :: u16)"
    using dirlookup_correct [OF ci demo_dir_facts(1) [symmetric] demo_dir_facts(3) m refl demo_dir_facts(2) s, of "[0x61]"]
    unfolding demo_dir_map n unfolding demo_dir_entries by auto
  have "k = 0" using t(2,3) z by (cases k) (auto simp: less_2_cases_iff)
  then show ?thesis using t(1,4) by auto
qed

theorem dirlink_binds_witness:
  "\<exists>t. dirlink 0 [0x62] 9 demo_dir = Done 0 t \<and>
     dir_map (dir_entries (bcontent t) (inodes t ! 0) 1) = [[0x61] \<mapsto> 7, [0x62] \<mapsto> 9]"
proof -
  have n: "dname [0x62] = [0x62]" "de_inum (replicate 16 0) = 0" by code_simp+
  have "0 < length (inodes demo_dir)" using demo_dir_facts(2) by (simp add: NINODE_def)
  moreover have "dir_map (dir_entries (bcontent demo_dir) demo_dir_inode 1) (dname [0x62]) = None"
    unfolding demo_dir_map n by simp
  moreover have "(ucast (9 :: u32) :: u16) \<noteq> 0" by simp
  moreover have "\<exists>e \<in> set (dir_entries (bcontent demo_dir) demo_dir_inode 1). de_inum e = 0"
    unfolding demo_dir_entries using n(2) by (intro bexI [of _ "replicate 16 0"]) simp_all
  ultimately show ?thesis
    using dirlink_binds [OF demo_dir_inv _ demo_dir_facts(1) [symmetric] _ demo_dir_facts(3,4) refl, of "[0x62]" 9]
    unfolding demo_dir_map n by (auto simp: demo_dir_facts(2))
qed

end
