(* ===== verification/Paths.thy ===== *)
theory Paths
  imports Directory
begin

unbundle bit_operations_syntax

text \<open>
  Path names: \<^verbatim>\<open>namei\<close> and \<^verbatim>\<open>nameiparent\<close> of \<^verbatim>\<open>fs.c\<close> against the walk through the directories on the disk. The
  inode cache is abstracted to the number of references to each inode; the routines on it keep the
  abstraction, and the walk needs two free entries of the cache at most.
\<close>

section \<open>The inode cache\<close>

text \<open>The inode \<open>n\<close> as the blocks hold it.\<close>

definition on_disk :: "'a fs_state_scheme \<Rightarrow> u32 \<Rightarrow> inode \<Rightarrow> inode" where
  "on_disk s n = load_dinode (bcontent s (unat (IBLOCK n (sb s)))) (dinode_off n)"

definition dnode :: "'a fs_state_scheme \<Rightarrow> u32 \<Rightarrow> inode" where
  "dnode s n = on_disk s n \<lparr>i_dev = 1, i_inum = n, i_ref = 0, i_lock = \<lparr>lk_locked = 0, lk_name = [], lk_pid = 0\<rparr>,
     i_flags = 0, i_type = 0, i_major = 0, i_minor = 0, i_nlink = 0, i_size = 0, i_addrs = []\<rparr>"

text \<open>Entry \<open>ip\<close> of the cache is a reference to inode \<open>n\<close>.\<close>

definition at :: "'a fs_state_scheme \<Rightarrow> nat \<Rightarrow> u32 \<Rightarrow> bool" where
  "at s ip n \<longleftrightarrow> ip < NINODE \<and> 0 < i_ref (inodes s ! ip) \<and> i_inum (inodes s ! ip) = n"

text \<open>
  The cache holds \<open>R n\<close> references to every inode \<open>n\<close>, in one entry; entries with contents agree with the disk; the
  entries in \<open>L\<close> are the locked ones.
\<close>

definition entry_ok :: "'a fs_state_scheme \<Rightarrow> (u32 \<Rightarrow> int) \<Rightarrow> inode \<Rightarrow> bool" where
  "entry_ok s R i \<longleftrightarrow> i_dev i = 1 \<and> i_ref i = R (i_inum i) \<and> (i_flags i AND I_VALID \<noteq> 0 \<longrightarrow> on_disk s (i_inum i) i = i)"

definition icache :: "'a fs_state_scheme \<Rightarrow> (u32 \<Rightarrow> int) \<Rightarrow> nat set \<Rightarrow> bool" where
  "icache s R L \<longleftrightarrow> cache_inv Map.empty s \<and> length (inodes s) = NINODE \<and> (\<forall>ip. no_sleeper (ChInodeLock ip) s) \<and>
     (\<forall>n. 0 \<le> R n) \<and> (\<forall>n. 0 < R n \<longrightarrow> (\<exists>ip. at s ip n)) \<and> (\<forall>ip jp n. at s ip n \<and> at s jp n \<longrightarrow> ip = jp) \<and>
     (\<forall>ip < NINODE. 0 \<le> i_ref (inodes s ! ip) \<and> (lk_locked (i_lock (inodes s ! ip)) \<noteq> 0 \<longleftrightarrow> ip \<in> L)) \<and>
     (\<forall>ip n. at s ip n \<longrightarrow> entry_ok s R (inodes s ! ip))"

lemma icacheD:
  assumes "icache s R L"
  shows "cache_inv Map.empty s" "length (inodes s) = NINODE" "\<And>ip. no_sleeper (ChInodeLock ip) s"
    "\<And>n. 0 \<le> R n" "\<And>n. 0 < R n \<Longrightarrow> \<exists>ip. at s ip n" "\<And>ip jp n. at s ip n \<Longrightarrow> at s jp n \<Longrightarrow> ip = jp"
    "\<And>ip. ip < NINODE \<Longrightarrow> 0 \<le> i_ref (inodes s ! ip)" "\<And>ip. ip < NINODE \<Longrightarrow> lk_locked (i_lock (inodes s ! ip)) \<noteq> 0 \<longleftrightarrow> ip \<in> L"
    "\<And>ip n. at s ip n \<Longrightarrow> entry_ok s R (inodes s ! ip)"
  using assms unfolding icache_def by blast+

text \<open>What a reader of the disk, the log and the process table sees.\<close>

definition disk_view :: "'a fs_state_scheme \<Rightarrow> _" where
  "disk_view s = (bcontent s, memdisk s, disksize s, sb s, klog s, ptable s)"

lemma disk_viewD:
  assumes "disk_view t = disk_view s"
  shows "bcontent t = bcontent s" "memdisk t = memdisk s" "disksize t = disksize s" "sb t = sb s" "klog t = klog s" "ptable t = ptable s"
  using assms by (simp_all add: disk_view_def)

lemma on_disk_cong: "disk_view t = disk_view s \<Longrightarrow> on_disk t = on_disk s"
  by (rule ext) (simp add: on_disk_def disk_view_def)

lemma disk_view_upd [simp]: "disk_view (upd_inode ip f s) = disk_view s"
  by (simp add: disk_view_def) (simp add: upd_inode_def)

lemma disk_view_same: "same_view s t \<Longrightarrow> disk_view t = disk_view s"
  using same_viewD [of s t] by (simp add: disk_view_def)

text \<open>Every operation on the cache changes one entry.\<close>

lemma icache_upd:
  assumes c: "icache s R L" and ip: "ip < NINODE"
    and t: "cache_inv Map.empty t" "disk_view t = disk_view s" "inodes t = (inodes s)[ip := i']"
    and ref: "0 \<le> i_ref i'" "0 < i_ref (inodes s ! ip) \<Longrightarrow> i_inum i' = i_inum (inodes s ! ip)"
    and one: "\<And>jp. at s jp (i_inum i') \<Longrightarrow> jp = ip"
    and ok: "0 < i_ref i' \<Longrightarrow> i_dev i' = 1" "0 < i_ref i' \<Longrightarrow> i_flags i' AND I_VALID \<noteq> 0 \<Longrightarrow> on_disk s (i_inum i') i' = i'"
    and lk: "lk_locked (i_lock i') \<noteq> 0 \<longleftrightarrow> ip \<in> L'" "\<And>jp. jp \<noteq> ip \<Longrightarrow> jp \<in> L' \<longleftrightarrow> jp \<in> L"
  shows "icache t (R(i_inum i' := i_ref i')) L'"
proof -
  note C = icacheD [OF c] and dv = t(2) and it = t(3)
  have at: "at t jp n \<longleftrightarrow> (if jp = ip then 0 < i_ref i' \<and> i_inum i' = n else at s jp n)" for jp n
    using ip C(2) by (auto simp: at_def it)
  have "no_sleeper (ChInodeLock jp) t" for jp using C(3) [of jp] disk_viewD(6) [OF dv] by (simp add: no_sleeper_def)
  moreover have "\<exists>jp. at t jp n" if pos: "0 < (R(i_inum i' := i_ref i')) n" for n
  proof (cases "n = i_inum i'")
    case False
    then obtain jp where jp: "at s jp n" using C(5) [of n] pos by auto
    have "jp \<noteq> ip"
    proof
      assume "jp = ip"
      then show False using ref(2) jp False by (simp add: at_def)
    qed
    then show ?thesis using jp at by auto
  qed (use pos at in auto)
  moreover have "jp = kp" if a: "at t jp n" "at t kp n" for jp kp n
  proof (cases "n = i_inum i'")
    case True
    then have "jp = ip" "kp = ip" using a at one by metis+
    then show ?thesis by simp
  next
    case False
    then have "at s jp n" "at s kp n" using a at by metis+
    then show ?thesis by (rule C(6))
  qed
  moreover have "entry_ok t (R(i_inum i' := i_ref i')) (inodes t ! jp)" if a: "at t jp n" for jp n
  proof (cases "jp = ip")
    case True
    then show ?thesis using a ok ip C(2) on_disk_cong [OF dv] by (simp add: at it entry_ok_def)
  next
    case False
    then have "at s jp n" "i_inum (inodes s ! jp) = n" using a at by (auto simp: at_def)
    moreover have "n \<noteq> i_inum i'" using one [of jp] False calculation(1) by auto
    ultimately show ?thesis using C(9) [of jp n] False on_disk_cong [OF dv] by (simp add: it entry_ok_def)
  qed
  moreover have "0 \<le> i_ref (inodes t ! jp) \<and> (lk_locked (i_lock (inodes t ! jp)) \<noteq> 0 \<longleftrightarrow> jp \<in> L')" if "jp < NINODE" for jp
    using that C(2,7,8) ref(1) lk by (cases "jp = ip") (simp_all add: it)
  moreover have "length (inodes t) = NINODE" "\<And>n. 0 \<le> (R(i_inum i' := i_ref i')) n" using C(2,4) ref(1) by (simp_all add: it)
  ultimately show ?thesis using t(1) unfolding icache_def by blast
qed

lemma cache_inv_upd_inode [simp]: "cache_inv H (upd_inode ip f s) = cache_inv H s"
  by (simp add: upd_inode_def cache_inv_def no_sleeper_def)

lemma at_ok:
  assumes "icache s R L" "at s ip n"
  shows "ip < NINODE" "i_inum (inodes s ! ip) = n" "i_dev (inodes s ! ip) = 1" "i_ref (inodes s ! ip) = R n" "0 < R n"
    "i_flags (inodes s ! ip) AND I_VALID \<noteq> 0 \<Longrightarrow> on_disk s n (inodes s ! ip) = inodes s ! ip"
  using icacheD(9) [OF assms] assms(2) by (auto simp: at_def entry_ok_def)

text \<open>Changing an entry that is in use, but not which inode it is for.\<close>

lemma icache_entry:
  assumes c: "icache s R L" and a: "at s ip n"
    and t: "cache_inv Map.empty t" "disk_view t = disk_view s" "inodes t = (inodes s)[ip := i']"
    and i: "i_inum i' = n" "i_dev i' = 1" "0 \<le> i_ref i'" "i_flags i' AND I_VALID \<noteq> 0 \<Longrightarrow> on_disk s n i' = i'"
    and lk: "lk_locked (i_lock i') \<noteq> 0 \<longleftrightarrow> ip \<in> L'" "\<And>jp. jp \<noteq> ip \<Longrightarrow> jp \<in> L' \<longleftrightarrow> jp \<in> L"
  shows "icache t (R(n := i_ref i')) L'" "at t jp m \<longleftrightarrow> (if jp = ip then 0 < i_ref i' \<and> m = n else at s jp m)"
proof -
  note A = at_ok [OF c a]
  show "icache t (R(n := i_ref i')) L'"
    using icache_upd [OF c A(1) t i(3), where L' = L'] icacheD(6) [OF c _ a] A i lk by auto
  show "at t jp m \<longleftrightarrow> (if jp = ip then 0 < i_ref i' \<and> m = n else at s jp m)"
    using A(1) i(1) icacheD(2) [OF c] by (auto simp: at_def t(3))
qed

lemma free_entry:
  assumes c: "icache s R L" and room: "card {m. 0 < R m} < NINODE"
  shows "\<exists>ip < NINODE. i_ref (inodes s ! ip) = 0"
proof (rule ccontr)
  assume "\<not> ?thesis"
  then have a: "at s ip (i_inum (inodes s ! ip))" if "ip < NINODE" for ip
    using icacheD(7) [OF c that] that by (force simp: at_def)
  have "inj_on (\<lambda>ip. i_inum (inodes s ! ip)) {..<NINODE}"
    using a icacheD(6) [OF c] by (intro inj_onI) (metis lessThan_iff)
  moreover have "(\<lambda>ip. i_inum (inodes s ! ip)) ` {..<NINODE} \<subseteq> {m. 0 < R m}" using a at_ok(5) [OF c] by auto
  ultimately have "card {..<NINODE} \<le> card {m. 0 < R m}" by (intro card_inj_on_le) simp_all
  then show False using room by simp
qed

section \<open>References\<close>

lemma iget_icache:
  assumes c: "icache s R L" and room: "0 < R n \<or> card {m. 0 < R m} < NINODE"
  shows "\<exists>ip t. iget 1 n s = Done ip t \<and> icache t (R(n := R n + 1)) L \<and> at t ip n \<and> disk_view t = disk_view s \<and>
    (\<forall>jp m. at s jp m \<longrightarrow> at t jp m)"
proof -
  note C = icacheD [OF c]
  let ?p = "\<lambda>i. i_ref (inodes s ! i) > 0 \<and> i_dev (inodes s ! i) = 1 \<and> i_inum (inodes s ! i) = n"
  show ?thesis
  proof (cases "find_from ?p 0 NINODE")
    case (Some ip)
    then have a: "at s ip n" using find_from_SomeD [OF Some] by (simp add: at_def)
    note A = at_ok [OF c a]
    let ?i = "(inodes s ! ip)\<lparr>i_ref := R n + 1\<rparr>"
    define t where "t = upd_inode ip (\<lambda>i. i\<lparr>i_ref := i_ref i + 1\<rparr>) s"
    have t: "iget 1 n s = Done ip t" using Some by (simp add: iget_def kop_simps t_def)
    have it: "cache_inv Map.empty t" "disk_view t = disk_view s" "inodes t = (inodes s)[ip := ?i]"
      using C(1) A(4) by (simp_all add: t_def)
    have v: "on_disk s n ?i = ?i" if "i_flags ?i AND I_VALID \<noteq> 0"
      using A(6) that by (cases "inodes s ! ip") (simp add: on_disk_def load_dinode_def)
    have "icache t (R(n := i_ref ?i)) L" "at t jp m \<longleftrightarrow> (if jp = ip then 0 < i_ref ?i \<and> m = n else at s jp m)" for jp m
      using icache_entry [OF c a it, where L' = L] A v C(8) [OF A(1)] by auto
    then show ?thesis using t it(2) A C(6) [OF _ a] by (intro exI [of _ ip] exI [of _ t]) (auto dest: at_ok(2) [OF c])
  next
    case None
    have none: "\<not> at s ip n" for ip
    proof
      assume a: "at s ip n"
      then have "?p ip" "ip < NINODE" using at_ok(3) [OF c a] by (simp_all add: at_def)
      then show False using None by (auto simp: find_from_None)
    qed
    then have Rn: "R n = 0" using C(4) [of n] C(5) [of n] by force
    then obtain jp where "jp < NINODE" "i_ref (inodes s ! jp) = 0" using free_entry [OF c] room by auto
    then obtain ip where ip: "find_from (\<lambda>i. i_ref (inodes s ! i) = 0) 0 NINODE = Some ip"
      using find_from_ex [of 0 jp NINODE "\<lambda>i. i_ref (inodes s ! i) = 0"] by auto
    then have z: "ip < NINODE" "i_ref (inodes s ! ip) = 0" using find_from_SomeD [OF ip] by auto
    let ?i = "(inodes s ! ip)\<lparr>i_dev := 1, i_inum := n, i_ref := 1, i_flags := 0\<rparr>"
    define t where "t = upd_inode ip (\<lambda>i. i\<lparr>i_dev := 1, i_inum := n, i_ref := 1, i_flags := 0\<rparr>) s"
    have t: "iget 1 n s = Done ip t" using None ip by (simp add: iget_def kop_simps t_def)
    have it: "cache_inv Map.empty t" "disk_view t = disk_view s" "inodes t = (inodes s)[ip := ?i]"
      using C(1) by (simp_all add: t_def)
    have "icache t (R(i_inum ?i := i_ref ?i)) L"
      using z C(8) [OF z(1)] none by (intro icache_upd [OF c z(1) it, where L' = L]) auto
    moreover have "at t kp m" if "at s kp m" for kp m using that z C(2) by (cases "kp = ip") (auto simp: at_def it(3))
    moreover have "at t ip n" using z C(2) by (simp add: at_def it(3))
    ultimately show ?thesis using t it(2) Rn by auto
  qed
qed

lemma idup_icache:
  assumes c: "icache s R L" and a: "at s ip n"
  shows "\<exists>t. idup ip s = Done ip t \<and> icache t (R(n := R n + 1)) L \<and> at t ip n \<and> disk_view t = disk_view s"
proof -
  note A = at_ok [OF c a]
  let ?i = "(inodes s ! ip)\<lparr>i_ref := R n + 1\<rparr>"
  define t where "t = upd_inode ip (\<lambda>i. i\<lparr>i_ref := i_ref i + 1\<rparr>) s"
  have it: "cache_inv Map.empty t" "disk_view t = disk_view s" "inodes t = (inodes s)[ip := ?i]"
    using icacheD(1) [OF c] A(4) by (simp_all add: t_def)
  have v: "on_disk s n ?i = ?i" if "i_flags ?i AND I_VALID \<noteq> 0"
    using A(6) that by (cases "inodes s ! ip") (simp add: on_disk_def load_dinode_def)
  have "icache t (R(n := i_ref ?i)) L" "at t ip n"
    using icache_entry [OF c a it, where L' = L] A v icacheD(8) [OF c A(1)] by auto
  then show ?thesis using it(2) by (auto simp: idup_def kop_simps t_def)
qed

section \<open>Locking\<close>

lemma upd_inode_upd_inode [simp]:
  "ip < length (inodes s) \<Longrightarrow> upd_inode ip f (upd_inode ip g s) = upd_inode ip (\<lambda>i. f (g i)) s"
  by (simp add: upd_inode_def)

lemma upd_inode_lock: "upd_inode ip (i_lock_update f) s = upd_inode ip (\<lambda>i. i\<lparr>i_lock := f (i_lock i)\<rparr>) s"
  by (cases "inodes s ! ip") (simp add: upd_inode_def)

lemma acquire_inode:
  assumes "ip < length (inodes s)" "lk_locked (i_lock (inodes s ! ip)) = 0" "cur s = Some c"
  shows "acquiresleep (inode_lock ip) s = Done () (upd_inode ip (\<lambda>i. i\<lparr>i_lock := take_lock (p_pid (pof s c)) (i_lock i)\<rparr>) s)"
proof -
  have "cur (upd_inode ip f s) = Some c" "pof (upd_inode ip f s) c = pof s c" for f using assms(3) by (simp_all add: upd_inode_def)
  then show ?thesis
    using assms by (simp add: inode_lock_def kop_simps curproc_def pget_def take_lock_def upd_inode_lock comp_def)
qed

lemma release_inode:
  assumes "ip < length (inodes s)" "no_sleeper (ChInodeLock ip) s"
  shows "releasesleep (inode_lock ip) s = Done () (upd_inode ip (\<lambda>i. i\<lparr>i_lock := drop_lock (i_lock i)\<rparr>) s)"
proof -
  have "no_sleeper (ChInodeLock ip) (upd_inode ip f s)" for f using assms(2) by (simp add: no_sleeper_def upd_inode_def)
  then show ?thesis using assms by (simp add: inode_lock_def kop_simps wakeup_quiet drop_lock_def upd_inode_lock comp_def)
qed

text \<open>Reading a block with a change of an inode before the buffer is given back.\<close>

lemma cache_peek_upd:
  assumes "cache_inv Map.empty s" "k < disksize s"
  shows "\<exists>b t u. bread 1 (of_nat k) s = Done b t \<and> bdata b t = Done (bcontent s k) t \<and>
    brelse b (upd_inode ip f t) = Done () u \<and> same_view (upd_inode ip f s) u"
proof -
  obtain b t where t: "bread 1 (of_nat k) s = Done b t" "cache_inv [b \<mapsto> k] t" "bcontent t = bcontent s"
    "memdisk t = memdisk s" "dwrites t = dwrites s" "bframe t = bframe s" "disksize t = disksize s"
    "dirty_blocks t = dirty_blocks s"
    using cache_rd_hit [OF assms] cache_rd_miss [OF assms]
    by (cases "find (\<lambda>b. b_dev (bufs s ! b) = 1 \<and> b_blockno (bufs s ! b) = of_nat k) (bhead s)") fastforce+
  have d: "bdata b t = Done (bcontent s k) t" using bcache.dat [OF t(2), of b k] t(3) by simp
  have "[b \<mapsto> k](b := None) = Map.empty" by simp
  moreover have "cache_inv [b \<mapsto> k] (upd_inode ip f t)" using t(2) by simp
  moreover have "dirty_blocks (upd_inode ip f r) = dirty_blocks r" "dwrites (upd_inode ip f r) = dwrites r"
      "bframe (upd_inode ip f r) = (klog r, sb r, (inodes r)[ip := f (inodes r ! ip)], ptable r)" for r :: "'a fs_state_scheme"
    by (simp_all add: upd_inode_def dirty_blocks_def bframe_def)
  ultimately obtain u where "brelse b (upd_inode ip f t) = Done () u" "same_view (upd_inode ip f s) u"
    using cache_rl [of "[b \<mapsto> k]" "upd_inode ip f t" b k] t by (auto simp: same_view_def bframe_def)
  with t(1) d show ?thesis by blast
qed

lemma on_disk_simps [simp]:
  "i_dev (on_disk s n j) = i_dev j" "i_inum (on_disk s n j) = i_inum j" "i_ref (on_disk s n j) = i_ref j"
  "i_lock (on_disk s n j) = i_lock j" "i_flags (on_disk s n j) = i_flags j" "i_type (on_disk s n j) = i_type (dnode s n)"
  "i_nlink (on_disk s n j) = i_nlink (dnode s n)" "i_size (on_disk s n j) = i_size (dnode s n)"
  "i_addrs (on_disk s n j) = i_addrs (dnode s n)"
  by (simp_all add: on_disk_def dnode_def load_dinode_def)

lemma on_disk_upd [simp]:
  "on_disk s n (j\<lparr>i_lock := l\<rparr>) = (on_disk s n j)\<lparr>i_lock := l\<rparr>" "on_disk s n (j\<lparr>i_ref := r\<rparr>) = (on_disk s n j)\<lparr>i_ref := r\<rparr>"
  "on_disk s n (j\<lparr>i_flags := f\<rparr>) = (on_disk s n j)\<lparr>i_flags := f\<rparr>" "on_disk s n (on_disk s n j) = on_disk s n j"
  by (simp_all add: on_disk_def load_dinode_def)

definition inode_there :: "'a fs_state_scheme \<Rightarrow> u32 \<Rightarrow> bool" where
  "inode_there s n \<longleftrightarrow> unat (IBLOCK n (sb s)) < disksize s \<and> i_type (dnode s n) \<noteq> 0"

lemma ilock_icache:
  assumes c: "icache s R L" and a: "at s ip n" "ip \<notin> L" and there: "inode_there s n"
  shows "\<exists>t. ilock ip s = Done () t \<and> icache t R (insert ip L) \<and> disk_view t = disk_view s \<and> (\<forall>jp m. at t jp m \<longleftrightarrow> at s jp m) \<and>
    i_dev (inodes t ! ip) = 1 \<and> on_disk s n (inodes t ! ip) = inodes t ! ip"
proof -
  note A = at_ok [OF c a(1)] and C = icacheD [OF c]
  have b: "unat (IBLOCK n (sb s)) < disksize s" "i_type (dnode s n) \<noteq> 0" using there by (simp_all add: inode_there_def)
  obtain p where p: "cur s = Some p" using C(1) by (auto simp: cache_inv_def)
  let ?i = "inodes s ! ip"
  define j where "j = ?i\<lparr>i_lock := take_lock (p_pid (pof s p)) (i_lock ?i)\<rparr>"
  define t1 where "t1 = upd_inode ip (\<lambda>i. i\<lparr>i_lock := take_lock (p_pid (pof s p)) (i_lock i)\<rparr>) s"
  have acq: "acquiresleep (inode_lock ip) s = Done () t1"
    using acquire_inode [OF _ _ p, of ip] A(1) C(2) C(8) [OF A(1)] a(2) by (simp add: t1_def)
  have t1: "inodes t1 ! ip = j" "disk_view t1 = disk_view s" "cache_inv Map.empty t1" "inodes t1 = (inodes s)[ip := j]"
    using A(1) C(1,2) by (simp_all add: t1_def j_def)
  have fin: "icache t R (insert ip L) \<and> (\<forall>jp m. at t jp m \<longleftrightarrow> at s jp m) \<and> inodes t ! ip = i'"
    if "cache_inv Map.empty t" "disk_view t = disk_view s" "inodes t = (inodes s)[ip := i']" "i_ref i' = R n" "i_inum i' = n"
       "i_dev i' = 1" "on_disk s n i' = i'" "lk_locked (i_lock i') \<noteq> 0" for t i'
    using icache_entry [OF c a(1) that(1-3,5,6), where L' = "insert ip L"] that A(1,4,5) C(2,6) a(1)
    by (auto dest: at_ok(2) [OF c])
  have r: "\<not> i_ref ?i < 1" using A(4,5) by simp
  show ?thesis
  proof (cases "i_flags ?i AND I_VALID = 0")
    case False
    then have "ilock ip s = Done () t1" using r acq t1(1) by (simp add: ilock_def inode_field_def kop_simps j_def)
    moreover have "on_disk s n j = j" "i_ref j = R n" "i_inum j = n" "i_dev j = 1" "lk_locked (i_lock j) \<noteq> 0"
      using A False by (simp_all add: j_def take_lock_def)
    ultimately show ?thesis using fin [OF t1(3,2,4)] t1(2) by auto
  next
    case True
    define f where "f = load_dinode (bcontent s (unat (IBLOCK n (sb s)))) (dinode_off n)"
    have fj: "f = on_disk s n" by (simp add: f_def on_disk_def fun_eq_iff)
    note V = disk_viewD [OF t1(2)]
    obtain bp t2 t3 where t: "bread 1 (IBLOCK n (sb s)) t1 = Done bp t2" "bdata bp t2 = Done (bcontent s (unat (IBLOCK n (sb s)))) t2"
        "brelse bp (upd_inode ip f t2) = Done () t3" "same_view (upd_inode ip f t1) t3"
      using cache_peek_upd [OF t1(3), of "unat (IBLOCK n (sb s))" ip f] b(1) V by auto
    note T = same_viewD [OF t(4)]
    define i' where "i' = (f j)\<lparr>i_flags := i_flags j OR I_VALID\<rparr>"
    define t4 where "t4 = upd_inode ip (\<lambda>i. i\<lparr>i_flags := i_flags i OR I_VALID\<rparr>) t3"
    have t3: "inodes t3 = (inodes s)[ip := f j]" using T(3) t1(1,4) by simp
    have t4: "inodes t4 = (inodes s)[ip := i']" using t3 A(1) C(2) by (simp add: t4_def i'_def fj)
    have "disk_view t4 = disk_view s" using disk_view_same [OF t(4)] t1(2) by (simp add: t4_def)
    moreover have "cache_inv Map.empty t4" using T(1) by (simp add: t4_def)
    moreover have i: "on_disk s n i' = i'" "i_ref i' = R n" "i_inum i' = n" "i_dev i' = 1" "lk_locked (i_lock i') \<noteq> 0" "i_type i' \<noteq> 0"
      using A b(2) by (simp_all add: i'_def fj j_def take_lock_def)
    ultimately have F: "icache t4 R (insert ip L) \<and> (\<forall>jp m. at t4 jp m \<longleftrightarrow> at s jp m) \<and> inodes t4 ! ip = i'" "disk_view t4 = disk_view s"
      using fin [of t4 i'] t4 by simp_all
    have "ilock ip s = Done () t4"
      using r acq t1(1) True t A V i(6) F(1) t4_def
      by (simp add: ilock_def inode_field_def kop_simps j_def f_def)
    then show ?thesis using F i by auto
  qed
qed

lemma iunlock_icache:
  assumes c: "icache s R L" and a: "at s ip n" "ip \<in> L"
  shows "\<exists>t. iunlock ip s = Done () t \<and> icache t R (L - {ip}) \<and> disk_view t = disk_view s \<and> (\<forall>jp m. at t jp m \<longleftrightarrow> at s jp m)"
proof -
  note A = at_ok [OF c a(1)] and C = icacheD [OF c]
  let ?i = "(inodes s ! ip)\<lparr>i_lock := drop_lock (i_lock (inodes s ! ip))\<rparr>"
  define t where "t = upd_inode ip (\<lambda>i. i\<lparr>i_lock := drop_lock (i_lock i)\<rparr>) s"
  have it: "cache_inv Map.empty t" "disk_view t = disk_view s" "inodes t = (inodes s)[ip := ?i]"
    using C(1) by (simp_all add: t_def)
  have "lk_locked (i_lock (inodes s ! ip)) \<noteq> 0" using C(8) [OF A(1)] a(2) by simp
  then have "iunlock ip s = Done () t"
    using release_inode [OF _ C(3), of ip] A C(2) by (simp add: iunlock_def inode_lock_def inode_field_def kop_simps t_def)
  moreover have "icache t (R(n := i_ref ?i)) (L - {ip})" "at t jp m \<longleftrightarrow> (if jp = ip then 0 < i_ref ?i \<and> m = n else at s jp m)" for jp m
    using icache_entry [OF c a(1) it, where L' = "L - {ip}"] A by (auto simp: drop_lock_def)
  ultimately show ?thesis using it(2) A(4,5) a(1) by (auto dest: at_ok(2) [OF c])
qed

lemma iput_icache:
  assumes c: "icache s R L" and a: "at s ip n" "ip \<notin> L" and l: "i_nlink (dnode s n) \<noteq> 0"
  shows "\<exists>t. iput ip s = Done () t \<and> icache t (R(n := R n - 1)) L \<and> disk_view t = disk_view s \<and>
    (\<forall>jp m. m \<noteq> n \<or> 1 < R n \<longrightarrow> at s jp m \<longrightarrow> at t jp m)"
proof -
  note A = at_ok [OF c a(1)] and C = icacheD [OF c]
  let ?i = "(inodes s ! ip)\<lparr>i_ref := R n - 1\<rparr>"
  define t where "t = upd_inode ip (\<lambda>i. i\<lparr>i_ref := i_ref i - 1\<rparr>) s"
  have it: "cache_inv Map.empty t" "disk_view t = disk_view s" "inodes t = (inodes s)[ip := ?i]"
    using C(1) A(4) by (simp_all add: t_def)
  have "\<not> (i_flags (inodes s ! ip) AND I_VALID \<noteq> 0 \<and> i_nlink (inodes s ! ip) = 0)"
  proof
    assume v: "i_flags (inodes s ! ip) AND I_VALID \<noteq> 0 \<and> i_nlink (inodes s ! ip) = 0"
    then have "i_nlink (on_disk s n (inodes s ! ip)) = 0" using A(6) by simp
    then show False using l by simp
  qed
  then have "iput ip s = Done () t" by (auto simp: iput_def inode_field_def kop_simps t_def)
  moreover have "icache t (R(n := i_ref ?i)) L" "at t jp m \<longleftrightarrow> (if jp = ip then 0 < i_ref ?i \<and> m = n else at s jp m)" for jp m
    using icache_entry [OF c a(1) it, where L' = L] A C(8) [OF A(1)] a(2) by auto
  moreover have "m = n" if "at s ip m" for m using that a(1) by (simp add: at_def)
  ultimately show ?thesis using it(2) by auto
qed

section \<open>The contract of the inode cache\<close>

text \<open>
  What the cache promises its clients: taking and dropping a reference changes the count of that inode by one, locking and
  unlocking changes no count, and none of them changes what is on the disk.
\<close>

locale inode_refs =
  fixes inv :: "'s \<Rightarrow> (u32 \<Rightarrow> int) \<Rightarrow> nat set \<Rightarrow> bool" and refers :: "'s \<Rightarrow> nat \<Rightarrow> u32 \<Rightarrow> bool" and view :: "'s \<Rightarrow> 'v"
    and linked :: "'s \<Rightarrow> u32 \<Rightarrow> bool" and there :: "'s \<Rightarrow> u32 \<Rightarrow> bool"
    and get :: "u32 \<Rightarrow> ('s, nat) kop" and lock :: "nat \<Rightarrow> ('s, unit) kop" and unlock :: "nat \<Rightarrow> ('s, unit) kop" and put :: "nat \<Rightarrow> ('s, unit) kop"
  assumes counts: "inv s R L \<Longrightarrow> 0 \<le> R n"
    and linked_view: "view t = view s \<Longrightarrow> linked t = linked s" and there_view: "view t = view s \<Longrightarrow> there t = there s"
    and get: "inv s R L \<Longrightarrow> 0 < R n \<or> card {m. 0 < R m} < NINODE \<Longrightarrow>
      \<exists>ip t. get n s = Done ip t \<and> inv t (R(n := R n + 1)) L \<and> refers t ip n \<and> view t = view s \<and> (\<forall>jp m. refers s jp m \<longrightarrow> refers t jp m)"
    and lock: "inv s R L \<Longrightarrow> refers s ip n \<Longrightarrow> ip \<notin> L \<Longrightarrow> there s n \<Longrightarrow>
      \<exists>t. lock ip s = Done () t \<and> inv t R (insert ip L) \<and> view t = view s \<and> (\<forall>jp m. refers t jp m \<longleftrightarrow> refers s jp m)"
    and unlock: "inv s R L \<Longrightarrow> refers s ip n \<Longrightarrow> ip \<in> L \<Longrightarrow>
      \<exists>t. unlock ip s = Done () t \<and> inv t R (L - {ip}) \<and> view t = view s \<and> (\<forall>jp m. refers t jp m \<longleftrightarrow> refers s jp m)"
    and put: "inv s R L \<Longrightarrow> refers s ip n \<Longrightarrow> ip \<notin> L \<Longrightarrow> linked s n \<Longrightarrow>
      \<exists>t. put ip s = Done () t \<and> inv t (R(n := R n - 1)) L \<and> view t = view s \<and> (\<forall>jp m. m \<noteq> n \<or> 1 < R n \<longrightarrow> refers s jp m \<longrightarrow> refers t jp m)"
begin

lemma unref: "((R :: u32 \<Rightarrow> int)(n := R n + 1))(n := (R(n := R n + 1)) n - 1) = R"
  by (simp add: fun_eq_iff)

text \<open>Dropping a reference just taken restores the counts.\<close>

lemma drop:
  assumes "inv s (R(n := R n + 1)) L" "refers s ip n" "ip \<notin> L" "linked s n"
  shows "\<exists>t. put ip s = Done () t \<and> inv t R L \<and> view t = view s"
  using put [OF assms, unfolded unref] by blast

lemma unlock_put:
  assumes c: "inv s R L" and a: "refers s ip n" "ip \<in> L" and l: "linked s n"
  shows "\<exists>t. kseq (unlock ip) (put ip) s = Done () t \<and> inv t (R(n := R n - 1)) (L - {ip}) \<and> view t = view s \<and>
    (\<forall>jp m. m \<noteq> n \<or> 1 < R n \<longrightarrow> refers s jp m \<longrightarrow> refers t jp m)"
proof -
  obtain u where u: "unlock ip s = Done () u" "inv u R (L - {ip})" "view u = view s" "\<forall>jp m. refers u jp m \<longleftrightarrow> refers s jp m"
    using unlock [OF c a] by blast
  obtain t where "put ip u = Done () t" "inv t (R(n := R n - 1)) (L - {ip})" "view t = view u"
      "\<forall>jp m. m \<noteq> n \<or> 1 < R n \<longrightarrow> refers u jp m \<longrightarrow> refers t jp m"
    using put [OF u(2), of ip n] u(4) a l linked_view [OF u(3)] by auto
  then show ?thesis using u by (auto simp: kop_simps)
qed

text \<open>Leaving the inode a client holds and has locked.\<close>

lemma leave:
  assumes "inv s (R(n := R n + 1)) {ip}" "refers s ip n" "linked s n"
  shows "\<exists>t. kseq (unlock ip) (put ip) s = Done () t \<and> inv t R {} \<and> view t = view s"
  using unlock_put [OF assms(1,2) _ assms(3), unfolded unref] by auto

text \<open>The same for a client that has taken a reference to another inode, or once more to this one.\<close>

lemma move:
  assumes c: "inv s ((R(n := R n + 1))(m := (R(n := R n + 1)) m + 1)) {ip}" and R: "\<forall>m. 0 \<le> R m"
    and a: "refers s ip n" "refers s jp m" and l: "linked s n"
  shows "\<exists>t. kseq (unlock ip) (put ip) s = Done () t \<and> inv t (R(m := R m + 1)) {} \<and> view t = view s \<and> refers t jp m"
proof -
  define Q where "Q = (R(n := R n + 1))(m := (R(n := R n + 1)) m + 1)"
  have e: "Q(n := Q n - 1) = R(m := R m + 1)" by (auto simp: Q_def fun_eq_iff)
  have "m \<noteq> n \<or> 1 < Q n" using R by (auto simp: Q_def add_strict_increasing add_nonneg_pos)
  then show ?thesis using unlock_put [OF c [folded Q_def] a(1) _ l, unfolded e] a(2) by auto
qed

text \<open>Taking a reference, holding the lock for a while and giving both back leaves the counts and the disk as they were.\<close>

lemma visit:
  assumes c: "inv s R {}" and r: "0 < R n \<or> card {m. 0 < R m} < NINODE" and l: "linked s n" "there s n"
  shows "\<exists>t. kbind (get n) (\<lambda>ip. kseq (lock ip) (kseq (unlock ip) (put ip))) s = Done () t \<and> inv t R {} \<and> view t = view s"
proof -
  obtain ip u where u: "get n s = Done ip u" "inv u (R(n := R n + 1)) {}" "refers u ip n" "view u = view s" using get [OF c r] by blast
  obtain v where v: "lock ip u = Done () v" "inv v (R(n := R n + 1)) {ip}" "view v = view u" "refers v ip n"
    using lock [OF u(2,3)] u(3) l(2) there_view [OF u(4)] by auto
  have vs: "view v = view s" using u(4) v(3) by simp
  obtain t where "kseq (unlock ip) (put ip) v = Done () t" "inv t R {}" "view t = view v"
    using leave [OF v(2,4)] l(1) linked_view [OF vs] by auto
  then show ?thesis using u(1) v(1) vs by (auto simp: kop_simps)
qed

end

section \<open>The tree of names\<close>

definition dblocks :: "inode \<Rightarrow> nat" where
  "dblocks i = (unat (i_size i) + 511) div 512"

text \<open>What a directory binds its names to; nothing for an inode that is no directory.\<close>

definition names :: "'a fs_state_scheme \<Rightarrow> u32 \<Rightarrow> (byte list \<rightharpoonup> u16) option" where
  "names s n = (if i_type (dnode s n) = T_DIR then Some (dir_map (dir_entries (bcontent s) (dnode s n) (dblocks (dnode s n)))) else None)"

text \<open>
  The walk from inode \<open>n\<close> through the elements of a path, to the inode of the whole path or to the directory
  of its last element.
\<close>

fun resolve :: "bool \<Rightarrow> (u32 \<Rightarrow> (byte list \<rightharpoonup> u16) option) \<Rightarrow> u32 \<Rightarrow> byte list list \<Rightarrow> u32 option" where
  "resolve parent D n [] = (if parent then None else Some n)"
| "resolve parent D n (e # es) =
     (case D n of
        None \<Rightarrow> None
      | Some m \<Rightarrow> if parent \<and> es = [] then Some n
          else (case m (dname e) of None \<Rightarrow> None | Some k \<Rightarrow> resolve parent D (ucast k) es))"

text \<open>A set of inodes that exist, are linked, and whose directories are well formed and lead into the set.\<close>

definition tree :: "'a fs_state_scheme \<Rightarrow> u32 set \<Rightarrow> bool" where
  "tree s S \<longleftrightarrow> (\<forall>n \<in> S. inode_there s n \<and> i_nlink (dnode s n) \<noteq> 0 \<and>
     (i_type (dnode s n) = T_DIR \<longrightarrow>
        is_dir (dnode s n) (dblocks (dnode s n)) \<and> mapped (disksize s) (bcontent s) (dnode s n) (dblocks (dnode s n))) \<and>
     (\<forall>m k. names s n = Some m \<longrightarrow> k \<in> ran m \<longrightarrow> ucast k \<in> S))"

lemma view_cong:
  assumes "disk_view t = disk_view s"
  shows "dnode t = dnode s" "names t = names s" "inode_there t = inode_there s" "tree t = tree s"
proof -
  note V = disk_viewD [OF assms]
  show d: "dnode t = dnode s" by (simp add: dnode_def fun_eq_iff on_disk_cong [OF assms])
  show n: "names t = names s" by (simp add: names_def fun_eq_iff d V)
  show i: "inode_there t = inode_there s" by (simp add: inode_there_def fun_eq_iff d V)
  show "tree t = tree s" by (simp add: tree_def fun_eq_iff d n i V)
qed

interpretation irefs: inode_refs icache at disk_view "\<lambda>s n. i_nlink (dnode s n) \<noteq> 0" inode_there "iget 1" ilock iunlock iput
proof unfold_locales
  show "0 \<le> R n" if "icache s R L" for s :: "'a fs_state_scheme" and R L n using icacheD(4) [OF that] .
  show "(\<lambda>n. i_nlink (dnode t n) \<noteq> 0) = (\<lambda>n. i_nlink (dnode s n) \<noteq> 0)" "inode_there t = inode_there s"
    if "disk_view t = disk_view s" for s t :: "'a fs_state_scheme"
    using view_cong [OF that] by simp_all
  show "\<exists>t. ilock ip s = Done () t \<and> icache t R (insert ip L) \<and> disk_view t = disk_view s \<and> (\<forall>jp m. at t jp m \<longleftrightarrow> at s jp m)"
    if "icache s R L" "at s ip n" "ip \<notin> L" "inode_there s n" for s :: "'a fs_state_scheme" and R L ip n
    using ilock_icache [OF that] by blast
qed (rule iget_icache iunlock_icache iput_icache; assumption)+

lemmas leave_icache = irefs.leave [folded iunlockput_def]
lemmas move_icache = irefs.move [folded iunlockput_def]

lemma icache_same:
  assumes "icache s R L" "same_view s t"
  shows "icache t R L" "at t = at s"
proof -
  note V = same_viewD [OF assms(2)]
  show a: "at t = at s" by (simp add: at_def fun_eq_iff V(3))
  have "entry_ok t = entry_ok s" by (simp add: entry_ok_def fun_eq_iff on_disk_cong [OF disk_view_same [OF assms(2)]])
  moreover have "no_sleeper c t = no_sleeper c s" for c by (simp add: no_sleeper_def V(7))
  ultimately show "icache t R L" using assms(1) V by (simp add: icache_def a)
qed

lemma dir_cong:
  assumes "i_type i = i_type j" "i_size i = i_size j" "i_addrs i = i_addrs j" "i_dev i = i_dev j"
  shows "dir_entries c i N = dir_entries c j N" "is_dir i N = is_dir j N" "mapped ds c i N = mapped ds c j N"
proof -
  have f: "fblock c i = fblock c j" by (simp add: fblock_def fun_eq_iff assms)
  have "dir_entry c i N = dir_entry c j N" by (simp add: dir_entry_def file_bytes_def f fun_eq_iff)
  then show "dir_entries c i N = dir_entries c j N" by (simp add: dir_entries_def assms)
  show "is_dir i N = is_dir j N" "mapped ds c i N = mapped ds c j N" by (simp_all add: is_dir_def mapped_def f assms)
qed

lemma dnode_dev: "i_dev (dnode s n) = 1"
  by (simp add: dnode_def)

text \<open>Looking a name up in a directory whose inode is locked.\<close>

lemma lookup_icache:
  assumes c: "icache s R L" and a: "at s ip n" "i_dev (inodes s ! ip) = 1" "on_disk s n (inodes s ! ip) = inodes s ! ip"
    and tr: "tree s S" "n \<in> S" and nm: "names s n = Some D" and room: "card {m. 0 < R m} < NINODE"
  shows "case D (dname e) of
      None \<Rightarrow> \<exists>t. dirlookup ip e s = Done None t \<and> icache t R L \<and> disk_view t = disk_view s \<and> at t ip n
    | Some k \<Rightarrow> \<exists>jp off t. dirlookup ip e s = Done (Some (jp, off)) t \<and> icache t (R(ucast k := R (ucast k) + 1)) L \<and>
        disk_view t = disk_view s \<and> at t ip n \<and> at t jp (ucast k)"
proof -
  let ?i = "inodes s ! ip" and ?N = "dblocks (dnode s n)"
  have f: "i_type ?i = i_type (dnode s n)" "i_size ?i = i_size (dnode s n)" "i_addrs ?i = i_addrs (dnode s n)" "i_dev ?i = i_dev (dnode s n)"
    using on_disk_simps(6,8,9) [of s n ?i] dnode_dev [of s n] a(2,3) by simp_all
  have ty: "i_type (dnode s n) = T_DIR" and D: "D = dir_map (dir_entries (bcontent s) ?i ?N)"
    using nm by (auto simp: names_def dir_cong(1) [OF f] split: if_splits)
  have d: "is_dir ?i ?N" "mapped (disksize s) (bcontent s) ?i ?N" using tr ty by (simp_all add: tree_def dir_cong(2,3) [OF f])
  obtain t where t: "same_view s t"
      "case D (dname e) of None \<Rightarrow> dirlookup ip e s = Done None t
       | Some k \<Rightarrow> \<exists>m. dirlookup ip e s = kbind (iget 1 (ucast k)) (\<lambda>jp. kret (Some (jp, of_nat (16 * m)))) t"
    using dirlookup_run [OF icacheD(1) [OF c] refl d refl, of e] unfolding D
    by (fastforce simp: take_entry_def split: option.splits)
  note S = icache_same [OF c t(1)] and dv = disk_view_same [OF t(1)]
  show ?thesis
  proof (cases "D (dname e)")
    case None
    then show ?thesis using t(2) S dv a(1) by auto
  next
    case (Some k)
    then obtain m where m: "dirlookup ip e s = kbind (iget 1 (ucast k)) (\<lambda>jp. kret (Some (jp, of_nat (16 * m)))) t" using t(2) by auto
    obtain jp u where u: "iget 1 (ucast k) t = Done jp u" "icache u (R(ucast k := R (ucast k) + 1)) L" "at u jp (ucast k)"
        "disk_view u = disk_view t" "\<forall>jp m. at t jp m \<longrightarrow> at u jp m"
      using iget_icache [OF S(1), of "ucast k"] room by blast
    then show ?thesis using Some m a(1) S(2) dv by (auto simp: kop_simps)
  qed
qed

section \<open>The walk\<close>

lemma skipelem_rest:
  assumes "skipelem path = Some (e, rest)"
  shows "path_elems rest = [] \<longleftrightarrow> rest = []"
proof -
  obtain q where q: "rest = dropWhile (\<lambda>c. c = slash) q" using assms by (auto simp: skipelem_def Let_def split: if_splits)
  have "dropWhile (\<lambda>c. c = slash) rest = rest" unfolding q by (induction q) auto
  then show ?thesis by (simp add: path_elems.simps [of rest] skipelem_def Let_def)
qed

text \<open>The inode \<open>n\<close> the walk is at, locked, and what it reads there.\<close>

lemma step_locked:
  assumes "icache s R {}" "at s ip n" "tree s S" "n \<in> S"
  shows "\<exists>t. ilock ip s = Done () t \<and> icache t R {ip} \<and> disk_view t = disk_view s \<and> at t ip n \<and>
    i_dev (inodes t ! ip) = 1 \<and> on_disk t n (inodes t ! ip) = inodes t ! ip \<and> i_type (inodes t ! ip) = i_type (dnode s n)"
proof -
  have "inode_there s n" using assms(3,4) by (simp add: tree_def)
  then obtain t where t: "ilock ip s = Done () t" "icache t R {ip}" "disk_view t = disk_view s" "at t ip n"
      "i_dev (inodes t ! ip) = 1" "on_disk s n (inodes t ! ip) = inodes t ! ip"
    using ilock_icache [OF assms(1,2)] assms(2) by auto
  moreover have "on_disk t n (inodes t ! ip) = inodes t ! ip" using t(6) by (simp add: on_disk_cong [OF t(3)])
  moreover have "i_type (inodes t ! ip) = i_type (dnode s n)" using arg_cong [OF t(6), of i_type] by simp
  ultimately show ?thesis by blast
qed

text \<open>The two entries of the cache a walk needs.\<close>

definition spare :: "(u32 \<Rightarrow> int) \<Rightarrow> bool" where
  "spare R \<longleftrightarrow> (\<forall>m. 0 \<le> R m) \<and> card {m. 0 < R m} + 2 \<le> NINODE"

lemma spare_one:
  assumes "spare R"
  shows "card {m. 0 < (R(n := R n + 1)) m} < NINODE"
proof -
  have "{m. 0 < (R(n := R n + 1)) m} \<subseteq> insert n {m. 0 < R m}" by auto
  then have "card {m. 0 < (R(n := R n + 1)) m} \<le> card (insert n {m. 0 < R m})" by (intro card_mono) auto
  also have "\<dots> \<le> Suc (card {m. 0 < R m})" by (rule card_insert_le_m1) auto
  finally show ?thesis using assms by (simp add: spare_def)
qed

text \<open>
  A walk that finds nothing leaves the references as they were; one that arrives at an inode leaves one more
  reference to it.
\<close>

definition walk_done ::
    "('a fs_state_scheme, 'r option) outcome \<Rightarrow> 'a fs_state_scheme \<Rightarrow> (u32 \<Rightarrow> int) \<Rightarrow> (nat \<Rightarrow> 'r) \<Rightarrow> u32 option \<Rightarrow> bool" where
  "walk_done r s R f goal \<longleftrightarrow> (\<exists>t. disk_view t = disk_view s \<and>
     (case goal of
        None \<Rightarrow> r = Done None t \<and> icache t R {}
      | Some m \<Rightarrow> \<exists>jp. r = Done (Some (f jp)) t \<and> at t jp m \<and> icache t (R(m := R m + 1)) {}))"

lemma walk_done_view: "disk_view t = disk_view s \<Longrightarrow> walk_done r t R f goal = walk_done r s R f goal"
  by (simp add: walk_done_def)

lemma tree_next:
  assumes "tree s S" "n \<in> S" "names s n = Some D" "D e = Some k"
  shows "ucast k \<in> S"
  using assms ranI [of D e k] unfolding tree_def by blast

lemma walk_dir:
  assumes c: "icache s (R(n := R n + 1)) {ip}" and a: "at s ip n" "i_dev (inodes s ! ip) = 1" "on_disk s n (inodes s ! ip) = inodes s ! ip"
    and tr: "tree s S" "n \<in> S" and nm: "names s n = Some D" and sp: "spare R"
  shows "case D (dname e) of
      None \<Rightarrow> \<exists>t. kbind (dirlookup ip e) (\<lambda>r. case r of None \<Rightarrow> kseq (iunlockput ip) (kret None) | Some (nxt, _) \<Rightarrow> kseq (iunlockput ip) (F nxt)) s = Done None t \<and>
        icache t R {} \<and> disk_view t = disk_view s
    | Some k \<Rightarrow> \<exists>jp t. kbind (dirlookup ip e) (\<lambda>r. case r of None \<Rightarrow> kseq (iunlockput ip) (kret None) | Some (nxt, _) \<Rightarrow> kseq (iunlockput ip) (F nxt)) s = F jp t \<and>
        icache t (R(ucast k := R (ucast k) + 1)) {} \<and> disk_view t = disk_view s \<and> at t jp (ucast k)"
proof -
  have l: "i_nlink (dnode s n) \<noteq> 0" using tr by (simp add: tree_def)
  note L = lookup_icache [OF c a tr nm spare_one [OF sp], of e]
  show ?thesis
  proof (cases "D (dname e)")
    case None
    then obtain t where t: "dirlookup ip e s = Done None t" "icache t (R(n := R n + 1)) {ip}" "disk_view t = disk_view s" "at t ip n"
      using L by auto
    then obtain u where "iunlockput ip t = Done () u" "icache u R {}" "disk_view u = disk_view t"
      using leave_icache [OF t(2,4)] l view_cong(1) [OF t(3)] by auto
    then show ?thesis using None t by (auto simp: kop_simps)
  next
    case (Some k)
    then obtain jp off t where t: "dirlookup ip e s = Done (Some (jp, off)) t"
        "icache t ((R(n := R n + 1))(ucast k := (R(n := R n + 1)) (ucast k) + 1)) {ip}" "disk_view t = disk_view s" "at t ip n" "at t jp (ucast k)"
      using L by auto
    then obtain u where "iunlockput ip t = Done () u" "icache u (R(ucast k := R (ucast k) + 1)) {}" "disk_view u = disk_view t" "at u jp (ucast k)"
      using move_icache [OF t(2) _ t(4,5)] sp l view_cong(1) [OF t(3)] by (auto simp: spare_def)
    then show ?thesis using Some t by (auto simp: kop_simps)
  qed
qed

text \<open>One round of the loop.\<close>

lemma namex_round:
  assumes c: "icache s (R(n := R n + 1)) {}" and sp: "spare R" and a: "at s ip n" and tr: "tree s S" "n \<in> S"
    and sk: "skipelem path = Some (e, rest)" and r: "r = namex_loop (Suc k) ip path parent nm s"
  shows "\<exists>t. disk_view t = disk_view s \<and>
    (case names s n of
       None \<Rightarrow> r = Done None t \<and> icache t R {}
     | Some D \<Rightarrow>
         if parent \<and> rest = [] then r = Done (Some (ip, e)) t \<and> at t ip n \<and> icache t (R(n := R n + 1)) {}
         else (case D (dname e) of
             None \<Rightarrow> r = Done None t \<and> icache t R {}
           | Some m \<Rightarrow> \<exists>jp. r = namex_loop k jp rest parent e t \<and> at t jp (ucast m) \<and>
               icache t (R(ucast m := R (ucast m) + 1)) {}))"
proof -
  have l: "i_nlink (dnode s n) \<noteq> 0" using tr by (simp add: tree_def)
  obtain t where t: "ilock ip s = Done () t" "icache t (R(n := R n + 1)) {ip}" "disk_view t = disk_view s" "at t ip n"
      "i_dev (inodes t ! ip) = 1" "on_disk t n (inodes t ! ip) = inodes t ! ip" "i_type (inodes t ! ip) = i_type (dnode s n)"
    using step_locked [OF c a tr] by blast
  note V = view_cong [OF t(3)]
  show ?thesis
  proof (cases "names s n")
    case None
    obtain u where "iunlockput ip t = Done () u" "icache u R {}" "disk_view u = disk_view t"
      using leave_icache [OF t(2,4)] l V(1) by auto
    then show ?thesis using sk None t by (auto simp: r kop_simps inode_field_def names_def split: if_splits)
  next
    case N: (Some D)
    then have ty: "i_type (dnode s n) = T_DIR" by (simp add: names_def split: if_splits)
    show ?thesis
    proof (cases "parent \<and> rest = []")
      case True
      obtain u where "iunlock ip t = Done () u" "icache u (R(n := R n + 1)) {}" "disk_view u = disk_view t" "at u ip n"
        using iunlock_icache [OF t(2,4)] t(4) by auto
      then show ?thesis using sk N t True ty by (auto simp: r kop_simps inode_field_def)
    next
      case False
      then have "r = kbind (dirlookup ip e) (\<lambda>r. case r of
            None \<Rightarrow> kseq (iunlockput ip) (kret None)
          | Some (nxt, _) \<Rightarrow> kseq (iunlockput ip) (namex_loop k nxt rest parent e)) t"
        using sk t ty by (auto simp: r kop_simps inode_field_def)
      then show ?thesis
        using walk_dir [OF t(2,4-6) _ tr(2) _ sp, where D = D and e = e and F = "\<lambda>nxt. namex_loop k nxt rest parent e"] V tr N t(3) False
        by (auto split: option.splits)
    qed
  qed
qed

lemma namex_loop_icache:
  assumes "icache s (R(n := R n + 1)) {}" "spare R" "at s ip n" "tree s S" "n \<in> S" "length path < k"
  shows "walk_done (namex_loop k ip path parent nm s) s R (\<lambda>jp. (jp, last (nm # path_elems path)))
    (resolve parent (names s) n (path_elems path))"
  using assms
proof (induction k arbitrary: s n ip path nm)
  case (Suc k)
  note c = Suc.prems(1) and a = Suc.prems(3) and tr = Suc.prems(4,5)
  show ?case
  proof (cases "skipelem path")
    case None
    moreover have "path_elems path = []" using None by (simp add: path_elems.simps)
    moreover obtain t where "iput ip s = Done () t" "icache t R {}" "disk_view t = disk_view s"
      using irefs.drop [OF c a] tr by (auto simp: tree_def)
    ultimately show ?thesis using c a by (cases parent) (auto simp: walk_done_def kop_simps fun_upd_def)
  next
    case (Some er)
    then obtain e rest where sk: "skipelem path = Some (e, rest)" by (cases er) auto
    have p: "path_elems path = e # path_elems rest" using sk by (simp add: path_elems.simps [of path])
    note W = namex_round [OF Suc.prems(1-5) sk refl, of k parent nm] and re = skipelem_rest [OF sk]
    show ?thesis
    proof (cases "\<exists>D m. names s n = Some D \<and> \<not> (parent \<and> rest = []) \<and> D (dname e) = Some m")
      case False
      then show ?thesis using W re by (auto simp: p walk_done_def simp del: namex_loop.simps split: option.splits if_splits)
    next
      case True
      then obtain D m where N: "names s n = Some D" "\<not> (parent \<and> rest = [])" "D (dname e) = Some m" by blast
      then obtain jp u where u: "namex_loop (Suc k) ip path parent nm s = namex_loop k jp rest parent e u"
          "icache u (R(ucast m := R (ucast m) + 1)) {}" "disk_view u = disk_view s" "at u jp (ucast m)"
        using W by (auto simp del: namex_loop.simps)
      have "walk_done (namex_loop k jp rest parent e u) u R (\<lambda>jp. (jp, last (e # path_elems rest)))
          (resolve parent (names u) (ucast m) (path_elems rest))"
        using Suc.IH [OF u(2) Suc.prems(2) u(4)] tree_next [OF tr N(1,3)] tr skipelem_shorter [OF sk] Suc.prems(6) view_cong [OF u(3)]
        by auto
      then show ?thesis using N re unfolding u(1) by (auto simp: p walk_done_view [OF u(3)] view_cong [OF u(3)])
    qed
  qed
qed simp

text \<open>Where a path starts: at the root, or at the directory of the running process.\<close>

definition walk_start :: "'a fs_state_scheme \<Rightarrow> byte list \<Rightarrow> u32 \<Rightarrow> bool" where
  "walk_start s path n \<longleftrightarrow>
     (if path \<noteq> [] \<and> hd path = slash then n = ROOTINO
      else \<exists>c ip. cur s = Some c \<and> p_cdir (pof s c) = Some ip \<and> at s ip n)"

lemma namex_icache:
  assumes c: "icache s R {}" and sp: "spare R" and tr: "tree s S" "n \<in> S" and st: "walk_start s path n"
  shows "walk_done (namex path parent s) s R (\<lambda>jp. (jp, last ([] # path_elems path)))
    (resolve parent (names s) n (path_elems path))"
proof -
  have "\<exists>ip t. namex path parent s = namex_loop (length path + 1) ip path parent [] t \<and>
      icache t (R(n := R n + 1)) {} \<and> at t ip n \<and> disk_view t = disk_view s"
  proof (cases "path \<noteq> [] \<and> hd path = slash")
    case True
    then have n: "n = 1" using st by (simp add: walk_start_def ROOTINO_def)
    have "card {m. 0 < R m} < NINODE" using sp by (simp add: spare_def)
    then obtain ip t where "iget 1 1 s = Done ip t" "icache t (R(1 := R 1 + 1)) {}" "at t ip 1" "disk_view t = disk_view s"
      using iget_icache [OF c, of 1] by blast
    then show ?thesis using True n by (auto simp: namex_def kop_simps ROOTDEV_def ROOTINO_def simp del: namex_loop.simps fun_upd_apply)
  next
    case False
    then obtain p ip where p: "cur s = Some p" "p_cdir (pof s p) = Some ip" "at s ip n" using st by (auto simp: walk_start_def)
    then obtain t where "idup ip s = Done ip t" "icache t (R(n := R n + 1)) {}" "at t ip n" "disk_view t = disk_view s"
      using idup_icache [OF c p(3)] by blast
    then show ?thesis using False p by (auto simp: namex_def kop_simps curproc_def pget_def simp del: namex_loop.simps fun_upd_apply)
  qed
  then obtain ip t where t: "namex path parent s = namex_loop (length path + 1) ip path parent [] t"
      "icache t (R(n := R n + 1)) {}" "at t ip n" "disk_view t = disk_view s"
    by blast
  show ?thesis
    using namex_loop_icache [OF t(2) sp t(3) _ tr(2), of path "length path + 1" parent "[]"] tr(1) view_cong [OF t(4)] t(1)
    by (simp add: walk_done_view [OF t(4)] del: namex_loop.simps)
qed

text \<open>
  C9 (path names): \<^verbatim>\<open>namei\<close> implements the walk through the names on the disk. In every state in which no inode is
  locked and two entries of the inode cache can be had, over a set of inodes that exist, have links and
  whose directories are well formed, it returns, never panics and never sleeps: 0 when the walk from the root (or from
  the process's directory) fails, because a name is missing or because something other than a directory is
  walked through, else an entry of the cache for the inode the walk ends at. The disk is as before, no inode is locked
  afterwards, and the only new reference in the cache is the one to the inode returned: none is lost on
  any of the early returns.
\<close>

theorem namei_resolves:
  assumes "icache s R {}" "spare R" "tree s S" "n \<in> S" "walk_start s path n"
  shows "\<exists>t. disk_view t = disk_view s \<and>
    (case resolve False (names s) n (path_elems path) of
       None \<Rightarrow> namei path s = Done None t \<and> icache t R {}
     | Some m \<Rightarrow> \<exists>ip. namei path s = Done (Some ip) t \<and> at t ip m \<and> icache t (R(m := R m + 1)) {})"
  using namex_icache [OF assms, of False] by (auto simp: namei_def kop_simps walk_done_def simp del: fun_upd_apply split: option.splits)

text \<open>
  C10 (path names): \<^verbatim>\<open>nameiparent\<close> ends at the directory of the last element and gives that element's name, with the same
  account of the references. Unlike \<^verbatim>\<open>namei\<close> it has no result for a path without elements, and the last
  element need not exist.
\<close>

theorem nameiparent_resolves:
  assumes "icache s R {}" "spare R" "tree s S" "n \<in> S" "walk_start s path n"
  shows "\<exists>t. disk_view t = disk_view s \<and>
    (case resolve True (names s) n (path_elems path) of
       None \<Rightarrow> nameiparent path s = Done None t \<and> icache t R {}
     | Some m \<Rightarrow> \<exists>ip. nameiparent path s = Done (Some (ip, last (path_elems path))) t \<and> at t ip m \<and>
         names s m \<noteq> None \<and> icache t (R(m := R m + 1)) {})"
proof -
  have r: "es \<noteq> [] \<and> names s m \<noteq> None" if "resolve True (names s) n es = Some m" for es m
    using that by (induction es arbitrary: n) (auto split: option.splits if_splits)
  show ?thesis
    using namex_icache [OF assms, of True] r by (auto simp: nameiparent_def walk_done_def simp del: fun_upd_apply split: option.splits)
qed

section \<open>A small disk\<close>

text \<open>Inode 1 is the root, with the name \<^verbatim>\<open>a\<close> for inode 7, a file.\<close>

definition demo_root_inode :: inode where
  "demo_root_inode = demo_dir_inode\<lparr>i_dev := 1, i_inum := 1, i_nlink := 1\<rparr>"

definition demo_file_inode :: inode where
  "demo_file_inode = demo_root_inode\<lparr>i_inum := 7, i_type := 2, i_size := 0, i_addrs := replicate 13 0\<rparr>"

definition demo_itable :: "byte list" where
  "demo_itable = replicate 64 0 @ encode_dinode demo_root_inode @ replicate 320 0 @ encode_dinode demo_file_inode"

definition demo_fs :: fs_state where
  "demo_fs = demo_dir\<lparr>memdisk := (memdisk demo_dir)(32 := demo_itable), inodes := inodes demo_state\<rparr>"

lemma demo_itable_fields:
  "length demo_itable = 512" "get16 demo_itable 64 = 1" "get16 demo_itable 70 = 1" "get32 demo_itable 72 = 32" "get16 demo_itable 448 = 2"
  "get16 demo_itable 454 = 1" "map (\<lambda>k. get32 demo_itable (64 + 12 + 4 * k)) [0..<NDIRECT + 1] = 70 # replicate 12 0"
  by code_simp+

lemma demo_fs_cache: "cache_inv Map.empty demo_fs" and demo_fs_content: "bcontent demo_fs = memdisk demo_fs"
proof -
  have "cache_inv Map.empty demo_dir" using demo_dir_inv by (simp add: txn_inv_def)
  then show c: "cache_inv Map.empty demo_fs"
    unfolding cache_inv_def by (auto simp: demo_fs_def demo_dir_def demo_txn_def demo_bufs buf_ok_def no_sleeper_def demo_itable_fields)
  show "bcontent demo_fs = memdisk demo_fs"
    by (rule ext, rule bcontent_disk [OF c]) (simp add: demo_fs_def demo_dir_def demo_bufs holds_block_def)
qed

lemma demo_fs_nodes:
  "unat (IBLOCK 1 (sb demo_fs)) = 32" "unat (IBLOCK 7 (sb demo_fs)) = 32" "dinode_off 1 = 64" "dinode_off 7 = 448"
  by (simp_all add: demo_fs_def demo_dir_def demo_txn_def demo_state_def IBLOCK_def IPB_def dinode_off_def)

lemma demo_fs_itable: "bcontent demo_fs 32 = demo_itable"
  by (simp add: demo_fs_content) (simp add: demo_fs_def)

lemma demo_fs_root:
  "i_type (dnode demo_fs 1) = T_DIR" "i_nlink (dnode demo_fs 1) = 1" "i_size (dnode demo_fs 1) = 32" "i_addrs (dnode demo_fs 1) = 70 # replicate 12 0"
  "i_type (dnode demo_fs 7) = 2" "i_nlink (dnode demo_fs 7) = 1"
  using demo_itable_fields(7)
  by (simp_all add: dnode_def on_disk_def load_dinode_def demo_fs_nodes demo_fs_itable demo_itable_fields(1-6) T_DIR_def
      del: on_disk_simps upt_Suc)

lemma demo_fs_names: "names demo_fs 1 = Some [[0x61] \<mapsto> 7]" "names demo_fs 7 = None"
proof -
  have "fblock c (dnode demo_fs 1) 0 = 70" "fblock c demo_dir_inode 0 = 70" for c
    by (simp_all add: fblock_def demo_fs_root demo_dir_inode_def NDIRECT_def)
  moreover have "memdisk demo_fs 70 = memdisk demo_dir 70" by (simp add: demo_fs_def)
  ultimately have "dir_entry (bcontent demo_fs) (dnode demo_fs 1) 1 = dir_entry (bcontent demo_dir) demo_dir_inode 1"
    by (simp add: dir_entry_def file_bytes_def demo_fs_content demo_dir_content fun_eq_iff)
  then have "dir_entries (bcontent demo_fs) (dnode demo_fs 1) 1 = dir_entries (bcontent demo_dir) demo_dir_inode 1"
    by (simp add: dir_entries_def demo_fs_root demo_dir_inode_def)
  then show "names demo_fs 1 = Some [[0x61] \<mapsto> 7]" using demo_dir_map by (simp add: names_def dblocks_def demo_fs_root)
  show "names demo_fs 7 = None" by (simp add: names_def demo_fs_root T_DIR_def)
qed

lemma demo_fs_tree: "tree demo_fs {1, 7}"
proof -
  have "disksize demo_fs = 1000" by (simp add: demo_fs_def demo_dir_def)
  then have "mapped (disksize demo_fs) (bcontent demo_fs) (dnode demo_fs 1) 1"
    by (simp add: mapped_def dnode_dev demo_fs_root MAXFILE_def NDIRECT_def NINDIRECT_def fblock_def)
  then show ?thesis
    using \<open>disksize demo_fs = 1000\<close>
    by (simp add: tree_def inode_there_def demo_fs_nodes demo_fs_root demo_fs_names is_dir_def dblocks_def T_DIR_def)
qed

lemma demo_fs_icache: "icache demo_fs (\<lambda>_. 0) {}" "spare (\<lambda>_. 0)"
proof -
  have "inodes demo_fs = replicate NINODE (inodes demo_fs ! 0)" "i_ref (inodes demo_fs ! 0) = 0" "lk_locked (i_lock (inodes demo_fs ! 0)) = 0"
    by (simp_all add: demo_fs_def demo_state_def NINODE_def demo_lock_def)
  then have i: "length (inodes demo_fs) = NINODE" "ip < NINODE \<Longrightarrow> i_ref (inodes demo_fs ! ip) = 0 \<and> lk_locked (i_lock (inodes demo_fs ! ip)) = 0" for ip
    by (metis length_replicate, metis nth_replicate)
  moreover have "no_sleeper c demo_fs" for c by (rule demo_quiet) (simp add: demo_fs_def demo_dir_def demo_txn_def)
  ultimately show "icache demo_fs (\<lambda>_. 0) {}" using demo_fs_cache by (auto simp: icache_def at_def)
  show "spare (\<lambda>_. 0)" by (simp add: spare_def NINODE_def)
qed

lemmas demo_walk = demo_fs_icache demo_fs_tree

lemma demo_paths: "path_elems [0x2F, 0x61] = [[0x61]]" "path_elems [0x2F, 0x2F, 0x62] = [[0x62]]" "dname [0x61] = [0x61]"
  by code_simp+

theorem namei_resolves_witness: "\<exists>ip t. namei [0x2F, 0x61] demo_fs = Done (Some ip) t \<and> at t ip 7 \<and> icache t ((\<lambda>_. 0)(7 := 1)) {}"
proof -
  have "walk_start demo_fs [0x2F, 0x61] 1" by (simp add: walk_start_def slash_def ROOTINO_def)
  then show ?thesis using namei_resolves [OF demo_walk, of 1 "[0x2F, 0x61]"] by (auto simp: demo_paths demo_fs_names)
qed

theorem nameiparent_resolves_witness: "\<exists>ip t. nameiparent [0x2F, 0x2F, 0x62] demo_fs = Done (Some (ip, [0x62])) t \<and> at t ip 1"
proof -
  have "walk_start demo_fs [0x2F, 0x2F, 0x62] 1" by (simp add: walk_start_def slash_def ROOTINO_def)
  then show ?thesis using nameiparent_resolves [OF demo_walk, of 1 "[0x2F, 0x2F, 0x62]"] by (auto simp: demo_paths demo_fs_names)
qed

end
