(* ===== verification/Swapping.thy ===== *)
theory Swapping
  imports Page_Tables Demo
begin

unbundle bit_operations_syntax

text \<open>
  Swapping (\<^verbatim>\<open>page_out\<close>, \<^verbatim>\<open>page_in\<close> and \<^verbatim>\<open>pgflt_handle\<close> of \<^verbatim>\<open>vm.c\<close>): a user page has its contents in a frame or in a slot of
  the swap disk. Moving pages between the two places changes the contents of none.
\<close>

section \<open>Pages of memory\<close>

definition same_page :: "memory \<Rightarrow> memory \<Rightarrow> addr \<Rightarrow> bool" where
  "same_page m m' q \<longleftrightarrow> (\<forall>i < 4096. m' (q + of_nat i) = m (q + of_nat i))"

lemma in_page:
  assumes "page_aligned q" "i < 4096"
  shows "unat (q + of_nat i) = unat q + i"
proof -
  have "unat q < 4294967296" by (rule unat_bound)
  moreover obtain a where a: "unat q = 4096 * a" using assms(1) by (rule page_alignedE)
  ultimately have "a < 1048576" by simp
  then have "unat q + i < 4294967296" using a assms(2) by simp
  then show ?thesis using assms(2) by (simp add: unat_word_ariths unat_of_nat)
qed

lemma pages_apart:
  assumes "page_aligned p" "page_aligned q" "p \<noteq> q" "i < 4096" "j < 4096"
  shows "q + of_nat i \<noteq> p + of_nat j"
proof
  assume "q + of_nat i = p + of_nat j"
  then have e: "unat q + i = unat p + j" using assms in_page by metis
  obtain a where a: "unat p = 4096 * a" using assms(1) by (rule page_alignedE)
  obtain b where b: "unat q = 4096 * b" using assms(2) by (rule page_alignedE)
  have "a = b" using assms(4,5) e a b by linarith
  then show False using a b assms(3) by (simp add: word_unat_eq_iff)
qed

lemma same_page_refl [simp]: "same_page m m q"
  by (simp add: same_page_def)

lemma same_page_trans: "same_page m m' q \<Longrightarrow> same_page m' m'' q \<Longrightarrow> same_page m m'' q"
  by (simp add: same_page_def)

lemma same_page_st:
  assumes "page_aligned p" "page_aligned q" "p \<noteq> q" "unat k < 1024"
  shows "same_page m (st32 m (p + 4 * k) v) q"
  unfolding same_page_def
proof (intro allI impI st32_other)
  fix i j :: nat assume i: "i < 4096" and j: "j < 4"
  have "p + 4 * k + of_nat j = p + of_nat (4 * unat k + j)" by (simp add: add.assoc)
  then show "q + of_nat i \<noteq> p + 4 * k + of_nat j" using pages_apart [OF assms(1-3) i, of "4 * unat k + j"] assms(4) j by (simp add: add.assoc)
qed

lemma same_page_write:
  assumes "page_aligned p" "page_aligned q" "p \<noteq> q" "length bs \<le> 4096"
  shows "same_page m (mem_write m p bs) q"
  unfolding same_page_def
proof (intro allI impI)
  fix i :: nat assume i: "i < 4096"
  have "\<not> unat (q + of_nat i - p) < length bs"
  proof
    assume l: "unat (q + of_nat i - p) < length bs"
    define j where "j = unat (q + of_nat i - p)"
    have "q + of_nat i = p + of_nat j" by (simp add: j_def)
    then show False using pages_apart [OF assms(1-3) i, of j] l assms(4) by (simp add: j_def)
  qed
  then show "mem_write m p bs (q + of_nat i) = m (q + of_nat i)" by (simp add: mem_write_def)
qed

lemma same_page_read: "same_page m m' q \<Longrightarrow> mem_read m' q 4096 = mem_read m q 4096"
  by (simp add: same_page_def mem_read_def)

lemma same_page_ld:
  assumes "same_page m m' q" "unat k < 1024"
  shows "ld32 m' (q + 4 * k) = ld32 m (q + 4 * k)"
proof -
  have "m' (q + 4 * k + of_nat j) = m (q + 4 * k + of_nat j)" if "j < 4" for j
  proof -
    have "q + 4 * k + of_nat j = q + of_nat (4 * unat k + j)" by (simp add: add.assoc)
    moreover have "4 * unat k + j < 4096" using assms(2) that by simp
    ultimately show ?thesis using assms(1) by (simp only: same_page_def)
  qed
  from this [of 0] this [of 1] this [of 2] this [of 3] show ?thesis by (simp add: ld32_def)
qed

lemma page_written:
  assumes "length bs = 4096"
  shows "mem_read (mem_write m p bs) p 4096 = bs"
  using mem_read_write_same [of bs m p] assms by simp

section \<open>User pages\<close>

text \<open>
  A user page is given by the address of its page table entry and by the identifier that \<^verbatim>\<open>vm.c\<close> makes of its address
  and process.
\<close>

type_synonym upage = "addr \<times> u32"

definition pte_of :: "memory \<Rightarrow> upage \<Rightarrow> u32" where
  "pte_of m u = ld32 m (fst u)"

definition frame :: "memory \<Rightarrow> upage \<Rightarrow> addr" where
  "frame m u = P2V (PTE_ADDR (pte_of m u))"

abbreviation resident :: "memory \<Rightarrow> upage \<Rightarrow> bool" where
  "resident m u \<equiv> present (pte_of m u)"

definition slot_bytes :: "(nat \<Rightarrow> byte list) \<Rightarrow> nat \<Rightarrow> byte list" where
  "slot_bytes d i = concat (map (\<lambda>k. d (8 * i + k)) [0..<8])"

text \<open>What a process sees in the page, wherever it is.\<close>

definition contents :: "'a kmem_state_scheme \<Rightarrow> upage \<Rightarrow> byte list" where
  "contents s u =
     (if resident (mem s) u then mem_read (mem s) (frame (mem s) u) 4096
      else (case find_from (\<lambda>i. swap_map s i = snd u) 0 SLOTSIZE of None \<Rightarrow> [] | Some i \<Rightarrow> slot_bytes (swap_disk s) i))"

text \<open>Page \<open>u\<close> lies in slot \<open>i\<close>, and only there.\<close>

definition in_slot :: "(nat \<Rightarrow> u32) \<Rightarrow> upage \<Rightarrow> nat \<Rightarrow> bool" where
  "in_slot sm u i \<longleftrightarrow> i < SLOTSIZE \<and> (\<forall>j < SLOTSIZE. sm j = snd u \<longleftrightarrow> j = i)"

text \<open>
  \<open>K\<close> are the pages that hold page directories and tables, \<open>U\<close> the user pages, \<open>xs\<close> the free list: a resident page has
  a frame of its own and no slot, the other pages have a slot of their own, and the queue lists resident pages,
  each of them once.
\<close>

definition swap_inv :: "'a kmem_state_scheme \<Rightarrow> addr set \<Rightarrow> upage set \<Rightarrow> addr list \<Rightarrow> bool" where
  "swap_inv s K U xs \<longleftrightarrow>
     0 < kend s \<and> kmem_rep s xs \<and> (\<forall>q \<in> K. page_aligned q \<and> q \<notin> set xs) \<and>
     (\<forall>u \<in> U. snd u \<noteq> 0 \<and> (\<exists>q \<in> K. \<exists>k. unat k < 1024 \<and> fst u = q + 4 * k)) \<and> inj_on fst U \<and> inj_on snd U \<and>
     (\<forall>u \<in> U. resident (mem s) u \<longrightarrow> page_valid (kend s) (frame (mem s) u) \<and> frame (mem s) u \<notin> set xs \<union> K \<and>
        (\<forall>i < SLOTSIZE. swap_map s i \<noteq> snd u)) \<and>
     (\<forall>u \<in> U. \<forall>w \<in> U. resident (mem s) u \<and> resident (mem s) w \<and> frame (mem s) u = frame (mem s) w \<longrightarrow> u = w) \<and>
     (\<forall>u \<in> U. \<not> resident (mem s) u \<longrightarrow> (\<exists>i. in_slot (swap_map s) u i \<and> length (slot_bytes (swap_disk s) i) = 4096)) \<and>
     (\<forall>e \<in> set (pgqueue s). (ptr_pte e, pn_pid e) \<in> U \<and> resident (mem s) (ptr_pte e, pn_pid e)) \<and> distinct (map pn_pid (pgqueue s))"

lemma swap_invD:
  assumes "swap_inv s K U xs"
  shows "0 < kend s" "kmem_rep s xs" "\<And>q. q \<in> K \<Longrightarrow> page_aligned q \<and> q \<notin> set xs"
    "\<And>u. u \<in> U \<Longrightarrow> snd u \<noteq> 0" "\<And>u. u \<in> U \<Longrightarrow> \<exists>q \<in> K. \<exists>k. unat k < 1024 \<and> fst u = q + 4 * k" "inj_on fst U" "inj_on snd U"
    "\<And>u. u \<in> U \<Longrightarrow> resident (mem s) u \<Longrightarrow> page_valid (kend s) (frame (mem s) u) \<and> frame (mem s) u \<notin> set xs \<union> K \<and>
        (\<forall>i < SLOTSIZE. swap_map s i \<noteq> snd u)"
    "\<And>u w. u \<in> U \<Longrightarrow> w \<in> U \<Longrightarrow> resident (mem s) u \<Longrightarrow> resident (mem s) w \<Longrightarrow> frame (mem s) u = frame (mem s) w \<Longrightarrow> u = w"
    "\<And>u. u \<in> U \<Longrightarrow> \<not> resident (mem s) u \<Longrightarrow> \<exists>i. in_slot (swap_map s) u i \<and> length (slot_bytes (swap_disk s) i) = 4096"
    "\<And>e. e \<in> set (pgqueue s) \<Longrightarrow> (ptr_pte e, pn_pid e) \<in> U \<and> resident (mem s) (ptr_pte e, pn_pid e)" "distinct (map pn_pid (pgqueue s))"
  using assms unfolding swap_inv_def by blast+

lemma contents_resident: "resident (mem s) u \<Longrightarrow> contents s u = mem_read (mem s) (frame (mem s) u) 4096"
  by (simp add: contents_def)

lemma contents_slot:
  assumes "\<not> resident (mem s) u" "in_slot (swap_map s) u i"
  shows "contents s u = slot_bytes (swap_disk s) i"
proof -
  have i: "i < SLOTSIZE" "\<And>j. j < SLOTSIZE \<Longrightarrow> swap_map s j = snd u \<longleftrightarrow> j = i" using assms(2) by (auto simp: in_slot_def)
  then obtain k where k: "find_from (\<lambda>i. swap_map s i = snd u) 0 SLOTSIZE = Some k"
    using find_from_ex [of 0 i SLOTSIZE "\<lambda>i. swap_map s i = snd u"] by auto
  then have "k = i" using find_from_SomeD [OF k] i(2) [of k] by simp
  then show ?thesis using assms(1) k by (simp add: contents_def)
qed

text \<open>A change that concerns the page \<open>u\<close> only.\<close>

definition others_kept :: "'a kmem_state_scheme \<Rightarrow> 'a kmem_state_scheme \<Rightarrow> upage set \<Rightarrow> addr list \<Rightarrow> bool" where
  "others_kept s t W ys \<longleftrightarrow> (\<forall>w \<in> W.
     pte_of (mem t) w = pte_of (mem s) w \<and> (\<forall>j < SLOTSIZE. swap_map t j = snd w \<longleftrightarrow> swap_map s j = snd w) \<and>
     (resident (mem s) w \<longrightarrow> same_page (mem s) (mem t) (frame (mem s) w) \<and> frame (mem s) w \<notin> set ys) \<and>
     (\<not> resident (mem s) w \<longrightarrow> (\<forall>j. in_slot (swap_map s) w j \<longrightarrow> slot_bytes (swap_disk t) j = slot_bytes (swap_disk s) j)))"

lemma others_contents:
  assumes inv: "swap_inv s K U xs" and k: "others_kept s t W ys" and w: "w \<in> W" "w \<in> U"
  shows "contents t w = contents s w" "resident (mem t) w \<longleftrightarrow> resident (mem s) w" "frame (mem t) w = frame (mem s) w"
    "in_slot (swap_map t) w = in_slot (swap_map s) w"
proof -
  have o: "pte_of (mem t) w = pte_of (mem s) w" "\<And>j. j < SLOTSIZE \<Longrightarrow> swap_map t j = snd w \<longleftrightarrow> swap_map s j = snd w"
      "resident (mem s) w \<Longrightarrow> same_page (mem s) (mem t) (frame (mem s) w)"
      "\<And>j. \<not> resident (mem s) w \<Longrightarrow> in_slot (swap_map s) w j \<Longrightarrow> slot_bytes (swap_disk t) j = slot_bytes (swap_disk s) j"
    using k w(1) by (auto simp: others_kept_def)
  show r: "resident (mem t) w \<longleftrightarrow> resident (mem s) w" "frame (mem t) w = frame (mem s) w" by (simp_all add: o(1) frame_def)
  show i: "in_slot (swap_map t) w = in_slot (swap_map s) w" using o(2) by (auto simp: in_slot_def fun_eq_iff)
  show "contents t w = contents s w"
  proof (cases "resident (mem s) w")
    case True
    then show ?thesis using r same_page_read [OF o(3)] by (simp add: contents_resident)
  next
    case False
    then obtain j where "in_slot (swap_map s) w j" using swap_invD(10) [OF inv w(2)] by blast
    then show ?thesis using False r o(4) i contents_slot [of s w j] contents_slot [of t w j] by simp
  qed
qed

lemma swap_change:
  assumes inv: "swap_inv s K U xs" and u: "u \<in> U" and k: "others_kept s t (U - {u}) ys"
    and ys: "kmem_rep t ys" "kend t = kend s" "\<And>q. q \<in> K \<Longrightarrow> q \<notin> set ys"
    and r: "resident (mem t) u \<Longrightarrow> page_valid (kend s) (frame (mem t) u) \<and> frame (mem t) u \<notin> set ys \<union> K \<and>
        (\<forall>i < SLOTSIZE. swap_map t i \<noteq> snd u) \<and> (\<forall>w \<in> U - {u}. resident (mem s) w \<longrightarrow> frame (mem s) w \<noteq> frame (mem t) u)"
    and n: "\<not> resident (mem t) u \<Longrightarrow> \<exists>i. in_slot (swap_map t) u i \<and> length (slot_bytes (swap_disk t) i) = 4096"
    and q: "\<And>e. e \<in> set (pgqueue t) \<Longrightarrow> (ptr_pte e, pn_pid e) \<in> U \<and> resident (mem t) (ptr_pte e, pn_pid e)" "distinct (map pn_pid (pgqueue t))"
  shows "swap_inv t K U ys"
proof -
  note I = swap_invD [OF inv]
  have o: "resident (mem t) w \<longleftrightarrow> resident (mem s) w" "frame (mem t) w = frame (mem s) w" "in_slot (swap_map t) w = in_slot (swap_map s) w"
    if "w \<in> U" "w \<noteq> u" for w
    using others_contents [OF inv k] that by auto
  have c8: "page_valid (kend t) (frame (mem t) w) \<and> frame (mem t) w \<notin> set ys \<union> K \<and> (\<forall>i < SLOTSIZE. swap_map t i \<noteq> snd w)"
    if w: "w \<in> U" "resident (mem t) w" for w
  proof (cases "w = u")
    case False
    then have "resident (mem s) w" using o w by simp
    moreover have "\<forall>j < SLOTSIZE. swap_map t j = snd w \<longleftrightarrow> swap_map s j = snd w" "frame (mem s) w \<notin> set ys"
      using k w(1) False calculation by (auto simp: others_kept_def)
    ultimately show ?thesis using I(8) [OF w(1)] o(2) [OF w(1) False] ys(2) by simp
  qed (use r w ys(2) in simp)
  have c9: "v = w" if v: "v \<in> U" "w \<in> U" "resident (mem t) v" "resident (mem t) w" "frame (mem t) v = frame (mem t) w" for v w
  proof (cases "v = u \<or> w = u")
    case True
    then show ?thesis using r o v by (metis Diff_iff singletonD)
  next
    case False
    then show ?thesis using I(9) [of v w] o v by simp
  qed
  have c10: "\<exists>i. in_slot (swap_map t) w i \<and> length (slot_bytes (swap_disk t) i) = 4096" if w: "w \<in> U" "\<not> resident (mem t) w" for w
  proof (cases "w = u")
    case False
    then have m: "\<not> resident (mem s) w" using o w by simp
    then obtain i where "in_slot (swap_map s) w i" "length (slot_bytes (swap_disk s) i) = 4096" using I(10) [OF w(1)] by blast
    moreover have "slot_bytes (swap_disk t) i = slot_bytes (swap_disk s) i" using k w(1) False m calculation(1) by (auto simp: others_kept_def)
    ultimately show ?thesis using o(3) [OF w(1) False] by auto
  qed (use n w in simp)
  have "0 < kend t" using I(1) ys(2) by simp
  moreover have "\<forall>q \<in> K. page_aligned q \<and> q \<notin> set ys" "\<forall>u \<in> U. snd u \<noteq> 0 \<and> (\<exists>q \<in> K. \<exists>k. unat k < 1024 \<and> fst u = q + 4 * k)"
    using I(3,4,5) ys(3) by blast+
  moreover have "\<forall>w \<in> U. resident (mem t) w \<longrightarrow> page_valid (kend t) (frame (mem t) w) \<and> frame (mem t) w \<notin> set ys \<union> K \<and>
      (\<forall>i < SLOTSIZE. swap_map t i \<noteq> snd w)"
    using c8 by (intro ballI impI)
  moreover have "\<forall>v \<in> U. \<forall>w \<in> U. resident (mem t) v \<and> resident (mem t) w \<and> frame (mem t) v = frame (mem t) w \<longrightarrow> v = w"
    by (intro ballI impI) (elim conjE, rule c9)
  moreover have "\<forall>w \<in> U. \<not> resident (mem t) w \<longrightarrow> (\<exists>i. in_slot (swap_map t) w i \<and> length (slot_bytes (swap_disk t) i) = 4096)"
    using c10 by (intro ballI impI)
  moreover have "\<forall>e \<in> set (pgqueue t). (ptr_pte e, pn_pid e) \<in> U \<and> resident (mem t) (ptr_pte e, pn_pid e)" using q(1) by (intro ballI)
  ultimately show ?thesis using I(6,7) ys(1) q(2) unfolding swap_inv_def by (intro conjI)
qed

section \<open>Paging out\<close>

abbreviation upage_of :: "page_entry \<Rightarrow> upage" where
  "upage_of e \<equiv> (ptr_pte e, pn_pid e)"

text \<open>The page to evict: the first of the queue without its reference bit, or the first when all have it.\<close>

definition victim :: "page_entry list \<Rightarrow> page_entry" where
  "victim q = (case dropWhile (\<lambda>e. pe_ref e = PTE_A) q of [] \<Rightarrow> hd q | e # _ \<Rightarrow> e)"

lemma victim_in:
  assumes "q \<noteq> []"
  shows "victim q \<in> set q"
proof (cases "dropWhile (\<lambda>e. pe_ref e = PTE_A) q")
  case Nil
  then show ?thesis using assms unfolding victim_def Nil by simp
next
  case (Cons e es)
  then have "e \<in> set (dropWhile (\<lambda>e. pe_ref e = PTE_A) q)" by simp
  then have "e \<in> set q" by (rule set_dropWhileD)
  then show ?thesis unfolding victim_def Cons by simp
qed

lemma sel_page_run:
  assumes "pgqueue s \<noteq> []"
  shows "\<exists>e q. sel_page s = Done (Some e) (s\<lparr>pgqueue := q\<rparr>) \<and> e \<in> set q \<and> map upage_of q = map upage_of (pgqueue s) \<and>
    upage_of e = upage_of (victim (pgqueue s))"
proof -
  let ?a = "takeWhile (\<lambda>e. pe_ref e = PTE_A) (pgqueue s)" and ?b = "dropWhile (\<lambda>e. pe_ref e = PTE_A) (pgqueue s)"
  define q where "q = map (\<lambda>e. e\<lparr>pe_ref := 0\<rparr>) ?a @ ?b"
  have sc: "second_chance (pgqueue s) = (q, case ?b of [] \<Rightarrow> None | e # _ \<Rightarrow> Some e)" by (simp add: second_chance_spec q_def)
  have "map upage_of q = map upage_of ?a @ map upage_of ?b" by (simp add: q_def comp_def)
  also have "\<dots> = map upage_of (pgqueue s)" by (simp only: map_append [symmetric] takeWhile_dropWhile_id)
  finally have m: "map upage_of q = map upage_of (pgqueue s)" .
  then obtain e es where q: "q = e # es" using assms by (cases q) auto
  show ?thesis
  proof (cases ?b)
    case Nil
    then have "sel_page s = Done (Some e) (s\<lparr>pgqueue := q\<rparr>)" by (simp only: sel_page_def sc) (simp add: q)
    moreover have "upage_of e = upage_of (hd (pgqueue s))" using arg_cong [OF m, of hd] assms q by (simp add: hd_map)
    moreover have "victim (pgqueue s) = hd (pgqueue s)" unfolding victim_def Nil by simp
    moreover have "e \<in> set q" by (simp add: q)
    ultimately show ?thesis using m by metis
  next
    case (Cons f fs)
    then have "sel_page s = Done (Some f) (s\<lparr>pgqueue := q\<rparr>)" by (simp only: sel_page_def sc) simp
    moreover have "f \<in> set q" "victim (pgqueue s) = f" using Cons by (simp_all add: q_def victim_def)
    ultimately show ?thesis using m by blast
  qed
qed

lemma free_page_queue:
  assumes "e \<in> set (pgqueue s)" "distinct (map pn_pid (pgqueue s))"
  shows "free_page (pn_pid e) False s = Done () (s\<lparr>pgqueue := remove1 e (pgqueue s)\<rparr>)"
    "f \<in> set (remove1 e (pgqueue s)) \<Longrightarrow> f \<in> set (pgqueue s) \<and> pn_pid f \<noteq> pn_pid e" "distinct (map pn_pid (remove1 e (pgqueue s)))"
proof -
  have inj: "inj_on pn_pid (set (pgqueue s))" "distinct (pgqueue s)" using assms(2) by (auto simp: distinct_map)
  have "find (\<lambda>f. pn_pid f = pn_pid e) (pgqueue s) \<noteq> None" using assms(1) by (auto simp: find_None_iff)
  then obtain f where f: "find (\<lambda>f. pn_pid f = pn_pid e) (pgqueue s) = Some f" by blast
  then have "f \<in> set (pgqueue s)" "pn_pid f = pn_pid e" by (auto simp: find_Some_iff)
  then have "f = e" using inj(1) assms(1) by (auto dest: inj_onD)
  then show "free_page (pn_pid e) False s = Done () (s\<lparr>pgqueue := remove1 e (pgqueue s)\<rparr>)"
    using f by (simp add: free_page_def kop_simps lq_remove_def)
  show "f \<in> set (pgqueue s) \<and> pn_pid f \<noteq> pn_pid e" if "f \<in> set (remove1 e (pgqueue s))" for f
    using that inj assms(1) by (auto dest: inj_onD)
  show "distinct (map pn_pid (remove1 e (pgqueue s)))"
    using inj by (simp add: distinct_map distinct_remove1 inj_on_diff)
qed

definition disk_put :: "(nat \<Rightarrow> byte list) \<Rightarrow> nat \<Rightarrow> memory \<Rightarrow> addr \<Rightarrow> nat \<Rightarrow> byte list" where
  "disk_put d i m v = put_sectors d (8 * i) 8 m v"

lemma disk_put_slot:
  "slot_bytes (disk_put d i m v) i = mem_read m v 4096" "j \<noteq> i \<Longrightarrow> slot_bytes (disk_put d i m v) j = slot_bytes d j"
proof -
  show "slot_bytes (disk_put d i m v) i = mem_read m v 4096"
    using put_sectors_content [of d "8 * i" m v] by (simp add: slot_bytes_def disk_put_def)
  show "slot_bytes (disk_put d i m v) j = slot_bytes d j" if "j \<noteq> i"
    unfolding slot_bytes_def
    by (intro arg_cong [where f = concat] map_cong refl) (use that in \<open>auto simp: disk_put_def put_sectors_def\<close>)
qed

lemma disk_put_len: "\<forall>sec. length (d sec) = 512 \<Longrightarrow> length (disk_put d i m v sec) = 512"
  by (simp add: disk_put_def put_sectors_def)

lemma write_slot:
  assumes "i < SLOTSIZE" "drive_ok s"
  shows "write_swap (SWAPM2SECNO i) v s =
    Done 0 (s\<lparr>swap_disk := disk_put (swap_disk s) i (mem s) v, swap_waits := swap_waits s + 9\<rparr>)"
  using write_swap_run [OF assms(2)] lba28_slot [OF assms(1)] by (simp add: disk_put_def)

text \<open>Clearing the present bit.\<close>

lemma absent_xor: "present w \<Longrightarrow> \<not> present (w XOR PTE_P)"
  unfolding present_bit by (simp add: bit_xor_iff PTE_P_def)

lemma pte_cell:
  assumes "swap_inv s K U xs" "u \<in> U"
  obtains q k where "q \<in> K" "unat k < 1024" "fst u = q + 4 * k" "page_aligned q" "q \<notin> set xs"
  using swap_invD(3,5) [OF assms(1)] assms(2) by blast

text \<open>
  A write to the entry of page \<open>u\<close> and to the page \<open>v\<close>, which is no table: the other entries and the other pages are
  as before.
\<close>

definition touches :: "memory \<Rightarrow> memory \<Rightarrow> addr set \<Rightarrow> upage \<Rightarrow> addr \<Rightarrow> bool" where
  "touches m m' K u v \<longleftrightarrow>
     (\<forall>q k. q \<in> K \<and> unat k < 1024 \<and> q + 4 * k \<noteq> fst u \<longrightarrow> ld32 m' (q + 4 * k) = ld32 m (q + 4 * k)) \<and>
     (\<forall>q. page_aligned q \<and> q \<notin> K \<and> q \<noteq> v \<longrightarrow> same_page m m' q)"

lemma touches_pte:
  assumes inv: "swap_inv s K U xs" and u: "u \<in> U"
  shows "touches m (st32 m (fst u) w) K u v"
proof -
  obtain q k where q: "q \<in> K" "unat k < 1024" "fst u = q + 4 * k" "page_aligned q" using pte_cell [OF inv u] by metis
  have "same_page m (st32 m (fst u) w) p" if "page_aligned p" "p \<notin> K" for p
    using same_page_st [OF q(4) that(1) _ q(2)] that(2) q(1,3) by metis
  moreover have "ld32 (st32 m (fst u) w) (p + 4 * l) = ld32 m (p + 4 * l)" if "p \<in> K" "unat l < 1024" "p + 4 * l \<noteq> fst u" for p l
    using ld_cell [OF q(4) _ q(2) that(2), of p m w] swap_invD(3) [OF inv that(1)] that(3) q(3) by auto
  ultimately show ?thesis by (simp add: touches_def)
qed

lemma touches_page:
  assumes inv: "swap_inv s K U xs" and v: "page_aligned v" "v \<notin> K" and m: "\<And>q. page_aligned q \<Longrightarrow> q \<noteq> v \<Longrightarrow> same_page m m' q"
  shows "touches m m' K u v"
proof -
  have "ld32 m' (q + 4 * k) = ld32 m (q + 4 * k)" if "q \<in> K" "unat k < 1024" for q k
    using same_page_ld [OF m that(2), of q] swap_invD(3) [OF inv that(1)] v(2) that(1) by auto
  then show ?thesis using m by (simp add: touches_def)
qed

lemma touches_trans:
  assumes "touches m m' K u v" "touches m' m'' K u v"
  shows "touches m m'' K u v"
  using assms same_page_trans [of m m' _ m''] by (simp add: touches_def)

lemma kfree_page:
  assumes "page_aligned v" "page_aligned q" "q \<noteq> v"
  shows "same_page m (st32 (st32 m v a) (v + 4) b) q"
  using same_page_st [OF assms(1,2), of 0 m a] same_page_st [OF assms(1,2), of 1 "st32 m v a" b] assms(3) same_page_trans by auto

lemma touches_ptes:
  assumes inv: "swap_inv s K U xs" and u: "u \<in> U" and t: "touches (mem s) m' K u v" and w: "w \<in> U" "w \<noteq> u"
  shows "pte_of m' w = pte_of (mem s) w"
proof -
  obtain q k where "q \<in> K" "unat k < 1024" "fst w = q + 4 * k" using pte_cell [OF inv w(1)] by metis
  moreover have "fst w \<noteq> fst u" using swap_invD(6) [OF inv] u w by (auto dest: inj_onD)
  ultimately show ?thesis using t by (auto simp: touches_def pte_of_def)
qed

lemma page_out_exec:
  assumes sel: "sel_page s = Done (Some e) (s\<lparr>pgqueue := q\<rparr>)" and q: "pgqueue s \<noteq> []" "e \<in> set q" "distinct (map pn_pid q)"
    and v: "v = frame (mem s) (upage_of e)" "page_valid (kend s) v" and free: "\<exists>i < SLOTSIZE. swap_map s i = 0" and dr: "drive_ok s"
    and m: "m = st32 (mem s) (ptr_pte e) (pte_of (mem s) (upage_of e) XOR PTE_P)"
  shows "\<exists>i < SLOTSIZE. swap_map s i = 0 \<and>
    page_out s = Done () (s\<lparr>mem := st32 (st32 m v PGSIZE) (v + 4) (kmem_free s), kmem_free := v, kmem_nfree := kmem_nfree s + 1,
      pgqueue := remove1 e q, swap_map := (swap_map s)(i := pn_pid e), swap_disk := disk_put (swap_disk s) i m v,
      swap_waits := swap_waits s + 9\<rparr>)"
proof -
  obtain i where i: "find_from (\<lambda>i. swap_map s i = 0) 0 SLOTSIZE = Some i"
    using free find_from_ex [of 0 _ SLOTSIZE "\<lambda>i. swap_map s i = 0"] by auto
  then have il: "i < SLOTSIZE" "swap_map s i = 0" using find_from_SomeD [OF i] by auto
  define s3 where "s3 = s\<lparr>pgqueue := q, mem := m, swap_map := (swap_map s)(i := pn_pid e)\<rparr>"
  define s4 where "s4 = s3\<lparr>swap_disk := disk_put (swap_disk s) i m v, swap_waits := swap_waits s + 9\<rparr>"
  define s5 where "s5 = s4\<lparr>mem := st32 (st32 m v PGSIZE) (v + 4) (kmem_free s), kmem_free := v, kmem_nfree := kmem_nfree s + 1\<rparr>"
  have k: "kfree v s4 = Done () s5" using v(2) by (simp add: kfree_def s3_def s4_def s5_def)
  have "drive_ok s3" using dr by (simp add: s3_def drive_ok_def)
  from write_slot [OF il(1) this] have w: "write_swap (SWAPM2SECNO i) v s3 = Done 0 s4" by (simp add: s3_def s4_def)
  have f: "free_page (pn_pid e) False s5 = Done () (s5\<lparr>pgqueue := remove1 e q\<rparr>)"
    using free_page_queue(1) [of e s5] q(2,3) by (simp add: s5_def s4_def s3_def)
  have "page_out s = Done () (s5\<lparr>pgqueue := remove1 e q\<rparr>)"
    using sel q(1) i f k v(1) m w
    by (simp add: page_out_def kop_simps alloc_slot_def pte_of_def frame_def s3_def)
  then show ?thesis using il by (auto simp: s5_def s4_def s3_def)
qed

text \<open>The state \<^verbatim>\<open>page_out\<close> leaves, for any choice of the resident page.\<close>

lemma paged_out:
  assumes inv: "swap_inv s K U xs" and u: "u \<in> U" "resident (mem s) u" and i: "i < SLOTSIZE" "swap_map s i = 0"
    and v: "v = frame (mem s) u" and m: "m = st32 (mem s) (fst u) (pte_of (mem s) u XOR PTE_P)"
    and t: "t = s\<lparr>mem := st32 (st32 m v PGSIZE) (v + 4) (kmem_free s), kmem_free := v, kmem_nfree := kmem_nfree s + 1,
        pgqueue := q, swap_map := (swap_map s)(i := snd u), swap_disk := disk_put (swap_disk s) i m v, swap_waits := nw\<rparr>"
  shows "touches (mem s) (mem t) K u v" "\<not> resident (mem t) u" "kmem_rep t (v # xs)" "in_slot (swap_map t) u i"
    "slot_bytes (swap_disk t) i = contents s u" "others_kept s t (U - {u}) (v # xs)"
proof -
  note I = swap_invD [OF inv]
  have V: "page_valid (kend s) v" "v \<notin> set xs" "v \<notin> K" "\<forall>i < SLOTSIZE. swap_map s i \<noteq> snd u" using I(8) [OF u] by (simp_all add: v)
  obtain p k where p: "p \<in> K" "unat k < 1024" "fst u = p + 4 * k" "page_aligned p" using pte_cell [OF inv u(1)] by metis
  have tm: "touches (mem s) m K u v" unfolding m by (rule touches_pte [OF inv u(1)])
  have tt: "touches m (mem t) K u v" unfolding t using kfree_page V by (intro touches_page [OF inv]) simp_all
  show T: "touches (mem s) (mem t) K u v" by (rule touches_trans [OF tm tt])
  have "same_page m (mem t) p" unfolding t using kfree_page [of v p m] V(1,3) p(1,4) by auto
  from same_page_ld [OF this p(2)] have "pte_of (mem t) u = pte_of (mem s) u XOR PTE_P" by (simp add: pte_of_def m p(3))
  then show "\<not> resident (mem t) u" using absent_xor [OF u(2)] by simp
  have "kmem_rep (set_mem m s) xs"
  proof (rule kmem_rep_mem [OF I(2)])
    fix x assume x: "x \<in> set xs"
    then have "page_aligned x" "x \<notin> K" "x \<noteq> v" using I(2,3) V(2) page_valid_page by (auto simp: kmem_rep_def)
    then have "same_page (mem s) m x" using tm by (simp add: touches_def)
    from same_page_ld [OF this, of 1] show "ld32 m (x + 4) = ld32 (mem s) (x + 4)" by simp
  qed
  then show "kmem_rep t (v # xs)" using kfree_rep [of "set_mem m s" xs v] I(1) V(1,2) by (auto simp: kfree_def kmem_rep_def t)
  show "in_slot (swap_map t) u i" using i(1) V(4) by (auto simp: in_slot_def t)
  have "same_page (mem s) m v" unfolding m p(3) using p V(1,3) by (intro same_page_st) auto
  then show "slot_bytes (swap_disk t) i = contents s u"
    using disk_put_slot(1) same_page_read [of "mem s" m v] u(2) by (simp add: t contents_resident v)
  show "others_kept s t (U - {u}) (v # xs)"
    unfolding others_kept_def
  proof (intro ballI)
    fix w assume w: "w \<in> U - {u}"
    have ne: "snd w \<noteq> snd u" "snd w \<noteq> 0" using I(4,7) u(1) w by (auto dest: inj_onD)
    have "same_page (mem s) (mem t) (frame (mem s) w) \<and> frame (mem s) w \<notin> set (v # xs)" if r: "resident (mem s) w"
    proof -
      have "frame (mem s) w \<noteq> v" using I(9) [OF _ u(1) r u(2)] w v by auto
      then show ?thesis using T I(8) [OF _ r] w by (auto simp: touches_def)
    qed
    moreover have "slot_bytes (swap_disk t) j = slot_bytes (swap_disk s) j" if "in_slot (swap_map s) w j" for j
    proof -
      have "swap_map s j = snd w" using that by (simp add: in_slot_def)
      then have "j \<noteq> i" using i(2) ne(2) by auto
      then show ?thesis using disk_put_slot(2) by (simp add: t)
    qed
    ultimately show "pte_of (mem t) w = pte_of (mem s) w \<and> (\<forall>j < SLOTSIZE. swap_map t j = snd w \<longleftrightarrow> swap_map s j = snd w) \<and>
        (resident (mem s) w \<longrightarrow> same_page (mem s) (mem t) (frame (mem s) w) \<and> frame (mem s) w \<notin> set (v # xs)) \<and>
        (\<not> resident (mem s) w \<longrightarrow> (\<forall>j. in_slot (swap_map s) w j \<longrightarrow> slot_bytes (swap_disk t) j = slot_bytes (swap_disk s) j))"
      using touches_ptes [OF inv u(1) T, of w] w ne i(2) by (auto simp: t)
  qed
qed

lemma page_out_run:
  assumes inv: "swap_inv s K U xs" and q: "pgqueue s \<noteq> []" and free: "\<exists>i < SLOTSIZE. swap_map s i = 0" and dr: "drive_ok s"
  shows "\<exists>t u. page_out s = Done () t \<and> u = upage_of (victim (pgqueue s)) \<and> u \<in> U \<and> resident (mem s) u \<and> \<not> resident (mem t) u \<and>
    swap_inv t K U (frame (mem s) u # xs) \<and> (\<forall>w \<in> U. contents t w = contents s w) \<and>
    (\<forall>w \<in> U - {u}. resident (mem t) w \<longleftrightarrow> resident (mem s) w) \<and> touches (mem s) (mem t) K u (frame (mem s) u) \<and>
    kend t = kend s \<and> slab_free t = slab_free s \<and> slab_nfree t = slab_nfree s \<and> kmem_state.more t = kmem_state.more s \<and> drive_ok t"
proof -
  note I = swap_invD [OF inv]
  obtain e Q where sel: "sel_page s = Done (Some e) (s\<lparr>pgqueue := Q\<rparr>)" "e \<in> set Q" "map upage_of Q = map upage_of (pgqueue s)"
      "upage_of e = upage_of (victim (pgqueue s))"
    using sel_page_run [OF q] by blast
  have Qset: "upage_of ` set Q = upage_of ` set (pgqueue s)" using arg_cong [OF sel(3), of set] by simp
  have QU: "upage_of f \<in> U \<and> resident (mem s) (upage_of f)" if "f \<in> set Q" for f
  proof -
    have "upage_of f \<in> upage_of ` set Q" by (rule imageI [OF that])
    then have "upage_of f \<in> upage_of ` set (pgqueue s)" by (simp only: Qset)
    then obtain g where "upage_of f = upage_of g" "g \<in> set (pgqueue s)" by (rule imageE)
    then show ?thesis using I(11) [of g] by simp
  qed
  have "map snd (map upage_of Q) = map snd (map upage_of (pgqueue s))" by (simp only: sel(3))
  then have Qd: "distinct (map pn_pid Q)" using I(12) by (simp add: comp_def)
  define u where "u = upage_of e"
  have u: "u = upage_of (victim (pgqueue s))" "u \<in> U" "resident (mem s) u" using sel(2,4) QU [of e] by (auto simp: u_def)
  define v where "v = frame (mem s) u"
  define m where "m = st32 (mem s) (fst u) (pte_of (mem s) u XOR PTE_P)"
  obtain i t where i: "i < SLOTSIZE" "swap_map s i = 0" and run: "page_out s = Done () t"
      and t: "t = s\<lparr>mem := st32 (st32 m v PGSIZE) (v + 4) (kmem_free s), kmem_free := v, kmem_nfree := kmem_nfree s + 1,
        pgqueue := remove1 e Q, swap_map := (swap_map s)(i := snd u), swap_disk := disk_put (swap_disk s) i m v,
        swap_waits := swap_waits s + 9\<rparr>"
    using page_out_exec [OF sel(1) q sel(2) Qd, of v m] free dr I(8) [OF u(2,3)] by (auto simp: u_def v_def m_def)
  note P = paged_out [OF inv u(2,3) i v_def m_def t]
  note O = others_contents [OF inv P(6)]
  have len: "length (slot_bytes (swap_disk t) i) = 4096" using u(3) by (simp add: P(5) contents_resident)
  have K: "x \<notin> set (v # xs)" if "x \<in> K" for x using that I(3) [OF that] I(8) [OF u(2,3)] by (auto simp: v_def)
  have E: "upage_of f \<in> U \<and> resident (mem t) (upage_of f)" if f: "f \<in> set (pgqueue t)" for f
  proof -
    have "f \<in> set Q" "pn_pid f \<noteq> pn_pid e" using free_page_queue(2) [of e "s\<lparr>pgqueue := Q\<rparr>" f] sel(2) Qd f by (auto simp: t)
    then show ?thesis using QU [of f] O(2) [of "upage_of f"] by (auto simp: u_def)
  qed
  have D: "distinct (map pn_pid (pgqueue t))" using free_page_queue(3) [of e "s\<lparr>pgqueue := Q\<rparr>"] sel(2) Qd by (simp add: t)
  have "swap_inv t K U (v # xs)"
    using P(2,4) len by (intro swap_change [OF inv u(2) P(6,3) _ K _ _ E D]) (auto simp: t)
  moreover have "contents t w = contents s w" if "w \<in> U" for w
    using O(1) [of w] contents_slot [OF P(2,4)] P(5) that by (cases "w = u") auto
  moreover have "drive_ok t" using dr disk_put_len by (simp add: t drive_ok_def)
  ultimately show ?thesis using run u P(1,2) O(2) by (intro exI [of _ t] exI [of _ u]) (auto simp: v_def t)
qed

section \<open>Paging in\<close>

lemma frame_entry:
  assumes "page_aligned p"
  shows "P2V (PTE_ADDR (V2P p OR PTE_FLAGS w OR PTE_P)) = p" "present (V2P p OR PTE_FLAGS w OR PTE_P)"
    "PTE_FLAGS (V2P p OR PTE_FLAGS w OR PTE_P) = PTE_FLAGS w OR PTE_P"
proof -
  note z = V2P_bits [OF assms]
  have m: "(0xFFF :: u32) = mask 12" "(1 :: u32) = mask 1" by (simp_all add: mask_eq_exp_minus_1)
  have "PTE_ADDR (V2P p OR PTE_FLAGS w OR PTE_P) = V2P p" unfolding PTE_ADDR_def PTE_FLAGS_def PTE_P_def m
    by (rule bit_word_eqI) (use z in \<open>auto simp: bit_simps\<close>)
  then show "P2V (PTE_ADDR (V2P p OR PTE_FLAGS w OR PTE_P)) = p" by (simp add: P2V_def V2P_def)
  show "PTE_FLAGS (V2P p OR PTE_FLAGS w OR PTE_P) = PTE_FLAGS w OR PTE_P" unfolding PTE_FLAGS_def PTE_P_def m
    by (rule bit_word_eqI) (use z in \<open>auto simp: bit_simps\<close>)
  show "present (V2P p OR PTE_FLAGS w OR PTE_P)" unfolding present_bit by (simp add: bit_or_iff PTE_P_def)
qed

lemma contents_free [simp]: "contents (s\<lparr>kmem_free := a, kmem_nfree := b\<rparr>) w = contents s w"
  by (simp add: contents_def split: option.split)

lemma swap_take:
  assumes inv: "swap_inv s K U (x # xs)"
  shows "kalloc s = Done x (s\<lparr>kmem_free := ld32 (mem s) (x + 4), kmem_nfree := kmem_nfree s - 1\<rparr>)"
    "swap_inv (s\<lparr>kmem_free := ld32 (mem s) (x + 4), kmem_nfree := kmem_nfree s - 1\<rparr>) K U xs"
    "page_valid (kend s) x" "x \<notin> K" "x \<notin> set xs" "\<And>w. w \<in> U \<Longrightarrow> resident (mem s) w \<Longrightarrow> frame (mem s) w \<noteq> x"
proof -
  note I = swap_invD [OF inv]
  have "x \<noteq> 0" "kmem_nfree s \<noteq> 0" using kmem_rep_nfree_0 [OF I(2)] I(2) by (auto simp: kmem_rep_def)
  then show k: "kalloc s = Done x (s\<lparr>kmem_free := ld32 (mem s) (x + 4), kmem_nfree := kmem_nfree s - 1\<rparr>)"
    using I(2) by (simp add: kalloc_def kop_simps kmem_rep_def)
  have "kmem_rep (s\<lparr>kmem_free := ld32 (mem s) (x + 4), kmem_nfree := kmem_nfree s - 1\<rparr>) xs"
    using kalloc_rep [OF I(2)] k by auto
  then show "swap_inv (s\<lparr>kmem_free := ld32 (mem s) (x + 4), kmem_nfree := kmem_nfree s - 1\<rparr>) K U xs"
    using inv unfolding swap_inv_def contents_def by simp
  show "page_valid (kend s) x" "x \<notin> K" "x \<notin> set xs" "\<And>w. w \<in> U \<Longrightarrow> resident (mem s) w \<Longrightarrow> frame (mem s) w \<noteq> x"
    using I(2,3,8) by (auto simp: kmem_rep_def)
qed

text \<open>With an empty free list \<^verbatim>\<open>kalloc\<close> pages one page out and takes its frame.\<close>

lemma kalloc_evicts:
  assumes inv: "swap_inv s K U []" and t: "page_out s = Done () t" "swap_inv t K U [x]"
  shows "kalloc s = Done x (t\<lparr>kmem_free := ld32 (mem t) (x + 4), kmem_nfree := kmem_nfree t - 1\<rparr>)"
proof -
  have "kmem_nfree t \<noteq> 0" using kmem_rep_nfree_0 swap_invD(2) [OF t(2)] by blast
  moreover have "kmem_nfree s = 0" using swap_invD(2) [OF inv] by (simp add: kmem_rep_def)
  ultimately have "kalloc s = kalloc t" using t(1) by (simp add: kalloc_def kop_simps)
  then show ?thesis using swap_take(1) [OF t(2)] by simp
qed

text \<open>It panics when there is no page to evict, or no slot for it.\<close>

lemma kalloc_panics:
  assumes inv: "swap_inv s K U []"
  shows "pgqueue s = [] \<Longrightarrow> kalloc s = Panicked ''page_out: no page to page out''"
    "pgqueue s \<noteq> [] \<Longrightarrow> \<forall>i < SLOTSIZE. swap_map s i \<noteq> 0 \<Longrightarrow> kalloc s = Panicked ''alloc_swap: no free slot in swap space''"
proof -
  have n: "kmem_nfree s = 0" using swap_invD(2) [OF inv] by (simp add: kmem_rep_def)
  show "kalloc s = Panicked ''page_out: no page to page out''" if "pgqueue s = []"
    using that n by (simp add: kalloc_def page_out_def kop_simps)
  show "kalloc s = Panicked ''alloc_swap: no free slot in swap space''" if q: "pgqueue s \<noteq> []" and f: "\<forall>i < SLOTSIZE. swap_map s i \<noteq> 0"
  proof -
    obtain e Q where sel: "sel_page s = Done (Some e) (s\<lparr>pgqueue := Q\<rparr>)" using sel_page_run [OF q] by blast
    have "find_from (\<lambda>i. swap_map s i = 0) 0 SLOTSIZE = None" using f by (simp add: find_from_None)
    then show ?thesis using n q sel by (simp add: kalloc_def page_out_def kop_simps alloc_slot_def)
  qed
qed

text \<open>
  A page for \<^verbatim>\<open>page_in\<close>, from the free list or from a page out.
\<close>

definition room :: "'a kmem_state_scheme \<Rightarrow> addr list \<Rightarrow> bool" where
  "room s xs \<longleftrightarrow> xs \<noteq> [] \<or> pgqueue s \<noteq> [] \<and> (\<exists>i < SLOTSIZE. swap_map s i = 0)"

lemma kalloc_swap:
  assumes inv: "swap_inv s K U xs" and r: "room s xs" and dr: "drive_ok s"
  shows "\<exists>x t ys. kalloc s = Done x t \<and> swap_inv t K U ys \<and> page_valid (kend t) x \<and> x \<notin> K \<and> x \<notin> set ys \<and>
    (\<forall>w \<in> U. contents t w = contents s w \<and> (resident (mem t) w \<longrightarrow> frame (mem t) w \<noteq> x \<and> resident (mem s) w) \<and>
       (\<not> resident (mem s) w \<longrightarrow> pte_of (mem t) w = pte_of (mem s) w)) \<and>
    (\<forall>q k. q \<in> K \<and> unat k < 1024 \<and> q + 4 * k \<notin> fst ` U \<longrightarrow> ld32 (mem t) (q + 4 * k) = ld32 (mem s) (q + 4 * k)) \<and>
    slab_free t = slab_free s \<and> slab_nfree t = slab_nfree s \<and> kmem_state.more t = kmem_state.more s \<and> drive_ok t"
proof (cases xs)
  case (Cons x ys)
  note T = swap_take [OF inv [unfolded Cons]]
  show ?thesis using T dr unfolding drive_ok_def by (intro exI [of _ x] exI [of _ "s\<lparr>kmem_free := ld32 (mem s) (x + 4), kmem_nfree := kmem_nfree s - 1\<rparr>"] exI [of _ ys]) simp
next
  case Nil
  then have q: "pgqueue s \<noteq> []" "\<exists>i < SLOTSIZE. swap_map s i = 0" using r by (auto simp: room_def)
  obtain t u where t: "page_out s = Done () t" "u \<in> U" "resident (mem s) u" "\<not> resident (mem t) u" "swap_inv t K U [frame (mem s) u]"
      "\<forall>w \<in> U. contents t w = contents s w" "\<forall>w \<in> U - {u}. resident (mem t) w \<longleftrightarrow> resident (mem s) w"
      "touches (mem s) (mem t) K u (frame (mem s) u)" "kend t = kend s" "slab_free t = slab_free s" "slab_nfree t = slab_nfree s"
      "kmem_state.more t = kmem_state.more s" "drive_ok t"
    using page_out_run [OF inv q dr] Nil by auto
  define x where "x = frame (mem s) u"
  define t' where "t' = t\<lparr>kmem_free := ld32 (mem t) (x + 4), kmem_nfree := kmem_nfree t - 1\<rparr>"
  note T = swap_take [OF t(5), folded x_def, folded t'_def]
  have "kalloc s = Done x t'" unfolding t'_def x_def by (rule kalloc_evicts [OF inv [unfolded Nil] t(1,5)])
  moreover have "contents t' w = contents t w" for w by (simp add: t'_def)
  moreover have "ld32 (mem t) (p + 4 * k) = ld32 (mem s) (p + 4 * k)" if "p \<in> K" "unat k < 1024" "p + 4 * k \<notin> fst ` U" for p k
    using t(2,8) that by (auto simp: touches_def)
  moreover have "pte_of (mem t) w = pte_of (mem s) w" if "w \<in> U" "\<not> resident (mem s) w" for w
    using touches_ptes [OF inv t(2,8) that(1)] t(3) that(2) by auto
  moreover have "drive_ok t'" using t(13) by (simp add: t'_def drive_ok_def)
  ultimately show ?thesis using T t by (intro exI [of _ x] exI [of _ t'] exI [of _ "[]"]) (auto simp: t'_def)
qed

text \<open>The state \<^verbatim>\<open>page_in\<close> leaves, with the page in frame \<open>x\<close>.\<close>

definition page_in_state :: "'a kmem_state_scheme \<Rightarrow> upage \<Rightarrow> nat \<Rightarrow> addr \<Rightarrow> page_entry \<Rightarrow> u32 \<Rightarrow> addr \<Rightarrow> 'a kmem_state_scheme" where
  "page_in_state s u i x e a b =
     s\<lparr>mem := st32 (mem_write (mem s) x (slot_bytes (swap_disk s) i)) (fst u) (V2P x OR PTE_FLAGS (pte_of (mem s) u) OR PTE_P),
       slab_nfree := a, slab_free := b, swap_map := (swap_map s)(i := 0), pgqueue := pgqueue s @ [e],
       swap_waits := swap_waits s + 9\<rparr>"

lemma paged_in:
  assumes inv: "swap_inv s K U xs" and u: "u \<in> U" "\<not> resident (mem s) u" "in_slot (swap_map s) u i"
    and x: "page_valid (kend s) x" "x \<notin> K" "x \<notin> set xs" "\<And>w. w \<in> U \<Longrightarrow> resident (mem s) w \<Longrightarrow> frame (mem s) w \<noteq> x"
    and t: "t = page_in_state s u i x e a b"
  shows "touches (mem s) (mem t) K u x" "resident (mem t) u" "frame (mem t) u = x" "contents t u = contents s u" "kmem_rep t xs"
    "others_kept s t (U - {u}) xs"
proof -
  note I = swap_invD [OF inv]
  obtain j where "in_slot (swap_map s) u j" "length (slot_bytes (swap_disk s) j) = 4096" using I(10) [OF u(1,2)] by blast
  moreover have i: "i < SLOTSIZE" "\<And>j. j < SLOTSIZE \<Longrightarrow> swap_map s j = snd u \<longleftrightarrow> j = i" using u(3) by (auto simp: in_slot_def)
  ultimately have len: "length (slot_bytes (swap_disk s) i) = 4096" by (auto simp: in_slot_def)
  define m where "m = mem_write (mem s) x (slot_bytes (swap_disk s) i)"
  define w0 where "w0 = V2P x OR PTE_FLAGS (pte_of (mem s) u) OR PTE_P"
  have mt: "mem t = st32 m (fst u) w0" by (simp add: t page_in_state_def m_def w0_def)
  have ax: "page_aligned x" using x(1) by simp
  have tm: "touches (mem s) m K u x"
    unfolding m_def using len same_page_write [OF ax] by (intro touches_page [OF inv ax x(2)]) auto
  have tt: "touches m (mem t) K u x" unfolding mt by (rule touches_pte [OF inv u(1)])
  show T: "touches (mem s) (mem t) K u x" by (rule touches_trans [OF tm tt])
  have pt: "pte_of (mem t) u = w0" by (simp add: pte_of_def mt)
  note F = frame_entry [OF ax, of "pte_of (mem s) u", folded w0_def]
  show r: "resident (mem t) u" using F(2) by (simp add: pt)
  show fr: "frame (mem t) u = x" using F(1) by (simp add: frame_def pt)
  obtain p k where p: "p \<in> K" "unat k < 1024" "fst u = p + 4 * k" "page_aligned p" using pte_cell [OF inv u(1)] by metis
  have "same_page m (mem t) x" unfolding mt p(3) using p ax x(2) by (intro same_page_st) auto
  then show "contents t u = contents s u"
    using same_page_read page_written [OF len] contents_slot [OF u(2,3)] r by (simp add: contents_resident fr m_def)
  have "kmem_rep (set_mem (mem t) s) xs"
  proof (rule kmem_rep_mem [OF I(2)])
    fix y assume y: "y \<in> set xs"
    then have "page_aligned y" "y \<notin> K" "y \<noteq> x" using I(2,3) x(3) page_valid_page by (auto simp: kmem_rep_def)
    then have "same_page (mem s) (mem t) y" using T by (simp add: touches_def)
    from same_page_ld [OF this, of 1] show "ld32 (mem t) (y + 4) = ld32 (mem s) (y + 4)" by simp
  qed
  then show "kmem_rep t xs" by (simp add: kmem_rep_def t page_in_state_def)
  have "(swap_map t j = snd w) = (swap_map s j = snd w)" if "j < SLOTSIZE" "w \<in> U" "w \<noteq> u" for j w
  proof -
    have "snd w \<noteq> snd u" "snd w \<noteq> 0" using I(4,7) u(1) that(2,3) by (auto dest: inj_onD)
    then show ?thesis using i(2) [OF that(1)] by (cases "j = i") (auto simp: t page_in_state_def)
  qed
  moreover have "same_page (mem s) (mem t) (frame (mem s) w) \<and> frame (mem s) w \<notin> set xs" if "w \<in> U" "resident (mem s) w" for w
    using T I(8) [OF that] x(4) [OF that] by (auto simp: touches_def)
  ultimately show "others_kept s t (U - {u}) xs"
    using touches_ptes [OF inv u(1) T] by (simp add: others_kept_def t page_in_state_def)
qed

lemma paged_in_inv:
  assumes inv: "swap_inv s K U xs" and u: "u \<in> U" "\<not> resident (mem s) u" "in_slot (swap_map s) u i"
    and x: "page_valid (kend s) x" "x \<notin> K" "x \<notin> set xs" "\<And>w. w \<in> U \<Longrightarrow> resident (mem s) w \<Longrightarrow> frame (mem s) w \<noteq> x"
    and t: "t = page_in_state s u i x e a b" and e: "upage_of e = u"
  shows "swap_inv t K U xs" "\<forall>w \<in> U. contents t w = contents s w"
proof -
  note I = swap_invD [OF inv] and P = paged_in [OF inv u x t]
  note C = others_contents [OF inv P(6)]
  have tq: "pgqueue t = pgqueue s @ [e]" "swap_map t = (swap_map s)(i := 0)" "kend t = kend s" by (simp_all add: t page_in_state_def)
  show "\<forall>w \<in> U. contents t w = contents s w"
  proof
    fix w assume "w \<in> U"
    then show "contents t w = contents s w" using C(1) [of w] P(4) by (cases "w = u") simp_all
  qed
  have E: "upage_of f \<in> U \<and> resident (mem t) (upage_of f)" if "f \<in> set (pgqueue t)" for f
  proof (cases "f = e")
    case False
    then have "upage_of f \<in> U" "resident (mem s) (upage_of f)" using that I(11) by (auto simp: tq)
    then show ?thesis using C(2) [of "upage_of f"] u(2) by auto
  qed (use e u(1) P(2) in simp)
  have "pn_pid e \<notin> pn_pid ` set (pgqueue s)"
  proof
    assume "pn_pid e \<in> pn_pid ` set (pgqueue s)"
    then obtain f where f: "f \<in> set (pgqueue s)" "pn_pid f = pn_pid e" by auto
    then have "upage_of f = u" using I(7,11) u(1) e by (metis inj_onD snd_conv)
    then show False using I(11) [OF f(1)] u(2) by simp
  qed
  then have D: "distinct (map pn_pid (pgqueue t))" using I(12) by (simp add: tq)
  have K: "q \<notin> set xs" if "q \<in> K" for q using I(3) [OF that] by simp
  show "swap_inv t K U xs"
    using P(2,3) x u(3) I(4) [OF u(1)] by (intro swap_change [OF inv u(1) P(6,5) _ K _ _ E D]) (auto simp: tq in_slot_def)
qed

text \<open>The run, once the frame is there.\<close>

lemma page_in_exec:
  assumes c: "cur s = Some c" and k: "kalloc s = Done x s1" "x \<noteq> 0" and more: "kmem_state.more s1 = kmem_state.more s"
    and w: "present (pde (mem s1) (p_page (pof s c)) (PDX va))" "p = ptab (mem s1) (p_page (pof s c)) (PDX va) + 4 * PTX va" "p \<noteq> 0"
    and sl: "in_slot (swap_map s1) (p, word_of_int (p_pid (pof s c)) OR va) i"
    and pk: "ld32 (mem_write (mem s1) x (slot_bytes (swap_disk s1) i)) p = ld32 (mem s1) p"
    and slab: "slab_nfree s1 \<noteq> 0" "slab_free s1 \<noteq> 0" and dr: "drive_ok s1"
  shows "\<exists>e a b. page_in va s = Done () (page_in_state s1 (p, word_of_int (p_pid (pof s c)) OR va) i x e a b) \<and>
    upage_of e = (p, word_of_int (p_pid (pof s c)) OR va)"
proof -
  have i: "i < SLOTSIZE" "SECNO2SWAPM (SWAPM2SECNO i) = i" "lba28 (SWAPM2SECNO i) = 8 * i"
    using sl SECNO_SWAPM_inverse lba28_slot by (auto simp: in_slot_def)
  have f: "find_slot (word_of_int (p_pid (pof s c)) OR va) s1 = Done (SWAPM2SECNO i) s1"
    using sl by (intro find_slot_fresh) (auto simp: in_slot_def)
  have pr: "ptable s1 = ptable s" using more by (cases s; cases s1) simp
  define u where "u = (p, word_of_int (p_pid (pof s c)) OR va)"
  define m where "m = mem_write (mem s1) x (slot_bytes (swap_disk s1) i)"
  define m' where "m' = st32 m p (V2P x OR PTE_FLAGS (pte_of (mem s1) u) OR PTE_P)"
  define e where "e = \<lparr>pe_slab = slab_free s1, ptr_pte = p, pn_pid = va OR word_of_int (p_pid (pof s c)), pe_ref = ld32 m' p AND PTE_A\<rparr>"
  have rd: "read_swap (SWAPM2SECNO i) x s1 = Done 0 (s1\<lparr>mem := m, swap_waits := swap_waits s1 + 9\<rparr>)"
    using read_swap_run [OF dr, of "SWAPM2SECNO i" x] by (simp add: slot_bytes_def i(3) m_def)
  have fs: "free_slot (SWAPM2SECNO i) (s1\<lparr>mem := m, swap_waits := swap_waits s1 + 9\<rparr>) =
      Done () (s1\<lparr>mem := m, swap_waits := swap_waits s1 + 9, swap_map := (swap_map s1)(i := 0)\<rparr>)"
    using i(1,2) by (simp add: free_slot_def)
  have wk: "walkpgdir (p_page (pof s c)) va False s1 = Done p s1" using walk_present [OF w(1)] w(2) by simp
  have st: "st32 m p (V2P x OR PTE_FLAGS (ld32 m p) OR PTE_P) = m'" using pk by (simp add: m'_def u_def pte_of_def m_def)
  have ps: "page_in_state s1 u i x f a b =
      s1\<lparr>mem := m', slab_nfree := a, slab_free := b, swap_map := (swap_map s1)(i := 0), pgqueue := pgqueue s1 @ [f],
        swap_waits := swap_waits s1 + 9\<rparr>" for f a b
    by (simp add: page_in_state_def m'_def m_def) (simp add: u_def)
  have "page_in va s = Done () (page_in_state s1 u i x e (slab_nfree s1 - 1) (ld32 m' (slab_free s1 + 4)))"
    using c k w(3) slab
    by (simp add: page_in_def curproc_def pget_def kop_simps pr f wk rd fs st add_page_def alloc_slab_def lq_insert_tail_def ps e_def)
  then show ?thesis by (intro exI [of _ e] exI) (auto simp: u_def e_def or.commute)
qed

text \<open>
  The running process \<open>c\<close> has user page \<open>u\<close> at address \<open>va\<close>: its directory is one of the kernel's pages, it has the page table
  for the address, and no entry of the directory is taken for that of a user page.
\<close>

definition has_page :: "'a proc_state_scheme \<Rightarrow> addr set \<Rightarrow> upage set \<Rightarrow> nat \<Rightarrow> addr \<Rightarrow> upage \<Rightarrow> bool" where
  "has_page s K U c va u \<longleftrightarrow>
     cur s = Some c \<and> p_page (pof s c) \<in> K \<and> present (pde (mem s) (p_page (pof s c)) (PDX va)) \<and>
     p_page (pof s c) + 4 * PDX va \<notin> fst ` U \<and> u \<in> U \<and> 0 < fst u \<and>
     u = (ptab (mem s) (p_page (pof s c)) (PDX va) + 4 * PTX va, word_of_int (p_pid (pof s c)) OR PGROUNDDOWN va)"

lemma PDX_round: "PDX (PGROUNDDOWN va) = PDX va" "PTX (PGROUNDDOWN va) = PTX va"
  using same_entry [of "PGROUNDDOWN va" va] round_down(2) [of va] by auto

lemma page_in_run:
  assumes inv: "swap_inv s K U xs" and hp: "has_page s K U c va u" and nr: "\<not> resident (mem s) u" and r: "room s xs"
    and slab: "slab_nfree s \<noteq> 0" "slab_free s \<noteq> 0" and dr: "drive_ok s"
  shows "\<exists>t ys. page_in (PGROUNDDOWN va) s = Done () t \<and> swap_inv t K U ys \<and> (\<forall>w \<in> U. contents t w = contents s w) \<and>
    resident (mem t) u \<and> pde (mem t) (p_page (pof s c)) (PDX va) = pde (mem s) (p_page (pof s c)) (PDX va) \<and>
    kmem_state.more t = kmem_state.more s \<and> drive_ok t"
proof -
  let ?pg = "p_page (pof s c)"
  have H: "cur s = Some c" "?pg \<in> K" "present (pde (mem s) ?pg (PDX va))" "?pg + 4 * PDX va \<notin> fst ` U" "u \<in> U" "fst u \<noteq> 0"
      "fst u = ptab (mem s) ?pg (PDX va) + 4 * PTX va" "snd u = word_of_int (p_pid (pof s c)) OR PGROUNDDOWN va"
    using hp by (auto simp: has_page_def)
  obtain x s1 ys where k: "kalloc s = Done x s1" "swap_inv s1 K U ys" "page_valid (kend s1) x" "x \<notin> K" "x \<notin> set ys"
      "\<forall>w \<in> U. contents s1 w = contents s w \<and> (resident (mem s1) w \<longrightarrow> frame (mem s1) w \<noteq> x \<and> resident (mem s) w) \<and>
         (\<not> resident (mem s) w \<longrightarrow> pte_of (mem s1) w = pte_of (mem s) w)"
      "\<forall>q k. q \<in> K \<and> unat k < 1024 \<and> q + 4 * k \<notin> fst ` U \<longrightarrow> ld32 (mem s1) (q + 4 * k) = ld32 (mem s) (q + 4 * k)"
      "slab_free s1 = slab_free s" "slab_nfree s1 = slab_nfree s" "kmem_state.more s1 = kmem_state.more s" "drive_ok s1"
    using kalloc_swap [OF inv r dr] by blast
  have x0: "x \<noteq> 0" using page_valid_nonzero [OF k(3)] swap_invD(1) [OF k(2)] by blast
  have pd: "pde (mem s1) ?pg (PDX va) = pde (mem s) ?pg (PDX va)" using k(7) H(2,4) index_less(1) by (simp add: pde_def)
  have n1: "\<not> resident (mem s1) u" using k(6) H(5) nr by auto
  obtain i where i: "in_slot (swap_map s1) u i" "length (slot_bytes (swap_disk s1) i) = 4096" using swap_invD(10) [OF k(2) H(5) n1] by blast
  obtain p l where p: "p \<in> K" "unat l < 1024" "fst u = p + 4 * l" "page_aligned p" using pte_cell [OF k(2) H(5)] by metis
  have "same_page (mem s1) (mem_write (mem s1) x (slot_bytes (swap_disk s1) i)) p"
    using p k(3,4) i(2) by (intro same_page_write) auto
  from same_page_ld [OF this p(2)] have pk: "ld32 (mem_write (mem s1) x (slot_bytes (swap_disk s1) i)) (fst u) = ld32 (mem s1) (fst u)"
    by (simp add: p(3))
  have u: "u = (fst u, word_of_int (p_pid (pof s c)) OR PGROUNDDOWN va)" using H(8) by (metis prod.collapse)
  have w: "present (pde (mem s1) ?pg (PDX (PGROUNDDOWN va)))" "fst u = ptab (mem s1) ?pg (PDX (PGROUNDDOWN va)) + 4 * PTX (PGROUNDDOWN va)"
    using H(3,7) pd by (simp_all add: PDX_round ptab_def)
  have sl: "in_slot (swap_map s1) (fst u, word_of_int (p_pid (pof s c)) OR PGROUNDDOWN va) i" using i(1) by (simp only: u [symmetric])
  have "slab_nfree s1 \<noteq> 0" "slab_free s1 \<noteq> 0" using slab k(8,9) by simp_all
  from page_in_exec [OF H(1) k(1) x0 k(10) w H(6) sl pk this k(11)]
  obtain e a b where e: "page_in (PGROUNDDOWN va) s = Done () (page_in_state s1 u i x e a b)" "upage_of e = u"
    unfolding u [symmetric] by blast
  define t where "t = page_in_state s1 u i x e a b"
  have xf: "frame (mem s1) w \<noteq> x" if "w \<in> U" "resident (mem s1) w" for w using k(6) that by blast
  note P = paged_in [OF k(2) H(5) n1 i(1) k(3-5) xf t_def] and Q = paged_in_inv [OF k(2) H(5) n1 i(1) k(3-5) xf t_def e(2)]
  have "?pg + 4 * PDX va \<noteq> fst u" using H(4,5) by (metis imageI)
  then have "pde (mem t) ?pg (PDX va) = pde (mem s) ?pg (PDX va)"
    using P(1) pd H(2) index_less(1) by (simp add: touches_def pde_def)
  moreover have "kmem_state.more t = kmem_state.more s" using k(10) by (simp add: t_def page_in_state_def)
  moreover have "drive_ok t" using k(11) by (simp add: t_def page_in_state_def drive_ok_def)
  moreover have "\<forall>w \<in> U. contents t w = contents s w"
  proof
    fix w assume w: "w \<in> U"
    have "contents s1 w = contents s w" using k(6) w by blast
    then show "contents t w = contents s w" using Q(2) w by simp
  qed
  ultimately show ?thesis using e(1) Q(1) P(2) unfolding t_def by blast
qed

lemma page_bytes:
  assumes "page_aligned f"
  shows "m (f + (va AND 0xFFF)) = mem_read m f 4096 ! (unat va mod 4096)"
proof -
  have "(0xFFF :: u32) = mask 12" by (simp add: mask_eq_exp_minus_1)
  then have "va AND 0xFFF = take_bit 12 va" by (simp add: take_bit_eq_mask)
  then have "unat (va AND 0xFFF) = unat va mod 4096" by (simp add: take_bit_eq_mod unat_mod)
  moreover have "of_nat (unat (va AND 0xFFF)) = va AND 0xFFF" by simp
  ultimately have "va AND 0xFFF = of_nat (unat va mod 4096)" by (simp only:)
  then show ?thesis by (simp add: mem_read_def)
qed

text \<open>What a process finds at an address of a resident page.\<close>

lemma user_byte:
  assumes "swap_inv s K U xs" "u \<in> U" "resident (mem s) u"
    and "fst u = ptab (mem s) pg (PDX va) + 4 * PTX va" "present (pde (mem s) pg (PDX va))"
  shows "map_option (mem s) (user_pa (mem s) pg va) = Some (contents s u ! (unat va mod 4096))"
proof -
  have "page_aligned (frame (mem s) u)" using swap_invD(8) [OF assms(1-3)] page_valid_page by blast
  from page_bytes [OF this] show ?thesis
    using assms(3-5) by (simp add: user_pa_def page_present_def Let_def contents_resident frame_def pte_of_def ptab_def pde_def)
qed

text \<open>
  Unmapping passes over a page that is on the swap disk: the slot stays taken.
\<close>

lemma dealloc_keeps_slot:
  assumes "present (pde (mem s) pg (PDX va))" "\<not> present (ld32 (mem s) (ptab (mem s) pg (PDX va) + 4 * PTX va))" "va < top_va"
    "ptab (mem s) pg (PDX va) + 4 * PTX va \<noteq> 0"
  shows "deallocuvm_loop (Suc n) pg va top_va pid s = deallocuvm_loop n pg (va + PGSIZE) top_va pid s"
  using assms by (simp add: walk_present kop_simps)

section \<open>A drive error loses the page\<close>

text \<open>
  When the drive reports an error at the first sector, \<^verbatim>\<open>page_out\<close> goes on: it frees the frame and the page is taken
  to be in a slot that still has what was in it before.
\<close>

lemma page_out_ignores_error:
  assumes inv: "swap_inv s K U xs" and q: "pgqueue s \<noteq> []" and free: "\<exists>i < SLOTSIZE. swap_map s i = 0"
    and err: "swap_sr s (Suc (swap_waits s)) AND (ATA_SR_DF OR ATA_SR_ERR) \<noteq> 0"
  shows "\<exists>t e i. page_out s = Done () t \<and> swap_disk t = swap_disk s \<and> swap_map s i = 0 \<and>
    swap_map t = (swap_map s)(i := pn_pid e) \<and> upage_of e \<in> upage_of ` set (pgqueue s) \<and>
    kmem_free t = frame (mem s) (upage_of e)"
proof -
  obtain e Q where sel: "sel_page s = Done (Some e) (s\<lparr>pgqueue := Q\<rparr>)" "e \<in> set Q" "map upage_of Q = map upage_of (pgqueue s)"
    using sel_page_run [OF q] by blast
  have "upage_of ` set Q = upage_of ` set (pgqueue s)" using arg_cong [OF sel(3), of set] by simp
  with imageI [OF sel(2), of upage_of] have eq: "upage_of e \<in> upage_of ` set (pgqueue s)" by (simp only:)
  then obtain g where "upage_of e = upage_of g" "g \<in> set (pgqueue s)" by (rule imageE)
  then have u: "upage_of e \<in> U" "resident (mem s) (upage_of e)" using swap_invD(11) [OF inv] by auto
  define v where "v = frame (mem s) (upage_of e)"
  have pv: "page_valid (kend s) v" using swap_invD(8) [OF inv u] by (simp add: v_def)
  obtain i where i: "find_from (\<lambda>i. swap_map s i = 0) 0 SLOTSIZE = Some i"
    using free find_from_ex [of 0 _ SLOTSIZE "\<lambda>i. swap_map s i = 0"] by auto
  have "swap_map s i = 0" using find_from_SomeD [OF i] by simp
  define s3 where "s3 = s\<lparr>pgqueue := Q, mem := st32 (mem s) (ptr_pte e) (ld32 (mem s) (ptr_pte e) XOR PTE_P), swap_map := (swap_map s)(i := pn_pid e)\<rparr>"
  have w: "write_swap (SWAPM2SECNO i) v s3 = Done (-1) (s3\<lparr>swap_waits := swap_waits s3 + 2\<rparr>)"
    using err by (intro write_swap_error) (simp add: s3_def)
  have pv3: "page_valid (kend s3) v" using pv by (simp add: s3_def)
  define s5 where "s5 = s3\<lparr>swap_waits := swap_waits s3 + 2, mem := st32 (st32 (mem s3) v PGSIZE) (v + 4) (kmem_free s3),
    kmem_free := v, kmem_nfree := kmem_nfree s3 + 1\<rparr>"
  have k: "kfree v (s3\<lparr>swap_waits := swap_waits s3 + 2\<rparr>) = Done () s5" using pv3 by (simp add: kfree_def s5_def)
  have s5: "swap_disk s5 = swap_disk s" "swap_map s5 = (swap_map s)(i := pn_pid e)" "kmem_free s5 = v" by (simp_all add: s5_def s3_def)
  have "\<exists>t. free_page (pn_pid e) False s5 = Done () t \<and> swap_disk t = swap_disk s5 \<and> swap_map t = swap_map s5 \<and> kmem_free t = kmem_free s5"
    by (cases "find (\<lambda>f. pn_pid f = pn_pid e) (pgqueue s5)") (simp_all add: free_page_def kop_simps)
  then obtain t where t: "free_page (pn_pid e) False s5 = Done () t" "swap_disk t = swap_disk s" "swap_map t = (swap_map s)(i := pn_pid e)" "kmem_free t = v"
    using s5 by auto
  have "page_out s = Done () t"
    using sel(1) q i k w t(1) by (simp add: page_out_def kop_simps alloc_slot_def v_def frame_def pte_of_def s3_def)
  then show ?thesis using t eq \<open>swap_map s i = 0\<close> unfolding v_def by blast
qed

section \<open>The page allocator\<close>

text \<open>
  C11 (page allocator): what \<^verbatim>\<open>kalloc\<close> does, in every state with a well-formed free list, user pages and queue. With a page free it returns the
  first one and changes nothing else. With none free it pages out the page that the second-chance scan chooses and returns its frame,
  in which case exactly that page leaves memory and no page loses its contents (for a drive that reports no error). With nothing to
  evict, or with no free slot in the swap space, it panics. It never returns \<^verbatim>\<open>NULL\<close>.
\<close>

theorem kalloc_correct:
  assumes "swap_inv s K U xs" "drive_ok s"
  shows "case xs of
      x # ys \<Rightarrow> x \<noteq> 0 \<and> page_valid (kend s) x \<and> x \<notin> set ys \<and>
        (\<exists>t. kalloc s = Done x t \<and> swap_inv t K U ys \<and> mem t = mem s \<and> pgqueue t = pgqueue s \<and>
           swap_map t = swap_map s \<and> swap_disk t = swap_disk s)
    | [] \<Rightarrow>
        if pgqueue s = [] then kalloc s = Panicked ''page_out: no page to page out''
        else if \<forall>i < SLOTSIZE. swap_map s i \<noteq> 0 then kalloc s = Panicked ''alloc_swap: no free slot in swap space''
        else let u = upage_of (victim (pgqueue s)); x = frame (mem s) u in
          x \<noteq> 0 \<and> page_valid (kend s) x \<and> u \<in> U \<and>
          (\<exists>t. kalloc s = Done x t \<and> swap_inv t K U [] \<and> drive_ok t \<and>
             (\<forall>w \<in> U. contents t w = contents s w \<and> (resident (mem t) w \<longleftrightarrow> resident (mem s) w \<and> w \<noteq> u)))"
proof (cases xs)
  case (Cons x ys)
  note T = swap_take [OF assms(1) [unfolded Cons]]
  have "x \<noteq> 0" using page_valid_nonzero [OF T(3)] swap_invD(1) [OF assms(1)] by blast
  then show ?thesis using T by (simp add: Cons)
next
  case Nil
  note inv = assms(1) [unfolded Nil] and P = kalloc_panics [OF assms(1) [unfolded Nil]]
  define u where "u = upage_of (victim (pgqueue s))"
  have "u \<in> U \<and> resident (mem s) u" if "pgqueue s \<noteq> []" using swap_invD(11) [OF inv victim_in [OF that]] by (simp add: u_def)
  then have v: "page_valid (kend s) (frame (mem s) u)" "u \<in> U" if "pgqueue s \<noteq> []" using swap_invD(8) [OF inv, of u] that by auto
  then have nz: "frame (mem s) u \<noteq> 0" if "pgqueue s \<noteq> []" using page_valid_nonzero [OF v(1) [OF that]] swap_invD(1) [OF inv] by blast
  have "\<exists>t. kalloc s = Done (frame (mem s) u) t \<and> swap_inv t K U [] \<and> drive_ok t \<and>
      (\<forall>w \<in> U. contents t w = contents s w \<and> (resident (mem t) w \<longleftrightarrow> resident (mem s) w \<and> w \<noteq> u))"
    if q: "pgqueue s \<noteq> []" "\<exists>i < SLOTSIZE. swap_map s i = 0"
  proof -
    obtain t where t: "page_out s = Done () t" "\<not> resident (mem t) u" "swap_inv t K U [frame (mem s) u]"
        "\<forall>w \<in> U. contents t w = contents s w" "\<forall>w \<in> U - {u}. resident (mem t) w \<longleftrightarrow> resident (mem s) w" "drive_ok t"
      using page_out_run [OF inv q assms(2)] unfolding u_def by blast
    have "drive_ok (t\<lparr>kmem_free := a, kmem_nfree := b\<rparr>)" for a b using t(6) by (simp add: drive_ok_def)
    then show ?thesis
      using kalloc_evicts [OF inv t(1,3)] swap_take(2) [OF t(3)] t(2,4,5)
      by (intro exI [of _ "t\<lparr>kmem_free := ld32 (mem t) (frame (mem s) u + 4), kmem_nfree := kmem_nfree t - 1\<rparr>"]) auto
  qed
  then show ?thesis using P v nz unfolding Nil Let_def list.case u_def [symmetric] by (auto split del: if_split split: if_split)
qed

section \<open>Paging is invisible\<close>

text \<open>
  C13 (page out): with a resident page to choose and a free slot, \<^verbatim>\<open>page_out\<close> succeeds. It takes exactly one page from its process,
  the one the second-chance scan of the queue chooses, and puts its frame on the free list; every user page, in memory or on the swap disk, has the contents
  it had. The swap drive is assumed to report no error (\<open>drive_ok\<close>): \<^verbatim>\<open>page_out\<close> does not look at the result of the write, see
  \<open>page_out_ignores_error\<close>.
\<close>

theorem page_out_transparent:
  assumes "swap_inv s K U xs" "pgqueue s \<noteq> []" "\<exists>i < SLOTSIZE. swap_map s i = 0" "drive_ok s"
  shows "\<exists>t. \<exists>u \<in> U. page_out s = Done () t \<and> u = upage_of (victim (pgqueue s)) \<and> swap_inv t K U (frame (mem s) u # xs) \<and> drive_ok t \<and>
    (\<forall>w \<in> U. contents t w = contents s w \<and> (resident (mem t) w \<longleftrightarrow> resident (mem s) w \<and> w \<noteq> u))"
proof -
  obtain t u where "page_out s = Done () t" "u = upage_of (victim (pgqueue s))" "u \<in> U" "\<not> resident (mem t) u"
      "swap_inv t K U (frame (mem s) u # xs)" "\<forall>w \<in> U. contents t w = contents s w" "\<forall>w \<in> U - {u}. resident (mem t) w \<longleftrightarrow> resident (mem s) w"
      "drive_ok t"
    using page_out_run [OF assms] by blast
  then show ?thesis by (intro exI [of _ t] bexI [of _ u]) auto
qed

text \<open>
  C12 (page fault): the fault of a process at an address below its size, in a page that is on the swap disk, is handled. Afterwards
  the process reads at the address the byte the page holds, and every other user page has the contents it had, also when
  \<^verbatim>\<open>kalloc\<close> had to page another one out. A fault beyond the size of the process is refused and changes nothing. There is a free page
  or a page to evict and a free slot for it, a free slab for the queue entry, and the swap drive reports no error: \<^verbatim>\<open>page_in\<close> and
  \<^verbatim>\<open>page_out\<close> do not look at the results of its transfers.
\<close>

theorem page_fault_restores:
  assumes "swap_inv s K U xs" "has_page s K U c va u" "\<not> resident (mem s) u" "room s xs" "slab_nfree s \<noteq> 0" "slab_free s \<noteq> 0" "drive_ok s"
  shows "if PGROUNDDOWN va < p_size (pof s c)
    then \<exists>t ys. pgflt_handle va s = Done 0 t \<and> swap_inv t K U ys \<and> (\<forall>w \<in> U. contents t w = contents s w) \<and>
      map_option (mem t) (user_pa (mem t) (p_page (pof s c)) va) = Some (contents s u ! (unat va mod 4096)) \<and>
      ptable t = ptable s \<and> drive_ok t
    else pgflt_handle va s = Done (-1) s"
proof -
  have H: "cur s = Some c" "present (pde (mem s) (p_page (pof s c)) (PDX va))" "u \<in> U"
      "fst u = ptab (mem s) (p_page (pof s c)) (PDX va) + 4 * PTX va"
    using assms(2) by (auto simp: has_page_def)
  obtain t ys where t: "page_in (PGROUNDDOWN va) s = Done () t" "swap_inv t K U ys" "\<forall>w \<in> U. contents t w = contents s w" "resident (mem t) u"
      "pde (mem t) (p_page (pof s c)) (PDX va) = pde (mem s) (p_page (pof s c)) (PDX va)" "kmem_state.more t = kmem_state.more s" "drive_ok t"
    using page_in_run [OF assms] by blast
  have "ptable t = ptable s" using t(6) by (cases s; cases t) simp
  moreover have "map_option (mem t) (user_pa (mem t) (p_page (pof s c)) va) = Some (contents t u ! (unat va mod 4096))"
    using H t(5) by (intro user_byte [OF t(2) H(3) t(4)]) (simp_all add: ptab_def)
  ultimately show ?thesis
    using H(1,3) t(1-3,7) by (auto simp: pgflt_handle_def Let_def curproc_def pget_def kop_simps)
qed

text \<open>Page 0 of the running process, in memory and on the swap disk.\<close>

definition demo_upage :: upage where
  "demo_upage = (0x80401000, 1)"

definition demo_out :: fs_state where
  "demo_out = demo_state\<lparr>pgqueue := [\<lparr>pe_slab = 0x80600000, ptr_pte = 0x80401000, pn_pid = 1, pe_ref = 0\<rparr>]\<rparr>"

definition demo_swapped :: fs_state where
  "demo_swapped = demo_state\<lparr>mem := st32 demo_mem 0x80401000 0x402006, kmem_free := 0x80500000, kmem_nfree := 1, slab_free := 0x80600000,
     slab_nfree := 1, swap_map := (\<lambda>_. 0)(0 := 1), swap_disk := (\<lambda>_. replicate 512 0x41)\<rparr>"

definition demo_tables :: "addr set" where
  "demo_tables = {0x80400000, 0x80401000}"

lemma demo_tables_simps: "\<And>q. q \<in> demo_tables \<Longrightarrow> page_aligned q" "0x80402000 \<notin> demo_tables" "0x80500000 \<notin> demo_tables" "0x80401000 \<in> demo_tables"
  by (auto simp: demo_tables_def page_aligned_def)

lemma demo_cell: "\<exists>q \<in> demo_tables. \<exists>k. unat k < 1024 \<and> fst demo_upage = q + 4 * k"
  by (rule bexI [of _ "0x80401000 :: addr"], rule exI [of _ "0 :: u32"]) (simp_all add: demo_upage_def demo_tables_def)

lemma demo_ptes: "ld32 demo_mem 0x80401000 = 0x402007" "ld32 (st32 demo_mem 0x80401000 0x402006) 0x80500004 = 0"
  "ld32 (st32 demo_mem 0x80401000 0x402006) 0x80400000 = 0x401007"
  by code_simp+

lemma demo_out_inv: "swap_inv demo_out demo_tables {demo_upage} []"
proof -
  have p: "pte_of (mem demo_out) demo_upage = 0x402007" by (simp add: pte_of_def demo_out_def demo_upage_def demo_ptes)
  have f: "frame (mem demo_out) demo_upage = 0x80402000" unfolding frame_def p by code_simp
  have r: "present 0x402007" "page_valid 0x80200000 0x80402000" by (simp_all add: PTE_P_def page_valid_def layout_defs)
  show ?thesis using p f r demo_cell demo_tables_simps
    by (simp add: swap_inv_def kmem_rep_def demo_out_def demo_state_def demo_upage_def)
qed

lemma demo_swapped_inv: "swap_inv demo_swapped demo_tables {demo_upage} [0x80500000]" "\<not> resident (mem demo_swapped) demo_upage"
proof -
  have p: "pte_of (mem demo_swapped) demo_upage = 0x402006" by (simp add: pte_of_def demo_swapped_def demo_upage_def)
  have r: "\<not> present 0x402006" "page_valid 0x80200000 0x80500000" by (simp_all add: PTE_P_def page_valid_def layout_defs)
  show n: "\<not> resident (mem demo_swapped) demo_upage" using p r by simp
  have "in_slot (swap_map demo_swapped) demo_upage 0" by (simp add: in_slot_def demo_swapped_def demo_upage_def SLOTSIZE_def)
  moreover have "length (slot_bytes (swap_disk demo_swapped) 0) = 4096" by (simp add: slot_bytes_def demo_swapped_def upt_rec)
  ultimately show "swap_inv demo_swapped demo_tables {demo_upage} [0x80500000]"
    using n r demo_cell demo_tables_simps demo_ptes
    by (auto simp: swap_inv_def kmem_rep_def demo_swapped_def demo_state_def demo_upage_def)
qed

theorem page_out_transparent_witness:
  "\<exists>t. page_out demo_out = Done () t \<and> contents t demo_upage = contents demo_out demo_upage \<and> \<not> resident (mem t) demo_upage"
proof -
  have "\<exists>i < SLOTSIZE. swap_map demo_out i = 0" by (intro exI [of _ 0]) (simp add: demo_out_def demo_state_def SLOTSIZE_def)
  moreover have "pgqueue demo_out \<noteq> []" by (simp add: demo_out_def)
  moreover have "drive_ok demo_out" by (simp add: drive_ok_def demo_out_def demo_state_def ATA_SR_DF_def ATA_SR_ERR_def)
  ultimately show ?thesis using page_out_transparent [OF demo_out_inv] by auto
qed

theorem kalloc_correct_witness:
  "\<exists>t. kalloc demo_out = Done 0x80402000 t \<and> contents t demo_upage = contents demo_out demo_upage \<and> \<not> resident (mem t) demo_upage"
proof -
  have q: "pgqueue demo_out \<noteq> []" "\<not> (\<forall>i < SLOTSIZE. swap_map demo_out i \<noteq> 0)" "upage_of (victim (pgqueue demo_out)) = demo_upage"
    by (simp_all add: demo_out_def demo_state_def SLOTSIZE_def victim_def PTE_A_def demo_upage_def exI [of _ 0])
  have "pte_of (mem demo_out) demo_upage = 0x402007" by (simp add: pte_of_def demo_out_def demo_upage_def demo_ptes)
  then have f: "frame (mem demo_out) demo_upage = 0x80402000" unfolding frame_def by (simp add: PTE_ADDR_def P2V_def KERNBASE_def)
  have "drive_ok demo_out" by (simp add: drive_ok_def demo_out_def demo_state_def ATA_SR_DF_def ATA_SR_ERR_def)
  from kalloc_correct [OF demo_out_inv this] show ?thesis
    unfolding list.case Let_def q(3) f using q(1,2) by (auto split: if_splits)
qed

theorem page_fault_restores_witness:
  "\<exists>t. pgflt_handle 5 demo_swapped = Done 0 t \<and> map_option (mem t) (user_pa (mem t) 0x80400000 5) = Some 0x41"
proof -
  have s: "in_slot (swap_map demo_swapped) demo_upage 0" by (simp add: in_slot_def demo_swapped_def demo_upage_def SLOTSIZE_def)
  have c: "contents demo_swapped demo_upage ! 5 = 0x41"
    unfolding contents_slot [OF demo_swapped_inv(2) s] by (simp add: slot_bytes_def demo_swapped_def upt_rec nth_append)
  have f: "p_page (pof demo_swapped 0) = 0x80400000" "p_pid (pof demo_swapped 0) = 1" "p_size (pof demo_swapped 0) = 4096" "cur demo_swapped = Some 0"
    by (simp_all add: demo_swapped_def demo_state_def)
  have a: "PGROUNDDOWN 5 = 0" "PDX 5 = 0" "PTX 5 = 0" by code_simp+
  have d: "pde (mem demo_swapped) 0x80400000 0 = 0x401007" using demo_ptes(3) by (simp add: pde_def demo_swapped_def)
  have "present 0x401007" "P2V (PTE_ADDR 0x401007) = 0x80401000" by code_simp+
  then have "has_page demo_swapped demo_tables {demo_upage} 0 5 demo_upage"
    by (simp add: has_page_def f a d ptab_def demo_tables_def demo_upage_def)
  moreover have "room demo_swapped [0x80500000]" "slab_nfree demo_swapped \<noteq> 0" "slab_free demo_swapped \<noteq> 0" "drive_ok demo_swapped"
    by (simp_all add: room_def demo_swapped_def demo_state_def drive_ok_def ATA_SR_DF_def ATA_SR_ERR_def)
  ultimately show ?thesis using page_fault_restores [OF demo_swapped_inv(1) _ demo_swapped_inv(2), of 0 5] c by (auto simp: f a)
qed

end
