(* ===== verification/Fork_Memory.thy ===== *)
theory Fork_Memory
  imports Swapping
begin

unbundle bit_operations_syntax

text \<open>
  The memory of a new process (\<^verbatim>\<open>copyuvm\<close> of \<^verbatim>\<open>vm.c\<close>, used by \<^verbatim>\<open>fork\<close>): the copy has the same pages with the same contents and
  permissions, in frames of its own, and the original is untouched.
\<close>

section \<open>Pages a page table does not own\<close>

text \<open>The page \<open>q\<close> is neither the directory \<open>pg\<close> nor one of its tables nor free.\<close>

definition outside :: "memory \<Rightarrow> addr \<Rightarrow> addr list \<Rightarrow> addr \<Rightarrow> bool" where
  "outside m pg xs q \<longleftrightarrow> page_aligned q \<and> q \<noteq> pg \<and> q \<notin> set xs \<and>
     (\<forall>d. unat d < 1024 \<and> present (pde m pg d) \<longrightarrow> ptab m pg d \<noteq> q)"

lemma outside_sub: "outside m pg xs q \<Longrightarrow> set ys \<subseteq> set xs \<Longrightarrow> outside m pg ys q"
  by (auto simp: outside_def)

lemma outside_mem: "same_page m m' pg \<Longrightarrow> outside m' pg xs q = outside m pg xs q"
  by (auto simp: outside_def pde_def ptab_def same_page_ld)

definition kept_but_mem :: "'a kmem_state_scheme \<Rightarrow> 'a kmem_state_scheme \<Rightarrow> bool" where
  "kept_but_mem s t \<longleftrightarrow> kend t = kend s \<and> slab_free t = slab_free s \<and> slab_nfree t = slab_nfree s \<and> pgqueue t = pgqueue s \<and>
     swap_map t = swap_map s \<and> swap_disk t = swap_disk s \<and> kmem_state.more t = kmem_state.more s"

lemma kalloc_first:
  assumes "kmem_rep s (x # xs)"
  shows "\<exists>t. kalloc s = Done x t \<and> kmem_rep t xs \<and> mem t = mem s \<and> kept_but_mem s t"
proof -
  have "kmem_nfree s \<noteq> 0" using kmem_rep_nfree_0 [OF assms] by simp
  with assms show ?thesis by (auto simp: kalloc_def kop_simps kmem_rep_def kept_but_mem_def)
qed

lemma flist_unique: "flist m a xs \<Longrightarrow> flist m a ys \<Longrightarrow> xs = ys"
proof (induction m a xs arbitrary: ys rule: flist.induct)
  case (2 m a x xs)
  then show ?case by (cases ys) auto
qed (metis flist_0 flist.simps(1))

text \<open>The walk that makes a missing table.\<close>

lemma walk_frame:
  assumes inv: "pt_inv s pg xs" and w: "walkpgdir pg va True s = Done pte u" and inv': "pt_inv u pg ys"
    and room: "present (pde (mem s) pg (PDX va)) \<or> xs \<noteq> []"
  shows "kept_but_mem s u" "ys = (if present (pde (mem s) pg (PDX va)) then xs else tl xs)"
    "outside (mem s) pg xs q \<Longrightarrow> same_page (mem s) (mem u) q"
    "unat d < 1024 \<Longrightarrow> d \<noteq> PDX va \<Longrightarrow> pde (mem u) pg d = pde (mem s) pg d"
    "\<not> present (pde (mem s) pg (PDX va)) \<Longrightarrow> ptab (mem u) pg (PDX va) = hd xs"
proof -
  have rep: "kmem_rep s xs" "kmem_rep u ys" "page_aligned pg" "0 < kend s" using inv inv' by (auto simp: pt_inv_def)
  have "kept_but_mem s u \<and> ys = (if present (pde (mem s) pg (PDX va)) then xs else tl xs) \<and>
    (outside (mem s) pg xs q \<longrightarrow> same_page (mem s) (mem u) q) \<and>
    (unat d < 1024 \<and> d \<noteq> PDX va \<longrightarrow> pde (mem u) pg d = pde (mem s) pg d) \<and>
    (\<not> present (pde (mem s) pg (PDX va)) \<longrightarrow> ptab (mem u) pg (PDX va) = hd xs)"
  proof (cases "present (pde (mem s) pg (PDX va))")
    case True
    then have "u = s" using walk_present [OF True] w by simp
    then show ?thesis using True rep flist_unique by (auto simp: kept_but_mem_def kmem_rep_def)
  next
    case False
    then obtain x zs where xs: "xs = x # zs" using room by (cases xs) auto
    obtain t where t: "kalloc s = Done x t" "kmem_rep t zs" "mem t = mem s" "kept_but_mem s t" using kalloc_first rep(1) xs by blast
    have x: "x \<noteq> 0" "page_aligned x" "x \<noteq> pg" "x \<notin> set zs" using inv rep(1) xs by (auto simp: pt_inv_def kmem_rep_def page_valid_nonzero)
    obtain u' where u': "walkpgdir pg va True s = Done (x + 4 * PTX va) u'" "pt_inv u' pg zs" "ptab (mem u') pg (PDX va) = x"
        "\<forall>d. unat d < 1024 \<and> d \<noteq> PDX va \<longrightarrow> pde (mem u') pg d = pde (mem s) pg d"
      using walk_absent [OF inv [unfolded xs] False] by blast
    then have uu: "u' = u" using w by simp
    have um: "mem u = st32 (mem_write (mem s) x (replicate 4096 0)) (pg + 4 * PDX va) (V2P x OR PTE_P OR PTE_W OR PTE_U)" "kept_but_mem s u"
      using False w t x(1) by (auto simp: walkpgdir_def kop_simps pde_def page_zero_def kept_but_mem_def)
    have "same_page (mem s) (mem u) q" if "outside (mem s) pg xs q"
    proof -
      have q: "page_aligned q" "q \<noteq> pg" "q \<noteq> x" using that xs by (auto simp: outside_def)
      have "same_page (mem s) (mem_write (mem s) x (replicate 4096 0)) q" using q x(2) by (intro same_page_write) auto
      moreover have "same_page m (st32 m (pg + 4 * PDX va) v) q" for m v using q rep(3) index_less(1) by (intro same_page_st) auto
      ultimately show ?thesis using same_page_trans um(1) by metis
    qed
    moreover have "zs = ys" using u'(2) inv' uu flist_unique by (auto simp: pt_inv_def kmem_rep_def)
    ultimately show ?thesis using False um(2) u' uu xs by auto
  qed
  then show "kept_but_mem s u" "ys = (if present (pde (mem s) pg (PDX va)) then xs else tl xs)"
    "outside (mem s) pg xs q \<Longrightarrow> same_page (mem s) (mem u) q"
    "unat d < 1024 \<Longrightarrow> d \<noteq> PDX va \<Longrightarrow> pde (mem u) pg d = pde (mem s) pg d"
    "\<not> present (pde (mem s) pg (PDX va)) \<Longrightarrow> ptab (mem u) pg (PDX va) = hd xs" by blast+
qed

lemma walk_alloc:
  assumes inv: "pt_inv s pg xs" and room: "present (pde (mem s) pg (PDX i)) \<or> xs \<noteq> []"
  obtains u ys where "walkpgdir pg i True s = Done (ptab (mem u) pg (PDX i) + 4 * PTX i) u" "pt_inv u pg ys" "present (pde (mem u) pg (PDX i))"
    "\<And>d k. unat d < 1024 \<Longrightarrow> unat k < 1024 \<Longrightarrow> entry (mem u) pg d k = entry (mem s) pg d k"
proof (cases "present (pde (mem s) pg (PDX i))")
  case True
  then show thesis using that [of s xs] inv walk_present [OF True] by simp
next
  case False
  then obtain x zs where xs: "xs = x # zs" using room by (cases xs) auto
  obtain u where "walkpgdir pg i True s = Done (x + 4 * PTX i) u" "pt_inv u pg zs" "ptab (mem u) pg (PDX i) = x" "present (pde (mem u) pg (PDX i))"
      "\<forall>d k. unat d < 1024 \<and> unat k < 1024 \<longrightarrow> entry (mem u) pg d k = entry (mem s) pg d k"
    using walk_absent [OF inv [unfolded xs] False] by blast
  then show thesis using that [of u zs] by simp
qed

section \<open>Mapping one page\<close>

lemma one_page:
  assumes "page_aligned i"
  shows "PGROUNDDOWN i = i" "PGROUNDDOWN (i + PGSIZE - 1) = i"
proof -
  have m: "PGSIZE - 1 = mask 12" by (simp add: PGSIZE_def mask_eq_exp_minus_1)
  have z: "\<not> bit i n" if "n < 12" for n
    using assms that aligned_bits by (metis bit_0_eq bit_take_bit_iff bot_apply bot_bool_def)
  show "PGROUNDDOWN i = i" unfolding PGROUNDDOWN_def m by (rule bit_word_eqI) (use z in \<open>auto simp: bit_simps\<close>)
  have "i AND mask 12 = 0" by (rule bit_word_eqI) (use z in \<open>auto simp: bit_simps\<close>)
  then have "i + (PGSIZE - 1) = i OR mask 12" unfolding m by (rule disjunctive_add_eq_or)
  then have "i + PGSIZE - 1 = i OR mask 12" by (simp add: add_diff_eq)
  moreover have "(i OR mask 12) AND NOT (mask 12) = i" by (rule bit_word_eqI) (use z in \<open>auto simp: bit_simps\<close>)
  ultimately show "PGROUNDDOWN (i + PGSIZE - 1) = i" by (simp add: PGROUNDDOWN_def m)
qed

lemma map_page:
  assumes inv: "pt_inv s pg xs" and i: "page_aligned i" and un: "translate (mem s) pg i = None"
    and room: "present (pde (mem s) pg (PDX i)) \<or> xs \<noteq> []" and w: "w = pa OR perm OR PTE_P"
  shows "\<exists>t ys p. mappages pg i PGSIZE pa perm s = Done 0 t \<and> pt_inv t pg ys \<and> kept_but_mem s t \<and>
    ys = (if present (pde (mem s) pg (PDX i)) then xs else tl xs) \<and>
    walkpgdir pg i False t = Done p t \<and> p \<noteq> 0 \<and> ld32 (mem t) p = w \<and>
    (\<forall>a. translate (mem t) pg a = (if page_no a = page_no i then Some w else translate (mem s) pg a)) \<and>
    (\<forall>d. unat d < 1024 \<longrightarrow> present (pde (mem t) pg d) \<longleftrightarrow> d = PDX i \<or> present (pde (mem s) pg d)) \<and>
    (\<forall>q. outside (mem s) pg xs q \<longrightarrow> same_page (mem s) (mem t) q \<and> outside (mem t) pg ys q)"
proof -
  let ?d = "PDX i"
  obtain u ys where u: "walkpgdir pg i True s = Done (ptab (mem u) pg ?d + 4 * PTX i) u" "pt_inv u pg ys" "present (pde (mem u) pg ?d)"
      "\<And>d k. unat d < 1024 \<Longrightarrow> unat k < 1024 \<Longrightarrow> entry (mem u) pg d k = entry (mem s) pg d k"
    using walk_alloc [OF inv room] by metis
  let ?p = "ptab (mem u) pg ?d + 4 * PTX i"
  define t where "t = set_mem (st32 (mem u) ?p w) u"
  have v: "present w" unfolding w by (rule present_or)
  note F = walk_frame [OF inv u(1,2) room] and se = set_entry [OF u(2,3) index_less(1) [of i] index_less(2) [of i] v refl, folded t_def]
  have tv: "page_valid (kend u) (ptab (mem u) pg ?d)" "0 < kend u" using u(2,3) index_less(1) by (auto simp: pt_inv_def)
  then have "ptab (mem u) pg ?d \<noteq> 0" by (rule page_valid_nonzero)
  then have nz: "?p \<noteq> 0" using cell_unat [OF page_valid_page [OF tv(1)] index_less(2)] by (auto simp: word_unat_eq_iff)
  have "entry (mem u) pg ?d (PTX i) = None" using un u(4) index_less by (simp add: translate_def)
  then have np: "\<not> present (ld32 (mem u) ?p)" using u(3) by (auto simp: entry_def split: if_splits)
  obtain n where n: "(2 :: nat) ^ 20 = Suc n" by (cases "(2 :: nat) ^ 20") simp_all
  have "mappages_loop (Suc n) pg i i pa perm s = Done 0 t" using u(1) nz np by (simp add: kop_simps t_def w)
  then have run: "mappages pg i PGSIZE pa perm s = Done 0 t" by (simp only: mappages_def one_page [OF i] n)
  have pt: "pde (mem t) pg d = pde (mem u) pg d" if "unat d < 1024" for d using se(2) [OF that] by (simp add: t_def)
  have wk: "walkpgdir pg i False t = Done ?p t" using walk_present [of t pg i False] u(3) pt [OF index_less(1), of i] by (simp add: ptab_def)
  have tr: "translate (mem t) pg a = (if page_no a = page_no i then Some w else translate (mem s) pg a)" for a
    using se(3) [OF index_less, of a a] u(4) [OF index_less, of a a] same_entry [of a i] by (simp add: translate_def t_def)
  have pr: "present (pde (mem t) pg d) \<longleftrightarrow> d = ?d \<or> present (pde (mem s) pg d)" if "unat d < 1024" for d
    using pt [OF that] F(4) [OF that] u(3) by (cases "d = ?d") auto
  have tb: "ptab (mem u) pg ?d \<noteq> q" if q: "outside (mem s) pg xs q" for q
  proof (cases "present (pde (mem s) pg ?d)")
    case True
    then have "u = s" using walk_present [OF True, of True] u(1) by simp
    then show ?thesis using q True index_less(1) by (auto simp: outside_def)
  next
    case False
    then have "ptab (mem u) pg ?d \<in> set xs" using F(5) room by auto
    then show ?thesis using q by (auto simp: outside_def)
  qed
  have out: "same_page (mem s) (mem t) q \<and> outside (mem t) pg ys q" if q: "outside (mem s) pg xs q" for q
  proof -
    have "same_page (mem u) (mem t) q"
      using q tb [OF q] page_valid_page [OF tv(1)] index_less(2) unfolding t_def by (auto simp: outside_def intro: same_page_st)
    moreover have "ptab (mem t) pg d \<noteq> q" if "unat d < 1024" "present (pde (mem t) pg d)" for d
      using that pt [OF that(1)] F(4) [OF that(1)] q tb [OF q] pr [OF that(1)] by (cases "d = ?d") (auto simp: outside_def ptab_def)
    moreover have "q \<notin> set ys" using q F(2) room by (cases xs) (auto simp: outside_def)
    ultimately show ?thesis using q F(3) [OF q] same_page_trans by (auto simp: outside_def)
  qed
  have "kept_but_mem s t" using F(1) by (simp add: kept_but_mem_def t_def)
  moreover have "ld32 (mem t) ?p = w" by (simp add: t_def)
  moreover have "pt_inv t pg ys" using se(1) by (simp add: t_def)
  ultimately show ?thesis using run F(2) wk nz tr pr out by blast
qed

section \<open>What the copy keeps\<close>

definition moves :: "addr \<Rightarrow> memory \<Rightarrow> addr list \<Rightarrow> memory \<Rightarrow> addr list \<Rightarrow> bool" where
  "moves tp m xs m' ys \<longleftrightarrow> (\<forall>q. outside m tp xs q \<longrightarrow> same_page m m' q \<and> outside m' tp ys q)"

lemma moves_trans: "moves tp m xs m' ys \<Longrightarrow> moves tp m' ys m'' zs \<Longrightarrow> moves tp m xs m'' zs"
  using same_page_trans unfolding moves_def by blast

text \<open>Taking a free page and filling it.\<close>

lemma moves_fill:
  assumes inv: "pt_inv s tp (x # xs)" and b: "length bs = 4096"
  shows "moves tp (mem s) (x # xs) (mem_write (mem s) x bs) xs" "outside (mem_write (mem s) x bs) tp xs x"
    "translate (mem_write (mem s) x bs) tp a = translate (mem s) tp a" "unat d < 1024 \<Longrightarrow> pde (mem_write (mem s) x bs) tp d = pde (mem s) tp d"
    "kmem_rep t xs \<Longrightarrow> mem t = mem s \<Longrightarrow> kend t = kend s \<Longrightarrow> pt_inv (set_mem (mem_write (mem s) x bs) t) tp xs"
proof -
  have x: "page_valid (kend s) x" "page_aligned x" "x \<noteq> tp" "x \<notin> set xs" "0 < kend s" and tp: "page_valid (kend s) tp" "page_aligned tp" "tp \<notin> set xs"
    using inv by (auto simp: pt_inv_def kmem_rep_def)
  have tab: "page_valid (kend s) (ptab (mem s) tp d)" "page_aligned (ptab (mem s) tp d)" "ptab (mem s) tp d \<noteq> tp" "ptab (mem s) tp d \<noteq> x"
      "ptab (mem s) tp d \<notin> set xs" if "unat d < 1024" "present (pde (mem s) tp d)" for d
    using inv that by (auto simp: pt_inv_def)
  let ?m = "mem_write (mem s) x bs"
  have sp: "same_page (mem s) ?m q" if "page_aligned q" "q \<noteq> x" for q using same_page_write [OF x(2) that(1)] that(2) b by auto
  show pd: "pde ?m tp d = pde (mem s) tp d" if "unat d < 1024" for d using same_page_ld [OF sp that] tp(2) x(3) by (auto simp: pde_def)
  then have pt: "ptab ?m tp d = ptab (mem s) tp d" if "unat d < 1024" for d using that by (simp add: ptab_def)
  have out: "outside ?m tp zs q \<longleftrightarrow> outside (mem s) tp zs q" for zs q using pd pt by (auto simp: outside_def)
  show "moves tp (mem s) (x # xs) ?m xs"
    unfolding moves_def out
  proof (intro allI impI conjI)
    fix q assume q: "outside (mem s) tp (x # xs) q"
    then show "same_page (mem s) ?m q" using sp by (simp add: outside_def)
    show "outside (mem s) tp xs q" by (rule outside_sub [OF q]) auto
  qed
  show "outside ?m tp xs x" unfolding out using x tab(4) by (auto simp: outside_def)
  show "translate ?m tp a = translate (mem s) tp a"
  proof (cases "present (pde (mem s) tp (PDX a))")
    case True
    then show ?thesis using same_page_ld [OF sp index_less(2)] tab [OF index_less(1) True] pd [OF index_less(1)] pt [OF index_less(1)]
      by (simp add: translate_def entry_def)
  qed (use pd [OF index_less(1)] in \<open>simp add: translate_def entry_def\<close>)
  show "pt_inv (set_mem ?m t) tp xs" if t: "kmem_rep t xs" "mem t = mem s" "kend t = kend s"
  proof -
    have "kmem_rep (set_mem ?m t) xs"
    proof (rule kmem_rep_mem [OF t(1)])
      fix y assume y: "y \<in> set xs"
      then have "page_aligned y" "y \<noteq> x" using t(1,3) x(4) page_valid_page by (auto simp: kmem_rep_def)
      from same_page_ld [OF sp [OF this], of 1] show "ld32 ?m (y + 4) = ld32 (mem t) (y + 4)" by (simp add: t(2))
    qed
    moreover have "\<forall>d e. unat d < 1024 \<and> unat e < 1024 \<and> d \<noteq> e \<and> present (pde (mem s) tp d) \<and> present (pde (mem s) tp e) \<longrightarrow>
        ptab (mem s) tp d \<noteq> ptab (mem s) tp e" using inv by (simp add: pt_inv_def)
    ultimately show ?thesis using x(5) tp tab(1,3,5) t(3) unfolding pt_inv_def by (auto simp: pd pt)
  qed
qed

section \<open>Slabs\<close>

lemma slab_nonempty: "slab_rep s (b # bs) \<Longrightarrow> slab_nfree s \<noteq> 0"
proof -
  assume s: "slab_rep s (b # bs)"
  then have "card (set (b # bs)) = length (b # bs)" "set (b # bs) \<subseteq> UNIV - {0}" by (auto simp: slab_rep_def distinct_card)
  then have "length (b # bs) \<le> card (UNIV - {0 :: u32})" using card_mono [of "UNIV - {0 :: u32}" "set (b # bs)"] by simp
  also have "\<dots> = 2 ^ 32 - 1" by (simp add: card_Diff_singleton card_word)
  finally have "length (b # bs) < 2 ^ 32" by simp
  then have "unat (of_nat (length (b # bs)) :: u32) = length (b # bs)" by (simp only: unat_of_nat) simp
  then have "(of_nat (length (b # bs)) :: u32) \<noteq> 0" by (metis length_Cons nat.distinct(1) unat_0)
  then show ?thesis using s by (simp add: slab_rep_def)
qed

lemma add_page_run:
  assumes "slab_rep s (b # bs)"
  shows "\<exists>t. add_page p va pid s = Done () t \<and> slab_rep t bs \<and> mem t = mem s \<and> kend t = kend s \<and> kmem_free t = kmem_free s \<and>
    kmem_nfree t = kmem_nfree s \<and> kmem_state.more t = kmem_state.more s"
  using assms slab_nonempty [OF assms] by (auto simp: add_page_def alloc_slab_def kop_simps slab_rep_def)

section \<open>Copying\<close>

definition page_at :: "nat \<Rightarrow> addr" where
  "page_at j = of_nat (4096 * j)"

abbreviation fr :: "u32 \<Rightarrow> addr" where
  "fr w \<equiv> P2V (PTE_ADDR w)"

lemma page_at:
  assumes "j \<le> 2 ^ 19"
  shows "page_no (page_at j) = j" "page_aligned (page_at j)" "unat (page_at j) = 4096 * j"
proof -
  have "4096 * j < 2 ^ 32" using assms by simp
  then show u: "unat (page_at j) = 4096 * j" unfolding page_at_def unat_of_nat by simp
  show "page_no (page_at j) = j" "page_aligned (page_at j)" unfolding page_no_def page_aligned_def u by simp_all
qed

text \<open>
  The first \<open>N\<close> pages of the directory \<open>sp\<close> are in memory, with entries \<open>W\<close> and contents \<open>C\<close>, and nothing of it belongs to \<open>tp\<close> or
  is free.
\<close>

definition source :: "memory \<Rightarrow> addr \<Rightarrow> addr \<Rightarrow> addr list \<Rightarrow> (nat \<Rightarrow> u32) \<Rightarrow> (nat \<Rightarrow> byte list) \<Rightarrow> nat \<Rightarrow> bool" where
  "source m sp tp xs W C N \<longleftrightarrow> outside m tp xs sp \<and> (\<forall>j < N.
     present (pde m sp (PDX (page_at j))) \<and> outside m tp xs (ptab m sp (PDX (page_at j))) \<and>
     ptab m sp (PDX (page_at j)) + 4 * PTX (page_at j) \<noteq> 0 \<and>
     ld32 m (ptab m sp (PDX (page_at j)) + 4 * PTX (page_at j)) = W j \<and> present (W j) \<and>
     outside m tp xs (fr (W j)) \<and> mem_read m (fr (W j)) 4096 = C j)"

lemma source_moves:
  assumes "source m sp tp xs W C N" "moves tp m xs m' ys"
  shows "source m' sp tp ys W C N"
proof -
  have o: "same_page m m' q" "outside m' tp ys q" if "outside m tp xs q" for q using assms(2) that by (auto simp: moves_def)
  have sp: "outside m tp xs sp" using assms(1) by (simp add: source_def)
  have pd: "pde m' sp (PDX a) = pde m sp (PDX a)" for a using same_page_ld [OF o(1) [OF sp] index_less(1)] by (simp add: pde_def)
  then have pt: "ptab m' sp (PDX a) = ptab m sp (PDX a)" for a by (simp add: ptab_def)
  show ?thesis
    using assms(1) same_page_ld [OF o(1) index_less(2)] same_page_read [OF o(1)] o(2) by (simp add: source_def pd pt)
qed

text \<open>The first \<open>j\<close> pages have been copied.\<close>

definition copied :: "memory \<Rightarrow> addr \<Rightarrow> addr list \<Rightarrow> (nat \<Rightarrow> u32) \<Rightarrow> (nat \<Rightarrow> byte list) \<Rightarrow> nat \<Rightarrow> nat \<Rightarrow> bool" where
  "copied m tp xs W C N j \<longleftrightarrow>
     (\<forall>k < j. \<exists>w. translate m tp (page_at k) = Some w \<and> PTE_FLAGS w = PTE_FLAGS (W k) \<and> outside m tp xs (fr w) \<and>
        mem_read m (fr w) 4096 = C k \<and> (\<forall>l < N. fr w \<noteq> fr (W l))) \<and>
     inj_on (\<lambda>k. fr (the (translate m tp (page_at k)))) {..<j} \<and>
     (\<forall>k. j \<le> k \<and> k < N \<longrightarrow> translate m tp (page_at k) = None)"

lemma copied_moves:
  assumes "copied m tp xs W C N j" "moves tp m xs m' ys" "\<And>k. k < N \<Longrightarrow> translate m' tp (page_at k) = translate m tp (page_at k)" "j \<le> N"
  shows "copied m' tp ys W C N j"
proof -
  have o: "mem_read m' q 4096 = mem_read m q 4096" "outside m' tp ys q" if "outside m tp xs q" for q
    using assms(2) that same_page_read by (auto simp: moves_def)
  have "inj_on (\<lambda>k. fr (the (translate m' tp (page_at k)))) {..<j} = inj_on (\<lambda>k. fr (the (translate m tp (page_at k)))) {..<j}"
    using assms(3,4) by (intro inj_on_cong) simp
  moreover have "\<exists>w. translate m' tp (page_at k) = Some w \<and> PTE_FLAGS w = PTE_FLAGS (W k) \<and> outside m' tp ys (fr w) \<and>
      mem_read m' (fr w) 4096 = C k \<and> (\<forall>l < N. fr w \<noteq> fr (W l))" if k: "k < j" for k
  proof -
    obtain w where "translate m tp (page_at k) = Some w" "PTE_FLAGS w = PTE_FLAGS (W k)" "outside m tp xs (fr w)"
        "mem_read m (fr w) 4096 = C k" "\<forall>l < N. fr w \<noteq> fr (W l)"
      using assms(1) k by (auto simp: copied_def)
    then show ?thesis using assms(3) [of k] assms(4) k o by (intro exI [of _ w]) auto
  qed
  ultimately show ?thesis using assms(1,3) by (simp add: copied_def)
qed

text \<open>One more page, in the frame \<open>x\<close>.\<close>

lemma copied_next:
  assumes c: "copied m tp xs W C N j" and j: "j < N" "N \<le> 2 ^ 19" and v: "moves tp m xs m' ys"
    and tr: "\<And>a. translate m' tp a = (if page_no a = j then Some w else translate m tp a)"
    and x: "fr w = x" "outside m tp xs x" "mem_read m x 4096 = C j" "PTE_FLAGS w = PTE_FLAGS (W j)" "\<forall>l < N. x \<noteq> fr (W l)"
      "\<And>k w. k < j \<Longrightarrow> translate m tp (page_at k) = Some w \<Longrightarrow> fr w \<noteq> x"
  shows "copied m' tp ys W C N (Suc j)"
proof -
  have pn: "page_no (page_at k) = k" if "k < N" for k using page_at(1) [of k] that j(2) by simp
  have old: "translate m' tp (page_at k) = translate m tp (page_at k)" if "k < N" "k \<noteq> j" for k using tr pn that by simp
  have new: "translate m' tp (page_at j) = Some w" using tr pn j(1) by simp
  have o: "mem_read m' q 4096 = mem_read m q 4096" "outside m' tp ys q" if "outside m tp xs q" for q
    using v that same_page_read by (auto simp: moves_def)
  have "\<exists>w. translate m' tp (page_at k) = Some w \<and> PTE_FLAGS w = PTE_FLAGS (W k) \<and> outside m' tp ys (fr w) \<and>
      mem_read m' (fr w) 4096 = C k \<and> (\<forall>l < N. fr w \<noteq> fr (W l))" if k: "k < Suc j" for k
  proof (cases "k = j")
    case True
    then show ?thesis using new x o by (intro exI [of _ w]) auto
  next
    case False
    then obtain w' where "translate m tp (page_at k) = Some w'" "PTE_FLAGS w' = PTE_FLAGS (W k)" "outside m tp xs (fr w')"
        "mem_read m (fr w') 4096 = C k" "\<forall>l < N. fr w' \<noteq> fr (W l)"
      using c k by (auto simp: copied_def less_Suc_eq)
    then show ?thesis using old [of k] j(1) k False o by (intro exI [of _ w']) auto
  qed
  moreover have "inj_on (\<lambda>k. fr (the (translate m' tp (page_at k)))) {..<Suc j}"
  proof -
    have "inj_on (\<lambda>k. fr (the (translate m' tp (page_at k)))) {..<j} = inj_on (\<lambda>k. fr (the (translate m tp (page_at k)))) {..<j}"
      using old j(1) by (intro inj_on_cong) simp
    moreover have "fr (the (translate m' tp (page_at k))) \<noteq> x" if "k < j" for k
      using x(6) [OF that] c that old [of k] j(1) by (force simp: copied_def)
    ultimately have "x \<notin> (\<lambda>k. fr (the (translate m' tp (page_at k)))) ` {..<j}" "inj_on (\<lambda>k. fr (the (translate m' tp (page_at k)))) {..<j}"
      using c by (auto simp: copied_def)
    then show ?thesis using new x(1) by (simp add: lessThan_Suc)
  qed
  moreover have "translate m' tp (page_at k) = None" if "Suc j \<le> k \<and> k < N" for k using c old [of k] that by (simp add: copied_def)
  ultimately show ?thesis by (simp add: copied_def)
qed

text \<open>The free slabs lie in pages of their own.\<close>

definition slabs :: "'a kmem_state_scheme \<Rightarrow> addr \<Rightarrow> addr list \<Rightarrow> addr list \<Rightarrow> bool" where
  "slabs s tp xs bs \<longleftrightarrow> slab_rep s bs \<and> (\<forall>b \<in> set bs. \<exists>q k. outside (mem s) tp xs q \<and> unat k < 1024 \<and> b + 4 = q + 4 * k)"

lemma slabs_moves:
  assumes s: "slabs s tp xs bs" and v: "moves tp (mem s) xs (mem t) ys" and f: "slab_free t = slab_free s" "slab_nfree t = slab_nfree s"
  shows "slabs t tp ys bs"
proof -
  have "ld32 (mem t) (b + 4) = ld32 (mem s) (b + 4) \<and> (\<exists>q k. outside (mem t) tp ys q \<and> unat k < 1024 \<and> b + 4 = q + 4 * k)" if "b \<in> set bs" for b
  proof -
    have "\<exists>q k. outside (mem s) tp xs q \<and> unat k < 1024 \<and> b + 4 = q + 4 * k" using s that unfolding slabs_def by (elim conjE) (rule bspec)
    then obtain q k where q: "outside (mem s) tp xs q" "unat k < 1024" "b + 4 = q + 4 * k" by (elim exE conjE)
    have "same_page (mem s) (mem t) q" "outside (mem t) tp ys q" using v q(1) unfolding moves_def by blast+
    moreover from this(1) have "ld32 (mem t) (b + 4) = ld32 (mem s) (b + 4)" unfolding q(3) by (rule same_page_ld [OF _ q(2)])
    ultimately show ?thesis using q(2,3) by blast
  qed
  then show ?thesis using s f flist_cong [of bs "mem t" "mem s"] by (simp add: slabs_def slab_rep_def)
qed

definition copy_inv ::
    "'a kmem_state_scheme \<Rightarrow> addr \<Rightarrow> addr \<Rightarrow> addr list \<Rightarrow> addr list \<Rightarrow> (nat \<Rightarrow> u32) \<Rightarrow> (nat \<Rightarrow> byte list) \<Rightarrow> nat \<Rightarrow> nat \<Rightarrow> bool" where
  "copy_inv s sp tp xs bs W C N j \<longleftrightarrow> pt_inv s tp xs \<and> slabs s tp xs bs \<and> source (mem s) sp tp xs W C N \<and> copied (mem s) tp xs W C N j \<and>
     (N - j) + card (lacking (mem s) tp j (N - j)) \<le> length xs \<and> N - j \<le> length bs"

lemma lacking_room:
  assumes i: "page_no i = j" and j: "j < N" and room: "(N - j) + card (lacking m tp j (N - j)) \<le> Suc (length zs)"
  shows "present (pde m tp (PDX i)) \<or> zs \<noteq> []"
proof (rule ccontr)
  assume n: "\<not> ?thesis"
  then have "PDX i \<in> lacking m tp j (N - j)" using i j by (auto simp: lacking_def intro!: exI [of _ i])
  then have "0 < card (lacking m tp j (N - j))" by (auto simp: card_gt_0_iff)
  then show False using room j n by simp
qed

lemma lacking_step:
  assumes pr: "\<And>d. unat d < 1024 \<Longrightarrow> present (pde m' tp d) \<longleftrightarrow> d = PDX i \<or> present (pde m tp d)" and i: "page_no i = j" and j: "j < N"
    and room: "(N - j) + card (lacking m tp j (N - j)) \<le> Suc (length zs)" and ys: "ys = (if present (pde m tp (PDX i)) then zs else tl zs)"
  shows "(N - Suc j) + card (lacking m' tp (Suc j) (N - Suc j)) \<le> length ys"
proof -
  let ?L = "lacking m tp j (N - j)"
  have sub: "lacking m' tp (Suc j) (N - Suc j) \<subseteq> ?L - {PDX i}"
  proof
    fix d assume "d \<in> lacking m' tp (Suc j) (N - Suc j)"
    then obtain a where a: "d = PDX a" "Suc j \<le> page_no a" "page_no a < Suc j + (N - Suc j)" "\<not> present (pde m' tp d)" by (auto simp: lacking_def)
    then show "d \<in> ?L - {PDX i}" using pr [OF index_less(1), of a] by (auto simp: lacking_def)
  qed
  have mem: "PDX i \<in> ?L \<longleftrightarrow> \<not> present (pde m tp (PDX i))" using i j by (auto simp: lacking_def intro!: exI [of _ i])
  have c: "card (lacking m' tp (Suc j) (N - Suc j)) \<le> card (?L - {PDX i})" by (rule card_mono [OF _ sub]) simp
  show ?thesis
    using c room j ys mem card_Diff_singleton [of "PDX i" ?L] card_gt_0_iff [of ?L] by (cases "present (pde m tp (PDX i))") auto
qed

lemma pt_inv_cong:
  "mem t = mem s \<Longrightarrow> kend t = kend s \<Longrightarrow> kmem_free t = kmem_free s \<Longrightarrow> kmem_nfree t = kmem_nfree s \<Longrightarrow> pt_inv t pg xs = pt_inv s pg xs"
  by (simp add: pt_inv_def kmem_rep_def)

lemma maybe_add_page:
  assumes sl: "slabs s tp ys bs" and inv: "pt_inv s tp ys" and ne: "bs \<noteq> []"
  shows "\<exists>t ds. kwhen c (add_page p va pid) s = Done () t \<and> slabs t tp ys ds \<and> length bs \<le> Suc (length ds) \<and> mem t = mem s \<and>
    pt_inv t tp ys \<and> kmem_state.more t = kmem_state.more s"
proof (cases c)
  case False
  then show ?thesis using sl inv by (intro exI [of _ s] exI [of _ bs]) (simp add: kop_simps)
next
  case True
  obtain b cs where bs: "bs = b # cs" using ne by (cases bs) auto
  obtain t where a: "add_page p va pid s = Done () t" "slab_rep t cs" "mem t = mem s" "kend t = kend s" "kmem_free t = kmem_free s"
      "kmem_nfree t = kmem_nfree s" "kmem_state.more t = kmem_state.more s"
    using add_page_run [of s b cs p va pid] sl unfolding slabs_def bs by blast
  have "slabs t tp ys cs" using sl a(2,3) unfolding slabs_def bs by simp
  then show ?thesis using True inv pt_inv_cong [OF a(3-6)] a by (intro exI [of _ t] exI [of _ cs]) (simp add: kop_simps bs)
qed

text \<open>The state after the frame \<open>x\<close> has been filled and mapped.\<close>

lemma copy_next:
  assumes inv: "copy_inv s sp tp (x # zs) bs W C N j" and j: "j < N" "N \<le> 2 ^ 19" and m1: "m1 = mem_write (mem s) x (C j)"
    and w: "w = V2P x OR PTE_FLAGS (W j) OR PTE_P"
    and t: "pt_inv t tp ys" "slabs t tp ys cs" "N - Suc j \<le> length cs" "moves tp m1 zs (mem t) ys"
      "\<And>a. translate (mem t) tp a = (if page_no a = j then Some w else translate m1 tp a)"
      "(N - Suc j) + card (lacking (mem t) tp (Suc j) (N - Suc j)) \<le> length ys"
  shows "copy_inv t sp tp ys cs W C N (Suc j)" "moves tp (mem s) (x # zs) (mem t) ys"
proof -
  have I: "pt_inv s tp (x # zs)" "source (mem s) sp tp (x # zs) W C N" "copied (mem s) tp (x # zs) W C N j" using inv by (simp_all add: copy_inv_def)
  have S: "present (W j)" "mem_read (mem s) (fr (W j)) 4096 = C j" "\<And>l. l < N \<Longrightarrow> outside (mem s) tp (x # zs) (fr (W l))"
    using I(2) j(1) by (auto simp: source_def)
  have len: "length (C j) = 4096" using S(2) by (metis length_mem_read)
  note M = moves_fill [OF I(1) len, folded m1]
  have xa: "page_aligned x" using M(2) by (simp add: outside_def)
  show v: "moves tp (mem s) (x # zs) (mem t) ys" by (rule moves_trans [OF M(1) t(4)])
  have "PTE_FLAGS (W j) OR PTE_P = PTE_FLAGS (W j)"
  proof -
    have "bit (W j) 0" using S(1) present_bit by blast
    moreover have f: "(0xFFF :: u32) = mask 12" "(1 :: u32) = mask 1" by (simp_all add: mask_eq_exp_minus_1)
    ultimately show ?thesis unfolding PTE_FLAGS_def PTE_P_def f by (intro bit_word_eqI) (auto simp: bit_simps)
  qed
  then have W: "fr w = x" "PTE_FLAGS w = PTE_FLAGS (W j)" using frame_entry(1,3) [OF xa, of "W j"] w by simp_all
  have c1: "copied m1 tp zs W C N j" by (rule copied_moves [OF I(3) M(1,3)]) (use j in simp)
  have "copied (mem t) tp ys W C N (Suc j)"
  proof (rule copied_next [OF c1 j t(4,5) W(1) M(2) _ W(2)])
    show "mem_read m1 x 4096 = C j" unfolding m1 by (rule page_written [OF len])
    show "\<forall>l < N. x \<noteq> fr (W l)" using S(3) by (auto simp: outside_def)
    show "fr v \<noteq> x" if "k < j" "translate m1 tp (page_at k) = Some v" for k v
      using I(3) that M(3) by (force simp: copied_def outside_def)
  qed
  then show "copy_inv t sp tp ys cs W C N (Suc j)" using t(1-3,6) source_moves [OF I(2) v] by (simp add: copy_inv_def)
qed

lemma copy_page:
  assumes inv: "copy_inv s sp tp xs bs W C N j" and j: "j < N" "N \<le> 2 ^ 19" and sz: "page_at j < sz"
  shows "\<exists>t ys cs. copyuvm_loop (Suc n) sp tp (page_at j) sz pid s = copyuvm_loop n sp tp (page_at j + PGSIZE) sz pid t \<and>
    copy_inv t sp tp ys cs W C N (Suc j) \<and> moves tp (mem s) xs (mem t) ys \<and> kmem_state.more t = kmem_state.more s"
proof -
  let ?i = "page_at j" and ?w = "W j"
  have I: "pt_inv s tp xs" "slabs s tp xs bs" "source (mem s) sp tp xs W C N" "copied (mem s) tp xs W C N j"
      "(N - j) + card (lacking (mem s) tp j (N - j)) \<le> length xs" "N - j \<le> length bs"
    using inv by (simp_all add: copy_inv_def)
  have jj: "j \<le> 2 ^ 19" using j by simp
  note PA = page_at [OF jj]
  have S: "present (pde (mem s) sp (PDX ?i))" "ptab (mem s) sp (PDX ?i) + 4 * PTX ?i \<noteq> 0"
      "ld32 (mem s) (ptab (mem s) sp (PDX ?i) + 4 * PTX ?i) = ?w" "present ?w" "mem_read (mem s) (fr ?w) 4096 = C j"
    using I(3) j(1) by (auto simp: source_def)
  obtain x zs where xs: "xs = x # zs" using I(5) j(1) by (cases xs) auto
  obtain s1 where s1: "kalloc s = Done x s1" "kmem_rep s1 zs" "mem s1 = mem s" "kept_but_mem s s1"
    using kalloc_first [of s x zs] I(1) by (auto simp: pt_inv_def xs)
  have x0: "x \<noteq> 0" using I(1) by (auto simp: pt_inv_def kmem_rep_def xs)
  have lenC: "length (C j) = 4096" using S(5) by (metis length_mem_read)
  define m1 where "m1 = mem_write (mem s) x (C j)"
  define s2 where "s2 = set_mem m1 s1"
  note M = moves_fill [OF I(1) [unfolded xs] lenC, folded m1_def]
  have i2: "pt_inv s2 tp zs" using M(5) [OF s1(2,3)] s1(4) by (simp add: s2_def kept_but_mem_def)
  have un: "translate (mem s2) tp ?i = None" using I(4) j(1) M(3) by (simp add: s2_def copied_def)
  define v where "v = V2P x OR PTE_FLAGS ?w OR PTE_P"
  have rm: "present (pde (mem s2) tp (PDX ?i)) \<or> zs \<noteq> []"
    using lacking_room [OF PA(1) j(1), of "mem s" tp zs] I(5) M(4) [OF index_less(1)] by (simp add: s2_def xs)
  obtain s3 ys p where s3: "mappages tp ?i PGSIZE (V2P x) (PTE_FLAGS ?w) s2 = Done 0 s3" "pt_inv s3 tp ys" "kept_but_mem s2 s3"
      "ys = (if present (pde (mem s2) tp (PDX ?i)) then zs else tl zs)" "walkpgdir tp ?i False s3 = Done p s3" "p \<noteq> 0" "ld32 (mem s3) p = v"
      "\<forall>a. translate (mem s3) tp a = (if page_no a = page_no ?i then Some v else translate (mem s2) tp a)"
      "\<forall>d. unat d < 1024 \<longrightarrow> present (pde (mem s3) tp d) \<longleftrightarrow> d = PDX ?i \<or> present (pde (mem s2) tp d)"
      "moves tp (mem s2) zs (mem s3) ys"
    using map_page [OF i2 PA(2) un rm v_def] unfolding moves_def by blast
  have K: "kept_but_mem s s3" using s1(4) s3(3) by (simp add: kept_but_mem_def s2_def)
  have lk: "(N - Suc j) + card (lacking (mem s3) tp (Suc j) (N - Suc j)) \<le> length ys"
    using s3(4,9) M(4) I(5) by (intro lacking_step [OF _ PA(1) j(1), of "mem s3" tp "mem s" zs ys]) (simp_all add: s2_def xs index_less(1))
  have sl: "slabs s3 tp ys bs"
    using slabs_moves [OF I(2), of s3 ys] moves_trans [OF M(1), of "mem s3" ys] s3(10) K by (simp add: xs s2_def kept_but_mem_def)
  have "bs \<noteq> []" using I(6) j(1) by auto
  then obtain t ds where t: "kwhen (?i > 0 \<and> v AND PTE_U \<noteq> 0) (add_page p ?i pid) s3 = Done () t" "slabs t tp ys ds" "length bs \<le> Suc (length ds)"
      "mem t = mem s3" "pt_inv t tp ys" "kmem_state.more t = kmem_state.more s3"
    using maybe_add_page [OF sl s3(2)] by blast
  have run: "copyuvm_loop (Suc n) sp tp ?i sz pid s = copyuvm_loop n sp tp (?i + PGSIZE) sz pid t"
    using sz walk_present [OF S(1), of False] S(2-5) s1(1,3) x0 s3(1,5-7) t(1)
    by (simp add: kop_simps s2_def m1_def)
  have cp: "copy_inv t sp tp ys ds W C N (Suc j)" "moves tp (mem s) (x # zs) (mem t) ys"
    using copy_next [OF inv [unfolded xs] j m1_def v_def t(5,2)] s3(8,10) lk t(3,4) I(6) PA(1) by (simp_all add: s2_def)
  have "kmem_state.more t = kmem_state.more s" using t(6) K by (simp add: kept_but_mem_def)
  then show ?thesis using run cp xs by blast
qed

lemma page_at_Suc: "page_at j + PGSIZE = page_at (Suc j)"
  by (simp add: page_at_def PGSIZE_def)

lemma copy_loop:
  assumes "copy_inv s sp tp xs bs W C N j" "j \<le> N" "N \<le> 2 ^ 19" "N = (unat sz + 4095) div 4096" "N - j \<le> n"
  shows "\<exists>t ys cs. copyuvm_loop n sp tp (page_at j) sz pid s = Done False t \<and> copy_inv t sp tp ys cs W C N N \<and>
    kmem_state.more t = kmem_state.more s"
  using assms
proof (induction n arbitrary: j s xs bs)
  case 0
  then have "j = N" by simp
  moreover have "\<not> page_at N < sz" using page_at(3) [of N] 0(3,4) by (simp add: word_less_nat_alt)
  ultimately show ?case using 0(1) by (intro exI [of _ s] exI) (simp add: kop_simps)
next
  case (Suc n)
  show ?case
  proof (cases "j = N")
    case True
    moreover have "\<not> page_at N < sz" using page_at(3) [of N] Suc.prems(3,4) by (simp add: word_less_nat_alt)
    ultimately show ?thesis using Suc.prems(1) by (intro exI [of _ s] exI) (simp add: kop_simps)
  next
    case False
    then have j: "j < N" using Suc.prems(2) by simp
    have "page_at j < sz" using page_at(3) [of j] j Suc.prems(3,4) by (simp add: word_less_nat_alt)
    then obtain t ys cs where t: "copyuvm_loop (Suc n) sp tp (page_at j) sz pid s = copyuvm_loop n sp tp (page_at (Suc j)) sz pid t"
        "copy_inv t sp tp ys cs W C N (Suc j)" "kmem_state.more t = kmem_state.more s"
      using copy_page [OF Suc.prems(1) j Suc.prems(3), of sz n pid] unfolding page_at_Suc by blast
    show ?thesis unfolding t(1) using Suc.IH [OF t(2) _ Suc.prems(3,4)] j Suc.prems(5) t(3) by simp
  qed
qed

text \<open>
  C14 (fork): the loop of \<^verbatim>\<open>copyuvm\<close> over an address space whose pages are in memory, with enough free pages and slabs, ends
  without an error. Every page of the new address space then has the contents and the permissions of the page it
  copies, in a frame that no other page of the two processes uses, and the pages, tables and contents of the original are
  as before.
\<close>

theorem copyuvm_copies:
  assumes "pt_inv s tp xs" "slabs s tp xs bs" "source (mem s) sp tp xs W C N" "N = (unat sz + 4095) div 4096" "sz \<le> KERNBASE"
    and "\<forall>k < N. translate (mem s) tp (page_at k) = None" "N + card (lacking (mem s) tp 0 N) \<le> length xs" "N \<le> length bs"
  shows "\<exists>t ys. copyuvm_loop (2 ^ 20) sp tp 0 sz pid s = Done False t \<and> pt_inv t tp ys \<and> source (mem t) sp tp ys W C N \<and>
    (\<forall>k < N. \<exists>w. translate (mem t) tp (page_at k) = Some w \<and> PTE_FLAGS w = PTE_FLAGS (W k) \<and>
       mem_read (mem t) (fr w) 4096 = C k \<and> (\<forall>l < N. fr w \<noteq> fr (W l))) \<and>
    inj_on (\<lambda>k. fr (the (translate (mem t) tp (page_at k)))) {..<N} \<and> kmem_state.more t = kmem_state.more s"
proof -
  have "unat sz \<le> 2 ^ 31" using assms(5) by (simp add: word_le_nat_alt KERNBASE_def)
  then have N: "N \<le> 2 ^ 19" unfolding assms(4) by simp
  have "copied (mem s) tp xs W C N 0" using assms(6) by (simp add: copied_def)
  then have c: "copy_inv s sp tp xs bs W C N 0" using assms(1-3,7,8) by (simp add: copy_inv_def)
  have fuel: "N - 0 \<le> 2 ^ 20" using N by simp
  obtain t ys cs where t: "copyuvm_loop (2 ^ 20) sp tp (page_at 0) sz pid s = Done False t" "copy_inv t sp tp ys cs W C N N"
      "kmem_state.more t = kmem_state.more s"
    using copy_loop [OF c le0 N assms(4) fuel, of pid] by blast
  have "page_at 0 = 0" by (simp add: page_at_def)
  then show ?thesis using t by (intro exI [of _ t] exI [of _ ys]) (auto simp: copy_inv_def copied_def)
qed

text \<open>The page of the running process, copied for a directory without entries.\<close>

definition demo_fork_mem :: memory where
  "demo_fork_mem = st32 demo_mem 0x80501004 0x80502000"

definition demo_fork :: fs_state where
  "demo_fork = demo_state\<lparr>mem := demo_fork_mem, kmem_free := 0x80501000, kmem_nfree := 2, slab_free := 0x80600000, slab_nfree := 1\<rparr>"

lemma demo_fork_words:
  "ld32 demo_fork_mem 0x80501004 = 0x80502000" "ld32 demo_fork_mem 0x80502004 = 0" "ld32 demo_fork_mem 0x80600004 = 0"
  "ld32 demo_fork_mem 0x80400000 = 0x401007" "ld32 demo_fork_mem 0x80401000 = 0x402007"
  by code_simp+

lemma demo_fork_dir:
  assumes "unat d < 1024"
  shows "pde demo_fork_mem 0x80500000 d = 0"
proof -
  have "same_page m (st32 m 0x80400000 v) 0x80500000" "same_page m (st32 m 0x80401000 v) 0x80500000" "same_page m (st32 m 0x80402000 v) 0x80500000"
      "same_page m (st32 m 0x80501004 v) 0x80500000" for m v
    using same_page_st [of "0x80400000" "0x80500000" 0 m v] same_page_st [of "0x80401000" "0x80500000" 0 m v]
      same_page_st [of "0x80402000" "0x80500000" 0 m v] same_page_st [of "0x80501000" "0x80500000" 1 m v] by (simp_all add: page_aligned_def)
  then have "same_page (\<lambda>_. 0) demo_fork_mem 0x80500000" unfolding demo_fork_mem_def demo_mem_def by (meson same_page_trans)
  from same_page_ld [OF this assms] show ?thesis by (simp add: pde_def ld32_def word_of_bytes_def)
qed

lemma demo_fork_outside: "page_aligned q \<Longrightarrow> q \<notin> {0x80500000, 0x80501000, 0x80502000} \<Longrightarrow> outside demo_fork_mem 0x80500000 [0x80501000, 0x80502000] q"
  by (auto simp: outside_def demo_fork_dir)

lemma demo_fork_ok:
  "pt_inv demo_fork 0x80500000 [0x80501000, 0x80502000]" "slabs demo_fork 0x80500000 [0x80501000, 0x80502000] [0x80600000]"
  "source demo_fork_mem 0x80400000 0x80500000 [0x80501000, 0x80502000] (\<lambda>_. 0x402007) (\<lambda>_. mem_read demo_fork_mem 0x80402000 4096) 1"
proof -
  have m: "mem demo_fork = demo_fork_mem" "kend demo_fork = 0x80200000" by (simp_all add: demo_fork_def)
  have "kmem_rep demo_fork [0x80501000, 0x80502000]" using demo_fork_words by (simp add: kmem_rep_def page_valid_def layout_defs) (simp add: demo_fork_def)
  then show "pt_inv demo_fork 0x80500000 [0x80501000, 0x80502000]" unfolding pt_inv_def m by (auto simp: demo_fork_dir page_valid_def layout_defs)
  have "slab_rep demo_fork [0x80600000]" using demo_fork_words by (simp add: slab_rep_def block_aligned_def) (simp add: demo_fork_def)
  moreover have "\<exists>q k. outside demo_fork_mem 0x80500000 [0x80501000, 0x80502000] q \<and> unat k < 1024 \<and> (0x80600004 :: u32) = q + 4 * k"
    by (rule exI [of _ "0x80600000 :: addr"], rule exI [of _ "1 :: u32"]) (simp add: demo_fork_outside page_aligned_def)
  ultimately show "slabs demo_fork 0x80500000 [0x80501000, 0x80502000] [0x80600000]" by (simp add: slabs_def m)
  have a: "page_at 0 = 0" "PDX 0 = 0" "PTX 0 = 0" "P2V (PTE_ADDR 0x401007) = 0x80401000" "P2V (PTE_ADDR 0x402007) = 0x80402000"
      "present 0x401007" "present 0x402007"
    by code_simp+
  show "source demo_fork_mem 0x80400000 0x80500000 [0x80501000, 0x80502000] (\<lambda>_. 0x402007) (\<lambda>_. mem_read demo_fork_mem 0x80402000 4096) 1"
    using demo_fork_outside demo_fork_words by (simp add: source_def a pde_def ptab_def page_aligned_def)
qed

theorem copyuvm_copies_witness:
  "\<exists>t w. copyuvm_loop (2 ^ 20) 0x80400000 0x80500000 0 4096 2 demo_fork = Done False t \<and> translate (mem t) 0x80500000 0 = Some w \<and>
     fr w \<noteq> 0x80402000 \<and> mem_read (mem t) (fr w) 4096 = mem_read demo_fork_mem 0x80402000 4096"
proof -
  have m: "mem demo_fork = demo_fork_mem" by (simp add: demo_fork_def)
  have a: "page_at 0 = 0" "P2V (PTE_ADDR 0x402007) = 0x80402000" by code_simp+
  have tr: "translate demo_fork_mem 0x80500000 v = None" for v using demo_fork_dir [OF index_less(1)] by (simp add: translate_def entry_def)
  have "lacking demo_fork_mem 0x80500000 0 1 \<subseteq> {0}" by (auto simp: lacking_def word_unat_eq_iff PDX_unat)
  then have "card (lacking demo_fork_mem 0x80500000 0 1) \<le> 1" using card_mono [of "{0 :: u32}" "lacking demo_fork_mem 0x80500000 0 1"] by simp
  then show ?thesis
    using copyuvm_copies [OF demo_fork_ok(1,2) demo_fork_ok(3) [folded m], of 4096 2] tr by (auto simp: m a KERNBASE_def)
qed

end
