(* ===== verification/Spec2Isabelle.thy ===== *)
theory Spec2Isabelle
  imports Trap Pipe_Fifo Scheduling Lock_Protocol Mkfs_Files Grep Coreutils Umalloc Shell_Grammar Boot Page_Tables Init Proc_List Paths Fork_Memory
begin

text \<open>
  \<^bold>\<open>yonix\<close> is a Unix-like teaching kernel for 32-bit x86 with one processor, a file system with a
  write-ahead log, paging to a swap disk, threads, three scheduling classes, a shell and user programs.
  This development models the C code of the repository (all files below are in \<^verbatim>\<open>src/src/\<close>) and proves
  the properties that make its parts correct.

  \<^bold>\<open>How the program is put together.\<close> \<^verbatim>\<open>bootmain\<close> loads the kernel; \<^verbatim>\<open>main\<close> sets up memory, descriptor
  tables and devices and starts the first process; from then on the kernel runs in traps and in the
  scheduler. A system call fetches its arguments from the user stack and works on the process table, on
  open files (a file is an inode, a device or an end of a pipe) or on the address space. Inodes are read
  and written through the block cache; a change goes through the log, which makes the calls between
  \<^verbatim>\<open>begin_op\<close> and \<^verbatim>\<open>end_op\<close> atomic. Pages come from the page allocator, which writes a user page to the
  swap disk when none is free. A process that waits sleeps on a channel; \<^verbatim>\<open>wakeup\<close> makes it ready and
  hands it to the scheduling class. \<^verbatim>\<open>mkfs\<close> builds the first file system on the host.

  \<^bold>\<open>How it is modelled.\<close> A kernel routine is a function from a state to a result (\<open>Yonix_Prelude\<close>):
  \<open>Done\<close> with a value and the new state, \<open>Slept\<close> when the process gives up the processor in the
  middle of the routine, \<open>Panicked\<close>, or \<open>Fault\<close> for an access that C leaves undefined (a null pointer, an
  index outside an array, memory that was freed). The state is an extensible record that grows along the
  layers of the code: kernel memory and its allocators (\<open>kmem_state\<close>), the process table and the
  scheduler (\<open>proc_state\<close>), buffers, log, inodes, files and pipes (\<open>fs_state\<close>), the console
  (\<open>cons_state\<close>). Memory is a function from 32-bit addresses to bytes, so that free lists and page tables lie
  in it as in the machine; integers have the width of the code. A routine that sleeps ends there with \<open>Slept\<close>; when
  its process runs again the code goes on at the test of the loop around the sleep. For sleep locks, semaphores,
  \<^verbatim>\<open>begin_op\<close>, \<^verbatim>\<open>wait\<close> and \<^verbatim>\<open>piperead\<close>, which have changed nothing before they sleep, that is calling them again. Where
  the loop has made progress, its continuation is a definition of its own: \<open>pipewrite_from\<close> takes the index
  reached (\<open>pipewrite_call\<close> is the whole call with its sleeps), \<open>sys_sleep_loop\<close> the tick of the start,
  \<open>consoleread_loop\<close> the bytes read so far. A caller that is suspended inside the sleep of a routine it has called
  is not resumed by the model. User programs are functions from their
  arguments and the answers of the kernel to the calls they make.

  \<^bold>\<open>Theories and sources.\<close>
    \<^item> \<open>Yonix_Prelude\<close>: result type, combinators, weakest preconditions, little-endian access to memory.
    \<^item> \<open>Tail_Queue\<close> (\<^verbatim>\<open>queue_netbsd.h\<close>), \<open>Cstring\<close> (\<^verbatim>\<open>string.c\<close>).
    \<^item> \<open>Kmem\<close> (\<^verbatim>\<open>kalloc.c\<close>, the swap part of \<^verbatim>\<open>vm.c\<close>, the swap transfers of \<^verbatim>\<open>ide.c\<close>), \<open>Vm\<close> (\<^verbatim>\<open>vm.c\<close>),
      \<open>Page_Tables\<close> (properties of \<^verbatim>\<open>mappages\<close>), \<open>Swapping\<close> (properties of \<^verbatim>\<open>kalloc\<close>, \<^verbatim>\<open>page_out\<close> and \<^verbatim>\<open>page_in\<close>),
      \<open>Fork_Memory\<close> (properties of \<^verbatim>\<open>copyuvm\<close>).
    \<^item> \<open>Proc_State\<close> (\<^verbatim>\<open>proc.h\<close>), \<open>Sched\<close> (\<^verbatim>\<open>scheduler_class.c\<close>, \<^verbatim>\<open>schedule.c\<close>), \<open>Sync\<close> (\<^verbatim>\<open>sleeplock.c\<close>,
      \<^verbatim>\<open>semaphore.c\<close>, \<^verbatim>\<open>atomic.c\<close>), \<open>Process\<close> (\<^verbatim>\<open>process.c\<close>), \<open>Proc_List\<close> (its listings), \<open>Exec\<close> (\<^verbatim>\<open>exec.c\<close>,
      \<^verbatim>\<open>elf.h\<close>); properties in \<open>Scheduling\<close> and \<open>Lock_Protocol\<close>.
    \<^item> \<open>Bio\<close> (\<^verbatim>\<open>bio.c\<close>, \<^verbatim>\<open>memide.c\<close>), \<open>Log\<close> (\<^verbatim>\<open>log.c\<close>), \<open>Fs\<close> (\<^verbatim>\<open>fs.c\<close>), \<open>File\<close> (\<^verbatim>\<open>file.c\<close>, \<^verbatim>\<open>pipe.c\<close>), \<open>Ide\<close>
      (\<^verbatim>\<open>ide.c\<close>); properties in \<open>Bcache\<close>, \<open>Log_Recovery\<close>, \<open>Transaction\<close>, \<open>Block_Alloc\<close>, \<open>File_Data\<close>,
      \<open>Directory\<close>, \<open>Paths\<close>, \<open>Pipe_Fifo\<close>.
    \<^item> \<open>Syscall\<close> (\<^verbatim>\<open>syscall.c\<close>, \<^verbatim>\<open>sysfile.c\<close>), \<open>Trap\<close> (\<^verbatim>\<open>sysproc.c\<close>, \<^verbatim>\<open>trap.c\<close>, \<^verbatim>\<open>main.c\<close>), \<open>Console\<close> (\<^verbatim>\<open>console.c\<close>,
      \<^verbatim>\<open>kbd.c\<close>), \<open>Console_Out\<close> (\<^verbatim>\<open>cprintf\<close>, \<^verbatim>\<open>panic\<close>, \<^verbatim>\<open>procutils.c\<close>), \<open>Devices\<close> (\<^verbatim>\<open>picirq.c\<close>, \<^verbatim>\<open>timer.c\<close>, \<^verbatim>\<open>uart.c\<close>,
      \<^verbatim>\<open>seginit\<close>, \<^verbatim>\<open>trapvecinit\<close>, \<^verbatim>\<open>ideinit\<close>), \<open>Boot\<close> (\<^verbatim>\<open>bootmain.c\<close>).
    \<^item> \<open>Mkfs\<close> (\<^verbatim>\<open>mkfs.c\<close>), with its properties in \<open>Mkfs_Image\<close> and \<open>Mkfs_Files\<close>.
    \<^item> \<open>Ulib\<close> (\<^verbatim>\<open>ulib.c\<close>, \<^verbatim>\<open>printf.c\<close>), \<open>Umalloc\<close> (\<^verbatim>\<open>umalloc.c\<close>), \<open>Grep\<close>, \<open>Coreutils\<close>, \<open>Shell\<close> (\<^verbatim>\<open>sh.c\<close>), \<open>Shell_Grammar\<close>
      (the grammar of its commands and the properties of its parser), \<open>Init\<close>.
    \<^item> \<open>Demo\<close>: the concrete machine the witnesses of the properties run on.

  \<^bold>\<open>Interfaces.\<close> Each locale is a contract one layer gives the next, interpreted on the model's own
  routines: \<open>fifo_queue\<close> (tail queues, by the linked structure and by lists), \<open>block_cache\<close> (what \<^verbatim>\<open>bread\<close>,
  \<^verbatim>\<open>bwrite\<close> and \<^verbatim>\<open>brelse\<close> promise the log), \<open>logged_store\<close> (what an open transaction promises the file system),
  \<open>inode_refs\<close> (what the inode cache promises the walk through a path), \<open>sleep_lock\<close> (for the lock of a buffer and
  for that of an inode), \<open>byte_channel\<close> (pipes).

  \<^bold>\<open>What is proved.\<close>
    \<^item> \<^emph>\<open>Log.\<close> After a crash at any of the disk writes of a commit, recovery gives all blocks of the
      transaction or none; a commit that returns is durable; recovery installs the logged blocks and empties the log on the disk, so that
      a second one changes nothing; a whole transaction of
      arbitrary block updates is atomic.
    \<^item> \<^emph>\<open>Files.\<close> \<^verbatim>\<open>balloc\<close> takes the first free block, \<^verbatim>\<open>balloc\<close> and \<^verbatim>\<open>bfree\<close> change exactly one bit of the bitmap; \<^verbatim>\<open>readi\<close> and \<^verbatim>\<open>writei\<close> read and write
      the bytes of the file; a directory is a map from names to inodes that \<^verbatim>\<open>dirlookup\<close> reads and \<^verbatim>\<open>dirlink\<close>
      extends; \<^verbatim>\<open>namei\<close> and \<^verbatim>\<open>nameiparent\<close> end where the walk through these maps ends, lock nothing for good and
      lose no reference of the inode cache, which is abstracted to the number of references to each inode; the
      splitting of paths is right; the kernel finds in the image of \<^verbatim>\<open>mkfs\<close> the files
      that were put there; the queue of the IDE driver does what a synchronous disk does, in order.
    \<^item> \<^emph>\<open>Memory.\<close> \<^verbatim>\<open>kalloc\<close> gives the first free page, the frame of the page it pages out when there is none, or panics; \<^verbatim>\<open>freerange\<close>
      ends and frees the range; \<^verbatim>\<open>mappages\<close> changes the translation of the range only; paging out and in changes
      the contents of no user page, and after a page fault the process reads what the page held, as long as the swap drive reports no
      error (\<open>drive_ok\<close>; the code does not look at the results of the transfers, and a failed one loses the page); \<^verbatim>\<open>copyuvm\<close> gives a new process
      copies of all pages in frames of its own; the blocks of \<^verbatim>\<open>malloc\<close>
      never overlap; \<^verbatim>\<open>memmove\<close> copes with overlap.
    \<^item> \<^emph>\<open>Processes.\<close> Round robin passes a ready process over at most 64 times; the priority class chooses a
      ready process of the best priority, as long as its queues list the ready processes (\<open>pri_inv\<close>, which \<^verbatim>\<open>wakeup\<close>,
      yielding and the class itself keep); \<^verbatim>\<open>wakeup\<close> wakes exactly the sleepers of its channel; sleep locks exclude
      each other in every interleaving in which no process tests the lock between the test and the store of another, and do not
      in some that have such a test; pipes are bounded queues across the wrap-around of their counters, and a \<^verbatim>\<open>pipewrite\<close>
      puts each of its bytes in once, however often it sleeps; the linked tail
      queues are lists after any sequence of operations.
    \<^item> \<^emph>\<open>Machine.\<close> The boot loader leaves every segment of the kernel in place; the interrupt table lets
      user code raise the system call only; after the set-up exactly the lines of the devices are open; printing
      never leaves the screen.
    \<^item> \<^emph>\<open>User programs.\<close> The parser of the shell ends on every line and accepts exactly what the grammar of commands
      derives, with the tree it derives; the matcher of
      \<^verbatim>\<open>grep\<close> accepts the language of its pattern and \<^verbatim>\<open>grep\<close> prints the matching lines; \<^verbatim>\<open>wc\<close> counts; numbers are printed
      so that \<^verbatim>\<open>atoi\<close> reads them back.

  \<^bold>\<open>Bounds and fuel.\<close> Loops over pages carry the number of pages of the address space, \<open>2 ^ 20\<close>, as
  fuel; their steps are one page and the bounds are page aligned, so no page is visited twice. The loop that
  makes slabs has fuel 128, the slabs of a page; a number has at most 32 digits; loops over tables have the length of the
  table. Loops that the code does not bound (polling a device, following a list in the memory of the
  program) are partial functions with value \<open>None\<close> when they do not end, and the properties about them
  show that they end: \<open>malloc\<close> and \<open>free\<close> on a heap they have built themselves, the boot loader
  when the drive answers ready again and again, the device set-up when the drive is not busy for ever.

  \<^bold>\<open>Not modelled.\<close> The assembly files: a context switch is the hand-over between the coroutines of \<open>Sched\<close>,
  and a trap starts with the trap frame. The task state segment, the first page directory \<^verbatim>\<open>entrypgdir\<close> and the
  banner \<^verbatim>\<open>prtwelcome\<close>: constants. The test programs. \<^verbatim>\<open>pipe1.c\<close>, \<^verbatim>\<open>console1.c\<close>, \<^verbatim>\<open>sysfile_win_code.c\<close> and the
  directory \<^verbatim>\<open>unknown\<close>: superseded copies outside the build. Interrupts: a routine of the
  model runs without one, and an interrupt is a step between routines; only \<open>Lock_Protocol\<close> takes \<^verbatim>\<open>acquiresleep\<close> apart into its
  test and its stores. The code is weaker than that: the gate
  of the system call leaves interrupts enabled, the timer interrupt may take the processor from a process inside a
  system call, and only \<^verbatim>\<open>atomic.c\<close> and \<^verbatim>\<open>semaphore.c\<close> turn interrupts off; what such a preemption does
  to the kernel's data is outside the model.
\<close>

end
